(* ===== verification/Codec.thy ===== *)
theory Codec
  imports Prelude
begin

text \<open>
  The wire codecs of \<^verbatim>\<open>crates/cv_ipc/src/codec.rs\<close> and the in-process message pipe of
  \<^verbatim>\<open>crates/cv_ipc/src/pipe.rs\<close>. A \<open>Writer\<close> is its byte vector, a \<open>Reader\<close> a buffer and a
  cursor; a decoder returns an error or the value with the moved cursor. \<open>f32\<close> and \<open>f64\<close> are
  their bit patterns, as \<open>from_bits\<close> and \<open>to_le_bytes\<close> treat them; \<open>i32\<close> and \<open>i64\<close> are
  integers read through two's complement. A Rust \<open>String\<close> is a byte list that
  \<open>String::from_utf8\<close> accepts.
\<close>

section \<open>Integers as bytes, and UTF-8\<close>

definition le_bytes :: "nat \<Rightarrow> 'a::len word \<Rightarrow> bytes" where
  "le_bytes n w = map (\<lambda>i. ucast (drop_bit (8 * i) w)) [0..<n]"

fun from_le :: "bytes \<Rightarrow> 'a::len word" where
  "from_le [] = 0"
| "from_le (b # bs) = push_bit 8 (from_le bs) OR ucast b"

definition be_bytes :: "nat \<Rightarrow> 'a::len word \<Rightarrow> bytes" where
  "be_bytes n w = rev (le_bytes n w)"

definition from_be :: "bytes \<Rightarrow> 'a::len word" where
  "from_be bs = from_le (rev bs)"

lemma length_be_bytes [simp]: "length (be_bytes n w) = n"
  by (simp add: be_bytes_def le_bytes_def)

definition utf8_cont :: "u8 \<Rightarrow> bool" where
  "utf8_cont b \<longleftrightarrow> 0x80 \<le> b \<and> b \<le> 0xBF"

definition utf8_two :: "u8 \<Rightarrow> u8 \<Rightarrow> bool" where
  "utf8_two a b \<longleftrightarrow> 0xC2 \<le> a \<and> a \<le> 0xDF \<and> utf8_cont b"

definition utf8_three :: "u8 \<Rightarrow> u8 \<Rightarrow> u8 \<Rightarrow> bool" where
  "utf8_three a b c \<longleftrightarrow>
     (a = 0xE0 \<and> 0xA0 \<le> b \<and> b \<le> 0xBF \<or> a = 0xED \<and> 0x80 \<le> b \<and> b \<le> 0x9F \<or>
      (0xE1 \<le> a \<and> a \<le> 0xEC \<or> 0xEE \<le> a \<and> a \<le> 0xEF) \<and> utf8_cont b) \<and> utf8_cont c"

definition utf8_four :: "u8 \<Rightarrow> u8 \<Rightarrow> u8 \<Rightarrow> u8 \<Rightarrow> bool" where
  "utf8_four a b c d \<longleftrightarrow>
     (a = 0xF0 \<and> 0x90 \<le> b \<and> b \<le> 0xBF \<or> a = 0xF4 \<and> 0x80 \<le> b \<and> b \<le> 0x8F \<or>
      0xF1 \<le> a \<and> a \<le> 0xF3 \<and> utf8_cont b) \<and> utf8_cont c \<and> utf8_cont d"

fun utf8_valid :: "bytes \<Rightarrow> bool" where
  "utf8_valid [] = True"
| "utf8_valid (a # as) =
     (if a < 0x80 then utf8_valid as
      else case as of
        [] \<Rightarrow> False
      | b # bs \<Rightarrow>
          if utf8_two a b then utf8_valid bs
          else (case bs of
            [] \<Rightarrow> False
          | c # cs \<Rightarrow>
              if utf8_three a b c then utf8_valid cs
              else (case cs of
                [] \<Rightarrow> False
              | d # ds \<Rightarrow> utf8_four a b c d \<and> utf8_valid ds)))"

section \<open>Writer\<close>

datatype decode_error = Truncated | InvalidUtf8 | OutOfRange

type_synonym writer = bytes

definition write_u8 :: "writer \<Rightarrow> u8 \<Rightarrow> writer" where
  "write_u8 w v = w @ [v]"

definition write_u16 :: "writer \<Rightarrow> u16 \<Rightarrow> writer" where
  "write_u16 w v = w @ le_bytes 2 v"

definition write_u32 :: "writer \<Rightarrow> u32 \<Rightarrow> writer" where
  "write_u32 w v = w @ le_bytes 4 v"

definition write_u64 :: "writer \<Rightarrow> u64 \<Rightarrow> writer" where
  "write_u64 w v = w @ le_bytes 8 v"

definition write_i32 :: "writer \<Rightarrow> int \<Rightarrow> writer" where
  "write_i32 w v = w @ le_bytes 4 (word_of_int v :: u32)"

definition write_i64 :: "writer \<Rightarrow> int \<Rightarrow> writer" where
  "write_i64 w v = w @ le_bytes 8 (word_of_int v :: u64)"

definition write_f32 :: "writer \<Rightarrow> u32 \<Rightarrow> writer" where
  "write_f32 w v = w @ le_bytes 4 v"

definition write_f64 :: "writer \<Rightarrow> u64 \<Rightarrow> writer" where
  "write_f64 w v = w @ le_bytes 8 v"

definition write_bool :: "writer \<Rightarrow> bool \<Rightarrow> writer" where
  "write_bool w v = write_u8 w (if v then 1 else 0)"

definition write_bytes :: "writer \<Rightarrow> bytes \<Rightarrow> writer" where
  "write_bytes w b = write_u32 w (of_nat (length b)) @ b"

definition write_str :: "writer \<Rightarrow> bytes \<Rightarrow> writer" where
  "write_str w s = write_bytes w s"

section \<open>Reader\<close>

record reader =
  rd_buf :: bytes
  rd_pos :: nat

type_synonym 'a decoder = "reader \<Rightarrow> decode_error + ('a \<times> reader)"

definition reader_new :: "bytes \<Rightarrow> reader" where
  "reader_new b = \<lparr>rd_buf = b, rd_pos = 0\<rparr>"

definition remaining :: "reader \<Rightarrow> nat" where
  "remaining r = length (rd_buf r) - rd_pos r"

definition reader_take :: "nat \<Rightarrow> bytes decoder" where
  "reader_take n r =
     (if remaining r < n then Inl Truncated
      else Inr (take n (drop (rd_pos r) (rd_buf r)), r\<lparr>rd_pos := rd_pos r + n\<rparr>))"

definition read_u8 :: "u8 decoder" where
  "read_u8 r = rbind (reader_take 1 r) (\<lambda>(b, r). Inr (b ! 0, r))"

definition read_u16 :: "u16 decoder" where
  "read_u16 r = rbind (reader_take 2 r) (\<lambda>(b, r). Inr (from_le b, r))"

definition read_u32 :: "u32 decoder" where
  "read_u32 r = rbind (reader_take 4 r) (\<lambda>(b, r). Inr (from_le b, r))"

definition read_u64 :: "u64 decoder" where
  "read_u64 r = rbind (reader_take 8 r) (\<lambda>(b, r). Inr (from_le b, r))"

definition read_i32 :: "int decoder" where
  "read_i32 r = rbind (read_u32 r) (\<lambda>(v, r). Inr (sint v, r))"

definition read_i64 :: "int decoder" where
  "read_i64 r = rbind (read_u64 r) (\<lambda>(v, r). Inr (sint v, r))"

definition read_f32 :: "u32 decoder" where
  "read_f32 r = read_u32 r"

definition read_f64 :: "u64 decoder" where
  "read_f64 r = read_u64 r"

definition read_bool :: "bool decoder" where
  "read_bool r = rbind (read_u8 r) (\<lambda>(v, r). Inr (v \<noteq> 0, r))"

definition read_bytes :: "bytes decoder" where
  "read_bytes r = rbind (read_u32 r) (\<lambda>(n, r). reader_take (unat n) r)"

definition read_str :: "bytes decoder" where
  "read_str r =
     rbind (read_bytes r) (\<lambda>(b, r). if utf8_valid b then Inr (b, r) else Inl InvalidUtf8)"

section \<open>Generic Encode and Decode instances\<close>

text \<open>An \<open>Encode\<close> instance is a function from the value and the writer to the writer.\<close>

definition vec_encode :: "('a \<Rightarrow> writer \<Rightarrow> writer) \<Rightarrow> 'a list \<Rightarrow> writer \<Rightarrow> writer" where
  "vec_encode enc xs w = fold enc xs (write_u32 w (of_nat (length xs)))"

fun decode_n :: "'a decoder \<Rightarrow> nat \<Rightarrow> 'a list \<Rightarrow> 'a list decoder" where
  "decode_n dec 0 out r = Inr (out, r)"
| "decode_n dec (Suc n) out r = rbind (dec r) (\<lambda>(x, r). decode_n dec n (out @ [x]) r)"

definition vec_decode :: "'a decoder \<Rightarrow> 'a list decoder" where
  "vec_decode dec r = rbind (read_u32 r) (\<lambda>(n, r). decode_n dec (unat n) [] r)"

definition option_encode :: "('a \<Rightarrow> writer \<Rightarrow> writer) \<Rightarrow> 'a option \<Rightarrow> writer \<Rightarrow> writer" where
  "option_encode enc x w =
     (case x of Some v \<Rightarrow> enc v (write_bool w True) | None \<Rightarrow> write_bool w False)"

definition option_decode :: "'a decoder \<Rightarrow> 'a option decoder" where
  "option_decode dec r =
     rbind (read_bool r) (\<lambda>(present, r).
       if present then rbind (dec r) (\<lambda>(x, r). Inr (Some x, r)) else Inr (None, r))"

section \<open>The message pipe\<close>

definition MAGIC :: u32 where
  "MAGIC = 0x5442524D"

datatype recv_error = Closed | Empty | BadFrame | BadMessage

text \<open>
  \<open>channel\<close> makes two queues and shares them between the endpoints: what one endpoint
  sends to is what the other receives from.
\<close>

datatype endpoint = EndA | EndB

record pipe =
  a_to_b :: "bytes list"
  b_to_a :: "bytes list"

definition channel :: pipe where
  "channel = \<lparr>a_to_b = [], b_to_a = []\<rparr>"

fun peer :: "endpoint \<Rightarrow> endpoint" where
  "peer EndA = EndB"
| "peer EndB = EndA"

fun push_send :: "endpoint \<Rightarrow> bytes \<Rightarrow> pipe \<Rightarrow> pipe" where
  "push_send EndA f p = p\<lparr>a_to_b := a_to_b p @ [f]\<rparr>"
| "push_send EndB f p = p\<lparr>b_to_a := b_to_a p @ [f]\<rparr>"

fun recv_queue :: "endpoint \<Rightarrow> pipe \<Rightarrow> bytes list" where
  "recv_queue EndA p = b_to_a p"
| "recv_queue EndB p = a_to_b p"

fun set_recv_queue :: "endpoint \<Rightarrow> bytes list \<Rightarrow> pipe \<Rightarrow> pipe" where
  "set_recv_queue EndA q p = p\<lparr>b_to_a := q\<rparr>"
| "set_recv_queue EndB q p = p\<lparr>a_to_b := q\<rparr>"

definition pipe_frame :: "u32 \<Rightarrow> bytes \<Rightarrow> bytes" where
  "pipe_frame message_id payload =
     write_u32 (write_u32 (write_u32 [] MAGIC) message_id) (of_nat (length payload)) @ payload"

definition pipe_send :: "('a \<Rightarrow> writer \<Rightarrow> writer) \<Rightarrow> endpoint \<Rightarrow> u32 \<Rightarrow> 'a \<Rightarrow> pipe \<Rightarrow> pipe" where
  "pipe_send enc e message_id x p = push_send e (pipe_frame message_id (enc x [])) p"

definition decode_frame :: "'a decoder \<Rightarrow> bytes \<Rightarrow> recv_error + (u32 \<times> 'a)" where
  "decode_frame dec frame =
     (case read_u32 (reader_new frame) of
        Inl _ \<Rightarrow> Inl BadFrame
      | Inr (magic, r) \<Rightarrow>
          if magic \<noteq> MAGIC then Inl BadFrame
          else (case read_u32 r of
            Inl _ \<Rightarrow> Inl BadFrame
          | Inr (message_id, r) \<Rightarrow>
              (case read_u32 r of
                 Inl _ \<Rightarrow> Inl BadFrame
               | Inr (n, r) \<Rightarrow>
                   if remaining r < unat n then Inl BadFrame
                   else
                     let start = length frame - remaining r;
                         payload = take (unat n) (drop start frame)
                     in (case dec (reader_new payload) of
                           Inl _ \<Rightarrow> Inl BadMessage
                         | Inr (v, _) \<Rightarrow> Inr (message_id, v)))))"

definition pipe_try_recv ::
  "'a decoder \<Rightarrow> endpoint \<Rightarrow> pipe \<Rightarrow> (recv_error + (u32 \<times> 'a)) \<times> pipe" where
  "pipe_try_recv dec e p =
     (case recv_queue e p of
        [] \<Rightarrow> (Inl Empty, p)
      | f # q \<Rightarrow> (decode_frame dec f, set_recv_queue e q p))"

definition pipe_pending :: "endpoint \<Rightarrow> pipe \<Rightarrow> nat" where
  "pipe_pending e p = length (recv_queue e p)"

section \<open>Integers: what is written is what is read\<close>

lemma length_le_bytes [simp]: "length (le_bytes n w) = n"
  by (simp add: le_bytes_def)

lemma bit_from_le:
  "bit (from_le bs :: 'a::len word) k \<longleftrightarrow>
   k < LENGTH('a) \<and> k div 8 < length bs \<and> bit (bs ! (k div 8)) (k mod 8)"
proof (induction bs arbitrary: k)
  case (Cons b bs)
  show ?case
  proof (cases "k < 8")
    case True
    then show ?thesis by (auto simp: bit_simps)
  next
    case False
    have "\<not> bit b k" using False bit_imp_le_length [of b k] by auto
    moreover have "k div 8 = Suc ((k - 8) div 8)" "k mod 8 = (k - 8) mod 8"
      using False by (simp_all add: div_if mod_if le_div_geq le_mod_geq)
    ultimately show ?thesis using False by (auto simp: bit_simps Cons.IH)
  qed
qed simp

lemma bit_le_bytes:
  "i < n \<Longrightarrow> bit (le_bytes n w ! i) j \<longleftrightarrow> j < 8 \<and> bit w (8 * i + j)"
  by (auto simp: le_bytes_def bit_simps)

lemma from_le_le_bytes:
  fixes w :: "'a::len word"
  assumes "LENGTH('a) = 8 * n"
  shows "from_le (le_bytes n w) = w"
  using assms
  by (intro bit_word_eqI) (auto simp: bit_from_le bit_le_bytes)

lemma le_bytes_from_le:
  assumes "8 * length bs \<le> LENGTH('a)"
  shows "le_bytes (length bs) (from_le bs :: 'a::len word) = bs"
proof (rule nth_equalityI)
  fix i
  assume i: "i < length (le_bytes (length bs) (from_le bs :: 'a word))"
  show "le_bytes (length bs) (from_le bs :: 'a word) ! i = bs ! i"
    using i assms by (intro bit_word_eqI) (auto simp: bit_from_le bit_le_bytes)
qed simp

lemmas from_le_simps [simp] =
  from_le_le_bytes [where 'a = 16 and n = 2, simplified]
  from_le_le_bytes [where 'a = 32 and n = 4, simplified]
  from_le_le_bytes [where 'a = 64 and n = 8, simplified]

section \<open>The contract of a codec\<close>

definition rd_at :: "bytes \<Rightarrow> bytes \<Rightarrow> reader" where
  "rd_at done rest = \<lparr>rd_buf = done @ rest, rd_pos = length done\<rparr>"

definition reader_ok :: "reader \<Rightarrow> bool" where
  "reader_ok r \<longleftrightarrow> rd_pos r \<le> length (rd_buf r)"

definition advances :: "reader \<Rightarrow> reader \<Rightarrow> bool" where
  "advances r r' \<longleftrightarrow> rd_buf r' = rd_buf r \<and> rd_pos r \<le> rd_pos r' \<and> reader_ok r'"

lemma advances_refl: "reader_ok r \<Longrightarrow> advances r r"
  by (simp add: advances_def)

lemma advances_trans: "advances r r' \<Longrightarrow> advances r' r'' \<Longrightarrow> advances r r''"
  by (auto simp: advances_def)

lemma reader_new_at: "reader_new b = rd_at [] b"
  by (simp add: reader_new_def rd_at_def)

lemma remaining_at [simp]: "remaining (rd_at pre rest) = length rest"
  by (simp add: remaining_def rd_at_def)

lemma take_at [simp]:
  "length b = n \<Longrightarrow> reader_take n (rd_at pre (b @ post)) = Inr (b, rd_at (pre @ b) post)"
  by (auto simp: reader_take_def rd_at_def remaining_def)

lemma take_advances:
  "reader_ok r \<Longrightarrow> reader_take n r = Inr (b, r') \<Longrightarrow> advances r r' \<and> length b = n"
  by (auto simp: reader_take_def advances_def reader_ok_def remaining_def split: if_splits)

text \<open>
  A codec reads back what it wrote, wherever the bytes sit in the buffer, and leaves the cursor
  right behind them; a decoder never leaves the buffer, whatever bytes it is given.
\<close>

locale codec =
  fixes wf :: "'a \<Rightarrow> bool"
    and enc :: "'a \<Rightarrow> writer \<Rightarrow> writer"
    and dec :: "'a decoder"
  assumes enc_append: "enc x w = w @ enc x []"
    and dec_enc: "wf x \<Longrightarrow> dec (rd_at pre (enc x [] @ post)) = Inr (x, rd_at (pre @ enc x []) post)"
    and dec_advances: "reader_ok r \<Longrightarrow> dec r = Inr (x, r') \<Longrightarrow> advances r r'"
begin

lemma fold_enc: "fold enc xs w = w @ concat (map (\<lambda>x. enc x []) xs)"
proof (induction xs arbitrary: w)
  case (Cons x xs)
  then show ?case using enc_append [of x w] by simp
qed simp

lemma decode_n_enc:
  "list_all wf xs \<Longrightarrow>
   decode_n dec (length xs) out (rd_at pre (concat (map (\<lambda>x. enc x []) xs) @ post)) =
   Inr (out @ xs, rd_at (pre @ concat (map (\<lambda>x. enc x []) xs)) post)"
proof (induction xs arbitrary: out pre)
  case (Cons x xs)
  then show ?case by (simp add: dec_enc)
qed simp

lemma decode_n_advances:
  "reader_ok r \<Longrightarrow> decode_n dec n out r = Inr (xs, r') \<Longrightarrow> advances r r'"
proof (induction n arbitrary: out r)
  case 0
  then show ?case by (simp add: advances_refl)
next
  case (Suc n)
  then obtain x r1 where d: "dec r = Inr (x, r1)"
    and n: "decode_n dec n (out @ [x]) r1 = Inr (xs, r')"
    by (auto simp: rbind_eq_Inr)
  have a: "advances r r1" using dec_advances [OF Suc.prems(1) d] .
  then have "advances r1 r'" using Suc.IH [OF _ n] by (simp add: advances_def)
  with a show ?case by (rule advances_trans)
qed

end

lemma codec_u8: "codec (\<lambda>_. True) (\<lambda>x w. write_u8 w x) read_u8"
proof
  fix x :: u8 and pre post w r r'
  show "write_u8 w x = w @ write_u8 [] x" by (simp add: write_u8_def)
  show "read_u8 (rd_at pre (write_u8 [] x @ post)) = Inr (x, rd_at (pre @ write_u8 [] x) post)"
    using take_at [of "[x]" 1] by (simp add: read_u8_def write_u8_def)
  show "reader_ok r \<Longrightarrow> read_u8 r = Inr (x, r') \<Longrightarrow> advances r r'"
    by (auto simp: read_u8_def rbind_eq_Inr dest: take_advances)
qed

lemma codec_u16: "codec (\<lambda>_. True) (\<lambda>x w. write_u16 w x) read_u16"
  by unfold_locales
    (auto simp: write_u16_def read_u16_def rbind_eq_Inr dest: take_advances)

lemma codec_u32: "codec (\<lambda>_. True) (\<lambda>x w. write_u32 w x) read_u32"
  by unfold_locales
    (auto simp: write_u32_def read_u32_def rbind_eq_Inr dest: take_advances)

lemma codec_u64: "codec (\<lambda>_. True) (\<lambda>x w. write_u64 w x) read_u64"
  by unfold_locales
    (auto simp: write_u64_def read_u64_def rbind_eq_Inr dest: take_advances)

lemma codec_i32:
  "codec (\<lambda>v. - 2147483648 \<le> v \<and> v < 2147483648) (\<lambda>x w. write_i32 w x) read_i32"
proof
  fix x :: int and pre post w r r'
  show "write_i32 w x = w @ write_i32 [] x" by (simp add: write_i32_def)
  show "- 2147483648 \<le> x \<and> x < 2147483648 \<Longrightarrow>
    read_i32 (rd_at pre (write_i32 [] x @ post)) = Inr (x, rd_at (pre @ write_i32 [] x) post)"
    by (auto simp: read_i32_def read_u32_def write_i32_def sint_sbintrunc'
        signed_take_bit_int_eq_self)
  show "reader_ok r \<Longrightarrow> read_i32 r = Inr (x, r') \<Longrightarrow> advances r r'"
    by (auto simp: read_i32_def read_u32_def rbind_eq_Inr dest: take_advances)
qed

lemma codec_i64:
  "codec (\<lambda>v. - 9223372036854775808 \<le> v \<and> v < 9223372036854775808)
     (\<lambda>x w. write_i64 w x) read_i64"
proof
  fix x :: int and pre post w r r'
  show "write_i64 w x = w @ write_i64 [] x" by (simp add: write_i64_def)
  show "- 9223372036854775808 \<le> x \<and> x < 9223372036854775808 \<Longrightarrow>
    read_i64 (rd_at pre (write_i64 [] x @ post)) = Inr (x, rd_at (pre @ write_i64 [] x) post)"
    by (auto simp: read_i64_def read_u64_def write_i64_def sint_sbintrunc'
        signed_take_bit_int_eq_self)
  show "reader_ok r \<Longrightarrow> read_i64 r = Inr (x, r') \<Longrightarrow> advances r r'"
    by (auto simp: read_i64_def read_u64_def rbind_eq_Inr dest: take_advances)
qed

lemma codec_bool: "codec (\<lambda>_. True) (\<lambda>x w. write_bool w x) read_bool"
proof
  fix x :: bool and pre post w r r'
  show "write_bool w x = w @ write_bool [] x" by (simp add: write_bool_def write_u8_def)
  show "read_bool (rd_at pre (write_bool [] x @ post)) =
      Inr (x, rd_at (pre @ write_bool [] x) post)"
    by (simp add: read_bool_def write_bool_def codec.dec_enc [OF codec_u8])
  show "reader_ok r \<Longrightarrow> read_bool r = Inr (x, r') \<Longrightarrow> advances r r'"
    by (auto simp: read_bool_def rbind_eq_Inr dest: codec.dec_advances [OF codec_u8])
qed

lemma codec_bytes: "codec (\<lambda>b. length b < 4294967296) (\<lambda>x w. write_bytes w x) read_bytes"
proof
  fix x :: bytes and pre post w r r'
  show "write_bytes w x = w @ write_bytes [] x" by (simp add: write_bytes_def write_u32_def)
  assume "length x < 4294967296"
  then show "read_bytes (rd_at pre (write_bytes [] x @ post)) =
      Inr (x, rd_at (pre @ write_bytes [] x) post)"
    by (simp add: read_bytes_def write_bytes_def codec.dec_enc [OF codec_u32] unat_of_nat_u32)
next
  fix x :: bytes and r r'
  assume "reader_ok r" "read_bytes r = Inr (x, r')"
  then show "advances r r'"
    by (auto simp: read_bytes_def rbind_eq_Inr advances_def
        dest!: codec.dec_advances [OF codec_u32] take_advances [rotated])
qed

lemma codec_str:
  "codec (\<lambda>s. utf8_valid s \<and> length s < 4294967296) (\<lambda>x w. write_str w x) read_str"
proof
  fix x :: bytes and pre post w r r'
  show "write_str w x = w @ write_str [] x"
    unfolding write_str_def by (rule codec.enc_append [OF codec_bytes])
  show "utf8_valid x \<and> length x < 4294967296 \<Longrightarrow>
    read_str (rd_at pre (write_str [] x @ post)) = Inr (x, rd_at (pre @ write_str [] x) post)"
    by (simp add: read_str_def write_str_def codec.dec_enc [OF codec_bytes])
  show "reader_ok r \<Longrightarrow> read_str r = Inr (x, r') \<Longrightarrow> advances r r'"
    by (auto simp: read_str_def rbind_eq_Inr split: if_splits
        dest: codec.dec_advances [OF codec_bytes])
qed

context codec
begin

lemma vec_codec:
  "codec (\<lambda>xs. list_all wf xs \<and> length xs < 4294967296) (vec_encode enc) (vec_decode dec)"
proof
  fix xs :: "'a list" and pre post w r r'
  show "vec_encode enc xs w = w @ vec_encode enc xs []"
    by (simp add: vec_encode_def fold_enc write_u32_def)
  show "list_all wf xs \<and> length xs < 4294967296 \<Longrightarrow>
    vec_decode dec (rd_at pre (vec_encode enc xs [] @ post)) =
      Inr (xs, rd_at (pre @ vec_encode enc xs []) post)"
    by (simp add: vec_encode_def vec_decode_def fold_enc codec.dec_enc [OF codec_u32]
        unat_of_nat_u32 decode_n_enc)
next
  fix xs :: "'a list" and r r'
  assume "reader_ok r" "vec_decode dec r = Inr (xs, r')"
  then obtain n r1 where a: "advances r r1" and d: "decode_n dec n [] r1 = Inr (xs, r')"
    by (auto simp: vec_decode_def rbind_eq_Inr dest: codec.dec_advances [OF codec_u32])
  from a have "advances r1 r'" using decode_n_advances [OF _ d] by (simp add: advances_def)
  with a show "advances r r'" by (rule advances_trans)
qed

lemma option_codec:
  "codec (\<lambda>x. case x of None \<Rightarrow> True | Some v \<Rightarrow> wf v) (option_encode enc) (option_decode dec)"
proof
  fix x :: "'a option" and pre post w r r'
  show "option_encode enc x w = w @ option_encode enc x []"
    using enc_append [of _ "write_bool w True"] enc_append [of _ "write_bool [] True"]
    by (auto simp: option_encode_def write_bool_def write_u8_def split: option.splits)
  assume "case x of None \<Rightarrow> True | Some v \<Rightarrow> wf v"
  then show "option_decode dec (rd_at pre (option_encode enc x [] @ post)) =
      Inr (x, rd_at (pre @ option_encode enc x []) post)"
    using enc_append [of _ "write_bool [] True"]
    by (auto simp: option_encode_def option_decode_def codec.dec_enc [OF codec_bool] dec_enc
        split: option.splits)
next
  fix x :: "'a option" and r r'
  assume ok: "reader_ok r" and d: "option_decode dec r = Inr (x, r')"
  from d obtain b r1 where b: "read_bool r = Inr (b, r1)" by (auto simp: option_decode_def rbind_eq_Inr)
  have a: "advances r r1" using codec.dec_advances [OF codec_bool ok b] .
  show "advances r r'"
  proof (cases b)
    case True
    with d b obtain v where "dec r1 = Inr (v, r')" by (auto simp: option_decode_def rbind_eq_Inr)
    with a show ?thesis by (meson advances_def advances_trans dec_advances)
  next
    case False
    with a d b show ?thesis by (simp add: option_decode_def)
  qed
qed

end

interpretation cu8: codec "\<lambda>_. True" "\<lambda>x w. write_u8 w x" read_u8 by (rule codec_u8)
interpretation cu32: codec "\<lambda>_. True" "\<lambda>x w. write_u32 w x" read_u32 by (rule codec_u32)
interpretation cu64: codec "\<lambda>_. True" "\<lambda>x w. write_u64 w x" read_u64 by (rule codec_u64)
interpretation cbytes: codec "\<lambda>b. length b < 4294967296" "\<lambda>x w. write_bytes w x" read_bytes
  by (rule codec_bytes)
interpretation cstr: codec "\<lambda>s. utf8_valid s \<and> length s < 4294967296"
  "\<lambda>x w. write_str w x" read_str
  by (rule codec_str)

lemma read_at:
  "read_u8 (rd_at pre (b # post)) = Inr (b, rd_at (pre @ [b]) post)"
  "read_u32 (rd_at pre (le_bytes 4 v @ post)) = Inr (v, rd_at (pre @ le_bytes 4 v) post)"
  "read_u64 (rd_at pre (le_bytes 8 x @ post)) = Inr (x, rd_at (pre @ le_bytes 8 x) post)"
  "length s < 4294967296 \<Longrightarrow>
   read_bytes (rd_at pre (le_bytes 4 (of_nat (length s) :: u32) @ s @ post)) =
     Inr (s, rd_at (pre @ le_bytes 4 (of_nat (length s) :: u32) @ s) post)"
  "length s < 4294967296 \<Longrightarrow> utf8_valid s \<Longrightarrow>
   read_str (rd_at pre (le_bytes 4 (of_nat (length s) :: u32) @ s @ post)) =
     Inr (s, rd_at (pre @ le_bytes 4 (of_nat (length s) :: u32) @ s) post)"
  using cu8.dec_enc [where x = b] cu32.dec_enc [where x = v] cu64.dec_enc [where x = x]
    cbytes.dec_enc [where x = s] cstr.dec_enc [where x = s]
  by (simp_all add: write_u8_def write_u32_def write_u64_def write_bytes_def write_str_def)

lemmas read_advances =
  cu8.dec_advances cu32.dec_advances cu64.dec_advances cbytes.dec_advances cstr.dec_advances

lemma rbind_advances:
  assumes "rbind (f r) g = Inr (y, r')" and "reader_ok r"
    and "\<And>x r1. f r = Inr (x, r1) \<Longrightarrow> advances r r1"
  obtains x r1 where "g (x, r1) = Inr (y, r')" "reader_ok r1"
    "rd_buf r1 = rd_buf r" "rd_pos r \<le> rd_pos r1"
proof -
  from assms(1) obtain x r1 where f: "f r = Inr (x, r1)" and g: "g (x, r1) = Inr (y, r')"
    by (cases "f r") auto
  from assms(3) [OF f] g show thesis by (intro that [of x r1]) (auto simp: advances_def)
qed

lemma read_elims:
  assumes "reader_ok r"
  shows "rbind (read_u8 r) g = Inr (y, r') \<Longrightarrow> (\<And>x r1. g (x, r1) = Inr (y, r') \<Longrightarrow>
      reader_ok r1 \<Longrightarrow> rd_buf r1 = rd_buf r \<Longrightarrow> rd_pos r \<le> rd_pos r1 \<Longrightarrow> P) \<Longrightarrow> P"
    and "rbind (read_u32 r) g2 = Inr (y, r') \<Longrightarrow> (\<And>x r1. g2 (x, r1) = Inr (y, r') \<Longrightarrow>
      reader_ok r1 \<Longrightarrow> rd_buf r1 = rd_buf r \<Longrightarrow> rd_pos r \<le> rd_pos r1 \<Longrightarrow> P) \<Longrightarrow> P"
    and "rbind (read_u64 r) g3 = Inr (y, r') \<Longrightarrow> (\<And>x r1. g3 (x, r1) = Inr (y, r') \<Longrightarrow>
      reader_ok r1 \<Longrightarrow> rd_buf r1 = rd_buf r \<Longrightarrow> rd_pos r \<le> rd_pos r1 \<Longrightarrow> P) \<Longrightarrow> P"
    and "rbind (read_bytes r) g4 = Inr (y, r') \<Longrightarrow> (\<And>x r1. g4 (x, r1) = Inr (y, r') \<Longrightarrow>
      reader_ok r1 \<Longrightarrow> rd_buf r1 = rd_buf r \<Longrightarrow> rd_pos r \<le> rd_pos r1 \<Longrightarrow> P) \<Longrightarrow> P"
    and "rbind (read_str r) g5 = Inr (y, r') \<Longrightarrow> (\<And>x r1. g5 (x, r1) = Inr (y, r') \<Longrightarrow>
      reader_ok r1 \<Longrightarrow> rd_buf r1 = rd_buf r \<Longrightarrow> rd_pos r \<le> rd_pos r1 \<Longrightarrow> P) \<Longrightarrow> P"
  using assms read_advances [OF assms] by (blast elim: rbind_advances)+

section \<open>Messages arrive in order\<close>

lemma recv_push_same [simp]: "recv_queue (peer e) (push_send e f p) = recv_queue (peer e) p @ [f]"
  by (cases e) auto

lemma recv_push_other [simp]: "recv_queue e (push_send e f p) = recv_queue e p"
  by (cases e) auto

lemma recv_set [simp]: "recv_queue e (set_recv_queue e q p) = q"
  by (cases e) auto

fun send_all ::
  "('a \<Rightarrow> writer \<Rightarrow> writer) \<Rightarrow> endpoint \<Rightarrow> (u32 \<times> 'a) list \<Rightarrow> pipe \<Rightarrow> pipe" where
  "send_all enc e [] p = p"
| "send_all enc e ((i, x) # xs) p = send_all enc e xs (pipe_send enc e i x p)"

fun recv_all ::
  "'a decoder \<Rightarrow> endpoint \<Rightarrow> nat \<Rightarrow> pipe \<Rightarrow> (recv_error + (u32 \<times> 'a)) list \<times> pipe" where
  "recv_all dec e 0 p = ([], p)"
| "recv_all dec e (Suc n) p =
     (let (m, p1) = pipe_try_recv dec e p; (ms, p2) = recv_all dec e n p1 in (m # ms, p2))"

locale framed_codec = codec +
  assumes enc_small: "wf x \<Longrightarrow> length (enc x []) < 4294967296"
begin

lemma decode_frame_frame: "wf x \<Longrightarrow> decode_frame dec (pipe_frame i (enc x [])) = Inr (i, x)"
proof -
  assume wf: "wf x"
  let ?h = "le_bytes 4 MAGIC" and ?i = "le_bytes 4 i"
  let ?n = "le_bytes 4 (of_nat (length (enc x [])) :: u32)"
  have frame: "pipe_frame i (enc x []) = ?h @ ?i @ ?n @ enc x []"
    by (simp add: pipe_frame_def write_u32_def)
  have r: "read_u32 (rd_at pre (le_bytes 4 v @ post)) = Inr (v, rd_at (pre @ le_bytes 4 v) post)"
    for pre post and v :: u32
    using cu32.dec_enc [where x = v] by (simp add: write_u32_def)
  have d: "dec (reader_new (enc x [])) = Inr (x, rd_at (enc x []) [])"
    using dec_enc [OF wf, where pre = "[]" and post = "[]"] by (simp add: reader_new_at)
  show ?thesis
    using enc_small [OF wf]
    by (simp add: decode_frame_def frame reader_new_at r unat_of_nat_u32 Let_def)
      (simp add: d flip: reader_new_at)
qed

lemma send_all_queue:
  "recv_queue (peer e) (send_all enc e xs p) =
   recv_queue (peer e) p @ map (\<lambda>(i, x). pipe_frame i (enc x [])) xs"
  by (induction xs arbitrary: p) (auto simp: pipe_send_def)

lemma recv_all_frames:
  "\<forall>(i, x) \<in> set xs. wf x \<Longrightarrow>
   recv_queue e p = map (\<lambda>(i, x). pipe_frame i (enc x [])) xs @ q \<Longrightarrow>
   fst (recv_all dec e (length xs) p) = map Inr xs \<and>
   recv_queue e (snd (recv_all dec e (length xs) p)) = q"
proof (induction xs arbitrary: p)
  case (Cons y xs)
  obtain i x where y: "y = (i, x)" by (cases y)
  let ?p = "set_recv_queue e (map (\<lambda>(i, x). pipe_frame i (enc x [])) xs @ q) p"
  have "pipe_try_recv dec e p = (Inr (i, x), ?p)"
    using Cons.prems y by (simp add: pipe_try_recv_def decode_frame_frame)
  moreover have "fst (recv_all dec e (length xs) ?p) = map Inr xs \<and>
      recv_queue e (snd (recv_all dec e (length xs) ?p)) = q"
    using Cons.prems by (intro Cons.IH) auto
  ultimately show ?case using y by (simp add: split_def Let_def)
qed simp

lemma pipe_in_order:
  assumes "\<forall>(i, x) \<in> set xs. wf x" and "recv_queue (peer e) p = []"
  shows "fst (recv_all dec (peer e) (length xs) (send_all enc e xs p)) = map Inr xs"
  using recv_all_frames [OF assms(1), of "peer e" "send_all enc e xs p" "[]"]
  by (simp add: send_all_queue assms(2))

end

end
