(* ===== verification/Proto.thy ===== *)
theory Proto
  imports Codec
begin

text \<open>
  The browser/renderer wire protocol, \<^verbatim>\<open>crates/cv_ipc/src/renderer_proto.rs\<close>: the message
  catalogue, the self-framed byte format of \<open>encode_message\<close> / \<open>decode_message\<close>, and the
  \<open>Encode\<close> / \<open>Decode\<close> bridge that lets a message ride on a pipe endpoint. \<open>usize\<close> is 64 bits
  wide and modelled by natural numbers with the overflow checks written out.
\<close>

definition PROTOCOL_VERSION :: u32 where
  "PROTOCOL_VERSION = 1"

definition protocol_compatible :: "u32 \<Rightarrow> bool" where
  "protocol_compatible peer_version \<longleftrightarrow> peer_version = PROTOCOL_VERSION"

definition MAX_PAINT_DIMENSION :: u32 where
  "MAX_PAINT_DIMENSION = 16384"

definition MAX_PAINT_BYTES :: nat where
  "MAX_PAINT_BYTES = 256 * 1024 * 1024"

definition MAX_OPAQUE_PAYLOAD_BYTES :: nat where
  "MAX_OPAQUE_PAYLOAD_BYTES = 300 * 1024 * 1024"

definition checked_mul_usize :: "nat \<Rightarrow> nat \<Rightarrow> nat option" where
  "checked_mul_usize a b = (if a * b < 2 ^ 64 then Some (a * b) else None)"

definition expected_paint_bytes :: "u32 \<Rightarrow> u32 \<Rightarrow> nat option" where
  "expected_paint_bytes width height =
     (if width = 0 \<or> height = 0 then None
      else if width > MAX_PAINT_DIMENSION \<or> height > MAX_PAINT_DIMENSION then None
      else Option.bind (checked_mul_usize (unat width) (unat height)) (\<lambda>pixels.
           Option.bind (checked_mul_usize pixels 4) (\<lambda>bytes.
             if bytes > MAX_PAINT_BYTES then None else Some bytes)))"

datatype msg_kind =
    KHandshake | KHandshakeAck | KLayoutRequest | KPaintReady | KLogLine | KErrorMsg
  | KNavCmd | KResizePage | KHostCmd | KCommitFrame | KShutdown

fun kind_u32 :: "msg_kind \<Rightarrow> u32" where
  "kind_u32 KHandshake = 0x0001"
| "kind_u32 KHandshakeAck = 0x0002"
| "kind_u32 KLayoutRequest = 0x0010"
| "kind_u32 KPaintReady = 0x0011"
| "kind_u32 KLogLine = 0x0020"
| "kind_u32 KErrorMsg = 0x0030"
| "kind_u32 KNavCmd = 0x0040"
| "kind_u32 KResizePage = 0x0041"
| "kind_u32 KHostCmd = 0x0042"
| "kind_u32 KCommitFrame = 0x0043"
| "kind_u32 KShutdown = 0x00FF"

definition kind_from_u32 :: "u32 \<Rightarrow> msg_kind option" where
  "kind_from_u32 v =
     (if v = 0x0001 then Some KHandshake
      else if v = 0x0002 then Some KHandshakeAck
      else if v = 0x0010 then Some KLayoutRequest
      else if v = 0x0011 then Some KPaintReady
      else if v = 0x0020 then Some KLogLine
      else if v = 0x0030 then Some KErrorMsg
      else if v = 0x0040 then Some KNavCmd
      else if v = 0x0041 then Some KResizePage
      else if v = 0x0042 then Some KHostCmd
      else if v = 0x0043 then Some KCommitFrame
      else if v = 0x00FF then Some KShutdown
      else None)"

datatype msg =
    Handshake u32
  | HandshakeAck u32
  | LayoutRequest bytes u32 u32 bytes
  | PaintReady u32 u32 bytes
  | LogLine u32 bytes
  | ErrorMsg bytes
  | NavCmd u64 bytes
  | ResizePage u64 u32 u32
  | HostCmd u64 bytes
  | CommitFrame u64 bytes
  | Shutdown

datatype msg_direction = BrowserToRenderer | RendererToBrowser

fun direction :: "msg \<Rightarrow> msg_direction" where
  "direction (Handshake _) = BrowserToRenderer"
| "direction (LayoutRequest _ _ _ _) = BrowserToRenderer"
| "direction (NavCmd _ _) = BrowserToRenderer"
| "direction (ResizePage _ _ _) = BrowserToRenderer"
| "direction (HostCmd _ _) = BrowserToRenderer"
| "direction Shutdown = BrowserToRenderer"
| "direction (HandshakeAck _) = RendererToBrowser"
| "direction (PaintReady _ _ _) = RendererToBrowser"
| "direction (CommitFrame _ _) = RendererToBrowser"
| "direction (LogLine _ _) = RendererToBrowser"
| "direction (ErrorMsg _) = RendererToBrowser"

definition is_valid_for_direction :: "msg \<Rightarrow> msg_direction \<Rightarrow> bool" where
  "is_valid_for_direction m d \<longleftrightarrow> direction m = d"

section \<open>Self-framed messages\<close>

definition encode_bytes :: "bytes \<Rightarrow> bytes \<Rightarrow> bytes" where
  "encode_bytes out b = out @ le_bytes 4 (of_nat (length b) :: u32) @ b"

definition encode_str :: "bytes \<Rightarrow> bytes \<Rightarrow> bytes" where
  "encode_str out s = encode_bytes out s"

definition decode_bytes :: "bytes \<Rightarrow> (bytes \<times> nat) option" where
  "decode_bytes p =
     (if length p < 4 then None
      else let len = unat (from_le (take 4 p) :: u32)
           in if length p < 4 + len then None
              else Some (take len (drop 4 p), 4 + len))"

definition decode_str :: "bytes \<Rightarrow> (bytes \<times> nat) option" where
  "decode_str p =
     Option.bind (decode_bytes p) (\<lambda>(b, consumed). if utf8_valid b then Some (b, consumed) else None)"

fun msg_payload :: "msg \<Rightarrow> msg_kind \<times> bytes" where
  "msg_payload (Handshake protocol_version) = (KHandshake, le_bytes 4 protocol_version)"
| "msg_payload (HandshakeAck renderer_version) = (KHandshakeAck, le_bytes 4 renderer_version)"
| "msg_payload (LayoutRequest url viewport_w viewport_h html) =
     (KLayoutRequest,
      encode_bytes (encode_str [] url @ le_bytes 4 viewport_w @ le_bytes 4 viewport_h) html)"
| "msg_payload (PaintReady width height bitmap_bgra) =
     (KPaintReady, encode_bytes (le_bytes 4 width @ le_bytes 4 height) bitmap_bgra)"
| "msg_payload (LogLine level text) = (KLogLine, encode_str (le_bytes 4 level) text)"
| "msg_payload (ErrorMsg message) = (KErrorMsg, encode_str [] message)"
| "msg_payload (NavCmd epoch cmd) = (KNavCmd, encode_str (le_bytes 8 epoch) cmd)"
| "msg_payload (ResizePage epoch w h) =
     (KResizePage, le_bytes 8 epoch @ le_bytes 4 w @ le_bytes 4 h)"
| "msg_payload (HostCmd epoch payload) = (KHostCmd, encode_bytes (le_bytes 8 epoch) payload)"
| "msg_payload (CommitFrame epoch payload) =
     (KCommitFrame, encode_bytes (le_bytes 8 epoch) payload)"
| "msg_payload Shutdown = (KShutdown, [])"

definition encode_message :: "msg \<Rightarrow> bytes" where
  "encode_message m =
     (case msg_payload m of (kind, payload) \<Rightarrow>
        le_bytes 4 MAGIC @ le_bytes 4 (kind_u32 kind) @
        le_bytes 4 (of_nat (length payload) :: u32) @ payload)"

text \<open>The body of \<open>decode_message\<close>, one equation per arm of its \<open>match kind\<close>.\<close>

definition get_u32 :: "bytes \<Rightarrow> nat \<Rightarrow> u32" where
  "get_u32 p i = from_le (take 4 (drop i p))"

definition get_u64 :: "bytes \<Rightarrow> nat \<Rightarrow> u64" where
  "get_u64 p i = from_le (take 8 (drop i p))"

fun decode_body :: "msg_kind \<Rightarrow> bytes \<Rightarrow> msg option" where
  "decode_body KHandshake p = (if length p < 4 then None else Some (Handshake (get_u32 p 0)))"
| "decode_body KHandshakeAck p = (if length p < 4 then None else Some (HandshakeAck (get_u32 p 0)))"
| "decode_body KLayoutRequest p =
     Option.bind (decode_str p) (\<lambda>(url, off).
       if length p < off + 8 then None
       else Option.bind (decode_bytes (drop (off + 8) p)) (\<lambda>(html, _).
              Some (LayoutRequest url (get_u32 p off) (get_u32 p (off + 4)) html)))"
| "decode_body KPaintReady p =
     (if length p < 8 then None
      else Option.bind (decode_bytes (drop 8 p)) (\<lambda>(bitmap_bgra, _).
           Option.bind (expected_paint_bytes (get_u32 p 0) (get_u32 p 4)) (\<lambda>n.
             if n \<noteq> length bitmap_bgra then None
             else Some (PaintReady (get_u32 p 0) (get_u32 p 4) bitmap_bgra))))"
| "decode_body KLogLine p =
     (if length p < 4 then None
      else Option.bind (decode_str (drop 4 p)) (\<lambda>(text, _). Some (LogLine (get_u32 p 0) text)))"
| "decode_body KErrorMsg p = Option.bind (decode_str p) (\<lambda>(message, _). Some (ErrorMsg message))"
| "decode_body KNavCmd p =
     (if length p < 8 then None
      else Option.bind (decode_str (drop 8 p)) (\<lambda>(cmd, _). Some (NavCmd (get_u64 p 0) cmd)))"
| "decode_body KResizePage p =
     (if length p < 16 then None
      else Some (ResizePage (get_u64 p 0) (get_u32 p 8) (get_u32 p 12)))"
| "decode_body KHostCmd p =
     (if length p < 8 then None
      else Option.bind (decode_bytes (drop 8 p)) (\<lambda>(payload, _).
             if length payload > MAX_OPAQUE_PAYLOAD_BYTES then None
             else Some (HostCmd (get_u64 p 0) payload)))"
| "decode_body KCommitFrame p =
     (if length p < 8 then None
      else Option.bind (decode_bytes (drop 8 p)) (\<lambda>(payload, _).
             if length payload > MAX_OPAQUE_PAYLOAD_BYTES then None
             else Some (CommitFrame (get_u64 p 0) payload)))"
| "decode_body KShutdown p = Some Shutdown"

definition decode_message :: "bytes \<Rightarrow> (msg \<times> nat) option" where
  "decode_message buf =
     (if length buf < 12 then None
      else if get_u32 buf 0 \<noteq> MAGIC then None
      else let payload_len = unat (get_u32 buf 8)
           in if length buf < 12 + payload_len then None
              else Option.bind (kind_from_u32 (get_u32 buf 4)) (\<lambda>kind.
                   Option.bind (decode_body kind (take payload_len (drop 12 buf))) (\<lambda>m.
                     Some (m, 12 + payload_len))))"

section \<open>The Encode / Decode bridge\<close>

definition kind_tag :: "msg_kind \<Rightarrow> u8" where
  "kind_tag k = ucast (kind_u32 k)"

fun msg_encode :: "msg \<Rightarrow> writer \<Rightarrow> writer" where
  "msg_encode (Handshake protocol_version) w =
     write_u32 (write_u8 w (kind_tag KHandshake)) protocol_version"
| "msg_encode (HandshakeAck renderer_version) w =
     write_u32 (write_u8 w (kind_tag KHandshakeAck)) renderer_version"
| "msg_encode (LayoutRequest url viewport_w viewport_h html) w =
     write_bytes (write_u32 (write_u32 (write_str (write_u8 w (kind_tag KLayoutRequest)) url)
       viewport_w) viewport_h) html"
| "msg_encode (PaintReady width height bitmap_bgra) w =
     write_bytes (write_u32 (write_u32 (write_u8 w (kind_tag KPaintReady)) width) height)
       bitmap_bgra"
| "msg_encode (LogLine level text) w =
     write_str (write_u32 (write_u8 w (kind_tag KLogLine)) level) text"
| "msg_encode (ErrorMsg message) w = write_str (write_u8 w (kind_tag KErrorMsg)) message"
| "msg_encode (NavCmd epoch cmd) w =
     write_str (write_u64 (write_u8 w (kind_tag KNavCmd)) epoch) cmd"
| "msg_encode (ResizePage epoch vw vh) w =
     write_u32 (write_u32 (write_u64 (write_u8 w (kind_tag KResizePage)) epoch) vw) vh"
| "msg_encode (HostCmd epoch payload) w =
     write_bytes (write_u64 (write_u8 w (kind_tag KHostCmd)) epoch) payload"
| "msg_encode (CommitFrame epoch payload) w =
     write_bytes (write_u64 (write_u8 w (kind_tag KCommitFrame)) epoch) payload"
| "msg_encode Shutdown w = write_u8 w (kind_tag KShutdown)"

fun msg_decode_body :: "msg_kind \<Rightarrow> msg decoder" where
  "msg_decode_body KHandshake r = rbind (read_u32 r) (\<lambda>(v, r). Inr (Handshake v, r))"
| "msg_decode_body KHandshakeAck r = rbind (read_u32 r) (\<lambda>(v, r). Inr (HandshakeAck v, r))"
| "msg_decode_body KLayoutRequest r =
     rbind (read_str r) (\<lambda>(url, r). rbind (read_u32 r) (\<lambda>(vw, r). rbind (read_u32 r) (\<lambda>(vh, r).
     rbind (read_bytes r) (\<lambda>(html, r). Inr (LayoutRequest url vw vh html, r)))))"
| "msg_decode_body KPaintReady r =
     rbind (read_u32 r) (\<lambda>(width, r). rbind (read_u32 r) (\<lambda>(height, r).
     rbind (read_bytes r) (\<lambda>(bitmap_bgra, r).
       if expected_paint_bytes width height = Some (length bitmap_bgra)
       then Inr (PaintReady width height bitmap_bgra, r)
       else Inl OutOfRange)))"
| "msg_decode_body KLogLine r =
     rbind (read_u32 r) (\<lambda>(level, r). rbind (read_str r) (\<lambda>(text, r). Inr (LogLine level text, r)))"
| "msg_decode_body KErrorMsg r = rbind (read_str r) (\<lambda>(message, r). Inr (ErrorMsg message, r))"
| "msg_decode_body KNavCmd r =
     rbind (read_u64 r) (\<lambda>(epoch, r). rbind (read_str r) (\<lambda>(cmd, r). Inr (NavCmd epoch cmd, r)))"
| "msg_decode_body KResizePage r =
     rbind (read_u64 r) (\<lambda>(epoch, r). rbind (read_u32 r) (\<lambda>(w, r). rbind (read_u32 r) (\<lambda>(h, r).
       Inr (ResizePage epoch w h, r))))"
| "msg_decode_body KHostCmd r =
     rbind (read_u64 r) (\<lambda>(epoch, r). rbind (read_bytes r) (\<lambda>(payload, r).
       if length payload > MAX_OPAQUE_PAYLOAD_BYTES then Inl OutOfRange
       else Inr (HostCmd epoch payload, r)))"
| "msg_decode_body KCommitFrame r =
     rbind (read_u64 r) (\<lambda>(epoch, r). rbind (read_bytes r) (\<lambda>(payload, r).
       if length payload > MAX_OPAQUE_PAYLOAD_BYTES then Inl OutOfRange
       else Inr (CommitFrame epoch payload, r)))"
| "msg_decode_body KShutdown r = Inr (Shutdown, r)"

definition msg_decode :: "msg decoder" where
  "msg_decode r =
     rbind (read_u8 r) (\<lambda>(tag, r).
     rbind (ok_or OutOfRange (kind_from_u32 (ucast tag))) (\<lambda>kind. msg_decode_body kind r))"

section \<open>Well-formed messages\<close>

text \<open>The \<open>u32\<close> length fields bound the payload: \<open>header\<close> bytes, a length word, the text.\<close>

definition text_ok :: "nat \<Rightarrow> bytes \<Rightarrow> bool" where
  "text_ok header s \<longleftrightarrow> utf8_valid s \<and> header + 4 + length s < 4294967296"

fun msg_wf :: "msg \<Rightarrow> bool" where
  "msg_wf (LayoutRequest url viewport_w viewport_h html) =
     (utf8_valid url \<and> 16 + length url + length html < 4294967296)"
| "msg_wf (PaintReady width height bitmap_bgra) =
     (expected_paint_bytes width height = Some (length bitmap_bgra))"
| "msg_wf (LogLine level text) = text_ok 4 text"
| "msg_wf (ErrorMsg message) = text_ok 0 message"
| "msg_wf (NavCmd epoch cmd) = text_ok 8 cmd"
| "msg_wf (HostCmd epoch payload) = (length payload \<le> MAX_OPAQUE_PAYLOAD_BYTES)"
| "msg_wf (CommitFrame epoch payload) = (length payload \<le> MAX_OPAQUE_PAYLOAD_BYTES)"
| "msg_wf _ = True"

lemma expected_paint_bound: "expected_paint_bytes w h = Some n \<Longrightarrow> n \<le> 268435456"
  by (auto simp: expected_paint_bytes_def MAX_PAINT_BYTES_def bind_eq_Some_conv split: if_splits)

lemma kind_from_kind_u32 [simp]: "kind_from_u32 (kind_u32 k) = Some k"
  by (cases k) (simp_all add: kind_from_u32_def)

lemma ucast_kind_tag [simp]: "(ucast (kind_tag k) :: u32) = kind_u32 k"
  by (cases k) (simp_all add: kind_tag_def)

lemma get_u32_at [simp]:
  "length pre = n \<Longrightarrow> get_u32 (pre @ le_bytes 4 v @ post) n = v"
  "get_u32 (le_bytes 4 v @ post) 0 = v"
  "get_u32 (le_bytes 4 v) 0 = v"
  by (simp_all add: get_u32_def)

lemma get_u64_at [simp]:
  "get_u64 (le_bytes 8 v @ post) 0 = v"
  by (simp_all add: get_u64_def)

lemma decode_bytes_at [simp]:
  "length b < 4294967296 \<Longrightarrow>
   decode_bytes (le_bytes 4 (of_nat (length b) :: u32) @ b @ post) = Some (b, 4 + length b)"
  by (simp add: decode_bytes_def Let_def unat_of_nat_u32)

lemma decode_str_at [simp]:
  "utf8_valid b \<Longrightarrow> length b < 4294967296 \<Longrightarrow>
   decode_str (le_bytes 4 (of_nat (length b) :: u32) @ b @ post) = Some (b, 4 + length b)"
  by (simp add: decode_str_def)

lemmas decode_end [simp] =
  decode_bytes_at [where post = "[]", simplified]
  decode_str_at [where post = "[]", simplified]

lemma decode_body_payload: "msg_wf m \<Longrightarrow> decode_body (fst (msg_payload m)) (snd (msg_payload m)) = Some m"
proof (cases m)
  case (LayoutRequest url vw vh html)
  moreover assume "msg_wf m"
  moreover have "get_u32 (le_bytes 4 (of_nat (length url) :: u32) @ url @ le_bytes 4 vw @
      le_bytes 4 vh @ post) (4 + length url) = vw"
    and "get_u32 (le_bytes 4 (of_nat (length url) :: u32) @ url @ le_bytes 4 vw @
      le_bytes 4 vh @ post) (8 + length url) = vh" for post
    by (simp_all add: get_u32_def)
  ultimately show ?thesis
    by (simp add: encode_bytes_def encode_str_def add.commute [of _ "length url"])
next
  case (PaintReady w h b)
  moreover assume "msg_wf m"
  ultimately show ?thesis
    using expected_paint_bound [of w h "length b"] by (simp add: encode_bytes_def)
next
  case (ResizePage e w h)
  then show ?thesis by (simp add: get_u32_def get_u64_def)
qed (simp_all add: encode_bytes_def encode_str_def text_ok_def MAX_OPAQUE_PAYLOAD_BYTES_def)

lemma payload_small: "msg_wf m \<Longrightarrow> length (snd (msg_payload m)) < 4294967296"
  using expected_paint_bound
  by (cases m)
    (fastforce simp: encode_bytes_def encode_str_def text_ok_def MAX_OPAQUE_PAYLOAD_BYTES_def)+

lemma length_encode_message: "length (encode_message m) = 12 + length (snd (msg_payload m))"
  by (simp add: encode_message_def split: prod.split)

lemma encode_message_layout:
  "encode_message m = le_bytes 4 MAGIC @ le_bytes 4 (kind_u32 (fst (msg_payload m))) @
     le_bytes 4 (of_nat (length (snd (msg_payload m))) :: u32) @ snd (msg_payload m)"
  by (simp add: encode_message_def split: prod.split)

lemma header_fields:
  "get_u32 (encode_message m @ rest) 0 = MAGIC"
  "get_u32 (encode_message m @ rest) 4 = kind_u32 (fst (msg_payload m))"
  "get_u32 (encode_message m @ rest) 8 = of_nat (length (snd (msg_payload m)))"
  by (simp_all add: encode_message_layout get_u32_def)

text \<open>C16: A well-formed message survives the wire: \<open>decode_message\<close> on its encoding, followed
  by any further bytes of the stream, returns the message and exactly the length of its frame.\<close>

theorem decode_encode_message:
  assumes "msg_wf m"
  shows "decode_message (encode_message m @ rest) = Some (m, length (encode_message m))"
proof -
  have "take (length (snd (msg_payload m))) (drop 12 (encode_message m @ rest)) =
      snd (msg_payload m)"
    by (simp add: encode_message_layout)
  then show ?thesis
    using payload_small [OF assms] decode_body_payload [OF assms]
    by (simp add: decode_message_def header_fields length_encode_message unat_of_nat_u32 Let_def)
qed

theorem decode_encode_message_witness:
  "decode_message (encode_message (ResizePage 3 640 480) @ [1, 2]) =
     Some (ResizePage 3 640 480, length (encode_message (ResizePage 3 640 480)))"
  using decode_encode_message [of "ResizePage 3 640 480" "[1, 2]"] by simp

text \<open>A stream that holds only part of a frame is never decoded early: every strict prefix
  of an encoded message gives \<open>None\<close>, so a caller that appends bytes and retries waits for the
  whole frame.\<close>

theorem decode_message_incomplete:
  assumes "msg_wf m" and "k < length (encode_message m)"
  shows "decode_message (take k (encode_message m)) = None"
proof (cases "k < 12")
  case True
  then have "length (take k (encode_message m)) < 12" by simp
  then show ?thesis by (simp only: decode_message_def if_True)
next
  case False
  have "get_u32 (take k (encode_message m)) 8 = get_u32 (encode_message m @ []) 8"
    using False by (simp add: get_u32_def drop_take min_def)
  then have "unat (get_u32 (take k (encode_message m)) 8) = length (snd (msg_payload m))"
    using payload_small [OF assms(1)] by (simp only: header_fields unat_of_nat_u32)
  then show ?thesis
    using assms(2) by (simp add: decode_message_def length_encode_message Let_def)
qed

theorem decode_message_incomplete_witness:
  "decode_message (take 13 (encode_message (Handshake 1))) = None"
  by (rule decode_message_incomplete) (simp_all add: length_encode_message)

lemma decode_bytes_len: "decode_bytes p = Some (b, n) \<Longrightarrow> n = 4 + length b \<and> n \<le> length p"
  by (auto simp: decode_bytes_def Let_def split: if_splits)

lemma decode_str_len:
  "decode_str p = Some (b, n) \<Longrightarrow> n = 4 + length b \<and> n \<le> length p \<and> utf8_valid b"
  by (auto simp: decode_str_def bind_eq_Some_conv split: if_splits dest: decode_bytes_len)

lemma decode_body_wf: "decode_body k p = Some m \<Longrightarrow> length p < 4294967296 \<Longrightarrow> msg_wf m"
  by (cases k)
    (auto simp: bind_eq_Some_conv text_ok_def split: if_splits prod.splits
      dest!: decode_bytes_len decode_str_len)

text \<open>Whatever bytes arrive, a message that \<open>decode_message\<close> accepts is well-formed (its
  strings are UTF-8, a bitmap has exactly the byte count of its bounded dimensions, an opaque
  payload is at most \<open>MAX_OPAQUE_PAYLOAD_BYTES\<close> long), and the number of consumed bytes covers
  the header and stays inside the buffer.\<close>

theorem decode_message_sound:
  assumes "decode_message buf = Some (m, n)"
  shows "msg_wf m \<and> 12 \<le> n \<and> n \<le> length buf"
proof -
  from assms obtain k where
    "decode_body k (take (unat (get_u32 buf 8)) (drop 12 buf)) = Some m"
    and n: "n = 12 + unat (get_u32 buf 8)" "n \<le> length buf"
    by (auto simp: decode_message_def Let_def bind_eq_Some_conv split: if_splits)
  then have "msg_wf m"
    by (elim decode_body_wf) (simp add: min.strict_coboundedI2)
  with n show ?thesis by simp
qed

theorem decode_message_sound_witness:
  "msg_wf Shutdown \<and> 12 \<le> (12::nat) \<and> 12 \<le> length (encode_message Shutdown)"
proof -
  have "decode_message (encode_message Shutdown) = Some (Shutdown, 12)"
    by (simp add: decode_message_def header_fields [where rest = "[]", simplified]
        length_encode_message kind_from_u32_def)
  then show ?thesis by (rule decode_message_sound)
qed

section \<open>The bridge is a codec\<close>

lemmas write_defs =
  write_u8_def write_u32_def write_u64_def write_bytes_def write_str_def

lemma msg_encode_append: "msg_encode m w = w @ msg_encode m []"
  by (cases m) (simp_all add: write_defs)

lemma msg_decode_encode:
  "msg_wf m \<Longrightarrow>
   msg_decode (rd_at pre (msg_encode m [] @ post)) = Inr (m, rd_at (pre @ msg_encode m []) post)"
proof (cases m)
  case (PaintReady w h b)
  moreover assume "msg_wf m"
  ultimately show ?thesis
    using expected_paint_bound [of w h "length b"] by (simp add: msg_decode_def write_defs read_at del: kind_u32.simps)
qed (simp_all add: msg_decode_def write_defs read_at text_ok_def MAX_OPAQUE_PAYLOAD_BYTES_def
    del: kind_u32.simps)

lemma msg_decode_body_advances:
  "reader_ok r \<Longrightarrow> msg_decode_body k r = Inr (m, r') \<Longrightarrow> advances r r'"
  by (cases k) (auto elim!: read_elims [rotated] simp: advances_def split: if_splits)

lemma msg_decode_advances: "reader_ok r \<Longrightarrow> msg_decode r = Inr (m, r') \<Longrightarrow> advances r r'"
  unfolding msg_decode_def
  by (erule read_elims(1) [rotated])
    (auto simp: rbind_eq_Inr advances_def dest!: msg_decode_body_advances [rotated])

definition msg_pipe_wf :: "msg \<Rightarrow> bool" where
  "msg_pipe_wf m \<longleftrightarrow> msg_wf m \<and> length (msg_encode m []) < 4294967296"

interpretation msg: framed_codec msg_pipe_wf msg_encode msg_decode
  by unfold_locales
    (auto simp: msg_pipe_wf_def msg_encode_append [symmetric] msg_decode_encode
      dest: msg_decode_advances intro: msg_encode_append)

text \<open>Messages sent on one endpoint of a fresh pipe are received on the other complete, in
  the order sent and with their ids, through the \<open>Encode\<close> / \<open>Decode\<close> bridge and the pipe's own
  framing.\<close>

theorem pipe_delivers_in_order:
  assumes "\<forall>(i, m) \<in> set ms. msg_pipe_wf m"
  shows "fst (recv_all msg_decode (peer e) (length ms) (send_all msg_encode e ms channel)) = map Inr ms"
  using assms by (intro msg.pipe_in_order) (cases e; auto simp: channel_def)+

theorem pipe_delivers_in_order_witness:
  "fst (recv_all msg_decode EndB 2
      (send_all msg_encode EndA [(1, Handshake 1), (2, Shutdown)] channel)) =
     [Inr (1, Handshake 1), Inr (2, Shutdown)]"
  using pipe_delivers_in_order [of "[(1, Handshake 1), (2, Shutdown)]" EndA]
  by (simp add: msg_pipe_wf_def write_defs numeral_2_eq_2)

text \<open>On any buffer the bridge decoder either fails or leaves the cursor inside the same
  buffer.\<close>

lemma msg_decode_confined:
  "msg_decode (reader_new buf) = Inr (m, r) \<Longrightarrow> rd_buf r = buf \<and> rd_pos r \<le> length buf"
  using msg_decode_advances [of "reader_new buf" m r]
  by (auto simp: reader_ok_def advances_def reader_new_def)

text \<open>A frame whose first word is not the magic is refused for ever: no bytes appended to
  the buffer make \<open>decode_message\<close> return anything but \<open>None\<close>, the answer that also means
  "incomplete, append more and retry".\<close>

theorem decode_message_bad_magic:
  assumes "4 \<le> length buf" and "get_u32 buf 0 \<noteq> MAGIC"
  shows "decode_message (buf @ rest) = None"
  using assms by (simp add: decode_message_def get_u32_def)

theorem decode_message_bad_magic_witness: "decode_message ([0, 0, 0, 0] @ [1, 2, 3]) = None"
  by (rule decode_message_bad_magic) (simp_all add: get_u32_def MAGIC_def)

end
