(* ===== verification/Arena.thy ===== *)
theory Arena
  imports Prelude
begin

text \<open>
  The allocation discipline of the engine, \<^verbatim>\<open>crates/cv_arena/src/lib.rs\<close>: generational
  handles, the slab allocator with its intrusive free list, and the phase-scoped bump arena.
  \<open>u32\<close> fields are words, \<open>usize\<close> counters are natural numbers. A panic (an index out of
  range, \<open>unreachable!\<close>, a failed \<open>expect\<close>) is the value \<open>None\<close> of the operation.
\<close>

section \<open>Handles\<close>

record handle =
  h_index :: u32
  h_generation :: u32

definition handle_to_bits :: "handle \<Rightarrow> u64" where
  "handle_to_bits h = push_bit 32 (ucast (h_index h)) OR ucast (h_generation h)"

definition handle_from_bits :: "u64 \<Rightarrow> handle option" where
  "handle_from_bits bits =
     (let generation = ucast (bits AND 0xFFFFFFFF) :: u32
      in if generation = 0 then None
         else Some \<lparr>h_index = ucast (drop_bit 32 bits), h_generation = generation\<rparr>)"

section \<open>The slab\<close>

datatype 'a slot =
    Occupied (slot_generation: u32) (slot_value: 'a)
  | Vacant (slot_generation: u32) (slot_next: "u32 option")

record 'a slab =
  slab_slots :: "'a slot list"
  slab_free_head :: "u32 option"
  slab_len :: nat

definition slab_new :: "'a slab" where
  "slab_new = \<lparr>slab_slots = [], slab_free_head = None, slab_len = 0\<rparr>"

definition slab_is_empty :: "'a slab \<Rightarrow> bool" where
  "slab_is_empty s \<longleftrightarrow> slab_len s = 0"

definition slab_capacity :: "'a slab \<Rightarrow> nat" where
  "slab_capacity s = length (slab_slots s)"

definition slab_insert :: "'a slab \<Rightarrow> 'a \<Rightarrow> (handle \<times> 'a slab) option" where
  "slab_insert s v =
     (case slab_free_head s of
        Some index \<Rightarrow>
          (case vec_get (slab_slots s) (unat index) of
             Some (Vacant g next_free) \<Rightarrow>
               Some (\<lparr>h_index = index, h_generation = g\<rparr>,
                     \<lparr>slab_slots = (slab_slots s)[unat index := Occupied g v],
                      slab_free_head = next_free,
                      slab_len = slab_len s + 1\<rparr>)
           | _ \<Rightarrow> None)
      | None \<Rightarrow>
          (if length (slab_slots s) < 4294967296
           then Some (\<lparr>h_index = of_nat (length (slab_slots s)), h_generation = 1\<rparr>,
                      s\<lparr>slab_slots := slab_slots s @ [Occupied 1 v],
                        slab_len := slab_len s + 1\<rparr>)
           else None))"

definition slab_get :: "'a slab \<Rightarrow> handle \<Rightarrow> 'a option" where
  "slab_get s h =
     (case vec_get (slab_slots s) (unat (h_index h)) of
        Some (Occupied g v) \<Rightarrow> if g = h_generation h then Some v else None
      | _ \<Rightarrow> None)"

definition slab_contains :: "'a slab \<Rightarrow> handle \<Rightarrow> bool" where
  "slab_contains s h \<longleftrightarrow> slab_get s h \<noteq> None"

text \<open>
  \<open>get_mut\<close> hands out a mutable borrow; its use is the update of the live value by a
  function, and nothing when the handle is stale.
\<close>

definition slab_get_mut :: "'a slab \<Rightarrow> handle \<Rightarrow> ('a \<Rightarrow> 'a) \<Rightarrow> 'a slab" where
  "slab_get_mut s h f =
     (case vec_get (slab_slots s) (unat (h_index h)) of
        Some (Occupied g v) \<Rightarrow>
          if g = h_generation h
          then s\<lparr>slab_slots := (slab_slots s)[unat (h_index h) := Occupied g (f v)]\<rparr>
          else s
      | _ \<Rightarrow> s)"

definition next_generation :: "u32 \<Rightarrow> u32 option" where
  "next_generation g = (if g = - 1 then None else Some (g + 1))"

definition slab_remove :: "'a slab \<Rightarrow> handle \<Rightarrow> 'a option \<times> 'a slab" where
  "slab_remove s h =
     (case vec_get (slab_slots s) (unat (h_index h)) of
        Some (Occupied g v) \<Rightarrow>
          if g \<noteq> h_generation h then (None, s)
          else (case next_generation g of
                  Some g' \<Rightarrow>
                    (Some v, \<lparr>slab_slots =
                                (slab_slots s)[unat (h_index h) := Vacant g' (slab_free_head s)],
                              slab_free_head = Some (h_index h),
                              slab_len = slab_len s - 1\<rparr>)
                | None \<Rightarrow>
                    (Some v, s\<lparr>slab_slots := (slab_slots s)[unat (h_index h) := Vacant g None],
                               slab_len := slab_len s - 1\<rparr>))
      | _ \<Rightarrow> (None, s))"

definition slab_clear :: "'a slab \<Rightarrow> 'a slab" where
  "slab_clear s = \<lparr>slab_slots = [], slab_free_head = None, slab_len = 0\<rparr>"

fun slab_iter_from :: "nat \<Rightarrow> 'a slot list \<Rightarrow> (handle \<times> 'a) list" where
  "slab_iter_from i [] = []"
| "slab_iter_from i (Occupied g v # ss) =
     (\<lparr>h_index = of_nat i, h_generation = g\<rparr>, v) # slab_iter_from (Suc i) ss"
| "slab_iter_from i (Vacant g n # ss) = slab_iter_from (Suc i) ss"

definition slab_iter :: "'a slab \<Rightarrow> (handle \<times> 'a) list" where
  "slab_iter s = slab_iter_from 0 (slab_slots s)"

fun slot_map :: "('a \<Rightarrow> 'a) \<Rightarrow> 'a slot \<Rightarrow> 'a slot" where
  "slot_map f (Occupied g v) = Occupied g (f v)"
| "slot_map f (Vacant g n) = Vacant g n"

definition slab_values_mut :: "'a slab \<Rightarrow> ('a \<Rightarrow> 'a) \<Rightarrow> 'a slab" where
  "slab_values_mut s f = s\<lparr>slab_slots := map (slot_map f) (slab_slots s)\<rparr>"

section \<open>The bump arena\<close>

type_synonym 'a arena = "'a list"

definition arena_alloc :: "'a arena \<Rightarrow> 'a \<Rightarrow> (u32 \<times> 'a arena) option" where
  "arena_alloc a v =
     (if length a < 4294967296 then Some (of_nat (length a), a @ [v]) else None)"

definition arena_get :: "'a arena \<Rightarrow> u32 \<Rightarrow> 'a option" where
  "arena_get a i = vec_get a (unat i)"

definition arena_get_mut :: "'a arena \<Rightarrow> u32 \<Rightarrow> ('a \<Rightarrow> 'a) \<Rightarrow> 'a arena" where
  "arena_get_mut a i f = (if unat i < length a then a[unat i := f (a ! unat i)] else a)"

definition arena_reset :: "'a arena \<Rightarrow> 'a arena" where
  "arena_reset a = []"

section \<open>Well-formed slabs\<close>

fun free_chain :: "'a slot list \<Rightarrow> u32 option \<Rightarrow> u32 list \<Rightarrow> bool" where
  "free_chain ss None [] = True"
| "free_chain ss (Some i) (j # fl) =
     (i = j \<and> unat i < length ss \<and>
      (case ss ! unat i of Vacant g n \<Rightarrow> free_chain ss n fl | Occupied g v \<Rightarrow> False))"
| "free_chain ss None (j # fl) = False"
| "free_chain ss (Some i) [] = False"

definition slab_inv :: "'a slab \<Rightarrow> bool" where
  "slab_inv s \<longleftrightarrow>
     (\<exists>fl. distinct fl \<and> free_chain (slab_slots s) (slab_free_head s) fl) \<and>
     slab_len s = length (filter is_Occupied (slab_slots s)) \<and>
     (\<forall>sl \<in> set (slab_slots s). slot_generation sl \<noteq> 0) \<and>
     length (slab_slots s) \<le> 4294967296"

text \<open>
  A handle is stale when its slot has moved past its generation, or was retired at it: the
  handle was removed and must never come back to life.
\<close>

definition slab_stale :: "'a slab \<Rightarrow> handle \<Rightarrow> bool" where
  "slab_stale s h \<longleftrightarrow>
     unat (h_index h) < length (slab_slots s) \<and>
     (case slab_slots s ! unat (h_index h) of
        Occupied g v \<Rightarrow> h_generation h < g
      | Vacant g n \<Rightarrow> h_generation h < g \<or>
          h_generation h = g \<and>
          (\<exists>fl. free_chain (slab_slots s) (slab_free_head s) fl \<and> h_index h \<notin> set fl))"

lemma free_chain_unique: "free_chain ss oi fl \<Longrightarrow> free_chain ss oi fl' \<Longrightarrow> fl = fl'"
proof (induction ss oi fl arbitrary: fl' rule: free_chain.induct)
  case (2 ss i j fl)
  then show ?case by (cases fl') (auto split: slot.splits)
qed (case_tac [!] fl', auto)

lemma free_chain_head: "free_chain ss (Some i) fl \<Longrightarrow> i \<in> set fl"
  by (cases fl) auto

lemma free_chain_vacant:
  "free_chain ss oi fl \<Longrightarrow> i \<in> set fl \<Longrightarrow>
   unat i < length ss \<and> (\<exists>g n. ss ! unat i = Vacant g n)"
  by (induction ss oi fl rule: free_chain.induct) (auto split: slot.splits)

lemma free_chain_update:
  "i \<notin> set fl \<Longrightarrow> free_chain (ss[unat i := x]) oi fl = free_chain ss oi fl"
proof (induction ss oi fl rule: free_chain.induct)
  case (2 ss k j fl)
  then show ?case
    by (cases "k = i") (auto simp: nth_list_update unat_inj_iff split: slot.splits)
qed auto

lemma free_chain_append: "free_chain ss oi fl \<Longrightarrow> free_chain (ss @ [x]) oi fl"
  by (induction ss oi fl rule: free_chain.induct) (auto simp: nth_append split: slot.splits)

lemma slab_inv_free_head:
  assumes "slab_inv s" and "slab_free_head s = Some i"
  obtains g n fl where "unat i < length (slab_slots s)" "slab_slots s ! unat i = Vacant g n"
    "free_chain (slab_slots s) n fl" "distinct (i # fl)"
    "free_chain (slab_slots s) (slab_free_head s) (i # fl)"
proof -
  from assms obtain fl where d: "distinct fl"
    and c: "free_chain (slab_slots s) (Some i) fl" by (auto simp: slab_inv_def)
  from c obtain fl' where fl: "fl = i # fl'" by (cases fl) auto
  with c obtain g n where "unat i < length (slab_slots s)" "slab_slots s ! unat i = Vacant g n"
    "free_chain (slab_slots s) n fl'" by (auto split: slot.splits)
  with d fl c assms(2) show thesis by (intro that [of g n fl']) auto
qed

lemma slab_new_inv: "slab_inv slab_new"
  by (auto simp: slab_inv_def slab_new_def intro: exI [of _ "[]"])

lemma count_occupied_update:
  "i < length ss \<Longrightarrow>
   length (filter is_Occupied (ss[i := x])) + (if is_Occupied (ss ! i) then 1 else 0) =
   length (filter is_Occupied ss) + (if is_Occupied x then 1 else 0)"
proof (induction ss arbitrary: i)
  case (Cons s ss)
  then show ?case by (cases i) auto
qed simp

lemma slab_get_out: "length (slab_slots s) \<le> unat (h_index h) \<Longrightarrow> slab_get s h = None"
  by (simp add: slab_get_def vec_get_def)

subsection \<open>Insertion\<close>

lemma slab_insert_cases:
  assumes "slab_inv s" and "slab_insert s v = Some (h, s')"
  obtains (reuse) n fl where "slab_free_head s = Some (h_index h)"
      "unat (h_index h) < length (slab_slots s)"
      "slab_slots s ! unat (h_index h) = Vacant (h_generation h) n"
      "s' = \<lparr>slab_slots = (slab_slots s)[unat (h_index h) := Occupied (h_generation h) v],
             slab_free_head = n, slab_len = slab_len s + 1\<rparr>"
      "free_chain (slab_slots s) n fl" "distinct (h_index h # fl)"
      "free_chain (slab_slots s) (slab_free_head s) (h_index h # fl)"
  | (fresh) "slab_free_head s = None" "length (slab_slots s) < 4294967296"
      "h = \<lparr>h_index = of_nat (length (slab_slots s)), h_generation = 1\<rparr>"
      "s' = s\<lparr>slab_slots := slab_slots s @ [Occupied 1 v], slab_len := slab_len s + 1\<rparr>"
proof (cases "slab_free_head s")
  case None
  with assms(2) show thesis
    by (intro fresh) (auto simp: slab_insert_def split: if_splits)
next
  case (Some i)
  from slab_inv_free_head [OF assms(1) Some] obtain g n fl where
    c: "unat i < length (slab_slots s)" "slab_slots s ! unat i = Vacant g n"
    "free_chain (slab_slots s) n fl" "distinct (i # fl)"
    "free_chain (slab_slots s) (slab_free_head s) (i # fl)" by blast
  with Some assms(2) have "h = \<lparr>h_index = i, h_generation = g\<rparr>"
    and "s' = \<lparr>slab_slots = (slab_slots s)[unat i := Occupied g v],
             slab_free_head = n, slab_len = slab_len s + 1\<rparr>"
    by (auto simp: slab_insert_def vec_get_def)
  with c Some show thesis by (intro reuse [of n fl]) auto
qed

lemma slab_insert_inv: "slab_inv s \<Longrightarrow> slab_insert s v = Some (h, s') \<Longrightarrow> slab_inv s'"
proof -
  assume inv: "slab_inv s" and ins: "slab_insert s v = Some (h, s')"
  from inv ins show ?thesis
  proof (cases rule: slab_insert_cases)
    case (reuse n fl)
    let ?ss = "(slab_slots s)[unat (h_index h) := Occupied (h_generation h) v]"
    have "free_chain ?ss n fl" using reuse by (simp add: free_chain_update)
    moreover have "length (filter is_Occupied ?ss) = slab_len s + 1"
      using count_occupied_update [of "unat (h_index h)" "slab_slots s" "Occupied (h_generation h) v"]
        reuse inv by (simp add: slab_inv_def)
    moreover have "h_generation h \<noteq> 0"
      using inv reuse(2,3) by (auto simp: slab_inv_def dest!: nth_mem)
    ultimately show ?thesis using inv reuse
      by (auto simp: slab_inv_def dest!: set_update_subset_insert [THEN subsetD])
  next
    case fresh
    from inv obtain fl where "distinct fl" "free_chain (slab_slots s) (slab_free_head s) fl"
      by (auto simp: slab_inv_def)
    then have "\<exists>fl. distinct fl \<and> free_chain (slab_slots s') (slab_free_head s') fl"
      using fresh free_chain_append by fastforce
    with fresh inv show ?thesis by (auto simp: slab_inv_def)
  qed
qed

lemma slab_insert_get:
  assumes "slab_inv s" and "slab_insert s v = Some (h, s')"
  shows "slab_get s' h' = (if h' = h then Some v else slab_get s h')"
  using assms
proof (cases rule: slab_insert_cases)
  case (reuse n fl)
  then show ?thesis
    by (cases "h_index h' = h_index h")
      (auto simp: slab_get_def vec_get_def nth_list_update unat_inj_iff split: slot.splits)
next
  case fresh
  show ?thesis
  proof (cases "unat (h_index h') = length (slab_slots s)")
    case True
    then have "h_index h' = h_index h" using fresh(3) by (simp flip: True)
    then have "h' = h \<longleftrightarrow> h_generation h' = 1"
      using fresh(3) by (auto intro: handle.equality)
    with True fresh(4) show ?thesis by (simp add: slab_get_def vec_get_def)
  next
    case False
    then have "h' \<noteq> h" using fresh(2,3) by (auto simp: unat_of_nat_u32)
    with False fresh(4) show ?thesis by (auto simp: slab_get_def vec_get_def nth_append)
  qed
qed

lemma slab_insert_fresh:
  assumes "slab_inv s" and "slab_insert s v = Some (h, s')"
  shows "slab_get s h = None" and "\<not> slab_stale s h"
proof -
  from assms show "slab_get s h = None"
    by (cases rule: slab_insert_cases) (auto simp: slab_get_def vec_get_def unat_of_nat_u32)
  from assms show "\<not> slab_stale s h"
  proof (cases rule: slab_insert_cases)
    case (reuse n fl)
    then show ?thesis by (auto simp: slab_stale_def dest: free_chain_head)
  qed (auto simp: slab_stale_def unat_of_nat_u32)
qed

text \<open>\<open>insert\<close> panics only when all \<open>2^32\<close> slots are taken: the free list never lies.\<close>

lemma slab_insert_total:
  assumes "slab_inv s"
  shows "slab_insert s v = None \<longleftrightarrow>
         slab_free_head s = None \<and> length (slab_slots s) = 4294967296"
proof (cases "slab_free_head s")
  case None
  with assms show ?thesis by (auto simp: slab_insert_def slab_inv_def)
next
  case (Some i)
  from slab_inv_free_head [OF assms Some] obtain g n where
    "unat i < length (slab_slots s)" "slab_slots s ! unat i = Vacant g n" by blast
  with Some show ?thesis by (simp add: slab_insert_def vec_get_def)
qed

subsection \<open>Removal and update\<close>

lemma slab_remove_cases:
  obtains (stale) "slab_get s h = None" "slab_remove s h = (None, s)"
  | (reusable) v where "slab_get s h = Some v" "h_generation h \<noteq> - 1"
      "unat (h_index h) < length (slab_slots s)"
      "slab_slots s ! unat (h_index h) = Occupied (h_generation h) v"
      "slab_remove s h = (Some v,
         \<lparr>slab_slots = (slab_slots s)[unat (h_index h) :=
             Vacant (h_generation h + 1) (slab_free_head s)],
          slab_free_head = Some (h_index h), slab_len = slab_len s - 1\<rparr>)"
  | (retired) v where "slab_get s h = Some v" "h_generation h = - 1"
      "unat (h_index h) < length (slab_slots s)"
      "slab_slots s ! unat (h_index h) = Occupied (h_generation h) v"
      "slab_remove s h = (Some v,
         s\<lparr>slab_slots := (slab_slots s)[unat (h_index h) := Vacant (h_generation h) None],
           slab_len := slab_len s - 1\<rparr>)"
proof (cases "slab_get s h")
  case None
  then show thesis
    by (intro stale) (auto simp: slab_get_def slab_remove_def split: option.splits slot.splits)
next
  case (Some v)
  then have i: "unat (h_index h) < length (slab_slots s)"
    "slab_slots s ! unat (h_index h) = Occupied (h_generation h) v"
    by (auto simp: slab_get_def vec_get_def split: option.splits slot.splits if_splits)
  show thesis
  proof (cases "h_generation h = - 1")
    case True
    with Some i show thesis
      by (intro retired) (simp_all add: slab_remove_def vec_get_def next_generation_def)
  next
    case False
    with Some i show thesis
      by (intro reusable) (simp_all add: slab_remove_def vec_get_def next_generation_def)
  qed
qed

lemma slab_remove_inv: "slab_inv s \<Longrightarrow> slab_inv (snd (slab_remove s h))"
proof -
  assume inv: "slab_inv s"
  then obtain fl where fl: "distinct fl" "free_chain (slab_slots s) (slab_free_head s) fl"
    by (auto simp: slab_inv_def)
  have nin: "h_index h \<notin> set fl" if "slab_slots s ! unat (h_index h) = Occupied g v" for g v
    using free_chain_vacant [OF fl(2)] that by fastforce
  show ?thesis
  proof (cases rule: slab_remove_cases [of s h])
    case stale
    with inv show ?thesis by simp
  next
    case (reusable v)
    let ?x = "Vacant (h_generation h + 1) (slab_free_head s)"
    have "free_chain ((slab_slots s)[unat (h_index h) := ?x]) (Some (h_index h)) (h_index h # fl)"
      using reusable fl nin by (simp add: free_chain_update)
    moreover have "h_generation h + 1 \<noteq> 0" using reusable(2) by (metis add_eq_0_iff2)
    moreover note count_occupied_update [OF reusable(3), of ?x]
    ultimately show ?thesis using inv reusable fl nin
      by (auto simp: slab_inv_def simp del: free_chain.simps
          dest!: set_update_subset_insert [THEN subsetD] intro!: exI [of _ "h_index h # fl"])
  next
    case (retired v)
    let ?x = "Vacant (h_generation h) None"
    have "free_chain ((slab_slots s)[unat (h_index h) := ?x]) (slab_free_head s) fl"
      using retired fl nin by (simp add: free_chain_update)
    moreover note count_occupied_update [OF retired(3), of ?x]
    ultimately show ?thesis using inv retired fl
      by (auto simp: slab_inv_def dest!: set_update_subset_insert [THEN subsetD])
  qed
qed

lemma slab_remove_get:
  "slab_get (snd (slab_remove s h)) h' = (if h' = h then None else slab_get s h')"
proof (cases rule: slab_remove_cases [of s h])
  case (reusable v)
  then show ?thesis
    by (cases "h_index h' = h_index h")
      (auto simp: slab_get_def vec_get_def nth_list_update unat_inj_iff
        intro: handle.equality split: slot.splits)
next
  case (retired v)
  then show ?thesis
    by (cases "h_index h' = h_index h")
      (auto simp: slab_get_def vec_get_def nth_list_update unat_inj_iff
        intro: handle.equality split: slot.splits)
qed auto

lemma slab_remove_result: "fst (slab_remove s h) = slab_get s h"
  by (cases rule: slab_remove_cases [of s h]) auto

lemma slab_get_mut_get:
  "slab_get (slab_get_mut s h f) h' =
     (if h' = h then map_option f (slab_get s h) else slab_get s h')"
  by (cases "h_index h' = h_index h")
    (auto simp: slab_get_def slab_get_mut_def vec_get_def nth_list_update unat_inj_iff
      intro: handle.equality split: option.splits slot.splits)

lemma free_chain_slot_map: "free_chain (map (slot_map f) ss) oi fl = free_chain ss oi fl"
  by (induction ss oi fl rule: free_chain.induct) (auto split: slot.splits)

lemma is_Occupied_slot_map [simp]: "is_Occupied (slot_map f sl) = is_Occupied sl"
  by (cases sl) auto

lemma slot_generation_slot_map [simp]: "slot_generation (slot_map f sl) = slot_generation sl"
  by (cases sl) auto

lemma slab_values_mut_inv: "slab_inv (slab_values_mut s f) = slab_inv s"
  by (simp add: slab_inv_def slab_values_mut_def free_chain_slot_map filter_map comp_def)

lemma slab_values_mut_get: "slab_get (slab_values_mut s f) h = map_option f (slab_get s h)"
  by (auto simp: slab_get_def slab_values_mut_def vec_get_def split: slot.splits)

lemma slab_get_mut_inv: "slab_inv s \<Longrightarrow> slab_inv (slab_get_mut s h f)"
proof (cases "slab_get s h")
  case None
  then have "slab_get_mut s h f = s"
    by (auto simp: slab_get_def slab_get_mut_def split: option.splits slot.splits)
  moreover assume "slab_inv s"
  ultimately show ?thesis by simp
next
  case (Some v)
  then have i: "unat (h_index h) < length (slab_slots s)"
    "slab_slots s ! unat (h_index h) = Occupied (h_generation h) v"
    by (auto simp: slab_get_def vec_get_def split: option.splits slot.splits if_splits)
  assume inv: "slab_inv s"
  then obtain fl where fl: "distinct fl" "free_chain (slab_slots s) (slab_free_head s) fl"
    by (auto simp: slab_inv_def)
  have "h_index h \<notin> set fl" using free_chain_vacant [OF fl(2)] i(2) by fastforce
  with fl have "free_chain ((slab_slots s)[unat (h_index h) := Occupied (h_generation h) (f v)])
      (slab_free_head s) fl" by (simp add: free_chain_update)
  moreover have "h_generation h \<noteq> 0"
    using inv i by (auto simp: slab_inv_def dest!: nth_mem)
  moreover note count_occupied_update [OF i(1), of "Occupied (h_generation h) (f v)"]
  ultimately show ?thesis using inv i fl
    by (auto simp: slab_inv_def slab_get_mut_def vec_get_def
        dest!: set_update_subset_insert [THEN subsetD])
qed

subsection \<open>Stale handles\<close>

lemma slab_stale_None: "slab_stale s h \<Longrightarrow> slab_get s h = None"
  by (auto simp: slab_stale_def slab_get_def vec_get_def split: slot.splits)

lemma slab_remove_stale:
  assumes "slab_inv s" and "slab_get s h \<noteq> None"
  shows "slab_stale (snd (slab_remove s h)) h"
proof (cases rule: slab_remove_cases [of s h])
  case (reusable v)
  then have "h_generation h < h_generation h + 1"
    by (simp add: word_less_nat_alt word_Suc_not_max)
  with reusable show ?thesis by (simp add: slab_stale_def)
next
  case (retired v)
  from assms(1) obtain fl where fl: "free_chain (slab_slots s) (slab_free_head s) fl"
    by (auto simp: slab_inv_def)
  then have "h_index h \<notin> set fl" using free_chain_vacant [OF fl] retired(4) by fastforce
  with fl retired show ?thesis
    by (auto simp: slab_stale_def free_chain_update intro!: exI [of _ fl])
qed (use assms in simp)

lemma slab_stale_iff:
  assumes "free_chain (slab_slots s) (slab_free_head s) fl"
  shows "slab_stale s h \<longleftrightarrow>
     unat (h_index h) < length (slab_slots s) \<and>
     (case slab_slots s ! unat (h_index h) of
        Occupied g v \<Rightarrow> h_generation h < g
      | Vacant g n \<Rightarrow> h_generation h < g \<or> h_generation h = g \<and> h_index h \<notin> set fl)"
proof -
  have "(\<exists>fl'. free_chain (slab_slots s) (slab_free_head s) fl' \<and> i \<notin> set fl') \<longleftrightarrow> i \<notin> set fl" for i
    using assms free_chain_unique [OF assms] by blast
  then show ?thesis by (simp add: slab_stale_def split: slot.split)
qed

lemma slab_stale_insert:
  assumes "slab_inv s" and "slab_insert s v = Some (h', s')" and "slab_stale s h"
  shows "slab_stale s' h"
  using assms(1,2)
proof (cases rule: slab_insert_cases)
  case (reuse n fl)
  have chain: "free_chain (slab_slots s') (slab_free_head s') fl"
    using reuse by (simp add: free_chain_update)
  show ?thesis
    using assms(3) reuse(2-4)
    unfolding slab_stale_iff [OF chain] slab_stale_iff [OF reuse(7)]
    by (cases "h_index h = h_index h'")
      (auto simp: nth_list_update unat_inj_iff split: slot.splits)
next
  case fresh
  from assms(1) obtain fl where fl: "free_chain (slab_slots s) (slab_free_head s) fl"
    by (auto simp: slab_inv_def)
  then have chain: "free_chain (slab_slots s') (slab_free_head s') fl"
    using fresh(4) by (simp add: free_chain_append)
  show ?thesis
    using assms(3) fresh(4) unfolding slab_stale_iff [OF chain] slab_stale_iff [OF fl]
    by (auto simp: nth_append split: slot.splits)
qed

lemma slab_stale_remove:
  assumes "slab_inv s" and "slab_stale s h"
  shows "slab_stale (snd (slab_remove s h')) h"
proof -
  from assms(1) obtain fl where fl: "free_chain (slab_slots s) (slab_free_head s) fl"
    by (auto simp: slab_inv_def)
  have nin: "h_index h' \<notin> set fl" if "slab_slots s ! unat (h_index h') = Occupied g v" for g v
    using free_chain_vacant [OF fl] that by fastforce
  show ?thesis
  proof (cases rule: slab_remove_cases [of s h'])
    case (reusable v)
    let ?s = "snd (slab_remove s h')"
    have chain: "free_chain (slab_slots ?s) (slab_free_head ?s) (h_index h' # fl)"
      using reusable fl nin by (simp add: free_chain_update)
    have "h_generation h' < h_generation h' + 1"
      using reusable(2) by (simp add: word_less_nat_alt word_Suc_not_max)
    then show ?thesis
      using assms(2) reusable unfolding slab_stale_iff [OF chain] slab_stale_iff [OF fl]
      by (cases "h_index h = h_index h'")
        (auto simp: nth_list_update unat_inj_iff split: slot.splits)
  next
    case (retired v)
    let ?s = "snd (slab_remove s h')"
    have chain: "free_chain (slab_slots ?s) (slab_free_head ?s) fl"
      using retired fl nin by (simp add: free_chain_update)
    show ?thesis
      using assms(2) retired unfolding slab_stale_iff [OF chain] slab_stale_iff [OF fl]
      by (cases "h_index h = h_index h'")
        (auto simp: nth_list_update unat_inj_iff split: slot.splits)
  qed (use assms in simp)
qed

section \<open>The contract of a generational store\<close>

text \<open>
  What the clients of the slab (the DOM, the caches keyed by node identity) rely on: \<open>get\<close>
  is a finite map that \<open>insert\<close> extends at a handle never used before and \<open>remove\<close>
  restricts, and a removed handle stays dead through every later operation.
\<close>

datatype ('v, 'h) store_op = StoreInsert 'v | StoreRemove 'h

fun store_run ::
  "('s \<Rightarrow> 'v \<Rightarrow> ('h \<times> 's) option) \<Rightarrow> ('s \<Rightarrow> 'h \<Rightarrow> 'v option \<times> 's) \<Rightarrow>
   's \<Rightarrow> ('v, 'h) store_op list \<Rightarrow> ('h list \<times> 's) option" where
  "store_run ins rem s [] = Some ([], s)"
| "store_run ins rem s (StoreInsert v # ops) =
     (case ins s v of
        None \<Rightarrow> None
      | Some (h, s') \<Rightarrow> map_option (\<lambda>(hs, t). (h # hs, t)) (store_run ins rem s' ops))"
| "store_run ins rem s (StoreRemove h # ops) = store_run ins rem (snd (rem s h)) ops"

locale generational_store =
  fixes inv :: "'s \<Rightarrow> bool"
    and get :: "'s \<Rightarrow> 'h \<Rightarrow> 'v option"
    and ins :: "'s \<Rightarrow> 'v \<Rightarrow> ('h \<times> 's) option"
    and rem :: "'s \<Rightarrow> 'h \<Rightarrow> 'v option \<times> 's"
    and stale :: "'s \<Rightarrow> 'h \<Rightarrow> bool"
  assumes ins_inv: "inv s \<Longrightarrow> ins s v = Some (h, s') \<Longrightarrow> inv s'"
    and ins_get: "inv s \<Longrightarrow> ins s v = Some (h, s') \<Longrightarrow>
      get s' k = (if k = h then Some v else get s k)"
    and ins_fresh: "inv s \<Longrightarrow> ins s v = Some (h, s') \<Longrightarrow> get s h = None \<and> \<not> stale s h"
    and rem_inv: "inv s \<Longrightarrow> inv (snd (rem s h))"
    and rem_get: "get (snd (rem s h)) k = (if k = h then None else get s k)"
    and rem_stale: "inv s \<Longrightarrow> get s h \<noteq> None \<Longrightarrow> stale (snd (rem s h)) h"
    and stale_None: "stale s h \<Longrightarrow> get s h = None"
    and stale_ins: "inv s \<Longrightarrow> ins s v = Some (k, s') \<Longrightarrow> stale s h \<Longrightarrow> stale s' h"
    and stale_rem: "inv s \<Longrightarrow> stale s h \<Longrightarrow> stale (snd (rem s k)) h"
begin

definition known :: "'s \<Rightarrow> 'h \<Rightarrow> bool" where
  "known s h \<longleftrightarrow> get s h \<noteq> None \<or> stale s h"

lemma known_ins: "inv s \<Longrightarrow> ins s v = Some (k, s') \<Longrightarrow> known s h \<or> h = k \<Longrightarrow> known s' h"
  by (auto simp: known_def ins_get dest: stale_ins)

lemma known_rem: "inv s \<Longrightarrow> known s h \<Longrightarrow> known (snd (rem s k)) h"
  using rem_stale [of s h] stale_rem [of s h k] rem_get [of s k h]
  by (cases "h = k") (auto simp: known_def)

lemma run_issued:
  "inv s \<Longrightarrow> store_run ins rem s ops = Some (hs, s') \<Longrightarrow>
   inv s' \<and> distinct hs \<and> (\<forall>h. known s h \<longrightarrow> h \<notin> set hs) \<and>
   (\<forall>h. stale s h \<longrightarrow> stale s' h)"
proof (induction ops arbitrary: s hs)
  case Nil
  then show ?case by simp
next
  case (Cons op ops)
  show ?case
  proof (cases op)
    case (StoreInsert v)
    with Cons.prems(2) obtain h s1 hs1 where
      i: "ins s v = Some (h, s1)" and r: "store_run ins rem s1 ops = Some (hs1, s')"
      and hs: "hs = h # hs1" by (auto split: option.splits)
    have IH: "inv s' \<and> distinct hs1 \<and> (\<forall>h. known s1 h \<longrightarrow> h \<notin> set hs1) \<and>
        (\<forall>h. stale s1 h \<longrightarrow> stale s' h)"
      by (rule Cons.IH [OF ins_inv [OF Cons.prems(1) i] r])
    have "\<not> known s h" using ins_fresh [OF Cons.prems(1) i] by (simp add: known_def)
    moreover have "known s1 h" by (rule known_ins [OF Cons.prems(1) i]) simp
    ultimately show ?thesis
      using IH hs known_ins [OF Cons.prems(1) i] stale_ins [OF Cons.prems(1) i] by auto
  next
    case (StoreRemove h)
    with Cons.prems(2) have r: "store_run ins rem (snd (rem s h)) ops = Some (hs, s')" by simp
    show ?thesis
      using Cons.IH [OF rem_inv [OF Cons.prems(1)] r] known_rem [OF Cons.prems(1)]
        stale_rem [OF Cons.prems(1)] by blast
  qed
qed

lemma removed_stays_dead:
  assumes "inv s" "get s h \<noteq> None" "store_run ins rem (snd (rem s h)) ops = Some (hs, s')"
  shows "get s' h = None \<and> h \<notin> set hs"
  using run_issued [OF rem_inv [OF assms(1)] assms(3)] rem_stale [OF assms(1,2)]
  by (auto simp: known_def dest: stale_None)

end

interpretation slab: generational_store slab_inv slab_get slab_insert slab_remove slab_stale
  by unfold_locales
    (auto simp: slab_insert_inv slab_insert_get slab_insert_fresh slab_remove_inv slab_remove_get
      slab_remove_stale slab_stale_None intro: slab_stale_insert slab_stale_remove)

section \<open>Properties\<close>

lemma slab_iter_from_set:
  assumes "i + length ss \<le> 4294967296"
  shows "(h, v) \<in> set (slab_iter_from i ss) \<longleftrightarrow>
     i \<le> unat (h_index h) \<and> unat (h_index h) < i + length ss \<and>
     ss ! (unat (h_index h) - i) = Occupied (h_generation h) v"
  using assms
proof (induction i ss rule: slab_iter_from.induct)
  case (2 i g w ss)
  have "h = \<lparr>h_index = of_nat i, h_generation = g\<rparr> \<longleftrightarrow>
      unat (h_index h) = i \<and> h_generation h = g"
    using 2(2) by (cases h) (auto simp: unat_of_nat_u32)
  with 2 show ?case
    by (cases "unat (h_index h) = i") (auto simp: nth_Cons' le_less not_less diff_Suc)
next
  case (3 i g n ss)
  then show ?case
    by (cases "unat (h_index h) = i") (auto simp: nth_Cons' le_less not_less diff_Suc)
qed auto

lemma slab_iter_get: "slab_inv s \<Longrightarrow> (h, v) \<in> set (slab_iter s) \<longleftrightarrow> slab_get s h = Some v"
  by (auto simp: slab_iter_def slab_iter_from_set slab_inv_def slab_get_def vec_get_def
      split: slot.splits)

lemma slab_dom_finite: "slab_inv s \<Longrightarrow> finite (dom (slab_get s))"
proof (rule finite_subset [of _ "fst ` set (slab_iter s)"])
  assume inv: "slab_inv s"
  show "dom (slab_get s) \<subseteq> fst ` set (slab_iter s)"
  proof
    fix h assume "h \<in> dom (slab_get s)"
    then obtain v where "(h, v) \<in> set (slab_iter s)" using slab_iter_get [OF inv] by blast
    then show "h \<in> fst ` set (slab_iter s)" by force
  qed
qed simp

lemma slab_iter_from_length: "length (slab_iter_from i ss) = length (filter is_Occupied ss)"
  by (induction i ss rule: slab_iter_from.induct) auto

lemma slab_iter_from_distinct:
  "i + length ss \<le> 4294967296 \<Longrightarrow> distinct (map fst (slab_iter_from i ss))"
proof (induction i ss rule: slab_iter_from.induct)
  case (2 i g v ss)
  then show ?case by (auto simp: slab_iter_from_set unat_of_nat_u32)
qed auto

text \<open>C19: Over any sequence of insertions and removals on a well-formed slab, no handle is
  issued twice, no handle already live or dead is issued again, and the slab stays
  well-formed: the generation stamps rule out reuse of an identity.\<close>

theorem slab_handles_never_reissued:
  assumes "slab_inv s" and "store_run slab_insert slab_remove s ops = Some (hs, s')"
  shows "slab_inv s' \<and> distinct hs \<and>
    (\<forall>h \<in> set hs. slab_get s h = None \<and> \<not> slab_stale s h)"
  using slab.run_issued [OF assms] by (auto simp: slab.known_def)

theorem slab_handles_never_reissued_witness:
  "distinct [\<lparr>h_index = 0, h_generation = 1\<rparr>, \<lparr>h_index = 0, h_generation = 2\<rparr>]"
proof -
  let ?h = "\<lparr>h_index = 0, h_generation = 1\<rparr>"
  let ?ops = "[StoreInsert True, StoreRemove ?h, StoreInsert False]"
  have "\<exists>s'. store_run slab_insert slab_remove slab_new ?ops =
      Some ([?h, \<lparr>h_index = 0, h_generation = 2\<rparr>], s')"
    by (simp add: slab_new_def slab_insert_def slab_remove_def vec_get_def next_generation_def)
  then show ?thesis using slab_handles_never_reissued [OF slab_new_inv] by blast
qed

text \<open>A handle that was removed reads \<open>None\<close> for ever: whatever is inserted and removed
  afterwards, also when its slot is reused, \<open>get\<close> never returns a later occupant for it.\<close>

theorem slab_removed_handle_never_aliases:
  assumes "slab_inv s" and "slab_get s h \<noteq> None"
    and "store_run slab_insert slab_remove (snd (slab_remove s h)) ops = Some (hs, s')"
  shows "slab_get s' h = None \<and> h \<notin> set hs"
  using slab.removed_stays_dead [OF assms] .

theorem slab_removed_handle_never_aliases_witness:
  "slab_get (snd (the (slab_insert (snd (slab_remove
      (snd (the (slab_insert slab_new True))) \<lparr>h_index = 0, h_generation = 1\<rparr>)) False)))
    \<lparr>h_index = 0, h_generation = 1\<rparr> = None"
proof -
  let ?h = "\<lparr>h_index = 0, h_generation = 1\<rparr>"
  let ?s = "snd (the (slab_insert slab_new True))"
  let ?t = "snd (the (slab_insert (snd (slab_remove ?s ?h)) False))"
  have ins: "slab_insert slab_new True = Some (?h, ?s)"
    by (simp add: slab_new_def slab_insert_def)
  have get: "slab_get ?s ?h \<noteq> None"
    by (simp add: slab_get_def slab_new_def slab_insert_def vec_get_def)
  have run: "store_run slab_insert slab_remove (snd (slab_remove ?s ?h)) [StoreInsert False] =
      Some ([\<lparr>h_index = 0, h_generation = 2\<rparr>], ?t)"
    by (simp add: slab_new_def slab_insert_def slab_remove_def vec_get_def next_generation_def)
  show ?thesis
    using slab_removed_handle_never_aliases [OF slab_insert_inv [OF slab_new_inv ins] get run] by simp
qed

text \<open>C8: The slab refines a finite map from handles to values: \<open>insert\<close> adds one
  entry at an unused key, \<open>remove\<close> returns and deletes the entry, \<open>get_mut\<close> updates it,
  \<open>values_mut\<close> updates all, \<open>iter\<close> lists exactly the entries once, and \<open>len\<close> is their
  number. \<open>insert\<close> fails only when every one of the \<open>2^32\<close> slots is taken.\<close>

theorem slab_refines_map:
  assumes "slab_inv s"
  shows "(case slab_insert s v of
            None \<Rightarrow> slab_free_head s = None \<and> slab_capacity s = 4294967296
          | Some (h, s') \<Rightarrow> slab_get s h = None \<and> slab_get s' = (slab_get s)(h \<mapsto> v)) \<and>
    fst (slab_remove s k) = slab_get s k \<and>
    slab_get (snd (slab_remove s k)) = (slab_get s)(k := None) \<and>
    slab_get (slab_get_mut s k f) = (slab_get s)(k := map_option f (slab_get s k)) \<and>
    slab_get (slab_values_mut s f) = map_option f \<circ> slab_get s \<and>
    map_of (slab_iter s) = slab_get s \<and> distinct (map fst (slab_iter s)) \<and>
    slab_len s = card (dom (slab_get s))"
proof (intro conjI)
  show "case slab_insert s v of
            None \<Rightarrow> slab_free_head s = None \<and> slab_capacity s = 4294967296
          | Some (h, s') \<Rightarrow> slab_get s h = None \<and> slab_get s' = (slab_get s)(h \<mapsto> v)"
    using slab_insert_total [OF assms, of v] slab_insert_fresh(1) [OF assms, of v]
      slab_insert_get [OF assms, of v]
    by (auto simp: slab_capacity_def fun_eq_iff split: option.splits)
  show "slab_get (snd (slab_remove s k)) = (slab_get s)(k := None)"
    using slab_remove_get [of s k] by (auto simp: fun_eq_iff)
  have len: "length (slab_slots s) \<le> 4294967296" using assms by (simp add: slab_inv_def)
  show d: "distinct (map fst (slab_iter s))"
    using slab_iter_from_distinct [of 0] len by (simp add: slab_iter_def)
  then show m: "map_of (slab_iter s) = slab_get s"
    using slab_iter_get [OF assms]
    by (metis (no_types, lifting) map_of_eq_Some_iff not_Some_eq ext)
  have "slab_len s = length (slab_iter s)"
    using assms by (simp add: slab_inv_def slab_iter_def slab_iter_from_length)
  also have "\<dots> = card (dom (map_of (slab_iter s)))"
    using d by (metis dom_map_of_conv_image_fst distinct_card length_map set_map)
  finally show "slab_len s = card (dom (slab_get s))" by (simp add: m)
qed (auto simp: slab_remove_result slab_get_mut_get slab_values_mut_get)

theorem slab_refines_map_witness:
  "slab_len (snd (the (slab_insert slab_new True))) =
     card (dom (slab_get (snd (the (slab_insert slab_new True)))))"
proof -
  let ?s = "snd (the (slab_insert slab_new True))"
  have "slab_insert slab_new True = Some (\<lparr>h_index = 0, h_generation = 1\<rparr>, ?s)"
    by (simp add: slab_new_def slab_insert_def)
  then have "slab_inv ?s" by (rule slab_insert_inv [OF slab_new_inv])
  then show ?thesis
    using slab_refines_map [of ?s True "\<lparr>h_index = 0, h_generation = 1\<rparr>" Not] by simp
qed

lemma mask_low_32: "(0xFFFFFFFF :: u64) = mask 32"
  by (simp add: mask_eq_exp_minus_1)

lemma handle_to_bits_low: "handle_to_bits h AND 0xFFFFFFFF = ucast (h_generation h)"
  unfolding mask_low_32 handle_to_bits_def
  by (rule bit_word_eqI) (auto simp: bit_simps dest: bit_u32_less)

lemma handle_to_bits_high: "ucast (drop_bit 32 (handle_to_bits h)) = h_index h"
  unfolding handle_to_bits_def
  by (rule bit_word_eqI) (auto simp: bit_simps dest: bit_u32_less)

text \<open>Packing a handle into a \<open>u64\<close> loses nothing: \<open>from_bits\<close> undoes \<open>to_bits\<close> on
  every handle (whose generation is never zero), the packed value is never the niche \<open>0\<close>, and
  every \<open>u64\<close> that \<open>from_bits\<close> accepts is the packing of the handle it returns.\<close>

theorem handle_bits_roundtrip:
  assumes "h_generation h \<noteq> 0"
  shows "handle_from_bits (handle_to_bits h) = Some h \<and> handle_to_bits h \<noteq> 0 \<and>
    (\<forall>b k. handle_from_bits b = Some k \<longrightarrow> handle_to_bits k = b)"
proof (intro conjI allI impI)
  have g: "ucast (ucast (h_generation h) :: u64) = h_generation h"
    by (auto simp: bit_simps intro!: bit_word_eqI dest: bit_imp_le_length)
  with assms show "handle_from_bits (handle_to_bits h) = Some h"
    by (simp add: handle_from_bits_def handle_to_bits_low handle_to_bits_high)
  from g assms show "handle_to_bits h \<noteq> 0"
    using handle_to_bits_low [of h] by auto
next
  fix b k
  assume "handle_from_bits b = Some k"
  then have k: "k = \<lparr>h_index = ucast (drop_bit 32 b), h_generation = ucast (b AND 0xFFFFFFFF)\<rparr>"
    by (auto simp: handle_from_bits_def Let_def split: if_splits)
  show "handle_to_bits k = b" unfolding k handle_to_bits_def mask_low_32
    by (rule bit_word_eqI) (auto simp: bit_simps)
qed

theorem handle_bits_roundtrip_witness:
  "handle_from_bits (handle_to_bits \<lparr>h_index = 7, h_generation = 3\<rparr>) =
     Some \<lparr>h_index = 7, h_generation = 3\<rparr>"
  using handle_bits_roundtrip [of "\<lparr>h_index = 7, h_generation = 3\<rparr>"] by simp

end
