(* ===== verification/Dom.thy ===== *)
theory Dom
  imports Arena
begin

text \<open>
  The document tree of \<^verbatim>\<open>crates/cv_dom/src\<close>: nodes in a generational slab
  (\<^verbatim>\<open>lib.rs\<close>), the per-node invalidation byte (\<^verbatim>\<open>invalidation.rs\<close>) and the mutation
  observers (\<^verbatim>\<open>mutation.rs\<close>). Strings are byte strings. The \<open>Rc\<close>-shared observers live in a
  store \<open>d_obs\<close> addressed by number, \<open>d_observers\<close> lists the registered addresses. A loop over
  parent or child links may run for ever on a cyclic graph: such operations are
  \<open>partial_function (option)\<close> and return \<open>None\<close> when they do not come back. A Rust panic is
  the exit value \<open>Panic\<close>.
\<close>

section \<open>ASCII case\<close>

definition ascii_lower :: "char \<Rightarrow> char" where
  "ascii_lower c = (let n = of_char c :: nat in if 65 \<le> n \<and> n \<le> 90 then char_of (n + 32) else c)"

definition ascii_upper :: "char \<Rightarrow> char" where
  "ascii_upper c = (let n = of_char c :: nat in if 97 \<le> n \<and> n \<le> 122 then char_of (n - 32) else c)"

definition to_ascii_lowercase :: "string \<Rightarrow> string" where
  "to_ascii_lowercase s = map ascii_lower s"

definition to_ascii_uppercase :: "string \<Rightarrow> string" where
  "to_ascii_uppercase s = map ascii_upper s"

definition eq_ignore_ascii_case :: "string \<Rightarrow> string \<Rightarrow> bool" where
  "eq_ignore_ascii_case a b \<longleftrightarrow> to_ascii_lowercase a = to_ascii_lowercase b"

section \<open>The invalidation lattice\<close>

type_synonym stage_mask = u8

definition NEEDS_STYLE :: u8 where "NEEDS_STYLE = 1"
definition NEEDS_LAYOUT :: u8 where "NEEDS_LAYOUT = 2"
definition NEEDS_PAINT :: u8 where "NEEDS_PAINT = 4"
definition CHILD_NEEDS_STYLE :: u8 where "CHILD_NEEDS_STYLE = 8"
definition CHILD_NEEDS_LAYOUT :: u8 where "CHILD_NEEDS_LAYOUT = 16"
definition CHILD_NEEDS_PAINT :: u8 where "CHILD_NEEDS_PAINT = 32"

definition SELF_ANY :: u8 where
  "SELF_ANY = NEEDS_STYLE OR NEEDS_LAYOUT OR NEEDS_PAINT"

definition CHILD_ANY :: u8 where
  "CHILD_ANY = CHILD_NEEDS_STYLE OR CHILD_NEEDS_LAYOUT OR CHILD_NEEDS_PAINT"

definition stage_is_set :: "stage_mask \<Rightarrow> u8 \<Rightarrow> bool" where
  "stage_is_set m b \<longleftrightarrow> m AND b \<noteq> 0"

definition stage_insert :: "stage_mask \<Rightarrow> u8 \<Rightarrow> stage_mask" where
  "stage_insert m b = m OR b"

definition stage_remove :: "stage_mask \<Rightarrow> u8 \<Rightarrow> stage_mask" where
  "stage_remove m b = m AND NOT b"

definition any_self_dirty :: "stage_mask \<Rightarrow> bool" where
  "any_self_dirty m \<longleftrightarrow> m AND SELF_ANY \<noteq> 0"

definition any_descendant_dirty :: "stage_mask \<Rightarrow> bool" where
  "any_descendant_dirty m \<longleftrightarrow> m AND CHILD_ANY \<noteq> 0"

definition child_bit_for :: "u8 \<Rightarrow> u8 option" where
  "child_bit_for self_bit =
     (if self_bit = NEEDS_STYLE then Some CHILD_NEEDS_STYLE
      else if self_bit = NEEDS_LAYOUT then Some CHILD_NEEDS_LAYOUT
      else if self_bit = NEEDS_PAINT then Some CHILD_NEEDS_PAINT
      else None)"

section \<open>Attributes\<close>

type_synonym attr_map = "(string \<times> string) list"

definition attr_get :: "attr_map \<Rightarrow> string \<Rightarrow> string option" where
  "attr_get m name = map_option snd (List.find (\<lambda>(k, _). eq_ignore_ascii_case k name) m)"

fun attr_set :: "attr_map \<Rightarrow> string \<Rightarrow> string \<Rightarrow> string option \<times> attr_map" where
  "attr_set [] name v = (None, [(name, v)])"
| "attr_set ((k, old) # m) name v =
     (if eq_ignore_ascii_case k name then (Some old, (k, v) # m)
      else let (r, m') = attr_set m name v in (r, (k, old) # m'))"

definition attr_remove :: "attr_map \<Rightarrow> string \<Rightarrow> string option \<times> attr_map" where
  "attr_remove m name =
     (case position (\<lambda>(k, _). eq_ignore_ascii_case k name) m of
        None \<Rightarrow> (None, m)
      | Some pos \<Rightarrow> (Some (snd (m ! pos)), vec_remove pos m))"

definition attr_has :: "attr_map \<Rightarrow> string \<Rightarrow> bool" where
  "attr_has m name \<longleftrightarrow> list_ex (\<lambda>(k, _). eq_ignore_ascii_case k name) m"

definition attr_names :: "attr_map \<Rightarrow> string list" where
  "attr_names m = map fst m"

section \<open>Nodes and mutation records\<close>

type_synonym node_id = handle

datatype node_kind =
    Document
  | DocumentType string string string
  | DocumentFragment
  | Element string "string option"
  | Text string
  | Comment string
  | ProcessingInstruction string string
  | CDataSection string

record node_record =
  nr_kind :: node_kind
  nr_attrs :: attr_map
  nr_parent :: "node_id option"
  nr_children :: "node_id list"
  nr_id_cache :: "string option"
  nr_stage :: stage_mask

datatype mutation_type =
    MAttributes string "string option" "string option" "string option"
  | MCharacterData string string
  | MChildList "node_id list" "node_id list" "node_id option" "node_id option"

record mutation_record =
  mr_target :: node_id
  mr_kind :: mutation_type

record observer_init =
  oi_child_list :: bool
  oi_attributes :: bool
  oi_character_data :: bool
  oi_subtree :: bool
  oi_attribute_old_value :: bool
  oi_character_data_old_value :: bool
  oi_attribute_filter :: "string list option"

record registration =
  reg_root :: node_id
  reg_init :: observer_init

record mutation_observer =
  mo_registrations :: "registration list"
  mo_pending :: "mutation_record list"
  mo_default_init :: observer_init

definition observer_new :: "observer_init \<Rightarrow> mutation_observer" where
  "observer_new init = \<lparr>mo_registrations = [], mo_pending = [], mo_default_init = init\<rparr>"

definition observe_with :: "mutation_observer \<Rightarrow> node_id \<Rightarrow> observer_init \<Rightarrow> mutation_observer" where
  "observe_with o' root init =
     o'\<lparr>mo_registrations :=
          filter (\<lambda>r. reg_root r \<noteq> root) (mo_registrations o') @ [\<lparr>reg_root = root, reg_init = init\<rparr>]\<rparr>"

definition observe :: "mutation_observer \<Rightarrow> node_id \<Rightarrow> mutation_observer" where
  "observe o' root = observe_with o' root (mo_default_init o')"

definition disconnect :: "mutation_observer \<Rightarrow> mutation_observer" where
  "disconnect o' = o'\<lparr>mo_registrations := [], mo_pending := []\<rparr>"

definition observer_roots :: "mutation_observer \<Rightarrow> node_id list" where
  "observer_roots o' = map reg_root (mo_registrations o')"

definition trim_record :: "observer_init \<Rightarrow> mutation_record \<Rightarrow> mutation_record option" where
  "trim_record init rec =
     (case mr_kind rec of
        MAttributes name ns old new \<Rightarrow>
          if \<not> oi_attributes init then None
          else if (case oi_attribute_filter init of
                     None \<Rightarrow> False
                   | Some fs \<Rightarrow> \<not> list_ex (\<lambda>f. eq_ignore_ascii_case f name) fs) then None
          else Some (rec\<lparr>mr_kind := MAttributes name ns
                          (if oi_attribute_old_value init then old else None) new\<rparr>)
      | MCharacterData old new \<Rightarrow>
          if \<not> oi_character_data init then None
          else Some (rec\<lparr>mr_kind := MCharacterData
                          (if oi_character_data_old_value init then old else []) new\<rparr>)
      | MChildList _ _ _ _ \<Rightarrow> if \<not> oi_child_list init then None else Some rec)"

definition record_for ::
  "mutation_observer \<Rightarrow> node_id \<Rightarrow> nat \<Rightarrow> mutation_record \<Rightarrow> mutation_record option" where
  "record_for o' root distance rec =
     (case List.find (\<lambda>r. reg_root r = root) (mo_registrations o') of
        None \<Rightarrow> None
      | Some reg \<Rightarrow>
          if distance > 0 \<and> \<not> oi_subtree (reg_init reg) then None
          else trim_record (reg_init reg) rec)"

definition enqueue :: "mutation_observer \<Rightarrow> mutation_record \<Rightarrow> mutation_observer" where
  "enqueue o' rec = o'\<lparr>mo_pending := mo_pending o' @ [rec]\<rparr>"

definition take_records :: "mutation_observer \<Rightarrow> mutation_record list \<times> mutation_observer" where
  "take_records o' = (mo_pending o', o'\<lparr>mo_pending := []\<rparr>)"

definition has_pending :: "mutation_observer \<Rightarrow> bool" where
  "has_pending o' \<longleftrightarrow> mo_pending o' \<noteq> []"

section \<open>The document\<close>

record document =
  d_slab :: "node_record slab"
  d_root :: "node_id option"
  d_id_index :: "string \<rightharpoonup> node_id"
  d_observers :: "nat list"
  d_obs :: "nat \<Rightarrow> mutation_observer"

datatype dom_error = NotFound | HierarchyRequest | Stale | InvalidArgument string

datatype dom_exit = Err dom_error | Panic

type_synonym 'a dom_result = "((dom_exit + 'a) \<times> document) option"

definition dom_rec :: "document \<Rightarrow> node_id \<Rightarrow> node_record option" where
  "dom_rec d n = slab_get (d_slab d) n"

definition rec_mut :: "document \<Rightarrow> node_id \<Rightarrow> (node_record \<Rightarrow> node_record) \<Rightarrow> document" where
  "rec_mut d n f = d\<lparr>d_slab := slab_get_mut (d_slab d) n f\<rparr>"

definition dom_alloc :: "document \<Rightarrow> node_kind \<Rightarrow> (node_id \<times> document) option" where
  "dom_alloc d kind =
     (case slab_insert (d_slab d)
             \<lparr>nr_kind = kind, nr_attrs = [], nr_parent = None, nr_children = [],
              nr_id_cache = None, nr_stage = SELF_ANY OR CHILD_ANY\<rparr> of
        None \<Rightarrow> None
      | Some (h, s) \<Rightarrow> Some (h, d\<lparr>d_slab := s\<rparr>))"

definition document_new :: "(nat \<Rightarrow> mutation_observer) \<Rightarrow> document option" where
  "document_new obs =
     (case dom_alloc \<lparr>d_slab = slab_new, d_root = None, d_id_index = Map.empty,
                      d_observers = [], d_obs = obs\<rparr> Document of
        None \<Rightarrow> None
      | Some (r, d) \<Rightarrow> Some (d\<lparr>d_root := Some r\<rparr>))"

definition create_element :: "document \<Rightarrow> string \<Rightarrow> (node_id \<times> document) option" where
  "create_element d tag = dom_alloc d (Element tag None)"

definition create_element_ns :: "document \<Rightarrow> string \<Rightarrow> string \<Rightarrow> (node_id \<times> document) option" where
  "create_element_ns d ns tag = dom_alloc d (Element tag (Some ns))"

definition create_text_node :: "document \<Rightarrow> string \<Rightarrow> (node_id \<times> document) option" where
  "create_text_node d data = dom_alloc d (Text data)"

definition create_comment :: "document \<Rightarrow> string \<Rightarrow> (node_id \<times> document) option" where
  "create_comment d data = dom_alloc d (Comment data)"

definition create_document_fragment :: "document \<Rightarrow> (node_id \<times> document) option" where
  "create_document_fragment d = dom_alloc d DocumentFragment"

subsection \<open>Tree queries\<close>

definition node_kind_of :: "document \<Rightarrow> node_id \<Rightarrow> node_kind option" where
  "node_kind_of d n = map_option nr_kind (dom_rec d n)"

definition parent :: "document \<Rightarrow> node_id \<Rightarrow> node_id option" where
  "parent d n = Option.bind (dom_rec d n) nr_parent"

definition children :: "document \<Rightarrow> node_id \<Rightarrow> node_id list" where
  "children d n = (case dom_rec d n of None \<Rightarrow> [] | Some r \<Rightarrow> nr_children r)"

definition first_child :: "document \<Rightarrow> node_id \<Rightarrow> node_id option" where
  "first_child d n = Option.bind (dom_rec d n) (\<lambda>r. vec_get (nr_children r) 0)"

definition vec_last :: "'a list \<Rightarrow> 'a option" where
  "vec_last xs = (if xs = [] then None else Some (last xs))"

definition last_child :: "document \<Rightarrow> node_id \<Rightarrow> node_id option" where
  "last_child d n = Option.bind (dom_rec d n) (\<lambda>r. vec_last (nr_children r))"

definition next_sibling :: "document \<Rightarrow> node_id \<Rightarrow> node_id option" where
  "next_sibling d n =
     Option.bind (parent d n) (\<lambda>p.
       let kids = children d p
       in Option.bind (position (\<lambda>c. c = n) kids) (\<lambda>i. vec_get kids (i + 1)))"

definition vec_before :: "'a list \<Rightarrow> nat \<Rightarrow> 'a option" where
  "vec_before xs i = (if i = 0 then None else vec_get xs (i - 1))"

definition previous_sibling :: "document \<Rightarrow> node_id \<Rightarrow> node_id option" where
  "previous_sibling d n =
     Option.bind (parent d n) (\<lambda>p.
       let kids = children d p
       in Option.bind (position (\<lambda>c. c = n) kids) (\<lambda>i. vec_before kids i))"

subsection \<open>Marking\<close>

partial_function (option) mark_up :: "document \<Rightarrow> node_id option \<Rightarrow> u8 \<Rightarrow> document option" where
  "mark_up d cur child_bit =
     (case cur of
        None \<Rightarrow> Some d
      | Some p \<Rightarrow>
          (case dom_rec d p of
             None \<Rightarrow> Some d
           | Some r \<Rightarrow>
               if stage_is_set (nr_stage r) child_bit then Some d
               else let d' = rec_mut d p (\<lambda>r. r\<lparr>nr_stage := stage_insert (nr_stage r) child_bit\<rparr>)
                    in mark_up d' (parent d' p) child_bit))"

definition mark :: "document \<Rightarrow> node_id \<Rightarrow> u8 \<Rightarrow> document option" where
  "mark d n self_bit =
     (case dom_rec d n of
        None \<Rightarrow> Some d
      | Some r \<Rightarrow>
          if stage_is_set (nr_stage r) self_bit then Some d
          else let d' = rec_mut d n (\<lambda>r. r\<lparr>nr_stage := stage_insert (nr_stage r) self_bit\<rparr>)
               in (case child_bit_for self_bit of
                     None \<Rightarrow> None
                   | Some child_bit \<Rightarrow> mark_up d' (parent d' n) child_bit))"

definition stage_mask_of :: "document \<Rightarrow> node_id \<Rightarrow> stage_mask" where
  "stage_mask_of d n = (case dom_rec d n of None \<Rightarrow> SELF_ANY OR CHILD_ANY | Some r \<Rightarrow> nr_stage r)"

definition clear_stage :: "document \<Rightarrow> node_id \<Rightarrow> u8 \<Rightarrow> document" where
  "clear_stage d n self_bit = rec_mut d n (\<lambda>r. r\<lparr>nr_stage := stage_remove (nr_stage r) self_bit\<rparr>)"

definition mark_needs_style :: "document \<Rightarrow> node_id \<Rightarrow> document option" where
  "mark_needs_style d n = mark d n NEEDS_STYLE"

definition mark_needs_layout :: "document \<Rightarrow> node_id \<Rightarrow> document option" where
  "mark_needs_layout d n = mark d n NEEDS_LAYOUT"

definition mark_needs_paint :: "document \<Rightarrow> node_id \<Rightarrow> document option" where
  "mark_needs_paint d n = mark d n NEEDS_PAINT"

definition stage_query :: "document \<Rightarrow> node_id \<Rightarrow> u8 \<Rightarrow> bool" where
  "stage_query d n b = (case dom_rec d n of None \<Rightarrow> True | Some r \<Rightarrow> stage_is_set (nr_stage r) b)"

definition needs_style :: "document \<Rightarrow> node_id \<Rightarrow> bool" where
  "needs_style d n = stage_query d n NEEDS_STYLE"

definition needs_layout :: "document \<Rightarrow> node_id \<Rightarrow> bool" where
  "needs_layout d n = stage_query d n NEEDS_LAYOUT"

definition needs_paint :: "document \<Rightarrow> node_id \<Rightarrow> bool" where
  "needs_paint d n = stage_query d n NEEDS_PAINT"

definition child_needs_style :: "document \<Rightarrow> node_id \<Rightarrow> bool" where
  "child_needs_style d n = stage_query d n CHILD_NEEDS_STYLE"

definition child_needs_layout :: "document \<Rightarrow> node_id \<Rightarrow> bool" where
  "child_needs_layout d n = stage_query d n CHILD_NEEDS_LAYOUT"

definition child_needs_paint :: "document \<Rightarrow> node_id \<Rightarrow> bool" where
  "child_needs_paint d n = stage_query d n CHILD_NEEDS_PAINT"

definition clear_style_dirty :: "document \<Rightarrow> node_id \<Rightarrow> document" where
  "clear_style_dirty d n = clear_stage d n NEEDS_STYLE"

definition mark_all_style_dirty :: "document \<Rightarrow> document" where
  "mark_all_style_dirty d =
     d\<lparr>d_slab := slab_values_mut (d_slab d) (\<lambda>r.
        r\<lparr>nr_stage := stage_insert (stage_insert (nr_stage r) NEEDS_STYLE) CHILD_NEEDS_STYLE\<rparr>)\<rparr>"

definition clear_all_style_dirty :: "document \<Rightarrow> document" where
  "clear_all_style_dirty d =
     d\<lparr>d_slab := slab_values_mut (d_slab d) (\<lambda>r.
        r\<lparr>nr_stage := stage_remove (stage_remove (nr_stage r) NEEDS_STYLE) CHILD_NEEDS_STYLE\<rparr>)\<rparr>"

text \<open>\<open>stack\<close> holds the Rust vector with its last element first.\<close>

partial_function (option) mark_subtree_loop :: "document \<Rightarrow> node_id list \<Rightarrow> document option" where
  "mark_subtree_loop d stack =
     (case stack of
        [] \<Rightarrow> Some d
      | n # rest \<Rightarrow>
          (case dom_rec d n of
             None \<Rightarrow> mark_subtree_loop d rest
           | Some r \<Rightarrow>
               mark_subtree_loop
                 (rec_mut d n (\<lambda>r. r\<lparr>nr_stage :=
                    stage_insert (stage_insert (nr_stage r) NEEDS_STYLE) CHILD_NEEDS_STYLE\<rparr>))
                 (rev (nr_children r) @ rest)))"

definition mark_style_dirty_subtree :: "document \<Rightarrow> node_id \<Rightarrow> document option" where
  "mark_style_dirty_subtree d n =
     Option.bind (mark_subtree_loop d [n]) (\<lambda>d'. mark_up d' (parent d' n) CHILD_NEEDS_STYLE)"

subsection \<open>Mutation records\<close>

partial_function (option) chain_from ::
  "document \<Rightarrow> node_id option \<Rightarrow> nat \<Rightarrow> (node_id \<times> nat) list \<Rightarrow> (node_id \<times> nat) list option" where
  "chain_from d cur dist chain =
     (case cur of
        None \<Rightarrow> Some chain
      | Some n \<Rightarrow> chain_from d (parent d n) (Suc dist) (chain @ [(n, dist)]))"

fun choose_record ::
  "mutation_observer \<Rightarrow> mutation_record \<Rightarrow> (node_id \<times> nat) list \<Rightarrow> mutation_record option" where
  "choose_record o' rec [] = None"
| "choose_record o' rec ((n, dist) # chain) =
     (if n \<in> set (observer_roots o')
      then (case record_for o' n dist rec of
              Some trimmed \<Rightarrow> Some trimmed
            | None \<Rightarrow> choose_record o' rec chain)
      else choose_record o' rec chain)"

definition deliver ::
  "mutation_record \<Rightarrow> (node_id \<times> nat) list \<Rightarrow> nat \<Rightarrow>
   (nat \<Rightarrow> mutation_observer) \<Rightarrow> (nat \<Rightarrow> mutation_observer)" where
  "deliver rec chain i obs =
     (case choose_record (obs i) rec chain of
        None \<Rightarrow> obs
      | Some trimmed \<Rightarrow> obs(i := enqueue (obs i) trimmed))"

definition emit_mutation :: "document \<Rightarrow> mutation_record \<Rightarrow> document option" where
  "emit_mutation d rec =
     Option.bind (chain_from d (Some (mr_target rec)) 0 []) (\<lambda>chain.
       Some (d\<lparr>d_obs := fold (deliver rec chain) (d_observers d) (d_obs d)\<rparr>))"

definition add_observer :: "document \<Rightarrow> nat \<Rightarrow> document" where
  "add_observer d i = d\<lparr>d_observers := d_observers d @ [i]\<rparr>"

text \<open>The callback receives each non-empty batch in turn; the model returns the batches.\<close>

fun notify_loop ::
  "nat list \<Rightarrow> (nat \<Rightarrow> mutation_observer) \<Rightarrow>
   mutation_record list list \<times> (nat \<Rightarrow> mutation_observer)" where
  "notify_loop [] obs = ([], obs)"
| "notify_loop (i # is) obs =
     (if has_pending (obs i)
      then let (records, o') = take_records (obs i);
               (batches, obs') = notify_loop is (obs(i := o'))
           in (records # batches, obs')
      else notify_loop is obs)"

definition notify_mutation_observers :: "document \<Rightarrow> mutation_record list list \<times> document" where
  "notify_mutation_observers d =
     (let (batches, obs) = notify_loop (d_observers d) (d_obs d) in (batches, d\<lparr>d_obs := obs\<rparr>))"

subsection \<open>The id index\<close>

definition maybe_register_id :: "document \<Rightarrow> node_id \<Rightarrow> document" where
  "maybe_register_id d n =
     (case Option.bind (dom_rec d n) (\<lambda>r. attr_get (nr_attrs r) ''id'') of
        None \<Rightarrow> d
      | Some s \<Rightarrow>
          let d' = rec_mut d n (\<lambda>r. r\<lparr>nr_id_cache := Some s\<rparr>)
          in d'\<lparr>d_id_index := (d_id_index d')(s \<mapsto> n)\<rparr>)"

definition unindex :: "document \<Rightarrow> node_id \<Rightarrow> string \<Rightarrow> document" where
  "unindex d n v =
     (if d_id_index d v = Some n then d\<lparr>d_id_index := (d_id_index d)(v := None)\<rparr> else d)"

definition unregister_id :: "document \<Rightarrow> node_id \<Rightarrow> document" where
  "unregister_id d n =
     (case Option.bind (dom_rec d n) nr_id_cache of
        None \<Rightarrow> rec_mut d n (\<lambda>r. r\<lparr>nr_id_cache := None\<rparr>)
      | Some v \<Rightarrow> unindex (rec_mut d n (\<lambda>r. r\<lparr>nr_id_cache := None\<rparr>)) n v)"

definition get_element_by_id :: "document \<Rightarrow> string \<Rightarrow> node_id option" where
  "get_element_by_id d s = d_id_index d s"

subsection \<open>Tree mutation\<close>

definition detach :: "document \<Rightarrow> node_id \<Rightarrow> document" where
  "detach d n =
     (case parent d n of
        None \<Rightarrow> d
      | Some p \<Rightarrow>
          unregister_id
            (rec_mut (rec_mut d p (\<lambda>r. r\<lparr>nr_children := filter (\<lambda>c. c \<noteq> n) (nr_children r)\<rparr>))
               n (\<lambda>r. r\<lparr>nr_parent := None\<rparr>)) n)"

partial_function (option) validate_loop ::
  "document \<Rightarrow> node_id option \<Rightarrow> node_id \<Rightarrow> (dom_error + unit) option" where
  "validate_loop d cur child =
     (case cur of
        None \<Rightarrow> Some (Inr ())
      | Some p \<Rightarrow>
          if p = child then Some (Inl HierarchyRequest)
          else validate_loop d (parent d p) child)"

definition validate_insert :: "document \<Rightarrow> node_id \<Rightarrow> node_id \<Rightarrow> (dom_error + unit) option" where
  "validate_insert d p child =
     (if p = child then Some (Inl HierarchyRequest) else validate_loop d (parent d p) child)"

definition set_parent :: "document \<Rightarrow> node_id \<Rightarrow> node_id option \<Rightarrow> document" where
  "set_parent d n p = rec_mut d n (\<lambda>r. r\<lparr>nr_parent := p\<rparr>)"

definition set_children :: "document \<Rightarrow> node_id \<Rightarrow> (node_id list \<Rightarrow> node_id list) \<Rightarrow> document" where
  "set_children d n f = rec_mut d n (\<lambda>r. r\<lparr>nr_children := f (nr_children r)\<rparr>)"

definition child_list_record ::
  "node_id \<Rightarrow> node_id list \<Rightarrow> node_id list \<Rightarrow> node_id option \<Rightarrow> node_id option \<Rightarrow> mutation_record" where
  "child_list_record target added removed prev next' =
     \<lparr>mr_target = target, mr_kind = MChildList added removed prev next'\<rparr>"

definition append_child :: "document \<Rightarrow> node_id \<Rightarrow> node_id \<Rightarrow> node_id dom_result" where
  "append_child d p child =
     Option.bind (validate_insert d p child) (\<lambda>v. case v of
       Inl e \<Rightarrow> Some (Inl (Err e), d)
     | Inr _ \<Rightarrow>
         let d1 = detach d child;
             prev = Option.bind (dom_rec d1 p) (\<lambda>r. vec_last (nr_children r))
         in (case dom_rec d1 p of
               None \<Rightarrow> Some (Inl (Err Stale), d1)
             | Some _ \<Rightarrow>
                 let d2 = set_children d1 p (\<lambda>cs. cs @ [child])
                 in (case dom_rec d2 child of
                       None \<Rightarrow> Some (Inl (Err Stale), d2)
                     | Some _ \<Rightarrow>
                         let d3 = maybe_register_id (set_parent d2 child (Some p)) child
                         in Option.bind (emit_mutation d3 (child_list_record p [child] [] prev None))
                              (\<lambda>d4. Some (Inr child, d4)))))"

definition insert_before ::
  "document \<Rightarrow> node_id \<Rightarrow> node_id \<Rightarrow> node_id option \<Rightarrow> node_id dom_result" where
  "insert_before d p new_node ref_node =
     Option.bind (validate_insert d p new_node) (\<lambda>v. case v of
       Inl e \<Rightarrow> Some (Inl (Err e), d)
     | Inr _ \<Rightarrow>
         (case ref_node of
            None \<Rightarrow> append_child d p new_node
          | Some r \<Rightarrow>
              (case position (\<lambda>c. c = r) (children d p) of
                 None \<Rightarrow> Some (Inl (Err NotFound), d)
               | Some ref_idx \<Rightarrow>
                   let d1 = detach d new_node;
                       prev = (if ref_idx = 0 then None
                               else Option.bind (dom_rec d1 p) (\<lambda>r. vec_get (nr_children r) (ref_idx - 1)))
                   in (case dom_rec d1 p of
                         None \<Rightarrow> Some (Inl (Err Stale), d1)
                       | Some pr \<Rightarrow>
                           if length (nr_children pr) < ref_idx then Some (Inl Panic, d1)
                           else let d2 = set_children d1 p (vec_insert ref_idx new_node)
                                in (case dom_rec d2 new_node of
                                      None \<Rightarrow> Some (Inl (Err Stale), d2)
                                    | Some _ \<Rightarrow>
                                        let d3 = maybe_register_id (set_parent d2 new_node (Some p)) new_node
                                        in Option.bind
                                             (emit_mutation d3 (child_list_record p [new_node] [] prev ref_node))
                                             (\<lambda>d4. Some (Inr new_node, d4)))))))"

definition remove_child :: "document \<Rightarrow> node_id \<Rightarrow> node_id \<Rightarrow> node_id dom_result" where
  "remove_child d p child =
     (let kids = children d p
      in case position (\<lambda>c. c = child) kids of
           None \<Rightarrow> Some (Inl (Err NotFound), d)
         | Some idx \<Rightarrow>
             let prev = vec_before kids idx; next' = vec_get kids (idx + 1)
             in (case dom_rec d p of
                   None \<Rightarrow> Some (Inl (Err Stale), d)
                 | Some _ \<Rightarrow>
                     let d1 = set_children d p (vec_remove idx)
                     in (case dom_rec d1 child of
                           None \<Rightarrow> Some (Inl (Err Stale), d1)
                         | Some _ \<Rightarrow>
                             let d2 = unregister_id (set_parent d1 child None) child
                             in Option.bind (emit_mutation d2 (child_list_record p [] [child] prev next'))
                                  (\<lambda>d3. Some (Inr child, d3)))))"

definition replace_child :: "document \<Rightarrow> node_id \<Rightarrow> node_id \<Rightarrow> node_id \<Rightarrow> node_id dom_result" where
  "replace_child d p new_child old_child =
     (let kids = children d p
      in case position (\<lambda>c. c = old_child) kids of
           None \<Rightarrow> Some (Inl (Err NotFound), d)
         | Some idx \<Rightarrow>
             Option.bind (validate_insert d p new_child) (\<lambda>v. case v of
               Inl e \<Rightarrow> Some (Inl (Err e), d)
             | Inr _ \<Rightarrow>
                 let d1 = unregister_id (detach d new_child) old_child;
                     prev = vec_before kids idx; next' = vec_get kids (idx + 1)
                 in (case dom_rec d1 p of
                       None \<Rightarrow> Some (Inl (Err Stale), d1)
                     | Some pr \<Rightarrow>
                         if length (nr_children pr) \<le> idx then Some (Inl Panic, d1)
                         else let d2 = set_children d1 p (\<lambda>cs. cs[idx := new_child])
                              in (case dom_rec d2 new_child of
                                    None \<Rightarrow> Some (Inl (Err Stale), d2)
                                  | Some _ \<Rightarrow>
                                      let d3 = set_parent d2 new_child (Some p)
                                      in (case dom_rec d3 old_child of
                                            None \<Rightarrow> Some (Inl (Err Stale), d3)
                                          | Some _ \<Rightarrow>
                                              let d4 = maybe_register_id (set_parent d3 old_child None) new_child
                                              in Option.bind
                                                   (emit_mutation d4
                                                      (child_list_record p [new_child] [old_child] prev next'))
                                                   (\<lambda>d5. Some (Inr old_child, d5)))))))"

subsection \<open>Attributes and text\<close>

definition attr_namespace :: "string \<Rightarrow> string option" where
  "attr_namespace name =
     (let lower = to_ascii_lowercase name
      in if lower = ''xmlns'' \<or> take 6 lower = ''xmlns:''
         then Some ''http://www.w3.org/2000/xmlns/''
         else if take 4 lower = ''xml:'' then Some ''http://www.w3.org/XML/1998/namespace''
         else if take 6 lower = ''xlink:'' then Some ''http://www.w3.org/1999/xlink''
         else None)"

definition get_attribute :: "document \<Rightarrow> node_id \<Rightarrow> string \<Rightarrow> string option" where
  "get_attribute d n name = Option.bind (dom_rec d n) (\<lambda>r. attr_get (nr_attrs r) name)"

definition has_attribute :: "document \<Rightarrow> node_id \<Rightarrow> string \<Rightarrow> bool" where
  "has_attribute d n name = (case dom_rec d n of None \<Rightarrow> False | Some r \<Rightarrow> attr_has (nr_attrs r) name)"

definition attribute_names :: "document \<Rightarrow> node_id \<Rightarrow> string list" where
  "attribute_names d n = (case dom_rec d n of None \<Rightarrow> [] | Some r \<Rightarrow> attr_names (nr_attrs r))"

definition set_attribute :: "document \<Rightarrow> node_id \<Rightarrow> string \<Rightarrow> string \<Rightarrow> document option" where
  "set_attribute d n name v =
     (let old = Option.bind (dom_rec d n) (\<lambda>r. fst (attr_set (nr_attrs r) name v));
          d1 = rec_mut d n (\<lambda>r. r\<lparr>nr_attrs := snd (attr_set (nr_attrs r) name v)\<rparr>);
          d2 = (if eq_ignore_ascii_case name ''id''
                then let da = (case old of None \<Rightarrow> d1 | Some prev \<Rightarrow> unindex d1 n prev);
                         db = da\<lparr>d_id_index := (d_id_index da)(v \<mapsto> n)\<rparr>
                     in rec_mut db n (\<lambda>r. r\<lparr>nr_id_cache := Some v\<rparr>)
                else d1)
      in emit_mutation d2
           \<lparr>mr_target = n, mr_kind = MAttributes name (attr_namespace name) old (Some v)\<rparr>)"

definition remove_attribute :: "document \<Rightarrow> node_id \<Rightarrow> string \<Rightarrow> document option" where
  "remove_attribute d n name =
     (let old = Option.bind (dom_rec d n) (\<lambda>r. fst (attr_remove (nr_attrs r) name));
          d1 = rec_mut d n (\<lambda>r. r\<lparr>nr_attrs := snd (attr_remove (nr_attrs r) name)\<rparr>);
          d2 = (if eq_ignore_ascii_case name ''id''
                then let da = (case old of None \<Rightarrow> d1 | Some prev \<Rightarrow> unindex d1 n prev)
                     in rec_mut da n (\<lambda>r. r\<lparr>nr_id_cache := None\<rparr>)
                else d1)
      in emit_mutation d2
           \<lparr>mr_target = n, mr_kind = MAttributes name (attr_namespace name) old None\<rparr>)"

definition set_text_data :: "document \<Rightarrow> node_id \<Rightarrow> string \<Rightarrow> string dom_result" where
  "set_text_data d n data =
     (case dom_rec d n of
        None \<Rightarrow> Some (Inl (Err Stale), d)
      | Some r \<Rightarrow>
          (case (case nr_kind r of
                   Text s \<Rightarrow> Some (s, Text data)
                 | Comment s \<Rightarrow> Some (s, Comment data)
                 | CDataSection s \<Rightarrow> Some (s, CDataSection data)
                 | _ \<Rightarrow> None) of
             None \<Rightarrow> Some (Inl (Err (InvalidArgument ''not a character-data node'')), d)
           | Some (old, k) \<Rightarrow>
               let d1 = rec_mut d n (\<lambda>r. r\<lparr>nr_kind := k\<rparr>)
               in Option.bind (emit_mutation d1 \<lparr>mr_target = n, mr_kind = MCharacterData old data\<rparr>)
                    (\<lambda>d2. Some (Inr old, d2))))"

fun remove_each :: "document \<Rightarrow> node_id \<Rightarrow> node_id list \<Rightarrow> document option" where
  "remove_each d p [] = Some d"
| "remove_each d p (c # cs) = Option.bind (remove_child d p c) (\<lambda>(_, d'). remove_each d' p cs)"

definition set_text_content :: "document \<Rightarrow> node_id \<Rightarrow> string \<Rightarrow> document option" where
  "set_text_content d n text =
     Option.bind (remove_each d n (children d n)) (\<lambda>d1.
       if text = [] then Some d1
       else Option.bind (create_text_node d1 text) (\<lambda>(tn, d2).
            Option.bind (append_child d2 n tn) (\<lambda>(_, d3). Some d3)))"

text \<open>
  \<open>collect_text\<close> recurses into the children in order; the list argument is the node followed by
  the siblings still to visit.
\<close>

partial_function (option) collect_text :: "document \<Rightarrow> node_id list \<Rightarrow> string \<Rightarrow> string option" where
  "collect_text d todo out =
     (case todo of
        [] \<Rightarrow> Some out
      | n # rest \<Rightarrow>
          Option.bind
            (case dom_rec d n of
               None \<Rightarrow> Some out
             | Some r \<Rightarrow>
                 (case nr_kind r of
                    Text s \<Rightarrow> Some (out @ s)
                  | CDataSection s \<Rightarrow> Some (out @ s)
                  | _ \<Rightarrow> collect_text d (nr_children r) out))
            (collect_text d rest))"

definition text_content :: "document \<Rightarrow> node_id \<Rightarrow> string option" where
  "text_content d n = collect_text d [n] []"

subsection \<open>Searches\<close>

partial_function (option) walk_pre ::
  "document \<Rightarrow> node_id list \<Rightarrow> (node_id \<Rightarrow> node_record \<Rightarrow> 'a \<Rightarrow> 'a) \<Rightarrow> 'a \<Rightarrow> 'a option" where
  "walk_pre d stack f acc =
     (case stack of
        [] \<Rightarrow> Some acc
      | n # rest \<Rightarrow>
          (case dom_rec d n of
             None \<Rightarrow> walk_pre d rest f acc
           | Some r \<Rightarrow> walk_pre d (nr_children r @ rest) f (f n r acc)))"

fun is_element :: "node_kind \<Rightarrow> bool" where
  "is_element (Element _ _) = True"
| "is_element _ = False"

definition get_elements_by_tag_name :: "document \<Rightarrow> string \<Rightarrow> node_id list option" where
  "get_elements_by_tag_name d tag =
     (let tag_lower = to_ascii_lowercase tag; all = (tag = ''*'')
      in Option.bind (d_root d) (\<lambda>root. walk_pre d [root] (\<lambda>n r out.
           case nr_kind r of
             Element t _ \<Rightarrow> if all \<or> eq_ignore_ascii_case t tag_lower then out @ [n] else out
           | _ \<Rightarrow> out) []))"

definition get_by_attr :: "document \<Rightarrow> string \<Rightarrow> string \<Rightarrow> node_id option option" where
  "get_by_attr d attr v =
     Option.bind (d_root d) (\<lambda>root. walk_pre d [root] (\<lambda>n r found.
       if found = None \<and> is_element (nr_kind r) \<and> attr_get (nr_attrs r) attr = Some v
       then Some n else found) None)"

definition element_children :: "document \<Rightarrow> node_id \<Rightarrow> node_id list" where
  "element_children d n =
     filter (\<lambda>c. case node_kind_of d c of Some (Element _ _) \<Rightarrow> True | _ \<Rightarrow> False) (children d n)"

definition tag_name :: "document \<Rightarrow> node_id \<Rightarrow> string option" where
  "tag_name d n =
     Option.bind (dom_rec d n) (\<lambda>r.
       case nr_kind r of Element tag _ \<Rightarrow> Some (to_ascii_uppercase tag) | _ \<Rightarrow> None)"

definition live_node_count :: "document \<Rightarrow> nat" where
  "live_node_count d = slab_len (d_slab d)"

end
