(* ===== verification/Dom_Tree.thy ===== *)
theory Dom_Tree
  imports Dom
begin

text \<open>
  The tree invariant of the document and what the mutations of \<^verbatim>\<open>crates/cv_dom/src/lib.rs\<close> do
  to it. A document is well-formed when its slab is, when parent and child links are the same
  relation, no child list repeats a node and no node is its own ancestor. The link structure is
  studied first on its own, as a pair of functions; each operation is then a composition of link
  updates and of updates that leave the links alone.
\<close>

section \<open>Link structures\<close>

definition parent_rel :: "('n \<Rightarrow> 'n option) \<Rightarrow> ('n \<times> 'n) set" where
  "parent_rel par = {(c, p). par c = Some p}"

definition links_wf :: "('n \<Rightarrow> 'n option) \<Rightarrow> ('n \<Rightarrow> 'n list) \<Rightarrow> bool" where
  "links_wf par kids \<longleftrightarrow>
     (\<forall>c p. par c = Some p \<longleftrightarrow> c \<in> set (kids p)) \<and> (\<forall>p. distinct (kids p)) \<and>
     acyclic (parent_rel par)"

text \<open>\<open>below par n m\<close>: walking up from \<open>m\<close>, itself included, meets \<open>n\<close>.\<close>

definition below :: "('n \<Rightarrow> 'n option) \<Rightarrow> 'n \<Rightarrow> 'n \<Rightarrow> bool" where
  "below par n m \<longleftrightarrow> (m, n) \<in> (parent_rel par)\<^sup>*"

lemma below_refl [simp]: "below par n n"
  by (simp add: below_def)

lemma below_step: "below par n m \<longleftrightarrow> m = n \<or> (\<exists>p. par m = Some p \<and> below par n p)"
proof
  assume "below par n m"
  then show "m = n \<or> (\<exists>p. par m = Some p \<and> below par n p)"
    by (auto simp: below_def parent_rel_def elim: converse_rtranclE)
next
  assume "m = n \<or> (\<exists>p. par m = Some p \<and> below par n p)"
  then show "below par n m"
    by (auto simp: below_def parent_rel_def intro: converse_rtrancl_into_rtrancl)
qed

lemma parent_rel_upd_None: "parent_rel (par(n := None)) \<subseteq> parent_rel par"
  by (auto simp: parent_rel_def split: if_splits)

lemma parent_rel_upd_Some:
  "par n = None \<Longrightarrow> parent_rel (par(n \<mapsto> p)) = insert (n, p) (parent_rel par)"
  by (auto simp: parent_rel_def split: if_splits)

definition unlink_kids :: "('n \<Rightarrow> 'n option) \<Rightarrow> ('n \<Rightarrow> 'n list) \<Rightarrow> 'n \<Rightarrow> ('n \<Rightarrow> 'n list)" where
  "unlink_kids par kids n =
     (case par n of None \<Rightarrow> kids | Some p \<Rightarrow> kids(p := filter (\<lambda>c. c \<noteq> n) (kids p)))"

lemma links_unlink:
  assumes "links_wf par kids"
  shows "links_wf (par(n := None)) (unlink_kids par kids n)"
proof -
  from assms have eq: "\<And>c p. c \<in> set (kids p) \<longleftrightarrow> par c = Some p"
    and d: "\<And>p. distinct (kids p)" and ac: "acyclic (parent_rel par)"
    by (auto simp: links_wf_def)
  have "acyclic (parent_rel (par(n := None)))"
    using ac parent_rel_upd_None by (rule acyclic_subset)
  then show ?thesis using eq d
    by (auto simp: links_wf_def unlink_kids_def split: option.splits if_splits)
qed

lemma links_link:
  assumes "links_wf par kids" and "par n = None" and "\<not> below par n p"
  shows "links_wf (par(n \<mapsto> p)) (kids(p := vec_insert i n (kids p)))"
proof -
  from assms have eq: "\<And>c p. c \<in> set (kids p) \<longleftrightarrow> par c = Some p"
    and d: "\<And>p. distinct (kids p)" and ac: "acyclic (parent_rel par)"
    by (auto simp: links_wf_def)
  have nin: "n \<notin> set (kids q)" for q using eq [of n q] assms(2) by simp
  have "acyclic (parent_rel (par(n \<mapsto> p)))"
    using ac assms(2,3) by (simp add: parent_rel_upd_Some below_def acyclic_insert)
  then show ?thesis using eq d nin
    by (auto simp: links_wf_def distinct_vec_insert split: if_splits)
qed

lemma below_unlink_root:
  assumes "links_wf par kids"
  shows "below (par(n := None)) n p \<longleftrightarrow> below par n p"
proof
  assume "below (par(n := None)) n p"
  then show "below par n p"
    unfolding below_def by (rule rtrancl_mono [OF parent_rel_upd_None, THEN subsetD])
next
  assume "below par n p"
  then show "below (par(n := None)) n p"
    unfolding below_def
  proof (induction rule: converse_rtrancl_induct)
    case (step y z)
    show ?case
    proof (cases "y = n")
      case False
      with step(1) have "(y, z) \<in> parent_rel (par(n := None))" by (simp add: parent_rel_def)
      then show ?thesis using step(3) by (rule converse_rtrancl_into_rtrancl)
    qed simp
  qed simp
qed

section \<open>Frame lemmas of the document\<close>

definition live :: "document \<Rightarrow> node_id \<Rightarrow> bool" where
  "live d n \<longleftrightarrow> dom_rec d n \<noteq> None"

lemma dom_rec_mut: "dom_rec (rec_mut d n f) m = (if m = n then map_option f (dom_rec d n) else dom_rec d m)"
  by (simp add: dom_rec_def rec_mut_def slab_get_mut_get)

lemma live_rec_mut [simp]: "live (rec_mut d n f) m = live d m"
  by (simp add: live_def dom_rec_mut)

lemma rec_mut_sel [simp]:
  "d_root (rec_mut d n f) = d_root d" "d_id_index (rec_mut d n f) = d_id_index d"
  "d_observers (rec_mut d n f) = d_observers d" "d_obs (rec_mut d n f) = d_obs d"
  by (simp_all add: rec_mut_def)

lemma slab_inv_rec_mut [simp]: "slab_inv (d_slab d) \<Longrightarrow> slab_inv (d_slab (rec_mut d n f))"
  by (simp add: rec_mut_def slab_get_mut_inv)

lemma dom_rec_upd [simp]:
  "dom_rec (d\<lparr>d_id_index := i\<rparr>) = dom_rec d" "dom_rec (d\<lparr>d_obs := ob\<rparr>) = dom_rec d"
  "dom_rec (d\<lparr>d_observers := os\<rparr>) = dom_rec d" "dom_rec (d\<lparr>d_root := r\<rparr>) = dom_rec d"
  by (auto simp: dom_rec_def)

text \<open>Updates that touch neither \<open>parent\<close> nor \<open>children\<close> of any node.\<close>

definition same_links :: "document \<Rightarrow> document \<Rightarrow> bool" where
  "same_links d d' \<longleftrightarrow>
     parent d' = parent d \<and> children d' = children d \<and> live d' = live d \<and> d_root d' = d_root d \<and>
     (slab_inv (d_slab d) \<longrightarrow> slab_inv (d_slab d'))"

lemma same_links_refl [simp]: "same_links d d"
  by (simp add: same_links_def)

lemma same_links_trans [trans]: "same_links d d' \<Longrightarrow> same_links d' d'' \<Longrightarrow> same_links d d''"
  by (simp add: same_links_def)

lemma same_links_rec_mut:
  "(\<And>r. nr_parent (f r) = nr_parent r \<and> nr_children (f r) = nr_children r) \<Longrightarrow>
   same_links d (rec_mut d n f)"
  by (auto simp: same_links_def parent_def children_def live_def dom_rec_mut fun_eq_iff
      split: option.splits)

lemma same_links_upd [simp]:
  "same_links d (d\<lparr>d_id_index := i\<rparr>)" "same_links d (d\<lparr>d_obs := ob\<rparr>)"
  "same_links d (d\<lparr>d_observers := os\<rparr>)"
  by (simp_all add: same_links_def parent_def children_def live_def fun_eq_iff)

lemma same_links_unindex [simp]: "same_links d (unindex d n v)"
  by (simp add: unindex_def)

lemma same_links_register [simp]: "same_links d (maybe_register_id d n)"
  unfolding maybe_register_id_def Let_def
  by (auto split: option.split
      intro: same_links_trans [OF same_links_rec_mut same_links_upd(1)])

lemma same_links_unregister [simp]: "same_links d (unregister_id d n)"
  unfolding unregister_id_def
  by (auto split: option.split intro: same_links_rec_mut
      same_links_trans [OF same_links_rec_mut same_links_unindex])

lemma same_links_emit: "emit_mutation d rec = Some d' \<Longrightarrow> same_links d d'"
  by (auto simp: emit_mutation_def bind_eq_Some_conv)

lemma live_iff_dom: "live d n \<longleftrightarrow> n \<in> dom (dom_rec d)"
  by (auto simp: live_def)

lemma parent_live: "parent d c = Some p \<Longrightarrow> live d c"
  by (cases "dom_rec d c") (auto simp: parent_def live_def)

lemma parent_set_parent: "live d n \<Longrightarrow> parent (set_parent d n x) = (parent d)(n := x)"
  by (auto simp: set_parent_def parent_def live_def dom_rec_mut)

lemma children_set_parent [simp]: "children (set_parent d n x) = children d"
  by (auto simp: set_parent_def children_def dom_rec_mut fun_eq_iff split: option.splits)

lemma parent_set_children [simp]: "parent (set_children d n f) = parent d"
  by (cases "dom_rec d n") (auto simp: set_children_def parent_def dom_rec_mut fun_eq_iff)

lemma children_set_children:
  "live d p \<Longrightarrow> children (set_children d p f) = (children d)(p := f (children d p))"
  by (auto simp: set_children_def children_def live_def dom_rec_mut)

lemma live_set [simp]: "live (set_parent d n x) = live d" "live (set_children d n f) = live d"
  by (simp_all add: set_parent_def set_children_def fun_eq_iff)

lemma live_rec: "live d n \<Longrightarrow> \<exists>r. dom_rec d n = Some r"
  by (simp add: live_def)

lemma live_rec_set_children: "live d n \<Longrightarrow> \<exists>r. dom_rec (set_children d p f) n = Some r"
  by (rule live_rec) simp

lemma set_children_cong:
  "f (children d p) = g (children d p) \<Longrightarrow> set_children d p f = set_children d p g"
  by (simp add: set_children_def rec_mut_def slab_get_mut_def children_def dom_rec_def slab_get_def
      split: option.splits slot.splits if_splits)

section \<open>Well-formed documents\<close>

definition dom_wf :: "document \<Rightarrow> bool" where
  "dom_wf d \<longleftrightarrow> slab_inv (d_slab d) \<and> links_wf (parent d) (children d)"

lemma dom_wf_same_links: "dom_wf d \<Longrightarrow> same_links d d' \<Longrightarrow> dom_wf d'"
  by (simp add: dom_wf_def same_links_def)

lemma dom_wf_child: "dom_wf d \<Longrightarrow> c \<in> set (children d p) \<longleftrightarrow> parent d c = Some p"
  by (simp add: dom_wf_def links_wf_def)

lemma dom_wf_distinct: "dom_wf d \<Longrightarrow> distinct (children d p)"
  by (simp add: dom_wf_def links_wf_def)

lemma children_live: "c \<in> set (children d p) \<Longrightarrow> live d p"
  by (cases "dom_rec d p") (auto simp: children_def live_def)

lemma dom_wf_finite: "dom_wf d \<Longrightarrow> finite (parent_rel (parent d))"
proof -
  assume wf: "dom_wf d"
  have "finite (dom (dom_rec d))"
    using wf slab_dom_finite [of "d_slab d"] by (simp add: dom_wf_def dom_rec_def [abs_def])
  moreover have "parent_rel (parent d) \<subseteq> dom (dom_rec d) \<times> dom (dom_rec d)"
  proof
    fix x assume "x \<in> parent_rel (parent d)"
    then obtain c p where x: "x = (c, p)" and cp: "parent d c = Some p" by (auto simp: parent_rel_def)
    have "live d p" using cp dom_wf_child [OF wf, of c p] by (auto intro: children_live)
    with parent_live [OF cp] x show "x \<in> dom (dom_rec d) \<times> dom (dom_rec d)"
      by (auto simp: live_iff_dom)
  qed
  ultimately show ?thesis by (meson finite_SigmaI finite_subset)
qed

lemma dom_wf_up: "dom_wf d \<Longrightarrow> wf ((parent_rel (parent d))\<inverse>)"
  using finite_acyclic_wf_converse [OF dom_wf_finite] by (simp add: dom_wf_def links_wf_def)

lemma up_induct [consumes 1, case_names up]:
  assumes "dom_wf d" and "\<And>n. (\<And>p. parent d n = Some p \<Longrightarrow> P p) \<Longrightarrow> P n"
  shows "P n"
  using dom_wf_up [OF assms(1)]
  by (induction n rule: wf_induct_rule) (auto simp: parent_rel_def intro: assms(2))

lemma validate_loop_result:
  assumes "dom_wf d"
  shows "validate_loop d (Some n) child = Some (if below (parent d) child n then Inl HierarchyRequest else Inr ())"
  using assms
proof (induction n rule: up_induct)
  case (up n)
  show ?case
  proof (cases "parent d n")
    case None
    then show ?thesis
      by (subst validate_loop.simps) (subst validate_loop.simps, auto simp: below_step [of _ child n])
  next
    case (Some p)
    with up [OF Some] show ?thesis
      by (subst validate_loop.simps) (auto simp: below_step [of _ child n])
  qed
qed

lemma validate_insert_result:
  assumes "dom_wf d"
  shows "validate_insert d p child = Some (if below (parent d) child p then Inl HierarchyRequest else Inr ())"
proof (cases "parent d p")
  case None
  then show ?thesis
    by (subst validate_insert_def, subst validate_loop.simps) (auto simp: below_step [of _ child p])
next
  case (Some q)
  then show ?thesis
    by (simp add: validate_insert_def validate_loop_result [OF assms] below_step [of _ child p])
qed

lemma chain_from_terminates:
  assumes "dom_wf d"
  shows "\<exists>chain. chain_from d (Some n) k acc = Some chain"
  using assms
proof (induction n arbitrary: k acc rule: up_induct)
  case (up n)
  show ?case
  proof (cases "parent d n")
    case None
    then show ?thesis by (subst chain_from.simps, subst chain_from.simps) simp
  next
    case (Some p)
    with up [OF Some] show ?thesis by (subst chain_from.simps) simp
  qed
qed

lemma emit_terminates: "dom_wf d \<Longrightarrow> \<exists>d'. emit_mutation d rec = Some d' \<and> same_links d d'"
  using chain_from_terminates [of d "mr_target rec" 0 "[]"]
  by (auto simp: emit_mutation_def)

section \<open>The tree mutations\<close>

lemma vec_insert_end [simp]: "vec_insert (length xs) x xs = xs @ [x]"
  by (simp add: vec_insert_def)

lemma same_linksD:
  assumes "same_links d d'"
  shows "parent d' = parent d" "children d' = children d" "live d' = live d" "d_root d' = d_root d"
  using assms by (simp_all add: same_links_def)

lemma detach_links:
  assumes "dom_wf d"
  shows "parent (detach d n) = (parent d)(n := None)"
    and "children (detach d n) = unlink_kids (parent d) (children d) n"
    and "live (detach d n) = live d" and "dom_wf (detach d n)" and "d_root (detach d n) = d_root d"
proof -
  have *: "parent (detach d n) = (parent d)(n := None) \<and>
      children (detach d n) = unlink_kids (parent d) (children d) n \<and>
      live (detach d n) = live d \<and> slab_inv (d_slab (detach d n)) \<and> d_root (detach d n) = d_root d"
  proof (cases "parent d n")
    case None
    then show ?thesis using assms
      by (auto simp: detach_def unlink_kids_def dom_wf_def)
  next
    case (Some p)
    have lp: "live d p" using Some dom_wf_child [OF assms, of n p] children_live by blast
    have ln: "live d n" using Some by (rule parent_live)
    let ?a = "set_children d p (filter (\<lambda>c. c \<noteq> n))"
    have d: "detach d n = unregister_id (set_parent ?a n None) n"
      using Some by (simp add: detach_def set_children_def set_parent_def)
    have sl: "same_links (set_parent ?a n None) (detach d n)" by (simp add: d)
    have "slab_inv (d_slab (set_parent ?a n None))"
      using assms by (simp add: set_parent_def set_children_def dom_wf_def)
    then show ?thesis
      using same_linksD [OF sl] sl lp ln Some
      by (simp add: parent_set_parent children_set_children unlink_kids_def same_links_def)
        (simp add: set_parent_def set_children_def)
  qed
  then show "parent (detach d n) = (parent d)(n := None)"
    and "children (detach d n) = unlink_kids (parent d) (children d) n"
    and "live (detach d n) = live d" and "d_root (detach d n) = d_root d" by blast+
  from * assms show "dom_wf (detach d n)" by (simp add: dom_wf_def links_unlink)
qed

text \<open>Linking a detached node under a parent, at a position, is what every insertion ends with.\<close>

lemma link_wf:
  assumes "dom_wf d" and "live d p" and "live d n" and "parent d n = None"
    and "\<not> below (parent d) n p"
  shows "dom_wf (set_parent (set_children d p (vec_insert i n)) n (Some p))"
  using assms links_link [of "parent d" "children d" n p i]
  by (simp add: dom_wf_def parent_set_parent children_set_children)
    (simp add: set_parent_def set_children_def)

lemma insert_core:
  assumes "dom_wf d" and "live d p" and "live d n" and "\<not> below (parent d) n p"
    and "d1 = detach d n"
    and "d3 = maybe_register_id (set_parent (set_children d1 p (vec_insert i n)) n (Some p)) n"
  shows "\<exists>d4. emit_mutation d3 rec = Some d4 \<and> dom_wf d4 \<and> live d4 = live d \<and> d_root d4 = d_root d \<and>
    parent d4 = (parent d)(n \<mapsto> p) \<and>
    children d4 = (let k = unlink_kids (parent d) (children d) n in k(p := vec_insert i n (k p)))"
proof -
  note det = detach_links [OF assms(1), of n, folded assms(5)]
  let ?l = "set_parent (set_children d1 p (vec_insert i n)) n (Some p)"
  have "\<not> below (parent d1) n p"
    using below_unlink_root [of "parent d" "children d" n p] assms(1,4) by (simp add: det dom_wf_def)
  then have wl: "dom_wf ?l"
    using link_wf [OF det(4), of p n i] assms(2,3) by (simp add: det)
  have s3: "same_links ?l d3" by (simp add: assms(6))
  have "dom_wf d3" using wl s3 by (rule dom_wf_same_links)
  then obtain d4 where d4: "emit_mutation d3 rec = Some d4" "same_links d3 d4"
    using emit_terminates by blast
  have sl: "same_links ?l d4" using s3 d4(2) by (rule same_links_trans)
  have "d_root ?l = d_root d1" by (simp add: set_parent_def set_children_def)
  then show ?thesis
    using d4(1) dom_wf_same_links [OF wl sl] same_linksD [OF sl] assms(2,3)
    by (simp add: det parent_set_parent children_set_children Let_def)
qed

lemma append_child_result:
  assumes "dom_wf d" and "live d p" and "live d n"
  shows "\<exists>d'. append_child d p n =
      Some (if below (parent d) n p then Inl (Err HierarchyRequest) else Inr n, d') \<and> dom_wf d' \<and>
    live d' = live d \<and> d_root d' = d_root d \<and>
    (if below (parent d) n p then d' = d
     else parent d' = (parent d)(n \<mapsto> p) \<and>
       children d' = (let k = unlink_kids (parent d) (children d) n in k(p := k p @ [n])))"
proof (cases "below (parent d) n p")
  case True
  then show ?thesis using assms(1) by (simp add: append_child_def validate_insert_result)
next
  case False
  let ?d1 = "detach d n"
  let ?i = "length (children ?d1 p)"
  note det = detach_links [OF assms(1), of n]
  have "live ?d1 p" using assms(2) det(3) by simp
  then obtain r where r: "dom_rec ?d1 p = Some r" by (auto simp: live_def)
  have same: "set_children ?d1 p (\<lambda>cs. cs @ [n]) = set_children ?d1 p (vec_insert ?i n)"
    by (rule set_children_cong) simp
  obtain r2 where r2: "dom_rec (set_children ?d1 p (vec_insert ?i n)) n = Some r2"
    using live_rec_set_children [of ?d1 n] assms(3) det(3) by auto
  show ?thesis
    using insert_core [OF assms False refl refl, of ?i
        "child_list_record p [n] [] (Option.bind (dom_rec ?d1 p) (\<lambda>r. vec_last (nr_children r))) None"]
      False r r2
    by (auto simp: append_child_def validate_insert_result [OF assms(1)] Let_def same
        det simp del: vec_insert_end)
      (simp_all add: det)
qed

lemma length_unlink:
  assumes "dom_wf d"
  shows "length (children d p) - 1 \<le> length (unlink_kids (parent d) (children d) n p)"
proof (cases "parent d n = Some p")
  case True
  then have "n \<in> set (children d p)" using dom_wf_child [OF assms] by simp
  moreover have "length (filter (\<lambda>c. c \<noteq> n) (children d p)) = length (children d p) - 1"
    if "n \<in> set (children d p)"
    using that length_remove1 [of n "children d p"]
    by (simp add: distinct_remove1_removeAll [OF dom_wf_distinct [OF assms]]
        removeAll_filter_not_eq eq_commute [of n])
  ultimately show ?thesis using True by (simp add: unlink_kids_def)
qed (auto simp: unlink_kids_def split: option.splits)

lemma insert_before_result:
  assumes "dom_wf d" and "live d p" and "live d n"
    and "position (\<lambda>c. c = r) (children d p) = Some i" and "\<not> below (parent d) n p"
  shows "\<exists>d'. insert_before d p n (Some r) = Some (Inr n, d') \<and> dom_wf d' \<and>
    live d' = live d \<and> d_root d' = d_root d \<and> parent d' = (parent d)(n \<mapsto> p) \<and>
    children d' = (let k = unlink_kids (parent d) (children d) n in k(p := vec_insert i n (k p)))"
proof -
  let ?d1 = "detach d n"
  note det = detach_links [OF assms(1), of n]
  have "live ?d1 p" using assms(2) det(3) by simp
  then obtain pr where pr: "dom_rec ?d1 p = Some pr" by (auto simp: live_def)
  have "i < length (children d p)" using position_Some [OF assms(4)] by simp
  moreover have "nr_children pr = unlink_kids (parent d) (children d) n p"
    using pr det(2) by (simp add: children_def fun_eq_iff split: option.splits)
  ultimately have i: "i \<le> length (nr_children pr)"
    using length_unlink [OF assms(1), of p n] by simp
  obtain r2 where r2: "dom_rec (set_children ?d1 p (vec_insert i n)) n = Some r2"
    using live_rec_set_children [of ?d1 n] assms(3) det(3) by auto
  let ?prev = "if i = 0 then None
      else Option.bind (dom_rec ?d1 p) (\<lambda>r. vec_get (nr_children r) (i - 1))"
  show ?thesis
    using insert_core [OF assms(1-3,5) refl refl, of i "child_list_record p [n] [] ?prev (Some r)"]
      assms(4,5) pr r2 i
    by (auto simp: insert_before_def validate_insert_result [OF assms(1)] Let_def)
qed

lemma insert_before_errors:
  assumes "dom_wf d"
  shows "below (parent d) n p \<Longrightarrow> insert_before d p n ref = Some (Inl (Err HierarchyRequest), d)"
    and "\<not> below (parent d) n p \<Longrightarrow> r \<notin> set (children d p) \<Longrightarrow>
      insert_before d p n (Some r) = Some (Inl (Err NotFound), d)"
    and "\<not> below (parent d) n p \<Longrightarrow> insert_before d p n None = append_child d p n"
  using position_None [of "\<lambda>c. c = r" "children d p"]
  by (auto simp: insert_before_def validate_insert_result [OF assms])

lemma remove_child_missing:
  "c \<notin> set (children d p) \<Longrightarrow> remove_child d p c = Some (Inl (Err NotFound), d)"
  using position_None [of "\<lambda>x. x = c" "children d p"] by (auto simp: remove_child_def)

lemma remove_child_result:
  assumes "dom_wf d" and "c \<in> set (children d p)"
  shows "\<exists>d'. remove_child d p c = Some (Inr c, d') \<and> dom_wf d' \<and> live d' = live d \<and>
    d_root d' = d_root d \<and> parent d' = (parent d)(c := None) \<and>
    children d' = (children d)(p := filter (\<lambda>x. x \<noteq> c) (children d p))"
proof -
  obtain i where i: "i < length (children d p)" "children d p ! i = c"
    using assms(2) by (auto simp: in_set_conv_nth)
  have pos: "position (\<lambda>x. x = c) (children d p) = Some i"
    using position_distinct [OF dom_wf_distinct [OF assms(1)] i(1)] i(2) by simp
  have pc: "parent d c = Some p" using assms dom_wf_child by blast
  have lp: "live d p" using children_live [OF assms(2)] .
  have lc: "live d c" using parent_live [OF pc] .
  let ?d1 = "set_children d p (vec_remove i)"
  let ?l = "set_parent ?d1 c None"
  have rm: "vec_remove i (children d p) = filter (\<lambda>x. x \<noteq> c) (children d p)"
    using vec_remove_eq_filter [OF dom_wf_distinct [OF assms(1)] i(1)] i(2) by simp
  have par: "parent ?l = (parent d)(c := None)" using lc by (simp add: parent_set_parent)
  have kids: "children ?l = (children d)(p := filter (\<lambda>x. x \<noteq> c) (children d p))"
    using lp by (simp add: children_set_children rm)
  have "links_wf (parent ?l) (children ?l)"
    unfolding par kids using links_unlink [of "parent d" "children d" c] assms(1) pc
    by (simp add: unlink_kids_def dom_wf_def)
  moreover have "slab_inv (d_slab ?l)"
    using assms(1) by (simp add: set_parent_def set_children_def dom_wf_def)
  ultimately have "dom_wf ?l" by (simp add: dom_wf_def)
  moreover have s: "same_links ?l (unregister_id ?l c)" by simp
  ultimately have "dom_wf (unregister_id ?l c)" by (rule dom_wf_same_links)
  then obtain d' where d': "emit_mutation (unregister_id ?l c)
      (child_list_record p [] [c] (vec_before (children d p) i) (vec_get (children d p) (i + 1))) =
      Some d'" and s': "same_links (unregister_id ?l c) d'"
    using emit_terminates by blast
  have sl: "same_links ?l d'" using s s' by (rule same_links_trans)
  have r: "\<exists>x. dom_rec d p = Some x" "\<exists>x. dom_rec ?d1 c = Some x"
    using live_rec [OF lp] live_rec_set_children [OF lc] by auto
  have root: "d_root ?l = d_root d" by (simp add: set_parent_def set_children_def)
  show ?thesis
    using r d' dom_wf_same_links [OF \<open>dom_wf ?l\<close> sl] same_linksD [OF sl] par kids root
    by (auto simp: remove_child_def pos Let_def)
qed

lemma vec_insert_remove: "i < length xs \<Longrightarrow> vec_insert i y (vec_remove i xs) = xs[i := y]"
  by (simp add: vec_insert_def vec_remove_def upd_conv_take_nth_drop)

lemma links_replace:
  assumes "links_wf par kids" and "par n = None" and "\<not> below par n p"
    and "i < length (kids p)" and "kids p ! i = old"
  shows "links_wf (par(n \<mapsto> p, old := None)) (kids(p := (kids p)[i := n]))"
proof -
  have po: "par old = Some p" using assms(1,4,5) by (auto simp: links_wf_def)
  have d: "distinct (kids p)" using assms(1) by (simp add: links_wf_def)
  let ?par = "par(old := None)" and ?kids = "kids(p := filter (\<lambda>c. c \<noteq> old) (kids p))"
  have 1: "links_wf ?par ?kids"
    using links_unlink [OF assms(1), of old] po by (simp add: unlink_kids_def)
  have 2: "\<not> below ?par n p"
    using assms(3) rtrancl_mono [OF parent_rel_upd_None, of par old] by (auto simp: below_def)
  have "links_wf (?par(n \<mapsto> p)) (?kids(p := vec_insert i n (?kids p)))"
    using links_link [OF 1 _ 2, of i] assms(2) by simp
  moreover have "n \<noteq> old" using po assms(2) by auto
  ultimately show ?thesis
    using vec_remove_eq_filter [OF d assms(4)] vec_insert_remove [OF assms(4), of n] assms(5)
    by (simp add: fun_upd_twist)
qed

lemma replace_child_errors:
  assumes "dom_wf d"
  shows "old \<notin> set (children d p) \<Longrightarrow> replace_child d p new old = Some (Inl (Err NotFound), d)"
    and "old \<in> set (children d p) \<Longrightarrow> below (parent d) new p \<Longrightarrow>
      replace_child d p new old = Some (Inl (Err HierarchyRequest), d)"
  using position_None [of "\<lambda>c. c = old" "children d p"]
  by (auto simp: replace_child_def validate_insert_result [OF assms] split: option.split)

lemma replace_child_result:
  assumes "dom_wf d" and "live d new" and "position (\<lambda>c. c = old) (children d p) = Some i"
    and "\<not> below (parent d) new p" and "parent d new \<noteq> Some p"
  shows "\<exists>d'. replace_child d p new old = Some (Inr old, d') \<and> dom_wf d' \<and> live d' = live d \<and>
    d_root d' = d_root d \<and> parent d' = (parent d)(new \<mapsto> p, old := None) \<and>
    children d' = (let k = unlink_kids (parent d) (children d) new in k(p := (k p)[i := new]))"
proof -
  let ?d1 = "unregister_id (detach d new) old"
  note det = detach_links [OF assms(1), of new]
  have s1: "same_links (detach d new) ?d1" by simp
  note l1 = same_linksD [OF s1, unfolded det]
  have wf1: "dom_wf ?d1" using det(4) s1 by (rule dom_wf_same_links)
  have i: "i < length (children d p)" "children d p ! i = old"
    using position_Some [OF assms(3)] by simp_all
  then have old: "old \<in> set (children d p)" by auto
  have lp: "live d p" using children_live [OF old] .
  have lo: "live d old" using old dom_wf_child [OF assms(1)] parent_live by blast
  have kp: "children ?d1 p = children d p"
    using assms(5) by (auto simp: l1 unlink_kids_def split: option.splits)
  let ?d2 = "set_children ?d1 p (\<lambda>cs. cs[i := new])"
  let ?d3 = "set_parent ?d2 new (Some p)"
  let ?l = "set_parent ?d3 old None"
  obtain r1 where r1: "dom_rec ?d1 p = Some r1" using live_rec [of ?d1 p] lp l1(3) by auto
  have k1: "nr_children r1 = children d p" using r1 kp by (simp add: children_def)
  obtain r2 where r2: "dom_rec ?d2 new = Some r2" using live_rec [of ?d2 new] assms(2) l1(3) by auto
  obtain r3 where r3: "dom_rec ?d3 old = Some r3" using live_rec [of ?d3 old] lo l1(3) by auto
  have par: "parent ?l = (parent d)(new \<mapsto> p, old := None)"
    using assms(2) lo by (simp add: parent_set_parent l1)
  have kids: "children ?l = (children ?d1)(p := (children ?d1 p)[i := new])"
    using lp by (simp add: children_set_children l1)
  have nb: "\<not> below (parent ?d1) new p"
    using below_unlink_root [of "parent d" "children d" new p] assms(1,4) by (simp add: l1 dom_wf_def)
  have "links_wf (parent ?l) (children ?l)"
    unfolding kids using links_replace [of "parent ?d1" "children ?d1" new p i old] wf1 nb i kp
    by (simp add: dom_wf_def par l1)
  then have "dom_wf ?l" using wf1 by (simp add: dom_wf_def) (simp add: set_parent_def set_children_def)
  have s: "same_links ?l (maybe_register_id ?l new)" by simp
  obtain d' where d': "emit_mutation (maybe_register_id ?l new)
      (child_list_record p [new] [old] (vec_before (children d p) i) (vec_get (children d p) (i + 1))) =
      Some d'" and s': "same_links (maybe_register_id ?l new) d'"
    using emit_terminates [OF dom_wf_same_links [OF \<open>dom_wf ?l\<close> s]] by blast
  have sl: "same_links ?l d'" using s s' by (rule same_links_trans)
  have root: "d_root ?l = d_root d" using l1(4) by (simp add: set_parent_def set_children_def)
  have "replace_child d p new old = Some (Inr old, d')"
    using r1 r2 r3 k1 i(1) d' assms(3,4)
    by (simp add: replace_child_def validate_insert_result [OF assms(1)] Let_def)
  then show ?thesis
    using dom_wf_same_links [OF \<open>dom_wf ?l\<close> sl] same_linksD [OF sl] par kids root l1
    by (simp add: Let_def)
qed

text \<open>
  With the new child already under the same parent, the index was taken before the detach: when the
  replaced node is the last child, the write is past the end.
\<close>

lemma replace_child_panics:
  assumes "dom_wf d" and "children d p \<noteq> []" and "last (children d p) = old"
    and "parent d new = Some p" and "new \<noteq> old"
  shows "\<exists>d'. replace_child d p new old = Some (Inl Panic, d')"
proof -
  let ?cs = "children d p" and ?i = "length (children d p) - 1"
  have "?i < length ?cs" "?cs ! ?i = old" using assms(2,3) by (auto simp: last_conv_nth)
  then have pos: "position (\<lambda>c. c = old) ?cs = Some ?i"
    using position_distinct [OF dom_wf_distinct [OF assms(1), of p], of ?i] by simp
  have nb: "\<not> below (parent d) new p"
  proof
    assume "below (parent d) new p"
    then have "(new, new) \<in> (parent_rel (parent d))\<^sup>+"
      using assms(4) by (auto simp: below_def parent_rel_def intro: rtrancl_into_trancl2)
    then show False using assms(1) by (simp add: dom_wf_def links_wf_def acyclic_def)
  qed
  let ?d1 = "unregister_id (detach d new) old"
  note det = detach_links [OF assms(1), of new]
  have s1: "same_links (detach d new) ?d1" by simp
  note l1 = same_linksD [OF s1, unfolded det]
  have new: "new \<in> set ?cs" using assms(1,4) dom_wf_child by blast
  obtain r1 where r1: "dom_rec ?d1 p = Some r1"
    using live_rec [of ?d1 p] children_live [OF new] l1(3) by auto
  have "length (filter (\<lambda>c. c \<noteq> new) ?cs) = ?i"
    using length_remove1 [of new ?cs] new
    by (simp add: distinct_remove1_removeAll [OF dom_wf_distinct [OF assms(1)]]
        removeAll_filter_not_eq eq_commute [of new])
  moreover have "nr_children r1 = filter (\<lambda>c. c \<noteq> new) ?cs"
  proof -
    have "nr_children r1 = children ?d1 p" using r1 by (simp add: children_def)
    then show ?thesis by (simp add: l1 unlink_kids_def assms(4))
  qed
  ultimately show ?thesis
    using r1 pos nb by (simp add: replace_child_def validate_insert_result [OF assms(1)] Let_def)
qed

section \<open>Creating nodes\<close>

definition fresh_record :: "node_kind \<Rightarrow> node_record" where
  "fresh_record kind =
     \<lparr>nr_kind = kind, nr_attrs = [], nr_parent = None, nr_children = [], nr_id_cache = None,
      nr_stage = SELF_ANY OR CHILD_ANY\<rparr>"

text \<open>The slab has room: a reusable slot, or an index left in the 32-bit index space.\<close>

definition has_room :: "document \<Rightarrow> bool" where
  "has_room d \<longleftrightarrow> slab_free_head (d_slab d) \<noteq> None \<or> length (slab_slots (d_slab d)) < 4294967296"

lemma dom_alloc_rec:
  assumes "slab_inv (d_slab d)" and "dom_alloc d k = Some (n, d')"
  shows "dom_rec d' = (dom_rec d)(n \<mapsto> fresh_record k)" and "dom_rec d n = None"
    and "slab_inv (d_slab d')" and "d_root d' = d_root d" and "d_id_index d' = d_id_index d"
    and "d_obs d' = d_obs d" and "d_observers d' = d_observers d"
proof -
  from assms(2) obtain s where ins: "slab_insert (d_slab d) (fresh_record k) = Some (n, s)"
    and d': "d' = d\<lparr>d_slab := s\<rparr>"
    by (auto simp: dom_alloc_def fresh_record_def split: option.splits)
  show "dom_rec d' = (dom_rec d)(n \<mapsto> fresh_record k)"
    using slab_insert_get [OF assms(1) ins] by (simp add: dom_rec_def d' fun_eq_iff)
  show "dom_rec d n = None" using slab_insert_fresh [OF assms(1) ins] by (simp add: dom_rec_def)
  show "slab_inv (d_slab d')" using slab_insert_inv [OF assms(1) ins] by (simp add: d')
qed (use assms(2) in \<open>auto simp: dom_alloc_def split: option.splits\<close>)

lemma dom_alloc_total: "slab_inv (d_slab d) \<Longrightarrow> has_room d \<Longrightarrow> \<exists>n d'. dom_alloc d k = Some (n, d')"
  using slab_insert_total [of "d_slab d" "fresh_record k"]
  by (auto simp: dom_alloc_def has_room_def fresh_record_def slab_inv_def split: option.splits)

lemma dom_alloc_result:
  assumes "dom_wf d" and "dom_alloc d k = Some (n, d')"
  shows "dom_wf d'" and "parent d' = parent d" and "children d' = children d"
    and "live d' = (live d)(n := True)" and "\<not> live d n" and "parent d n = None"
    and "children d n = []"
proof -
  have inv: "slab_inv (d_slab d)" using assms(1) by (simp add: dom_wf_def)
  note a = dom_alloc_rec [OF inv assms(2)]
  show par: "parent d' = parent d"
    using a(2) by (auto simp: parent_def a(1) fresh_record_def fun_eq_iff)
  show kids: "children d' = children d"
    using a(2) by (auto simp: children_def a(1) fresh_record_def fun_eq_iff)
  show "live d' = (live d)(n := True)" by (auto simp: live_def a(1) fun_eq_iff)
  show "\<not> live d n" "parent d n = None" "children d n = []"
    using a(2) by (simp_all add: live_def parent_def children_def)
  show "dom_wf d'" using assms(1) a(3) by (simp add: dom_wf_def par kids)
qed

lemma document_new_wf:
  "\<exists>d r. document_new obs = Some d \<and> dom_wf d \<and> d_root d = Some r \<and> live d r \<and>
     d_id_index d = Map.empty \<and> dom_rec d = [r \<mapsto> fresh_record Document]"
proof -
  let ?e = "\<lparr>d_slab = slab_new, d_root = None, d_id_index = Map.empty, d_observers = [], d_obs = obs\<rparr>"
  have e: "dom_rec ?e = Map.empty"
    by (simp add: dom_rec_def slab_get_def slab_new_def vec_get_def fun_eq_iff)
  have wf: "dom_wf ?e"
    by (simp add: dom_wf_def slab_new_inv links_wf_def parent_def children_def e parent_rel_def acyclic_def)
  have "has_room ?e" by (simp add: has_room_def slab_new_def)
  then obtain r d where a: "dom_alloc ?e Document = Some (r, d)"
    using dom_alloc_total wf by (metis dom_wf_def)
  note al = dom_alloc_result [OF wf a]
  have inv: "slab_inv (d_slab ?e)" using wf by (simp add: dom_wf_def)
  note rc = dom_alloc_rec [OF inv a]
  have s: "same_links d d \<and> parent (d\<lparr>d_root := Some r\<rparr>) = parent d \<and>
      children (d\<lparr>d_root := Some r\<rparr>) = children d \<and> live (d\<lparr>d_root := Some r\<rparr>) = live d"
    by (simp add: parent_def children_def live_def fun_eq_iff)
  have "dom_wf (d\<lparr>d_root := Some r\<rparr>)" using al(1) s by (simp add: dom_wf_def)
  then show ?thesis
    using a s al(4) rc e by (auto simp: document_new_def)
qed

section \<open>Runs of operations\<close>

datatype dom_op =
    OpCreate node_kind
  | OpAppend node_id node_id
  | OpInsert node_id node_id "node_id option"
  | OpRemove node_id node_id
  | OpReplace node_id node_id node_id
  | OpSetAttribute node_id string string
  | OpRemoveAttribute node_id string
  | OpSetTextData node_id string
  | OpAddObserver nat

fun dom_step :: "document \<Rightarrow> dom_op \<Rightarrow> document option" where
  "dom_step d (OpCreate k) = map_option snd (dom_alloc d k)"
| "dom_step d (OpAppend p n) = map_option snd (append_child d p n)"
| "dom_step d (OpInsert p n r) = map_option snd (insert_before d p n r)"
| "dom_step d (OpRemove p c) = map_option snd (remove_child d p c)"
| "dom_step d (OpReplace p n old) = map_option snd (replace_child d p n old)"
| "dom_step d (OpSetAttribute n k v) = set_attribute d n k v"
| "dom_step d (OpRemoveAttribute n k) = remove_attribute d n k"
| "dom_step d (OpSetTextData n s) = map_option snd (set_text_data d n s)"
| "dom_step d (OpAddObserver i) = Some (add_observer d i)"

text \<open>
  What a caller has to respect: handles of live nodes, room for a new node, and no replacement of
  a child by one of its siblings.
\<close>

fun op_ok :: "document \<Rightarrow> dom_op \<Rightarrow> bool" where
  "op_ok d (OpCreate k) \<longleftrightarrow> has_room d"
| "op_ok d (OpAppend p n) \<longleftrightarrow> live d p \<and> live d n"
| "op_ok d (OpInsert p n r) \<longleftrightarrow> live d p \<and> live d n"
| "op_ok d (OpReplace p n old) \<longleftrightarrow> live d n \<and> parent d n \<noteq> Some p"
| "op_ok d (OpSetAttribute n k v) \<longleftrightarrow> live d n"
| "op_ok d _ \<longleftrightarrow> True"

lemma set_attribute_result:
  "dom_wf d \<Longrightarrow> \<exists>d'. set_attribute d n k v = Some d' \<and> same_links d d'"
proof -
  assume wf: "dom_wf d"
  let ?d1 = "rec_mut d n (\<lambda>r. r\<lparr>nr_attrs := snd (attr_set (nr_attrs r) k v)\<rparr>)"
  have s1: "same_links d ?d1" by (rule same_links_rec_mut) simp
  have s2: "same_links da (rec_mut (da\<lparr>d_id_index := f\<rparr>) n (\<lambda>r. r\<lparr>nr_id_cache := c\<rparr>))" for da f c
    by (rule same_links_trans [OF same_links_upd(1) same_links_rec_mut]) simp
  have "\<exists>d2. set_attribute d n k v = emit_mutation d2
      \<lparr>mr_target = n, mr_kind = MAttributes k (attr_namespace k)
        (Option.bind (dom_rec d n) (\<lambda>r. fst (attr_set (nr_attrs r) k v))) (Some v)\<rparr> \<and> same_links d d2"
    using s1 same_links_trans [OF same_links_trans [OF s1 same_links_unindex] s2]
      same_links_trans [OF s1 s2]
    by (auto simp: set_attribute_def Let_def split: option.split)
  then obtain d2 where d2: "same_links d d2" and e: "set_attribute d n k v = emit_mutation d2
      \<lparr>mr_target = n, mr_kind = MAttributes k (attr_namespace k)
        (Option.bind (dom_rec d n) (\<lambda>r. fst (attr_set (nr_attrs r) k v))) (Some v)\<rparr>" by blast
  show ?thesis
    using emit_terminates [OF dom_wf_same_links [OF wf d2]] same_links_trans [OF d2] by (metis e)
qed

lemma remove_attribute_result:
  "dom_wf d \<Longrightarrow> \<exists>d'. remove_attribute d n k = Some d' \<and> same_links d d'"
proof -
  assume wf: "dom_wf d"
  let ?d1 = "rec_mut d n (\<lambda>r. r\<lparr>nr_attrs := snd (attr_remove (nr_attrs r) k)\<rparr>)"
  have s1: "same_links d ?d1" by (rule same_links_rec_mut) simp
  have s2: "same_links da (rec_mut da n (\<lambda>r. r\<lparr>nr_id_cache := c\<rparr>))" for da c
    by (rule same_links_rec_mut) simp
  have "\<exists>d2. remove_attribute d n k = emit_mutation d2
      \<lparr>mr_target = n, mr_kind = MAttributes k (attr_namespace k)
        (Option.bind (dom_rec d n) (\<lambda>r. fst (attr_remove (nr_attrs r) k))) None\<rparr> \<and> same_links d d2"
    using s1 same_links_trans [OF same_links_trans [OF s1 same_links_unindex] s2]
      same_links_trans [OF s1 s2]
    by (auto simp: remove_attribute_def Let_def split: option.split)
  then obtain d2 where d2: "same_links d d2" and e: "remove_attribute d n k = emit_mutation d2
      \<lparr>mr_target = n, mr_kind = MAttributes k (attr_namespace k)
        (Option.bind (dom_rec d n) (\<lambda>r. fst (attr_remove (nr_attrs r) k))) None\<rparr>" by blast
  show ?thesis
    using emit_terminates [OF dom_wf_same_links [OF wf d2]] same_links_trans [OF d2] by (metis e)
qed

lemma set_text_data_result:
  "dom_wf d \<Longrightarrow> \<exists>x d'. set_text_data d n s = Some (x, d') \<and> same_links d d'"
proof -
  assume wf: "dom_wf d"
  have s1: "same_links d (rec_mut d n (\<lambda>r. r\<lparr>nr_kind := k\<rparr>))" for k
    by (rule same_links_rec_mut) simp
  have e: "\<exists>d'. emit_mutation (rec_mut d n (\<lambda>r. r\<lparr>nr_kind := k\<rparr>)) m = Some d' \<and> same_links d d'" for k m
    using emit_terminates [OF dom_wf_same_links [OF wf s1]] same_links_trans [OF s1] by blast
  have e': "\<exists>x d'. Option.bind (emit_mutation (rec_mut d n (\<lambda>r. r\<lparr>nr_kind := k\<rparr>)) m)
      (\<lambda>d2. Some (Inr old, d2)) = Some (x, d') \<and> same_links d d'" for k m and old :: string
    using e [of k m] by auto
  show ?thesis
    using e' by (auto simp: set_text_data_def Let_def split: option.split node_kind.split)
qed

lemma insert_before_total:
  assumes "dom_wf d" and "live d p" and "live d n"
  shows "\<exists>x d'. insert_before d p n r = Some (x, d') \<and> dom_wf d' \<and> live d' = live d"
proof (cases "below (parent d) n p")
  case True
  then show ?thesis using insert_before_errors(1) [OF assms(1)] assms(1) by blast
next
  case False
  show ?thesis
  proof (cases r)
    case None
    then show ?thesis
      using insert_before_errors(3) [OF assms(1) False] append_child_result [OF assms] by metis
  next
    case (Some x)
    show ?thesis
    proof (cases "position (\<lambda>c. c = x) (children d p)")
      case None
      then have "x \<notin> set (children d p)" by (auto simp: position_None)
      then show ?thesis using insert_before_errors(2) [OF assms(1) False] Some assms(1) by blast
    next
      case (Some i)
      then show ?thesis
        using insert_before_result [OF assms Some False] \<open>r = Some x\<close> by blast
    qed
  qed
qed

lemma dom_step_wf:
  assumes "dom_wf d" and "op_ok d op"
  shows "\<exists>d'. dom_step d op = Some d' \<and> dom_wf d'"
proof (cases op)
  case (OpCreate k)
  then show ?thesis
    using dom_alloc_total [of d k] dom_alloc_result(1) [OF assms(1)] assms
    by (force simp: dom_wf_def)
next
  case (OpAppend p n)
  then show ?thesis using append_child_result [OF assms(1), of p n] assms(2) by fastforce
next
  case (OpInsert p n r)
  then show ?thesis using insert_before_total [OF assms(1), of p n r] assms(2) by fastforce
next
  case (OpRemove p c)
  then show ?thesis
    using remove_child_result [OF assms(1), of c p] remove_child_missing [of c d p] assms(1)
    by (cases "c \<in> set (children d p)") fastforce+
next
  case (OpReplace p n old)
  show ?thesis
  proof (cases "position (\<lambda>c. c = old) (children d p)")
    case None
    then have "old \<notin> set (children d p)" by (auto simp: position_None)
    then show ?thesis using replace_child_errors(1) [OF assms(1)] OpReplace assms(1) by simp
  next
    case (Some i)
    then have "old \<in> set (children d p)" using position_Some [OF Some] by auto
    then show ?thesis
      using replace_child_errors(2) [OF assms(1)] replace_child_result [OF assms(1) _ Some, of n]
        OpReplace assms by (cases "below (parent d) n p") fastforce+
  qed
next
  case (OpSetAttribute n k v)
  then show ?thesis
    using set_attribute_result [OF assms(1)] dom_wf_same_links [OF assms(1)] by fastforce
next
  case (OpRemoveAttribute n k)
  then show ?thesis
    using remove_attribute_result [OF assms(1)] dom_wf_same_links [OF assms(1)] by fastforce
next
  case (OpSetTextData n s)
  then show ?thesis
    using set_text_data_result [OF assms(1)] dom_wf_same_links [OF assms(1)] by fastforce
next
  case (OpAddObserver i)
  then show ?thesis
    using dom_wf_same_links [OF assms(1) same_links_upd(3)] by (simp add: add_observer_def)
qed

inductive dom_reach :: "document \<Rightarrow> bool" where
  reach_new: "document_new obs = Some d \<Longrightarrow> dom_reach d"
| reach_step: "dom_reach d \<Longrightarrow> op_ok d op \<Longrightarrow> dom_step d op = Some d' \<Longrightarrow> dom_reach d'"

lemma dom_reach_wf: "dom_reach d \<Longrightarrow> dom_wf d"
proof (induction rule: dom_reach.induct)
  case (reach_new obs d)
  then show ?case using document_new_wf [of obs] by auto
next
  case (reach_step d op d')
  then show ?case using dom_step_wf [of d op] by auto
qed

fun dom_run :: "document \<Rightarrow> dom_op list \<Rightarrow> document option" where
  "dom_run d [] = Some d"
| "dom_run d (op # ops) = Option.bind (dom_step d op) (\<lambda>d'. dom_run d' ops)"

fun run_ok :: "document \<Rightarrow> dom_op list \<Rightarrow> bool" where
  "run_ok d [] = True"
| "run_ok d (op # ops) =
     (op_ok d op \<and> (case dom_step d op of None \<Rightarrow> False | Some d' \<Rightarrow> run_ok d' ops))"

lemma dom_run_reach: "dom_reach d \<Longrightarrow> run_ok d ops \<Longrightarrow> \<exists>d'. dom_run d ops = Some d' \<and> dom_reach d'"
  by (induction d ops rule: run_ok.induct) (auto split: option.splits intro: reach_step)

section \<open>An example document\<close>

text \<open>The equations that evaluate the operations on a given document.\<close>

lemma validate_loop_eval:
  "validate_loop d None c = Some (Inr ())"
  "validate_loop d (Some p) c =
     (if p = c then Some (Inl HierarchyRequest) else validate_loop d (parent d p) c)"
  by (subst validate_loop.simps, simp)+

lemma chain_from_eval:
  "chain_from d None k acc = Some acc"
  "chain_from d (Some n) k acc = chain_from d (parent d n) (Suc k) (acc @ [(n, k)])"
  by (subst chain_from.simps, simp)+

lemmas dom_eval = validate_loop_eval chain_from_eval document_new_def dom_alloc_def slab_new_def
  slab_insert_def slab_get_def slab_get_mut_def vec_get_def dom_rec_def rec_mut_def parent_def
  children_def append_child_def insert_before_def remove_child_def replace_child_def
  validate_insert_def detach_def maybe_register_id_def emit_mutation_def set_parent_def
  set_children_def live_def has_room_def unregister_id_def unindex_def vec_last_def vec_before_def
  vec_insert_def vec_remove_def child_list_record_def attr_get_def eq_ignore_ascii_case_def Let_def
  fresh_record_def

definition demo_node :: "u32 \<Rightarrow> node_id" where
  "demo_node i = \<lparr>h_index = i, h_generation = 1\<rparr>"

definition demo_init :: observer_init where
  "demo_init = \<lparr>oi_child_list = True, oi_attributes = True, oi_character_data = True, oi_subtree = True,
     oi_attribute_old_value = False, oi_character_data_old_value = False, oi_attribute_filter = None\<rparr>"

definition demo_new :: document where
  "demo_new = the (document_new (\<lambda>_. observer_new demo_init))"

text \<open>A list (1) with two items (2, 3) and a text (4) below the document node (0); 5 is detached.\<close>

definition demo_ops :: "dom_op list" where
  "demo_ops =
     [OpCreate (Element ''ul'' None), OpCreate (Element ''li'' None), OpCreate (Element ''LI'' None),
      OpCreate (Text ''x''), OpCreate (Element ''p'' None),
      OpAppend (demo_node 0) (demo_node 1), OpAppend (demo_node 1) (demo_node 2),
      OpAppend (demo_node 1) (demo_node 3), OpAppend (demo_node 1) (demo_node 4)]"

definition demo_doc :: document where
  "demo_doc = the (dom_run demo_new demo_ops)"

lemma demo_new_eval:
  "demo_new = \<lparr>d_slab = \<lparr>slab_slots = [Occupied 1 (fresh_record Document)], slab_free_head = None,
     slab_len = 1\<rparr>, d_root = Some (demo_node 0), d_id_index = Map.empty, d_observers = [],
     d_obs = \<lambda>_. observer_new demo_init\<rparr>"
  by (simp add: demo_new_def dom_eval demo_node_def)

lemma demo_reach: "dom_reach demo_doc"
proof -
  have "\<exists>d. document_new (\<lambda>_. observer_new demo_init) = Some d"
    using document_new_wf by blast
  then have "dom_reach demo_new" by (auto simp: demo_new_def intro: reach_new)
  moreover have "run_ok demo_new demo_ops"
    by (simp add: demo_new_eval demo_ops_def dom_eval demo_node_def)
  ultimately show ?thesis using dom_run_reach [of demo_new demo_ops] by (auto simp: demo_doc_def)
qed

lemma demo_doc_eval:
  "demo_doc = \<lparr>d_slab = \<lparr>slab_slots =
       [Occupied 1 ((fresh_record Document)\<lparr>nr_children := [demo_node 1]\<rparr>),
        Occupied 1 ((fresh_record (Element ''ul'' None))\<lparr>nr_parent := Some (demo_node 0),
          nr_children := [demo_node 2, demo_node 3, demo_node 4]\<rparr>),
        Occupied 1 ((fresh_record (Element ''li'' None))\<lparr>nr_parent := Some (demo_node 1)\<rparr>),
        Occupied 1 ((fresh_record (Element ''LI'' None))\<lparr>nr_parent := Some (demo_node 1)\<rparr>),
        Occupied 1 ((fresh_record (Text ''x''))\<lparr>nr_parent := Some (demo_node 1)\<rparr>),
        Occupied 1 (fresh_record (Element ''p'' None))],
       slab_free_head = None, slab_len = 6\<rparr>,
     d_root = Some (demo_node 0), d_id_index = Map.empty, d_observers = [],
     d_obs = \<lambda>_. observer_new demo_init\<rparr>"
  by (simp add: demo_doc_def demo_new_eval demo_ops_def dom_eval demo_node_def)

lemma demo_nodes [simp]:
  "demo_node i = demo_node j \<longleftrightarrow> i = j"
  by (simp add: demo_node_def)

lemma demo_links:
  "children demo_doc (demo_node 1) = [demo_node 2, demo_node 3, demo_node 4]"
  "children demo_doc (demo_node 5) = []"
  "parent demo_doc (demo_node 1) = Some (demo_node 0)" "parent demo_doc (demo_node 2) = Some (demo_node 1)"
  "parent demo_doc (demo_node 4) = Some (demo_node 1)" "parent demo_doc (demo_node 5) = None"
  "live demo_doc (demo_node 1)" "live demo_doc (demo_node 2)" "live demo_doc (demo_node 5)"
  by (simp_all add: demo_doc_eval dom_eval) (simp_all add: demo_node_def)

lemma demo_wf: "dom_wf demo_doc"
  using demo_reach by (rule dom_reach_wf)

lemma demo_not_below:
  "\<not> below (parent demo_doc) (demo_node 5) (demo_node 1)"
  "\<not> below (parent demo_doc) (demo_node 2) (demo_node 1)"
proof -
  have v: "validate_insert demo_doc (demo_node 1) n =
      Some (if n = demo_node 1 \<or> n = demo_node 0 then Inl HierarchyRequest else Inr ())" for n
    by (simp add: validate_insert_def validate_loop_eval demo_links eq_commute [of _ n])
      (auto simp: demo_doc_eval dom_eval demo_node_def)
  from validate_insert_result [OF demo_wf, of "demo_node 1" "demo_node 5"] v [of "demo_node 5"]
  show "\<not> below (parent demo_doc) (demo_node 5) (demo_node 1)" by (auto split: if_splits)
  from validate_insert_result [OF demo_wf, of "demo_node 1" "demo_node 2"] v [of "demo_node 2"]
  show "\<not> below (parent demo_doc) (demo_node 2) (demo_node 1)" by (auto split: if_splits)
qed

section \<open>Properties\<close>



text \<open>\<open>append_child\<close> on live nodes fails with \<open>HierarchyRequest\<close>, leaving the document unchanged,
  exactly when the parent is the child itself or below it. Otherwise it succeeds, the child leaves
  its old parent's list, becomes the last child of the new parent, and no other link changes.\<close>

theorem append_child_spec:
  assumes "dom_wf d" and "live d p" and "live d n"
  shows "\<exists>d'. append_child d p n =
      Some (if below (parent d) n p then Inl (Err HierarchyRequest) else Inr n, d') \<and> dom_wf d' \<and>
    (if below (parent d) n p then d' = d
     else live d' = live d \<and> d_root d' = d_root d \<and> parent d' = (parent d)(n \<mapsto> p) \<and>
       children d' = (let k = unlink_kids (parent d) (children d) n in k(p := k p @ [n])))"
  using append_child_result [OF assms] by auto

theorem append_child_spec_witness:
  "\<exists>d'. append_child demo_doc (demo_node 1) (demo_node 5) = Some (Inr (demo_node 5), d') \<and>
     children d' (demo_node 1) = [demo_node 2, demo_node 3, demo_node 4, demo_node 5]"
  using append_child_spec [OF demo_wf demo_links(7,9)] demo_not_below(1) demo_links(1,6)
  by (auto simp: unlink_kids_def Let_def)

lemma vec_insert_filter_nth:
  assumes "distinct xs" and "i < length xs" and "xs ! i = r"
  shows "\<exists>ys zs. filter (\<lambda>c. c \<noteq> n) xs = ys @ (if r = n then [] else [r]) @ zs \<and>
    vec_insert i n (filter (\<lambda>c. c \<noteq> n) xs) =
      (if n \<in> set (take i xs) then ys @ r # n # zs else if r = n then ys @ n # zs else ys @ n # r # zs)"
proof -
  let ?ys = "take i xs" and ?zs = "drop (Suc i) xs"
  have xs: "xs = ?ys @ r # ?zs" using id_take_nth_drop [OF assms(2)] assms(3) by simp
  have d: "distinct (?ys @ r # ?zs)" using assms(1) xs by simp
  have li: "length ?ys = i" using assms(2) by simp
  define ys zs where "ys = ?ys" and "zs = ?zs"
  have *: "xs = ys @ r # zs" "distinct (ys @ r # zs)" "length ys = i" "take i xs = ys"
    using xs d li by (simp_all add: ys_def zs_def)
  have f: "filter (\<lambda>c. c \<noteq> n) l = l" if "n \<notin> set l" for l
    using that by (auto simp: filter_id_conv)
  show ?thesis
  proof (cases "n \<in> set ys")
    case True
    then obtain a b where ab: "ys = a @ n # b" by (auto dest: split_list)
    with * have "n \<notin> set a" "n \<notin> set b" "n \<notin> set zs" "r \<noteq> n" by auto
    moreover have "i = Suc (length (a @ b))" using *(3) ab by simp
    ultimately show ?thesis using *(1,4) True f ab
      by - (rule exI [of _ "a @ b"], rule exI [of _ zs], simp add: vec_insert_def)
  next
    case False
    then show ?thesis using * f
      by - (rule exI [of _ ys], rule exI [of _ "filter (\<lambda>c. c \<noteq> n) zs"], auto simp: vec_insert_def)
  qed
qed

text \<open>C35: \<open>insert_before\<close> with a reference that is a child of the parent. The new node is unlinked
  and put back at the index the reference had before the unlinking. Unless the new node is an earlier
  sibling of the reference, it ends directly before the reference; when it is an earlier sibling, it
  ends directly after the reference.\<close>

theorem insert_before_places:
  assumes "dom_wf d" and "live d n" and "r \<in> set (children d p)" and "r \<noteq> n"
    and "\<not> below (parent d) n p"
  shows "\<exists>d' ys zs. insert_before d p n (Some r) = Some (Inr n, d') \<and> dom_wf d' \<and>
    parent d' = (parent d)(n \<mapsto> p) \<and> filter (\<lambda>c. c \<noteq> n) (children d p) = ys @ r # zs \<and>
    children d' p =
      (if n \<in> set (takeWhile (\<lambda>c. c \<noteq> r) (children d p)) then ys @ [r, n] @ zs else ys @ [n, r] @ zs) \<and>
    (\<forall>q. q \<noteq> p \<longrightarrow> children d' q = unlink_kids (parent d) (children d) n q)"
proof -
  obtain i where i: "i < length (children d p)" "children d p ! i = r"
    using assms(3) by (auto simp: in_set_conv_nth)
  note dist = dom_wf_distinct [OF assms(1), of p]
  have pos: "position (\<lambda>c. c = r) (children d p) = Some i"
    using position_distinct [OF dist i(1)] i(2) by simp
  have kp: "unlink_kids (parent d) (children d) n p = filter (\<lambda>c. c \<noteq> n) (children d p)"
  proof (cases "parent d n = Some p")
    case False
    then have "n \<notin> set (children d p)" using dom_wf_child [OF assms(1)] by simp
    then have "filter (\<lambda>c. c \<noteq> n) (children d p) = children d p" by (auto simp: filter_id_conv)
    with False show ?thesis by (auto simp: unlink_kids_def split: option.split)
  qed (simp add: unlink_kids_def)
  have tw: "takeWhile (\<lambda>c. c \<noteq> r) (children d p) = take i (children d p)"
    using takeWhile_eq_take_P_nth [of i "children d p" "\<lambda>c. c \<noteq> r"] position_Some [OF pos] i by auto
  obtain ys zs where yz: "filter (\<lambda>c. c \<noteq> n) (children d p) = ys @ r # zs"
    "vec_insert i n (filter (\<lambda>c. c \<noteq> n) (children d p)) =
       (if n \<in> set (take i (children d p)) then ys @ r # n # zs else ys @ n # r # zs)"
    using vec_insert_filter_nth [OF dist i, of n] assms(4) by auto
  obtain d' where d': "insert_before d p n (Some r) = Some (Inr n, d')" "dom_wf d'"
    "parent d' = (parent d)(n \<mapsto> p)"
    "children d' = (let k = unlink_kids (parent d) (children d) n in k(p := vec_insert i n (k p)))"
    using insert_before_result [OF assms(1) children_live [OF assms(3)] assms(2) pos assms(5)] by blast
  have "children d' p = vec_insert i n (filter (\<lambda>c. c \<noteq> n) (children d p))"
    using d'(4) kp by (simp add: Let_def)
  moreover have "\<forall>q. q \<noteq> p \<longrightarrow> children d' q = unlink_kids (parent d) (children d) n q"
    using d'(4) by (simp add: Let_def)
  ultimately show ?thesis using d'(1-3) yz tw by (metis append_Cons append_Nil)
qed

theorem insert_before_places_witness:
  "\<exists>d'. insert_before demo_doc (demo_node 1) (demo_node 2) (Some (demo_node 4)) = Some (Inr (demo_node 2), d') \<and>
     children d' (demo_node 1) = [demo_node 3, demo_node 4, demo_node 2]"
proof -
  obtain d' ys zs where *: "insert_before demo_doc (demo_node 1) (demo_node 2) (Some (demo_node 4)) =
      Some (Inr (demo_node 2), d')"
    "filter (\<lambda>c. c \<noteq> demo_node 2) (children demo_doc (demo_node 1)) = ys @ demo_node 4 # zs"
    "children d' (demo_node 1) =
      (if demo_node 2 \<in> set (takeWhile (\<lambda>c. c \<noteq> demo_node 4) (children demo_doc (demo_node 1)))
       then ys @ [demo_node 4, demo_node 2] @ zs else ys @ [demo_node 2, demo_node 4] @ zs)"
    using insert_before_places [OF demo_wf demo_links(8) _ _ demo_not_below(2), of "demo_node 4"]
    by (auto simp: demo_links)
  from *(2) have "ys = [demo_node 3] \<and> zs = []"
    by (auto simp: demo_links Cons_eq_append_conv)
  then show ?thesis using *(1,3) by (auto simp: demo_links)
qed

text \<open>\<open>remove_child\<close> of a child of the parent succeeds: the child loses its parent, leaves the
  list, and nothing else is relinked. Of a node that is not a child it fails with \<open>NotFound\<close> and
  changes nothing.\<close>

theorem remove_child_spec:
  assumes "dom_wf d"
  shows "if c \<in> set (children d p)
    then \<exists>d'. remove_child d p c = Some (Inr c, d') \<and> dom_wf d' \<and> live d' = live d \<and>
      parent d' = (parent d)(c := None) \<and>
      children d' = (children d)(p := filter (\<lambda>x. x \<noteq> c) (children d p))
    else remove_child d p c = Some (Inl (Err NotFound), d)"
  using remove_child_result [OF assms, of c p] remove_child_missing [of c d p] by auto

theorem remove_child_spec_witness:
  "\<exists>d'. remove_child demo_doc (demo_node 1) (demo_node 2) = Some (Inr (demo_node 2), d') \<and>
     children d' (demo_node 1) = [demo_node 3, demo_node 4]"
  using remove_child_spec [OF demo_wf, of "demo_node 2" "demo_node 1"] by (auto simp: demo_links)

text \<open>\<open>replace_child\<close>. Without a sibling as the new child it puts the new child in the place of
  the old one, which loses its parent; an unknown old child and a cycle are refused without a change.\<close>

theorem replace_child_spec:
  assumes "dom_wf d" and "live d new" and "parent d new \<noteq> Some p"
  shows "if old \<notin> set (children d p) then replace_child d p new old = Some (Inl (Err NotFound), d)
    else if below (parent d) new p then replace_child d p new old = Some (Inl (Err HierarchyRequest), d)
    else \<exists>d' ys zs. replace_child d p new old = Some (Inr old, d') \<and> dom_wf d' \<and>
      parent d' = (parent d)(new \<mapsto> p, old := None) \<and>
      children d p = ys @ old # zs \<and> children d' p = ys @ new # zs"
proof (cases "old \<in> set (children d p) \<and> \<not> below (parent d) new p")
  case True
  obtain i where i: "position (\<lambda>c. c = old) (children d p) = Some i"
    using True position_None [of "\<lambda>c. c = old" "children d p"] by (cases "position (\<lambda>c. c = old) (children d p)") auto
  have n: "i < length (children d p)" "children d p ! i = old" using position_Some [OF i] by simp_all
  have kp: "unlink_kids (parent d) (children d) new p = children d p"
    using assms(3) by (auto simp: unlink_kids_def split: option.split)
  obtain d' where d': "replace_child d p new old = Some (Inr old, d')" "dom_wf d'"
    "parent d' = (parent d)(new \<mapsto> p, old := None)" "children d' p = (children d p)[i := new]"
    using replace_child_result [OF assms(1,2) i _ assms(3)] True kp by (auto simp: Let_def)
  have "children d p = take i (children d p) @ old # drop (Suc i) (children d p)"
    using id_take_nth_drop [OF n(1)] n(2) by simp
  moreover have "children d' p = take i (children d p) @ new # drop (Suc i) (children d p)"
    using d'(4) upd_conv_take_nth_drop [OF n(1)] by simp
  ultimately show ?thesis using True d'(1-3) by auto
qed (use replace_child_errors [OF assms(1)] in auto)

theorem replace_child_spec_witness:
  "\<exists>d' ys zs. replace_child demo_doc (demo_node 1) (demo_node 5) (demo_node 3) = Some (Inr (demo_node 3), d') \<and>
     children demo_doc (demo_node 1) = ys @ demo_node 3 # zs \<and> children d' (demo_node 1) = ys @ demo_node 5 # zs"
proof -
  have "parent demo_doc (demo_node 5) \<noteq> Some (demo_node 1)" by (simp add: demo_links)
  from replace_child_spec [OF demo_wf demo_links(9) this, of "demo_node 3"]
  show ?thesis using demo_not_below(1) by (auto simp: demo_links)
qed

text \<open>\<open>replace_child\<close> panics when the new child is a sibling of the old one and the old one is the
  last child: the index is taken before the new child is unlinked and is then out of range.\<close>

theorem replace_child_sibling_panics:
  assumes "dom_wf d" and "parent d new = Some p" and "children d p \<noteq> []"
    and "last (children d p) = old" and "new \<noteq> old"
  shows "\<exists>d'. replace_child d p new old = Some (Inl Panic, d')"
  using replace_child_panics [OF assms(1,3,4,2,5)] .

theorem replace_child_sibling_panics_witness:
  "\<exists>d'. replace_child demo_doc (demo_node 1) (demo_node 2) (demo_node 4) = Some (Inl Panic, d')"
  by (rule replace_child_sibling_panics [OF demo_wf demo_links(4)]) (simp_all add: demo_links)

end
