(* ===== verification/Dom_Index.thy ===== *)
theory Dom_Index
  imports Dom_Tree
begin

text \<open>
  Attributes and the id index of \<^verbatim>\<open>crates/cv_dom/src/lib.rs\<close>: the attribute list behaves as a map
  from case-folded names, tree mutations leave kinds and attributes alone, and the index only
  answers with nodes whose \<open>id\<close> attribute is the one asked for.
\<close>

section \<open>Attribute lists\<close>

lemma eq_ignore_ascii_case_refl [simp]: "eq_ignore_ascii_case a a"
  by (simp add: eq_ignore_ascii_case_def)

lemma eq_ignore_ascii_case_sym: "eq_ignore_ascii_case a b \<longleftrightarrow> eq_ignore_ascii_case b a"
  by (auto simp: eq_ignore_ascii_case_def)

definition attr_wf :: "attr_map \<Rightarrow> bool" where
  "attr_wf m \<longleftrightarrow> distinct (map (\<lambda>p. to_ascii_lowercase (fst p)) m)"

lemma attr_get_simps [simp]:
  "attr_get [] k = None"
  "attr_get ((a, v) # m) k = (if eq_ignore_ascii_case a k then Some v else attr_get m k)"
  by (simp_all add: attr_get_def)

lemma attr_get_None: "attr_get m k = None \<longleftrightarrow> to_ascii_lowercase k \<notin> (\<lambda>p. to_ascii_lowercase (fst p)) ` set m"
proof (induction m)
  case (Cons p m)
  then show ?case by (cases p) (simp add: eq_ignore_ascii_case_def eq_commute)
qed simp

lemma attr_set_fst: "fst (attr_set m k v) = attr_get m k"
  by (induction m k v rule: attr_set.induct) (auto split: prod.splits)

lemma attr_set_get:
  "attr_get (snd (attr_set m k v)) k' = (if eq_ignore_ascii_case k k' then Some v else attr_get m k')"
  by (induction m k v rule: attr_set.induct)
    (auto split: prod.splits simp: eq_ignore_ascii_case_def)

lemma attr_set_names:
  "map (\<lambda>p. to_ascii_lowercase (fst p)) (snd (attr_set m k v)) =
   map (\<lambda>p. to_ascii_lowercase (fst p)) m @ (if attr_get m k = None then [to_ascii_lowercase k] else [])"
  by (induction m k v rule: attr_set.induct) (auto split: prod.splits)

lemma attr_set_wf: "attr_wf m \<Longrightarrow> attr_wf (snd (attr_set m k v))"
  using attr_get_None [of m k] by (auto simp: attr_wf_def attr_set_names)

lemma attr_remove_simps:
  "attr_remove [] k = (None, [])"
  "attr_remove ((a, v) # m) k =
     (if eq_ignore_ascii_case a k then (Some v, m)
      else (fst (attr_remove m k), (a, v) # snd (attr_remove m k)))"
  by (auto simp: attr_remove_def vec_remove_def split: option.splits)

lemma attr_remove_fst: "fst (attr_remove m k) = attr_get m k"
  by (induction m) (auto simp: attr_remove_simps)

lemma attr_remove_set: "set (snd (attr_remove m k)) \<subseteq> set m"
proof (induction m)
  case (Cons p m)
  then show ?case by (cases p) (auto simp: attr_remove_simps)
qed (simp add: attr_remove_simps)

lemma attr_remove_wf: "attr_wf m \<Longrightarrow> attr_wf (snd (attr_remove m k))"
proof (induction m)
  case (Cons p m)
  then show ?case
    using attr_remove_set [of m k] by (cases p) (auto simp: attr_remove_simps attr_wf_def)
qed (simp add: attr_remove_simps)

lemma attr_remove_get:
  "attr_wf m \<Longrightarrow>
   attr_get (snd (attr_remove m k)) k' = (if eq_ignore_ascii_case k k' then None else attr_get m k')"
proof (induction m)
  case (Cons p m)
  obtain a v where p: "p = (a, v)" by (cases p)
  have "attr_get m k' = None" if "eq_ignore_ascii_case a k" "eq_ignore_ascii_case k k'"
    using Cons.prems that
    by (auto simp: attr_get_None p attr_wf_def eq_ignore_ascii_case_def)
  then show ?case
    using Cons by (auto simp: p attr_remove_simps attr_wf_def eq_ignore_ascii_case_def)
qed (simp add: attr_remove_simps)

lemma attr_has_get: "attr_has m k \<longleftrightarrow> attr_get m k \<noteq> None"
  by (induction m) (auto simp: attr_has_def)

section \<open>What tree mutations leave alone\<close>

definition node_core :: "document \<Rightarrow> node_id \<Rightarrow> (node_kind \<times> attr_map) option" where
  "node_core d n = map_option (\<lambda>r. (nr_kind r, nr_attrs r)) (dom_rec d n)"

lemma node_core_rec_mut:
  "(\<And>r. nr_kind (f r) = nr_kind r \<and> nr_attrs (f r) = nr_attrs r) \<Longrightarrow> node_core (rec_mut d n f) = node_core d"
  by (auto simp: node_core_def dom_rec_mut fun_eq_iff option.map_comp o_def)

lemma node_core_upd [simp]:
  "node_core (d\<lparr>d_id_index := i\<rparr>) = node_core d" "node_core (d\<lparr>d_obs := ob\<rparr>) = node_core d"
  "node_core (d\<lparr>d_observers := os\<rparr>) = node_core d"
  by (simp_all add: node_core_def fun_eq_iff)

lemma node_core_set [simp]:
  "node_core (set_parent d n p) = node_core d" "node_core (set_children d n f) = node_core d"
  by (simp_all add: set_parent_def set_children_def node_core_rec_mut)

lemma node_core_unregister [simp]: "node_core (unregister_id d n) = node_core d"
  by (auto simp: unregister_id_def unindex_def node_core_rec_mut split: option.split)

lemma node_core_register [simp]: "node_core (maybe_register_id d n) = node_core d"
  by (auto simp: maybe_register_id_def node_core_rec_mut Let_def split: option.split)

lemma node_core_detach [simp]: "node_core (detach d n) = node_core d"
  by (auto simp: detach_def node_core_rec_mut split: option.split)

lemma emit_Some: "emit_mutation d rec = Some d' \<longleftrightarrow>
    (\<exists>chain. chain_from d (Some (mr_target rec)) 0 [] = Some chain \<and>
       d' = d\<lparr>d_obs := fold (deliver rec chain) (d_observers d) (d_obs d)\<rparr>)"
  by (auto simp: emit_mutation_def bind_eq_Some_conv)

lemma node_core_emit: "emit_mutation d rec = Some d' \<Longrightarrow> node_core d' = node_core d"
  by (auto simp: emit_Some)

lemma validate_bind:
  "(Option.bind (validate_insert d p n)
      (\<lambda>v. case v of Inl e \<Rightarrow> Some (Inl (Err e), d0) | Inr _ \<Rightarrow> k) = Some z) \<longleftrightarrow>
   (\<exists>e. validate_insert d p n = Some (Inl e) \<and> z = (Inl (Err e), d0)) \<or>
   (validate_insert d p n = Some (Inr ()) \<and> k = Some z)"
  by (cases "validate_insert d p n") (auto split: sum.split)

lemma append_child_core: "append_child d p n = Some (x, d') \<Longrightarrow> node_core d' = node_core d"
  unfolding append_child_def Let_def
  by (auto simp: validate_bind split: option.splits)
    (auto simp: bind_eq_Some_conv dest!: node_core_emit)

lemma insert_before_core: "insert_before d p n r = Some (x, d') \<Longrightarrow> node_core d' = node_core d"
  unfolding insert_before_def Let_def
  by (auto simp: validate_bind split: option.splits if_splits)
    (auto simp: bind_eq_Some_conv dest!: node_core_emit append_child_core )

lemma remove_child_core: "remove_child d p n = Some (x, d') \<Longrightarrow> node_core d' = node_core d"
  by (auto simp: remove_child_def Let_def bind_eq_Some_conv dest!: node_core_emit
      split: option.splits)

lemma replace_child_core: "replace_child d p n old = Some (x, d') \<Longrightarrow> node_core d' = node_core d"
  unfolding replace_child_def Let_def
  by (auto simp: validate_bind split: option.splits if_splits)
    (auto simp: bind_eq_Some_conv dest!: node_core_emit)

section \<open>The id index\<close>

definition id_wf :: "document \<Rightarrow> bool" where
  "id_wf d \<longleftrightarrow>
     (\<forall>s n. d_id_index d s = Some n \<longrightarrow>
        (\<exists>r. dom_rec d n = Some r \<and> nr_id_cache r = Some s \<and> attr_get (nr_attrs r) ''id'' = Some s)) \<and>
     (\<forall>n r. dom_rec d n = Some r \<longrightarrow> attr_wf (nr_attrs r))"

lemma id_wf_index:
  "id_wf d \<Longrightarrow> d_id_index d s = Some n \<Longrightarrow>
   \<exists>r. dom_rec d n = Some r \<and> nr_id_cache r = Some s \<and> attr_get (nr_attrs r) ''id'' = Some s"
  by (simp add: id_wf_def)

lemma id_wf_rec_mut:
  "id_wf d \<Longrightarrow> (\<And>r. nr_id_cache (f r) = nr_id_cache r \<and> nr_attrs (f r) = nr_attrs r) \<Longrightarrow>
   id_wf (rec_mut d n f)"
  unfolding id_wf_def by (fastforce simp: dom_rec_mut split: if_splits)

lemma id_wf_rec_mut_at:
  assumes "id_wf d"
    and "\<And>r. dom_rec d n = Some r \<Longrightarrow> nr_id_cache (f r) = nr_id_cache r \<and>
      attr_get (nr_attrs (f r)) ''id'' = attr_get (nr_attrs r) ''id'' \<and> attr_wf (nr_attrs (f r))"
  shows "id_wf (rec_mut d n f)"
  unfolding id_wf_def
proof (intro conjI allI impI)
  fix s m assume "d_id_index (rec_mut d n f) s = Some m"
  then obtain r where "dom_rec d m = Some r" "nr_id_cache r = Some s" "attr_get (nr_attrs r) ''id'' = Some s"
    using id_wf_index [OF assms(1), of s m] by auto
  then show "\<exists>r. dom_rec (rec_mut d n f) m = Some r \<and> nr_id_cache r = Some s \<and>
      attr_get (nr_attrs r) ''id'' = Some s"
    using assms(2) by (cases "m = n") (auto simp: dom_rec_mut)
next
  fix m r assume "dom_rec (rec_mut d n f) m = Some r"
  then show "attr_wf (nr_attrs r)"
    using assms by (auto simp: dom_rec_mut id_wf_def split: if_splits)
qed

lemma id_wf_set [simp]:
  "id_wf d \<Longrightarrow> id_wf (set_parent d n p)" "id_wf d \<Longrightarrow> id_wf (set_children d n f)"
  by (simp_all add: set_parent_def set_children_def id_wf_rec_mut)

lemma id_wf_obs [simp]: "id_wf (d\<lparr>d_obs := ob\<rparr>) = id_wf d" "id_wf (d\<lparr>d_observers := os\<rparr>) = id_wf d"
  by (simp_all add: id_wf_def)

lemma id_wf_emit: "emit_mutation d rec = Some d' \<Longrightarrow> id_wf d \<Longrightarrow> id_wf d'"
  by (auto simp: emit_Some)

lemma emit_index: "emit_mutation d rec = Some d' \<Longrightarrow> d_id_index d' = d_id_index d"
  by (auto simp: emit_Some)

lemma unregister_index:
  assumes "id_wf d"
  shows "d_id_index (unregister_id d n) s = (if d_id_index d s = Some n then None else d_id_index d s)"
proof (cases "d_id_index d s = Some n")
  case True
  then obtain r where r: "dom_rec d n = Some r" "nr_id_cache r = Some s"
    using id_wf_index [OF assms] by blast
  then show ?thesis using True by (simp add: unregister_id_def unindex_def)
next
  case False
  then show ?thesis by (auto simp: unregister_id_def unindex_def split: option.split)
qed

lemma unregister_rec:
  "dom_rec (unregister_id d n) m =
     (if m = n then map_option (\<lambda>r. r\<lparr>nr_id_cache := None\<rparr>) (dom_rec d n) else dom_rec d m)"
  by (auto simp: unregister_id_def unindex_def dom_rec_mut split: option.split)

lemma id_wf_unregister [simp]: "id_wf d \<Longrightarrow> id_wf (unregister_id d n)"
  unfolding id_wf_def [of "unregister_id d n"]
  by (auto simp: unregister_index unregister_rec split: if_splits dest: id_wf_index)
    (auto simp: id_wf_def)

lemma id_wf_register [simp]:
  assumes "id_wf d"
  shows "id_wf (maybe_register_id d n)"
proof (cases "Option.bind (dom_rec d n) (\<lambda>r. attr_get (nr_attrs r) ''id'')")
  case None
  then show ?thesis using assms by (simp add: maybe_register_id_def)
next
  case (Some s)
  then obtain r where r: "dom_rec d n = Some r" "attr_get (nr_attrs r) ''id'' = Some s"
    by (auto simp: bind_eq_Some_conv)
  have "s' = s" if "d_id_index d s' = Some n" for s'
    using id_wf_index [OF assms that] r by auto
  then show ?thesis
    using assms r unfolding id_wf_def
    by (auto simp: maybe_register_id_def Let_def dom_rec_mut split: if_splits)
qed

lemma id_wf_detach [simp]: "id_wf d \<Longrightarrow> id_wf (detach d n)"
  by (auto simp: detach_def id_wf_rec_mut split: option.split)

lemma append_child_id_wf: "append_child d p n = Some (x, d') \<Longrightarrow> id_wf d \<Longrightarrow> id_wf d'"
  unfolding append_child_def Let_def
  by (auto simp: validate_bind split: option.splits)
    (auto simp: bind_eq_Some_conv elim!: id_wf_emit)

lemma insert_before_id_wf: "insert_before d p n r = Some (x, d') \<Longrightarrow> id_wf d \<Longrightarrow> id_wf d'"
  unfolding insert_before_def Let_def
  by (auto simp: validate_bind split: option.splits if_splits)
    (auto simp: bind_eq_Some_conv elim!: id_wf_emit append_child_id_wf)

lemma remove_child_id_wf: "remove_child d p n = Some (x, d') \<Longrightarrow> id_wf d \<Longrightarrow> id_wf d'"
  by (auto simp: remove_child_def Let_def bind_eq_Some_conv elim!: id_wf_emit
      split: option.splits)

lemma replace_child_id_wf: "replace_child d p n old = Some (x, d') \<Longrightarrow> id_wf d \<Longrightarrow> id_wf d'"
  unfolding replace_child_def Let_def
  by (auto simp: validate_bind split: option.splits if_splits)
    (auto simp: bind_eq_Some_conv elim!: id_wf_emit)

lemma id_wf_alloc:
  assumes "slab_inv (d_slab d)" and "id_wf d" and "dom_alloc d k = Some (n, d')"
  shows "id_wf d'"
  using assms(2) dom_alloc_rec [OF assms(1,3)] unfolding id_wf_def
  by (fastforce simp: fresh_record_def attr_wf_def split: if_splits)

lemma id_wf_new: "document_new obs = Some d \<Longrightarrow> id_wf d"
  using document_new_wf [of obs] by (auto simp: id_wf_def fresh_record_def attr_wf_def split: if_splits)

lemma id_wf_set_attribute:
  assumes "set_attribute d n k v = Some d'" and "id_wf d" and "live d n"
  shows "id_wf d'"
proof -
  obtain r where r: "dom_rec d n = Some r" using live_rec [OF assms(3)] ..
  let ?old = "attr_get (nr_attrs r) k"
  let ?d1 = "rec_mut d n (\<lambda>r. r\<lparr>nr_attrs := snd (attr_set (nr_attrs r) k v)\<rparr>)"
  let ?da = "case ?old of None \<Rightarrow> ?d1 | Some prev \<Rightarrow> unindex ?d1 n prev"
  let ?d2 = "if eq_ignore_ascii_case k ''id''
      then rec_mut (?da\<lparr>d_id_index := (d_id_index ?da)(v \<mapsto> n)\<rparr>) n (\<lambda>r. r\<lparr>nr_id_cache := Some v\<rparr>)
      else ?d1"
  have e: "emit_mutation ?d2
      \<lparr>mr_target = n, mr_kind = MAttributes k (attr_namespace k) ?old (Some v)\<rparr> = Some d'"
    using assms(1) r by (simp add: set_attribute_def attr_set_fst Let_def cong: if_cong)
  have aw: "attr_wf (nr_attrs r')" if "dom_rec d m = Some r'" for m r'
    using assms(2) that by (auto simp: id_wf_def)
  have "id_wf ?d2"
  proof (cases "eq_ignore_ascii_case k ''id''")
    case False
    then have g: "attr_get (snd (attr_set (nr_attrs r') k v)) ''id'' = attr_get (nr_attrs r') ''id''" for r'
      by (simp add: attr_set_get)
    show ?thesis
      using False id_wf_rec_mut_at [OF assms(2), of n "\<lambda>r. r\<lparr>nr_attrs := snd (attr_set (nr_attrs r) k v)\<rparr>"]
        aw by (simp add: g attr_set_wf)
  next
    case True
    have same: "attr_get (nr_attrs r) ''id'' = ?old"
      using True by (simp add: attr_get_def eq_ignore_ascii_case_def)
    have idx: "d_id_index ?da s \<noteq> Some n" for s
    proof
      assume *: "d_id_index ?da s = Some n"
      then have "d_id_index d s = Some n" by (auto simp: unindex_def split: option.splits if_splits)
      from id_wf_index [OF assms(2) this] r same have "?old = Some s" by simp
      with * show False by (auto simp: unindex_def split: if_splits)
    qed
    have idx': "d_id_index ?da s = Some m \<Longrightarrow> d_id_index d s = Some m" for s m
      by (auto simp: unindex_def split: option.splits if_splits)
    have rec: "dom_rec ?da m = dom_rec ?d1 m" for m
      by (auto simp: unindex_def split: option.split)
    show ?thesis unfolding id_wf_def
    proof (intro conjI allI impI)
      fix s m assume *: "d_id_index ?d2 s = Some m"
      show "\<exists>r. dom_rec ?d2 m = Some r \<and> nr_id_cache r = Some s \<and> attr_get (nr_attrs r) ''id'' = Some s"
      proof (cases "s = v")
        case sv: True
        then have "m = n" using * True by simp
        then show ?thesis using True r sv by (simp add: rec dom_rec_mut attr_set_get)
      next
        case False
        then have i: "d_id_index ?da s = Some m" using * True by simp
        then have "m \<noteq> n" using idx by blast
        then show ?thesis
          using True id_wf_index [OF assms(2) idx' [OF i]] by (simp add: rec dom_rec_mut)
      qed
    next
      fix m r' assume "dom_rec ?d2 m = Some r'"
      then show "attr_wf (nr_attrs r')"
        using True aw by (auto simp: rec dom_rec_mut attr_set_wf split: if_splits)
    qed
  qed
  then show ?thesis using e by (rule id_wf_emit [rotated])
qed

lemma id_wf_remove_attribute:
  assumes "remove_attribute d n k = Some d'" and "id_wf d"
  shows "id_wf d'"
proof (cases "dom_rec d n")
  case None
  then show ?thesis
    using assms by (auto simp: remove_attribute_def Let_def dom_rec_mut
        intro!: id_wf_rec_mut_at elim!: id_wf_emit split: if_splits)
next
  case (Some r)
  let ?old = "attr_get (nr_attrs r) k"
  let ?d1 = "rec_mut d n (\<lambda>r. r\<lparr>nr_attrs := snd (attr_remove (nr_attrs r) k)\<rparr>)"
  let ?da = "case ?old of None \<Rightarrow> ?d1 | Some prev \<Rightarrow> unindex ?d1 n prev"
  let ?d2 = "if eq_ignore_ascii_case k ''id'' then rec_mut ?da n (\<lambda>r. r\<lparr>nr_id_cache := None\<rparr>) else ?d1"
  have e: "emit_mutation ?d2
      \<lparr>mr_target = n, mr_kind = MAttributes k (attr_namespace k) ?old None\<rparr> = Some d'"
    using assms(1) Some by (simp add: remove_attribute_def attr_remove_fst Let_def cong: if_cong)
  have aw: "attr_wf (nr_attrs r')" if "dom_rec d m = Some r'" for m r'
    using assms(2) that by (auto simp: id_wf_def)
  have "id_wf ?d2"
  proof (cases "eq_ignore_ascii_case k ''id''")
    case False
    then have g: "attr_get (snd (attr_remove (nr_attrs r) k)) ''id'' = attr_get (nr_attrs r) ''id''"
      using aw [OF Some] by (simp add: attr_remove_get)
    show ?thesis
      using False id_wf_rec_mut_at [OF assms(2), of n "\<lambda>r. r\<lparr>nr_attrs := snd (attr_remove (nr_attrs r) k)\<rparr>"]
        aw Some by (simp add: g attr_remove_wf)
  next
    case True
    have same: "attr_get (nr_attrs r) ''id'' = ?old"
      using True by (simp add: attr_get_def eq_ignore_ascii_case_def)
    have idx: "d_id_index ?da s \<noteq> Some n" for s
    proof
      assume *: "d_id_index ?da s = Some n"
      then have "d_id_index d s = Some n" by (auto simp: unindex_def split: option.splits if_splits)
      from id_wf_index [OF assms(2) this] Some same have "?old = Some s" by simp
      with * show False by (auto simp: unindex_def split: if_splits)
    qed
    have idx': "d_id_index ?da s = Some m \<Longrightarrow> d_id_index d s = Some m" for s m
      by (auto simp: unindex_def split: option.splits if_splits)
    have rec: "dom_rec ?da m = dom_rec ?d1 m" for m
      by (auto simp: unindex_def split: option.split)
    show ?thesis unfolding id_wf_def
    proof (intro conjI allI impI)
      fix s m assume *: "d_id_index ?d2 s = Some m"
      then have i: "d_id_index ?da s = Some m" using True by simp
      then have "m \<noteq> n" using idx by blast
      then show "\<exists>r. dom_rec ?d2 m = Some r \<and> nr_id_cache r = Some s \<and> attr_get (nr_attrs r) ''id'' = Some s"
        using True id_wf_index [OF assms(2) idx' [OF i]] by (simp add: rec dom_rec_mut)
    next
      fix m r' assume "dom_rec ?d2 m = Some r'"
      then show "attr_wf (nr_attrs r')"
        using True aw by (auto simp: rec dom_rec_mut attr_remove_wf split: if_splits)
    qed
  qed
  then show ?thesis using e by (rule id_wf_emit [rotated])
qed

lemma id_wf_set_text_data: "set_text_data d n s = Some (x, d') \<Longrightarrow> id_wf d \<Longrightarrow> id_wf d'"
  by (auto simp: set_text_data_def Let_def bind_eq_Some_conv id_wf_rec_mut elim!: id_wf_emit
      split: option.splits node_kind.splits)

lemma dom_step_id_wf:
  assumes "dom_wf d" and "id_wf d" and "op_ok d op" and "dom_step d op = Some d'"
  shows "id_wf d'"
proof (cases op)
  case (OpCreate k)
  then show ?thesis using assms id_wf_alloc [of d k] by (auto simp: dom_wf_def)
next
  case (OpSetAttribute n k v)
  then show ?thesis using assms id_wf_set_attribute by simp
next
  case (OpAddObserver i)
  then show ?thesis using assms by (auto simp: add_observer_def)
qed (use assms in \<open>auto dest: append_child_id_wf insert_before_id_wf remove_child_id_wf
      replace_child_id_wf id_wf_remove_attribute id_wf_set_text_data\<close>)

lemma dom_reach_id_wf: "dom_reach d \<Longrightarrow> id_wf d"
proof (induction rule: dom_reach.induct)
  case (reach_new obs d)
  then show ?case by (rule id_wf_new)
next
  case (reach_step d op d')
  then show ?case using dom_step_id_wf dom_reach_wf by blast
qed

section \<open>Properties\<close>

lemma get_attribute_core: "get_attribute d n k = Option.bind (node_core d n) (\<lambda>(_, a). attr_get a k)"
  by (cases "dom_rec d n") (simp_all add: get_attribute_def node_core_def)

lemma node_core_rec_mut_attrs:
  "node_core (rec_mut d n (\<lambda>r. r\<lparr>nr_attrs := f (nr_attrs r)\<rparr>)) =
     (node_core d)(n := map_option (\<lambda>(k, a). (k, f a)) (node_core d n))"
  by (auto simp: node_core_def dom_rec_mut fun_eq_iff option.map_comp o_def)

lemma node_core_unindex [simp]: "node_core (unindex d n v) = node_core d"
  by (simp add: unindex_def)

lemma set_attribute_core:
  assumes "set_attribute d n k v = Some d'"
  shows "node_core d' = (node_core d)(n := map_option (\<lambda>(kd, a). (kd, snd (attr_set a k v))) (node_core d n))"
  using assms node_core_rec_mut_attrs [of d n "\<lambda>a. snd (attr_set a k v)"]
  by (auto simp: set_attribute_def Let_def node_core_rec_mut
      dest!: node_core_emit split: if_splits option.splits)

lemma remove_attribute_core:
  assumes "remove_attribute d n k = Some d'"
  shows "node_core d' = (node_core d)(n := map_option (\<lambda>(kd, a). (kd, snd (attr_remove a k))) (node_core d n))"
  using assms node_core_rec_mut_attrs [of d n "\<lambda>a. snd (attr_remove a k)"]
  by (auto simp: remove_attribute_def Let_def node_core_rec_mut
      dest!: node_core_emit split: if_splits option.splits)

text \<open>On a reachable document \<open>get_element_by_id\<close> only answers with a live node that carries
  exactly the requested id in its \<open>id\<close> attribute.\<close>

theorem get_element_by_id_sound:
  assumes "dom_reach d" and "get_element_by_id d s = Some n"
  shows "live d n \<and> get_attribute d n ''id'' = Some s"
  using id_wf_index [OF dom_reach_id_wf [OF assms(1)], of s n] assms(2)
  by (auto simp: get_element_by_id_def live_def get_attribute_def)

lemma ci_examples: "eq_ignore_ascii_case ''ID'' ''id''" "eq_ignore_ascii_case ''Class'' ''class''"
  by code_simp+

definition demo_id_doc :: document where
  "demo_id_doc = the (dom_run demo_doc [OpSetAttribute (demo_node 2) ''ID'' ''a''])"

lemma demo_id_doc: "dom_reach demo_id_doc \<and> get_element_by_id demo_id_doc ''a'' = Some (demo_node 2)"
proof -
  obtain d' where d': "set_attribute demo_doc (demo_node 2) ''ID'' ''a'' = Some d'"
    using set_attribute_result [OF demo_wf] by blast
  have "dom_reach d'"
    using reach_step [OF demo_reach, of "OpSetAttribute (demo_node 2) ''ID'' ''a''" d'] d' demo_links
    by simp
  moreover have "d_id_index d' ''a'' = Some (demo_node 2)"
    using d' ci_examples(1) by (auto simp: set_attribute_def Let_def dest!: emit_index)
  ultimately show ?thesis by (simp add: demo_id_doc_def d' get_element_by_id_def)
qed

theorem get_element_by_id_sound_witness:
  "get_element_by_id demo_id_doc ''a'' = Some (demo_node 2) \<and>
   get_attribute demo_id_doc (demo_node 2) ''id'' = Some ''a''"
  using get_element_by_id_sound [of demo_id_doc "''a''" "demo_node 2"] demo_id_doc by blast

text \<open>Removing a child takes that child, and only that child, out of the id index: ids of the
  nodes below it keep answering although they have left the document.\<close>

theorem remove_child_index:
  assumes "dom_reach d" and "c \<in> set (children d p)"
  shows "\<exists>d'. remove_child d p c = Some (Inr c, d') \<and>
    (\<forall>s. get_element_by_id d' s =
       (if get_element_by_id d s = Some c then None else get_element_by_id d s))"
proof -
  have wf: "dom_wf d" and idw: "id_wf d"
    using assms(1) by (simp_all add: dom_reach_wf dom_reach_id_wf)
  obtain d' where r: "remove_child d p c = Some (Inr c, d')"
    using remove_child_result [OF wf assms(2)] by blast
  obtain i where i: "position (\<lambda>x. x = c) (children d p) = Some i"
    using assms(2) position_None [of "\<lambda>x. x = c" "children d p"]
    by (cases "position (\<lambda>x. x = c) (children d p)") auto
  let ?l = "set_parent (set_children d p (vec_remove i)) c None"
  have "d_id_index d' = d_id_index (unregister_id ?l c)"
    using r i by (auto simp: remove_child_def Let_def bind_eq_Some_conv emit_index split: option.splits)
  moreover have "d_id_index ?l = d_id_index d" by (simp add: set_parent_def set_children_def)
  ultimately show ?thesis
    using r idw by (auto simp: unregister_index get_element_by_id_def)
qed

theorem remove_child_index_witness:
  "\<exists>d'. remove_child demo_id_doc (demo_node 0) (demo_node 1) = Some (Inr (demo_node 1), d') \<and>
     get_element_by_id d' ''a'' = Some (demo_node 2)"
proof -
  have same: "children demo_id_doc = children demo_doc"
    using set_attribute_result [OF demo_wf, of "demo_node 2" "''ID''" "''a''"]
    by (auto simp: demo_id_doc_def same_links_def)
  have "demo_node 1 \<in> set (children demo_id_doc (demo_node 0))"
    using same demo_links(3) dom_wf_child [OF demo_wf] by simp
  from remove_child_index [OF conjunct1 [OF demo_id_doc] this] show ?thesis
    using demo_id_doc by auto
qed

text \<open>Attributes of live nodes behave as a map on case-folded names: setting and removing one
  changes exactly that name on exactly that node, and no other node, kind or link.\<close>

theorem attribute_update:
  assumes "dom_reach d" and "live d n"
  shows "\<exists>ds dr. set_attribute d n k v = Some ds \<and> remove_attribute d n k = Some dr \<and>
    same_links d ds \<and> same_links d dr \<and>
    (\<forall>m k'. get_attribute ds m k' =
       (if m = n \<and> eq_ignore_ascii_case k k' then Some v else get_attribute d m k')) \<and>
    (\<forall>m k'. get_attribute dr m k' =
       (if m = n \<and> eq_ignore_ascii_case k k' then None else get_attribute d m k')) \<and>
    node_kind_of ds = node_kind_of d \<and> node_kind_of dr = node_kind_of d"
proof -
  have wf: "dom_wf d" and idw: "id_wf d"
    using assms(1) by (simp_all add: dom_reach_wf dom_reach_id_wf)
  obtain ds where s: "set_attribute d n k v = Some ds" "same_links d ds"
    using set_attribute_result [OF wf] by blast
  obtain dr where r: "remove_attribute d n k = Some dr" "same_links d dr"
    using remove_attribute_result [OF wf] by blast
  obtain rc where rc: "dom_rec d n = Some rc" using live_rec [OF assms(2)] ..
  have aw: "attr_wf (nr_attrs rc)" using idw rc by (auto simp: id_wf_def)
  have kind: "node_kind_of x = (\<lambda>m. map_option fst (node_core x m))" for x
    by (simp add: node_kind_of_def node_core_def fun_eq_iff option.map_comp o_def)
  have nc: "node_core d n = Some (nr_kind rc, nr_attrs rc)" by (simp add: node_core_def rc)
  note cs = set_attribute_core [OF s(1)] and cr = remove_attribute_core [OF r(1)]
  have 1: "\<forall>m k'. get_attribute ds m k' =
      (if m = n \<and> eq_ignore_ascii_case k k' then Some v else get_attribute d m k')"
    by (simp add: get_attribute_core cs nc attr_set_get)
  have 2: "\<forall>m k'. get_attribute dr m k' =
      (if m = n \<and> eq_ignore_ascii_case k k' then None else get_attribute d m k')"
    by (simp add: get_attribute_core cr nc attr_remove_get [OF aw])
  have 3: "node_kind_of ds = node_kind_of d \<and> node_kind_of dr = node_kind_of d"
    by (simp add: kind cs cr fun_eq_iff option.map_comp o_def split_def)
  show ?thesis using s r 1 2 3 by blast
qed

theorem attribute_update_witness:
  "\<exists>ds. set_attribute demo_doc (demo_node 2) ''Class'' ''x'' = Some ds \<and>
     get_attribute ds (demo_node 2) ''class'' = Some ''x''"
  using attribute_update [OF demo_reach demo_links(8), of "''Class''" "''x''"] ci_examples(2) by metis

end
