(* ===== verification/Dom_Order.thy ===== *)
theory Dom_Order
  imports Dom_Index
begin

text \<open>
  Document order. The searches of \<^verbatim>\<open>crates/cv_dom/src/lib.rs\<close> walk the tree with an explicit
  stack, the text collection recurses: on a well-formed document both visit every node below their
  start exactly once, in pre-order.
\<close>

section \<open>Pre-order\<close>

inductive preorder :: "document \<Rightarrow> node_id \<Rightarrow> node_id list \<Rightarrow> bool" for d where
  preorder_node: "list_all2 (preorder d) (children d n) nss \<Longrightarrow> preorder d n (n # concat nss)"

lemma dom_wf_down: "dom_wf d \<Longrightarrow> wf (parent_rel (parent d))"
  using finite_acyclic_wf [OF dom_wf_finite] by (simp add: dom_wf_def links_wf_def)

lemma down_induct [consumes 1, case_names down]:
  assumes "dom_wf d" and "\<And>n. (\<And>c. c \<in> set (children d n) \<Longrightarrow> P c) \<Longrightarrow> P n"
  shows "P n"
  using dom_wf_down [OF assms(1)]
proof (induction n rule: wf_induct_rule)
  case (less n)
  show ?case
    by (rule assms(2)) (simp add: less dom_wf_child [OF assms(1)] parent_rel_def)
qed

lemma list_all2_choice: "(\<And>x. x \<in> set xs \<Longrightarrow> \<exists>y. R x y) \<Longrightarrow> \<exists>ys. list_all2 R xs ys"
proof (induction xs)
  case (Cons x xs)
  then obtain y ys where "R x y" "list_all2 R xs ys" by fastforce
  then show ?case by (intro exI [of _ "y # ys"]) simp
qed (auto intro: exI [of _ "[]"])

lemma preorder_exists: "dom_wf d \<Longrightarrow> \<exists>ns. preorder d n ns"
proof (induction n rule: down_induct)
  case (down n)
  then obtain nss where "list_all2 (preorder d) (children d n) nss"
    using list_all2_choice [of "children d n" "preorder d"] by auto
  then show ?case by (blast intro: preorder_node)
qed

inductive_cases preorder_elim: "preorder d n ns"

lemma below_trans: "below par a b \<Longrightarrow> below par b c \<Longrightarrow> below par a c"
  by (simp add: below_def)

lemma below_child_iff:
  assumes "dom_wf d"
  shows "below (parent d) n m \<longleftrightarrow> m = n \<or> (\<exists>c \<in> set (children d n). below (parent d) c m)"
proof
  assume "below (parent d) n m"
  then show "m = n \<or> (\<exists>c \<in> set (children d n). below (parent d) c m)"
    using rtranclE [of m n "parent_rel (parent d)"] dom_wf_child [OF assms]
    by (auto simp: below_def parent_rel_def)
next
  assume "m = n \<or> (\<exists>c \<in> set (children d n). below (parent d) c m)"
  then show "below (parent d) n m"
    using dom_wf_child [OF assms, of _ n]
    by (auto simp: below_def parent_rel_def intro: rtrancl_into_rtrancl)
qed

lemma below_comparable:
  assumes "below par a m" and "below par b m"
  shows "below par a b \<or> below par b a"
  using assms(1)[unfolded below_def] assms(2)
proof (induction rule: converse_rtrancl_induct)
  case base
  then show ?case by simp
next
  case (step y z)
  show ?case
  proof (cases "y = b")
    case True
    have "below par a y"
      using step(1,2) by (simp add: below_def converse_rtrancl_into_rtrancl)
    then show ?thesis using True by simp
  next
    case False
    then have "below par b z"
      using step(1,4) below_step [of par b y] by (auto simp: parent_rel_def)
    then show ?thesis using step(3) by simp
  qed
qed

lemma below_antisym: "dom_wf d \<Longrightarrow> below (parent d) a b \<Longrightarrow> below (parent d) b a \<Longrightarrow> a = b"
  by (auto simp: below_def dom_wf_def links_wf_def dest: acyclic_impl_antisym_rtrancl antisymD)

lemma siblings_disjoint:
  assumes "dom_wf d" and "a \<in> set (children d n)" and "b \<in> set (children d n)" and "a \<noteq> b"
  shows "\<not> (below (parent d) a m \<and> below (parent d) b m)"
proof
  assume *: "below (parent d) a m \<and> below (parent d) b m"
  have par: "parent d a = Some n" "parent d b = Some n"
    using assms(2,3) dom_wf_child [OF assms(1)] by auto
  have no: "\<not> below (parent d) x y" if "x \<noteq> y" "parent d x = Some n" "parent d y = Some n" for x y
  proof
    assume "below (parent d) x y"
    then have "below (parent d) x n" using that below_step [of "parent d" x y] by auto
    moreover have "below (parent d) n x" using that(2) below_step [of "parent d" n x] by auto
    ultimately have "x = n" using below_antisym [OF assms(1)] by blast
    then have "(n, n) \<in> parent_rel (parent d)" using that(2) by (simp add: parent_rel_def)
    then show False using assms(1) by (auto simp: dom_wf_def links_wf_def acyclic_def)
  qed
  show False using below_comparable [of "parent d" a m b] * no par assms(4) by metis
qed

lemma concat_disjoint:
  assumes "list_all2 (\<lambda>c ns. set ns = S c \<and> distinct ns) cs nss" and "distinct cs"
    and "\<And>a b. a \<in> set cs \<Longrightarrow> b \<in> set cs \<Longrightarrow> a \<noteq> b \<Longrightarrow> S a \<inter> S b = {}"
  shows "set (concat nss) = \<Union> (S ` set cs) \<and> distinct (concat nss)"
  using assms
proof (induction rule: list_all2_induct)
  case (Cons c cs ns nss)
  have IH: "set (concat nss) = \<Union> (S ` set cs) \<and> distinct (concat nss)"
    using Cons by simp
  have "S c \<inter> S b = {}" if "b \<in> set cs" for b
    using Cons.prems that by (metis distinct.simps(2) list.set_intros)
  then show ?case using IH Cons.hyps(1) by auto
qed simp

lemma preorder_facts:
  assumes "dom_wf d" and "preorder d n ns"
  shows "set ns = {m. below (parent d) n m} \<and> distinct ns"
  using assms(2)
proof (induction rule: preorder.induct)
  case (preorder_node n nss)
  let ?cs = "children d n"
  have "list_all2 (\<lambda>c ns. set ns = {m. below (parent d) c m} \<and> distinct ns) ?cs nss"
    using preorder_node by (rule list_all2_mono) simp
  then have cc: "set (concat nss) = (\<Union>c \<in> set ?cs. {m. below (parent d) c m}) \<and> distinct (concat nss)"
  proof (rule concat_disjoint)
    show "distinct ?cs" using assms(1) by (rule dom_wf_distinct)
    show "{m. below (parent d) a m} \<inter> {m. below (parent d) b m} = {}"
      if "a \<in> set ?cs" "b \<in> set ?cs" "a \<noteq> b" for a b
      using siblings_disjoint [OF assms(1) that] by auto
  qed
  then have set: "set (n # concat nss) = {m. below (parent d) n m}"
    using below_child_iff [OF assms(1), of n] by auto
  have "n \<notin> set (concat nss)"
  proof
    assume "n \<in> set (concat nss)"
    then obtain c where c: "c \<in> set ?cs" "below (parent d) c n" using cc by auto
    then have "below (parent d) n c"
      using below_child_iff [OF assms(1), of n c] below_refl [of "parent d" c] by blast
    then have "c = n" using c(2) below_antisym [OF assms(1)] by blast
    then have "(n, n) \<in> parent_rel (parent d)"
      using c(1) dom_wf_child [OF assms(1), of n n] by (simp add: parent_rel_def)
    then show False using assms(1) by (auto simp: dom_wf_def links_wf_def acyclic_def)
  qed
  then have "distinct (n # concat nss)" using cc by (metis distinct.simps(2))
  with set show ?case by blast
qed

section \<open>The walks\<close>

lemma children_are_live: "dom_wf d \<Longrightarrow> c \<in> set (children d n) \<Longrightarrow> live d c"
  using dom_wf_child parent_live by blast

definition visit :: "document \<Rightarrow> (node_id \<Rightarrow> node_record \<Rightarrow> 'a \<Rightarrow> 'a) \<Rightarrow> node_id list \<Rightarrow> 'a \<Rightarrow> 'a" where
  "visit d f ns acc = fold (\<lambda>n. f n (the (dom_rec d n))) ns acc"

lemma walk_pre_list:
  "list_all2 (\<lambda>n ns. \<forall>rest acc. walk_pre d (n # rest) f acc = walk_pre d rest f (visit d f ns acc)) cs nss \<Longrightarrow>
   walk_pre d (cs @ rest) f acc = walk_pre d rest f (visit d f (concat nss) acc)"
  by (induction arbitrary: acc rule: list_all2_induct) (auto simp: visit_def)

lemma walk_pre_preorder:
  assumes "dom_wf d" and "preorder d n ns" and "live d n"
  shows "walk_pre d (n # rest) f acc = walk_pre d rest f (visit d f ns acc)"
  using assms(2,3)
proof (induction arbitrary: rest acc rule: preorder.induct)
  case (preorder_node n nss)
  obtain r where r: "dom_rec d n = Some r" using live_rec [OF preorder_node(2)] ..
  then have kids: "nr_children r = children d n" by (simp add: children_def)
  have "list_all2 (\<lambda>n ns. \<forall>rest acc. walk_pre d (n # rest) f acc = walk_pre d rest f (visit d f ns acc))
      (children d n) nss"
    using preorder_node(1) by (rule list.rel_mono_strong) (use children_are_live [OF assms(1)] in auto)
  note * = walk_pre_list [OF this]
  show ?case
    by (subst walk_pre.simps) (simp add: r kids * visit_def)
qed

lemma walk_pre_root:
  assumes "dom_wf d" and "preorder d n ns" and "live d n"
  shows "walk_pre d [n] f acc = Some (visit d f ns acc)"
  by (simp add: walk_pre_preorder [OF assms] walk_pre.simps [of d "[]"])

lemma fold_filter_append:
  "fold (\<lambda>n out. if P n then out @ [n] else out) ns acc = acc @ filter P ns"
  by (induction ns arbitrary: acc) auto

definition tag_matches :: "document \<Rightarrow> string \<Rightarrow> node_id \<Rightarrow> bool" where
  "tag_matches d tag n \<longleftrightarrow>
     (case node_kind_of d n of
        Some (Element t _) \<Rightarrow> tag = ''*'' \<or> eq_ignore_ascii_case t tag
      | _ \<Rightarrow> False)"

lemma to_ascii_lowercase_idem [simp]: "to_ascii_lowercase (to_ascii_lowercase s) = to_ascii_lowercase s"
proof -
  have "ascii_lower (ascii_lower c) = ascii_lower c" for c
    by (auto simp: ascii_lower_def Let_def)
  then show ?thesis by (simp add: to_ascii_lowercase_def)
qed

lemma fold_cong_set: "(\<And>x a. x \<in> set xs \<Longrightarrow> f x a = g x a) \<Longrightarrow> fold f xs a = fold g xs a"
  by (induction xs arbitrary: a) auto

lemma below_live:
  assumes "dom_wf d" and "below (parent d) n m" and "live d n"
  shows "live d m"
  using assms(2,3) below_step [of "parent d" n m] parent_live by blast

section \<open>Text\<close>

lemma collect_text_eval:
  "collect_text d [] out = Some out"
  "collect_text d (n # rest) out =
     Option.bind
       (case dom_rec d n of
          None \<Rightarrow> Some out
        | Some r \<Rightarrow>
            (case nr_kind r of
               Text s \<Rightarrow> Some (out @ s)
             | CDataSection s \<Rightarrow> Some (out @ s)
             | _ \<Rightarrow> collect_text d (nr_children r) out))
       (collect_text d rest)"
  by (subst collect_text.simps, simp)+

lemma collect_text_returns:
  assumes "dom_wf d"
  shows "\<exists>out'. collect_text d [n] out = Some out'"
  using assms
proof (induction n arbitrary: out rule: down_induct)
  case (down n)
  have list: "\<exists>out'. collect_text d cs out = Some out'" if "set cs \<subseteq> set (children d n)" for cs out
    using that
  proof (induction cs arbitrary: out)
    case (Cons c cs)
    obtain o1 where o1: "collect_text d [c] out = Some o1" using down [of c out] Cons.prems by auto
    have "collect_text d (c # cs) out = Option.bind (collect_text d [c] out) (collect_text d cs)"
      by (simp add: collect_text_eval)
    then show ?case using Cons o1 by simp
  qed (simp add: collect_text_eval)
  show ?case
  proof (cases "dom_rec d n")
    case (Some r)
    then have "nr_children r = children d n" by (simp add: children_def)
    then show ?thesis
      using Some list [of "children d n" out]
      by (auto simp: collect_text_eval split: node_kind.split)
  qed (simp add: collect_text_eval)
qed

lemma has_room_rec_mut [simp]: "has_room (rec_mut d n f) = has_room d"
  by (simp add: has_room_def rec_mut_def slab_get_mut_def split: option.split slot.split)

lemma has_room_upd [simp]:
  "has_room (d\<lparr>d_id_index := i\<rparr>) = has_room d" "has_room (d\<lparr>d_obs := ob\<rparr>) = has_room d"
  by (simp_all add: has_room_def)

lemma has_room_unregister [simp]: "has_room (unregister_id d n) = has_room d"
  by (simp add: unregister_id_def unindex_def split: option.split)

lemma remove_child_room: "remove_child d p c = Some (x, d') \<Longrightarrow> has_room d' = has_room d"
  by (auto simp: remove_child_def Let_def bind_eq_Some_conv emit_Some set_parent_def set_children_def
      split: option.splits)

lemma remove_each_all:
  assumes "dom_wf d" and "live d n" and "rest = children d n"
  shows "\<exists>d'. remove_each d n rest = Some d' \<and> dom_wf d' \<and> live d' = live d \<and>
     node_core d' = node_core d \<and> children d' n = [] \<and> has_room d' = has_room d"
  using assms
proof (induction rest arbitrary: d)
  case Nil
  then show ?case by simp
next
  case (Cons c rest)
  have c: "c \<in> set (children d n)" using Cons.prems(3) [symmetric] by simp
  obtain d1 where d1: "remove_child d n c = Some (Inr c, d1)" "dom_wf d1" "live d1 = live d"
    "children d1 n = filter (\<lambda>x. x \<noteq> c) (children d n)"
    using remove_child_result [OF Cons.prems(1) c] by auto
  have "distinct (c # rest)" using dom_wf_distinct [OF Cons.prems(1), of n] Cons.prems(3) by simp
  then have "filter (\<lambda>x. x \<noteq> c) rest = rest" by (intro filter_True) auto
  then have "rest = children d1 n" using d1(4) Cons.prems(3) [symmetric] by simp
  then obtain d' where "remove_each d1 n rest = Some d'" "dom_wf d'" "live d' = live d1"
    "node_core d' = node_core d1" "children d' n = []" "has_room d' = has_room d1"
    using Cons.IH [of d1] d1 Cons.prems(2) by auto
  then show ?case using d1 remove_child_core [OF d1(1)] remove_child_room [OF d1(1)] by auto
qed

lemma text_content_node:
  assumes "node_core d n = Some (k, a)"
  shows "text_content d n =
    (case k of Text s \<Rightarrow> Some s | CDataSection s \<Rightarrow> Some s | _ \<Rightarrow> collect_text d (children d n) [])"
proof -
  obtain r where r: "dom_rec d n = Some r" "nr_kind r = k" using assms by (auto simp: node_core_def)
  then have "children d n = nr_children r" by (simp add: children_def)
  moreover have "collect_text d [] = Some" by (simp add: collect_text_eval fun_eq_iff)
  ultimately show ?thesis using r
    by (auto simp: text_content_def collect_text_eval(2) split: node_kind.split)
qed

lemma append_fresh_text:
  assumes "dom_wf d" and "live d n" and "children d n = []" and "create_text_node d s = Some (tn, d1)"
  shows "\<exists>d'. append_child d1 n tn = Some (Inr tn, d') \<and> dom_wf d' \<and> children d' n = [tn] \<and>
    node_core d' = (node_core d)(tn \<mapsto> (Text s, []))"
proof -
  have al: "dom_alloc d (Text s) = Some (tn, d1)" using assms(4) by (simp add: create_text_node_def)
  have inv: "slab_inv (d_slab d)" using assms(1) by (simp add: dom_wf_def)
  note res = dom_alloc_result [OF assms(1) al] and rc = dom_alloc_rec [OF inv al]
  have ne: "n \<noteq> tn" using res(5) assms(2) by auto
  have lv: "live d1 n" "live d1 tn" using res(4) assms(2) by simp_all
  have nb: "\<not> below (parent d1) tn n"
    using below_child_iff [OF res(1), of tn n] res(3,7) ne by simp
  obtain d' where d': "append_child d1 n tn = Some (Inr tn, d')" "dom_wf d'"
    "children d' = (let k = unlink_kids (parent d1) (children d1) tn in k(n := k n @ [tn]))"
    using append_child_result [OF res(1) lv] nb by auto
  have "children d' n = [tn]"
    using d'(3) res(2,3,6) assms(3) by (simp add: unlink_kids_def Let_def)
  moreover have "node_core d1 = (node_core d)(tn \<mapsto> (Text s, []))"
    by (simp add: node_core_def rc(1) fresh_record_def fun_eq_iff)
  ultimately show ?thesis using d' append_child_core [OF d'(1)] by auto
qed

section \<open>Properties\<close>

text \<open>C36: \<open>get_elements_by_tag_name\<close> returns: it lists, each once and in document order, exactly the
  elements below the root whose tag matches up to ASCII case (all of them for \<open>*\<close>).\<close>

theorem tag_search_document_order:
  assumes "dom_wf d" and "d_root d = Some root" and "live d root"
  shows "\<exists>ns. preorder d root ns \<and> distinct ns \<and> set ns = {n. below (parent d) root n} \<and>
    get_elements_by_tag_name d tag = Some (filter (tag_matches d tag) ns)"
proof -
  obtain ns where ns: "preorder d root ns" using preorder_exists [OF assms(1)] by blast
  note facts = preorder_facts [OF assms(1) ns]
  let ?f = "\<lambda>n r out. case nr_kind r of
      Element t _ \<Rightarrow> if tag = ''*'' \<or> eq_ignore_ascii_case t (to_ascii_lowercase tag) then out @ [n] else out
    | _ \<Rightarrow> out"
  have "?f n (the (dom_rec d n)) out = (if tag_matches d tag n then out @ [n] else out)"
    if "n \<in> set ns" for n out
  proof -
    have "live d n" using facts that below_live [OF assms(1) _ assms(3)] by blast
    then obtain r where "dom_rec d n = Some r" by (auto dest: live_rec)
    then show ?thesis
      by (auto simp: tag_matches_def node_kind_of_def eq_ignore_ascii_case_def split: node_kind.split)
  qed
  then have "visit d ?f ns [] = [] @ filter (tag_matches d tag) ns"
    unfolding visit_def fold_filter_append [symmetric] by (rule fold_cong_set)
  then have "get_elements_by_tag_name d tag = Some (filter (tag_matches d tag) ns)"
    using walk_pre_root [OF assms(1) ns assms(3), of ?f "[]"] assms(2)
    by (simp add: get_elements_by_tag_name_def)
  then show ?thesis using ns facts by blast
qed

theorem tag_search_document_order_witness:
  "\<exists>ns. distinct ns \<and> set ns = {n. below (parent demo_doc) (demo_node 0) n} \<and>
     get_elements_by_tag_name demo_doc ''li'' = Some (filter (tag_matches demo_doc ''li'') ns)"
proof -
  have "d_root demo_doc = Some (demo_node 0)" by (simp add: demo_doc_eval)
  moreover have "live demo_doc (demo_node 0)"
    using demo_links(3) dom_wf_child [OF demo_wf] children_live by blast
  ultimately show ?thesis using tag_search_document_order [OF demo_wf, of "demo_node 0" "''li''"] by blast
qed

text \<open>On a well-formed document \<open>text_content\<close> always returns, and after \<open>set_text_content\<close> on a
  live node that is not itself a text or CDATA node, the text content is the text that was set.\<close>

theorem text_content_roundtrip:
  assumes "dom_wf d" and "live d n" and "has_room d"
    and "\<forall>s. node_kind_of d n \<noteq> Some (Text s) \<and> node_kind_of d n \<noteq> Some (CDataSection s)"
  shows "\<exists>d'. set_text_content d n text = Some d' \<and> dom_wf d' \<and> text_content d' n = Some text \<and>
    (\<forall>m. \<exists>t. text_content d' m = Some t)"
proof -
  obtain d1 where d1: "remove_each d n (children d n) = Some d1" "dom_wf d1" "live d1 = live d"
    "node_core d1 = node_core d" "children d1 n = []" "has_room d1 = has_room d"
    using remove_each_all [OF assms(1,2) refl] by blast
  obtain k a where k: "node_core d n = Some (k, a)" using live_rec [OF assms(2)] by (auto simp: node_core_def)
  then have "node_kind_of d n = Some k" by (auto simp: node_core_def node_kind_of_def)
  then have hk: "(case k of Text s \<Rightarrow> x s | CDataSection s \<Rightarrow> y s | _ \<Rightarrow> z) = z"
    for x y and z :: "string option" using assms(4) by (auto split: node_kind.split)
  show ?thesis
  proof (cases "text = []")
    case True
    then show ?thesis
      using d1 text_content_node [of d1 n k a] k hk collect_text_returns [OF d1(2)]
      by (simp add: set_text_content_def collect_text_eval text_content_def)
  next
    case False
    obtain tn d2 where c: "create_text_node d1 text = Some (tn, d2)"
      using dom_alloc_total [of d1 "Text text"] d1(2,6) assms(3)
      by (auto simp: create_text_node_def dom_wf_def)
    obtain d3 where d3: "append_child d2 n tn = Some (Inr tn, d3)" "dom_wf d3" "children d3 n = [tn]"
      "node_core d3 = (node_core d1)(tn \<mapsto> (Text text, []))"
      using append_fresh_text [OF d1(2) _ d1(5) c] d1(3) assms(2) by auto
    have "\<not> live d1 tn"
      using dom_alloc_result(5) [OF d1(2)] c by (simp add: create_text_node_def)
    then have "tn \<noteq> n" using d1(3) assms(2) by auto
    then have "text_content d3 n = collect_text d3 [tn] []"
      using text_content_node [of d3 n k a] d3 d1(4) k hk by simp
    also have "\<dots> = Some text"
      using text_content_node [of d3 tn "Text text" "[]"] d3(4) by (simp add: text_content_def)
    finally show ?thesis
      using d1(1) c d3(1,2) False collect_text_returns [OF d3(2)]
      by (auto simp: set_text_content_def text_content_def)
  qed
qed

theorem text_content_roundtrip_witness:
  "\<exists>d'. set_text_content demo_doc (demo_node 1) ''hello'' = Some d' \<and>
     text_content d' (demo_node 1) = Some ''hello''"
proof -
  have "has_room demo_doc" by (simp add: demo_doc_eval has_room_def)
  moreover have "node_kind_of demo_doc (demo_node 1) = Some (Element ''ul'' None)"
    by (simp add: node_kind_of_def demo_doc_eval dom_eval) (simp add: demo_node_def)
  ultimately show ?thesis
    using text_content_roundtrip [OF demo_wf demo_links(7), of "''hello''"] by auto
qed

end
