(* ===== verification/Dom_Stage.thy ===== *)
theory Dom_Stage
  imports Dom_Index
begin

text \<open>
  The invalidation lattice (\<^verbatim>\<open>crates/cv_dom/src/invalidation.rs\<close>, \<open>Document::mark\<close>) and the mutation
  observers (\<^verbatim>\<open>mutation.rs\<close>, \<open>Document::emit_mutation\<close>): what a mark changes, when the documented
  invariant holds, which records an observer receives.
\<close>

section \<open>Stage masks\<close>

lemma stage_is_set_bit: "stage_is_set m (2 ^ k) \<longleftrightarrow> bit m k"
  using bit_iff_and_push_bit_not_eq_0 [of m k] by (simp add: stage_is_set_def)

lemma stage_insert_bit: "stage_insert m (2 ^ k) = set_bit k m"
  using set_bit_eq_or [of k m] by (simp add: stage_insert_def)

lemma stage_insert_idem: "stage_is_set m (2 ^ k) \<Longrightarrow> stage_insert m (2 ^ k) = m"
  by (rule bit_word_eqI) (auto simp: stage_is_set_bit stage_insert_bit bit_set_bit_iff simp del: bit_nat_iff)

lemma stage_is_set_insert:
  "stage_is_set (stage_insert m x) y \<longleftrightarrow> stage_is_set m y \<or> stage_is_set x y"
proof -
  have "(m OR x) AND y = (m AND y) OR (x AND y)" by (simp add: bit.conj_disj_distrib2)
  moreover have "a OR b = 0 \<longleftrightarrow> a = 0 \<and> b = 0" for a b :: u8
    by (auto simp: bit_eq_iff bit_or_iff)
  ultimately show ?thesis by (simp add: stage_is_set_def stage_insert_def)
qed

lemma child_bit_cases:
  assumes "child_bit_for b = Some cb"
  obtains k where "k < 3" "b = 2 ^ k" "cb = 2 ^ (k + 3)"
proof -
  have "(b, cb) \<in> {(1, 8), (2, 16), (4, 32)}"
    using assms by (auto simp: child_bit_for_def NEEDS_STYLE_def NEEDS_LAYOUT_def NEEDS_PAINT_def
        CHILD_NEEDS_STYLE_def CHILD_NEEDS_LAYOUT_def CHILD_NEEDS_PAINT_def split: if_splits)
  then show ?thesis
    using that [of 0] that [of 1] that [of 2] by auto
qed

lemma child_bit_facts:
  assumes "child_bit_for b = Some cb"
  shows "stage_is_set b b" "stage_is_set cb cb" "\<not> stage_is_set b cb" "\<not> stage_is_set cb b"
    "stage_is_set m cb \<Longrightarrow> stage_insert m cb = m"
proof -
  obtain k where k: "k < 3" "b = 2 ^ k" "cb = 2 ^ (k + 3)"
    using assms by (rule child_bit_cases)
  show "stage_is_set b b" "stage_is_set cb cb" "\<not> stage_is_set b cb" "\<not> stage_is_set cb b"
    using k(1) by (auto simp: k(2,3) stage_is_set_bit bit_exp_iff)
  show "stage_is_set m cb \<Longrightarrow> stage_insert m cb = m"
    by (simp add: k(3) stage_insert_idem)
qed

section \<open>Marking\<close>

definition stage_set :: "document \<Rightarrow> node_id \<Rightarrow> u8 \<Rightarrow> bool" where
  "stage_set d n b \<longleftrightarrow> (case dom_rec d n of None \<Rightarrow> False | Some r \<Rightarrow> stage_is_set (nr_stage r) b)"

definition stage_closed :: "document \<Rightarrow> u8 \<Rightarrow> u8 \<Rightarrow> bool" where
  "stage_closed d b cb \<longleftrightarrow>
     (\<forall>m q. parent d m = Some q \<longrightarrow> stage_set d m b \<or> stage_set d m cb \<longrightarrow> stage_set d q cb)"

definition insert_stage :: "u8 \<Rightarrow> node_record \<Rightarrow> node_record" where
  "insert_stage b r = r\<lparr>nr_stage := stage_insert (nr_stage r) b\<rparr>"

lemma insert_stage_eq: "insert_stage b = (\<lambda>r. r\<lparr>nr_stage := stage_insert (nr_stage r) b\<rparr>)"
  by (simp add: insert_stage_def fun_eq_iff)

lemma mark_up_eval:
  "mark_up d None cb = Some d"
  "mark_up d (Some p) cb =
     (case dom_rec d p of
        None \<Rightarrow> Some d
      | Some r \<Rightarrow>
          if stage_is_set (nr_stage r) cb then Some d
          else mark_up (rec_mut d p (insert_stage cb)) (parent (rec_mut d p (insert_stage cb)) p) cb)"
  by (subst mark_up.simps, simp add: insert_stage_eq Let_def cong: if_cong option.case_cong)+

lemma same_links_stage [simp]: "same_links d (rec_mut d p (insert_stage b))"
  by (rule same_links_rec_mut) (simp add: insert_stage_def)

lemma ancestors_set:
  assumes "dom_wf d" and "\<And>m q. below (parent d) m p \<Longrightarrow> parent d m = Some q \<Longrightarrow> stage_set d m cb \<Longrightarrow> stage_set d q cb"
    and "stage_set d p cb" and "below (parent d) m p"
  shows "stage_set d m cb"
  using assms(4)[unfolded below_def]
proof (induction rule: rtrancl_induct)
  case base
  show ?case by (rule assms(3))
next
  case (step y z)
  then show ?case using assms(2) [of y z] by (simp add: below_def parent_rel_def)
qed

lemma mark_up_result:
  assumes "dom_wf d0" and "child_bit_for b = Some cb" and "live d0 p" and "same_links d0 d"
    and "\<And>m q. below (parent d0) m p \<Longrightarrow> parent d0 m = Some q \<Longrightarrow> stage_set d m cb \<Longrightarrow> stage_set d q cb"
  shows "\<exists>d'. mark_up d (Some p) cb = Some d' \<and> same_links d d' \<and>
    (\<forall>m. dom_rec d' m = (if below (parent d0) m p then map_option (insert_stage cb) (dom_rec d m) else dom_rec d m))"
  using assms(1,3-)
proof (induction p arbitrary: d rule: up_induct)
  case (up p)
  note bits = child_bit_facts [OF assms(2)]
  have par: "parent d = parent d0" and lv: "live d = live d0" using same_linksD [OF up.prems(2)] by auto
  obtain r where r: "dom_rec d p = Some r" using live_rec [of d p] up.prems(1) lv by auto
  have wfd: "dom_wf d" using assms(1) up.prems(2) by (rule dom_wf_same_links)
  have noop: "insert_stage cb x = x" if "stage_is_set (nr_stage x) cb" for x
    using bits(5) [OF that] by (simp add: insert_stage_def)
  show ?case
  proof (cases "stage_is_set (nr_stage r) cb")
    case True
    then have sp: "stage_set d p cb" by (simp add: stage_set_def r)
    have "map_option (insert_stage cb) (dom_rec d m) = dom_rec d m" if "below (parent d0) m p" for m
      using ancestors_set [OF wfd _ sp, of m] up.prems(3) that noop
      by (auto simp: par stage_set_def split: option.splits)
    then show ?thesis using True r by (auto simp: mark_up_eval)
  next
    case False
    let ?d = "rec_mut d p (insert_stage cb)"
    have sl: "same_links d0 ?d" using same_links_trans [OF up.prems(2) same_links_stage] .
    have step: "mark_up d (Some p) cb = mark_up ?d (parent d0 p) cb"
      using r False same_linksD(1) [OF sl] by (simp add: mark_up_eval)
    show ?thesis
    proof (cases "parent d0 p")
      case None
      have "below (parent d0) m p \<longleftrightarrow> m = p" for m using below_step [of "parent d0" m p] None by auto
      then show ?thesis using step None by (auto simp: mark_up_eval dom_rec_mut)
    next
      case (Some q)
      have pq: "\<not> below (parent d0) p q"
      proof
        assume "below (parent d0) p q"
        then have "(p, p) \<in> (parent_rel (parent d0))\<^sup>+"
          using Some by (auto simp: below_def parent_rel_def intro: rtrancl_into_trancl2)
        then show False using assms(1) by (simp add: dom_wf_def links_wf_def acyclic_def)
      qed
      have ss: "stage_set ?d m cb = (m = p \<or> stage_set d m cb)" for m
        using r up.prems(1) lv bits(2)
        by (auto simp: stage_set_def dom_rec_mut insert_stage_def stage_is_set_insert live_def)
      have lq: "live d0 q" using Some dom_wf_child [OF assms(1)] children_live by blast
      have cl: "stage_set ?d z cb" if "below (parent d0) m q" "parent d0 m = Some z" "stage_set ?d m cb" for m z
      proof -
        have "m \<noteq> p" using that(1) pq by auto
        then have "stage_set d m cb" using that(3) ss by simp
        moreover have "below (parent d0) m p" using that(1) Some below_step [of "parent d0" m p] by blast
        ultimately show ?thesis using up.prems(3) that(2) ss by blast
      qed
      obtain d' where d': "mark_up ?d (Some q) cb = Some d'" "same_links ?d d'"
        "\<forall>m. dom_rec d' m = (if below (parent d0) m q then map_option (insert_stage cb) (dom_rec ?d m) else dom_rec ?d m)"
        using up.IH [OF Some lq sl] cl by blast
      have "dom_rec d' m = (if below (parent d0) m p then map_option (insert_stage cb) (dom_rec d m) else dom_rec d m)" for m
        using d'(3) pq below_step [of "parent d0" m p] Some by (auto simp: dom_rec_mut)
      moreover have "same_links d d'" using same_links_trans [OF same_links_stage d'(2)] .
      ultimately show ?thesis using d'(1) step Some by auto
    qed
  qed
qed

lemma mark_result:
  assumes "dom_wf d" and "child_bit_for b = Some cb" and "live d n" and "stage_closed d b cb"
  shows "\<exists>d'. mark d n b = Some d' \<and> same_links d d' \<and>
    (\<forall>m. dom_rec d' m =
       map_option (\<lambda>r. r\<lparr>nr_stage :=
         (if m = n then (if stage_set d n b then nr_stage r else stage_insert (nr_stage r) b)
          else if below (parent d) m n then stage_insert (nr_stage r) cb else nr_stage r)\<rparr>) (dom_rec d m))"
proof -
  note bits = child_bit_facts [OF assms(2)]
  obtain r where r: "dom_rec d n = Some r" using live_rec [OF assms(3)] ..
  have chain: "stage_set d m cb" if "below (parent d) m q" "parent d n = Some q" "stage_set d n b" for m q
    using ancestors_set [OF assms(1) _ _ that(1), of cb] that(2,3) assms(4)
    by (auto simp: stage_closed_def)
  have noop: "stage_insert (nr_stage x) cb = nr_stage x" if "stage_set d m cb" "dom_rec d m = Some x" for m x
    using that bits(5) by (simp add: stage_set_def)
  have anc: "below (parent d) m n \<longleftrightarrow> m = n \<or> (\<exists>q. parent d n = Some q \<and> below (parent d) m q)" for m
    using below_step [of "parent d" m n] by auto
  show ?thesis
  proof (cases "stage_set d n b")
    case True
    then have "mark d n b = Some d" using r by (simp add: mark_def stage_set_def)
    moreover have "dom_rec d m = map_option (\<lambda>r. r\<lparr>nr_stage :=
         (if m = n then (if stage_set d n b then nr_stage r else stage_insert (nr_stage r) b)
          else if below (parent d) m n then stage_insert (nr_stage r) cb else nr_stage r)\<rparr>) (dom_rec d m)" for m
    proof (cases "dom_rec d m")
      case x: (Some x)
      have "stage_insert (nr_stage x) cb = nr_stage x" if "m \<noteq> n" "below (parent d) m n"
        using chain [OF _ _ True] noop [OF _ x] anc [of m] that by blast
      then show ?thesis using x True by simp
    qed simp
    ultimately show ?thesis using same_links_refl by blast
  next
    case False
    let ?d = "rec_mut d n (insert_stage b)"
    have sl: "same_links d ?d" by simp
    have m: "mark d n b = mark_up ?d (parent d n) cb"
      using False r assms(2) same_linksD(1) [OF sl]
      by (simp add: mark_def stage_set_def Let_def insert_stage_eq)
    show ?thesis
    proof (cases "parent d n")
      case None
      then show ?thesis using m sl False anc
        by (auto simp: mark_up_eval dom_rec_mut insert_stage_eq option.map_ident_strong [symmetric] split: option.split)
    next
      case (Some q)
      have lq: "live d q" using Some dom_wf_child [OF assms(1)] children_live by blast
      have nq: "\<not> below (parent d) n q"
      proof
        assume "below (parent d) n q"
        then have "(n, n) \<in> (parent_rel (parent d))\<^sup>+"
          using Some by (auto simp: below_def parent_rel_def intro: rtrancl_into_trancl2)
        then show False using assms(1) by (simp add: dom_wf_def links_wf_def acyclic_def)
      qed
      have ss: "stage_set ?d m cb = stage_set d m cb" for m
        using r bits(3) by (auto simp: stage_set_def dom_rec_mut insert_stage_def stage_is_set_insert)
      have "stage_set ?d z cb" if "parent d m = Some z" "stage_set ?d m cb" for m z
        using that assms(4) by (auto simp: ss stage_closed_def)
      then obtain d' where d': "mark_up ?d (Some q) cb = Some d'" "same_links ?d d'"
        "\<forall>m. dom_rec d' m = (if below (parent d) m q then map_option (insert_stage cb) (dom_rec ?d m) else dom_rec ?d m)"
        using mark_up_result [OF assms(1,2) lq sl] by blast
      have "dom_rec d' m =
       map_option (\<lambda>r. r\<lparr>nr_stage :=
         (if m = n then (if stage_set d n b then nr_stage r else stage_insert (nr_stage r) b)
          else if below (parent d) m n then stage_insert (nr_stage r) cb else nr_stage r)\<rparr>) (dom_rec d m)" for m
        using d'(3) nq anc [of m] Some False
        by (cases "dom_rec d m") (auto simp: dom_rec_mut insert_stage_def)
      moreover have "mark d n b = Some d'" using m Some d'(1) by simp
      ultimately show ?thesis using same_links_trans [OF sl d'(2)] by blast
    qed
  qed
qed

lemma stage_set_alt:
  "stage_set d n b = (case map_option nr_stage (dom_rec d n) of None \<Rightarrow> False | Some s \<Rightarrow> stage_is_set s b)"
  by (simp add: stage_set_def split: option.split)

definition node_stage :: "document \<Rightarrow> node_id \<Rightarrow> stage_mask option" where
  "node_stage d n = map_option nr_stage (dom_rec d n)"

lemma node_stage_rec_mut: "(\<And>r. nr_stage (f r) = nr_stage r) \<Longrightarrow> node_stage (rec_mut d n f) = node_stage d"
  by (auto simp: node_stage_def dom_rec_mut fun_eq_iff option.map_comp o_def)

lemma node_stage_upd [simp]:
  "node_stage (d\<lparr>d_id_index := i\<rparr>) = node_stage d" "node_stage (d\<lparr>d_obs := ob\<rparr>) = node_stage d"
  by (simp_all add: node_stage_def fun_eq_iff)

lemma node_stage_keep [simp]:
  "node_stage (set_parent d n p) = node_stage d" "node_stage (set_children d n f) = node_stage d"
  "node_stage (unregister_id d n) = node_stage d" "node_stage (maybe_register_id d n) = node_stage d"
  by (simp_all add: node_stage_rec_mut set_parent_def set_children_def unregister_id_def unindex_def
      maybe_register_id_def Let_def split: option.split)

lemma node_stage_detach [simp]: "node_stage (detach d n) = node_stage d"
  by (simp add: detach_def node_stage_rec_mut split: option.split)

lemma append_child_stage: "append_child d p n = Some (x, d') \<Longrightarrow> node_stage d' = node_stage d"
  unfolding append_child_def Let_def
  by (auto simp: validate_bind split: option.splits) (auto simp: bind_eq_Some_conv emit_Some)

section \<open>Mutation records\<close>

definition up_chain :: "document \<Rightarrow> node_id \<Rightarrow> node_id list \<Rightarrow> bool" where
  "up_chain d n ns \<longleftrightarrow>
     ns \<noteq> [] \<and> hd ns = n \<and> parent d (last ns) = None \<and>
     (\<forall>i. Suc i < length ns \<longrightarrow> parent d (ns ! i) = Some (ns ! Suc i))"

lemma up_chain_Cons:
  "parent d n = Some p \<Longrightarrow> up_chain d p ns \<Longrightarrow> up_chain d n (n # ns)"
  by (auto simp: up_chain_def nth_Cons' hd_conv_nth)

lemma chain_from_up:
  assumes "dom_wf d"
  shows "\<exists>ns. up_chain d n ns \<and> (\<forall>k acc. chain_from d (Some n) k acc = Some (acc @ zip ns [k..<k + length ns]))"
  using assms
proof (induction n rule: up_induct)
  case (up n)
  show ?case
  proof (cases "parent d n")
    case None
    then show ?thesis by (intro exI [of _ "[n]"]) (simp add: up_chain_def chain_from_eval)
  next
    case (Some p)
    then obtain ns where ns: "up_chain d p ns"
      "\<forall>k acc. chain_from d (Some p) k acc = Some (acc @ zip ns [k..<k + length ns])"
      using up by blast
    have "chain_from d (Some n) k acc = Some (acc @ zip (n # ns) [k..<k + length (n # ns)])" for k acc
    proof -
      have "[k..<k + length (n # ns)] = k # [Suc k..<Suc k + length ns]" by (simp add: upt_conv_Cons del: upt_Suc)
      then show ?thesis using ns(2) Some by (simp add: chain_from_eval(2) [of d n] del: upt_Suc)
    qed
    then show ?thesis using up_chain_Cons [OF Some ns(1)] by blast
  qed
qed

lemma deliver_other: "j \<noteq> i \<Longrightarrow> deliver rec chain i obs j = obs j"
  by (simp add: deliver_def split: option.split)

lemma fold_deliver:
  "distinct is \<Longrightarrow> fold (deliver rec chain) is obs j =
     (if j \<in> set is then deliver rec chain j obs j else obs j)"
proof (induction "is" arbitrary: obs)
  case (Cons i "is")
  then show ?case
    by (cases "j = i") (auto simp: deliver_other deliver_def split: option.split)
qed simp

lemma notify_loop_result:
  "distinct is \<Longrightarrow> notify_loop is obs =
     (filter (\<lambda>b. b \<noteq> []) (map (\<lambda>i. mo_pending (obs i)) is),
      \<lambda>j. if j \<in> set is then (obs j)\<lparr>mo_pending := []\<rparr> else obs j)"
proof (induction "is" arbitrary: obs)
  case (Cons i "is")
  then have "i \<notin> set is" "distinct is" by auto
  then have "map (\<lambda>j. mo_pending ((obs(i := x)) j)) is = map (\<lambda>j. mo_pending (obs j)) is" for x
    by (auto simp: map_eq_conv)
  then show ?case
    using Cons
    by (auto simp: has_pending_def take_records_def fun_eq_iff simp del: fun_upd_apply)
      (auto simp: fun_upd_def intro!: arg_cong [where f = "filter (\<lambda>b. b \<noteq> [])"])
qed simp

lemma record_for_trims:
  "record_for o' root dist rec = Some t \<longleftrightarrow>
     (\<exists>reg. List.find (\<lambda>r. reg_root r = root) (mo_registrations o') = Some reg \<and>
        (dist = 0 \<or> oi_subtree (reg_init reg)) \<and> trim_record (reg_init reg) rec = Some t)"
  by (auto simp: record_for_def split: option.splits)

section \<open>Properties\<close>

text \<open>C38: the lattice invariant. When every node that is dirty for a stage, or has a dirty descendant,
  has the descendant bit on its parent, \<open>mark\<close> on a live node returns, sets the node's own bit,
  the descendant bit on all its ancestors, changes nothing else, and keeps the invariant.\<close>

theorem mark_keeps_lattice:
  assumes "dom_wf d" and "child_bit_for b = Some cb" and "live d n" and "stage_closed d b cb"
  shows "\<exists>d'. mark d n b = Some d' \<and> same_links d d' \<and> stage_closed d' b cb \<and> stage_set d' n b \<and>
    (\<forall>m. m \<noteq> n \<longrightarrow> stage_set d' m b = stage_set d m b) \<and>
    (\<forall>m. stage_set d' m cb \<longleftrightarrow> stage_set d m cb \<or> (m \<noteq> n \<and> live d m \<and> below (parent d) m n))"
proof -
  note bits = child_bit_facts [OF assms(2)]
  obtain d' where d': "mark d n b = Some d'" "same_links d d'" and rec: "\<forall>m. dom_rec d' m =
       map_option (\<lambda>r. r\<lparr>nr_stage :=
         (if m = n then (if stage_set d n b then nr_stage r else stage_insert (nr_stage r) b)
          else if below (parent d) m n then stage_insert (nr_stage r) cb else nr_stage r)\<rparr>) (dom_rec d m)"
    using mark_result [OF assms] by blast
  have self: "stage_set d' m b \<longleftrightarrow> m = n \<or> stage_set d m b" for m
    using assms(3) rec bits(1,4)
    by (auto simp: stage_set_def live_def stage_is_set_insert split: option.splits)
  have child: "stage_set d' m cb \<longleftrightarrow> stage_set d m cb \<or> (m \<noteq> n \<and> live d m \<and> below (parent d) m n)" for m
    using assms(3) rec bits(2,3)
    by (auto simp: stage_set_def live_def stage_is_set_insert split: option.splits)
  have "stage_set d' q cb" if p: "parent d m = Some q" and m: "stage_set d' m b \<or> stage_set d' m cb" for m q
  proof -
    have lq: "live d q" using p dom_wf_child [OF assms(1)] children_live by blast
    show ?thesis
    proof (cases "below (parent d) m n")
      case True
      then have q: "below (parent d) q n"
        using p by (auto simp: below_def parent_rel_def intro: rtrancl_into_rtrancl)
      have "q \<noteq> n"
      proof
        assume "q = n"
        with True p have "(m, m) \<in> (parent_rel (parent d))\<^sup>+"
          by (auto simp: below_def parent_rel_def intro: rtrancl_into_trancl2)
        then show False using assms(1) by (simp add: dom_wf_def links_wf_def acyclic_def)
      qed
      then show ?thesis using child lq q by blast
    next
      case False
      then have "m \<noteq> n" by auto
      then have "stage_set d m b \<or> stage_set d m cb" using m self child False by blast
      then show ?thesis using p assms(4) child by (auto simp: stage_closed_def)
    qed
  qed
  then have "stage_closed d' b cb" using same_linksD(1) [OF d'(2)] by (simp add: stage_closed_def)
  then show ?thesis using d' self child by auto
qed

lemma demo_stage_all: "live demo_doc m \<Longrightarrow> stage_set demo_doc m CHILD_NEEDS_STYLE"
  by (auto simp: live_def stage_set_def dom_rec_def slab_get_def demo_doc_eval vec_get_def nth_Cons'
      fresh_record_def stage_is_set_def SELF_ANY_def CHILD_ANY_def NEEDS_STYLE_def NEEDS_LAYOUT_def
      NEEDS_PAINT_def CHILD_NEEDS_STYLE_def CHILD_NEEDS_LAYOUT_def CHILD_NEEDS_PAINT_def
      split: if_splits)

theorem mark_keeps_lattice_witness:
  "\<exists>d'. mark demo_doc (demo_node 2) NEEDS_STYLE = Some d' \<and> stage_set d' (demo_node 2) NEEDS_STYLE"
proof -
  have "child_bit_for NEEDS_STYLE = Some CHILD_NEEDS_STYLE" by (simp add: child_bit_for_def)
  moreover have "stage_closed demo_doc NEEDS_STYLE CHILD_NEEDS_STYLE"
    unfolding stage_closed_def
    using demo_stage_all dom_wf_child [OF demo_wf] children_live by blast
  ultimately show ?thesis using mark_keeps_lattice [OF demo_wf _ demo_links(8)] by blast
qed

text \<open>Appending a child does not restore the lattice invariant. When the appended node is dirty and
  its new parent carries no descendant bit, the parent still carries none afterwards, and a later
  \<open>mark\<close> of the node returns at once without flagging any ancestor.\<close>

theorem append_child_breaks_lattice:
  assumes "dom_wf d" and "live d p" and "stage_set d n b" and "\<not> stage_set d p cb"
    and "\<not> below (parent d) n p"
  shows "\<exists>d'. append_child d p n = Some (Inr n, d') \<and> parent d' n = Some p \<and> stage_set d' n b \<and>
    \<not> stage_set d' p cb \<and> mark d' n b = Some d'"
proof -
  have ln: "live d n" using assms(3) by (auto simp: stage_set_def live_def split: option.splits)
  obtain d' where d': "append_child d p n = Some (Inr n, d')" "parent d' = (parent d)(n \<mapsto> p)"
    using append_child_result [OF assms(1,2) ln] assms(5) by auto
  have keep: "stage_set d' m x = stage_set d m x" for m x
    using append_child_stage [OF d'(1)] by (simp add: stage_set_alt node_stage_def fun_eq_iff)
  then have "stage_set d' n b" using assms(3) by simp
  then have "mark d' n b = Some d'" by (auto simp: mark_def stage_set_def split: option.splits)
  with keep d' assms(3,4) show ?thesis by auto
qed

definition demo_clean :: document where
  "demo_clean = snd (the (create_element (clear_all_style_dirty demo_doc) ''b''))"

lemma same_links_clear: "same_links d (clear_all_style_dirty d)"
proof -
  have "dom_rec (clear_all_style_dirty d) n = map_option (\<lambda>r. r\<lparr>nr_stage :=
      stage_remove (stage_remove (nr_stage r) NEEDS_STYLE) CHILD_NEEDS_STYLE\<rparr>) (dom_rec d n)" for n
    by (simp add: clear_all_style_dirty_def dom_rec_def slab_values_mut_get)
  moreover have "d_root (clear_all_style_dirty d) = d_root d"
    "slab_inv (d_slab (clear_all_style_dirty d)) = slab_inv (d_slab d)"
    by (simp_all add: clear_all_style_dirty_def slab_values_mut_inv)
  ultimately show ?thesis
    by (auto simp: same_links_def parent_def children_def live_def fun_eq_iff bind_map_option o_def
        split: option.split)
qed

lemma stage_is_set_remove [simp]: "\<not> stage_is_set (stage_remove m b) b"
proof -
  have "(m AND NOT b) AND b = 0" by (rule bit_word_eqI) (auto simp: bit_and_iff bit_not_iff)
  then show ?thesis by (simp add: stage_is_set_def stage_remove_def)
qed

lemma parent_0: "parent demo_doc (demo_node 0) = None"
  by (simp add: demo_doc_eval dom_eval) (simp add: demo_node_def)

theorem append_child_breaks_lattice_witness:
  "\<exists>d'. append_child demo_clean (demo_node 1) (demo_node 6) = Some (Inr (demo_node 6), d') \<and>
     \<not> stage_set d' (demo_node 1) CHILD_NEEDS_STYLE \<and> mark d' (demo_node 6) NEEDS_STYLE = Some d'"
proof -
  let ?c = "clear_all_style_dirty demo_doc"
  have wc: "dom_wf ?c" using demo_wf same_links_clear by (rule dom_wf_same_links)
  have al: "dom_alloc ?c (Element ''b'' None) = Some (demo_node 6, demo_clean)"
    by (simp add: demo_clean_def create_element_def dom_alloc_def slab_insert_def clear_all_style_dirty_def
        slab_values_mut_def demo_doc_eval demo_node_def)
  note res = dom_alloc_result [OF wc al]
  have rec: "dom_rec demo_clean = (dom_rec ?c)(demo_node 6 \<mapsto> fresh_record (Element ''b'' None))"
    using dom_alloc_rec(1) [OF _ al] wc by (simp add: dom_wf_def)
  have l1: "live demo_clean (demo_node 1)"
    using res(4) same_linksD(3) [OF same_links_clear, of demo_doc] demo_links(7) by simp
  have s6: "stage_set demo_clean (demo_node 6) NEEDS_STYLE"
    by (simp add: stage_set_def rec fresh_record_def stage_is_set_def SELF_ANY_def CHILD_ANY_def
        NEEDS_STYLE_def NEEDS_LAYOUT_def NEEDS_PAINT_def CHILD_NEEDS_STYLE_def CHILD_NEEDS_LAYOUT_def
        CHILD_NEEDS_PAINT_def)
  have s1: "\<not> stage_set demo_clean (demo_node 1) CHILD_NEEDS_STYLE"
  proof -
    have "dom_rec demo_clean (demo_node 1) = dom_rec ?c (demo_node 1)" by (simp add: rec)
    then show ?thesis
      by (simp add: stage_set_def clear_all_style_dirty_def dom_rec_def slab_values_mut_get
          split: option.split)
  qed
  have nb: "\<not> below (parent demo_clean) (demo_node 6) (demo_node 1)"
    using validate_insert_result [OF res(1), of "demo_node 1" "demo_node 6"]
      same_linksD(1) [OF same_links_clear, of demo_doc] demo_links(3) res(2)
    by (auto simp: validate_insert_def validate_loop_eval parent_0 split: if_splits)
  show ?thesis using append_child_breaks_lattice [OF res(1) l1 s6 s1 nb] by blast
qed

text \<open>On a well-formed document with pairwise different observers, a mutation is offered to each
  registered observer along the chain of ancestors of its target: an observer gains at most one
  record, the one of the nearest registration that accepts it, and other observers are untouched.
  Notification then hands out exactly the pending batches and leaves every queue empty.\<close>

theorem emit_offers_once:
  assumes "dom_wf d" and "distinct (d_observers d)"
  shows "\<exists>ns d'. up_chain d (mr_target rec) ns \<and> emit_mutation d rec = Some d' \<and> same_links d d' \<and>
    (\<forall>i. mo_registrations (d_obs d' i) = mo_registrations (d_obs d i) \<and>
       mo_pending (d_obs d' i) = mo_pending (d_obs d i) @
         (if i \<in> set (d_observers d)
          then case choose_record (d_obs d i) rec (zip ns [0..<length ns]) of None \<Rightarrow> [] | Some t \<Rightarrow> [t]
          else [])) \<and>
    fst (notify_mutation_observers d') =
      filter (\<lambda>b. b \<noteq> []) (map (\<lambda>i. mo_pending (d_obs d' i)) (d_observers d)) \<and>
    (\<forall>i \<in> set (d_observers d). \<not> has_pending (d_obs (snd (notify_mutation_observers d')) i))"
proof -
  obtain ns where ns: "up_chain d (mr_target rec) ns"
    "\<forall>k acc. chain_from d (Some (mr_target rec)) k acc = Some (acc @ zip ns [k..<k + length ns])"
    using chain_from_up [OF assms(1)] by blast
  let ?chain = "zip ns [0..<length ns]"
  let ?d = "d\<lparr>d_obs := fold (deliver rec ?chain) (d_observers d) (d_obs d)\<rparr>"
  have e: "emit_mutation d rec = Some ?d" using ns(2) by (simp add: emit_mutation_def)
  have n: "notify_mutation_observers ?d =
     (filter (\<lambda>b. b \<noteq> []) (map (\<lambda>i. mo_pending (d_obs ?d i)) (d_observers d)),
      ?d\<lparr>d_obs := \<lambda>j. if j \<in> set (d_observers d) then (d_obs ?d j)\<lparr>mo_pending := []\<rparr> else d_obs ?d j\<rparr>)"
    unfolding notify_mutation_observers_def using notify_loop_result [OF assms(2)]
    by (simp cong: if_cong)
  show ?thesis
  proof (intro exI [of _ ns] exI [of _ ?d] conjI)
    show "\<forall>i. mo_registrations (d_obs ?d i) = mo_registrations (d_obs d i) \<and>
       mo_pending (d_obs ?d i) = mo_pending (d_obs d i) @
         (if i \<in> set (d_observers d)
          then case choose_record (d_obs d i) rec ?chain of None \<Rightarrow> [] | Some t \<Rightarrow> [t] else [])"
      by (simp add: fold_deliver [OF assms(2)] deliver_def enqueue_def split: option.split)
    show "\<forall>i \<in> set (d_observers d). \<not> has_pending (d_obs (snd (notify_mutation_observers ?d)) i)"
      unfolding n by (simp add: has_pending_def)
  qed (use ns(1) e n in simp_all)
qed

theorem emit_offers_once_witness:
  "\<exists>d'. emit_mutation (add_observer demo_doc 0) \<lparr>mr_target = demo_node 2, mr_kind = MCharacterData [] []\<rparr> = Some d' \<and>
     mo_pending (d_obs d' 1) = mo_pending (d_obs demo_doc 1)"
proof -
  have "same_links demo_doc (add_observer demo_doc 0)" by (simp add: add_observer_def)
  then have wf: "dom_wf (add_observer demo_doc 0)" by (rule dom_wf_same_links [OF demo_wf])
  have d: "d_observers (add_observer demo_doc 0) = [0]" "d_obs (add_observer demo_doc 0) = d_obs demo_doc"
    by (simp_all add: add_observer_def demo_doc_eval)
  show ?thesis
    using emit_offers_once [OF wf, of "\<lparr>mr_target = demo_node 2, mr_kind = MCharacterData [] []\<rparr>"]
    by (auto simp: d)
qed

end
