(* ===== verification/Dom_Traversal.thy ===== *)
theory Dom_Traversal
  imports Dom_Order "HOL-Library.Monad_Syntax"
begin

text \<open>
  The tree walker of \<^verbatim>\<open>crates/cv_dom/src/traversal.rs\<close> and the ranges of
  \<^verbatim>\<open>crates/cv_dom/src/range.rs\<close>. A walker holds its position and borrows the document; its filter
  is a function of the node kind. Strings are their bytes, so offsets are byte offsets. The
  subtraction of offsets wraps, as in the release profile.
\<close>

section \<open>Tree walker\<close>

definition ACCEPT :: u32 where "ACCEPT = 1"
definition REJECT :: u32 where "REJECT = 2"
definition SKIP :: u32 where "SKIP = 3"

definition what_matches :: "u32 \<Rightarrow> node_kind \<Rightarrow> bool" where
  "what_matches what kind \<longleftrightarrow>
     what AND (case kind of
                 Element _ _ \<Rightarrow> 0x1
               | Text _ \<Rightarrow> 0x4
               | CDataSection _ \<Rightarrow> 0x4
               | Comment _ \<Rightarrow> 0x80
               | Document \<Rightarrow> 0x100
               | DocumentFragment \<Rightarrow> 0x400
               | _ \<Rightarrow> 0) \<noteq> 0"

record tree_walker =
  tw_root :: node_id
  tw_current :: node_id
  tw_what_to_show :: u32
  tw_filter :: "node_kind \<Rightarrow> u32"

definition walker_new :: "node_id \<Rightarrow> u32 \<Rightarrow> tree_walker" where
  "walker_new n what = \<lparr>tw_root = n, tw_current = n, tw_what_to_show = what, tw_filter = (\<lambda>_. ACCEPT)\<rparr>"

definition with_filter :: "tree_walker \<Rightarrow> (node_kind \<Rightarrow> u32) \<Rightarrow> tree_walker" where
  "with_filter w f = w\<lparr>tw_filter := f\<rparr>"

definition accept_node :: "document \<Rightarrow> tree_walker \<Rightarrow> node_id \<Rightarrow> u32" where
  "accept_node d w n =
     (case node_kind_of d n of
        None \<Rightarrow> REJECT
      | Some k \<Rightarrow> if \<not> what_matches (tw_what_to_show w) k then SKIP else tw_filter w k)"

text \<open>The climb to the next sibling of the node or of its nearest ancestor below the root.\<close>

partial_function (option) climb :: "document \<Rightarrow> node_id \<Rightarrow> node_id \<Rightarrow> node_id option option" where
  "climb d stop cur =
     (if cur = stop then Some None
      else case next_sibling d cur of
        Some s \<Rightarrow> Some (Some s)
      | None \<Rightarrow> (case parent d cur of None \<Rightarrow> Some None | Some p \<Rightarrow> climb d stop p))"

definition successor :: "document \<Rightarrow> node_id \<Rightarrow> node_id \<Rightarrow> node_id option option" where
  "successor d stop cur = (case first_child d cur of Some c \<Rightarrow> Some (Some c) | None \<Rightarrow> climb d stop cur)"

partial_function (option) next_node :: "document \<Rightarrow> tree_walker \<Rightarrow> (node_id option \<times> tree_walker) option" where
  "next_node d w =
     Option.bind (successor d (tw_root w) (tw_current w)) (\<lambda>next'. case next' of
       None \<Rightarrow> Some (None, w)
     | Some n \<Rightarrow>
         if accept_node d w n = ACCEPT then Some (Some n, w\<lparr>tw_current := n\<rparr>)
         else next_node d (w\<lparr>tw_current := n\<rparr>))"

definition walker_move :: "tree_walker \<Rightarrow> node_id option \<Rightarrow> node_id option \<times> tree_walker" where
  "walker_move w target = (case target of None \<Rightarrow> (None, w) | Some n \<Rightarrow> (Some n, w\<lparr>tw_current := n\<rparr>))"

definition walker_previous_sibling :: "document \<Rightarrow> tree_walker \<Rightarrow> node_id option \<times> tree_walker" where
  "walker_previous_sibling d w = walker_move w (previous_sibling d (tw_current w))"

definition walker_next_sibling :: "document \<Rightarrow> tree_walker \<Rightarrow> node_id option \<times> tree_walker" where
  "walker_next_sibling d w = walker_move w (next_sibling d (tw_current w))"

definition walker_parent_node :: "document \<Rightarrow> tree_walker \<Rightarrow> node_id option \<times> tree_walker" where
  "walker_parent_node d w =
     (if tw_current w = tw_root w then (None, w) else walker_move w (parent d (tw_current w)))"

definition walker_first_child :: "document \<Rightarrow> tree_walker \<Rightarrow> node_id option \<times> tree_walker" where
  "walker_first_child d w = walker_move w (first_child d (tw_current w))"

section \<open>Ranges\<close>

record dom_range =
  start_container :: node_id
  start_offset :: u32
  end_container :: node_id
  end_offset :: u32
  collapsed :: bool

definition range_new :: "document \<Rightarrow> dom_range option" where
  "range_new d = map_option (\<lambda>r. \<lparr>start_container = r, start_offset = 0, end_container = r, end_offset = 0,
     collapsed = True\<rparr>) (d_root d)"

definition update_collapsed :: "dom_range \<Rightarrow> dom_range" where
  "update_collapsed g =
     g\<lparr>collapsed := start_container g = end_container g \<and> start_offset g = end_offset g\<rparr>"

definition set_start :: "dom_range \<Rightarrow> node_id \<Rightarrow> u32 \<Rightarrow> dom_range" where
  "set_start g c off = update_collapsed (g\<lparr>start_container := c, start_offset := off\<rparr>)"

definition set_end :: "dom_range \<Rightarrow> node_id \<Rightarrow> u32 \<Rightarrow> dom_range" where
  "set_end g c off = update_collapsed (g\<lparr>end_container := c, end_offset := off\<rparr>)"

definition range_collapse :: "dom_range \<Rightarrow> bool \<Rightarrow> dom_range" where
  "range_collapse g to_start =
     (if to_start then g\<lparr>end_container := start_container g, end_offset := start_offset g, collapsed := True\<rparr>
      else g\<lparr>start_container := end_container g, start_offset := end_offset g, collapsed := True\<rparr>)"

definition select_node :: "document \<Rightarrow> dom_range \<Rightarrow> node_id \<Rightarrow> dom_error + dom_range" where
  "select_node d g n =
     rbind (ok_or (InvalidArgument ''no parent'') (parent d n)) (\<lambda>p.
     rbind (ok_or NotFound (position (\<lambda>c. c = n) (children d p))) (\<lambda>i.
       Inr \<lparr>start_container = p, start_offset = of_nat i, end_container = p, end_offset = of_nat i + 1,
            collapsed = False\<rparr>))"

definition select_node_contents :: "document \<Rightarrow> dom_range \<Rightarrow> node_id \<Rightarrow> dom_error + dom_range" where
  "select_node_contents d g n =
     rbind (ok_or NotFound (node_kind_of d n)) (\<lambda>k.
       let len = (case k of
                    Text s \<Rightarrow> of_nat (length s)
                  | Comment s \<Rightarrow> of_nat (length s)
                  | CDataSection s \<Rightarrow> of_nat (length s)
                  | _ \<Rightarrow> of_nat (length (children d n)))
       in Inr \<lparr>start_container = n, start_offset = 0, end_container = n, end_offset = len, collapsed = (len = 0)\<rparr>)"

partial_function (option) ancestor_chain :: "document \<Rightarrow> node_id \<Rightarrow> node_id list option" where
  "ancestor_chain d n =
     (case parent d n of None \<Rightarrow> Some [n] | Some p \<Rightarrow> Option.bind (ancestor_chain d p) (\<lambda>ns. Some (n # ns)))"

definition common_ancestor :: "document \<Rightarrow> dom_range \<Rightarrow> node_id option" where
  "common_ancestor d g = do {
     a \<leftarrow> ancestor_chain d (start_container g);
     b \<leftarrow> ancestor_chain d (end_container g);
     root \<leftarrow> d_root d;
     Some (case List.find (\<lambda>n. n \<in> set b) a of Some n \<Rightarrow> n | None \<Rightarrow> root) }"

definition is_char_boundary :: "string \<Rightarrow> nat \<Rightarrow> bool" where
  "is_char_boundary s i \<longleftrightarrow> i = 0 \<or> i = length s \<or>
     i < length s \<and> \<not> (of_char (s ! i) \<ge> (128 :: nat) \<and> of_char (s ! i) < (192 :: nat))"

definition delete_text_range :: "document \<Rightarrow> node_id \<Rightarrow> u32 \<Rightarrow> u32 \<Rightarrow> unit dom_result" where
  "delete_text_range d n from to =
     (case node_kind_of d n of
        Some (Text cur) \<Rightarrow>
          if unat from > length cur \<or> unat to > length cur
          then Some (Inl (Err (InvalidArgument ''text range out of bounds'')), d)
          else if \<not> is_char_boundary cur (unat from) \<or> \<not> is_char_boundary cur (unat to) then Some (Inl Panic, d)
          else Option.bind (set_text_data d n (take (unat from) cur @ drop (unat to) cur)) (\<lambda>(r, d).
            Some (case r of Inl e \<Rightarrow> Inl e | Inr _ \<Rightarrow> Inr (), d))
      | _ \<Rightarrow> Some (Inl (Err (InvalidArgument ''not text'')), d))"

fun remove_children :: "document \<Rightarrow> node_id \<Rightarrow> node_id list \<Rightarrow> unit dom_result" where
  "remove_children d p [] = Some (Inr (), d)"
| "remove_children d p (c # cs) =
     Option.bind (remove_child d p c) (\<lambda>(r, d). case r of Inl e \<Rightarrow> Some (Inl e, d) | Inr _ \<Rightarrow> remove_children d p cs)"

definition delete_contents :: "document \<Rightarrow> dom_range \<Rightarrow> ((dom_exit + unit) \<times> dom_range \<times> document) option" where
  "delete_contents d g =
     (if collapsed g then Some (Inr (), g, d)
      else do {
        (r, d) \<leftarrow>
          (if start_container g = end_container g then
             (case node_kind_of d (start_container g) of
                Some (Text _) \<Rightarrow> delete_text_range d (start_container g) (start_offset g) (end_offset g)
              | _ \<Rightarrow>
                  remove_children d (start_container g)
                    (take (unat (end_offset g - start_offset g)) (drop (unat (start_offset g)) (children d (start_container g)))))
           else do {
             p \<leftarrow> common_ancestor d g;
             d \<leftarrow> remove_each d p (filter (\<lambda>c. c \<noteq> start_container g \<and> c \<noteq> end_container g) (children d p));
             Some (Inr (), d) });
        case r of Inl e \<Rightarrow> Some (Inl e, g, d) | Inr _ \<Rightarrow> Some (Inr (), range_collapse g True, d) })"

section \<open>The walk is in document order\<close>

lemma preorder_hd: "preorder d n ns \<Longrightarrow> \<exists>ms. ns = n # ms"
  by (erule preorder_elim) simp

lemma first_child_children: "first_child d n = (case children d n of [] \<Rightarrow> None | c # cs \<Rightarrow> Some c)"
  by (cases "dom_rec d n") (auto simp: first_child_def children_def vec_get_def nth_Cons' split: list.splits)

lemma next_sibling_split:
  assumes "dom_wf d" "children d p = as @ c # bs"
  shows "next_sibling d c = (case bs of [] \<Rightarrow> None | b # _ \<Rightarrow> Some b)" "parent d c = Some p"
proof -
  show p: "parent d c = Some p" using assms dom_wf_child [OF assms(1), of c p] by simp
  have "c \<notin> set as" using dom_wf_distinct [OF assms(1), of p] assms(2) by simp
  then have "position (\<lambda>x. x = c) (as @ c # bs) = Some (length as)" by (induction as) auto
  then show "next_sibling d c = (case bs of [] \<Rightarrow> None | b # _ \<Rightarrow> Some b)"
    using p assms(2) by (cases bs) (simp_all add: next_sibling_def vec_get_def nth_append)
qed

lemma child_not_top:
  assumes "dom_wf d" "below (parent d) top' n" "parent d c = Some n"
  shows "c \<noteq> top'"
proof
  assume "c = top'"
  then have "below (parent d) c n" using assms(2) by simp
  then have "(n, c) \<in> (parent_rel (parent d))\<^sup>*" by (simp add: below_def)
  moreover have "(c, n) \<in> parent_rel (parent d)" using assms(3) by (simp add: parent_rel_def)
  ultimately have "(c, c) \<in> (parent_rel (parent d))\<^sup>+" by auto
  then show False using assms(1) by (simp add: dom_wf_def links_wf_def acyclic_def)
qed

text \<open>Among the last children of a node: the successor is the next node of their pre-orders, or what
  climbing from the node itself finds.\<close>

definition hd_or :: "'a option option \<Rightarrow> 'a list \<Rightarrow> 'a option option" where
  "hd_or other xs = (case xs of [] \<Rightarrow> other | x # _ \<Rightarrow> Some (Some x))"

lemma hd_or_append: "hd_or (hd_or other ys) xs = hd_or other (xs @ ys)"
  by (cases xs) (simp_all add: hd_or_def)

lemma hd_preorders:
  "list_all2 (preorder d) cs nss \<Longrightarrow> hd_or other (concat nss) = (case cs of [] \<Rightarrow> other | c # _ \<Rightarrow> Some (Some c))"
proof (induction rule: list_all2_induct)
  case (Cons c cs ns nss)
  then show ?case using preorder_hd [of d c ns] by (auto simp: hd_or_def)
qed (simp add: hd_or_def)

lemma successor_children:
  assumes wf: "dom_wf d" and b: "below (parent d) stop n"
    and IH: "list_all2 (\<lambda>c ns. preorder d c ns \<and>
      (\<forall>pre cur post. below (parent d) stop c \<longrightarrow> ns = pre @ cur # post \<longrightarrow> successor d stop cur = hd_or (climb d stop c) post)) cs nss"
    and kids: "children d n = as @ cs" and split: "concat nss = pre @ cur # post"
  shows "successor d stop cur = hd_or (climb d stop n) post"
  using IH kids split
proof (induction arbitrary: as pre rule: list_all2_induct)
  case (Cons c cs ns nss)
  have sib: "next_sibling d c = (case cs of [] \<Rightarrow> None | x # _ \<Rightarrow> Some x)" "parent d c = Some n"
    using next_sibling_split [OF wf Cons.prems(1)] by auto
  have climb: "climb d stop c = hd_or (climb d stop n) (concat nss)"
  proof -
    have "climb d stop c = (case cs of [] \<Rightarrow> climb d stop n | x # _ \<Rightarrow> Some (Some x))"
      using child_not_top [OF wf b sib(2)] sib by (subst climb.simps) (simp split: list.splits)
    moreover have "list_all2 (preorder d) cs nss" using Cons.hyps(2) by (auto elim: list_all2_mono)
    ultimately show ?thesis by (simp add: hd_preorders)
  qed
  have bc: "below (parent d) stop c" using b sib(2) below_step [of "parent d" stop c] by auto
  from Cons.prems(2) consider post' where "ns = pre @ cur # post'" "post = post' @ concat nss"
    | pre' where "pre = ns @ pre'" "concat nss = pre' @ cur # post"
    by (auto simp: append_eq_append_conv2 append_eq_Cons_conv Cons_eq_append_conv)
  then show ?case
  proof cases
    case 1
    then have "successor d stop cur = hd_or (climb d stop c) post'" using Cons.hyps(1) bc by blast
    then show ?thesis using climb 1(2) by (simp add: hd_or_append)
  next
    case 2
    then show ?thesis using Cons.IH [of "as @ [c]" pre'] Cons.prems(1) by simp
  qed
qed simp

lemma successor_preorder:
  assumes wf: "dom_wf d" and po: "preorder d n ns"
  shows "below (parent d) stop n \<Longrightarrow> ns = pre @ cur # post \<Longrightarrow> successor d stop cur = hd_or (climb d stop n) post"
  using po
proof (induction arbitrary: pre cur post rule: preorder.induct)
  case (preorder_node n nss)
  show ?case
  proof (cases pre)
    case Nil
    then have c: "cur = n" "post = concat nss" using preorder_node.prems(2) by simp_all
    show ?thesis
    proof (cases "children d n")
      case Nil
      then show ?thesis using c preorder_node.IH by (simp add: successor_def first_child_children hd_or_def)
    next
      case (Cons x xs)
      then obtain ms mss where "nss = (x # ms) # mss" using preorder_node.IH by (auto simp: list_all2_Cons1 dest: preorder_hd)
      then show ?thesis using c Cons by (simp add: successor_def first_child_children hd_or_def)
    qed
  next
    case (Cons p pre')
    have "concat nss = pre' @ cur # post" using preorder_node.prems(2) Cons by simp
    then show ?thesis
      using successor_children [OF wf preorder_node.prems(1) _ _ _, of "children d n" nss "[]"] preorder_node.IH
      by (auto elim!: list_all2_mono)
  qed
qed

lemma climb_top [simp]: "climb d stop stop = Some None"
  by (simp add: climb.simps)

lemma next_node_walks:
  assumes wf: "dom_wf d" and po: "preorder d (tw_root w) (pre @ tw_current w # post)"
  shows "next_node d w =
    Some (case dropWhile (\<lambda>n. accept_node d w n \<noteq> ACCEPT) post of
            [] \<Rightarrow> (None, w\<lparr>tw_current := last (tw_current w # post)\<rparr>)
          | n # _ \<Rightarrow> (Some n, w\<lparr>tw_current := n\<rparr>))"
  using po
proof (induction post arbitrary: w pre)
  case Nil
  then have "successor d (tw_root w) (tw_current w) = Some None"
    using successor_preorder [OF wf Nil.prems, of "tw_root w" pre "tw_current w" "[]"] by (simp add: hd_or_def)
  then show ?case by (subst next_node.simps) simp
next
  case (Cons x post)
  have s: "successor d (tw_root w) (tw_current w) = Some (Some x)"
    using successor_preorder [OF wf Cons.prems, of "tw_root w" pre "tw_current w" "x # post"] by (simp add: hd_or_def)
  have acc: "accept_node d (w\<lparr>tw_current := x\<rparr>) = accept_node d w" by (simp add: accept_node_def fun_eq_iff split: option.split)
  have "next_node d (w\<lparr>tw_current := x\<rparr>) =
    Some (case dropWhile (\<lambda>n. accept_node d w n \<noteq> ACCEPT) post of
            [] \<Rightarrow> (None, w\<lparr>tw_current := last (x # post)\<rparr>) | n # _ \<Rightarrow> (Some n, w\<lparr>tw_current := n\<rparr>))"
    using Cons.IH [of "w\<lparr>tw_current := x\<rparr>" "pre @ [tw_current w]"] Cons.prems by (simp add: acc cong: list.case_cong)
  then show ?case using s by (subst next_node.simps) (simp cong: list.case_cong)
qed

text \<open>The loop \<open>while let Some(n) = walker.next_node()\<close>.\<close>

partial_function (option) walk_all :: "document \<Rightarrow> tree_walker \<Rightarrow> node_id list option" where
  "walk_all d w =
     Option.bind (next_node d w) (\<lambda>(r, w'). case r of
       None \<Rightarrow> Some []
     | Some n \<Rightarrow> Option.bind (walk_all d w') (\<lambda>ns. Some (n # ns)))"

lemma accept_moved: "accept_node d (w\<lparr>tw_current := n\<rparr>) = accept_node d w"
  by (simp add: accept_node_def fun_eq_iff split: option.split)

lemma walk_all_rest:
  assumes wf: "dom_wf d" and po: "preorder d (tw_root w) (pre @ tw_current w # post)"
  shows "walk_all d w = Some (filter (\<lambda>n. accept_node d w n = ACCEPT) post)"
  using po
proof (induction "length post" arbitrary: w pre post rule: less_induct)
  case less
  let ?rest = "dropWhile (\<lambda>n. accept_node d w n \<noteq> ACCEPT) post"
  note nn = next_node_walks [OF wf less.prems]
  show ?case
  proof (cases ?rest)
    case Nil
    then have "filter (\<lambda>n. accept_node d w n = ACCEPT) post = []" by (simp add: dropWhile_eq_Nil_conv filter_empty_conv)
    then show ?thesis using nn Nil by (subst walk_all.simps) simp
  next
    case (Cons n post')
    define skipped where "skipped = takeWhile (\<lambda>n. accept_node d w n \<noteq> ACCEPT) post"
    have post: "post = skipped @ n # post'" using Cons takeWhile_dropWhile_id [of "\<lambda>n. accept_node d w n \<noteq> ACCEPT" post]
      by (simp add: skipped_def)
    have n: "accept_node d w n = ACCEPT" using Cons hd_dropWhile [of "\<lambda>n. accept_node d w n \<noteq> ACCEPT" post] by simp
    have sk: "filter (\<lambda>n. accept_node d w n = ACCEPT) skipped = []"
      by (auto simp: skipped_def filter_empty_conv dest: set_takeWhileD)
    have "walk_all d (w\<lparr>tw_current := n\<rparr>) = Some (filter (\<lambda>n. accept_node d w n = ACCEPT) post')"
      using less.hyps [of post' "w\<lparr>tw_current := n\<rparr>" "pre @ tw_current w # skipped"] less.prems post by (simp add: accept_moved)
    then show ?thesis using nn Cons n sk by (subst walk_all.simps) (simp add: post)
  qed
qed

section \<open>Common ancestors\<close>

lemma ancestor_chain_above:
  assumes "dom_wf d"
  shows "\<exists>ns. ancestor_chain d n = Some ns \<and> set ns = {m. below (parent d) m n} \<and> sorted_wrt (\<lambda>x y. below (parent d) y x) ns"
  using assms
proof (induction n rule: up_induct)
  case (up n)
  show ?case
  proof (cases "parent d n")
    case None
    then have "{m. below (parent d) m n} = {n}" using below_step [of "parent d" _ n] by auto
    then show ?thesis using None by (subst ancestor_chain.simps) simp
  next
    case (Some p)
    then obtain ns where ns: "ancestor_chain d p = Some ns" "set ns = {m. below (parent d) m p}"
      "sorted_wrt (\<lambda>x y. below (parent d) y x) ns"
      using up by blast
    have "{m. below (parent d) m n} = insert n (set ns)" using below_step [of "parent d" _ n] Some ns(2) by auto
    then show ?thesis using Some ns below_step [of "parent d" _ n] by (subst ancestor_chain.simps) auto
  qed
qed

lemma find_first:
  "List.find P xs = Some x \<Longrightarrow> sorted_wrt R xs \<Longrightarrow> y \<in> set xs \<Longrightarrow> P y \<Longrightarrow> P x \<and> x \<in> set xs \<and> (x = y \<or> R x y)"
  by (induction xs) (auto split: if_splits)

text \<open>\<open>common_ancestor\<close> returns the nearest common ancestor of the two boundary containers whenever
  they are in one tree.\<close>

lemma common_ancestor_nearest:
  assumes "dom_wf d" "below (parent d) t (start_container g)" "below (parent d) t (end_container g)" "d_root d \<noteq> None"
  shows "\<exists>c. common_ancestor d g = Some c \<and> below (parent d) c (start_container g) \<and> below (parent d) c (end_container g) \<and>
    (\<forall>m. below (parent d) m (start_container g) \<and> below (parent d) m (end_container g) \<longrightarrow> below (parent d) m c)"
proof -
  obtain a where a: "ancestor_chain d (start_container g) = Some a" "set a = {m. below (parent d) m (start_container g)}"
    "sorted_wrt (\<lambda>x y. below (parent d) y x) a"
    using ancestor_chain_above [OF assms(1)] by blast
  obtain b where b: "ancestor_chain d (end_container g) = Some b" "set b = {m. below (parent d) m (end_container g)}"
    using ancestor_chain_above [OF assms(1)] by blast
  have "List.find (\<lambda>n. n \<in> set b) a \<noteq> None" using assms(2,3) a(2) b(2) by (auto simp: find_None_iff)
  then obtain c where c: "List.find (\<lambda>n. n \<in> set b) a = Some c" by auto
  have "common_ancestor d g = Some c" using a(1) b(1) c assms(4) by (auto simp: common_ancestor_def)
  moreover have "c \<in> set b \<and> c \<in> set a" using find_first [OF c a(3), of t] assms(2,3) a(2) b(2) by auto
  moreover have "below (parent d) m c" if "below (parent d) m (start_container g)" "below (parent d) m (end_container g)" for m
    using find_first [OF c a(3), of m] that a(2) b(2) by auto
  ultimately show ?thesis using a(2) b(2) by blast
qed

section \<open>Deleting the contents of a range\<close>

lemma remove_many:
  assumes "dom_wf d" "distinct xs" "set xs \<subseteq> set (children d p)"
  shows "\<exists>d'. remove_children d p xs = Some (Inr (), d') \<and> remove_each d p xs = Some d' \<and> dom_wf d' \<and>
    children d' = (children d)(p := filter (\<lambda>x. x \<notin> set xs) (children d p))"
  using assms
proof (induction xs arbitrary: d)
  case (Cons c xs)
  obtain d1 where d1: "remove_child d p c = Some (Inr c, d1)" "dom_wf d1"
    "children d1 = (children d)(p := filter (\<lambda>x. x \<noteq> c) (children d p))"
    using remove_child_result [OF Cons.prems(1), of c p] Cons.prems(3) by auto
  have "set xs \<subseteq> set (children d1 p)" using Cons.prems(2,3) d1(3) by auto
  then obtain d' where d': "remove_children d1 p xs = Some (Inr (), d')" "remove_each d1 p xs = Some d'" "dom_wf d'"
    "children d' = (children d1)(p := filter (\<lambda>x. x \<notin> set xs) (children d1 p))"
    using Cons.IH [OF d1(2)] Cons.prems(2) by force
  have "(\<lambda>x. x \<notin> set xs \<and> x \<noteq> c) = (\<lambda>x. x \<notin> set (c # xs))" by (auto simp: fun_eq_iff)
  then show ?case using d1 d' by (simp add: conj_commute fun_eq_iff)
qed simp

lemma filter_slice:
  assumes "distinct xs" "s \<le> e"
  shows "filter (\<lambda>x. x \<notin> set (take (e - s) (drop s xs))) xs = take s xs @ drop e xs"
proof -
  define us where "us = take s xs"
  define vs where "vs = take (e - s) (drop s xs)"
  define ws where "ws = drop e xs"
  have "drop (e - s) (drop s xs) = ws" using assms(2) by (simp add: ws_def)
  then have xs: "xs = us @ vs @ ws" using append_take_drop_id [of s xs] append_take_drop_id [of "e - s" "drop s xs"]
    by (metis us_def vs_def)
  have "distinct (us @ vs @ ws)" using assms(1) xs by simp
  then have "set us \<inter> set vs = {}" "set ws \<inter> set vs = {}" by auto
  then have "filter (\<lambda>x. x \<notin> set vs) us = us" "filter (\<lambda>x. x \<notin> set vs) ws = ws"
    by (intro filter_True; blast)+
  moreover have "filter (\<lambda>x. x \<notin> set vs) vs = []" by (simp add: filter_empty_conv)
  ultimately have "filter (\<lambda>x. x \<notin> set vs) xs = us @ ws" by (subst xs) simp
  then show ?thesis by (simp only: us_def vs_def ws_def)
qed

section \<open>Properties\<close>

text \<open>C37: a tree walker visits its tree in document order. From a fresh walker, repeated \<open>next_node\<close>
  comes to an end and returns exactly the nodes below the root that the bit mask and the filter accept,
  each once, in pre-order. The descendants of a rejected node are not left out.\<close>

theorem walker_document_order:
  assumes "dom_wf d"
  shows "\<exists>ns. preorder d n (n # ns) \<and>
    walk_all d (with_filter (walker_new n what) f) =
      Some (filter (\<lambda>m. accept_node d (with_filter (walker_new n what) f) m = ACCEPT) ns)"
proof -
  obtain ns where ns: "preorder d n (n # ns)" using preorder_exists [OF assms, of n] preorder_hd by blast
  let ?w = "with_filter (walker_new n what) f"
  have "preorder d (tw_root ?w) ([] @ tw_current ?w # ns)" using ns by (simp add: with_filter_def walker_new_def)
  from walk_all_rest [OF assms this] show ?thesis using ns by blast
qed

theorem walker_document_order_witness:
  "\<exists>ns. preorder demo_doc (demo_node 1) (demo_node 1 # ns) \<and>
     walk_all demo_doc (with_filter (walker_new (demo_node 1) (- 1)) (\<lambda>_. REJECT)) =
       Some (filter (\<lambda>m. accept_node demo_doc (with_filter (walker_new (demo_node 1) (- 1)) (\<lambda>_. REJECT)) m = ACCEPT) ns)"
  by (rule walker_document_order [OF demo_wf])

text \<open>What \<open>delete_contents\<close> removes. In one container it removes exactly the children between the two
  offsets. With two containers it removes every child of their nearest common ancestor other than the
  containers themselves, those before the start and after the end of the range included, and keeps
  both containers whole.\<close>

theorem delete_contents_removes:
  assumes "dom_wf d" "\<not> collapsed g" "unat (start_offset g) \<le> unat (end_offset g)"
    and "below (parent d) t (start_container g)" "below (parent d) t (end_container g)"
    and "d_root d \<noteq> None"
    and "\<And>s. start_container g = end_container g \<Longrightarrow> node_kind_of d (start_container g) \<noteq> Some (Text s)"
  shows "\<exists>g' d'. delete_contents d g = Some (Inr (), g', d') \<and> dom_wf d' \<and> collapsed g' \<and>
    (if start_container g = end_container g
     then children d' = (children d)(start_container g :=
       take (unat (start_offset g)) (children d (start_container g)) @ drop (unat (end_offset g)) (children d (start_container g)))
     else \<exists>c. common_ancestor d g = Some c \<and>
       children d' = (children d)(c := filter (\<lambda>x. x = start_container g \<or> x = end_container g) (children d c)))"
proof (cases "start_container g = end_container g")
  case True
  let ?p = "start_container g" and ?n = "unat (end_offset g - start_offset g)"
  have n: "?n = unat (end_offset g) - unat (start_offset g)" using assms(3) by (simp add: unat_sub word_le_nat_alt)
  have "set (take ?n (drop (unat (start_offset g)) (children d ?p))) \<subseteq> set (children d ?p)"
    by (meson set_drop_subset set_take_subset order_trans)
  moreover have dist: "distinct (children d ?p)" using dom_wf_distinct [OF assms(1)] .
  ultimately obtain d' where "remove_children d ?p (take ?n (drop (unat (start_offset g)) (children d ?p))) = Some (Inr (), d')"
    "dom_wf d'" "children d' = (children d)(?p := filter (\<lambda>x. x \<notin> set (take ?n (drop (unat (start_offset g)) (children d ?p)))) (children d ?p))"
    using remove_many [OF assms(1)] by (meson distinct_drop distinct_take)
  then show ?thesis using True assms(2,7) filter_slice [OF dist assms(3)]
    by (auto simp: delete_contents_def n range_collapse_def split: option.splits node_kind.splits)
next
  case False
  obtain c where c: "common_ancestor d g = Some c" using common_ancestor_nearest [OF assms(1,4,5,6)] by blast
  let ?xs = "filter (\<lambda>x. x \<noteq> start_container g \<and> x \<noteq> end_container g) (children d c)"
  have "distinct ?xs" using dom_wf_distinct [OF assms(1)] by simp
  moreover have "set ?xs \<subseteq> set (children d c)" by auto
  ultimately obtain d' where d': "remove_each d c ?xs = Some d'" "dom_wf d'"
    "children d' = (children d)(c := filter (\<lambda>x. x \<notin> set ?xs) (children d c))"
    using remove_many [OF assms(1)] by meson
  have "filter (\<lambda>x. x \<notin> set ?xs) (children d c) = filter (\<lambda>x. x = start_container g \<or> x = end_container g) (children d c)"
    by (rule filter_cong) auto
  then show ?thesis using False assms(2) c d' by (simp add: delete_contents_def range_collapse_def)
qed

text \<open>A range from the second to the third of three children also deletes the first.\<close>

definition demo_range :: dom_range where
  "demo_range = \<lparr>start_container = demo_node 3, start_offset = 0, end_container = demo_node 4, end_offset = 0, collapsed = False\<rparr>"

lemma demo_parents:
  "parent demo_doc (demo_node 0) = None" "parent demo_doc (demo_node 3) = Some (demo_node 1)"
  by (simp_all add: demo_doc_eval dom_eval) (simp_all add: demo_node_def)

lemma demo_root: "d_root demo_doc \<noteq> None"
  by (simp add: demo_doc_eval)

lemma demo_common: "common_ancestor demo_doc demo_range = Some (demo_node 1)"
  using demo_root by (auto simp: common_ancestor_def demo_range_def ancestor_chain.simps demo_links demo_parents)

theorem delete_contents_removes_witness:
  "\<exists>g' d'. delete_contents demo_doc demo_range = Some (Inr (), g', d') \<and> children d' (demo_node 1) = [demo_node 3, demo_node 4]"
proof -
  have "below (parent demo_doc) (demo_node 1) (demo_node 3)" "below (parent demo_doc) (demo_node 1) (demo_node 4)"
    using demo_parents(2) demo_links(5) by (metis below_refl below_step)+
  then have "below (parent demo_doc) (demo_node 1) (start_container demo_range)"
    "below (parent demo_doc) (demo_node 1) (end_container demo_range)" by (simp_all add: demo_range_def)
  from delete_contents_removes [OF demo_wf _ _ this demo_root] show ?thesis
    using demo_common by (auto simp: demo_range_def demo_links)
qed

end
