(* ===== verification/Bitstream.thy ===== *)
theory Bitstream
  imports Prelude
begin

text \<open>
  The bit reader of \<^verbatim>\<open>crates/cv_compression/src/deflate.rs\<close> and the bit writer of
  \<^verbatim>\<open>encode.rs\<close>: both keep a 32-bit buffer of pending bits, least significant bit first. Each is
  related to the list of bits it stands for; reading takes bits off the front of that list, writing
  appends to it.
\<close>

section \<open>Reader\<close>

datatype inflate_error =
    Truncated
  | BadBlockType
  | BadLengthCheck
  | BadHuffmanCode
  | BadDistance
  | BadCodeLengths
  | BadBackReference

text \<open>An exit of the decoder: an error value, or a panic (an index out of range).\<close>

datatype inflate_exit = IErr inflate_error | IPanic

record bit_reader =
  br_bytes :: bytes
  br_pos :: nat
  br_buf :: u32
  br_count :: nat

definition br_new :: "bytes \<Rightarrow> bit_reader" where
  "br_new bs = \<lparr>br_bytes = bs, br_pos = 0, br_buf = 0, br_count = 0\<rparr>"

definition br_load :: "bit_reader \<Rightarrow> bit_reader" where
  "br_load br =
     br\<lparr>br_buf := br_buf br OR push_bit (br_count br) (ucast (br_bytes br ! br_pos br)),
        br_count := br_count br + 8, br_pos := br_pos br + 1\<rparr>"

definition align_to_byte :: "bit_reader \<Rightarrow> bit_reader" where
  "align_to_byte br =
     (let d = br_count br mod 8
      in br\<lparr>br_buf := drop_bit d (br_buf br), br_count := br_count br - d\<rparr>)"

function refill :: "bit_reader \<Rightarrow> bit_reader" where
  "refill br =
     (if br_count br < 24
      then (if length (br_bytes br) \<le> br_pos br then br else refill (br_load br))
      else br)"
  by auto
termination by (relation "measure (\<lambda>br. 24 - br_count br)") (auto simp: br_load_def)

function read_fill :: "bit_reader \<Rightarrow> nat \<Rightarrow> inflate_exit + bit_reader" where
  "read_fill br n =
     (if br_count br < n
      then (if length (br_bytes br) \<le> br_pos br then Inl (IErr Truncated) else read_fill (br_load br) n)
      else Inr br)"
  by auto
termination by (relation "measure (\<lambda>(br, n). n - br_count br)") (auto simp: br_load_def)

definition read_bits :: "bit_reader \<Rightarrow> nat \<Rightarrow> inflate_exit + (u32 \<times> bit_reader)" where
  "read_bits br n =
     rbind (read_fill br n) (\<lambda>br.
       Inr (br_buf br AND (push_bit n 1 - 1),
            br\<lparr>br_buf := drop_bit n (br_buf br), br_count := br_count br - n\<rparr>))"

function drain_bytes :: "bit_reader \<Rightarrow> bit_reader" where
  "drain_bytes br =
     (if 8 \<le> br_count br
      then drain_bytes (br\<lparr>br_count := br_count br - 8, br_buf := drop_bit 8 (br_buf br)\<rparr>)
      else br)"
  by auto
termination by (relation "measure br_count") auto

definition read_bytes_aligned :: "bit_reader \<Rightarrow> nat \<Rightarrow> inflate_exit + (bytes \<times> bit_reader)" where
  "read_bytes_aligned br n =
     (let br = drain_bytes (align_to_byte br)
      in if length (br_bytes br) < br_pos br + n then Inl (IErr Truncated)
         else Inr (take n (drop (br_pos br) (br_bytes br)), br\<lparr>br_pos := br_pos br + n\<rparr>))"

section \<open>Writer\<close>

record bit_writer =
  bw_out :: bytes
  bw_buf :: u32
  bw_count :: nat

definition bw_new :: bit_writer where
  "bw_new = \<lparr>bw_out = [], bw_buf = 0, bw_count = 0\<rparr>"

function write_flush :: "bit_writer \<Rightarrow> bit_writer" where
  "write_flush bw =
     (if 8 \<le> bw_count bw
      then write_flush (bw\<lparr>bw_out := bw_out bw @ [ucast (bw_buf bw AND 0xFF)],
                           bw_buf := drop_bit 8 (bw_buf bw), bw_count := bw_count bw - 8\<rparr>)
      else bw)"
  by auto
termination by (relation "measure bw_count") auto

definition write_bits :: "bit_writer \<Rightarrow> u32 \<Rightarrow> nat \<Rightarrow> bit_writer" where
  "write_bits bw v n =
     write_flush (bw\<lparr>bw_buf := bw_buf bw OR push_bit (bw_count bw) (v AND (push_bit n 1 - 1)),
                     bw_count := bw_count bw + n\<rparr>)"

definition reverse_code :: "u32 \<Rightarrow> nat \<Rightarrow> u32" where
  "reverse_code code len =
     fold (\<lambda>i r. r OR push_bit (len - 1 - i) (drop_bit i code AND 1)) [0..<len] 0"

definition write_code :: "bit_writer \<Rightarrow> u32 \<Rightarrow> nat \<Rightarrow> bit_writer" where
  "write_code bw code len = write_bits bw (reverse_code code len) len"

definition bw_finish :: "bit_writer \<Rightarrow> bytes" where
  "bw_finish bw = (if 0 < bw_count bw then bw_out bw @ [ucast (bw_buf bw AND 0xFF)] else bw_out bw)"

declare refill.simps [simp del] read_fill.simps [simp del] drain_bytes.simps [simp del]
  write_flush.simps [simp del]

section \<open>Bit lists\<close>

definition byte_bits :: "u8 \<Rightarrow> bool list" where
  "byte_bits b = map (bit b) [0..<8]"

definition bytes_bits :: "bytes \<Rightarrow> bool list" where
  "bytes_bits bs = concat (map byte_bits bs)"

definition br_bits :: "bit_reader \<Rightarrow> bool list" where
  "br_bits br = map (bit (br_buf br)) [0..<br_count br] @ bytes_bits (drop (br_pos br) (br_bytes br))"

definition bw_bits :: "bit_writer \<Rightarrow> bool list" where
  "bw_bits bw = bytes_bits (bw_out bw) @ map (bit (bw_buf bw)) [0..<bw_count bw]"

definition bits_val :: "bool list \<Rightarrow> u32" where
  "bits_val bs = horner_sum of_bool 2 bs"

definition clean_above :: "u32 \<Rightarrow> nat \<Rightarrow> bool" where
  "clean_above w n \<longleftrightarrow> (\<forall>i. bit w i \<longrightarrow> i < n)"

definition br_inv :: "bit_reader \<Rightarrow> bool" where
  "br_inv br \<longleftrightarrow> br_count br < 8 \<and> clean_above (br_buf br) (br_count br) \<and> br_pos br \<le> length (br_bytes br)"

definition bw_inv :: "bit_writer \<Rightarrow> bool" where
  "bw_inv bw \<longleftrightarrow> bw_count bw < 8 \<and> clean_above (bw_buf bw) (bw_count bw)"

lemma bytes_bits_simps [simp]:
  "bytes_bits [] = []" "bytes_bits (b # bs) = byte_bits b @ bytes_bits bs"
  "bytes_bits (xs @ ys) = bytes_bits xs @ bytes_bits ys"
  by (simp_all add: bytes_bits_def)

lemma length_byte_bits [simp]: "length (byte_bits b) = 8"
  by (simp add: byte_bits_def)

lemma length_bytes_bits [simp]: "length (bytes_bits bs) = 8 * length bs"
  by (induction bs) simp_all

lemma length_br_bits: "length (br_bits br) = br_count br + 8 * (length (br_bytes br) - br_pos br)"
  by (simp add: br_bits_def)

lemma map_bit_or_push:
  assumes "clean_above w c" and "c + k \<le> 32"
  shows "map (bit (w OR push_bit c v)) [0..<c + k] = map (bit w) [0..<c] @ map (bit v) [0..<k]"
proof (rule nth_equalityI)
  fix i assume "i < length (map (bit (w OR push_bit c v)) [0..<c + k])"
  then show "map (bit (w OR push_bit c v)) [0..<c + k] ! i = (map (bit w) [0..<c] @ map (bit v) [0..<k]) ! i"
    using assms by (auto simp: nth_append bit_or_iff bit_push_bit_iff clean_above_def)
qed simp

lemma clean_above_or_push:
  "clean_above w c \<Longrightarrow> clean_above v k \<Longrightarrow> clean_above (w OR push_bit c v) (c + k)"
  by (fastforce simp: clean_above_def bit_or_iff bit_push_bit_iff)

lemma clean_above_drop: "clean_above w c \<Longrightarrow> clean_above (drop_bit n w) (c - n)"
  by (fastforce simp: clean_above_def bit_drop_bit_eq)

lemma clean_above_ucast: "clean_above (ucast (b :: u8)) 8"
  by (auto simp: clean_above_def bit_ucast_iff dest: bit_imp_le_length)

lemma clean_above_0 [simp]: "clean_above 0 n"
  by (simp add: clean_above_def)

section \<open>Reading\<close>

lemma br_load_bits:
  assumes "br_pos br < length (br_bytes br)" and "br_count br \<le> 24" and "clean_above (br_buf br) (br_count br)"
  shows "br_bits (br_load br) = br_bits br" and "clean_above (br_buf (br_load br)) (br_count (br_load br))"
    and "br_pos (br_load br) \<le> length (br_bytes (br_load br))" and "br_bytes (br_load br) = br_bytes br"
proof -
  let ?b = "br_bytes br ! br_pos br"
  have m: "map (bit (ucast ?b :: u32)) [0..<8] = byte_bits ?b"
    by (auto simp: byte_bits_def bit_ucast_iff)
  have "drop (br_pos br) (br_bytes br) = ?b # drop (Suc (br_pos br)) (br_bytes br)"
    using assms(1) by (simp add: Cons_nth_drop_Suc)
  then show "br_bits (br_load br) = br_bits br"
    using map_bit_or_push [OF assms(3), of 8 "ucast ?b"] assms(2)
    by (simp add: br_bits_def br_load_def m)
  show "clean_above (br_buf (br_load br)) (br_count (br_load br))"
    using clean_above_or_push [OF assms(3) clean_above_ucast] by (simp add: br_load_def)
qed (use assms in \<open>auto simp: br_load_def\<close>)

lemma read_fill_spec:
  assumes "clean_above (br_buf br) (br_count br)" and "br_pos br \<le> length (br_bytes br)" and "n \<le> 24"
  shows "if length (br_bits br) < n then read_fill br n = Inl (IErr Truncated)
    else \<exists>br'. read_fill br n = Inr br' \<and> br_bits br' = br_bits br \<and> br_bytes br' = br_bytes br \<and>
      clean_above (br_buf br') (br_count br') \<and> br_pos br' \<le> length (br_bytes br') \<and>
      n \<le> br_count br' \<and> (br_count br' = br_count br \<or> br_count br' < n + 8)"
  using assms
proof (induction br n rule: read_fill.induct)
  case (1 br n)
  show ?case
  proof (cases "br_count br < n")
    case False
    then show ?thesis using 1 by (auto simp: length_br_bits read_fill.simps [of br])
  next
    case lt: True
    show ?thesis
    proof (cases "length (br_bytes br) \<le> br_pos br")
      case True
      then show ?thesis using lt 1(4) by (simp add: length_br_bits read_fill.simps [of br])
    next
      case False
      then have pos: "br_pos br < length (br_bytes br)" by simp
      note load = br_load_bits [OF pos _ 1(2)]
      have c: "br_count (br_load br) = br_count br + 8" by (simp add: br_load_def)
      have step: "read_fill br n = read_fill (br_load br) n"
        using lt False by (simp add: read_fill.simps [of br])
      have "br_count br \<le> 24" using lt 1(4) by simp
      then show ?thesis
        using 1(1) [OF lt False] load 1(4) lt unfolding step
        by (auto simp: c split: if_splits)
    qed
  qed
qed

lemma bits_val_take_map: "n \<le> c \<Longrightarrow> bits_val (take n (map (bit w) [0..<c] @ bs)) = take_bit n w"
  by (simp add: bits_val_def take_map horner_sum_bit_eq_take_bit)

lemma read_bits_spec:
  assumes "br_inv br" and "n \<le> 24"
  shows "if length (br_bits br) < n then read_bits br n = Inl (IErr Truncated)
    else \<exists>br'. read_bits br n = Inr (bits_val (take n (br_bits br)), br') \<and> br_inv br' \<and>
      br_bits br' = drop n (br_bits br) \<and> br_bytes br' = br_bytes br"
proof (cases "length (br_bits br) < n")
  case True
  then show ?thesis
    using read_fill_spec [of br n] assms by (simp add: read_bits_def br_inv_def)
next
  case False
  then obtain b where b: "read_fill br n = Inr b" "br_bits b = br_bits br" "br_bytes b = br_bytes br"
    "clean_above (br_buf b) (br_count b)" "br_pos b \<le> length (br_bytes b)" "n \<le> br_count b"
    "br_count b = br_count br \<or> br_count b < n + 8"
    using read_fill_spec [of br n] assms by (auto simp: br_inv_def)
  let ?b = "b\<lparr>br_buf := drop_bit n (br_buf b), br_count := br_count b - n\<rparr>"
  have "push_bit n 1 - 1 = (mask n :: u32)" by (simp add: mask_eq_exp_minus_1)
  then have v: "br_buf b AND (push_bit n 1 - 1) = take_bit n (br_buf b)" by (simp only: take_bit_eq_mask)
  have "map (bit (br_buf b)) [0..<br_count b] = map (bit (br_buf b)) [0..<n] @ map (bit (drop_bit n (br_buf b))) [0..<br_count b - n]"
    using b(6) by (intro nth_equalityI) (auto simp: nth_append bit_drop_bit_eq)
  then have "br_bits ?b = drop n (br_bits b)" by (simp add: br_bits_def)
  moreover have "bits_val (take n (br_bits b)) = take_bit n (br_buf b)"
    using bits_val_take_map [OF b(6)] by (simp add: br_bits_def)
  moreover have "br_inv ?b"
    using b(4-7) assms(1) clean_above_drop [OF b(4), of n] by (auto simp: br_inv_def)
  ultimately show ?thesis using False b(1-3) v by (simp add: read_bits_def)
qed

text \<open>After any read fewer than eight bits are pending, so the byte-wise drain never runs.\<close>

lemma read_bytes_aligned_spec:
  assumes "br_inv br"
  shows "read_bytes_aligned br n =
    (if length (br_bytes br) < br_pos br + n then Inl (IErr Truncated)
     else Inr (take n (drop (br_pos br) (br_bytes br)),
               \<lparr>br_bytes = br_bytes br, br_pos = br_pos br + n, br_buf = 0, br_count = 0\<rparr>))"
proof -
  have "drop_bit (br_count br) (br_buf br) = 0"
    using clean_above_drop [of "br_buf br" "br_count br" "br_count br"] assms
    by (auto simp: br_inv_def clean_above_def intro: bit_word_eqI)
  moreover have "br_count br mod 8 = br_count br" using assms by (simp add: br_inv_def)
  ultimately have "align_to_byte br = br\<lparr>br_buf := 0, br_count := 0\<rparr>"
    by (simp add: align_to_byte_def Let_def)
  then have "drain_bytes (align_to_byte br) = br\<lparr>br_buf := 0, br_count := 0\<rparr>"
    by (simp add: drain_bytes.simps)
  then show ?thesis by (simp add: read_bytes_aligned_def Let_def)
qed

lemma br_inv_aligned: "p \<le> length bs \<Longrightarrow> br_inv \<lparr>br_bytes = bs, br_pos = p, br_buf = 0, br_count = 0\<rparr>"
  by (simp add: br_inv_def)

lemma br_new_spec [simp]: "br_inv (br_new bs)" "br_bits (br_new bs) = bytes_bits bs"
  by (simp_all add: br_new_def br_inv_def br_bits_def)

section \<open>Writing\<close>

lemma byte_bits_low: "8 \<le> c \<Longrightarrow> map (bit (w :: u32)) [0..<c] = byte_bits (ucast (w AND 0xFF)) @ map (bit (drop_bit 8 w)) [0..<c - 8]"
proof -
  assume c: "8 \<le> c"
  have m: "w AND 0xFF = take_bit 8 w" by (simp add: take_bit_eq_mask mask_eq_exp_minus_1)
  show ?thesis
    using c by (intro nth_equalityI)
      (auto simp: nth_append byte_bits_def bit_drop_bit_eq bit_ucast_iff m bit_take_bit_iff)
qed

lemma write_flush_spec:
  assumes "clean_above (bw_buf bw) (bw_count bw)"
  shows "bw_inv (write_flush bw) \<and> bw_bits (write_flush bw) = bw_bits bw"
  using assms
proof (induction bw rule: write_flush.induct)
  case (1 bw)
  show ?case
  proof (cases "8 \<le> bw_count bw")
    case True
    let ?bw = "bw\<lparr>bw_out := bw_out bw @ [ucast (bw_buf bw AND 0xFF)],
                  bw_buf := drop_bit 8 (bw_buf bw), bw_count := bw_count bw - 8\<rparr>"
    have "bw_bits ?bw = bw_bits bw" using byte_bits_low [OF True, of "bw_buf bw"] by (simp add: bw_bits_def)
    moreover have "write_flush bw = write_flush ?bw" using True by (simp add: write_flush.simps [of bw])
    ultimately show ?thesis using 1(1) [OF True] clean_above_drop [OF 1(2), of 8] by simp
  next
    case False
    then show ?thesis using 1(2) by (simp add: write_flush.simps [of bw] bw_inv_def)
  qed
qed

lemma write_bits_spec:
  assumes "bw_inv bw" and "n \<le> 24"
  shows "bw_inv (write_bits bw v n) \<and> bw_bits (write_bits bw v n) = bw_bits bw @ map (bit v) [0..<n]"
proof -
  have "push_bit n 1 - 1 = (mask n :: u32)" by (simp add: mask_eq_exp_minus_1)
  then have v: "v AND (push_bit n 1 - 1) = take_bit n v" by (simp only: take_bit_eq_mask)
  let ?bw = "bw\<lparr>bw_buf := bw_buf bw OR push_bit (bw_count bw) (take_bit n v), bw_count := bw_count bw + n\<rparr>"
  have inv: "bw_count bw < 8" "clean_above (bw_buf bw) (bw_count bw)" using assms(1) by (simp_all add: bw_inv_def)
  have "clean_above (take_bit n v) n" by (auto simp: clean_above_def bit_take_bit_iff)
  then have "clean_above (bw_buf ?bw) (bw_count ?bw)" using clean_above_or_push [OF inv(2)] by simp
  moreover have "bw_bits ?bw = bw_bits bw @ map (bit v) [0..<n]"
    using map_bit_or_push [OF inv(2), of n "take_bit n v"] inv(1) assms(2)
    by (auto simp: bw_bits_def bit_take_bit_iff)
  ultimately show ?thesis
    using write_flush_spec [of ?bw] unfolding write_bits_def v by auto
qed

lemma reverse_code_step:
  assumes "k \<le> len" and "len \<le> 32"
  shows "bit (fold (\<lambda>i r. r OR push_bit (len - 1 - i) (drop_bit i (code :: u32) AND 1)) [0..<k] 0) j \<longleftrightarrow>
    (len - k \<le> j \<and> j < len \<and> bit code (len - 1 - j))"
  using assms(1)
proof (induction k)
  case 0
  then show ?case by simp
next
  case (Suc k)
  have one: "bit (push_bit (len - 1 - k) (drop_bit k code AND 1)) j \<longleftrightarrow> j = len - 1 - k \<and> bit code k"
    using Suc.prems assms(2)
    by (auto simp: bit_push_bit_iff bit_and_iff bit_exp_iff bit_drop_bit_eq)
  let ?f = "\<lambda>i r. r OR push_bit (len - 1 - i) (drop_bit i code AND 1)"
  have "fold ?f [0..<Suc k] 0 = fold ?f [0..<k] 0 OR push_bit (len - 1 - k) (drop_bit k code AND 1)"
    by (simp only: upt_Suc fold_append) simp
  then have "bit (fold ?f [0..<Suc k] 0) j \<longleftrightarrow>
      (len - k \<le> j \<and> j < len \<and> bit code (len - 1 - j)) \<or> (j = len - 1 - k \<and> bit code k)"
    using Suc by (simp only: bit_or_iff one)
  also have "\<dots> \<longleftrightarrow> len - Suc k \<le> j \<and> j < len \<and> bit code (len - 1 - j)"
  proof (cases "j = len - 1 - k")
    case True
    then have "len - 1 - j = k" "j < len" "\<not> len - k \<le> j" using Suc.prems by auto
    then show ?thesis using True by auto
  next
    case False
    then have "len - k \<le> j \<longleftrightarrow> len - Suc k \<le> j" by auto
    then show ?thesis using False by auto
  qed
  finally show ?case .
qed

lemma reverse_code_bits: "len \<le> 32 \<Longrightarrow> map (bit (reverse_code code len)) [0..<len] = map (bit code) (rev [0..<len])"
  using reverse_code_step [of len len code]
  by (intro nth_equalityI) (auto simp: reverse_code_def rev_nth)

lemma write_code_spec:
  assumes "bw_inv bw" and "len \<le> 24"
  shows "bw_inv (write_code bw code len) \<and>
    bw_bits (write_code bw code len) = bw_bits bw @ map (bit code) (rev [0..<len])"
  using write_bits_spec [OF assms, of "reverse_code code len"] reverse_code_bits [of len code] assms(2)
  by (simp add: write_code_def)

lemma bw_new_spec [simp]: "bw_inv bw_new" "bw_bits bw_new = []"
  by (simp_all add: bw_new_def bw_inv_def bw_bits_def)

lemma bw_finish_spec:
  assumes "bw_inv bw"
  shows "\<exists>k < 8. bytes_bits (bw_finish bw) = bw_bits bw @ replicate k False"
proof (cases "bw_count bw = 0")
  case True
  then show ?thesis by (intro exI [of _ 0]) (simp add: bw_finish_def bw_bits_def)
next
  case False
  have inv: "bw_count bw < 8" "clean_above (bw_buf bw) (bw_count bw)" using assms by (simp_all add: bw_inv_def)
  have m: "bw_buf bw AND 0xFF = take_bit 8 (bw_buf bw)" by (simp add: take_bit_eq_mask mask_eq_exp_minus_1)
  have "byte_bits (ucast (bw_buf bw AND 0xFF)) =
      map (bit (bw_buf bw)) [0..<bw_count bw] @ replicate (8 - bw_count bw) False"
    using inv by (intro nth_equalityI)
      (auto simp: byte_bits_def nth_append m bit_ucast_iff bit_take_bit_iff clean_above_def)
  then show ?thesis
    using False by (intro exI [of _ "8 - bw_count bw"]) (simp add: bw_finish_def bw_bits_def)
qed

end
