(* ===== verification/Deflate.thy ===== *)
theory Deflate
  imports Bitstream
begin

text \<open>
  DEFLATE (RFC 1951) as \<^verbatim>\<open>crates/cv_compression/src/deflate.rs\<close> decodes it and
  \<^verbatim>\<open>encode.rs\<close> produces it. Symbols, code values, lengths and positions are naturals: the code
  keeps them in \<open>u32\<close> and \<open>usize\<close> far below their bounds (codes have at most 15 bits). The
  buffers of the bit reader and writer and the hash are 32-bit words. Indexing that Rust checks is
  checked here too, an index out of range is \<open>IPanic\<close>.
\<close>

section \<open>Canonical Huffman codes\<close>

record huffman =
  hf_counts :: "nat list"
  hf_symbols :: "nat list"

definition MAX_BITS :: nat where "MAX_BITS = 15"

definition count_lengths :: "nat list \<Rightarrow> nat list" where
  "count_lengths lengths =
     (fold (\<lambda>l counts. counts[l := counts ! l + 1]) lengths (replicate (MAX_BITS + 1) 0))[0 := 0]"

fun kraft_left :: "int \<Rightarrow> nat list \<Rightarrow> int option" where
  "kraft_left left [] = Some left"
| "kraft_left left (c # cs) =
     (let left' = 2 * left - int c in if left' < 0 then None else kraft_left left' cs)"

definition code_offsets :: "nat list \<Rightarrow> nat list" where
  "code_offsets counts =
     fold (\<lambda>i offs. offs[i + 1 := offs ! i + counts ! i]) [1..<MAX_BITS + 1] (replicate (MAX_BITS + 2) 0)"

definition place_symbol :: "nat \<times> nat \<Rightarrow> nat list \<times> nat list \<Rightarrow> nat list \<times> nat list" where
  "place_symbol = (\<lambda>(sy, l) (symbols, cursor).
     if l = 0 then (symbols, cursor)
     else (symbols[cursor ! l := sy], cursor[l := cursor ! l + 1]))"

definition from_lengths :: "nat list \<Rightarrow> inflate_exit + huffman" where
  "from_lengths lengths =
     (if list_ex (\<lambda>l. MAX_BITS < l) lengths then Inl (IErr BadCodeLengths)
      else let counts = count_lengths lengths
           in case kraft_left 1 (tl counts) of
                None \<Rightarrow> Inl (IErr BadCodeLengths)
              | Some _ \<Rightarrow>
                  let offsets = code_offsets counts;
                      tot = offsets ! (MAX_BITS + 1);
                      symbols = fst (fold place_symbol (enumerate 0 lengths) (replicate tot 0, offsets))
                  in Inr \<lparr>hf_counts = counts, hf_symbols = symbols\<rparr>)"

text \<open>\<open>len\<close> is the loop variable, \<open>n\<close> the number of iterations left.\<close>

fun huff_loop ::
  "huffman \<Rightarrow> nat \<Rightarrow> nat \<Rightarrow> bit_reader \<Rightarrow> nat \<Rightarrow> nat \<Rightarrow> nat \<Rightarrow> inflate_exit + (nat \<times> bit_reader)" where
  "huff_loop h 0 len br code fst' index = Inl (IErr BadHuffmanCode)"
| "huff_loop h (Suc n) len br code fst' index =
     rbind (read_bits br 1) (\<lambda>(b, br').
       let code = 2 * code + unat b
       in case vec_get (hf_counts h) len of
            None \<Rightarrow> Inl IPanic
          | Some count \<Rightarrow>
              if code < fst' + count
              then if code < fst' then Inl IPanic
                   else (case vec_get (hf_symbols h) (index + (code - fst')) of
                           None \<Rightarrow> Inl IPanic
                         | Some sy \<Rightarrow> Inr (sy, br'))
              else huff_loop h n (len + 1) br' code (2 * (fst' + count)) (index + count))"

definition huff_decode :: "huffman \<Rightarrow> bit_reader \<Rightarrow> inflate_exit + (nat \<times> bit_reader)" where
  "huff_decode h br = huff_loop h MAX_BITS 1 br 0 0 0"

section \<open>Tables\<close>

definition LENGTH_BASE :: "nat list" where
  "LENGTH_BASE = [3, 4, 5, 6, 7, 8, 9, 10, 11, 13, 15, 17, 19, 23, 27, 31, 35, 43, 51, 59, 67, 83, 99,
     115, 131, 163, 195, 227, 258]"

definition LENGTH_EXTRA_BITS :: "nat list" where
  "LENGTH_EXTRA_BITS = [0, 0, 0, 0, 0, 0, 0, 0, 1, 1, 1, 1, 2, 2, 2, 2, 3, 3, 3, 3, 4, 4, 4, 4, 5, 5, 5, 5, 0]"

definition DIST_BASE :: "nat list" where
  "DIST_BASE = [1, 2, 3, 4, 5, 7, 9, 13, 17, 25, 33, 49, 65, 97, 129, 193, 257, 385, 513, 769, 1025, 1537,
     2049, 3073, 4097, 6145, 8193, 12289, 16385, 24577]"

definition DIST_EXTRA_BITS :: "nat list" where
  "DIST_EXTRA_BITS = [0, 0, 0, 0, 1, 1, 2, 2, 3, 3, 4, 4, 5, 5, 6, 6, 7, 7, 8, 8, 9, 9, 10, 10, 11, 11, 12, 12, 13, 13]"

definition CODE_LENGTH_ORDER :: "nat list" where
  "CODE_LENGTH_ORDER = [16, 17, 18, 0, 8, 7, 9, 6, 10, 5, 11, 4, 12, 3, 13, 2, 14, 1, 15]"

definition fixed_litlen_lens :: "nat list" where
  "fixed_litlen_lens = replicate 144 8 @ replicate 112 9 @ replicate 24 7 @ replicate 8 8"

definition fixed_huffman :: "inflate_exit + (huffman \<times> huffman)" where
  "fixed_huffman =
     rbind (from_lengths fixed_litlen_lens) (\<lambda>l.
     rbind (from_lengths (replicate 30 5)) (\<lambda>d. Inr (l, d)))"

section \<open>Dynamic blocks\<close>

fun read_code_lengths :: "bit_reader \<Rightarrow> nat \<Rightarrow> nat \<Rightarrow> nat list \<Rightarrow> inflate_exit + (nat list \<times> bit_reader)" where
  "read_code_lengths br i 0 lens = Inr (lens, br)"
| "read_code_lengths br i (Suc n) lens =
     rbind (read_bits br 3) (\<lambda>(v, br').
       case vec_get CODE_LENGTH_ORDER i of
         None \<Rightarrow> Inl IPanic
       | Some k \<Rightarrow> read_code_lengths br' (i + 1) n (lens[k := unat v]))"

fun bits_left :: "bit_reader \<Rightarrow> nat" where
  "bits_left br = br_count br + 8 * (length (br_bytes br) - br_pos br)"

lemma read_fill_left: "read_fill br n = Inr br' \<Longrightarrow> bits_left br' = bits_left br \<and> n \<le> br_count br'"
proof (induction br n rule: read_fill.induct)
  case (1 br n)
  show ?case
  proof (cases "br_count br < n")
    case True
    then have *: "br_pos br < length (br_bytes br)" "read_fill (br_load br) n = Inr br'"
      using 1(2) by (auto simp: read_fill.simps [of br] split: if_splits)
    then have "bits_left br' = bits_left (br_load br) \<and> n \<le> br_count br'" using 1(1) True by simp
    then show ?thesis using *(1) by (simp add: br_load_def)
  qed (use 1(2) in \<open>simp add: read_fill.simps [of br]\<close>)
qed

lemma read_bits_left: "read_bits br n = Inr (v, br') \<Longrightarrow> bits_left br' + n = bits_left br"
  by (auto simp: read_bits_def rbind_eq_Inr dest!: read_fill_left)

lemma huff_loop_left: "huff_loop h n len br code f i = Inr (s, br') \<Longrightarrow> bits_left br' < bits_left br"
proof (induction n arbitrary: len br code f i)
  case (Suc n)
  obtain b br1 where r: "read_bits br 1 = Inr (b, br1)" using Suc.prems by (auto simp: rbind_eq_Inr)
  have lt: "bits_left br1 < bits_left br" using read_bits_left [OF r] by simp
  obtain c where c: "vec_get (hf_counts h) len = Some c"
    using Suc.prems r by (cases "vec_get (hf_counts h) len") (simp_all add: Let_def)
  show ?case
  proof (cases "2 * code + unat b < f + c")
    case True
    then have "br' = br1"
      using Suc.prems r c by (simp add: Let_def split: if_splits option.splits)
    then show ?thesis using lt by simp
  next
    case False
    then have "huff_loop h n (len + 1) br1 (2 * code + unat b) (2 * (f + c)) (i + c) = Inr (s, br')"
      using Suc.prems r c by (simp add: Let_def)
    then show ?thesis using Suc.IH lt by fastforce
  qed
qed simp

lemma huff_decode_left: "huff_decode h br = Inr (s, br') \<Longrightarrow> bits_left br' < bits_left br"
  unfolding huff_decode_def by (rule huff_loop_left)

declare bits_left.simps [simp del]

function read_lengths ::
  "huffman \<Rightarrow> nat \<Rightarrow> bit_reader \<Rightarrow> nat \<Rightarrow> nat list \<Rightarrow> inflate_exit + (nat list \<times> bit_reader)" where
  "read_lengths cl tot br idx lengths =
     (if idx < tot
      then rbind (huff_decode cl br) (\<lambda>(sy, br1).
        if sy \<le> 15 then read_lengths cl tot br1 (idx + 1) (lengths[idx := sy])
        else if sy = 16 then
          if idx = 0 then Inl (IErr BadCodeLengths)
          else rbind (read_bits br1 2) (\<lambda>(v, br2).
            let repeat = unat v + 3
            in if tot < idx + repeat then Inl (IErr BadCodeLengths)
               else read_lengths cl tot br2 (idx + repeat)
                      (fold (\<lambda>j ls. ls[idx + j := lengths ! (idx - 1)]) [0..<repeat] lengths))
        else if sy = 17 then
          rbind (read_bits br1 3) (\<lambda>(v, br2).
            let repeat = unat v + 3
            in if tot < idx + repeat then Inl (IErr BadCodeLengths)
               else read_lengths cl tot br2 (idx + repeat) lengths)
        else if sy = 18 then
          rbind (read_bits br1 7) (\<lambda>(v, br2).
            let repeat = unat v + 11
            in if tot < idx + repeat then Inl (IErr BadCodeLengths)
               else read_lengths cl tot br2 (idx + repeat) lengths)
        else Inl (IErr BadCodeLengths))
      else Inr (lengths, br))"
  by pat_completeness auto
termination
  by (relation "measure (\<lambda>(cl, tot, br, idx, lengths). tot - idx)") auto

declare read_lengths.simps [simp del]

definition read_dynamic_huffman :: "bit_reader \<Rightarrow> inflate_exit + ((huffman \<times> huffman) \<times> bit_reader)" where
  "read_dynamic_huffman br =
     rbind (read_bits br 5) (\<lambda>(v1, br1). let hlit = unat v1 + 257 in
     rbind (read_bits br1 5) (\<lambda>(v2, br2). let hdist = unat v2 + 1 in
     rbind (read_bits br2 4) (\<lambda>(v3, br3). let hclen = unat v3 + 4 in
     rbind (read_code_lengths br3 0 hclen (replicate 19 0)) (\<lambda>(cls, br4).
     rbind (from_lengths cls) (\<lambda>cl.
     rbind (read_lengths cl (hlit + hdist) br4 0 (replicate (hlit + hdist) 0)) (\<lambda>(lengths, br5).
     rbind (from_lengths (take hlit lengths)) (\<lambda>litlen.
     rbind (from_lengths (drop hlit lengths)) (\<lambda>dist.
       Inr ((litlen, dist), br5)))))))))"

section \<open>Blocks\<close>

text \<open>The copy of a back-reference: byte \<open>i\<close> is \<open>out[start + i % distance]\<close>.\<close>

fun copy_match :: "nat \<Rightarrow> nat \<Rightarrow> nat \<Rightarrow> nat \<Rightarrow> bytes \<Rightarrow> bytes option" where
  "copy_match start distance i 0 out = Some out"
| "copy_match start distance i (Suc n) out =
     (case vec_get out (start + i mod distance) of
        None \<Rightarrow> None
      | Some b \<Rightarrow> copy_match start distance (i + 1) n (out @ [b]))"

definition read_extra :: "bit_reader \<Rightarrow> nat \<Rightarrow> inflate_exit + (nat \<times> bit_reader)" where
  "read_extra br extra =
     (if 0 < extra then rbind (read_bits br extra) (\<lambda>(v, br'). Inr (unat v, br')) else Inr (0, br))"

lemma read_extra_left: "read_extra br n = Inr (v, br') \<Longrightarrow> bits_left br' \<le> bits_left br"
  by (auto simp: read_extra_def rbind_eq_Inr split: if_splits dest!: read_bits_left)

text \<open>The length and distance of a back-reference whose length symbol is \<open>sy\<close>.\<close>

definition read_match :: "huffman \<Rightarrow> bit_reader \<Rightarrow> nat \<Rightarrow> inflate_exit + (nat \<times> nat \<times> bit_reader)" where
  "read_match dist br sy =
     (let li = sy - 257
      in if length LENGTH_BASE \<le> li then Inl (IErr BadHuffmanCode)
         else rbind (read_extra br (LENGTH_EXTRA_BITS ! li)) (\<lambda>(lx, br2).
              rbind (huff_decode dist br2) (\<lambda>(dsy, br3).
                if length DIST_BASE \<le> dsy then Inl (IErr BadDistance)
                else rbind (read_extra br3 (DIST_EXTRA_BITS ! dsy)) (\<lambda>(dx, br4).
                  Inr (LENGTH_BASE ! li + lx, DIST_BASE ! dsy + dx, br4)))))"

lemma read_match_left: "read_match d br sy = Inr (len, dist, br') \<Longrightarrow> bits_left br' < bits_left br"
  by (fastforce simp: read_match_def rbind_eq_Inr Let_def split: if_splits
      dest!: huff_decode_left read_extra_left)

function inflate_block ::
  "bit_reader \<Rightarrow> huffman \<Rightarrow> huffman \<Rightarrow> bytes \<Rightarrow> inflate_exit + (bytes \<times> bit_reader)" where
  "inflate_block br litlen dist out =
     rbind (huff_decode litlen br) (\<lambda>(sy, br1).
       if sy < 256 then inflate_block br1 litlen dist (out @ [of_nat sy])
       else if sy = 256 then Inr (out, br1)
       else rbind (read_match dist br1 sy) (\<lambda>(len, distance, br4).
         if distance = 0 \<or> length out < distance then Inl (IErr BadBackReference)
         else (case copy_match (length out - distance) distance 0 len out of
                 None \<Rightarrow> Inl IPanic
               | Some out' \<Rightarrow> inflate_block br4 litlen dist out')))"
  by pat_completeness auto
termination
proof (relation "measure (\<lambda>(br, litlen, dist, out). bits_left br)")
qed (fastforce dest: huff_decode_left read_match_left)+

declare inflate_block.simps [simp del]

lemma inflate_block_left: "inflate_block br l d out = Inr (out', br') \<Longrightarrow> bits_left br' < bits_left br"
proof (induction "bits_left br" arbitrary: br out rule: less_induct)
  case less
  obtain sy b where x: "huff_decode l br = Inr (sy, b)"
    using less.prems by (auto simp: inflate_block.simps [of br] rbind_eq_Inr)
  have lx: "bits_left b < bits_left br" using x by (rule huff_decode_left)
  have IH: "bits_left br' < bits_left br" if "inflate_block b l d o' = Inr (out', br')" "bits_left b < bits_left br" for b o'
    using less.hyps [OF that(2,1)] that(2) by simp
  consider (lit) "sy < 256" | (eob) "sy = 256" | (ref) "256 < sy" by linarith
  then show ?case
  proof cases
    case lit
    then show ?thesis using less.prems x IH [OF _ lx] by (simp add: inflate_block.simps [of br])
  next
    case eob
    then show ?thesis using less.prems x lx by (simp add: inflate_block.simps [of br])
  next
    case ref
    then obtain len dist b4 o' where m: "read_match d b sy = Inr (len, dist, b4)" and
      o: "inflate_block b4 l d o' = Inr (out', br')"
      using less.prems x
      by (auto simp: inflate_block.simps [of br] rbind_eq_Inr split: if_splits option.splits)
    then show ?thesis using IH [OF o] read_match_left [OF m] lx by simp
  qed
qed

lemma read_code_lengths_left: "read_code_lengths br i n ls = Inr (ls', br') \<Longrightarrow> bits_left br' \<le> bits_left br"
proof (induction br i n ls rule: read_code_lengths.induct)
  case (2 br i n ls)
  obtain v b k where *: "read_bits br 3 = Inr (v, b)" "vec_get CODE_LENGTH_ORDER i = Some k"
    "read_code_lengths b (i + 1) n (ls[k := unat v]) = Inr (ls', br')"
    using 2(2) by (auto simp: rbind_eq_Inr split: option.splits)
  then have "bits_left br' \<le> bits_left b" using 2(1) by auto
  then show ?case using read_bits_left [OF *(1)] by simp
qed simp

lemma read_lengths_left: "read_lengths cl tot br idx ls = Inr (ls', br') \<Longrightarrow> bits_left br' \<le> bits_left br"
proof (induction "bits_left br" arbitrary: br idx ls rule: less_induct)
  case less
  show ?case
  proof (cases "idx < tot")
    case True
    obtain sy br1 where d: "huff_decode cl br = Inr (sy, br1)"
      using less.prems True by (auto simp: read_lengths.simps [of cl tot br] rbind_eq_Inr)
    have l1: "bits_left br1 < bits_left br" using d by (rule huff_decode_left)
    obtain b idx' ls'' where "read_lengths cl tot b idx' ls'' = Inr (ls', br')" "bits_left b \<le> bits_left br1"
      using less.prems True d
      by (auto simp: read_lengths.simps [of cl tot br] rbind_eq_Inr Let_def split: if_splits
          dest: read_bits_left)
    then show ?thesis using less.hyps [of b idx' ls''] l1 by fastforce
  next
    case False
    then show ?thesis using less.prems by (simp add: read_lengths.simps [of cl tot br])
  qed
qed

lemma read_dynamic_left: "read_dynamic_huffman br = Inr (hs, br') \<Longrightarrow> bits_left br' \<le> bits_left br"
  unfolding read_dynamic_huffman_def
  by (fastforce simp: rbind_eq_Inr Let_def dest!: read_bits_left read_code_lengths_left read_lengths_left)

definition from_le16 :: "u8 \<Rightarrow> u8 \<Rightarrow> nat" where
  "from_le16 a b = unat a + 256 * unat b"

definition read_stored :: "bit_reader \<Rightarrow> inflate_exit + (bytes \<times> bit_reader)" where
  "read_stored br =
     rbind (read_bytes_aligned br 4) (\<lambda>(hdr, br1).
       let len = from_le16 (hdr ! 0) (hdr ! 1);
           nlen = from_le16 (hdr ! 2) (hdr ! 3)
       in if len XOR 0xFFFF \<noteq> nlen then Inl (IErr BadLengthCheck)
          else read_bytes_aligned br1 len)"

lemma align_left: "bits_left (drain_bytes (align_to_byte br)) \<le> bits_left br"
proof -
  have "bits_left (drain_bytes b) \<le> bits_left b" for b
  proof (induction b rule: drain_bytes.induct)
    case (1 b)
    let ?b = "b\<lparr>br_count := br_count b - 8, br_buf := drop_bit 8 (br_buf b)\<rparr>"
    have "bits_left ?b \<le> bits_left b" by (simp add: bits_left.simps)
    then show ?case
      using 1 by (cases "8 \<le> br_count b") (simp_all add: drain_bytes.simps [of b])
  qed
  then show ?thesis
    by (rule order_trans) (simp add: align_to_byte_def Let_def bits_left.simps)
qed

lemma read_bytes_aligned_left: "read_bytes_aligned br n = Inr (bs, br') \<Longrightarrow> bits_left br' \<le> bits_left br"
proof -
  assume *: "read_bytes_aligned br n = Inr (bs, br')"
  let ?b = "drain_bytes (align_to_byte br)"
  have "br' = ?b\<lparr>br_pos := br_pos ?b + n\<rparr>"
    using * by (auto simp: read_bytes_aligned_def Let_def split: if_splits)
  then have "bits_left br' \<le> bits_left ?b" by (simp add: bits_left.simps)
  then show ?thesis using align_left [of br] by simp
qed

lemma read_stored_left: "read_stored br = Inr (bs, br') \<Longrightarrow> bits_left br' \<le> bits_left br"
  by (fastforce simp: read_stored_def rbind_eq_Inr Let_def split: if_splits dest!: read_bytes_aligned_left)

definition inflate_body :: "bit_reader \<Rightarrow> u32 \<Rightarrow> bytes \<Rightarrow> inflate_exit + (bytes \<times> bit_reader)" where
  "inflate_body br btype out =
     (if btype = 0 then rbind (read_stored br) (\<lambda>(data, br'). Inr (out @ data, br'))
      else if btype = 1 then
        rbind fixed_huffman (\<lambda>(litlen, dist). inflate_block br litlen dist out)
      else if btype = 2 then
        rbind (read_dynamic_huffman br) (\<lambda>((litlen, dist), br'). inflate_block br' litlen dist out)
      else Inl (IErr BadBlockType))"

lemma inflate_body_left: "inflate_body br t out = Inr (out', br') \<Longrightarrow> bits_left br' \<le> bits_left br"
  by (fastforce simp: inflate_body_def rbind_eq_Inr split: if_splits
      dest!: read_stored_left inflate_block_left read_dynamic_left)

function inflate_loop :: "bit_reader \<Rightarrow> bytes \<Rightarrow> inflate_exit + bytes" where
  "inflate_loop br out =
     rbind (read_bits br 1) (\<lambda>(f, br1).
     rbind (read_bits br1 2) (\<lambda>(btype, br2).
     rbind (inflate_body br2 btype out) (\<lambda>(out', br3).
       if f = 1 then Inr out' else inflate_loop br3 out')))"
  by pat_completeness auto
termination
  by (relation "measure (\<lambda>(br, out). bits_left br)")
    (fastforce dest!: read_bits_left inflate_body_left)+

declare inflate_loop.simps [simp del]

definition inflate :: "bytes \<Rightarrow> inflate_exit + bytes" where
  "inflate input = inflate_loop (br_new input) []"

section \<open>The encoder\<close>

definition WINDOW_SIZE :: nat where "WINDOW_SIZE = 32768"
definition MIN_MATCH :: nat where "MIN_MATCH = 3"
definition MAX_MATCH :: nat where "MAX_MATCH = 258"
definition MAX_CHAIN :: nat where "MAX_CHAIN = 256"

text \<open>Symbols above 287 are \<open>unreachable!\<close> in the code; the last branch covers 280 to 287.\<close>

definition fixed_litlen_code :: "nat \<Rightarrow> u32 \<times> nat" where
  "fixed_litlen_code sy =
     (if sy \<le> 143 then (of_nat (48 + sy), 8)
      else if sy \<le> 255 then (of_nat (400 + (sy - 144)), 9)
      else if sy \<le> 279 then (of_nat (sy - 256), 7)
      else (of_nat (192 + (sy - 280)), 8))"

definition fixed_dist_code :: "nat \<Rightarrow> u32 \<times> nat" where
  "fixed_dist_code sy = (of_nat sy, 5)"

fun base_index :: "nat list \<Rightarrow> nat \<Rightarrow> nat \<Rightarrow> nat" where
  "base_index base 0 x = 0"
| "base_index base (Suc idx) x = (if x < base ! Suc idx then base_index base idx x else Suc idx)"

definition length_to_code :: "nat \<Rightarrow> nat \<times> nat \<times> nat" where
  "length_to_code len =
     (let idx = base_index LENGTH_BASE 28 len
      in (257 + idx, LENGTH_EXTRA_BITS ! idx, len - LENGTH_BASE ! idx))"

definition distance_to_code :: "nat \<Rightarrow> nat \<times> nat \<times> nat" where
  "distance_to_code distance =
     (let idx = base_index DIST_BASE 29 distance
      in (idx, DIST_EXTRA_BITS ! idx, distance - DIST_BASE ! idx))"

definition hash3 :: "u8 \<Rightarrow> u8 \<Rightarrow> u8 \<Rightarrow> nat" where
  "hash3 a b c =
     (let v = (push_bit 16 (ucast a) OR push_bit 8 (ucast b) OR ucast c :: u32)
      in unat (drop_bit 17 (v * 0x9E3779B1)))"

text \<open>
  The hash chains: \<open>head\<close> and \<open>prev\<close> are vectors of positions in which \<open>usize::MAX\<close> is "none",
  here maps from an index to a position.
\<close>

type_synonym chains = "(nat \<rightharpoonup> nat) \<times> (nat \<rightharpoonup> nat)"

definition hash_insert :: "bytes \<Rightarrow> nat \<Rightarrow> chains \<Rightarrow> chains" where
  "hash_insert input pos = (\<lambda>(head, prev).
     if pos + MIN_MATCH \<le> length input
     then let h = hash3 (input ! pos) (input ! (pos + 1)) (input ! (pos + 2))
          in (head(h \<mapsto> pos), prev(pos := head h))
     else (head, prev))"

function match_len :: "bytes \<Rightarrow> nat \<Rightarrow> nat \<Rightarrow> nat \<Rightarrow> nat \<Rightarrow> nat" where
  "match_len input cand pos max_len l =
     (if l < max_len \<and> input ! (cand + l) = input ! (pos + l)
      then match_len input cand pos max_len (l + 1) else l)"
  by pat_completeness auto
termination by (relation "measure (\<lambda>(i, c, p, m, l). m - l)") auto

declare match_len.simps [simp del]

text \<open>\<open>n\<close> is the number of chain links still allowed (\<open>MAX_CHAIN - chain\<close>).\<close>

fun find_match ::
  "bytes \<Rightarrow> (nat \<rightharpoonup> nat) \<Rightarrow> nat \<Rightarrow> nat \<Rightarrow> nat \<Rightarrow> nat option \<Rightarrow> nat \<Rightarrow> nat \<Rightarrow> nat \<Rightarrow> nat \<times> nat" where
  "find_match input prev pos max_len window_start cand 0 best_len best_dist = (best_len, best_dist)"
| "find_match input prev pos max_len window_start None (Suc n) best_len best_dist = (best_len, best_dist)"
| "find_match input prev pos max_len window_start (Some cand) (Suc n) best_len best_dist =
     (if window_start \<le> cand
      then if best_len = 0 \<or>
              (cand + best_len < length input \<and> input ! (cand + best_len) = input ! (pos + best_len))
           then let l = match_len input cand pos max_len 0
                in if best_len < l
                   then if max_len \<le> l then (l, pos - cand)
                        else find_match input prev pos max_len window_start (prev cand) n l (pos - cand)
                   else find_match input prev pos max_len window_start (prev cand) n best_len best_dist
           else find_match input prev pos max_len window_start (prev cand) n best_len best_dist
      else (best_len, best_dist))"

definition best_match :: "bytes \<Rightarrow> chains \<Rightarrow> nat \<Rightarrow> nat \<times> nat" where
  "best_match input ch pos =
     (if pos + MIN_MATCH \<le> length input
      then find_match input (snd ch) pos (min (length input - pos) MAX_MATCH) (pos - WINDOW_SIZE)
             (fst ch (hash3 (input ! pos) (input ! (pos + 1)) (input ! (pos + 2)))) MAX_CHAIN 0 0
      else (0, 0))"

definition emit_symbol :: "bit_writer \<Rightarrow> nat \<Rightarrow> bit_writer" where
  "emit_symbol bw sy = (let (code, len) = fixed_litlen_code sy in write_code bw code len)"

definition write_extra :: "bit_writer \<Rightarrow> nat \<Rightarrow> nat \<Rightarrow> bit_writer" where
  "write_extra bw v n = (if 0 < n then write_bits bw (of_nat v) n else bw)"

definition emit_match :: "bit_writer \<Rightarrow> nat \<Rightarrow> nat \<Rightarrow> bit_writer" where
  "emit_match bw best_len best_dist =
     (let (lc, lx_bits, lx) = length_to_code best_len;
          bw = write_extra (emit_symbol bw lc) lx lx_bits;
          (dc, dx_bits, dx) = distance_to_code best_dist;
          (code, len) = fixed_dist_code dc
      in write_extra (write_code bw code len) dx dx_bits)"

function deflate_loop :: "bytes \<Rightarrow> bit_writer \<Rightarrow> chains \<Rightarrow> nat \<Rightarrow> bit_writer" where
  "deflate_loop input bw ch pos =
     (if pos < length input
      then let (best_len, best_dist) = best_match input ch pos
           in if MIN_MATCH \<le> best_len
              then deflate_loop input (emit_match bw best_len best_dist)
                     (fold (hash_insert input) [pos..<pos + best_len] ch) (pos + best_len)
              else deflate_loop input (emit_symbol bw (unat (input ! pos)))
                     (hash_insert input pos ch) (pos + 1)
      else bw)"
  by pat_completeness auto
termination
  by (relation "measure (\<lambda>(input, bw, ch, pos). length input - pos)") (auto simp: MIN_MATCH_def)

declare deflate_loop.simps [simp del]

definition deflate :: "bytes \<Rightarrow> bytes" where
  "deflate input =
     (let bw = write_bits (write_bits bw_new 1 1) 1 2
      in if input = [] then bw_finish (emit_symbol bw 256)
         else bw_finish (emit_symbol (deflate_loop input bw (Map.empty, Map.empty) 0) 256))"

end
