(* ===== verification/Huffman.thy ===== *)
theory Huffman
  imports Deflate
begin

text \<open>
  Canonical Huffman tables (RFC 1951, 3.2.2). \<open>from_lengths\<close> is a counting sort: the table lists
  the symbols by code length and, within a length, in increasing order. Decoding the bits of the
  canonical code of a symbol, most significant bit first, gives that symbol back, and decoding never
  indexes out of range.
\<close>

section \<open>The counting sort\<close>

definition occ :: "nat list \<Rightarrow> nat \<Rightarrow> nat list" where
  "occ xs l = filter (\<lambda>s. xs ! s = l) [0..<length xs]"

lemma occ_snoc: "occ (xs @ [x]) l = occ xs l @ (if x = l then [length xs] else [])"
proof -
  have "filter (\<lambda>s. (xs @ [x]) ! s = l) [0..<length xs] = occ xs l"
    unfolding occ_def by (rule filter_cong) (auto simp: nth_append)
  then show ?thesis by (simp add: occ_def)
qed

lemma length_occ: "length (occ xs l) = count_list xs l"
  by (induction xs rule: rev_induct) (auto simp: occ_snoc, simp add: occ_def)

lemma count_fold:
  "(\<forall>l \<in> set xs. l \<le> MAX_BITS) \<Longrightarrow> length cs = MAX_BITS + 1 \<Longrightarrow>
   length (fold (\<lambda>l counts. counts[l := counts ! l + 1]) xs cs) = MAX_BITS + 1 \<and>
   (\<forall>l \<le> MAX_BITS. fold (\<lambda>l counts. counts[l := counts ! l + 1]) xs cs ! l = cs ! l + count_list xs l)"
proof (induction xs arbitrary: cs)
  case (Cons x xs)
  let ?cs = "cs[x := cs ! x + 1]"
  have "x \<le> MAX_BITS" using Cons.prems by simp
  then show ?case using Cons.IH [of ?cs] Cons.prems by (auto simp: nth_list_update)
qed simp

lemma count_lengths_nth:
  assumes "\<forall>l \<in> set xs. l \<le> MAX_BITS"
  shows "length (count_lengths xs) = MAX_BITS + 1"
    and "l \<le> MAX_BITS \<Longrightarrow> count_lengths xs ! l = (if l = 0 then 0 else count_list xs l)"
  using count_fold [OF assms, of "replicate (MAX_BITS + 1) 0"]
  by (auto simp: count_lengths_def nth_list_update)

definition hindex :: "nat list \<Rightarrow> nat \<Rightarrow> nat" where
  "hindex cs l = (\<Sum>j = 1..<l. cs ! j)"

lemma hindex_Suc: "1 \<le> l \<Longrightarrow> hindex cs (Suc l) = hindex cs l + cs ! l"
  by (simp add: hindex_def)

lemma hindex_mono: "l \<le> l' \<Longrightarrow> hindex cs l \<le> hindex cs l'"
  unfolding hindex_def by (rule sum_mono2) auto

lemma hindex_gap: "1 \<le> l \<Longrightarrow> l < l' \<Longrightarrow> hindex cs l + cs ! l \<le> hindex cs l'"
  using hindex_mono [of "Suc l" l' cs] by (simp add: hindex_Suc)

lemma code_offsets_fold:
  assumes "1 \<le> k" and "k \<le> MAX_BITS + 1"
  shows "length (fold (\<lambda>i offs. offs[i + 1 := offs ! i + cs ! i]) [1..<k] (replicate (MAX_BITS + 2) 0)) = MAX_BITS + 2 \<and>
    (\<forall>l. 1 \<le> l \<and> l \<le> k \<longrightarrow>
      fold (\<lambda>i offs. offs[i + 1 := offs ! i + cs ! i]) [1..<k] (replicate (MAX_BITS + 2) 0) ! l = hindex cs l)"
  using assms
proof (induction k rule: nat_induct_at_least)
  case base
  then show ?case by (auto simp: hindex_def MAX_BITS_def)
next
  case (Suc k)
  have IH: "length (fold (\<lambda>i offs. offs[i + 1 := offs ! i + cs ! i]) [1..<k] (replicate (MAX_BITS + 2) 0)) = MAX_BITS + 2 \<and>
    (\<forall>l. 1 \<le> l \<and> l \<le> k \<longrightarrow>
      fold (\<lambda>i offs. offs[i + 1 := offs ! i + cs ! i]) [1..<k] (replicate (MAX_BITS + 2) 0) ! l = hindex cs l)"
    using Suc by simp
  have "[1..<Suc k] = [1..<k] @ [k]" using Suc by simp
  then show ?case
    using IH Suc by (auto simp: nth_list_update hindex_Suc le_Suc_eq)
qed

lemma code_offsets_nth:
  "length (code_offsets cs) = MAX_BITS + 2"
  "1 \<le> l \<Longrightarrow> l \<le> MAX_BITS + 1 \<Longrightarrow> code_offsets cs ! l = hindex cs l"
  using code_offsets_fold [of "MAX_BITS + 1" cs] by (simp_all add: code_offsets_def)

definition sorted_prefix :: "nat list \<Rightarrow> nat list \<Rightarrow> nat list \<times> nat list \<Rightarrow> bool" where
  "sorted_prefix cs xs st \<longleftrightarrow>
     length (fst st) = hindex cs (MAX_BITS + 1) \<and> length (snd st) = MAX_BITS + 2 \<and>
     (\<forall>l. 1 \<le> l \<and> l \<le> MAX_BITS \<longrightarrow>
        snd st ! l = hindex cs l + count_list xs l \<and>
        (\<forall>j < count_list xs l. fst st ! (hindex cs l + j) = occ xs l ! j))"

lemma place_step:
  assumes "sorted_prefix cs xs st" and "x \<le> MAX_BITS"
    and "\<And>l. 1 \<le> l \<Longrightarrow> l \<le> MAX_BITS \<Longrightarrow> count_list (xs @ [x]) l \<le> cs ! l"
  shows "sorted_prefix cs (xs @ [x]) (place_symbol (length xs, x) st)"
proof (cases "x = 0")
  case True
  then show ?thesis using assms(1)
    by (auto simp: sorted_prefix_def place_symbol_def occ_snoc split: prod.split)
next
  case False
  obtain symbols cursor where st: "st = (symbols, cursor)" by (cases st)
  have x: "1 \<le> x" "x \<le> MAX_BITS" using False assms(2) by auto
  have inv: "length symbols = hindex cs (MAX_BITS + 1)" "length cursor = MAX_BITS + 2"
    "\<And>l. 1 \<le> l \<Longrightarrow> l \<le> MAX_BITS \<Longrightarrow> cursor ! l = hindex cs l + count_list xs l"
    "\<And>l j. 1 \<le> l \<Longrightarrow> l \<le> MAX_BITS \<Longrightarrow> j < count_list xs l \<Longrightarrow> symbols ! (hindex cs l + j) = occ xs l ! j"
    using assms(1) by (auto simp: sorted_prefix_def st)
  have cx: "count_list xs x < cs ! x" using assms(3) [OF x] by simp
  have slot: "hindex cs x + count_list xs x < length symbols"
    using hindex_gap [of x "MAX_BITS + 1" cs] x cx by (simp add: inv(1))
  have apart: "hindex cs l + j \<noteq> hindex cs x + count_list xs x"
    if l: "1 \<le> l" "l \<le> MAX_BITS" and j: "j < count_list xs l" for l j
  proof -
    have jl: "j < cs ! l" using assms(3) [OF l] j by (auto split: if_splits)
    consider "l = x" | "l < x" | "x < l" by linarith
    then show ?thesis
    proof cases
      case 1 then show ?thesis using j by simp
    next
      case 2 then show ?thesis using hindex_gap [OF l(1) 2, of cs] jl by simp
    next
      case 3 then show ?thesis using hindex_gap [OF x(1) 3, of cs] cx by simp
    qed
  qed
  have p: "place_symbol (length xs, x) st =
      (symbols[hindex cs x + count_list xs x := length xs], cursor[x := Suc (hindex cs x + count_list xs x)])"
    using False inv(3) [OF x] by (simp add: place_symbol_def st)
  have "symbols[hindex cs x + count_list xs x := length xs] ! (hindex cs l + j) = occ (xs @ [x]) l ! j"
    if l: "1 \<le> l" "l \<le> MAX_BITS" and j: "j < count_list (xs @ [x]) l" for l j
  proof (cases "l = x \<and> j = count_list xs x")
    case True
    then show ?thesis using slot by (simp add: occ_snoc nth_append length_occ)
  next
    case False
    then have j': "j < count_list xs l" using j by (auto split: if_splits)
    then show ?thesis
      using apart [OF l j'] inv(4) [OF l j'] by (simp add: occ_snoc nth_append length_occ eq_commute)
  qed
  then show ?thesis
    using inv x by (auto simp: sorted_prefix_def p nth_list_update)
qed

lemma place_all:
  assumes "\<forall>l \<in> set xs. l \<le> MAX_BITS"
    and "\<And>l. 1 \<le> l \<Longrightarrow> l \<le> MAX_BITS \<Longrightarrow> count_list xs l \<le> cs ! l"
  shows "sorted_prefix cs xs (fold place_symbol (enumerate 0 xs) (replicate (hindex cs (MAX_BITS + 1)) 0, code_offsets cs))"
  using assms
proof (induction xs rule: rev_induct)
  case Nil
  then show ?case using code_offsets_nth(1) [of cs] code_offsets_nth(2) [of _ cs] by (auto simp: sorted_prefix_def)
next
  case (snoc x xs)
  have "count_list xs l \<le> cs ! l" if "1 \<le> l" "l \<le> MAX_BITS" for l
    using snoc.prems(2) [OF that] by (auto split: if_splits)
  then show ?case
    using place_step [OF snoc.IH, of x] snoc.prems by (simp add: enumerate_append_eq)
qed

definition huff_ok :: "nat list \<Rightarrow> huffman \<Rightarrow> bool" where
  "huff_ok xs h \<longleftrightarrow>
     length (hf_counts h) = MAX_BITS + 1 \<and>
     (\<forall>l. 1 \<le> l \<and> l \<le> MAX_BITS \<longrightarrow> hf_counts h ! l = length (occ xs l)) \<and>
     length (hf_symbols h) = hindex (hf_counts h) (MAX_BITS + 1) \<and>
     (\<forall>l. 1 \<le> l \<and> l \<le> MAX_BITS \<longrightarrow>
        (\<forall>j < length (occ xs l). hf_symbols h ! (hindex (hf_counts h) l + j) = occ xs l ! j))"

lemma from_lengths_ok:
  assumes "from_lengths xs = Inr h"
  shows "huff_ok xs h" and "\<forall>l \<in> set xs. l \<le> MAX_BITS"
proof -
  let ?cs = "count_lengths xs"
  show le: "\<forall>l \<in> set xs. l \<le> MAX_BITS"
    using assms by (auto simp: from_lengths_def list_ex_iff not_less split: if_splits)
  have h: "h = \<lparr>hf_counts = ?cs, hf_symbols =
      fst (fold place_symbol (enumerate 0 xs) (replicate (hindex ?cs (MAX_BITS + 1)) 0, code_offsets ?cs))\<rparr>"
    using assms code_offsets_nth(2) [of "MAX_BITS + 1" ?cs]
    by (auto simp: from_lengths_def Let_def split: if_splits option.splits)
  have c: "?cs ! l = count_list xs l" if "1 \<le> l" "l \<le> MAX_BITS" for l
    using count_lengths_nth(2) [OF le, of l] that by simp
  have "sorted_prefix ?cs xs (fold place_symbol (enumerate 0 xs) (replicate (hindex ?cs (MAX_BITS + 1)) 0, code_offsets ?cs))"
    by (rule place_all [OF le]) (simp add: c)
  then show "huff_ok xs h"
    using count_lengths_nth(1) [OF le] c by (auto simp: huff_ok_def h sorted_prefix_def length_occ)
qed

section \<open>Decoding\<close>

primrec hfirst :: "nat list \<Rightarrow> nat \<Rightarrow> nat" where
  "hfirst cs 0 = 0"
| "hfirst cs (Suc l) = (if l = 0 then 0 else 2 * (hfirst cs l + cs ! l))"

definition msb_bits :: "nat \<Rightarrow> nat \<Rightarrow> bool list" where
  "msb_bits c n = map (bit c) (rev [0..<n])"

lemma msb_bits_Suc: "msb_bits c (Suc n) = bit c n # msb_bits c n"
  by (simp add: msb_bits_def)

lemma read_bit_spec:
  assumes "br_inv br" and "br_bits br = b # bs"
  shows "\<exists>br'. read_bits br 1 = Inr (of_bool b, br') \<and> br_inv br' \<and> br_bits br' = bs"
  using read_bits_spec [OF assms(1), of 1] assms(2) by (auto simp: bits_val_def)

lemma hfirst_below:
  assumes "1 \<le> j" and "j < l" and "hfirst cs l \<le> c"
  shows "hfirst cs j + cs ! j \<le> c div 2 ^ (l - j)"
  using assms
proof (induction "l - j" arbitrary: l c)
  case (Suc n)
  then obtain l' where l: "l = Suc l'" "1 \<le> l'" "j \<le> l'" by (cases l) auto
  then have c: "hfirst cs l' + cs ! l' \<le> c div 2" using Suc.prems by simp
  show ?case
  proof (cases "j = l'")
    case True
    then show ?thesis using c l by simp
  next
    case False
    then have "hfirst cs j + cs ! j \<le> c div 2 div 2 ^ (l' - j)"
      using Suc.hyps(1) [of l' "c div 2"] Suc.hyps(2) Suc.prems l c by simp
    moreover have "c div 2 div 2 ^ (l' - j) = c div 2 ^ (l - j)"
      using l by (simp add: div_mult2_eq [symmetric] Suc_diff_le)
    ultimately show ?thesis by simp
  qed
qed simp

lemma huff_loop_code:
  assumes "length (hf_counts h) = MAX_BITS + 1" and "l \<le> MAX_BITS"
    and "hfirst (hf_counts h) l \<le> c" and "c < hfirst (hf_counts h) l + hf_counts h ! l"
    and "vec_get (hf_symbols h) (hindex (hf_counts h) l + (c - hfirst (hf_counts h) l)) = Some s"
    and "1 \<le> j" and "j \<le> l" and "br_inv br" and "br_bits br = msb_bits c (Suc (l - j)) @ rest"
  shows "\<exists>br'. huff_loop h (Suc MAX_BITS - j) j br (c div 2 ^ Suc (l - j)) (hfirst (hf_counts h) j) (hindex (hf_counts h) j) =
    Inr (s, br') \<and> br_inv br' \<and> br_bits br' = rest"
  using assms(6-)
proof (induction "l - j" arbitrary: j br)
  case 0
  then have jl: "j = l" by simp
  obtain br1 where r: "read_bits br 1 = Inr (of_bool (bit c 0), br1)" "br_inv br1" "br_bits br1 = rest"
    using read_bit_spec [OF 0(4)] 0(5) jl by (auto simp: msb_bits_def)
  have n: "Suc MAX_BITS - l = Suc (MAX_BITS - l)" using assms(2) by simp
  have code: "2 * (c div 2) + unat (of_bool (bit c 0) :: u32) = c" by (cases "even c") (simp_all add: bit_0)
  have v: "vec_get (hf_counts h) l = Some (hf_counts h ! l)" using assms(1,2) by (simp add: vec_get_def)
  show ?case
    unfolding jl n using r v assms(3-5) code by (simp add: Let_def)
next
  case (Suc n)
  then have jl: "j < l" by simp
  have k: "l - j = Suc (l - Suc j)" using jl by simp
  have "br_bits br = bit c (l - j) # msb_bits c (Suc (l - Suc j)) @ rest"
    using Suc.prems(4) by (simp only: msb_bits_Suc [of c "l - j"] k [symmetric] append_Cons)
  then obtain br1 where r: "read_bits br 1 = Inr (of_bool (bit c (l - j)), br1)" "br_inv br1"
    "br_bits br1 = msb_bits c (Suc (l - Suc j)) @ rest"
    using read_bit_spec [OF Suc.prems(3)] by blast
  have code: "2 * (c div 2 ^ Suc (l - j)) + unat (of_bool (bit c (l - j)) :: u32) = c div 2 ^ (l - j)"
  proof -
    have "c div 2 ^ Suc (l - j) = c div 2 ^ (l - j) div 2" by (simp only: power_Suc2 div_mult2_eq)
    moreover have "bit c (l - j) \<longleftrightarrow> odd (c div 2 ^ (l - j))" by (simp add: bit_iff_odd)
    ultimately show ?thesis by simp
  qed
  have v: "vec_get (hf_counts h) j = Some (hf_counts h ! j)" using assms(1,2) jl by (simp add: vec_get_def)
  have no: "\<not> c div 2 ^ (l - j) < hfirst (hf_counts h) j + hf_counts h ! j"
    using hfirst_below [OF Suc.prems(1) jl assms(3)] by simp
  have n1: "n = l - Suc j" using Suc.hyps(2) by simp
  have n': "Suc MAX_BITS - j = Suc (Suc MAX_BITS - Suc j)" using jl assms(2) by simp
  obtain br' where "huff_loop h (Suc MAX_BITS - Suc j) (Suc j) br1 (c div 2 ^ Suc (l - Suc j))
      (hfirst (hf_counts h) (Suc j)) (hindex (hf_counts h) (Suc j)) = Inr (s, br')" "br_inv br'" "br_bits br' = rest"
    using Suc.hyps(1) [of "Suc j" br1] r n1 jl by auto
  moreover have "Suc (l - Suc j) = l - j" using jl by simp
  ultimately show ?case
    unfolding n' using r(1) v no code Suc.prems(1) hindex_Suc [OF Suc.prems(1), of "hf_counts h"]
    by (simp add: Let_def)
qed

lemma huff_decode_code:
  assumes "huff_ok xs h" and "1 \<le> l" and "l \<le> MAX_BITS"
    and "hfirst (hf_counts h) l \<le> c" and "c < 2 ^ l" and "c - hfirst (hf_counts h) l < length (occ xs l)"
    and "br_inv br" and "br_bits br = msb_bits c l @ rest"
  shows "\<exists>br'. huff_decode h br = Inr (occ xs l ! (c - hfirst (hf_counts h) l), br') \<and> br_inv br' \<and> br_bits br' = rest"
proof -
  let ?cs = "hf_counts h"
  have cs: "length ?cs = MAX_BITS + 1" "?cs ! l = length (occ xs l)"
    "length (hf_symbols h) = hindex ?cs (MAX_BITS + 1)"
    "hf_symbols h ! (hindex ?cs l + (c - hfirst ?cs l)) = occ xs l ! (c - hfirst ?cs l)"
    using assms(1-3,6) by (auto simp: huff_ok_def)
  have "hindex ?cs l + (c - hfirst ?cs l) < length (hf_symbols h)"
    using hindex_gap [OF assms(2), of "MAX_BITS + 1" ?cs] assms(3,6) cs by simp
  then have v: "vec_get (hf_symbols h) (hindex ?cs l + (c - hfirst ?cs l)) = Some (occ xs l ! (c - hfirst ?cs l))"
    using cs(4) by (simp add: vec_get_def)
  have "c < hfirst ?cs l + ?cs ! l" using assms(4,6) cs(2) by simp
  moreover have "Suc (l - 1) = l" using assms(2) by simp
  moreover have "c div 2 ^ l = 0" using assms(5) by simp
  ultimately show ?thesis
    using huff_loop_code [OF cs(1) assms(3,4) _ v, of 1 br rest] assms(2,7,8)
    by (simp add: huff_decode_def hindex_def)
qed

text \<open>Decoding a well-formed table cannot index out of range.\<close>

lemma huff_loop_no_panic:
  assumes "length (hf_counts h) = MAX_BITS + 1"
    and "length (hf_symbols h) = hindex (hf_counts h) (MAX_BITS + 1)"
    and "1 \<le> len" and "len + n \<le> Suc MAX_BITS" and "f \<le> 2 * code" and "i = hindex (hf_counts h) len"
    and "br_inv br"
  shows "huff_loop h n len br code f i \<noteq> Inl IPanic \<and>
    (\<forall>s br'. huff_loop h n len br code f i = Inr (s, br') \<longrightarrow> br_inv br' \<and> s \<in> set (hf_symbols h))"
  using assms(3-)
proof (induction n arbitrary: len br code f i)
  case (Suc n)
  show ?case
  proof (cases "length (br_bits br) < 1")
    case True
    then show ?thesis using read_bits_spec [OF Suc.prems(5), of 1] by simp
  next
    case False
    then obtain b br1 where r: "read_bits br 1 = Inr (b, br1)" "br_inv br1"
      using read_bits_spec [OF Suc.prems(5), of 1] by auto
    let ?c = "2 * code + unat b" and ?k = "hf_counts h ! len"
    have v: "vec_get (hf_counts h) len = Some ?k" using assms(1) Suc.prems(2) by (simp add: vec_get_def)
    show ?thesis
    proof (cases "?c < f + ?k")
      case True
      have "i + (?c - f) < length (hf_symbols h)"
        using hindex_gap [OF Suc.prems(1), of "MAX_BITS + 1" "hf_counts h"] Suc.prems True
        by (simp add: assms(2))
      then show ?thesis using r v True Suc.prems(3) by (auto simp: Let_def vec_get_def)
    next
      case False
      then have "huff_loop h (Suc n) len br code f i = huff_loop h n (Suc len) br1 ?c (2 * (f + ?k)) (i + ?k)"
        using r(1) v by (simp add: Let_def)
      moreover have "i + ?k = hindex (hf_counts h) (Suc len)"
        using Suc.prems by (simp add: hindex_Suc)
      ultimately show ?thesis
        using Suc.IH [of "Suc len" "2 * (f + ?k)" ?c "i + ?k" br1] Suc.prems r(2) False by simp
    qed
  qed
qed simp

lemma huff_decode_no_panic:
  assumes "huff_ok xs h" and "br_inv br"
  shows "huff_decode h br \<noteq> Inl IPanic"
    and "huff_decode h br = Inr (s, br') \<Longrightarrow> br_inv br' \<and> s \<in> set (hf_symbols h)"
  using huff_loop_no_panic [of h 1 MAX_BITS 0 0 0 br] assms
  by (simp_all add: huff_decode_def huff_ok_def hindex_def)

section \<open>The fixed tables\<close>

lemma count_list_replicate: "count_list (replicate n x) y = (if x = y then n else 0)"
  by (induction n) auto

lemma count_list_app: "count_list (xs @ ys) y = count_list xs y + count_list ys y"
  by (induction xs) auto

lemma nat_le_15: "(n :: nat) \<le> 15 \<longleftrightarrow> n \<in> {0, 1, 2, 3, 4, 5, 6, 7, 8, 9, 10, 11, 12, 13, 14, 15}"
  by (simp, presburger)

lemma count_fixed_litlen:
  "count_lengths fixed_litlen_lens = [0, 0, 0, 0, 0, 0, 0, 24, 152, 112, 0, 0, 0, 0, 0, 0]"
proof (rule nth_equalityI)
  have le: "\<forall>l \<in> set fixed_litlen_lens. l \<le> MAX_BITS"
    by (auto simp: fixed_litlen_lens_def MAX_BITS_def)
  show "length (count_lengths fixed_litlen_lens) = length [0, 0, 0, 0, 0, 0, 0, 24, 152, 112, 0, 0, 0, 0, 0, 0 :: nat]"
    using count_lengths_nth(1) [OF le] by (simp add: MAX_BITS_def)
  fix i assume "i < length (count_lengths fixed_litlen_lens)"
  then have "i \<le> 15" using count_lengths_nth(1) [OF le] by (simp add: MAX_BITS_def)
  then show "count_lengths fixed_litlen_lens ! i = [0, 0, 0, 0, 0, 0, 0, 24, 152, 112, 0, 0, 0, 0, 0, 0] ! i"
    using count_lengths_nth(2) [OF le, of i]
    by (auto simp: MAX_BITS_def nat_le_15 fixed_litlen_lens_def count_list_app count_list_replicate)
qed

lemma count_fixed_dist:
  "count_lengths (replicate 30 5) = [0, 0, 0, 0, 0, 30, 0, 0, 0, 0, 0, 0, 0, 0, 0, 0]"
proof (rule nth_equalityI)
  have le: "\<forall>l \<in> set (replicate 30 5). l \<le> MAX_BITS" by (auto simp: MAX_BITS_def)
  show "length (count_lengths (replicate 30 5)) = length [0, 0, 0, 0, 0, 30, 0, 0, 0, 0, 0, 0, 0, 0, 0, 0 :: nat]"
    using count_lengths_nth(1) [OF le] by (simp add: MAX_BITS_def)
  fix i assume "i < length (count_lengths (replicate 30 5))"
  then have "i \<le> 15" using count_lengths_nth(1) [OF le] by (simp add: MAX_BITS_def)
  then show "count_lengths (replicate 30 5) ! i = [0, 0, 0, 0, 0, 30, 0, 0, 0, 0, 0, 0, 0, 0, 0, 0] ! i"
    using count_lengths_nth(2) [OF le, of i]
    by (auto simp: MAX_BITS_def nat_le_15 count_list_replicate)
qed

lemma fixed_huffman_ok:
  "\<exists>l d. fixed_huffman = Inr (l, d) \<and> huff_ok fixed_litlen_lens l \<and> huff_ok (replicate 30 5) d \<and>
     hf_counts l = count_lengths fixed_litlen_lens \<and> hf_counts d = count_lengths (replicate 30 5)"
proof -
  have "\<exists>l. from_lengths fixed_litlen_lens = Inr l \<and> hf_counts l = count_lengths fixed_litlen_lens"
    by (simp add: from_lengths_def count_fixed_litlen Let_def)
      (simp add: fixed_litlen_lens_def MAX_BITS_def list_ex_iff)
  moreover have "\<exists>d. from_lengths (replicate 30 5) = Inr d \<and> hf_counts d = count_lengths (replicate 30 5)"
    by (simp add: from_lengths_def count_fixed_dist Let_def)
      (simp add: MAX_BITS_def list_ex_iff)
  ultimately show ?thesis using from_lengths_ok(1) by (force simp: fixed_huffman_def)
qed

lemma fixed_tables:
  assumes "fixed_huffman = Inr (l, d)"
  shows "huff_ok fixed_litlen_lens l" "huff_ok (replicate 30 5) d"
    "hf_counts l = count_lengths fixed_litlen_lens" "hf_counts d = count_lengths (replicate 30 5)"
proof -
  obtain l' d' where *: "fixed_huffman = Inr (l', d')" "huff_ok fixed_litlen_lens l'" "huff_ok (replicate 30 5) d'"
    "hf_counts l' = count_lengths fixed_litlen_lens" "hf_counts d' = count_lengths (replicate 30 5)"
    using fixed_huffman_ok by blast
  have "(Inr (l', d') :: inflate_exit + huffman \<times> huffman) = Inr (l, d)" unfolding *(1) [symmetric] by (rule assms)
  then have "l' = l" "d' = d" by simp_all
  with * show "huff_ok fixed_litlen_lens l" "huff_ok (replicate 30 5) d"
    "hf_counts l = count_lengths fixed_litlen_lens" "hf_counts d = count_lengths (replicate 30 5)" by simp_all
qed

lemma occ_append: "occ (xs @ ys) l = occ xs l @ map (\<lambda>s. s + length xs) (occ ys l)"
proof (induction ys rule: rev_induct)
  case (snoc y ys)
  have "occ (xs @ ys @ [y]) l = occ ((xs @ ys) @ [y]) l" by simp
  then show ?case using snoc by (simp only: occ_snoc) simp
qed (simp add: occ_def)

lemma occ_replicate: "occ (replicate n x) l = (if x = l then [0..<n] else [])"
  by (auto simp: occ_def filter_empty_conv filter_id_conv)

lemma occ_fixed_litlen:
  "occ fixed_litlen_lens 7 = [256..<280]"
  "occ fixed_litlen_lens 8 = [0..<144] @ [280..<288]"
  "occ fixed_litlen_lens 9 = [144..<256]"
  using map_add_upt [of 256 24] map_add_upt [of 280 8] map_add_upt [of 144 112]
  by (simp_all only: fixed_litlen_lens_def occ_append occ_replicate)
    (simp_all add: map_add_upt)

lemma occ_fixed_nth:
  "length (occ fixed_litlen_lens 7) = 24" "i < 24 \<Longrightarrow> occ fixed_litlen_lens 7 ! i = 256 + i"
  "length (occ fixed_litlen_lens 8) = 152" "i < 144 \<Longrightarrow> occ fixed_litlen_lens 8 ! i = i"
  "i < 8 \<Longrightarrow> occ fixed_litlen_lens 8 ! (144 + i) = 280 + i"
  "length (occ fixed_litlen_lens 9) = 112" "i < 112 \<Longrightarrow> occ fixed_litlen_lens 9 ! i = 144 + i"
  using nth_upt [of 256 i 280] nth_upt [of 0 i 144] nth_upt [of 280 i 288] nth_upt [of 144 i 256]
  by (simp_all only: occ_fixed_litlen length_append length_upt nth_append) simp_all

text \<open>Every symbol the encoder emits decodes from its fixed code.\<close>

lemma bit_of_nat_u32: "i < 32 \<Longrightarrow> bit (of_nat c :: u32) i \<longleftrightarrow> bit c i"
  by (simp add: bit_of_nat_iff)

lemma msb_bits_u32: "n \<le> 32 \<Longrightarrow> map (bit (of_nat c :: u32)) (rev [0..<n]) = msb_bits c n"
  by (simp add: msb_bits_def bit_of_nat_u32)

definition litlen_bits :: "nat \<Rightarrow> bool list" where
  "litlen_bits sy = (let (code, len) = fixed_litlen_code sy in map (bit code) (rev [0..<len]))"

lemma hfirst_fixed:
  assumes "hf_counts l = count_lengths fixed_litlen_lens"
  shows "hfirst (hf_counts l) 7 = 0" "hfirst (hf_counts l) 8 = 48" "hfirst (hf_counts l) 9 = 400"
  unfolding assms count_fixed_litlen by (simp_all add: numeral_eq_Suc)

lemma litlen_decode:
  assumes "fixed_huffman = Inr (l, d)" and "sy \<le> 287" and "br_inv br" and "br_bits br = litlen_bits sy @ rest"
  shows "\<exists>br'. huff_decode l br = Inr (sy, br') \<and> br_inv br' \<and> br_bits br' = rest"
proof -
  have ok: "huff_ok fixed_litlen_lens l" and cs: "hf_counts l = count_lengths fixed_litlen_lens"
    using fixed_tables [OF assms(1)] by simp_all
  note f = hfirst_fixed [OF cs] and dec = huff_decode_code [OF ok, where br = br and rest = rest]
  consider (a) "sy \<le> 143" | (b) "144 \<le> sy" "sy \<le> 255" | (c) "256 \<le> sy" "sy \<le> 279" | (e) "280 \<le> sy"
    by linarith
  then show ?thesis
  proof cases
    case a
    then have "litlen_bits sy = msb_bits (48 + sy) 8"
      unfolding litlen_bits_def fixed_litlen_code_def by (simp add: msb_bits_u32 del: of_nat_add of_nat_diff)
    then show ?thesis
      using dec [of 8 "48 + sy"] a assms(3,4) by (simp add: f occ_fixed_nth MAX_BITS_def)
  next
    case b
    then have "litlen_bits sy = msb_bits (400 + (sy - 144)) 9"
      unfolding litlen_bits_def fixed_litlen_code_def by (simp add: msb_bits_u32 del: of_nat_add of_nat_diff)
    then show ?thesis
      using dec [of 9 "400 + (sy - 144)"] b assms(3,4) by (simp add: f occ_fixed_nth MAX_BITS_def)
  next
    case c
    then have "litlen_bits sy = msb_bits (sy - 256) 7"
      unfolding litlen_bits_def fixed_litlen_code_def by (simp add: msb_bits_u32 del: of_nat_add of_nat_diff)
    then show ?thesis
      using dec [of 7 "sy - 256"] c assms(3,4) by (simp add: f occ_fixed_nth MAX_BITS_def)
  next
    case e
    then have "litlen_bits sy = msb_bits (192 + (sy - 280)) 8"
      unfolding litlen_bits_def fixed_litlen_code_def by (simp add: msb_bits_u32 del: of_nat_add of_nat_diff)
    then show ?thesis
      using dec [of 8 "192 + (sy - 280)"] e assms(2-4) occ_fixed_nth(5) [of "sy - 280"]
      by (simp add: f occ_fixed_nth(3) MAX_BITS_def)
  qed
qed

lemma dist_decode:
  assumes "fixed_huffman = Inr (l, d)" and "sy < 30" and "br_inv br" and "br_bits br = msb_bits sy 5 @ rest"
  shows "\<exists>br'. huff_decode d br = Inr (sy, br') \<and> br_inv br' \<and> br_bits br' = rest"
proof -
  have ok: "huff_ok (replicate 30 5) d" and cs: "hf_counts d = count_lengths (replicate 30 5)"
    using fixed_tables [OF assms(1)] by simp_all
  have f: "hfirst (hf_counts d) 5 = 0" unfolding cs count_fixed_dist by (simp add: numeral_eq_Suc)
  show ?thesis
    using huff_decode_code [OF ok, of 5 sy br rest, unfolded occ_replicate] assms(2-4) f nth_upt [of 0 sy 30]
    by (simp add: MAX_BITS_def del: upt_rec_numeral)
qed

end
