(* ===== verification/Lz77.thy ===== *)
theory Lz77
  imports Huffman
begin

text \<open>
  The encoder of \<^verbatim>\<open>crates/cv_compression/src/encode.rs\<close> against the decoder of
  \<^verbatim>\<open>deflate.rs\<close>: what the match finder returns is a real repetition inside the window, length and
  distance codes are exact, the periodic copy reproduces the input, and so inflating what deflate
  wrote gives the input back.
\<close>

section \<open>Length and distance codes\<close>

lemma base_index_spec:
  "base ! 0 \<le> x \<Longrightarrow> base_index base n x \<le> n \<and> base ! base_index base n x \<le> x \<and>
     (base_index base n x < n \<longrightarrow> x < base ! Suc (base_index base n x))"
  by (induction n) (auto simp: le_less_Suc_eq less_Suc_eq)

lemma length_table: "i < 28 \<Longrightarrow> LENGTH_BASE ! Suc i \<le> LENGTH_BASE ! i + 2 ^ (LENGTH_EXTRA_BITS ! i)"
proof -
  have "list_all (\<lambda>i. LENGTH_BASE ! Suc i \<le> LENGTH_BASE ! i + 2 ^ (LENGTH_EXTRA_BITS ! i)) [0..<28]"
    by (simp add: LENGTH_BASE_def LENGTH_EXTRA_BITS_def upt_conv_Cons)
  then show "i < 28 \<Longrightarrow> ?thesis" unfolding list_all_iff by simp
qed

lemma dist_table: "i < 29 \<Longrightarrow> DIST_BASE ! Suc i \<le> DIST_BASE ! i + 2 ^ (DIST_EXTRA_BITS ! i)"
proof -
  have "list_all (\<lambda>i. DIST_BASE ! Suc i \<le> DIST_BASE ! i + 2 ^ (DIST_EXTRA_BITS ! i)) [0..<29]"
    by (simp add: DIST_BASE_def DIST_EXTRA_BITS_def upt_conv_Cons)
  then show "i < 29 \<Longrightarrow> ?thesis" unfolding list_all_iff by simp
qed

lemma extra_bits_bound:
  "i < 29 \<Longrightarrow> LENGTH_EXTRA_BITS ! i \<le> 13" "i < 30 \<Longrightarrow> DIST_EXTRA_BITS ! i \<le> 13"
proof -
  have "list_all (\<lambda>i. LENGTH_EXTRA_BITS ! i \<le> 13) [0..<29]" "list_all (\<lambda>i. DIST_EXTRA_BITS ! i \<le> 13) [0..<30]"
    by (simp_all add: LENGTH_EXTRA_BITS_def DIST_EXTRA_BITS_def upt_conv_Cons)
  then show "i < 29 \<Longrightarrow> LENGTH_EXTRA_BITS ! i \<le> 13" "i < 30 \<Longrightarrow> DIST_EXTRA_BITS ! i \<le> 13"
    unfolding list_all_iff by simp_all
qed

lemma length_to_code_spec:
  assumes "3 \<le> len" and "len \<le> 258" and "length_to_code len = (lc, n, x)"
  shows "257 \<le> lc \<and> lc \<le> 285 \<and> n = LENGTH_EXTRA_BITS ! (lc - 257) \<and> LENGTH_BASE ! (lc - 257) + x = len \<and> x < 2 ^ n"
proof -
  let ?i = "base_index LENGTH_BASE 28 len"
  have b0: "LENGTH_BASE ! 0 \<le> len" using assms(1) by (simp add: LENGTH_BASE_def)
  note s = base_index_spec [OF b0, of 28]
  have top: "LENGTH_BASE ! 28 = 258" "LENGTH_EXTRA_BITS ! 28 = 0"
    by (simp_all add: LENGTH_BASE_def LENGTH_EXTRA_BITS_def)
  have "len - LENGTH_BASE ! ?i < 2 ^ (LENGTH_EXTRA_BITS ! ?i)"
  proof (cases "?i = 28")
    case True then show ?thesis using top assms(2) by simp
  next
    case False
    then have "?i < 28" "len < LENGTH_BASE ! Suc ?i" "LENGTH_BASE ! ?i \<le> len" using s by simp_all
    then show ?thesis using length_table [of ?i] by linarith
  qed
  then show ?thesis using s assms(3) by (auto simp: length_to_code_def Let_def)
qed

lemma distance_to_code_spec:
  assumes "1 \<le> dist" and "dist \<le> 32768" and "distance_to_code dist = (dc, n, x)"
  shows "dc < 30 \<and> n = DIST_EXTRA_BITS ! dc \<and> DIST_BASE ! dc + x = dist \<and> x < 2 ^ n"
proof -
  let ?i = "base_index DIST_BASE 29 dist"
  have b0: "DIST_BASE ! 0 \<le> dist" using assms(1) by (simp add: DIST_BASE_def)
  note s = base_index_spec [OF b0, of 29]
  have top: "DIST_BASE ! 29 = 24577" "DIST_EXTRA_BITS ! 29 = 13"
    by (simp_all add: DIST_BASE_def DIST_EXTRA_BITS_def)
  have "dist - DIST_BASE ! ?i < 2 ^ (DIST_EXTRA_BITS ! ?i)"
  proof (cases "?i = 29")
    case True then show ?thesis using top assms(2) by simp
  next
    case False
    then have "?i < 29" "dist < DIST_BASE ! Suc ?i" "DIST_BASE ! ?i \<le> dist" using s by simp_all
    then show ?thesis using dist_table [of ?i] by linarith
  qed
  then show ?thesis using s assms(3) by (auto simp: distance_to_code_def Let_def)
qed

section \<open>The match finder\<close>

lemma match_len_spec:
  "l \<le> max_len \<Longrightarrow> l \<le> match_len input cand pos max_len l \<and> match_len input cand pos max_len l \<le> max_len \<and>
   (\<forall>i. l \<le> i \<and> i < match_len input cand pos max_len l \<longrightarrow> input ! (cand + i) = input ! (pos + i))"
proof (induction input cand pos max_len l rule: match_len.induct)
  case (1 input cand pos max_len l)
  show ?case
  proof (cases "l < max_len \<and> input ! (cand + l) = input ! (pos + l)")
    case True
    let ?m = "match_len input cand pos max_len (l + 1)"
    have "l + 1 \<le> ?m" "?m \<le> max_len" "\<And>i. l + 1 \<le> i \<Longrightarrow> i < ?m \<Longrightarrow> input ! (cand + i) = input ! (pos + i)"
      using 1(1) [OF True] True by auto
    moreover have "match_len input cand pos max_len l = ?m"
      using True by (simp add: match_len.simps [of _ _ _ _ l])
    moreover have "i = l \<or> l + 1 \<le> i" if "l \<le> i" for i using that by auto
    ultimately show ?thesis using True by (metis Suc_eq_plus1 Suc_leD)
  next
    case False
    then have "match_len input cand pos max_len l = l" by (auto simp: match_len.simps [of _ _ _ _ l])
    then show ?thesis using 1(2) by auto
  qed
qed

definition chains_ok :: "chains \<Rightarrow> nat \<Rightarrow> bool" where
  "chains_ok ch pos \<longleftrightarrow> (\<forall>h p. fst ch h = Some p \<longrightarrow> p < pos) \<and> (\<forall>q p. snd ch q = Some p \<longrightarrow> p < q)"

lemma hash_insert_ok: "chains_ok ch pos \<Longrightarrow> chains_ok (hash_insert input pos ch) (Suc pos)"
  by (cases ch) (auto simp: chains_ok_def hash_insert_def Let_def less_Suc_eq split: if_splits)

lemma hash_insert_fold_ok: "chains_ok ch pos \<Longrightarrow> chains_ok (fold (hash_insert input) [pos..<pos + n] ch) (pos + n)"
  by (induction n) (auto simp: hash_insert_ok)

definition match_ok :: "bytes \<Rightarrow> nat \<Rightarrow> nat \<Rightarrow> nat \<Rightarrow> nat \<times> nat \<Rightarrow> bool" where
  "match_ok input pos max_len ws r \<longleftrightarrow>
     fst r \<le> max_len \<and>
     (fst r = 0 \<or> (\<exists>c. ws \<le> c \<and> c < pos \<and> snd r = pos - c \<and> (\<forall>i < fst r. input ! (c + i) = input ! (pos + i))))"

lemma find_match_ok:
  assumes "\<And>q p. prev q = Some p \<Longrightarrow> p < q" and "cand = Some c \<Longrightarrow> c < pos"
    and "\<And>c. cand = Some c \<Longrightarrow> c < pos" and "match_ok input pos max_len ws (bl, bd)"
  shows "match_ok input pos max_len ws (find_match input prev pos max_len ws cand n bl bd)"
  using assms(3,4)
proof (induction n arbitrary: cand bl bd)
  case (Suc n)
  show ?case
  proof (cases cand)
    case (Some c)
    have c: "c < pos" using Suc.prems(1) Some by simp
    let ?l = "match_len input c pos max_len 0"
    have ml: "?l \<le> max_len" "\<forall>i < ?l. input ! (c + i) = input ! (pos + i)"
      using match_len_spec [of 0 max_len input c pos] by auto
    have nxt: "p < pos" if "prev c = Some p" for p using assms(1) [OF that] c by simp
    have ok: "match_ok input pos max_len ws (?l, pos - c)" if "ws \<le> c"
      using that ml c by (auto simp: match_ok_def)
    show ?thesis
      unfolding Some find_match.simps Let_def
      using Suc.IH [OF nxt Suc.prems(2)] Suc.IH [OF nxt ok] ok Suc.prems(2) by auto
  qed (use Suc.prems in simp)
qed simp

lemma best_match_ok:
  assumes "chains_ok ch pos" and "best_match input ch pos = (bl, bd)" and "3 \<le> bl"
  shows "bl \<le> 258 \<and> pos + bl \<le> length input \<and> 1 \<le> bd \<and> bd \<le> 32768 \<and> bd \<le> pos \<and>
    (\<forall>i < bl. input ! (pos - bd + i) = input ! (pos + i))"
proof -
  let ?h = "hash3 (input ! pos) (input ! (pos + 1)) (input ! (pos + 2))"
  have le: "pos + MIN_MATCH \<le> length input"
    using assms(2,3) by (auto simp: best_match_def split: if_splits)
  have "match_ok input pos (min (length input - pos) MAX_MATCH) (pos - WINDOW_SIZE) (bl, bd)"
  proof -
    have "match_ok input pos (min (length input - pos) MAX_MATCH) (pos - WINDOW_SIZE)
       (find_match input (snd ch) pos (min (length input - pos) MAX_MATCH) (pos - WINDOW_SIZE) (fst ch ?h) MAX_CHAIN 0 0)"
      by (rule find_match_ok) (use assms(1) in \<open>auto simp: chains_ok_def match_ok_def\<close>)
    then show ?thesis using assms(2) le by (simp add: best_match_def)
  qed
  then obtain c where c: "bl \<le> min (length input - pos) MAX_MATCH" "pos - WINDOW_SIZE \<le> c" "c < pos" "bd = pos - c"
    "\<forall>i < bl. input ! (c + i) = input ! (pos + i)"
    using assms(3) by (auto simp: match_ok_def)
  moreover have "pos - bd = c" using c by simp
  ultimately show ?thesis using le by (auto simp: MAX_MATCH_def WINDOW_SIZE_def MIN_MATCH_def)
qed

section \<open>The copy\<close>

lemma periodic:
  assumes "1 \<le> d" and "d \<le> pos" and "\<forall>i < n. input ! (pos - d + i) = input ! (pos + i)" and "i < n"
  shows "input ! (pos - d + i mod d) = input ! (pos + i)"
  using assms(4)
proof (induction i rule: less_induct)
  case (less i)
  show ?case
  proof (cases "i < d")
    case True
    then show ?thesis using assms(3) less.prems by simp
  next
    case False
    then have "input ! (pos - d + (i - d) mod d) = input ! (pos + (i - d))"
      using less assms(1) by simp
    moreover have "(i - d) mod d = i mod d" using False by (simp add: le_mod_geq)
    moreover have "pos + (i - d) = pos - d + i" using False assms(2) by simp
    ultimately show ?thesis using assms(3) less.prems by simp
  qed
qed

lemma copy_match_spec:
  assumes "1 \<le> d" and "d \<le> pos" and "\<forall>i < n. input ! (pos - d + i) = input ! (pos + i)" and "pos + n \<le> length input"
    and "i + k = n"
  shows "copy_match (pos - d) d i k (take (pos + i) input) = Some (take (pos + n) input)"
  using assms(5)
proof (induction k arbitrary: i)
  case (Suc k)
  have "i mod d < d" using assms(1) by simp
  then have lt: "pos - d + i mod d < pos + i" using assms(2) by linarith
  have "vec_get (take (pos + i) input) (pos - d + i mod d) = Some (input ! (pos + i))"
    using lt periodic [OF assms(1-3), of i] Suc.prems assms(4) by (simp add: vec_get_def)
  moreover have "take (pos + i) input @ [input ! (pos + i)] = take (pos + Suc i) input"
    using Suc.prems assms(4) by (simp add: take_Suc_conv_app_nth)
  ultimately show ?case using Suc.IH [of "Suc i"] Suc.prems by simp
qed simp

section \<open>The round trip\<close>

lemma unat_of_nat_small: "x < 2 ^ n \<Longrightarrow> n \<le> 24 \<Longrightarrow> unat (of_nat x :: u32) = x"
proof -
  assume "x < 2 ^ n" "n \<le> 24"
  then have "x < 2 ^ 24" by (meson less_le_trans one_le_numeral power_increasing)
  then show ?thesis by (simp add: unat_of_nat)
qed

lemma read_extra_spec:
  assumes "br_inv br" and "n \<le> 24" and "x < 2 ^ n" and "br_bits br = map (bit (of_nat x :: u32)) [0..<n] @ rest"
  shows "\<exists>br'. read_extra br n = Inr (x, br') \<and> br_inv br' \<and> br_bits br' = rest"
proof (cases "n = 0")
  case True
  then show ?thesis using assms by (simp add: read_extra_def)
next
  case False
  have "bits_val (take n (br_bits br)) = take_bit n (of_nat x)"
    using bits_val_take_map [of n n "of_nat x" rest] assms(4) by simp
  moreover have "unat (take_bit n (of_nat x :: u32)) = x"
    using assms(3) unat_of_nat_small [OF assms(3,2)] by (simp add: unsigned_take_bit_eq take_bit_nat_eq_self)
  moreover have "\<not> length (br_bits br) < n" "drop n (br_bits br) = rest" using assms(4) by simp_all
  ultimately show ?thesis
    using read_bits_spec [OF assms(1,2)] False by (auto simp: read_extra_def)
qed

lemma emit_symbol_bits:
  assumes "bw_inv bw"
  shows "bw_inv (emit_symbol bw sy)" "bw_bits (emit_symbol bw sy) = bw_bits bw @ litlen_bits sy"
proof -
  obtain code len where c: "fixed_litlen_code sy = (code, len)" by (cases "fixed_litlen_code sy")
  then have "len \<le> 24" by (auto simp: fixed_litlen_code_def split: if_splits)
  then show "bw_inv (emit_symbol bw sy)" "bw_bits (emit_symbol bw sy) = bw_bits bw @ litlen_bits sy"
    using write_code_spec [OF assms, of len code] by (simp_all add: emit_symbol_def litlen_bits_def c)
qed

lemma write_extra_bits:
  assumes "bw_inv bw" and "n \<le> 24"
  shows "bw_inv (write_extra bw x n)"
    "bw_bits (write_extra bw x n) = bw_bits bw @ map (bit (of_nat x :: u32)) [0..<n]"
  using write_bits_spec [OF assms, of "of_nat x"] assms by (auto simp: write_extra_def)

definition match_bits :: "nat \<Rightarrow> nat \<Rightarrow> bool list" where
  "match_bits len dist =
     (let (lc, ln, lx) = length_to_code len; (dc, dn, dx) = distance_to_code dist
      in litlen_bits lc @ map (bit (of_nat lx :: u32)) [0..<ln] @ msb_bits dc 5 @ map (bit (of_nat dx :: u32)) [0..<dn])"

lemma emit_match_bits:
  assumes "bw_inv bw" and "3 \<le> len" "len \<le> 258" and "1 \<le> dist" "dist \<le> 32768"
  shows "bw_inv (emit_match bw len dist)" "bw_bits (emit_match bw len dist) = bw_bits bw @ match_bits len dist"
proof -
  obtain lc ln lx where l: "length_to_code len = (lc, ln, lx)" by (cases "length_to_code len")
  obtain dc dn dx where d: "distance_to_code dist = (dc, dn, dx)" by (cases "distance_to_code dist")
  note ls = length_to_code_spec [OF assms(2,3) l] and ds = distance_to_code_spec [OF assms(4,5) d]
  have i: "lc - 257 < 29" "dc < 30" using ls ds by auto
  have n: "ln \<le> 24" "dn \<le> 24"
    using ls ds extra_bits_bound(1) [OF i(1)] extra_bits_bound(2) [OF i(2)] by auto
  let ?a = "write_extra (emit_symbol bw lc) lx ln"
  let ?b = "write_code ?a (of_nat dc) 5"
  have a: "bw_inv ?a" "bw_bits ?a = bw_bits bw @ litlen_bits lc @ map (bit (of_nat lx :: u32)) [0..<ln]"
    using write_extra_bits [OF emit_symbol_bits(1) [OF assms(1)] n(1)] emit_symbol_bits(2) [OF assms(1)] by simp_all
  have b: "bw_inv ?b" "bw_bits ?b = bw_bits ?a @ msb_bits dc 5"
    using write_code_spec [OF a(1), of 5 "of_nat dc"] msb_bits_u32 [of 5 dc] by (simp_all del: upt_rec_numeral)
  have e: "emit_match bw len dist = write_extra ?b dx dn"
    by (simp add: emit_match_def l d fixed_dist_code_def)
  show "bw_inv (emit_match bw len dist)" "bw_bits (emit_match bw len dist) = bw_bits bw @ match_bits len dist"
    using write_extra_bits [OF b(1) n(2)] a(2) b(2) by (simp_all add: e match_bits_def l d)
qed

text \<open>One literal and one match, decoded.\<close>

lemma inflate_literal:
  assumes "fixed_huffman = Inr (l, d)" and "br_inv br" and "br_bits br = litlen_bits (unat b) @ rest"
  shows "\<exists>br'. br_inv br' \<and> br_bits br' = rest \<and> inflate_block br l d out = inflate_block br' l d (out @ [b])"
proof -
  have "unat b < 256" by simp
  then have "unat b \<le> 287" by linarith
  then obtain br' where "huff_decode l br = Inr (unat b, br')" "br_inv br'" "br_bits br' = rest"
    using litlen_decode [OF assms(1) _ assms(2,3)] by blast
  then show ?thesis by (auto simp: inflate_block.simps [of br])
qed

lemma inflate_end:
  assumes "fixed_huffman = Inr (l, d)" and "br_inv br" and "br_bits br = litlen_bits 256 @ rest"
  shows "\<exists>br'. inflate_block br l d out = Inr (out, br')"
  using litlen_decode [OF assms(1) _ assms(2,3)] by (auto simp: inflate_block.simps [of br])

lemma inflate_match:
  assumes "fixed_huffman = Inr (l, d)" and "br_inv br" and "br_bits br = match_bits len dist @ rest"
    and "3 \<le> len" "len \<le> 258" "pos + len \<le> length input" and "1 \<le> dist" "dist \<le> 32768" "dist \<le> pos"
    and "\<forall>i < len. input ! (pos - dist + i) = input ! (pos + i)"
  shows "\<exists>br'. br_inv br' \<and> br_bits br' = rest \<and>
    inflate_block br l d (take pos input) = inflate_block br' l d (take (pos + len) input)"
proof -
  obtain lc ln lx where lc: "length_to_code len = (lc, ln, lx)" by (cases "length_to_code len")
  obtain dc dn dx where dc: "distance_to_code dist = (dc, dn, dx)" by (cases "distance_to_code dist")
  note ls = length_to_code_spec [OF assms(4,5) lc] and ds = distance_to_code_spec [OF assms(7,8) dc]
  have i: "lc - 257 < 29" "dc < 30" using ls ds by auto
  have n: "ln \<le> 24" "dn \<le> 24"
    using ls ds extra_bits_bound(1) [OF i(1)] extra_bits_bound(2) [OF i(2)] by auto
  have bits: "br_bits br = litlen_bits lc @ map (bit (of_nat lx :: u32)) [0..<ln] @ msb_bits dc 5 @
      map (bit (of_nat dx :: u32)) [0..<dn] @ rest"
    using assms(3) by (simp add: match_bits_def lc dc)
  have "lc \<le> 287" using ls by simp
  then obtain b1 where b1: "huff_decode l br = Inr (lc, b1)" "br_inv b1"
    "br_bits b1 = map (bit (of_nat lx :: u32)) [0..<ln] @ msb_bits dc 5 @ map (bit (of_nat dx :: u32)) [0..<dn] @ rest"
    using litlen_decode [OF assms(1) _ assms(2) bits] by blast
  obtain b2 where b2: "read_extra b1 ln = Inr (lx, b2)" "br_inv b2"
    "br_bits b2 = msb_bits dc 5 @ map (bit (of_nat dx :: u32)) [0..<dn] @ rest"
    using read_extra_spec [OF b1(2) n(1) _ b1(3)] ls by blast
  obtain b3 where b3: "huff_decode d b2 = Inr (dc, b3)" "br_inv b3" "br_bits b3 = map (bit (of_nat dx :: u32)) [0..<dn] @ rest"
    using dist_decode [OF assms(1) _ b2(2,3)] ds by blast
  obtain b4 where b4: "read_extra b3 dn = Inr (dx, b4)" "br_inv b4" "br_bits b4 = rest"
    using read_extra_spec [OF b3(2) n(2) _ b3(3)] ds by blast
  have "copy_match (pos - dist) dist 0 len (take pos input) = Some (take (pos + len) input)"
    using copy_match_spec [OF assms(7,9,10,6), of 0 len] by simp
  moreover have "length (take pos input) = pos" using assms(6) by simp
  moreover have "length LENGTH_BASE = 29" "length DIST_BASE = 30" by (simp_all add: LENGTH_BASE_def DIST_BASE_def)
  moreover have "LENGTH_BASE ! (lc - 257) + lx = len" "DIST_BASE ! dc + dx = dist" "\<not> 29 \<le> lc - 257"
    "\<not> lc < 256" "lc \<noteq> 256" "\<not> 30 \<le> dc" "\<not> (dist = 0 \<or> pos < dist)"
    "ln = LENGTH_EXTRA_BITS ! (lc - 257)" "dn = DIST_EXTRA_BITS ! dc"
    using ls ds assms(7,9) by auto
  moreover have "read_match d b1 lc = Inr (LENGTH_BASE ! (lc - 257) + lx, DIST_BASE ! dc + dx, b4)"
    using b2(1) b3(1) b4(1) calculation by (simp add: read_match_def Let_def)
  ultimately have "inflate_block br l d (take pos input) = inflate_block b4 l d (take (pos + len) input)"
    using b1(1) by (simp add: inflate_block.simps [of br])
  then show ?thesis using b4(2,3) by blast
qed

lemma deflate_loop_decodes:
  assumes "fixed_huffman = Inr (l, d)" and "chains_ok ch pos" and "pos \<le> length input" and "bw_inv bw"
  shows "bw_inv (deflate_loop input bw ch pos) \<and> (\<exists>T. bw_bits (deflate_loop input bw ch pos) = bw_bits bw @ T \<and>
    (\<forall>br rest. br_inv br \<longrightarrow> br_bits br = T @ rest \<longrightarrow>
      (\<exists>br'. br_inv br' \<and> br_bits br' = rest \<and> inflate_block br l d (take pos input) = inflate_block br' l d input)))"
  using assms(2-4)
proof (induction input bw ch pos rule: deflate_loop.induct)
  case (1 input bw ch pos)
  let ?P = "\<lambda>bw' p. bw_inv bw' \<and> (\<exists>T. bw_bits bw' = bw_bits bw @ T \<and>
    (\<forall>br rest. br_inv br \<longrightarrow> br_bits br = T @ rest \<longrightarrow>
      (\<exists>br'. br_inv br' \<and> br_bits br' = rest \<and> inflate_block br l d (take p input) = inflate_block br' l d input)))"
  show ?case
  proof (cases "pos < length input")
    case False
    then have "deflate_loop input bw ch pos = bw" by (subst deflate_loop.simps) simp
    moreover have "take pos input = input" using False by simp
    ultimately show ?thesis using 1(5) by auto
  next
    case lt: True
    obtain bl bd where bm: "best_match input ch pos = (bl, bd)" by (cases "best_match input ch pos")
    show ?thesis
    proof (cases "MIN_MATCH \<le> bl")
      case True
      then have bl: "3 \<le> bl" by (simp add: MIN_MATCH_def)
      note ok = best_match_ok [OF 1(3) bm bl]
      let ?bw = "emit_match bw bl bd"
      have e: "bw_inv ?bw" "bw_bits ?bw = bw_bits bw @ match_bits bl bd"
        using emit_match_bits [OF 1(5) bl, of bd] ok by auto
      have step: "deflate_loop input bw ch pos = deflate_loop input ?bw (fold (hash_insert input) [pos..<pos + bl] ch) (pos + bl)"
        using lt bm True by (simp add: deflate_loop.simps [of input bw ch pos])
      obtain T where T: "bw_inv (deflate_loop input bw ch pos)" "bw_bits (deflate_loop input bw ch pos) = bw_bits ?bw @ T"
        "\<And>br rest. br_inv br \<Longrightarrow> br_bits br = T @ rest \<Longrightarrow>
          \<exists>br'. br_inv br' \<and> br_bits br' = rest \<and> inflate_block br l d (take (pos + bl) input) = inflate_block br' l d input"
        using 1(1) [OF lt bm [symmetric] refl True hash_insert_fold_ok [OF 1(3)] _ e(1)] ok step by auto
      have "\<exists>br'. br_inv br' \<and> br_bits br' = rest \<and> inflate_block br l d (take pos input) = inflate_block br' l d input"
        if "br_inv br" "br_bits br = (match_bits bl bd @ T) @ rest" for br rest
        using inflate_match [OF assms(1) that(1), of bl bd "T @ rest" pos input] that(2) bl ok T(3) by fastforce
      then show ?thesis using T(1,2) e(2) by (intro conjI exI [of _ "match_bits bl bd @ T"]) auto
    next
      case False
      let ?bw = "emit_symbol bw (unat (input ! pos))"
      note e = emit_symbol_bits [OF 1(5), of "unat (input ! pos)"]
      have step: "deflate_loop input bw ch pos = deflate_loop input ?bw (hash_insert input pos ch) (pos + 1)"
        using lt bm False by (simp add: deflate_loop.simps [of input bw ch pos])
      obtain T where T: "bw_inv (deflate_loop input bw ch pos)" "bw_bits (deflate_loop input bw ch pos) = bw_bits ?bw @ T"
        "\<And>br rest. br_inv br \<Longrightarrow> br_bits br = T @ rest \<Longrightarrow>
          \<exists>br'. br_inv br' \<and> br_bits br' = rest \<and> inflate_block br l d (take (pos + 1) input) = inflate_block br' l d input"
        using 1(2) [OF lt bm [symmetric] refl False] hash_insert_ok [OF 1(3)] lt e(1) step by auto
      have tk: "take pos input @ [input ! pos] = take (pos + 1) input" using lt by (simp add: take_Suc_conv_app_nth)
      have "\<exists>br'. br_inv br' \<and> br_bits br' = rest \<and> inflate_block br l d (take pos input) = inflate_block br' l d input"
        if "br_inv br" "br_bits br = (litlen_bits (unat (input ! pos)) @ T) @ rest" for br rest
        using inflate_literal [OF assms(1) that(1), of "input ! pos" "T @ rest" "take pos input"] that(2) T(3) tk by fastforce
      then show ?thesis
        using T(1,2) e(2) by (intro conjI exI [of _ "litlen_bits (unat (input ! pos)) @ T"]) auto
    qed
  qed
qed

lemma deflate_bits:
  assumes "fixed_huffman = Inr (l, d)"
  shows "\<exists>T k. bytes_bits (deflate input) = [True, True, False] @ T @ litlen_bits 256 @ replicate k False \<and>
    (\<forall>br rest. br_inv br \<longrightarrow> br_bits br = T @ rest \<longrightarrow>
      (\<exists>br'. br_inv br' \<and> br_bits br' = rest \<and> inflate_block br l d [] = inflate_block br' l d input))"
proof -
  let ?a = "write_bits bw_new 1 1"
  let ?b = "write_bits ?a 1 2"
  have a: "bw_inv ?a" "bw_bits ?a = [True]" using write_bits_spec [of bw_new 1 1] by simp_all
  have b: "bw_inv ?b" "bw_bits ?b = [True, True, False]"
    using write_bits_spec [OF a(1), of 2 1] a(2) by (simp_all add: upt_conv_Cons)
  let ?w = "if input = [] then ?b else deflate_loop input ?b (Map.empty, Map.empty) 0"
  have d: "deflate input = bw_finish (emit_symbol ?w 256)" by (simp add: deflate_def)
  have "chains_ok (Map.empty, Map.empty) 0" by (simp add: chains_ok_def)
  note dl = deflate_loop_decodes [OF assms this le0 b(1), of input]
  have "bw_inv ?w \<and> (\<exists>T. bw_bits ?w = bw_bits ?b @ T \<and> (\<forall>br rest. br_inv br \<longrightarrow> br_bits br = T @ rest \<longrightarrow>
      (\<exists>br'. br_inv br' \<and> br_bits br' = rest \<and> inflate_block br l d [] = inflate_block br' l d input)))"
  proof (cases "input = []")
    case True
    then show ?thesis using b(1) by auto
  qed (use dl in simp)
  then obtain T where T: "bw_inv ?w" "bw_bits ?w = bw_bits ?b @ T"
    "\<forall>br rest. br_inv br \<longrightarrow> br_bits br = T @ rest \<longrightarrow>
      (\<exists>br'. br_inv br' \<and> br_bits br' = rest \<and> inflate_block br l d [] = inflate_block br' l d input)" by blast
  obtain k where "bytes_bits (deflate input) = bw_bits (emit_symbol ?w 256) @ replicate k False"
    using bw_finish_spec [OF emit_symbol_bits(1) [OF T(1), of 256]] by (auto simp only: d)
  then have "bytes_bits (deflate input) = [True, True, False] @ T @ litlen_bits 256 @ replicate k False"
    using T(2) b(2) emit_symbol_bits(2) [OF T(1), of 256] by simp
  then show ?thesis using T(3) by blast
qed

lemma inflate_deflate_eq: "inflate (deflate input) = Inr input"
proof -
  obtain l d where ld: "fixed_huffman = Inr (l, d)" using fixed_huffman_ok by blast
  obtain T k where bits: "bytes_bits (deflate input) = [True, True, False] @ T @ litlen_bits 256 @ replicate k False"
    and T: "\<forall>br rest. br_inv br \<longrightarrow> br_bits br = T @ rest \<longrightarrow>
      (\<exists>br'. br_inv br' \<and> br_bits br' = rest \<and> inflate_block br l d [] = inflate_block br' l d input)"
    using deflate_bits [OF ld] by blast
  let ?r = "litlen_bits 256 @ replicate k False"
  have b0: "br_bits (br_new (deflate input)) = True # True # False # T @ ?r" using bits by simp
  obtain b1 where b1: "read_bits (br_new (deflate input)) 1 = Inr (1, b1)" "br_inv b1" "br_bits b1 = True # False # T @ ?r"
    using read_bit_spec [OF br_new_spec(1) b0] by auto
  obtain b2 where b2: "read_bits b1 2 = Inr (1, b2)" "br_inv b2" "br_bits b2 = T @ ?r"
    using read_bits_spec [OF b1(2), of 2] b1(3) by (auto simp: bits_val_def)
  obtain b3 where b3: "br_inv b3" "br_bits b3 = ?r" "inflate_block b2 l d [] = inflate_block b3 l d input"
    using T b2(2,3) by blast
  obtain b4 where "inflate_block b2 l d [] = Inr (input, b4)"
    using inflate_end [OF ld b3(1,2)] b3(3) by auto
  then have "inflate_body b2 1 [] = Inr (input, b4)" by (simp add: inflate_body_def ld)
  then show ?thesis
    unfolding inflate_def using b1(1) b2(1) by (subst inflate_loop.simps) simp
qed

section \<open>No panic\<close>

text \<open>\<open>safe P m\<close>: the computation does not panic, and what it returns satisfies \<open>P\<close>.\<close>

definition safe :: "('a \<Rightarrow> bool) \<Rightarrow> inflate_exit + 'a \<Rightarrow> bool" where
  "safe P m \<longleftrightarrow> m \<noteq> Inl IPanic \<and> (\<forall>x. m = Inr x \<longrightarrow> P x)"

lemma safe_simps [simp]:
  "safe P (Inr x) = P x" "safe P (Inl (IErr e))"
  by (simp_all add: safe_def)
















section \<open>Properties\<close>

text \<open>C4: inflating the DEFLATE stream that \<open>deflate\<close> writes for any input gives that input back.\<close>

theorem inflate_deflate: "inflate (deflate input) = Inr input"
  by (rule inflate_deflate_eq)


text \<open>Canonical Huffman codes. For a table \<open>from_lengths\<close> accepts, the \<open>k\<close>-th symbol with code
  length \<open>l\<close> (in symbol order) is what \<open>decode\<close> returns on the bits, most significant first, of the
  code \<open>first(l) + k\<close> of RFC 1951, and decoding consumes exactly these \<open>l\<close> bits.\<close>

theorem huffman_decode_canonical:
  assumes "from_lengths lens = Inr h" and "1 \<le> l" and "l \<le> 15" and "k < length (occ lens l)"
    and "hfirst (hf_counts h) l + k < 2 ^ l"
    and "br_inv br" and "br_bits br = msb_bits (hfirst (hf_counts h) l + k) l @ rest"
  shows "\<exists>br'. huff_decode h br = Inr (occ lens l ! k, br') \<and> br_inv br' \<and> br_bits br' = rest"
  using huff_decode_code [OF from_lengths_ok(1) [OF assms(1)] assms(2) _ _ assms(5) _ assms(6,7)] assms(3,4)
  by (simp add: MAX_BITS_def)

theorem huffman_decode_canonical_witness:
  "\<exists>h br'. from_lengths [2, 2, 2] = Inr h \<and> huff_decode h (br_new [1]) = Inr (2, br')"
proof -
  have c: "count_lengths [2, 2, 2] = [0, 0, 3, 0, 0, 0, 0, 0, 0, 0, 0, 0, 0, 0, 0, 0]"
    by (simp add: count_lengths_def MAX_BITS_def numeral_eq_Suc)
  have "\<exists>h. from_lengths [2, 2, 2] = Inr h \<and> hf_counts h = count_lengths [2, 2, 2]"
    by (simp add: from_lengths_def MAX_BITS_def Let_def c cong: if_cong)
  then obtain h where h: "from_lengths [2, 2, 2] = Inr h" "hf_counts h = count_lengths [2, 2, 2]" by blast
  have o: "occ [2, 2, 2] 2 = [0, 1, 2]" by (simp add: occ_def upt_conv_Cons)
  have f: "hfirst (hf_counts h) 2 = 0" unfolding h(2) c by (simp add: numeral_eq_Suc)
  have "take 2 (byte_bits 1) = msb_bits (hfirst (hf_counts h) 2 + 2) 2"
    unfolding f by (simp add: byte_bits_def msb_bits_def upt_conv_Cons bit_1_iff bit_iff_odd)
  then have "br_bits (br_new [1]) = msb_bits (hfirst (hf_counts h) 2 + 2) 2 @ drop 2 (byte_bits 1)"
    by (metis append_Nil2 append_take_drop_id br_new_spec(2) bytes_bits_simps(1,2))
  then show ?thesis
    using huffman_decode_canonical [OF h(1), of 2 2 "br_new [1]" "drop 2 (byte_bits 1)"] h(1) o f by auto
qed

end
