(* ===== verification/Gzip.thy ===== *)
theory Gzip
  imports Lz77
begin

text \<open>
  The gzip and zlib wrappers: checksums and framing of \<^verbatim>\<open>crates/cv_compression/src/encode.rs\<close>,
  header parsing of \<^verbatim>\<open>gzip.rs\<close>. The checksums work on 32-bit words.
\<close>

section \<open>Checksums\<close>

definition crc_step :: "u32 \<Rightarrow> u32" where
  "crc_step crc = (let mask = - (crc AND 1) in drop_bit 1 crc XOR (0xEDB88320 AND mask))"

definition crc32 :: "bytes \<Rightarrow> u32" where
  "crc32 data = NOT (fold (\<lambda>b crc. (crc_step ^^ 8) (crc XOR ucast b)) data 0xFFFFFFFF)"

definition MOD_ADLER :: nat where "MOD_ADLER = 65521"

definition adler_byte :: "u8 \<Rightarrow> u32 \<times> u32 \<Rightarrow> u32 \<times> u32" where
  "adler_byte byte = (\<lambda>(a, b). let a' = a + ucast byte in (a', b + a'))"

fun adler_chunks :: "nat \<Rightarrow> bytes \<Rightarrow> u32 \<times> u32 \<Rightarrow> u32 \<times> u32" where
  "adler_chunks n [] ab = ab"
| "adler_chunks n (x # xs) ab =
     (if n = 0 then ab
      else let (a, b) = fold adler_byte (take n (x # xs)) ab
           in adler_chunks n (drop n (x # xs)) (a mod of_nat MOD_ADLER, b mod of_nat MOD_ADLER))"

definition adler32 :: "bytes \<Rightarrow> u32" where
  "adler32 data = (let (a, b) = adler_chunks 5552 data (1, 0) in push_bit 16 b OR a)"

section \<open>Encoding\<close>

definition u32_le_bytes :: "u32 \<Rightarrow> bytes" where
  "u32_le_bytes w = [ucast w, ucast (drop_bit 8 w), ucast (drop_bit 16 w), ucast (drop_bit 24 w)]"

definition encode_gzip :: "bytes \<Rightarrow> bytes" where
  "encode_gzip input =
     [0x1F, 0x8B, 0x08, 0x00] @ u32_le_bytes 0 @ [0x00, 0xFF] @ deflate input @
     u32_le_bytes (crc32 input) @ u32_le_bytes (of_nat (length input))"

definition zlib_flg :: "u8 \<Rightarrow> u8" where
  "zlib_flg cmf =
     (let rem = (push_bit 8 (ucast cmf) OR ucast (0 :: u8) :: u16) mod 31
      in if rem \<noteq> 0 then 0 + ucast (31 - rem) else 0)"

definition encode_zlib :: "bytes \<Rightarrow> bytes" where
  "encode_zlib input =
     [0x78, zlib_flg 0x78] @ deflate input @ rev (u32_le_bytes (adler32 input))"

section \<open>Decoding\<close>

datatype gzip_error =
    GzTruncated
  | GzBadMagic
  | GzUnsupportedMethod u8
  | GzBadFlags u8
  | GzInflate inflate_exit

datatype zlib_error =
    ZTruncated
  | ZBadHeader
  | ZUnsupportedMethod u8
  | ZPresetDict
  | ZInflate inflate_exit

definition FHCRC :: u8 where "FHCRC = 0x02"
definition FEXTRA :: u8 where "FEXTRA = 0x04"
definition FNAME :: u8 where "FNAME = 0x08"
definition FCOMMENT :: u8 where "FCOMMENT = 0x10"
definition FRESERVED :: u8 where "FRESERVED = 0xE0"

definition map_err :: "('e \<Rightarrow> 'f) \<Rightarrow> 'e + 'a \<Rightarrow> 'f + 'a" where
  "map_err f m = (case m of Inl e \<Rightarrow> Inl (f e) | Inr x \<Rightarrow> Inr x)"

function skip_zstring :: "bytes \<Rightarrow> nat \<Rightarrow> gzip_error + nat" where
  "skip_zstring input pos =
     (if pos < length input \<and> input ! pos \<noteq> 0 then skip_zstring input (pos + 1)
      else if length input \<le> pos then Inl GzTruncated
      else Inr (pos + 1))"
  by pat_completeness auto
termination by (relation "measure (\<lambda>(input, pos). length input - pos)") auto

declare skip_zstring.simps [simp del]

definition skip_extra :: "bytes \<Rightarrow> u8 \<Rightarrow> nat \<Rightarrow> gzip_error + nat" where
  "skip_extra input flg pos =
     (if flg AND FEXTRA \<noteq> 0
      then if length input < pos + 2 then Inl GzTruncated
           else let pos' = pos + (2 + from_le16 (input ! pos) (input ! (pos + 1)))
                in if length input < pos' then Inl GzTruncated else Inr pos'
      else Inr pos)"

definition skip_hcrc :: "bytes \<Rightarrow> u8 \<Rightarrow> nat \<Rightarrow> gzip_error + nat" where
  "skip_hcrc input flg pos =
     (if flg AND FHCRC \<noteq> 0
      then if length input < pos + 2 then Inl GzTruncated else Inr (pos + 2)
      else Inr pos)"

definition decode_gzip :: "bytes \<Rightarrow> gzip_error + bytes" where
  "decode_gzip input =
     (if length input < 18 then Inl GzTruncated
      else if input ! 0 \<noteq> 0x1F \<or> input ! 1 \<noteq> 0x8B then Inl GzBadMagic
      else if input ! 2 \<noteq> 8 then Inl (GzUnsupportedMethod (input ! 2))
      else let flg = input ! 3
           in if flg AND FRESERVED \<noteq> 0 then Inl (GzBadFlags flg)
              else rbind (skip_extra input flg 10) (\<lambda>p1.
                   rbind (if flg AND FNAME \<noteq> 0 then skip_zstring input p1 else Inr p1) (\<lambda>p2.
                   rbind (if flg AND FCOMMENT \<noteq> 0 then skip_zstring input p2 else Inr p2) (\<lambda>p3.
                   rbind (skip_hcrc input flg p3) (\<lambda>pos.
                     if length input < pos + 8 then Inl GzTruncated
                     else map_err GzInflate (inflate (take (length input - 8 - pos) (drop pos input))))))))"

definition decode_zlib :: "bytes \<Rightarrow> zlib_error + bytes" where
  "decode_zlib input =
     (if length input < 6 then Inl ZTruncated
      else let cmf = input ! 0; flg = input ! 1; cm = cmf AND 0x0F
           in if cm \<noteq> 8 then Inl (ZUnsupportedMethod cm)
              else if (push_bit 8 (ucast cmf) OR ucast flg :: u16) mod 31 \<noteq> 0 then Inl ZBadHeader
              else if flg AND 0x20 \<noteq> 0
                   then (if length input < 2 + 4 then Inl ZTruncated else Inl ZPresetDict)
              else if length input < 2 + 4 then Inl ZTruncated
              else map_err ZInflate (inflate (take (length input - 4 - 2) (drop 2 input))))"

section \<open>Properties\<close>

text \<open>C9: a gzip member written by \<open>encode_gzip\<close> decodes to its input.\<close>

theorem gzip_roundtrip: "decode_gzip (encode_gzip input) = Inr input"
proof -
  let ?t = "u32_le_bytes (crc32 input) @ u32_le_bytes (of_nat (length input))"
  let ?h = "[0x1F, 0x8B, 0x08, 0x00] @ u32_le_bytes 0 @ [0x00, 0xFF] :: bytes"
  have e: "encode_gzip input = ?h @ deflate input @ ?t" by (simp add: encode_gzip_def)
  have lens: "length ?h = 10" "length ?t = 8" by (simp_all add: u32_le_bytes_def)
  have flags: "(0 :: u8) AND FRESERVED = 0" "(0 :: u8) AND FEXTRA = 0" by simp_all
  have "take (length (encode_gzip input) - 8 - 10) (drop 10 (encode_gzip input)) = deflate input"
    using lens by (simp add: e)
  moreover have "\<not> length (encode_gzip input) < 18" using lens by (simp add: e)
  moreover have "encode_gzip input ! 0 = 0x1F" "encode_gzip input ! 1 = 0x8B" "encode_gzip input ! 2 = 8"
    "encode_gzip input ! 3 = 0"
    by (simp_all add: encode_gzip_def)
  ultimately show ?thesis
    by (simp add: decode_gzip_def skip_extra_def skip_hcrc_def inflate_deflate_eq map_err_def Let_def)
qed

text \<open>A zlib stream written by \<open>encode_zlib\<close> decodes to its input: the header check
  and the flag byte agree.\<close>

theorem zlib_roundtrip: "decode_zlib (encode_zlib input) = Inr input"
proof -
  let ?t = "rev (u32_le_bytes (adler32 input))"
  have flg: "zlib_flg 0x78 = 1" by (simp add: zlib_flg_def)
  have e: "encode_zlib input = [0x78, 1] @ deflate input @ ?t" by (simp add: encode_zlib_def flg)
  have lt: "length ?t = 4" by (simp add: u32_le_bytes_def)
  have "take (length (encode_zlib input) - 4 - 2) (drop 2 (encode_zlib input)) = deflate input"
    using lt by (simp add: e)
  moreover have "\<not> length (encode_zlib input) < 6" using lt by (simp add: e)
  moreover have "encode_zlib input ! 0 = 0x78" "encode_zlib input ! 1 = 1" by (simp_all add: e)
  ultimately show ?thesis
    by (simp add: decode_zlib_def inflate_deflate_eq map_err_def Let_def)
qed

section \<open>Adler-32 never wraps between reductions\<close>

text \<open>The sums of RFC 1950 over the natural numbers, with no reduction at all.\<close>

fun adler_sums :: "bytes \<Rightarrow> nat \<times> nat \<Rightarrow> nat \<times> nat" where
  "adler_sums [] ab = ab"
| "adler_sums (x # xs) (a, b) = adler_sums xs (a + unat x, b + (a + unat x))"

lemma adler_sums_append: "adler_sums (xs @ ys) ab = adler_sums ys (adler_sums xs ab)"
  by (induction xs ab rule: adler_sums.induct) auto

lemma adler_sums_mono: "a \<le> fst (adler_sums xs (a, b)) \<and> b \<le> snd (adler_sums xs (a, b))"
proof (induction xs arbitrary: a b)
  case (Cons x xs)
  then show ?case by simp (meson le_add1 le_trans)
qed simp

lemma unat_ucast_u8: "unat (ucast (x :: u8) :: u32) = unat x"
proof -
  have "unat x < 4294967296" using unat_u8_less [of x] by linarith
  then show ?thesis by (simp add: unsigned_ucast_eq take_bit_nat_eq_self)
qed

lemma adler_sums_bound:
  "fst (adler_sums xs (a, b)) \<le> a + 255 * length xs \<and>
   2 * snd (adler_sums xs (a, b)) \<le> 2 * b + 2 * length xs * a + 255 * (length xs * (length xs + 1))"
proof (induction xs arbitrary: a b)
  case (Cons x xs)
  have x: "unat x \<le> 255" using unat_u8_less [of x] by linarith
  let ?n = "length xs"
  have f: "fst (adler_sums (x # xs) (a, b)) \<le> a + unat x + 255 * ?n" 
    and s: "2 * snd (adler_sums (x # xs) (a, b))
      \<le> 2 * (b + (a + unat x)) + 2 * ?n * (a + unat x) + 255 * (?n * (?n + 1))"
    using Cons.IH [of "a + unat x" "b + (a + unat x)"] by simp_all
  note s
  also have "2 * (b + (a + unat x)) + 2 * ?n * (a + unat x) + 255 * (?n * (?n + 1))
      \<le> 2 * (b + (a + 255)) + 2 * ?n * (a + 255) + 255 * (?n * (?n + 1))"
    using x by (intro add_mono mult_le_mono) simp_all
  also have "\<dots> = 2 * b + 2 * Suc ?n * a + 255 * (Suc ?n * (Suc ?n + 1))" by (simp add: algebra_simps)
  finally show ?case using f x by simp
qed simp

lemma adler_sums_mod:
  "fst (adler_sums xs (a mod m, b mod m)) mod m = fst (adler_sums xs (a, b)) mod m \<and>
   snd (adler_sums xs (a mod m, b mod m)) mod m = snd (adler_sums xs (a, b)) mod m"
proof (induction xs arbitrary: a b)
  case (Cons x xs)
  let ?a = "a mod m + unat x" and ?b = "b mod m + (a mod m + unat x)"
  have a: "?a mod m = (a + unat x) mod m" by (simp add: mod_simps)
  have b: "?b mod m = (b + (a + unat x)) mod m" by (metis a mod_add_cong mod_mod_trivial)
  show ?case
    using Cons.IH [of ?a ?b] Cons.IH [of "a + unat x" "b + (a + unat x)"] by (simp add: a b)
qed simp

lemma adler_fold_exact:
  assumes "fst (adler_sums xs (unat a, unat b)) < 2 ^ 32" "snd (adler_sums xs (unat a, unat b)) < 2 ^ 32"
  shows "map_prod unat unat (fold adler_byte xs (a, b)) = adler_sums xs (unat a, unat b)"
  using assms
proof (induction xs arbitrary: a b)
  case (Cons x xs)
  have mono: "unat a + unat x < 2 ^ 32" "unat b + (unat a + unat x) < 2 ^ 32"
    using adler_sums_mono [of "unat a + unat x" xs "unat b + (unat a + unat x)"] Cons.prems by simp_all
  have x: "unat (ucast x :: u32) = unat x"
    by (rule unat_ucast_u8)
  have a: "unat (a + ucast x) = unat a + unat x"
    using mono(1) by (subst unat_add_lem [THEN iffD1]) (simp_all add: x)
  have b: "unat (b + (a + ucast x)) = unat b + (unat a + unat x)"
    using mono(2) by (subst unat_add_lem [THEN iffD1]) (simp_all add: a)
  show ?case
    using Cons.IH [of "a + ucast x" "b + (a + ucast x)"] Cons.prems by (simp add: adler_byte_def a b Let_def)
qed simp

lemma adler_chunk_exact:
  assumes "length xs \<le> 5552" "unat a < MOD_ADLER" "unat b < MOD_ADLER"
  shows "map_prod unat unat (fold adler_byte xs (a, b)) = adler_sums xs (unat a, unat b)"
proof (rule adler_fold_exact)
  have "2 * length xs * unat a \<le> 2 * 5552 * 65520"
    using assms by (intro mult_mono) (auto simp: MOD_ADLER_def)
  moreover have "length xs * (length xs + 1) \<le> 5552 * 5553" using assms(1) by (intro mult_mono) auto
  ultimately show "snd (adler_sums xs (unat a, unat b)) < 2 ^ 32" "fst (adler_sums xs (unat a, unat b)) < 2 ^ 32"
    using adler_sums_bound [of xs "unat a" "unat b"] assms by (simp_all add: MOD_ADLER_def)
qed

lemma unat_mod_adler: "unat (w mod of_nat MOD_ADLER :: u32) = unat w mod MOD_ADLER"
  by (simp add: unat_mod MOD_ADLER_def)

lemma adler_chunks_exact:
  assumes "n = 5552" "unat (fst ab) < MOD_ADLER" "unat (snd ab) < MOD_ADLER"
  shows "unat (fst (adler_chunks n xs ab)) = fst (adler_sums xs (map_prod unat unat ab)) mod MOD_ADLER \<and>
         unat (snd (adler_chunks n xs ab)) = snd (adler_sums xs (map_prod unat unat ab)) mod MOD_ADLER"
  using assms
proof (induction n xs ab rule: adler_chunks.induct)
  case (1 n ab)
  then show ?case by (cases ab) simp
next
  case (2 n x xs ab)
  obtain a b where ab: "ab = (a, b)" by (cases ab)
  let ?c = "take n (x # xs)" and ?r = "drop n (x # xs)"
  obtain a' b' where f: "fold adler_byte ?c (a, b) = (a', b')" by (metis surj_pair)
  have s: "adler_sums ?c (unat a, unat b) = (unat a', unat b')"
  proof -
    have "length ?c \<le> 5552" "unat a < MOD_ADLER" "unat b < MOD_ADLER" using 2(2-4) ab by auto
    from adler_chunk_exact [OF this] show ?thesis unfolding f by simp
  qed
  have split: "adler_sums (x # xs) (unat a, unat b) = adler_sums ?r (unat a', unat b')"
    using adler_sums_append [of ?c ?r "(unat a, unat b)"] by (simp only: s append_take_drop_id)
  have lt: "unat a' mod MOD_ADLER < MOD_ADLER" "unat b' mod MOD_ADLER < MOD_ADLER" by (simp_all add: MOD_ADLER_def)
  have n: "n \<noteq> 0" using 2(2) by simp
  have e: "adler_chunks n (x # xs) (a, b)
      = adler_chunks n ?r (a' mod of_nat MOD_ADLER, b' mod of_nat MOD_ADLER)"
    unfolding adler_chunks.simps f by (simp only: n if_False Let_def prod.case)
  note ih = 2(1) [OF n _ refl, unfolded ab, OF f [symmetric] 2(2)]
  show ?case
    using ih adler_sums_mod [of ?r "unat a'" MOD_ADLER "unat b'"]
    by (simp only: ab map_prod_simp split e unat_mod_adler fst_conv snd_conv lt simp_thms)
qed

text \<open>The chunked 32-bit computation of \<open>adler32\<close> never wraps: its two halves are the sums of
  RFC 1950, taken over the natural numbers and reduced once at the end.\<close>

theorem adler32_exact:
  "unat (adler32 data) = 65536 * (snd (adler_sums data (1, 0)) mod MOD_ADLER) + fst (adler_sums data (1, 0)) mod MOD_ADLER"
proof -
  obtain a b where ab: "adler_chunks 5552 data (1, 0) = (a, b)" by (metis surj_pair)
  have v: "unat a = fst (adler_sums data (1, 0)) mod MOD_ADLER" "unat b = snd (adler_sums data (1, 0)) mod MOD_ADLER"
    using adler_chunks_exact [of 5552 "(1, 0)" data] by (simp_all add: ab MOD_ADLER_def)
  have lt: "unat a < 2 ^ 16" "unat b < 2 ^ 16"
    by (simp_all add: v MOD_ADLER_def order.strict_trans [OF mod_less_divisor])
  have "a = take_bit 16 a" using lt(1)
    by (metis take_bit_nat_eq_self unsigned_take_bit_eq word_unat_eq_iff)
  then have "push_bit 16 b AND a = 0"
    by (metis (no_types, lifting) and.commute bit_0_eq bit_and_iff bit_eqI bit_push_bit_iff bit_take_bit_iff linorder_not_le bot_apply bot_bool_def)
  then have "push_bit 16 b OR a = push_bit 16 b + a" by (simp add: disjunctive_add_eq_or)
  moreover have "unat (push_bit 16 b) = 65536 * unat b"
    using lt(2) by (simp add: push_bit_eq_mult unat_word_ariths)
  ultimately have "unat (push_bit 16 b OR a) = 65536 * unat b + unat a"
    using lt by (simp add: unat_word_ariths)
  then show ?thesis by (simp add: adler32_def ab v)
qed

end
