(* ===== verification/Btree.thy ===== *)
theory Btree
  imports Prelude "HOL-Library.List_Lexorder" "HOL-Library.Monad_Syntax"
begin

text \<open>
  The page B-tree of \<^verbatim>\<open>crates/cv_storage/src/btree.rs\<close>: pages, the \<open>PageStore\<close> interface with its
  in-memory implementation, and every operation of \<open>BTree\<close>. As in the source, the operations are
  generic in the store: they take the five store operations as a record. A result \<open>None\<close> stands
  for an operation that does not return (an \<open>unwrap\<close> on an absent page, an index out of range,
  or an endless descent through cyclic pages). Keys are byte vectors in lexicographic order.
\<close>

section \<open>Pages and stores\<close>

definition BRANCHING :: nat where "BRANCHING = 32"

record page =
  page_id :: u32
  page_leaf :: bool
  page_keys :: "bytes list"
  page_values :: "bytes list"
  page_children :: "u32 list"

definition new_leaf :: "u32 \<Rightarrow> page" where
  "new_leaf i = \<lparr>page_id = i, page_leaf = True, page_keys = [], page_values = [], page_children = []\<rparr>"

definition new_internal :: "u32 \<Rightarrow> page" where
  "new_internal i = \<lparr>page_id = i, page_leaf = False, page_keys = [], page_values = [], page_children = []\<rparr>"

definition key_count :: "page \<Rightarrow> nat" where
  "key_count p = length (page_keys p)"

record 's page_store =
  op_read :: "'s \<Rightarrow> u32 \<Rightarrow> page option"
  op_write :: "'s \<Rightarrow> page \<Rightarrow> 's"
  op_next_id :: "'s \<Rightarrow> u32 \<times> 's"
  op_root_id :: "'s \<Rightarrow> u32"
  op_set_root_id :: "'s \<Rightarrow> u32 \<Rightarrow> 's"

record in_memory_store =
  mem_pages :: "u32 \<rightharpoonup> page"
  mem_next :: u32
  mem_root :: u32

definition mem_new :: in_memory_store where
  "mem_new = \<lparr>mem_pages = Map.empty(1 \<mapsto> new_leaf 1), mem_next = 2, mem_root = 1\<rparr>"

definition mem_read :: "in_memory_store \<Rightarrow> u32 \<Rightarrow> page option" where
  "mem_read s i = mem_pages s i"

definition mem_write :: "in_memory_store \<Rightarrow> page \<Rightarrow> in_memory_store" where
  "mem_write s p = s\<lparr>mem_pages := (mem_pages s)(page_id p \<mapsto> p)\<rparr>"

text \<open>\<open>self.next += 1\<close> wraps in the release profile.\<close>

definition mem_next_id :: "in_memory_store \<Rightarrow> u32 \<times> in_memory_store" where
  "mem_next_id s = (mem_next s, s\<lparr>mem_next := mem_next s + 1\<rparr>)"

definition mem_root_id :: "in_memory_store \<Rightarrow> u32" where
  "mem_root_id s = mem_root s"

definition mem_set_root_id :: "in_memory_store \<Rightarrow> u32 \<Rightarrow> in_memory_store" where
  "mem_set_root_id s i = s\<lparr>mem_root := i\<rparr>"

definition mem_ops :: "in_memory_store page_store" where
  "mem_ops = \<lparr>op_read = mem_read, op_write = mem_write, op_next_id = mem_next_id,
     op_root_id = mem_root_id, op_set_root_id = mem_set_root_id\<rparr>"

section \<open>Vectors that panic out of range\<close>

definition vec_insert_at :: "nat \<Rightarrow> 'a \<Rightarrow> 'a list \<Rightarrow> 'a list option" where
  "vec_insert_at i x xs = (if i \<le> length xs then Some (vec_insert i x xs) else None)"

definition vec_remove_at :: "nat \<Rightarrow> 'a list \<Rightarrow> 'a list option" where
  "vec_remove_at i xs = (if i < length xs then Some (vec_remove i xs) else None)"

definition vec_set_at :: "nat \<Rightarrow> 'a \<Rightarrow> 'a list \<Rightarrow> 'a list option" where
  "vec_set_at i x xs = (if i < length xs then Some (xs[i := x]) else None)"

definition split_off :: "nat \<Rightarrow> 'a list \<Rightarrow> ('a list \<times> 'a list) option" where
  "split_off i xs = (if i \<le> length xs then Some (take i xs, drop i xs) else None)"

definition vec_pop :: "'a list \<Rightarrow> ('a list \<times> 'a) option" where
  "vec_pop xs = (if xs = [] then None else Some (butlast xs, last xs))"

text \<open>\<open>slice::binary_search_by\<close> of the standard library: \<open>Inr\<close> is \<open>Ok\<close>, \<open>Inl\<close> is \<open>Err\<close>.\<close>

function bsearch_loop :: "'a::linorder list \<Rightarrow> 'a \<Rightarrow> nat \<Rightarrow> nat \<Rightarrow> nat" where
  "bsearch_loop xs key base sz =
     (if sz \<le> 1 then base
      else let half = sz div 2; mid = base + half
           in bsearch_loop xs key (if key < xs ! mid then base else mid) (sz - half))"
  by pat_completeness auto
termination by (relation "measure (\<lambda>(xs, key, base, sz). sz)") auto

declare bsearch_loop.simps [simp del]

definition binary_search :: "'a::linorder list \<Rightarrow> 'a \<Rightarrow> nat + nat" where
  "binary_search xs key =
     (if xs = [] then Inl 0
      else let base = bsearch_loop xs key 0 (length xs)
           in if xs ! base = key then Inr base
              else Inl (if xs ! base < key then base + 1 else base))"

section \<open>The tree operations\<close>

partial_function (option) get_from :: "'s page_store \<Rightarrow> 's \<Rightarrow> bytes \<Rightarrow> u32 \<Rightarrow> bytes option option" where
  "get_from ops s key i =
     (case op_read ops s i of
        None \<Rightarrow> Some None
      | Some p \<Rightarrow>
          (case binary_search (page_keys p) key of
             Inr pos \<Rightarrow>
               if page_leaf p then Option.bind (vec_get (page_values p) pos) (\<lambda>v. Some (Some v))
               else Option.bind (vec_get (page_children p) (pos + 1)) (get_from ops s key)
           | Inl pos \<Rightarrow>
               if page_leaf p then Some None
               else Option.bind (vec_get (page_children p) pos) (get_from ops s key)))"

definition btree_get :: "'s page_store \<Rightarrow> 's \<Rightarrow> bytes \<Rightarrow> bytes option option" where
  "btree_get ops s key = get_from ops s key (op_root_id ops s)"

definition split_child :: "'s page_store \<Rightarrow> 's \<Rightarrow> u32 \<Rightarrow> nat \<Rightarrow> 's option" where
  "split_child ops s parent_id idx = do {
     parent \<leftarrow> op_read ops s parent_id;
     child_id \<leftarrow> vec_get (page_children parent) idx;
     child \<leftarrow> op_read ops s child_id;
     let mid = length (page_keys child) div 2;
     let (new_id, s) = op_next_id ops s;
     (child, right, parent) \<leftarrow>
       (if page_leaf child then do {
          (lk, rk) \<leftarrow> split_off mid (page_keys child);
          (lv, rv) \<leftarrow> split_off mid (page_values child);
          sep \<leftarrow> vec_get rk 0;
          pk \<leftarrow> vec_insert_at idx sep (page_keys parent);
          Some (child\<lparr>page_keys := lk, page_values := lv\<rparr>,
                (new_leaf new_id)\<lparr>page_keys := rk, page_values := rv\<rparr>,
                parent\<lparr>page_keys := pk\<rparr>)
        } else do {
          (lk, rk) \<leftarrow> split_off (mid + 1) (page_keys child);
          (lc, rc) \<leftarrow> split_off (mid + 1) (page_children child);
          (lk', sep) \<leftarrow> vec_pop lk;
          pk \<leftarrow> vec_insert_at idx sep (page_keys parent);
          Some (child\<lparr>page_keys := lk', page_children := lc\<rparr>,
                (new_internal new_id)\<lparr>page_keys := rk, page_children := rc\<rparr>,
                parent\<lparr>page_keys := pk\<rparr>)
        });
     pc \<leftarrow> vec_insert_at (idx + 1) new_id (page_children parent);
     Some (op_write ops (op_write ops (op_write ops s child) right) (parent\<lparr>page_children := pc\<rparr>))
   }"

definition route :: "bytes list \<Rightarrow> bytes \<Rightarrow> nat" where
  "route keys key = (case binary_search keys key of Inr pos \<Rightarrow> pos + 1 | Inl pos \<Rightarrow> pos)"

definition leaf_put :: "page \<Rightarrow> bytes \<Rightarrow> bytes \<Rightarrow> page option" where
  "leaf_put p key v =
     (case binary_search (page_keys p) key of
        Inr pos \<Rightarrow> do { vs \<leftarrow> vec_set_at pos v (page_values p); Some (p\<lparr>page_values := vs\<rparr>) }
      | Inl pos \<Rightarrow> do {
          ks \<leftarrow> vec_insert_at pos key (page_keys p);
          vs \<leftarrow> vec_insert_at pos v (page_values p);
          Some (p\<lparr>page_keys := ks, page_values := vs\<rparr>) })"

text \<open>The child to descend into, after splitting it when it is full.\<close>

definition pick_child :: "'s page_store \<Rightarrow> 's \<Rightarrow> u32 \<Rightarrow> page \<Rightarrow> bytes \<Rightarrow> (nat \<times> 's) option" where
  "pick_child ops s pid p key = do {
     let i = route (page_keys p) key;
     child_id \<leftarrow> vec_get (page_children p) i;
     child \<leftarrow> op_read ops s child_id;
     if BRANCHING - 1 \<le> key_count child then do {
       s \<leftarrow> split_child ops s pid i;
       p2 \<leftarrow> op_read ops s pid;
       sep \<leftarrow> vec_get (page_keys p2) i;
       Some (if sep < key then i + 1 else i, s)
     } else Some (i, s)
   }"

partial_function (option) insert_nonfull ::
  "'s page_store \<Rightarrow> bytes \<Rightarrow> bytes \<Rightarrow> 's \<Rightarrow> u32 \<Rightarrow> 's option" where
  "insert_nonfull ops key v s pid = do {
     p \<leftarrow> op_read ops s pid;
     if page_leaf p then do { p' \<leftarrow> leaf_put p key v; Some (op_write ops s p') }
     else do {
       (i, s) \<leftarrow> pick_child ops s pid p key;
       p3 \<leftarrow> op_read ops s pid;
       cid \<leftarrow> vec_get (page_children p3) i;
       insert_nonfull ops key v s cid
     }
   }"

definition btree_put :: "'s page_store \<Rightarrow> 's \<Rightarrow> bytes \<Rightarrow> bytes \<Rightarrow> 's option" where
  "btree_put ops s key v = do {
     let root_id = op_root_id ops s;
     root \<leftarrow> op_read ops s root_id;
     s \<leftarrow> (if BRANCHING - 1 \<le> key_count root then do {
             let (new_root_id, s) = op_next_id ops s;
             let new_root = (new_internal new_root_id)\<lparr>page_children := [root_id]\<rparr>;
             split_child ops (op_set_root_id ops (op_write ops s new_root) new_root_id) new_root_id 0
           } else Some s);
     insert_nonfull ops key v s (op_root_id ops s)
   }"

partial_function (option) delete_from ::
  "'s page_store \<Rightarrow> bytes \<Rightarrow> 's \<Rightarrow> u32 \<Rightarrow> (bool \<times> 's) option" where
  "delete_from ops key s pid = do {
     p \<leftarrow> op_read ops s pid;
     if page_leaf p then
       (case binary_search (page_keys p) key of
          Inr pos \<Rightarrow> do {
            ks \<leftarrow> vec_remove_at pos (page_keys p);
            vs \<leftarrow> vec_remove_at pos (page_values p);
            Some (True, op_write ops s (p\<lparr>page_keys := ks, page_values := vs\<rparr>)) }
        | Inl pos \<Rightarrow> Some (False, s))
     else do {
       child_id \<leftarrow> vec_get (page_children p) (route (page_keys p) key);
       delete_from ops key s child_id
     }
   }"

definition btree_delete :: "'s page_store \<Rightarrow> 's \<Rightarrow> bytes \<Rightarrow> (bool \<times> 's) option" where
  "btree_delete ops s key = do {
     (removed, s) \<leftarrow> delete_from ops key s (op_root_id ops s);
     root \<leftarrow> op_read ops s (op_root_id ops s);
     if \<not> page_leaf root \<and> page_keys root = [] \<and> length (page_children root) = 1
     then do { new_root \<leftarrow> vec_get (page_children root) 0; Some (removed, op_set_root_id ops s new_root) }
     else Some (removed, s)
   }"

partial_function (option) count_loop :: "'s page_store \<Rightarrow> 's \<Rightarrow> u32 list \<Rightarrow> nat \<Rightarrow> nat option" where
  "count_loop ops s stack acc =
     (case stack of
        [] \<Rightarrow> Some acc
      | i # rest \<Rightarrow> do {
          p \<leftarrow> op_read ops s i;
          if page_leaf p then count_loop ops s rest (acc + length (page_keys p))
          else count_loop ops s (rev (page_children p) @ rest) acc })"

definition count_entries :: "'s page_store \<Rightarrow> 's \<Rightarrow> nat option" where
  "count_entries ops s = count_loop ops s [op_root_id ops s] 0"

end
