(* ===== verification/Btree_Tree.thy ===== *)
theory Btree_Tree
  imports Btree
begin

text \<open>
  The trees that pages represent: the binary search of the standard library meets its
  specification, search trees with weak upper bounds, and what splitting, updating and searching
  do on them. Nothing here mentions a store.
\<close>

section \<open>Binary search\<close>

definition is_route :: "'a::linorder list \<Rightarrow> 'a \<Rightarrow> nat \<Rightarrow> bool" where
  "is_route ks k r \<longleftrightarrow> r \<le> length ks \<and> (\<forall>j < r. ks ! j \<le> k) \<and> (\<forall>j. r \<le> j \<longrightarrow> j < length ks \<longrightarrow> k < ks ! j)"

lemma is_route_unique: "is_route ks k r \<Longrightarrow> is_route ks k r' \<Longrightarrow> r = r'"
proof (rule ccontr)
  assume r: "is_route ks k r" "is_route ks k r'" and "r \<noteq> r'"
  then consider "r < r'" | "r' < r" by linarith
  then show False
  proof cases
    case 1
    then have "ks ! r \<le> k" "k < ks ! r" using r by (auto simp: is_route_def)
    then show False by simp
  next
    case 2
    then have "ks ! r' \<le> k" "k < ks ! r'" using r by (auto simp: is_route_def)
    then show False by simp
  qed
qed

lemma sorted_nth_less: "sorted_wrt (<) (ks :: 'a::linorder list) \<Longrightarrow> i < j \<Longrightarrow> j < length ks \<Longrightarrow> ks ! i < ks ! j"
  by (simp add: sorted_wrt_nth_less)

lemma bsearch_loop_spec:
  assumes "sorted_wrt (<) xs" "0 < sz" "base + sz \<le> length xs"
    "\<forall>j < base. xs ! j < key" "base = 0 \<or> xs ! base \<le> key"
    "\<forall>j. base + sz \<le> j \<longrightarrow> j < length xs \<longrightarrow> key < xs ! j"
  shows "bsearch_loop xs key base sz < length xs \<and>
    (\<forall>j < bsearch_loop xs key base sz. xs ! j < key) \<and>
    (\<forall>j. bsearch_loop xs key base sz < j \<longrightarrow> j < length xs \<longrightarrow> key < xs ! j)"
  using assms
proof (induction xs key base sz rule: bsearch_loop.induct)
  case (1 xs key base sz)
  show ?case
  proof (cases "sz \<le> 1")
    case True
    then have "bsearch_loop xs key base sz = base" by (subst bsearch_loop.simps) simp
    with True 1(3-) show ?thesis by auto
  next
    case False
    let ?half = "sz div 2" and ?mid = "base + sz div 2"
    let ?b = "if key < xs ! ?mid then base else ?mid"
    have mid: "?mid < length xs" "0 < ?half" using False 1(4) by auto
    have e: "bsearch_loop xs key base sz = bsearch_loop xs key ?b (sz - ?half)"
      using False by (subst bsearch_loop.simps) (simp only: Let_def if_False)
    have up: "\<forall>j < ?mid. xs ! j < key" if "\<not> key < xs ! ?mid"
      using that sorted_nth_less [OF 1(2) _ mid(1)] by (meson less_le_trans not_less)
    have down: "key < xs ! j" if "key < xs ! ?mid" "?mid \<le> j" "j < length xs" for j
    proof -
      have "xs ! ?mid \<le> xs ! j" using sorted_nth_less [OF 1(2)] that by (metis le_less)
      with that show ?thesis by simp
    qed
    show ?thesis unfolding e
    proof (rule 1(1) [OF False refl refl 1(2)], goal_cases)
      case 1 show ?case using False by simp
    next
      case 2 show ?case using 1(4) by auto
    next
      case 3 show ?case using 1(5) up by simp
    next
      case 4 show ?case using 1(6) by auto
    next
      case 5 show ?case
      proof (cases "key < xs ! ?mid")
        case True
        then show ?thesis using down by (auto simp: le_diff_conv)
      next
        case f: False
        have "?mid + (sz - ?half) = base + sz" by simp
        then show ?thesis using f 1(7) by (simp only: if_False)
      qed
    qed
  qed
qed

lemma binary_search_spec:
  assumes "sorted_wrt (<) xs"
  shows "case binary_search xs key of
      Inr i \<Rightarrow> i < length xs \<and> xs ! i = key
    | Inl i \<Rightarrow> key \<notin> set xs \<and> i \<le> length xs \<and> (\<forall>j < i. xs ! j < key) \<and> (\<forall>j. i \<le> j \<longrightarrow> j < length xs \<longrightarrow> key < xs ! j)"
proof (cases "xs = []")
  case True
  then show ?thesis by (simp add: binary_search_def)
next
  case False
  let ?b = "bsearch_loop xs key 0 (length xs)"
  have b: "?b < length xs" "\<forall>j < ?b. xs ! j < key" "\<forall>j. ?b < j \<longrightarrow> j < length xs \<longrightarrow> key < xs ! j"
    using bsearch_loop_spec [OF assms, of "length xs" 0 key] False by auto
  show ?thesis
  proof (cases "xs ! ?b" key rule: linorder_cases)
    case less
    have "\<forall>j < ?b + 1. xs ! j < key" using b less by (auto simp: less_Suc_eq)
    moreover have "key \<notin> set xs" using b less by (metis in_set_conv_nth less_irrefl linorder_neqE_nat)
    ultimately show ?thesis using b less False by (auto simp: binary_search_def Let_def)
  next
    case equal
    then show ?thesis using b False by (simp add: binary_search_def Let_def)
  next
    case greater
    have "\<forall>j. ?b \<le> j \<longrightarrow> j < length xs \<longrightarrow> key < xs ! j" using b greater by (metis le_less)
    moreover have "key \<notin> set xs" using b greater by (metis in_set_conv_nth less_irrefl linorder_neqE_nat)
    ultimately show ?thesis using b greater False by (auto simp: binary_search_def Let_def)
  qed
qed

lemma route_is_route: "sorted_wrt (<) ks \<Longrightarrow> is_route ks k (route ks k)"
proof -
  assume s: "sorted_wrt (<) ks"
  show ?thesis
  proof (cases "binary_search ks k")
    case (Inl i)
    then show ?thesis using binary_search_spec [OF s, of k] by (auto simp: route_def is_route_def less_imp_le)
  next
    case (Inr i)
    then have i: "i < length ks" "ks ! i = k" using binary_search_spec [OF s, of k] by auto
    then have "\<forall>j < i + 1. ks ! j \<le> k" using sorted_nth_less [OF s] by (auto simp: less_Suc_eq less_imp_le)
    moreover have "\<forall>j. i + 1 \<le> j \<longrightarrow> j < length ks \<longrightarrow> k < ks ! j" using sorted_nth_less [OF s] i by auto
    ultimately show ?thesis using i Inr by (simp add: route_def is_route_def)
  qed
qed

lemma route_eqI: "sorted_wrt (<) ks \<Longrightarrow> is_route ks k r \<Longrightarrow> route ks k = r"
  by (rule is_route_unique [OF route_is_route])

lemma route_le: "sorted_wrt (<) ks \<Longrightarrow> route ks k \<le> length ks"
  using route_is_route [of ks k] by (simp add: is_route_def)

section \<open>Trees\<close>

datatype bt = BLeaf u32 "bytes list" "bytes list" | BNode u32 "bytes list" "bt list"

primrec bt_id :: "bt \<Rightarrow> u32" where
  "bt_id (BLeaf i ks vs) = i"
| "bt_id (BNode i ks ts) = i"

primrec bt_keys :: "bt \<Rightarrow> bytes list" where
  "bt_keys (BLeaf i ks vs) = ks"
| "bt_keys (BNode i ks ts) = ks"

primrec bt_ids :: "bt \<Rightarrow> u32 list" where
  "bt_ids (BLeaf i ks vs) = [i]"
| "bt_ids (BNode i ks ts) = i # concat (map bt_ids ts)"

definition bt_full :: "bt \<Rightarrow> bool" where
  "bt_full t \<longleftrightarrow> BRANCHING - 1 \<le> length (bt_keys t)"

definition bt_median :: "bt \<Rightarrow> bytes" where
  "bt_median t = bt_keys t ! (length (bt_keys t) div 2)"

text \<open>Searching a tree, and the keys whose insertion is misdirected: some page on the search path
  is full and its median, which the split promotes to a separator, is the key itself.\<close>

primrec bt_get :: "bt \<Rightarrow> bytes \<Rightarrow> bytes option" where
  "bt_get (BLeaf i ks vs) k = map_of (zip ks vs) k"
| "bt_get (BNode i ks ts) k = (map (\<lambda>t. bt_get t k) ts) ! route ks k"

primrec bt_misses :: "bt \<Rightarrow> bytes \<Rightarrow> bool" where
  "bt_misses (BLeaf i ks vs) k = (bt_full (BLeaf i ks vs) \<and> bt_median (BLeaf i ks vs) = k)"
| "bt_misses (BNode i ks ts) k =
     ((bt_full (BNode i ks ts) \<and> bt_median (BNode i ks ts) = k) \<or> (map (\<lambda>t. bt_misses t k) ts) ! route ks k)"

definition gt_lo :: "bytes option \<Rightarrow> bytes \<Rightarrow> bool" where
  "gt_lo lo k = (case lo of None \<Rightarrow> True | Some l \<Rightarrow> l < k)"

definition ge_lo :: "bytes option \<Rightarrow> bytes \<Rightarrow> bool" where
  "ge_lo lo k = (case lo of None \<Rightarrow> True | Some l \<Rightarrow> l \<le> k)"

definition lt_hi :: "bytes option \<Rightarrow> bytes \<Rightarrow> bool" where
  "lt_hi hi k = (case hi of None \<Rightarrow> True | Some h \<Rightarrow> k < h)"

definition le_hi :: "bool \<Rightarrow> bytes option \<Rightarrow> bytes \<Rightarrow> bool" where
  "le_hi st hi k = (case hi of None \<Rightarrow> True | Some h \<Rightarrow> k < h \<or> \<not> st \<and> k = h)"

definition lo_of :: "bytes option \<Rightarrow> bytes list \<Rightarrow> nat \<Rightarrow> bytes option" where
  "lo_of lo ks j = (if j = 0 then lo else Some (ks ! (j - 1)))"

definition hi_of :: "bytes option \<Rightarrow> bytes list \<Rightarrow> nat \<Rightarrow> bytes option" where
  "hi_of hi ks j = (if j < length ks then Some (ks ! j) else hi)"

lemmas bound_defs = gt_lo_def ge_lo_def lt_hi_def le_hi_def lo_of_def hi_of_def

text \<open>A tree of depth \<open>d\<close> whose keys lie between the bounds. A leaf may hold a key equal to its
  upper bound when \<open>st\<close> is false: such a key is out of reach of the search.\<close>

primrec bt_inv :: "bool \<Rightarrow> nat \<Rightarrow> bytes option \<Rightarrow> bytes option \<Rightarrow> bt \<Rightarrow> bool" where
  "bt_inv st 0 lo hi t =
     (case t of
        BLeaf i ks vs \<Rightarrow> sorted_wrt (<) ks \<and> length vs = length ks \<and> length ks \<le> BRANCHING - 1 \<and>
          (\<forall>k \<in> set ks. ge_lo lo k \<and> le_hi st hi k)
      | BNode i ks ts \<Rightarrow> False)"
| "bt_inv st (Suc d) lo hi t =
     (case t of
        BLeaf i ks vs \<Rightarrow> False
      | BNode i ks ts \<Rightarrow> sorted_wrt (<) ks \<and> length ts = Suc (length ks) \<and> length ks \<le> BRANCHING - 1 \<and>
          (\<forall>k \<in> set ks. gt_lo lo k \<and> lt_hi hi k) \<and>
          (\<forall>j < length ts. bt_inv st d (lo_of lo ks j) (hi_of hi ks j) (ts ! j)))"

lemma bt_inv_sorted: "bt_inv st d lo hi t \<Longrightarrow> sorted_wrt (<) (bt_keys t)"
  by (cases d; cases t) auto

lemma bt_inv_NodeD:
  assumes "bt_inv st d lo hi (BNode i ks ts)"
  obtains d' where "d = Suc d'" "sorted_wrt (<) ks" "length ts = Suc (length ks)" "length ks \<le> BRANCHING - 1"
    "\<forall>k \<in> set ks. gt_lo lo k \<and> lt_hi hi k" "\<forall>j < length ts. bt_inv st d' (lo_of lo ks j) (hi_of hi ks j) (ts ! j)"
  using assms by (cases d) auto

lemma bt_inv_LeafD:
  assumes "bt_inv st d lo hi (BLeaf i ks vs)"
  shows "d = 0" "sorted_wrt (<) ks" "length vs = length ks" "length ks \<le> BRANCHING - 1"
    "\<forall>k \<in> set ks. ge_lo lo k \<and> le_hi st hi k"
  using assms by (cases d; auto)+

lemma bt_get_Node:
  "sorted_wrt (<) ks \<Longrightarrow> length ts = Suc (length ks) \<Longrightarrow> bt_get (BNode i ks ts) k = bt_get (ts ! route ks k) k"
  using route_le [of ks k] by simp

lemma bt_misses_Node:
  "sorted_wrt (<) ks \<Longrightarrow> length ts = Suc (length ks) \<Longrightarrow>
   bt_misses (BNode i ks ts) k \<longleftrightarrow> bt_full (BNode i ks ts) \<and> bt_median (BNode i ks ts) = k \<or> bt_misses (ts ! route ks k) k"
  using route_le [of ks k] by simp

declare bt_get.simps(2) [simp del] bt_misses.simps(2) [simp del]

section \<open>Leaves\<close>

lemma sorted_vec_insert:
  assumes "sorted_wrt (<) ks" "\<forall>j < p. ks ! j < k" "\<forall>j. p \<le> j \<longrightarrow> j < length ks \<longrightarrow> k < ks ! j" "p \<le> length ks"
  shows "sorted_wrt (<) (vec_insert p (k :: 'a::linorder) ks)"
proof -
  have "sorted_wrt (<) (take p ks @ drop p ks)" using assms(1) by simp
  moreover have "\<forall>x \<in> set (take p ks). x < k" using assms(2,4) by (auto simp: in_set_conv_nth)
  moreover have "\<forall>x \<in> set (drop p ks). k < x" using assms(3) by (auto simp: in_set_conv_nth)
  ultimately show ?thesis unfolding vec_insert_def
    by (auto simp: sorted_wrt_append simp del: append_take_drop_id)
qed

lemma zip_vec_insert:
  "length vs = length ks \<Longrightarrow> zip (vec_insert p k ks) (vec_insert p v vs) = vec_insert p (k, v) (zip ks vs)"
  by (simp add: vec_insert_def take_zip drop_zip)

lemma zip_vec_remove:
  "length vs = length ks \<Longrightarrow> zip (vec_remove p ks) (vec_remove p vs) = vec_remove p (zip ks vs)"
  by (simp add: vec_remove_def take_zip drop_zip)

lemma map_of_vec_insert:
  assumes "k \<notin> fst ` set kvs"
  shows "map_of (vec_insert p (k, v) kvs) = (map_of kvs)(k \<mapsto> v)"
proof -
  have t: "k \<notin> fst ` set (take p kvs)" using assms by (auto dest: in_set_takeD)
  have "map_of (vec_insert p (k, v) kvs) = (map_of (drop p kvs))(k \<mapsto> v) ++ map_of (take p kvs)"
    by (simp add: vec_insert_def)
  also have "\<dots> = (map_of (take p kvs @ drop p kvs))(k \<mapsto> v)"
    using t by (subst map_of_append) (simp add: map_add_upd_left dom_map_of_conv_image_fst)
  finally show ?thesis by simp
qed

lemma map_of_vec_remove:
  assumes "distinct (map fst kvs)" "p < length kvs"
  shows "map_of (vec_remove p kvs) = (map_of kvs)(fst (kvs ! p) := None)"
proof -
  have e: "kvs = take p kvs @ kvs ! p # drop (Suc p) kvs" using assms(2) by (simp add: id_take_nth_drop)
  have d: "distinct (map fst (take p kvs @ kvs ! p # drop (Suc p) kvs))" using assms(1) e by simp
  then have n: "fst (kvs ! p) \<notin> fst ` set (take p kvs)" "fst (kvs ! p) \<notin> fst ` set (drop (Suc p) kvs)" by auto
  have "map_of kvs = (map_of (drop (Suc p) kvs))(fst (kvs ! p) \<mapsto> snd (kvs ! p)) ++ map_of (take p kvs)"
    using arg_cong [OF e, of map_of] by (cases "kvs ! p") simp
  moreover have "map_of (vec_remove p kvs) (fst (kvs ! p)) = None"
    using n by (auto simp: vec_remove_def map_add_None map_of_eq_None_iff)
  ultimately show ?thesis by (auto simp: vec_remove_def fun_eq_iff map_add_def split: option.split)
qed

lemma sorted_less_distinct: "sorted_wrt (<) (ks :: 'a::linorder list) \<Longrightarrow> distinct ks"
  by (induction ks) auto

lemma map_of_zip_set:
  "distinct ks \<Longrightarrow> length vs = length ks \<Longrightarrow> i < length ks \<Longrightarrow>
   map_of (zip ks (vs[i := v])) = (map_of (zip ks vs))(ks ! i \<mapsto> v)"
proof (induction ks arbitrary: vs i)
  case (Cons k ks)
  then obtain w ws where vs: "vs = w # ws" by (cases vs) auto
  show ?case
  proof (cases i)
    case (Suc j)
    with Cons vs have "ks ! j \<noteq> k" by (metis Suc_less_SucD distinct.simps(2) length_Cons nth_mem)
    then show ?thesis using Cons Suc vs by (auto simp: fun_upd_twist)
  qed (auto simp: vs fun_eq_iff)
qed simp

lemma leaf_put_spec:
  assumes s: "sorted_wrt (<) (page_keys p)" and l: "length (page_values p) = length (page_keys p)"
  obtains ks vs where "leaf_put p key v = Some (p\<lparr>page_keys := ks, page_values := vs\<rparr>)"
    "sorted_wrt (<) ks" "length vs = length ks" "length ks \<le> Suc (length (page_keys p))"
    "set ks = insert key (set (page_keys p))"
    "map_of (zip ks vs) = (map_of (zip (page_keys p) (page_values p)))(key \<mapsto> v)"
proof (cases "binary_search (page_keys p) key")
  case (Inl i)
  note b = binary_search_spec [OF s, of key, unfolded Inl, simplified]
  show ?thesis
  proof (rule that)
    show "leaf_put p key v = Some (p\<lparr>page_keys := vec_insert i key (page_keys p), page_values := vec_insert i v (page_values p)\<rparr>)"
      using Inl b l by (simp add: leaf_put_def vec_insert_at_def)
    show "sorted_wrt (<) (vec_insert i key (page_keys p))" using b s by (intro sorted_vec_insert) auto
    show "map_of (zip (vec_insert i key (page_keys p)) (vec_insert i v (page_values p))) =
        (map_of (zip (page_keys p) (page_values p)))(key \<mapsto> v)"
      using b l by (auto simp: zip_vec_insert dest: set_zip_leftD intro!: map_of_vec_insert)
  qed (use l in simp_all)
next
  case (Inr i)
  note b = binary_search_spec [OF s, of key, unfolded Inr, simplified]
  show ?thesis
  proof (rule that)
    show "leaf_put p key v = Some (p\<lparr>page_keys := page_keys p, page_values := (page_values p)[i := v]\<rparr>)"
      using Inr b l by (simp add: leaf_put_def vec_set_at_def)
    have d: "distinct (page_keys p)" using s by (rule sorted_less_distinct)
    then show "map_of (zip (page_keys p) ((page_values p)[i := v])) = (map_of (zip (page_keys p) (page_values p)))(key \<mapsto> v)"
      using map_of_zip_set [of "page_keys p" "page_values p" i v] b l by simp
  qed (use s l b in auto)
qed


section \<open>Splitting\<close>

primrec bt_split :: "u32 \<Rightarrow> bt \<Rightarrow> bt \<times> bt" where
  "bt_split n (BLeaf i ks vs) =
     (let m = length ks div 2 in (BLeaf i (take m ks) (take m vs), BLeaf n (drop m ks) (drop m vs)))"
| "bt_split n (BNode i ks ts) =
     (let m = length ks div 2
      in (BNode i (take m ks) (take (Suc m) ts), BNode n (drop (Suc m) ks) (drop (Suc m) ts)))"

lemma nth_vec_insert:
  "j \<le> length xs \<Longrightarrow> m \<le> length xs \<Longrightarrow>
   vec_insert j x xs ! m = (if m < j then xs ! m else if m = j then x else xs ! (m - 1))"
  by (auto simp: vec_insert_def nth_append min_def nth_Cons split: nat.split)
    (metis Suc_diff_le add_Suc_right diff_Suc_Suc diff_zero le_add_diff_inverse linorder_not_less)

lemma le_hi_below: "lt_hi hi k \<Longrightarrow> le_hi st hi k"
  by (auto simp: bound_defs split: option.splits)

lemma le_hi_trans: "k < k' \<Longrightarrow> le_hi st hi k' \<Longrightarrow> lt_hi hi k"
  by (auto simp: bound_defs split: option.splits)

lemma ge_lo_trans: "ge_lo lo k \<Longrightarrow> k < k' \<Longrightarrow> gt_lo lo k'"
  by (auto simp: bound_defs split: option.splits)

lemma bt_split_Leaf:
  assumes inv: "bt_inv st 0 lo hi (BLeaf i ks vs)" and full: "bt_full (BLeaf i ks vs)"
    and m: "m = length ks div 2"
  shows "bt_inv st 0 lo (Some (ks ! m)) (BLeaf i (take m ks) (take m vs))"
    "bt_inv st 0 (Some (ks ! m)) hi (BLeaf n (drop m ks) (drop m vs))"
    "gt_lo lo (ks ! m) \<and> lt_hi hi (ks ! m)"
    "bt_get (BLeaf i ks vs) k = (if k < ks ! m then bt_get (BLeaf i (take m ks) (take m vs)) k
       else bt_get (BLeaf n (drop m ks) (drop m vs)) k)"
proof -
  note l = bt_inv_LeafD [OF inv]
  have len: "length ks = 31" using full l(4) by (simp add: bt_full_def BRANCHING_def)
  have m15: "m = 15" using m len by simp
  have lt: "x < ks ! m" if x: "x \<in> set (take m ks)" for x
    using x sorted_nth_less [OF l(2), of _ m] len m15 by (auto simp: in_set_conv_nth)
  have ge: "ks ! m \<le> x" if x: "x \<in> set (drop m ks)" for x
  proof -
    obtain j where "x = ks ! (m + j)" "m + j < length ks" using x by (auto simp: in_set_conv_nth)
    then show ?thesis using sorted_nth_less [OF l(2), of m "m + j"] by (cases "j = 0") (auto simp: less_imp_le)
  qed
  show "bt_inv st 0 lo (Some (ks ! m)) (BLeaf i (take m ks) (take m vs))"
    using l lt by (auto simp: sorted_wrt_take le_hi_def dest: in_set_takeD)
  show "bt_inv st 0 (Some (ks ! m)) hi (BLeaf n (drop m ks) (drop m vs))"
    using l ge by (auto simp: sorted_wrt_drop ge_lo_def dest: in_set_dropD)
  have "ks ! 14 < ks ! m" "ks ! m < ks ! 16" using sorted_nth_less [OF l(2)] len m15 by auto
  moreover have "ge_lo lo (ks ! 14)" "le_hi st hi (ks ! 16)" using l(5) len by auto
  ultimately show "gt_lo lo (ks ! m) \<and> lt_hi hi (ks ! m)" using ge_lo_trans le_hi_trans by blast
  have z: "map_of (zip ks vs) = map_of (zip (drop m ks) (drop m vs)) ++ map_of (zip (take m ks) (take m vs))"
    by (subst append_take_drop_id [of m "zip ks vs", symmetric]) (simp only: map_of_append take_zip drop_zip)
  have n1: "map_of (zip (drop m ks) (drop m vs)) k = None" if "k < ks ! m"
    using that ge [of k] l(3) by (subst map_of_zip_is_None) auto
  have n2: "map_of (zip (take m ks) (take m vs)) k = None" if "\<not> k < ks ! m"
    using that lt [of k] l(3) by (subst map_of_zip_is_None) auto
  show "bt_get (BLeaf i ks vs) k = (if k < ks ! m then bt_get (BLeaf i (take m ks) (take m vs)) k
       else bt_get (BLeaf n (drop m ks) (drop m vs)) k)"
    using n1 n2 by (auto simp: z map_add_def split: option.splits)
qed

lemma is_route_take: "is_route ks k r \<Longrightarrow> m < length ks \<Longrightarrow> k < ks ! m \<Longrightarrow> is_route (take m ks) k r"
proof -
  assume r: "is_route ks k r" "m < length ks" "k < ks ! m"
  then have "r \<le> m" by (auto simp: is_route_def) (meson leD not_le_imp_less)
  with r show ?thesis by (auto simp: is_route_def)
qed

lemma is_route_drop:
  assumes "is_route ks k r" "m < length ks" "\<not> k < ks ! m"
  shows "m < r \<and> is_route (drop (Suc m) ks) k (r - (Suc m))"
proof -
  have "m < r" using assms by (auto simp: is_route_def) (meson not_le_imp_less)
  then show ?thesis using assms(1) by (auto simp: is_route_def)
qed

lemma bt_split_Node:
  assumes inv: "bt_inv st (Suc d) lo hi (BNode i ks ts)" and full: "bt_full (BNode i ks ts)"
    and m: "m = length ks div 2"
  shows "bt_inv st (Suc d) lo (Some (ks ! m)) (BNode i (take m ks) (take (Suc m) ts))"
    "bt_inv st (Suc d) (Some (ks ! m)) hi (BNode n (drop (Suc m) ks) (drop (Suc m) ts))"
    "gt_lo lo (ks ! m) \<and> lt_hi hi (ks ! m)"
    "bt_get (BNode i ks ts) k = (if k < ks ! m then bt_get (BNode i (take m ks) (take (Suc m) ts)) k
       else bt_get (BNode n (drop (Suc m) ks) (drop (Suc m) ts)) k)"
    "bt_misses (ts ! route ks k) k = (if k < ks ! m then bt_misses (BNode i (take m ks) (take (Suc m) ts)) k
       else bt_misses (BNode n (drop (Suc m) ks) (drop (Suc m) ts)) k)"
proof -
  obtain s: "sorted_wrt (<) ks" and lt: "length ts = Suc (length ks)" and lk: "length ks \<le> BRANCHING - 1"
    and b: "\<forall>k \<in> set ks. gt_lo lo k \<and> lt_hi hi k"
    and c: "\<forall>j < length ts. bt_inv st d (lo_of lo ks j) (hi_of hi ks j) (ts ! j)"
    using inv by (elim bt_inv_NodeD) auto
  have len: "length ks = 31" using full lk by (simp add: bt_full_def BRANCHING_def)
  have m15: "m = 15" using m len by simp
  have st: "sorted_wrt (<) (take m ks)" "sorted_wrt (<) (drop (Suc m) ks)"
    using s by (simp_all add: sorted_wrt_take sorted_wrt_drop)
  have lts: "length (take (Suc m) ts) = Suc (length (take m ks))"
    "length (drop (Suc m) ts) = Suc (length (drop (Suc m) ks))" using lt len m15 by auto
  have sm: "x < ks ! m" if "x \<in> set (take m ks)" for x
    using that sorted_nth_less [OF s, of _ m] len m15 by (auto simp: in_set_conv_nth)
  have gt: "ks ! m < x" if "x \<in> set (drop (Suc m) ks)" for x
    using that sorted_nth_less [OF s, of m] by (auto simp: in_set_conv_nth)
  have cl: "bt_inv st d (lo_of lo (take m ks) j) (hi_of (Some (ks ! m)) (take m ks) j) (take (Suc m) ts ! j)"
    if "j < Suc m" for j
  proof -
    have "lo_of lo (take m ks) j = lo_of lo ks j" "hi_of (Some (ks ! m)) (take m ks) j = hi_of hi ks j"
      "take (Suc m) ts ! j = ts ! j"
      using that len m15 by (cases "j = m"; auto simp: lo_of_def hi_of_def min_def)+
    with c that len lt m15 show ?thesis by simp
  qed
  have cr: "bt_inv st d (lo_of (Some (ks ! m)) (drop (Suc m) ks) j) (hi_of hi (drop (Suc m) ks) j) (drop (Suc m) ts ! j)"
    if "j < length (drop (Suc m) ts)" for j
  proof -
    have "lo_of (Some (ks ! m)) (drop (Suc m) ks) j = lo_of lo ks (Suc m + j)"
      "hi_of hi (drop (Suc m) ks) j = hi_of hi ks (Suc m + j)" "drop (Suc m) ts ! j = ts ! (Suc m + j)"
      using that len lt m15 by (auto simp: lo_of_def hi_of_def)
    moreover have "Suc m + j < length ts" using that by simp
    ultimately show ?thesis using c by simp
  qed
  show "bt_inv st (Suc d) lo (Some (ks ! m)) (BNode i (take m ks) (take (Suc m) ts))"
    using st(1) lts(1) b sm cl lk len by (auto simp: lt_hi_def dest: in_set_takeD)
  show "bt_inv st (Suc d) (Some (ks ! m)) hi (BNode n (drop (Suc m) ks) (drop (Suc m) ts))"
    using st(2) lts(2) b gt cr lk len by (auto simp: gt_lo_def dest: in_set_dropD)
  show "gt_lo lo (ks ! m) \<and> lt_hi hi (ks ! m)" using b len m15 by auto
  have r1: "route (take m ks) k = route ks k \<and> take (Suc m) ts ! route ks k = ts ! route ks k" if "k < ks ! m"
  proof -
    have ir: "is_route (take m ks) k (route ks k)"
      using is_route_take [OF route_is_route [OF s]] that len m15 by simp
    then have "route ks k < Suc m" by (simp add: is_route_def)
    with route_eqI [OF st(1) ir] show ?thesis by simp
  qed
  have r2: "drop (Suc m) ts ! route (drop (Suc m) ks) k = ts ! route ks k" if "\<not> k < ks ! m"
  proof -
    have ir: "m < route ks k" "is_route (drop (Suc m) ks) k (route ks k - (Suc m))"
      using is_route_drop [OF route_is_route [OF s] _ that] len m15 by auto
    have "route ks k \<le> length ks" by (rule route_le [OF s])
    with ir(1) route_eqI [OF st(2) ir(2)] show ?thesis using lt len by simp
  qed
  show "bt_get (BNode i ks ts) k = (if k < ks ! m then bt_get (BNode i (take m ks) (take (Suc m) ts)) k
       else bt_get (BNode n (drop (Suc m) ks) (drop (Suc m) ts)) k)"
    using r1 r2 by (simp add: bt_get_Node [OF s lt] bt_get_Node [OF st(1) lts(1)] bt_get_Node [OF st(2) lts(2)])
  show "bt_misses (ts ! route ks k) k = (if k < ks ! m then bt_misses (BNode i (take m ks) (take (Suc m) ts)) k
       else bt_misses (BNode n (drop (Suc m) ks) (drop (Suc m) ts)) k)"
  proof -
    have nf: "\<not> bt_full (BNode i (take m ks) (take (Suc m) ts))" "\<not> bt_full (BNode n (drop (Suc m) ks) (drop (Suc m) ts))"
      by (simp_all add: bt_full_def BRANCHING_def len m15)
    show ?thesis using r1 r2
    by (simp add: nf bt_misses_Node [OF st(1) lts(1)] bt_misses_Node [OF st(2) lts(2)])
  qed
qed

text \<open>What splitting a full tree gives, for leaves and nodes alike.\<close>

lemma bt_split_spec:
  assumes inv: "bt_inv st d lo hi t" and full: "bt_full t" and sp: "bt_split n t = (l, r)"
  shows "bt_inv st d lo (Some (bt_median t)) l" "bt_inv st d (Some (bt_median t)) hi r"
    "gt_lo lo (bt_median t)" "lt_hi hi (bt_median t)" "\<not> bt_full l" "\<not> bt_full r"
    "bt_get t k = (if k < bt_median t then bt_get l k else bt_get r k)"
    "bt_misses t k \<longleftrightarrow> k = bt_median t \<or> (if k < bt_median t then bt_misses l k else bt_misses r k)"
proof -
  have "bt_inv st d lo (Some (bt_median t)) l \<and> bt_inv st d (Some (bt_median t)) hi r \<and>
    gt_lo lo (bt_median t) \<and> lt_hi hi (bt_median t) \<and> \<not> bt_full l \<and> \<not> bt_full r \<and>
    bt_get t k = (if k < bt_median t then bt_get l k else bt_get r k) \<and>
    (bt_misses t k \<longleftrightarrow> k = bt_median t \<or> (if k < bt_median t then bt_misses l k else bt_misses r k))"
  proof (cases t)
    case (BLeaf i ks vs)
    let ?m = "length ks div 2"
    have d: "d = 0" and len: "length ks = 31"
      using bt_inv_LeafD(1,4) [OF inv [unfolded BLeaf]] full by (auto simp: BLeaf bt_full_def BRANCHING_def)
    have l: "l = BLeaf i (take ?m ks) (take ?m vs)" and r: "r = BLeaf n (drop ?m ks) (drop ?m vs)"
      using sp by (auto simp: BLeaf Let_def)
    note s = bt_split_Leaf [OF inv [unfolded BLeaf d] full [unfolded BLeaf] refl]
    have "\<not> bt_full l" "\<not> bt_full r" by (simp_all add: l r bt_full_def BRANCHING_def len)
    then show ?thesis using s(1,3) s(2) [of n] s(4) [of k n] full
      unfolding BLeaf d l r by (simp add: bt_median_def eq_commute del: bt_inv.simps bt_get.simps(1))
  next
    case (BNode i ks ts)
    let ?m = "length ks div 2"
    obtain d' where d: "d = Suc d'" and sk: "sorted_wrt (<) ks" and lt: "length ts = Suc (length ks)"
      and "length ks \<le> BRANCHING - 1"
      using inv BNode by (metis bt_inv_NodeD)
    then have len: "length ks = 31" using full by (simp add: BNode bt_full_def BRANCHING_def)
    have l: "l = BNode i (take ?m ks) (take (Suc ?m) ts)" and r: "r = BNode n (drop (Suc ?m) ks) (drop (Suc ?m) ts)"
      using sp by (auto simp: BNode Let_def)
    note s = bt_split_Node [OF inv [unfolded BNode d] full [unfolded BNode] refl]
    have "\<not> bt_full l" "\<not> bt_full r" by (simp_all add: l r bt_full_def BRANCHING_def len)
    then show ?thesis using s(1,3) s(2) [of n] s(4) [of k n] s(5) [of k n] full bt_misses_Node [OF sk lt, of i k]
      unfolding BNode d l r by (simp add: bt_median_def eq_commute del: bt_inv.simps)
  qed
  then show "bt_inv st d lo (Some (bt_median t)) l" "bt_inv st d (Some (bt_median t)) hi r"
    "gt_lo lo (bt_median t)" "lt_hi hi (bt_median t)" "\<not> bt_full l" "\<not> bt_full r"
    "bt_get t k = (if k < bt_median t then bt_get l k else bt_get r k)"
    "bt_misses t k \<longleftrightarrow> k = bt_median t \<or> (if k < bt_median t then bt_misses l k else bt_misses r k)"
    by blast+
qed

section \<open>Children of a node\<close>

lemma bt_inv_set_child:
  assumes "bt_inv st (Suc d) lo hi (BNode i ks ts)" "j < length ts"
    "bt_inv st d (lo_of lo ks j) (hi_of hi ks j) c"
  shows "bt_inv st (Suc d) lo hi (BNode i ks (ts[j := c]))"
  using assms by (auto simp: nth_list_update)

lemma bt_get_set_child:
  assumes s: "sorted_wrt (<) ks" "length ts = Suc (length ks)" and j: "j < length ts"
  shows "bt_get (BNode i ks (ts[j := c])) k =
    (if route ks k = j then bt_get c k else bt_get (BNode i ks ts) k)"
  using j by (simp add: bt_get_Node [OF s] bt_get_Node [OF s(1), of "ts[j := c]"] s(2))

lemma sorted_insert_sep:
  assumes "sorted_wrt (<) ks" "j \<le> length ks" "gt_lo (lo_of lo ks j) sep" "lt_hi (hi_of hi ks j) sep"
  shows "sorted_wrt (<) (vec_insert j sep ks)"
proof (rule sorted_vec_insert [OF assms(1) _ _ assms(2)])
  have "ks ! m < sep" if m: "m < j" for m
  proof -
    have "ks ! (j - 1) < sep" using assms(3) m by (simp add: lo_of_def gt_lo_def)
    moreover have "ks ! m \<le> ks ! (j - 1)"
      using sorted_nth_less [OF assms(1), of m "j - 1"] m assms(2) by (cases "m = j - 1") (auto simp: less_imp_le)
    ultimately show ?thesis by simp
  qed
  then show "\<forall>m < j. ks ! m < sep" by blast
  have "sep < ks ! m" if m: "j \<le> m" "m < length ks" for m
  proof -
    have "sep < ks ! j" using assms(4) m by (simp add: hi_of_def lt_hi_def)
    moreover have "ks ! j \<le> ks ! m"
      using sorted_nth_less [OF assms(1), of j m] m by (cases "m = j") (auto simp: less_imp_le)
    ultimately show ?thesis by simp
  qed
  then show "\<forall>m. j \<le> m \<longrightarrow> m < length ks \<longrightarrow> sep < ks ! m" by blast
qed

lemma route_insert_sep:
  assumes s: "sorted_wrt (<) ks" and s': "sorted_wrt (<) (vec_insert j sep ks)" and j: "j \<le> length ks"
  shows "route (vec_insert j sep ks) k =
    (if route ks k < j \<or> route ks k = j \<and> k < sep then route ks k else route ks k + 1)"
proof (rule route_eqI [OF s'])
  let ?r = "route ks k"
  let ?ks = "vec_insert j sep ks"
  have r: "?r \<le> length ks" "\<forall>m < ?r. ks ! m \<le> k" "\<forall>m. ?r \<le> m \<longrightarrow> m < length ks \<longrightarrow> k < ks ! m"
    using route_is_route [OF s, of k] by (auto simp: is_route_def)
  note n = nth_vec_insert [OF j]
  have lt: "?ks ! m < ?ks ! m'" if "m < m'" "m' \<le> length ks" for m m'
    using sorted_nth_less [OF s' that(1)] that(2) by simp
  show "is_route ?ks k (if ?r < j \<or> ?r = j \<and> k < sep then ?r else ?r + 1)"
  proof (cases "?r < j \<or> ?r = j \<and> k < sep")
    case True
    have kr: "k < ?ks ! ?r" using True r j by (auto simp: n)
    have "k < ?ks ! m" if "?r \<le> m" "m \<le> length ks" for m
      using kr lt [of ?r m] that by (cases "m = ?r") auto
    moreover have "?ks ! m \<le> k" if "m < ?r" for m using r that True j by (auto simp: n)
    ultimately show ?thesis using True r by (simp add: is_route_def)
  next
    case False
    have kr: "?ks ! ?r \<le> k" using False r j by (auto simp: n not_less)
    have "?ks ! m \<le> k" if "m < ?r + 1" for m
      using kr lt [of m ?r] that r by (cases "m = ?r") auto
    moreover have "k < ?ks ! m" if "?r + 1 \<le> m" "m \<le> length ks" for m using r that False j by (auto simp: n)
    ultimately show ?thesis using False r by (auto simp: is_route_def)
  qed
qed

text \<open>Splitting the full child \<open>j\<close> of a node and inserting its median as a separator.\<close>

lemma bt_inv_split_child:
  assumes inv: "bt_inv st (Suc d) lo hi (BNode i ks ts)" and j: "j < length ts" and nf: "length ks < BRANCHING - 1"
    and full: "bt_full (ts ! j)" and sp: "bt_split n (ts ! j) = (l, r)"
  shows "bt_inv st (Suc d) lo hi (BNode i (vec_insert j (bt_median (ts ! j)) ks) (vec_insert (Suc j) r (ts[j := l])))"
    "bt_get (BNode i (vec_insert j (bt_median (ts ! j)) ks) (vec_insert (Suc j) r (ts[j := l]))) k =
     bt_get (BNode i ks ts) k"
proof -
  let ?sep = "bt_median (ts ! j)"
  let ?ks = "vec_insert j ?sep ks" and ?ts = "vec_insert (Suc j) r (ts[j := l])"
  obtain s: "sorted_wrt (<) ks" and lt: "length ts = Suc (length ks)"
    and b: "\<forall>k \<in> set ks. gt_lo lo k \<and> lt_hi hi k"
    and c: "\<forall>j < length ts. bt_inv st d (lo_of lo ks j) (hi_of hi ks j) (ts ! j)"
    using inv by (elim bt_inv_NodeD) auto
  note spl = bt_split_spec [OF c [rule_format, OF j] full sp]
  have jk: "j \<le> length ks" using j lt by simp
  have s': "sorted_wrt (<) ?ks" by (rule sorted_insert_sep [OF s jk spl(3,4)])
  have lt': "length ?ts = Suc (length ?ks)" using lt by simp
  have nk: "?ks ! m = (if m < j then ks ! m else if m = j then ?sep else ks ! (m - 1))" if "m \<le> length ks" for m
    using nth_vec_insert [OF jk that] .
  have nt: "?ts ! m = (if m < j then ts ! m else if m = j then l else if m = Suc j then r else ts ! (m - 1))"
    if "m \<le> length ts" for m
    using nth_vec_insert [of "Suc j" "ts[j := l]" m r] that j by (auto simp: nth_list_update)
  have "gt_lo lo ?sep"
  proof (cases "j = 0")
    case False
    then have "gt_lo lo (ks ! (j - 1))" "ks ! (j - 1) < ?sep" using b jk spl(3) by (auto simp: lo_of_def gt_lo_def)
    then show ?thesis by (auto simp: gt_lo_def split: option.splits)
  qed (use spl(3) in \<open>simp add: lo_of_def\<close>)
  moreover have "lt_hi hi ?sep"
  proof (cases "j < length ks")
    case True
    then have "lt_hi hi (ks ! j)" "?sep < ks ! j" using b spl(4) by (auto simp: hi_of_def lt_hi_def)
    then show ?thesis by (auto simp: lt_hi_def split: option.splits)
  qed (use spl(4) in \<open>simp add: hi_of_def\<close>)
  ultimately have b': "\<forall>k \<in> set ?ks. gt_lo lo k \<and> lt_hi hi k" using b by simp
  have "bt_inv st d (lo_of lo ?ks m) (hi_of hi ?ks m) (?ts ! m)" if m: "m \<le> length ts" for m
  proof -
    consider "m < j" | "m = j" | "m = Suc j" | "Suc j < m" by linarith
    then show ?thesis
    proof cases
      case 1
      then have "lo_of lo ?ks m = lo_of lo ks m" "hi_of hi ?ks m = hi_of hi ks m"
        using jk by (auto simp: lo_of_def hi_of_def nk)
      with 1 c m j show ?thesis by (simp add: nt)
    next
      case 2
      then have "lo_of lo ?ks m = lo_of lo ks j" "hi_of hi ?ks m = Some ?sep"
        using jk by (auto simp: lo_of_def hi_of_def nk)
      with 2 spl(1) m show ?thesis by (simp add: nt)
    next
      case 3
      then have "lo_of lo ?ks m = Some ?sep" "hi_of hi ?ks m = hi_of hi ks j"
        using jk lt j by (auto simp: lo_of_def hi_of_def nk)
      with 3 spl(2) m show ?thesis by (simp add: nt)
    next
      case 4
      then have "lo_of lo ?ks m = lo_of lo ks (m - 1)" "hi_of hi ?ks m = hi_of hi ks (m - 1)"
        using jk lt m by (auto simp: lo_of_def hi_of_def nk)
      with 4 c m j show ?thesis by (simp add: nt)
    qed
  qed
  then have ch: "\<forall>m < length ?ts. bt_inv st d (lo_of lo ?ks m) (hi_of hi ?ks m) (?ts ! m)" by simp
  show "bt_inv st (Suc d) lo hi (BNode i ?ks ?ts)"
    using s' lt' b' nf ch by (simp only: bt_inv.simps bt.case) (simp add: less_eq_Suc_le)
  have rk: "route ks k \<le> length ks" by (rule route_le [OF s])
  show "bt_get (BNode i ?ks ?ts) k = bt_get (BNode i ks ts) k"
    using spl(7) [of k] rk
    by (auto simp: bt_get_Node [OF s' lt'] bt_get_Node [OF s lt] route_insert_sep [OF s s' jk] nt lt)
qed

section \<open>Deleting from a leaf\<close>

lemma sorted_vec_remove: "sorted_wrt (<) ks \<Longrightarrow> sorted_wrt (<) (vec_remove p (ks :: 'a::linorder list))"
proof -
  assume s: "sorted_wrt (<) ks"
  have "x < y" if xy: "x \<in> set (take p ks)" "y \<in> set (drop (Suc p) ks)" for x y
  proof -
    obtain a where a: "a < p" "a < length ks" "x = ks ! a" using xy(1) by (auto simp: in_set_conv_nth)
    obtain b where b: "b < length (drop (Suc p) ks)" "y = drop (Suc p) ks ! b"
      using xy(2) by (metis in_set_conv_nth)
    show ?thesis using sorted_nth_less [OF s, of a "Suc p + b"] a b by (simp add: less_diff_conv)
  qed
  with s show ?thesis by (auto simp: vec_remove_def sorted_wrt_append sorted_wrt_take sorted_wrt_drop)
qed

lemma leaf_remove_spec:
  assumes inv: "bt_inv st d lo hi (BLeaf i ks vs)" and b: "binary_search ks key = Inr p"
  shows "p < length ks" "p < length vs" "bt_inv st d lo hi (BLeaf i (vec_remove p ks) (vec_remove p vs))"
    "bt_get (BLeaf i (vec_remove p ks) (vec_remove p vs)) = (bt_get (BLeaf i ks vs))(key := None)"
    "bt_get (BLeaf i ks vs) key \<noteq> None"
proof -
  note l = bt_inv_LeafD [OF inv]
  have p: "p < length ks" "ks ! p = key" using binary_search_spec [OF l(2), of key] b by auto
  show "p < length ks" "p < length vs" using p l(3) by auto
  have sub: "set (vec_remove p ks) \<subseteq> set ks" by (auto simp: vec_remove_def dest: in_set_takeD in_set_dropD)
  show "bt_inv st d lo hi (BLeaf i (vec_remove p ks) (vec_remove p vs))"
    using l p sub by (auto simp: sorted_vec_remove)
  have "distinct (map fst (zip ks vs))" using sorted_less_distinct [OF l(2)] l(3) by simp
  then have "map_of (vec_remove p (zip ks vs)) = (map_of (zip ks vs))(key := None)"
    using map_of_vec_remove [of "zip ks vs" p] p l(3) by simp
  then show "bt_get (BLeaf i (vec_remove p ks) (vec_remove p vs)) = (bt_get (BLeaf i ks vs))(key := None)"
    using l(3) by (simp add: zip_vec_remove fun_eq_iff)
  show "bt_get (BLeaf i ks vs) key \<noteq> None" using p l(3) by (auto simp: map_of_zip_is_None)
qed

end
