(* ===== verification/Btree_Store.thy ===== *)
theory Btree_Store
  imports Btree_Tree "HOL-Library.Multiset"
begin

text \<open>
  The B-tree operations on pages implement the operations on trees, for every store that obeys the
  laws of the \<open>PageStore\<close> interface. The laws are a locale, discharged at the end for the
  in-memory store; the properties are stated for that store.
\<close>

section \<open>Pages that represent a tree\<close>

fun represents :: "'s page_store \<Rightarrow> 's \<Rightarrow> bt \<Rightarrow> bool" where
  "represents ops s (BLeaf i ks vs) \<longleftrightarrow>
     op_read ops s i = Some \<lparr>page_id = i, page_leaf = True, page_keys = ks, page_values = vs, page_children = []\<rparr>"
| "represents ops s (BNode i ks ts) \<longleftrightarrow>
     op_read ops s i = Some \<lparr>page_id = i, page_leaf = False, page_keys = ks, page_values = [], page_children = map bt_id ts\<rparr> \<and>
     (\<forall>t \<in> set ts. represents ops s t)"

lemma bt_id_in_ids: "bt_id t \<in> set (bt_ids t)"
  by (cases t) auto

lemma represents_frame:
  "represents ops s t \<Longrightarrow> (\<And>i. i \<in> set (bt_ids t) \<Longrightarrow> op_read ops s' i = op_read ops s i) \<Longrightarrow> represents ops s' t"
proof (induction t)
  case (BNode i ks ts)
  then show ?case by (auto intro!: BNode.IH)
qed simp

lemma represents_read:
  "represents ops s t \<Longrightarrow> \<exists>p. op_read ops s (bt_id t) = Some p \<and> page_keys p = bt_keys t \<and> (page_leaf p \<longleftrightarrow> (\<exists>i ks vs. t = BLeaf i ks vs))"
  by (cases t) auto

lemma depth_less_ids: "bt_inv st d lo hi t \<Longrightarrow> d < length (bt_ids t)"
proof (induction d arbitrary: lo hi t)
  case 0
  then show ?case by (cases t) auto
next
  case (Suc d)
  then obtain i ks ts where t: "t = BNode i ks ts" by (cases t) auto
  with Suc.prems have "length ts = Suc (length ks)" "bt_inv st d (lo_of lo ks 0) (hi_of hi ks 0) (ts ! 0)" by auto
  moreover obtain c cs where "ts = c # cs" using calculation(1) by (cases ts) auto
  ultimately show ?case using Suc.IH [of _ _ c] t by fastforce
qed

lemma bt_split_ids:
  "bt_split n t = (l, r) \<Longrightarrow>
   mset (bt_ids l) + mset (bt_ids r) = add_mset n (mset (bt_ids t)) \<and> bt_id l = bt_id t \<and> bt_id r = n"
proof (cases t)
  case (BNode i ks ts)
  assume "bt_split n t = (l, r)"
  then have lr: "l = BNode i (take (length ks div 2) ks) (take (Suc (length ks div 2)) ts)"
    "r = BNode n (drop (Suc (length ks div 2)) ks) (drop (Suc (length ks div 2)) ts)"
    by (auto simp: BNode Let_def)
  have "mset (concat (map bt_ids (take (Suc (length ks div 2)) ts))) + mset (concat (map bt_ids (drop (Suc (length ks div 2)) ts)))
    = mset (concat (map bt_ids ts))"
    by (metis append_take_drop_id concat_append map_append mset_append)
  then show ?thesis by (simp add: lr BNode)
qed (auto simp: Let_def)

lemma insert_split_child:
  "j < length ts \<Longrightarrow> vec_insert (Suc j) r (ts[j := l]) = take j ts @ [l, r] @ drop (Suc j) ts"
  by (simp add: vec_insert_def upd_conv_take_nth_drop min_def)

lemma split_child_at: "j < length ts \<Longrightarrow> ts = take j ts @ [ts ! j] @ drop (Suc j) ts"
  by (simp add: id_take_nth_drop)

lemma concat_split_ids:
  assumes j: "j < length ts" and sp: "bt_split n (ts ! j) = (l, r)"
  shows "mset (concat (map bt_ids (vec_insert (Suc j) r (ts[j := l])))) = add_mset n (mset (concat (map bt_ids ts)))"
proof -
  have "mset (concat (map bt_ids ts)) = mset (concat (map bt_ids (take j ts))) + mset (bt_ids (ts ! j)) + mset (concat (map bt_ids (drop (Suc j) ts)))"
    by (subst split_child_at [OF j]) (simp only: map_append concat_append mset_append list.map concat.simps append_Nil2 add.assoc)
  then show ?thesis using bt_split_ids [OF sp] by (simp add: insert_split_child [OF j])
qed

lemma set_child_ids:
  assumes d: "distinct (bt_ids (BNode i ks ts))" and j: "j < length ts" and dc: "distinct (bt_ids c)"
    and new: "set (bt_ids c) \<inter> (set (bt_ids (BNode i ks ts)) - set (bt_ids (ts ! j))) = {}"
  shows "distinct (bt_ids (BNode i ks (ts[j := c])))"
    "set (bt_ids (BNode i ks (ts[j := c]))) = set (bt_ids c) \<union> (set (bt_ids (BNode i ks ts)) - set (bt_ids (ts ! j)))"
proof -
  let ?A = "concat (map bt_ids (take j ts))" and ?B = "concat (map bt_ids (drop (Suc j) ts))"
  have e: "concat (map bt_ids ts) = ?A @ bt_ids (ts ! j) @ ?B"
    by (subst split_child_at [OF j]) (simp only: map_append concat_append list.map concat.simps append_Nil2)
  have e': "concat (map bt_ids (ts[j := c])) = ?A @ bt_ids c @ ?B"
    using j by (simp add: upd_conv_take_nth_drop)
  show "distinct (bt_ids (BNode i ks (ts[j := c])))"
    using d dc new by (simp only: bt_ids.simps e e' distinct.simps distinct_append set_append list.set) blast
  show "set (bt_ids (BNode i ks (ts[j := c]))) = set (bt_ids c) \<union> (set (bt_ids (BNode i ks ts)) - set (bt_ids (ts ! j)))"
    using d by (simp only: bt_ids.simps e e' distinct.simps distinct_append set_append list.set) blast
qed

lemma child_ids_distinct:
  assumes d: "distinct (bt_ids (BNode i ks ts))" and j: "j < length ts" and m: "m < length ts" "m \<noteq> j"
  shows "set (bt_ids (ts ! m)) \<inter> set (bt_ids (ts ! j)) = {}"
proof -
  let ?A = "concat (map bt_ids (take j ts))" and ?B = "concat (map bt_ids (drop (Suc j) ts))"
  have e: "concat (map bt_ids ts) = ?A @ bt_ids (ts ! j) @ ?B"
    by (subst split_child_at [OF j]) (simp only: map_append concat_append list.map concat.simps append_Nil2)
  have "ts ! m \<in> set (take j ts) \<union> set (drop (Suc j) ts)"
  proof (cases "m < j")
    case True
    then show ?thesis using m by (metis UnI1 in_set_conv_nth length_take min_less_iff_conj nth_take)
  next
    case False
    then have "ts ! m = drop (Suc j) ts ! (m - Suc j)" "m - Suc j < length (drop (Suc j) ts)" using m by auto
    then show ?thesis by (metis UnI2 nth_mem)
  qed
  then have "set (bt_ids (ts ! m)) \<subseteq> set ?A \<union> set ?B" by auto
  moreover have "distinct (?A @ bt_ids (ts ! j) @ ?B)" using d e by simp
  ultimately show ?thesis by (simp only: distinct_append set_append) blast
qed

definition tree_at :: "'s page_store \<Rightarrow> ('s \<Rightarrow> u32 set) \<Rightarrow> 's \<Rightarrow> bt \<Rightarrow> bool" where
  "tree_at ops owned s t \<longleftrightarrow> represents ops s t \<and> distinct (bt_ids t) \<and> set (bt_ids t) \<subseteq> owned s"

text \<open>A step that only touches pages of one tree and pages that were not in use.\<close>

definition grows :: "'s page_store \<Rightarrow> ('s \<Rightarrow> u32 set) \<Rightarrow> 's \<Rightarrow> bt \<Rightarrow> 's \<Rightarrow> bt \<Rightarrow> bool" where
  "grows ops owned s t s' t' \<longleftrightarrow> owned s \<subseteq> owned s' \<and> set (bt_ids t') \<subseteq> set (bt_ids t) \<union> (owned s' - owned s) \<and>
     (\<forall>i \<in> owned s - set (bt_ids t). op_read ops s' i = op_read ops s i) \<and> op_root_id ops s' = op_root_id ops s"

lemma grows_refl: "grows ops owned s t s t"
  by (auto simp: grows_def)

lemma grows_trans:
  assumes "grows ops owned s t s' t'" "grows ops owned s' t' s'' t''"
  shows "grows ops owned s t s'' t''"
proof -
  have "op_read ops s'' i = op_read ops s i" if "i \<in> owned s - set (bt_ids t)" for i
  proof -
    have "i \<in> owned s' - set (bt_ids t')" using that assms(1) unfolding grows_def by blast
    then show ?thesis using that assms unfolding grows_def by metis
  qed
  then show ?thesis using assms unfolding grows_def by auto
qed

lemma tree_at_child:
  assumes t: "tree_at ops owned s (BNode i ks ts)" and j: "j < length ts"
  shows "tree_at ops owned s (ts ! j)"
proof -
  have c: "ts ! j \<in> set ts" using j by simp
  have "distinct (concat (map bt_ids ts))" using t by (simp add: tree_at_def)
  then have "distinct (bt_ids (ts ! j))" using j by (simp add: distinct_concat_iff)
  moreover have "set (bt_ids (ts ! j)) \<subseteq> owned s" using t c by (auto simp: tree_at_def)
  ultimately show ?thesis using t c by (simp add: tree_at_def)
qed

lemma split_child_ids:
  assumes "j < length ts" "bt_id l = bt_id (ts ! j)" "bt_id r = n"
  shows "map bt_id (vec_insert (Suc j) r (ts[j := l])) = vec_insert (Suc j) n (map bt_id ts)"
  using assms by (simp add: insert_split_child vec_insert_def take_Suc_conv_app_nth take_map drop_map)

lemma split_child_Leaf:
  assumes P: "op_read ops s pid = Some \<lparr>page_id = pid, page_leaf = False, page_keys = ks, page_values = [], page_children = cs\<rparr>"
    and j: "j < length cs" "j \<le> length ks"
    and C: "op_read ops s (cs ! j) = Some \<lparr>page_id = i, page_leaf = True, page_keys = cks, page_values = cvs, page_children = []\<rparr>"
    and len: "length cks = 31" "length cvs = length cks"
    and nx: "op_next_id ops s = (n, s1)"
  shows "split_child ops s pid j = Some (op_write ops (op_write ops (op_write ops s1
      \<lparr>page_id = i, page_leaf = True, page_keys = take 15 cks, page_values = take 15 cvs, page_children = []\<rparr>)
      \<lparr>page_id = n, page_leaf = True, page_keys = drop 15 cks, page_values = drop 15 cvs, page_children = []\<rparr>)
      \<lparr>page_id = pid, page_leaf = False, page_keys = vec_insert j (cks ! 15) ks, page_values = [], page_children = vec_insert (Suc j) n cs\<rparr>)"
  using P j C len nx
  by (simp add: split_child_def vec_get_def split_off_def vec_insert_at_def new_leaf_def)

lemma split_child_Node:
  assumes P: "op_read ops s pid = Some \<lparr>page_id = pid, page_leaf = False, page_keys = ks, page_values = [], page_children = cs\<rparr>"
    and j: "j < length cs" "j \<le> length ks"
    and C: "op_read ops s (cs ! j) = Some \<lparr>page_id = i, page_leaf = False, page_keys = cks, page_values = [], page_children = ccs\<rparr>"
    and len: "length cks = 31" "length ccs = 32"
    and nx: "op_next_id ops s = (n, s1)"
  shows "split_child ops s pid j = Some (op_write ops (op_write ops (op_write ops s1
      \<lparr>page_id = i, page_leaf = False, page_keys = take 15 cks, page_values = [], page_children = take 16 ccs\<rparr>)
      \<lparr>page_id = n, page_leaf = False, page_keys = drop 16 cks, page_values = [], page_children = drop 16 ccs\<rparr>)
      \<lparr>page_id = pid, page_leaf = False, page_keys = vec_insert j (cks ! 15) ks, page_values = [], page_children = vec_insert (Suc j) n cs\<rparr>)"
proof -
  have t: "take 16 cks = take 15 cks @ [cks ! 15]" using take_Suc_conv_app_nth [of 15 cks] len by simp
  show ?thesis using P j C len nx
    by (simp add: split_child_def vec_get_def split_off_def vec_insert_at_def vec_pop_def new_internal_def t)
qed

primrec page_of :: "bt \<Rightarrow> page" where
  "page_of (BLeaf i ks vs) = \<lparr>page_id = i, page_leaf = True, page_keys = ks, page_values = vs, page_children = []\<rparr>"
| "page_of (BNode i ks ts) = \<lparr>page_id = i, page_leaf = False, page_keys = ks, page_values = [], page_children = map bt_id ts\<rparr>"

primrec bt_children :: "bt \<Rightarrow> bt list" where
  "bt_children (BLeaf i ks vs) = []"
| "bt_children (BNode i ks ts) = ts"

lemma page_of_simps [simp]:
  "page_id (page_of t) = bt_id t" "page_keys (page_of t) = bt_keys t" "page_children (page_of t) = map bt_id (bt_children t)"
  by (cases t; simp)+

lemma represents_iff:
  "represents ops s t \<longleftrightarrow> op_read ops s (bt_id t) = Some (page_of t) \<and> (\<forall>c \<in> set (bt_children t). represents ops s c)"
  by (cases t) auto

lemma represents_page: "represents ops s t \<Longrightarrow> op_read ops s (bt_id t) = Some (page_of t)"
  by (cases t) auto

lemma child_ids:
  "distinct (bt_ids t) \<Longrightarrow> c \<in> set (bt_children t) \<Longrightarrow> set (bt_ids c) \<subseteq> set (bt_ids t) - {bt_id t}"
  by (cases t) auto

lemma bt_split_children:
  "bt_split n t = (l, r) \<Longrightarrow> set (bt_children l) \<union> set (bt_children r) \<subseteq> set (bt_children t)"
  by (cases t) (auto simp: Let_def dest: in_set_takeD in_set_dropD)

lemma split_child_pages:
  assumes rep: "represents ops s (BNode pid ks ts)" and j: "j < length ts" "j \<le> length ks"
    and inv: "bt_inv st d lo hi (ts ! j)" and full: "bt_full (ts ! j)"
    and nx: "op_next_id ops s = (n, s1)" and sp: "bt_split n (ts ! j) = (l, r)"
  shows "split_child ops s pid j = Some (op_write ops (op_write ops (op_write ops s1 (page_of l)) (page_of r))
    (page_of (BNode pid (vec_insert j (bt_median (ts ! j)) ks) (vec_insert (Suc j) r (ts[j := l])))))"
proof -
  have C: "represents ops s (ts ! j)" and P: "op_read ops s pid = Some \<lparr>page_id = pid, page_leaf = False, page_keys = ks, page_values = [], page_children = map bt_id ts\<rparr>"
    using rep j by auto
  have ids: "map bt_id (vec_insert (Suc j) r (ts[j := l])) = vec_insert (Suc j) n (map bt_id ts)"
    using split_child_ids [OF j(1)] bt_split_ids [OF sp] by simp
  have j': "j < length (map bt_id ts)" using j by simp
  show ?thesis
  proof (cases "ts ! j")
    case (BLeaf i cks cvs)
    have len: "length cks = 31" "length cvs = length cks"
      using bt_inv_LeafD(3,4) [OF inv [unfolded BLeaf]] full by (auto simp: BLeaf bt_full_def BRANCHING_def)
    have "op_read ops s (map bt_id ts ! j) = Some \<lparr>page_id = i, page_leaf = True, page_keys = cks, page_values = cvs, page_children = []\<rparr>"
      using C j by (simp add: BLeaf)
    from split_child_Leaf [OF P j' j(2) this len nx] show ?thesis
      using sp len by (auto simp: BLeaf Let_def bt_median_def ids)
  next
    case (BNode i cks cts)
    obtain "length cts = Suc (length cks)" "length cks \<le> BRANCHING - 1"
      using inv BNode by (metis bt_inv_NodeD)
    then have len: "length cks = 31" "length (map bt_id cts) = 32" using full by (auto simp: BNode bt_full_def BRANCHING_def)
    have "op_read ops s (map bt_id ts ! j) = Some \<lparr>page_id = i, page_leaf = False, page_keys = cks, page_values = [], page_children = map bt_id cts\<rparr>"
      using C j by (simp add: BNode)
    from split_child_Node [OF P j' j(2) this len nx] show ?thesis
      using sp len by (auto simp: BNode Let_def bt_median_def ids take_map drop_map)
  qed
qed

section \<open>The store interface\<close>

text \<open>\<open>owned\<close> are the page ids handed out so far and \<open>room\<close> is how many more the store can hand
  out before its counter wraps.\<close>

locale lawful_store =
  fixes ops :: "'s page_store"
    and owned :: "'s \<Rightarrow> u32 set"
    and room :: "'s \<Rightarrow> nat"
  assumes read_write: "op_read ops (op_write ops s p) i = (if i = page_id p then Some p else op_read ops s i)"
    and write_keeps: "op_root_id ops (op_write ops s p) = op_root_id ops s"
      "owned (op_write ops s p) = owned s" "room (op_write ops s p) = room s"
    and next_id: "0 < room s \<Longrightarrow> op_next_id ops s = (n, s') \<Longrightarrow>
      n \<notin> owned s \<and> owned s' = insert n (owned s) \<and> room s' = room s - 1 \<and>
      op_root_id ops s' = op_root_id ops s \<and> (\<forall>i. op_read ops s' i = op_read ops s i)"
    and set_root: "op_root_id ops (op_set_root_id ops s i) = i"
      "op_read ops (op_set_root_id ops s i) j = op_read ops s j"
      "owned (op_set_root_id ops s i) = owned s" "room (op_set_root_id ops s i) = room s"
begin

text \<open>Splitting a full child on pages splits it in the tree.\<close>

lemma split_child_ok:
  assumes tr: "tree_at ops owned s (BNode pid ks ts)" and j: "j < length ts" "j \<le> length ks"
    and inv: "bt_inv st d lo hi (ts ! j)" and full: "bt_full (ts ! j)" and room: "0 < room s"
  obtains s' n l r where "split_child ops s pid j = Some s'" "bt_split n (ts ! j) = (l, r)"
    "tree_at ops owned s' (BNode pid (vec_insert j (bt_median (ts ! j)) ks) (vec_insert (Suc j) r (ts[j := l])))"
    "grows ops owned s (BNode pid ks ts) s'
       (BNode pid (vec_insert j (bt_median (ts ! j)) ks) (vec_insert (Suc j) r (ts[j := l])))"
    "room s' = room s - 1"
proof -
  obtain n s1 where nx: "op_next_id ops s = (n, s1)" by (cases "op_next_id ops s")
  obtain l r where sp: "bt_split n (ts ! j) = (l, r)" by (cases "bt_split n (ts ! j)")
  note nid = next_id [OF room nx]
  let ?t = "BNode pid ks ts" and ?c = "ts ! j"
  let ?t' = "BNode pid (vec_insert j (bt_median ?c) ks) (vec_insert (Suc j) r (ts[j := l]))"
  define s' where "s' = op_write ops (op_write ops (op_write ops s1 (page_of l)) (page_of r)) (page_of ?t')"
  have rep: "represents ops s ?t" and d: "distinct (bt_ids ?t)" and o: "set (bt_ids ?t) \<subseteq> owned s"
    using tr by (auto simp: tree_at_def)
  have c: "?c \<in> set ts" using j by simp
  note dc = tree_at_child [OF tr j(1), unfolded tree_at_def]
  have nf: "n \<notin> set (bt_ids ?t)" using nid o by blast
  have pc: "pid \<notin> set (bt_ids ?c)" and nc: "n \<notin> set (bt_ids ?c)" using d c nf by auto
  note lid = bt_split_ids [OF sp]
  have rd: "op_read ops s' i = (if i = pid then Some (page_of ?t') else if i = n then Some (page_of r)
      else if i = bt_id ?c then Some (page_of l) else op_read ops s i)" for i
    using lid nid by (simp add: s'_def read_write)
  have keep: "represents ops s' x" if x: "represents ops s x" "set (bt_ids x) \<inter> {pid, n, bt_id ?c} = {}" for x
    using x by (intro represents_frame [OF x(1)]) (auto simp: rd)
  have half: "represents ops s' x" if x: "x \<in> set (bt_children ?c)" for x
    using child_ids [OF _ x] dc x pc nc by (intro keep) (auto simp: represents_iff [of _ _ ?c])
  have "pid \<noteq> n" "bt_id ?c \<noteq> pid" "bt_id ?c \<noteq> n" using nf pc nc bt_id_in_ids [of ?c] by auto
  then have lr: "represents ops s' l" "represents ops s' r"
    using half bt_split_children [OF sp] lid by (auto simp: represents_iff [of _ _ l] represents_iff [of _ _ r] rd)
  have other: "represents ops s' (ts ! m)" if m: "m < length ts" "m \<noteq> j" for m
  proof (rule keep)
    show "represents ops s (ts ! m)" using rep m by simp
    have "set (bt_ids (ts ! m)) \<subseteq> set (bt_ids ?t) - {pid}"
      using child_ids [OF d, of "ts ! m"] m by simp
    then show "set (bt_ids (ts ! m)) \<inter> {pid, n, bt_id ?c} = {}"
      using nf child_ids_distinct [OF d j(1) m] bt_id_in_ids [of ?c] by auto
  qed
  have "represents ops s' x" if "x \<in> set (vec_insert (Suc j) r (ts[j := l]))" for x
  proof -
    from that consider "x = r" | m where "m < length ts" "x = ts[j := l] ! m"
      by (auto simp: in_set_conv_nth)
    then show ?thesis
    proof cases
      case (2 m)
      then show ?thesis using lr other by (cases "m = j") auto
    qed (use lr in simp)
  qed
  then have rep': "represents ops s' ?t'" by (simp add: rd)
  have ms: "mset (bt_ids ?t') = mset (n # bt_ids ?t)" using concat_split_ids [OF j(1) sp] by simp
  have d': "distinct (bt_ids ?t')" using mset_eq_imp_distinct_iff [OF ms] d nf by simp
  have si: "set (bt_ids ?t') = insert n (set (bt_ids ?t))" using mset_eq_setD [OF ms] by simp
  have own: "owned s' = insert n (owned s)" using nid by (simp add: s'_def write_keeps)
  show thesis
  proof (rule that)
    show "split_child ops s pid j = Some s'"
      unfolding s'_def by (rule split_child_pages [OF rep j inv full nx sp])
    show "bt_split n ?c = (l, r)" by (rule sp)
    show "tree_at ops owned s' ?t'" using rep' d' si own o by (auto simp: tree_at_def)
    have "op_read ops s' i = op_read ops s i" if i: "i \<in> owned s - set (bt_ids ?t)" for i
    proof -
      have "i \<noteq> pid" "i \<noteq> n" "i \<noteq> bt_id ?c" using i nid c bt_id_in_ids [of ?c] by auto
      then show ?thesis by (simp add: rd)
    qed
    moreover have "op_root_id ops s' = op_root_id ops s" using nid by (simp add: s'_def write_keeps)
    ultimately show "grows ops owned s ?t s' ?t'"
      unfolding grows_def si own using nid by blast
    show "room s' = room s - 1" using nid by (simp add: s'_def write_keeps)
  qed
qed

text \<open>Searching pages searches the tree.\<close>

lemma get_from_ok:
  "represents ops s t \<Longrightarrow> bt_inv st d lo hi t \<Longrightarrow> get_from ops s key (bt_id t) = Some (bt_get t key)"
proof (induction d arbitrary: t lo hi)
  case 0
  then obtain i ks vs where t: "t = BLeaf i ks vs" by (cases t) auto
  note l = bt_inv_LeafD [OF 0(2) [unfolded t]]
  have "get_from ops s key i = Some (map_of (zip ks vs) key)"
  proof (cases "binary_search ks key")
    case (Inl p)
    then have "key \<notin> set ks" using binary_search_spec [OF l(2), of key] by simp
    then have n: "map_of (zip ks vs) key = None" using l(3) by (simp add: map_of_zip_is_None)
    show ?thesis using 0(1) Inl by (subst get_from.simps) (simp add: t n)
  next
    case (Inr p)
    then have p: "p < length ks" "ks ! p = key" using binary_search_spec [OF l(2), of key] by auto
    then have "map_of (zip ks vs) key = Some (vs ! p)"
      using map_of_zip_nth [of ks vs p] l(3) sorted_less_distinct [OF l(2)] by simp
    then show ?thesis using 0 Inr p l(3) by (subst get_from.simps) (simp add: t vec_get_def)
  qed
  then show ?case by (simp add: t)
next
  case (Suc d)
  then obtain i ks ts where t: "t = BNode i ks ts" by (cases t) auto
  obtain s: "sorted_wrt (<) ks" and lt: "length ts = Suc (length ks)"
    and c: "\<forall>j < length ts. bt_inv st d (lo_of lo ks j) (hi_of hi ks j) (ts ! j)"
    using Suc.prems(2) unfolding t by (elim bt_inv_NodeD) auto
  let ?r = "route ks key"
  have r: "?r < length ts" using route_le [OF s, of key] lt by simp
  have "get_from ops s key i = get_from ops s key (bt_id (ts ! ?r))"
    using Suc.prems(1) r by (subst get_from.simps) (auto simp: t route_def vec_get_def split: sum.splits)
  also have "\<dots> = Some (bt_get (ts ! ?r) key)"
    using Suc.IH [of "ts ! ?r"] Suc.prems(1) c r by (auto simp: t)
  finally show ?case by (simp add: t bt_get_Node [OF s lt])
qed

text \<open>Choosing the child to insert into, splitting it first when it is full.\<close>

lemma pick_child_ok:
  assumes tr: "tree_at ops owned s (BNode pid ks ts)" and inv: "bt_inv st (Suc d) lo hi (BNode pid ks ts)"
    and nf: "\<not> bt_full (BNode pid ks ts)" and lo: "ge_lo lo key" and hi: "le_hi st hi key"
    and miss: "st \<longrightarrow> \<not> bt_misses (BNode pid ks ts) key" and room: "0 < room s"
  obtains s' ks' ts' j where
    "pick_child ops s pid (page_of (BNode pid ks ts)) key = Some (j, s')"
    "tree_at ops owned s' (BNode pid ks' ts')" "grows ops owned s (BNode pid ks ts) s' (BNode pid ks' ts')"
    "room s \<le> room s' + 1" "bt_inv st (Suc d) lo hi (BNode pid ks' ts')" "j < length ts'" "\<not> bt_full (ts' ! j)"
    "ge_lo (lo_of lo ks' j) key" "le_hi st (hi_of hi ks' j) key" "st \<longrightarrow> \<not> bt_misses (ts' ! j) key"
    "\<And>k. bt_get (BNode pid ks' ts') k = bt_get (BNode pid ks ts) k"
    "bt_misses (BNode pid ks ts) key \<longleftrightarrow> route ks' key \<noteq> j \<or> bt_misses (ts' ! j) key"
proof -
  obtain s: "sorted_wrt (<) ks" and lt: "length ts = Suc (length ks)"
    and c: "\<forall>j < length ts. bt_inv st d (lo_of lo ks j) (hi_of hi ks j) (ts ! j)"
    using inv by (elim bt_inv_NodeD) auto
  let ?j = "route ks key"
  let ?c = "ts ! ?j"
  have j: "?j < length ts" "?j \<le> length ks" using route_le [OF s, of key] lt by simp_all
  have cj: "bt_inv st d (lo_of lo ks ?j) (hi_of hi ks ?j) ?c" using c j by simp
  have rd: "op_read ops s (bt_id ?c) = Some (page_of ?c)"
    using tree_at_child [OF tr j(1)] by (simp add: tree_at_def represents_page)
  have r: "\<forall>m < ?j. ks ! m \<le> key" "\<forall>m. ?j \<le> m \<longrightarrow> m < length ks \<longrightarrow> key < ks ! m"
    using route_is_route [OF s, of key] by (auto simp: is_route_def)
  have lo': "ge_lo (lo_of lo ks ?j) key" using lo r(1) by (auto simp: lo_of_def ge_lo_def)
  have hi': "le_hi st (hi_of hi ks ?j) key" using hi r(2) by (auto simp: hi_of_def le_hi_def)
  have mi: "bt_misses (BNode pid ks ts) key \<longleftrightarrow> bt_misses ?c key" using nf by (simp add: bt_misses_Node [OF s lt])
  show thesis
  proof (cases "bt_full ?c")
    case False
    have "pick_child ops s pid (page_of (BNode pid ks ts)) key = Some (?j, s)"
      using False j rd by (simp add: pick_child_def vec_get_def key_count_def bt_full_def Let_def)
    then show thesis
    proof (rule that [OF _ tr grows_refl _ inv j(1) False lo' hi'])
      show "st \<longrightarrow> \<not> bt_misses ?c key" using miss mi by simp
    qed (simp_all add: mi)
  next
    case True
    obtain s' n l r where sc: "split_child ops s pid ?j = Some s'" "bt_split n ?c = (l, r)"
      and tr': "tree_at ops owned s' (BNode pid (vec_insert ?j (bt_median ?c) ks) (vec_insert (Suc ?j) r (ts[?j := l])))"
      and gr: "grows ops owned s (BNode pid ks ts) s' (BNode pid (vec_insert ?j (bt_median ?c) ks) (vec_insert (Suc ?j) r (ts[?j := l])))"
      and rm: "room s' = room s - 1"
      by (rule split_child_ok [OF tr j cj True room])
    let ?sep = "bt_median ?c"
    let ?ks = "vec_insert ?j ?sep ks" and ?ts = "vec_insert (Suc ?j) r (ts[?j := l])"
    have lk: "length ks < BRANCHING - 1" using nf by (simp add: bt_full_def)
    note isp = bt_inv_split_child [OF inv j(1) lk True sc(2)]
    note spl = bt_split_spec [OF cj True sc(2)]
    have s': "sorted_wrt (<) ?ks" by (rule sorted_insert_sep [OF s j(2) spl(3,4)])
    let ?i = "if ?sep < key then Suc ?j else ?j"
    have nt: "?ts ! ?i = (if ?sep < key then r else l)"
      using j by (simp add: nth_vec_insert)
    have nk: "?ks ! ?j = ?sep" using j by (simp add: nth_vec_insert)
    have pk: "pick_child ops s pid (page_of (BNode pid ks ts)) key = Some (?i, s')"
      using True j rd sc(1) tr' nk
      by (simp add: pick_child_def vec_get_def key_count_def bt_full_def tree_at_def Let_def)
    have route': "route ?ks key = (if key < ?sep then ?j else Suc ?j)"
      by (simp add: route_insert_sep [OF s s' j(2)])
    have ms: "bt_misses (BNode pid ks ts) key \<longleftrightarrow> key = ?sep \<or> bt_misses (if key < ?sep then l else r) key"
      using mi spl(8) [of key] by auto
    have ms2: "bt_misses (BNode pid ks ts) key \<longleftrightarrow> key = ?sep \<or> bt_misses (if ?sep < key then r else l) key"
      unfolding ms by (cases key ?sep rule: linorder_cases) (simp_all add: less_not_sym)
    show thesis
    proof (rule that [OF pk tr' gr])
      show "room s \<le> room s' + 1" using rm by simp
      show "bt_inv st (Suc d) lo hi (BNode pid ?ks ?ts)" by (rule isp(1))
      show "?i < length ?ts" using j by simp
      show "\<not> bt_full (?ts ! ?i)" using spl(5,6) by (simp add: nt)
      show "ge_lo (lo_of lo ?ks ?i) key"
        using lo' j by (auto simp: lo_of_def ge_lo_def nth_vec_insert less_imp_le split: if_splits)
      show "le_hi st (hi_of hi ?ks ?i) key"
        using hi' j miss ms by (auto simp: hi_of_def le_hi_def nth_vec_insert not_less split: if_splits option.splits)
      show "st \<longrightarrow> \<not> bt_misses (?ts ! ?i) key"
        unfolding nt using miss ms2 by auto
      show "\<And>k. bt_get (BNode pid ?ks ?ts) k = bt_get (BNode pid ks ts) k" by (rule isp(2))
      show "bt_misses (BNode pid ks ts) key \<longleftrightarrow> route ?ks key \<noteq> ?i \<or> bt_misses (?ts ! ?i) key"
        unfolding ms nt route' by (cases key ?sep rule: linorder_cases) auto
    qed
  qed
qed

lemma tree_at_set_child:
  assumes tr: "tree_at ops owned s (BNode i ks ts)" and j: "j < length ts"
    and c: "tree_at ops owned s' c" "bt_id c = bt_id (ts ! j)" and gr: "grows ops owned s (ts ! j) s' c"
  shows "tree_at ops owned s' (BNode i ks (ts[j := c]))"
    "grows ops owned s (BNode i ks ts) s' (BNode i ks (ts[j := c]))"
proof -
  let ?t = "BNode i ks ts"
  have d: "distinct (bt_ids ?t)" and o: "set (bt_ids ?t) \<subseteq> owned s" and rep: "represents ops s ?t"
    using tr by (auto simp: tree_at_def)
  have sub: "set (bt_ids (ts ! j)) \<subseteq> set (bt_ids ?t) - {i}" using child_ids [OF d, of "ts ! j"] j by simp
  have new: "set (bt_ids c) \<inter> (set (bt_ids ?t) - set (bt_ids (ts ! j))) = {}"
    using gr o unfolding grows_def by blast
  note ids = set_child_ids [OF d j _ new]
  have dc: "distinct (bt_ids c)" using c(1) by (simp add: tree_at_def)
  have keep: "op_read ops s' x = op_read ops s x" if "x \<in> set (bt_ids ?t) - set (bt_ids (ts ! j))" for x
    using that gr o unfolding grows_def by blast
  have "represents ops s' x" if x: "x \<in> set (ts[j := c])" for x
  proof -
    obtain m where m: "m < length ts" "x = ts[j := c] ! m" using x by (auto simp: in_set_conv_nth)
    show ?thesis
    proof (cases "m = j")
      case True
      then show ?thesis using m c(1) by (simp add: tree_at_def)
    next
      case False
      have sm: "set (bt_ids (ts ! m)) \<subseteq> set (bt_ids ?t) - set (bt_ids (ts ! j))"
        using child_ids [OF d, of "ts ! m"] child_ids_distinct [OF d j m(1) False] m(1) by auto
      have "represents ops s' (ts ! m)"
      proof (rule represents_frame)
        show "represents ops s (ts ! m)" using rep m by simp
      qed (rule keep, rule subsetD [OF sm])
      then show ?thesis using False m by simp
    qed
  qed
  moreover have "op_read ops s' i = op_read ops s i" using keep sub by auto
  moreover have "map bt_id (ts[j := c]) = map bt_id ts" using c(2) j by (simp add: map_update) (metis list_update_id nth_map)
  ultimately have "represents ops s' (BNode i ks (ts[j := c]))" using rep by simp
  moreover have "set (bt_ids c) \<subseteq> owned s'" using c(1) by (simp add: tree_at_def)
  moreover have "owned s \<subseteq> owned s'" using gr by (simp add: grows_def)
  ultimately show "tree_at ops owned s' (BNode i ks (ts[j := c]))"
    using ids [OF dc] o unfolding tree_at_def by blast
  show "grows ops owned s ?t s' (BNode i ks (ts[j := c]))"
    using gr ids(2) [OF dc] sub unfolding grows_def by blast
qed

lemma tree_at_write:
  assumes "tree_at ops owned s (BLeaf i ks vs)"
  shows "tree_at ops owned (op_write ops s (page_of (BLeaf i ks' vs'))) (BLeaf i ks' vs')"
    "grows ops owned s (BLeaf i ks vs) (op_write ops s (page_of (BLeaf i ks' vs'))) (BLeaf i ks' vs')"
  using assms by (simp_all add: tree_at_def grows_def read_write write_keeps)

text \<open>Inserting into a page that is not full.\<close>

lemma insert_nonfull_ok:
  assumes "tree_at ops owned s t" "bt_inv st d lo hi t" "\<not> bt_full t" "ge_lo lo key" "le_hi st hi key"
    "st \<longrightarrow> \<not> bt_misses t key" "d \<le> room s"
  shows "\<exists>s' t'. insert_nonfull ops key v s (bt_id t) = Some s' \<and> tree_at ops owned s' t' \<and> bt_id t' = bt_id t \<and>
    bt_inv st d lo hi t' \<and> grows ops owned s t s' t' \<and> room s \<le> room s' + d \<and>
    (\<forall>k. bt_get t' k = (if k = key \<and> \<not> bt_misses t key then Some v else bt_get t k))"
  using assms
proof (induction d arbitrary: s t lo hi)
  case 0
  then obtain i ks vs where t: "t = BLeaf i ks vs" by (cases t) auto
  note l = bt_inv_LeafD [OF 0(2) [unfolded t]]
  have sl: "sorted_wrt (<) (page_keys (page_of t))" "length (page_values (page_of t)) = length (page_keys (page_of t))"
    using l by (simp_all add: t)
  obtain ks' vs' where p: "leaf_put (page_of t) key v = Some ((page_of t)\<lparr>page_keys := ks', page_values := vs'\<rparr>)"
    "sorted_wrt (<) ks'" "length vs' = length ks'" "length ks' \<le> Suc (length (page_keys (page_of t)))"
    "set ks' = insert key (set (page_keys (page_of t)))"
    "map_of (zip ks' vs') = (map_of (zip (page_keys (page_of t)) (page_values (page_of t))))(key \<mapsto> v)"
    by (rule leaf_put_spec [OF sl, of key v])
  let ?t' = "BLeaf i ks' vs'"
  have e: "(page_of t)\<lparr>page_keys := ks', page_values := vs'\<rparr> = page_of ?t'" by (simp add: t)
  have ins: "insert_nonfull ops key v s i = Some (op_write ops s (page_of ?t'))"
    using represents_page [of ops s t] 0(1) p(1)
    by (subst insert_nonfull.simps) (simp add: t tree_at_def)
  have inv: "bt_inv st 0 lo hi ?t'"
    using l p 0(3-5) by (auto simp: t bt_full_def)
  have nm: "\<not> bt_misses t key" using 0(3) by (simp add: t)
  have mp: "map_of (zip ks' vs') = (map_of (zip ks vs))(key \<mapsto> v)" using p(6) by (simp add: t)
  show ?case
    using ins inv tree_at_write [OF 0(1) [unfolded t], of ks' vs'] nm mp
    by (intro exI [of _ "op_write ops s (page_of ?t')"] exI [of _ ?t']) (simp add: t write_keeps del: page_of.simps)
next
  case (Suc d)
  then obtain i ks ts where t: "t = BNode i ks ts" by (cases t) auto
  have r0: "0 < room s" using Suc.prems(7) by simp
  obtain s1 ks1 ts1 j where pk: "pick_child ops s i (page_of (BNode i ks ts)) key = Some (j, s1)"
    and tr1: "tree_at ops owned s1 (BNode i ks1 ts1)" and gr1: "grows ops owned s (BNode i ks ts) s1 (BNode i ks1 ts1)"
    and rm1: "room s \<le> room s1 + 1" and inv1: "bt_inv st (Suc d) lo hi (BNode i ks1 ts1)" and j: "j < length ts1"
    and c1: "\<not> bt_full (ts1 ! j)" "ge_lo (lo_of lo ks1 j) key" "le_hi st (hi_of hi ks1 j) key" "st \<longrightarrow> \<not> bt_misses (ts1 ! j) key"
    and get1: "\<And>k. bt_get (BNode i ks1 ts1) k = bt_get (BNode i ks ts) k"
    and mi1: "bt_misses (BNode i ks ts) key \<longleftrightarrow> route ks1 key \<noteq> j \<or> bt_misses (ts1 ! j) key"
    by (rule pick_child_ok [OF Suc.prems(1,2,3) [unfolded t] Suc.prems(4,5) Suc.prems(6) [unfolded t] r0]) blast
  obtain s1': "sorted_wrt (<) ks1" and lt1: "length ts1 = Suc (length ks1)"
    and cc: "\<forall>j < length ts1. bt_inv st d (lo_of lo ks1 j) (hi_of hi ks1 j) (ts1 ! j)"
    using inv1 by (elim bt_inv_NodeD) auto
  have "d \<le> room s1" using rm1 Suc.prems(7) by simp
  from Suc.IH [OF tree_at_child [OF tr1 j] cc [rule_format, OF j] c1 this]
  obtain s2 c where ih: "insert_nonfull ops key v s1 (bt_id (ts1 ! j)) = Some s2" "tree_at ops owned s2 c"
    "bt_id c = bt_id (ts1 ! j)" "bt_inv st d (lo_of lo ks1 j) (hi_of hi ks1 j) c" "grows ops owned s1 (ts1 ! j) s2 c"
    "room s1 \<le> room s2 + d" "\<forall>k. bt_get c k = (if k = key \<and> \<not> bt_misses (ts1 ! j) key then Some v else bt_get (ts1 ! j) k)"
    by blast
  let ?t' = "BNode i ks1 (ts1[j := c])"
  note sc = tree_at_set_child [OF tr1 j ih(2,3,5)]
  have "insert_nonfull ops key v s i = Some s2"
    using represents_page [of ops s "BNode i ks ts"] represents_page [of ops s1 "BNode i ks1 ts1"] Suc.prems(1) tr1 pk ih(1) j
    by (subst insert_nonfull.simps) (simp add: t tree_at_def vec_get_def)
  moreover have "bt_get ?t' k = (if k = key \<and> \<not> bt_misses t key then Some v else bt_get t k)" for k
  proof -
    have g: "bt_get t k = bt_get (ts1 ! route ks1 k) k" using get1 [of k] by (simp add: t bt_get_Node [OF s1' lt1])
    show ?thesis
    proof (cases "k = key")
      case False
      then show ?thesis using ih(7) g by (simp add: bt_get_set_child [OF s1' lt1 j] bt_get_Node [OF s1' lt1])
    next
      case True
      then show ?thesis using ih(7) g mi1
        by (auto simp: t bt_get_set_child [OF s1' lt1 j] bt_get_Node [OF s1' lt1])
    qed
  qed
  moreover have "bt_inv st (Suc d) lo hi ?t'" by (rule bt_inv_set_child [OF inv1 j ih(4)])
  moreover have "grows ops owned s t s2 ?t'" unfolding t by (rule grows_trans [OF gr1 sc(2)])
  moreover have "room s \<le> room s2 + Suc d" using rm1 ih(6) by simp
  ultimately show ?case using sc(1) by (intro exI [of _ s2] exI [of _ ?t']) (simp add: t)
qed

end

end
