(* ===== verification/Btree_Map.thy ===== *)
theory Btree_Map
  imports Btree_Store
begin

text \<open>
  The public operations of the B-tree as operations on a finite map: \<open>put\<close>, \<open>delete\<close>, \<open>get\<close> and
  \<open>count_entries\<close> on any lawful store, then the in-memory store and the properties.
\<close>

section \<open>Misdirected insertions\<close>

inductive search_step :: "'s page_store \<Rightarrow> 's \<Rightarrow> bytes \<Rightarrow> u32 \<Rightarrow> u32 \<Rightarrow> bool" for ops s key where
  search_step: "op_read ops s i = Some p \<Longrightarrow> \<not> page_leaf p \<Longrightarrow>
    vec_get (page_children p) (route (page_keys p) key) = Some j \<Longrightarrow> search_step ops s key i j"

inductive_simps search_step_simps: "search_step ops s key i j"

definition full_median :: "'s page_store \<Rightarrow> 's \<Rightarrow> bytes \<Rightarrow> u32 \<Rightarrow> bool" where
  "full_median ops s key i \<longleftrightarrow> (\<exists>p. op_read ops s i = Some p \<and> BRANCHING - 1 \<le> key_count p \<and>
     page_keys p ! (key_count p div 2) = key)"

text \<open>A page below the root, on the search path of the key, is full and has the key as its median.\<close>

definition misdirected :: "'s page_store \<Rightarrow> 's \<Rightarrow> bytes \<Rightarrow> bool" where
  "misdirected ops s key \<longleftrightarrow> (\<exists>i. (search_step ops s key)\<^sup>+\<^sup>+ (op_root_id ops s) i \<and> full_median ops s key i)"

primrec bt_put_misses :: "bt \<Rightarrow> bytes \<Rightarrow> bool" where
  "bt_put_misses (BLeaf i ks vs) key = False"
| "bt_put_misses (BNode i ks ts) key = bt_misses (ts ! route ks key) key"

lemma search_step_Leaf: "represents ops s (BLeaf i ks vs) \<Longrightarrow> \<not> search_step ops s key i j"
  by (auto simp: search_step_simps)

lemma search_step_Node:
  "represents ops s (BNode i ks ts) \<Longrightarrow> route ks key < length ts \<Longrightarrow>
   search_step ops s key i j \<longleftrightarrow> j = bt_id (ts ! route ks key)"
  by (auto simp: search_step_simps vec_get_def)

lemma full_median_iff: "represents ops s t \<Longrightarrow> full_median ops s key (bt_id t) \<longleftrightarrow> bt_full t \<and> bt_median t = key"
  using represents_page [of ops s t] by (simp add: full_median_def bt_full_def bt_median_def key_count_def)

lemma bt_misses_iff:
  "represents ops s t \<Longrightarrow> bt_inv st d lo hi t \<Longrightarrow>
   bt_misses t key \<longleftrightarrow> (\<exists>i. (search_step ops s key)\<^sup>*\<^sup>* (bt_id t) i \<and> full_median ops s key i)"
proof (induction d arbitrary: t lo hi)
  case 0
  then obtain i ks vs where t: "t = BLeaf i ks vs" by (cases t) auto
  have n: "\<not> search_step ops s key i j" for j using search_step_Leaf 0(1) by (simp add: t)
  have "(search_step ops s key)\<^sup>*\<^sup>* i j \<longleftrightarrow> j = i" for j using n by (metis converse_rtranclpE rtranclp.rtrancl_refl)
  then show ?case using full_median_iff [OF 0(1), of key] by (auto simp: t)
next
  case (Suc d)
  then obtain i ks ts where t: "t = BNode i ks ts" by (cases t) auto
  obtain s: "sorted_wrt (<) ks" and lt: "length ts = Suc (length ks)"
    and c: "\<forall>j < length ts. bt_inv st d (lo_of lo ks j) (hi_of hi ks j) (ts ! j)"
    using Suc.prems(2) unfolding t by (elim bt_inv_NodeD) auto
  have r: "route ks key < length ts" using route_le [OF s, of key] lt by simp
  let ?c = "ts ! route ks key"
  have st: "search_step ops s key i j \<longleftrightarrow> j = bt_id ?c" for j
    using search_step_Node [OF Suc.prems(1) [unfolded t] r] .
  have "(search_step ops s key)\<^sup>*\<^sup>* i j \<longleftrightarrow> j = i \<or> (search_step ops s key)\<^sup>*\<^sup>* (bt_id ?c) j" for j
    using st by (metis converse_rtranclp_into_rtranclp converse_rtranclpE rtranclp.rtrancl_refl)
  moreover have "bt_misses ?c key \<longleftrightarrow> (\<exists>i. (search_step ops s key)\<^sup>*\<^sup>* (bt_id ?c) i \<and> full_median ops s key i)"
    using Suc.IH [of ?c] Suc.prems(1) c r by (auto simp: t)
  ultimately show ?case
    using full_median_iff [OF Suc.prems(1), of key] by (auto simp: t bt_misses_Node [OF s lt])
qed

lemma misdirected_iff:
  assumes rep: "represents ops s t" and inv: "bt_inv st d lo hi t" and root: "op_root_id ops s = bt_id t"
  shows "misdirected ops s key \<longleftrightarrow> bt_put_misses t key"
proof (cases t)
  case (BLeaf i ks vs)
  have "\<not> search_step ops s key i j" for j using search_step_Leaf rep by (simp add: BLeaf)
  then have "\<not> (search_step ops s key)\<^sup>+\<^sup>+ i j" for j by (metis tranclpD)
  then show ?thesis using root by (simp add: misdirected_def BLeaf)
next
  case (BNode i ks ts)
  obtain d' where s: "sorted_wrt (<) ks" and lt: "length ts = Suc (length ks)"
    and c: "\<forall>j < length ts. bt_inv st d' (lo_of lo ks j) (hi_of hi ks j) (ts ! j)"
    using inv unfolding BNode by (elim bt_inv_NodeD)
  have r: "route ks key < length ts" using route_le [OF s, of key] lt by simp
  let ?c = "ts ! route ks key"
  have "(search_step ops s key)\<^sup>+\<^sup>+ i j \<longleftrightarrow> (search_step ops s key)\<^sup>*\<^sup>* (bt_id ?c) j" for j
    using search_step_Node [OF rep [unfolded BNode] r] by (metis rtranclp_into_tranclp2 tranclpD)
  moreover have "represents ops s ?c" using rep r by (simp add: BNode)
  ultimately show ?thesis
    using bt_misses_iff [OF _ c [rule_format, OF r], of ops s key] root by (simp add: misdirected_def BNode)
qed

section \<open>Counting\<close>

primrec bt_count :: "bt \<Rightarrow> nat" where
  "bt_count (BLeaf i ks vs) = length ks"
| "bt_count (BNode i ks ts) = sum_list (map bt_count ts)"

lemma count_loop_ok:
  "\<forall>t \<in> set ts. represents ops s t \<Longrightarrow> count_loop ops s (map bt_id ts) acc = Some (acc + sum_list (map bt_count ts))"
proof (induction "length (concat (map bt_ids ts))" arbitrary: ts acc rule: less_induct)
  case less
  show ?case
  proof (cases ts)
    case Nil
    then show ?thesis by (subst count_loop.simps) simp
  next
    case (Cons t us)
    show ?thesis
    proof (cases t)
      case (BLeaf i ks vs)
      have "count_loop ops s (map bt_id us) (acc + length ks) = Some (acc + length ks + sum_list (map bt_count us))"
        by (rule less.hyps) (use less.prems in \<open>auto simp: Cons BLeaf\<close>)
      then show ?thesis using less.prems by (subst count_loop.simps) (simp add: Cons BLeaf)
    next
      case (BNode i ks cs)
      have "count_loop ops s (map bt_id (rev cs @ us)) acc = Some (acc + sum_list (map bt_count (rev cs @ us)))"
      proof (rule less.hyps)
        have "length (concat (map bt_ids (rev cs))) = length (concat (map bt_ids cs))"
          by (simp add: length_concat flip: rev_map)
        then show "length (concat (map bt_ids (rev cs @ us))) < length (concat (map bt_ids ts))"
          by (simp add: Cons BNode)
      qed (use less.prems in \<open>auto simp: Cons BNode\<close>)
      moreover have "sum_list (map bt_count (rev cs)) = sum_list (map bt_count cs)"
        by (metis rev_map sum_list_rev)
      ultimately show ?thesis using less.prems
        by (subst count_loop.simps) (simp add: Cons BNode rev_map)
    qed
  qed
qed

text \<open>In a strict tree every entry is in reach of the search, so counting them counts the map.\<close>

lemma route_of_range:
  assumes s: "sorted_wrt (<) ks" and j: "j \<le> length ks" and k: "ge_lo (lo_of lo ks j) k" "le_hi True (hi_of hi ks j) k"
  shows "route ks k = j"
proof (rule route_eqI [OF s])
  have "ks ! m \<le> k" if m: "m < j" for m
  proof -
    have "ks ! (j - 1) \<le> k" using k(1) m by (simp add: lo_of_def ge_lo_def)
    moreover have "ks ! m \<le> ks ! (j - 1)"
      using sorted_nth_less [OF s, of m "j - 1"] m j by (cases "m = j - 1") (auto simp: less_imp_le)
    ultimately show ?thesis by simp
  qed
  moreover have "k < ks ! m" if m: "j \<le> m" "m < length ks" for m
  proof -
    have "k < ks ! j" using k(2) m by (simp add: hi_of_def le_hi_def)
    moreover have "ks ! j \<le> ks ! m" using sorted_nth_less [OF s, of j m] m by (cases "m = j") (auto simp: less_imp_le)
    ultimately show ?thesis by simp
  qed
  ultimately show "is_route ks k j" using j by (simp add: is_route_def)
qed

lemma bt_get_range:
  "bt_inv st d lo hi t \<Longrightarrow> bt_get t k \<noteq> None \<Longrightarrow> ge_lo lo k \<and> le_hi st hi k"
proof (induction d arbitrary: t lo hi)
  case 0
  then obtain i ks vs where t: "t = BLeaf i ks vs" by (cases t) auto
  note l = bt_inv_LeafD [OF 0(1) [unfolded t]]
  have "k \<in> set ks" using 0(2) l(3) by (simp add: t map_of_zip_is_None)
  then show ?case using l(5) by blast
next
  case (Suc d)
  then obtain i ks ts where t: "t = BNode i ks ts" by (cases t) auto
  obtain s: "sorted_wrt (<) ks" and lt: "length ts = Suc (length ks)"
    and b: "\<forall>k \<in> set ks. gt_lo lo k \<and> lt_hi hi k"
    and c: "\<forall>j < length ts. bt_inv st d (lo_of lo ks j) (hi_of hi ks j) (ts ! j)"
    using Suc.prems(1) unfolding t by (elim bt_inv_NodeD) auto
  let ?j = "route ks k"
  have j: "?j < length ts" using route_le [OF s, of k] lt by simp
  have r: "ge_lo (lo_of lo ks ?j) k" "le_hi st (hi_of hi ks ?j) k"
    using Suc.IH [OF c [rule_format, OF j]] Suc.prems(2) by (auto simp: t bt_get_Node [OF s lt])
  have "ge_lo lo k"
  proof (cases "?j = 0")
    case False
    then have "gt_lo lo (ks ! (?j - 1))" "ks ! (?j - 1) \<le> k" using b r(1) j lt by (auto simp: lo_of_def ge_lo_def)
    then show ?thesis by (auto simp: gt_lo_def ge_lo_def split: option.splits)
  qed (use r(1) in \<open>simp add: lo_of_def\<close>)
  moreover have "le_hi st hi k"
  proof (cases "?j < length ks")
    case True
    then have "lt_hi hi (ks ! ?j)" "k \<le> ks ! ?j" using b r(2) by (auto simp: hi_of_def le_hi_def)
    then show ?thesis by (auto simp: lt_hi_def le_hi_def split: option.splits)
  qed (use r(2) in \<open>simp add: hi_of_def\<close>)
  ultimately show ?case by simp
qed

lemma bt_count_dom:
  "bt_inv True d lo hi t \<Longrightarrow> finite (dom (bt_get t)) \<and> card (dom (bt_get t)) = bt_count t"
proof (induction d arbitrary: t lo hi)
  case 0
  then obtain i ks vs where t: "t = BLeaf i ks vs" by (cases t) auto
  note l = bt_inv_LeafD [OF 0 [unfolded t]]
  have "dom (bt_get t) = set ks" using l(3) by (auto simp: t dom_def map_of_zip_is_None)
  then show ?case using sorted_less_distinct [OF l(2)] distinct_card [of ks] by (metis List.finite_set bt_count.simps(1) t)
next
  case (Suc d)
  then obtain i ks ts where t: "t = BNode i ks ts" by (cases t) auto
  obtain s: "sorted_wrt (<) ks" and lt: "length ts = Suc (length ks)"
    and c: "\<forall>j < length ts. bt_inv True d (lo_of lo ks j) (hi_of hi ks j) (ts ! j)"
    using Suc.prems(1) unfolding t by (elim bt_inv_NodeD) auto
  have route: "route ks k = j" if "j < length ts" "bt_get (ts ! j) k \<noteq> None" for j k
    using bt_get_range [OF c [rule_format, OF that(1)] that(2)] that(1) lt by (intro route_of_range [OF s]) auto
  have dom: "dom (bt_get t) = (\<Union>j < length ts. dom (bt_get (ts ! j)))"
  proof -
    have "route ks k < length ts" for k using route_le [OF s, of k] lt by simp
    then show ?thesis using route by (auto simp: t dom_def bt_get_Node [OF s lt])
  qed
  have ih: "finite (dom (bt_get (ts ! j))) \<and> card (dom (bt_get (ts ! j))) = bt_count (ts ! j)" if "j < length ts" for j
    using Suc.IH c that by blast
  have "card (dom (bt_get t)) = (\<Sum>j < length ts. card (dom (bt_get (ts ! j))))"
    unfolding dom using ih route by (intro card_UN_disjoint) (auto, blast)
  also have "\<dots> = (\<Sum>j < length ts. bt_count (ts ! j))" using ih by (intro sum.cong) auto
  also have "\<dots> = bt_count t" by (simp add: t sum_list_sum_nth atLeast0LessThan)
  finally show ?case using ih by (simp add: dom)
qed

section \<open>Put and delete on a lawful store\<close>

context lawful_store
begin

lemma new_root_ok:
  assumes tr: "tree_at ops owned s t" and nx: "op_next_id ops s = (n, s1)" and room: "0 < room s"
  defines "s2 \<equiv> op_set_root_id ops (op_write ops s1 (page_of (BNode n [] [t]))) n"
  shows "tree_at ops owned s2 (BNode n [] [t])" "op_root_id ops s2 = n" "room s2 = room s - 1"
proof -
  note nid = next_id [OF room nx]
  have rd: "op_read ops s2 i = (if i = n then Some (page_of (BNode n [] [t])) else op_read ops s i)" for i
    using nid by (simp add: s2_def set_root read_write)
  have nt: "n \<notin> set (bt_ids t)" using nid tr by (auto simp: tree_at_def)
  have "represents ops s2 t"
    by (rule represents_frame [of ops s]) (use tr nt rd in \<open>auto simp: tree_at_def\<close>)
  then show "tree_at ops owned s2 (BNode n [] [t])"
    using rd nt tr nid by (auto simp: tree_at_def s2_def set_root write_keeps)
  show "op_root_id ops s2 = n" "room s2 = room s - 1" using nid by (simp_all add: s2_def set_root write_keeps)
qed

lemma put_misses_split:
  assumes inv: "bt_inv st d lo hi t" and full: "bt_full t" and sp: "bt_split n t = (l, r)"
  shows "bt_put_misses t key \<longleftrightarrow> bt_misses (if key < bt_median t then l else r) key"
proof (cases t)
  case (BLeaf i ks vs)
  have "\<not> bt_full l" "\<not> bt_full r" using bt_split_spec(5,6) [OF inv full sp] by auto
  moreover obtain i1 k1 v1 i2 k2 v2 where "l = BLeaf i1 k1 v1" "r = BLeaf i2 k2 v2" using sp by (auto simp: BLeaf Let_def)
  ultimately show ?thesis by (simp add: BLeaf)
next
  case (BNode i ks ts)
  obtain d' where d: "d = Suc d'" using inv by (cases d) (auto simp: BNode)
  let ?m = "length ks div 2"
  have "l = BNode i (take ?m ks) (take (Suc ?m) ts)" "r = BNode n (drop (Suc ?m) ks) (drop (Suc ?m) ts)"
    using sp by (auto simp: BNode Let_def)
  then show ?thesis
    using bt_split_Node(5) [OF inv [unfolded BNode d] full [unfolded BNode] refl, of key n]
    by (simp add: BNode bt_median_def)
qed

lemma put_misses_nonfull: "\<not> bt_full t \<Longrightarrow> bt_inv st d lo hi t \<Longrightarrow> bt_put_misses t key \<longleftrightarrow> bt_misses t key"
  by (cases t) (auto elim!: bt_inv_NodeD simp: bt_misses_Node)

lemma put_ok:
  assumes tr: "tree_at ops owned s t" and root: "op_root_id ops s = bt_id t" and inv: "bt_inv st d None None t"
    and miss: "st \<longrightarrow> \<not> bt_put_misses t key" and room: "d + 3 \<le> room s"
  shows "\<exists>s' t' d'. btree_put ops s key v = Some s' \<and> tree_at ops owned s' t' \<and> op_root_id ops s' = bt_id t' \<and>
    bt_inv st d' None None t' \<and>
    (\<forall>k. bt_get t' k = (if k = key \<and> \<not> bt_put_misses t key then Some v else bt_get t k))"
proof (cases "bt_full t")
  case False
  have rd: "op_read ops s (bt_id t) = Some (page_of t)" using tr by (simp add: tree_at_def represents_page)
  note mi = put_misses_nonfull [OF False inv, of key]
  have "\<exists>s' t'. insert_nonfull ops key v s (bt_id t) = Some s' \<and> tree_at ops owned s' t' \<and> bt_id t' = bt_id t \<and>
      bt_inv st d None None t' \<and> grows ops owned s t s' t' \<and> room s \<le> room s' + d \<and>
      (\<forall>k. bt_get t' k = (if k = key \<and> \<not> bt_misses t key then Some v else bt_get t k))"
    by (rule insert_nonfull_ok [OF tr inv False]) (use miss mi room in \<open>auto simp: ge_lo_def le_hi_def\<close>)
  then obtain s' t' where r: "insert_nonfull ops key v s (bt_id t) = Some s'" "tree_at ops owned s' t'" "bt_id t' = bt_id t"
    "bt_inv st d None None t'" "grows ops owned s t s' t'"
    "\<forall>k. bt_get t' k = (if k = key \<and> \<not> bt_misses t key then Some v else bt_get t k)" by blast
  moreover have "btree_put ops s key v = Some s'"
    using False rd root r(1) by (simp add: btree_put_def bt_full_def key_count_def Let_def)
  moreover have "op_root_id ops s' = bt_id t'" using r root by (simp add: grows_def)
  ultimately show ?thesis unfolding mi by blast
next
  case True
  have rd: "op_read ops s (bt_id t) = Some (page_of t)" using tr by (simp add: tree_at_def represents_page)
  obtain n s1 where nx: "op_next_id ops s = (n, s1)" by (cases "op_next_id ops s")
  define s2 where "s2 = op_set_root_id ops (op_write ops s1 (page_of (BNode n [] [t]))) n"
  have r0: "0 < room s" using room by simp
  note nr = new_root_ok [OF tr nx r0, folded s2_def]
  have inv0: "bt_inv st (Suc d) None None (BNode n [] [t])" using inv by (simp add: lo_of_def hi_of_def)
  have r2: "0 < room s2" using nr(3) room by simp
  obtain s3 n' l r where sc: "split_child ops s2 n 0 = Some s3" and sp: "bt_split n' t = (l, r)"
    and tr3: "tree_at ops owned s3 (BNode n (vec_insert 0 (bt_median t) []) (vec_insert (Suc 0) r [l]))"
    and gr3: "grows ops owned s2 (BNode n [] [t]) s3 (BNode n (vec_insert 0 (bt_median t) []) (vec_insert (Suc 0) r [l]))"
    and rm3: "room s3 = room s2 - 1"
    by (rule split_child_ok [OF nr(1), of 0 st d None None, simplified]) (use inv True r2 in auto)
  define t3 where "t3 = BNode n [bt_median t] [l, r]"
  have t3: "BNode n (vec_insert 0 (bt_median t) []) (vec_insert (Suc 0) r [l]) = t3"
    by (simp add: t3_def vec_insert_def)
  have z: "0 < length [t]" "length ([] :: bytes list) < BRANCHING - 1" "bt_full ([t] ! 0)" "bt_split n' ([t] ! 0) = (l, r)"
    using sp True by (simp_all add: BRANCHING_def)
  have inv3: "bt_inv st (Suc d) None None t3" and get3: "\<And>k. bt_get t3 k = bt_get (BNode n [] [t]) k"
    using bt_inv_split_child [OF inv0 z] by (simp_all add: t3_def vec_insert_def del: bt_inv.simps)
  have "route [] k = 0" for k by (simp add: route_def binary_search_def)
  then have get3': "bt_get t3 k = bt_get t k" for k using get3 [of k] by (simp add: bt_get.simps(2))
  have nf3: "\<not> bt_full t3" by (simp add: t3_def bt_full_def BRANCHING_def)
  have "route [bt_median t] key = (if key < bt_median t then 0 else 1)"
    by (rule route_eqI) (auto simp: is_route_def)
  then have mi: "bt_put_misses t key \<longleftrightarrow> bt_misses t3 key"
    using nf3 by (simp add: put_misses_split [OF inv True sp] t3_def bt_misses_Node)
  have "\<exists>s' t'. insert_nonfull ops key v s3 (bt_id t3) = Some s' \<and> tree_at ops owned s' t' \<and> bt_id t' = bt_id t3 \<and>
      bt_inv st (Suc d) None None t' \<and> grows ops owned s3 t3 s' t' \<and> room s3 \<le> room s' + Suc d \<and>
      (\<forall>k. bt_get t' k = (if k = key \<and> \<not> bt_misses t3 key then Some v else bt_get t3 k))"
    by (rule insert_nonfull_ok [OF tr3 [unfolded t3] inv3 nf3])
      (use miss mi room rm3 nr(3) in \<open>auto simp: ge_lo_def le_hi_def\<close>)
  then obtain s' t' where r: "insert_nonfull ops key v s3 n = Some s'" "tree_at ops owned s' t'" "bt_id t' = n"
    "bt_inv st (Suc d) None None t'" "grows ops owned s3 t3 s' t'"
    "\<forall>k. bt_get t' k = (if k = key \<and> \<not> bt_misses t3 key then Some v else bt_get t3 k)"
    by (auto simp: t3_def)
  have root3: "op_root_id ops s3 = n" using gr3 nr(2) by (simp add: grows_def)
  have "(new_internal n)\<lparr>page_children := [bt_id t]\<rparr> = page_of (BNode n [] [t])" by (simp add: new_internal_def)
  then have "btree_put ops s key v = Some s'"
    using True rd root nx sc r(1) root3 s2_def
    by (simp add: btree_put_def bt_full_def key_count_def del: page_of.simps(2))
  moreover have "op_root_id ops s' = bt_id t'" using r root3 by (simp add: grows_def)
  moreover have "\<forall>k. bt_get t' k = (if k = key \<and> \<not> bt_put_misses t key then Some v else bt_get t k)"
    using r(6) get3' mi by simp
  ultimately show ?thesis using r(2,4) by blast
qed

lemma delete_from_ok:
  assumes "tree_at ops owned s t" "bt_inv st d lo hi t"
  shows "\<exists>s' t'. delete_from ops key s (bt_id t) = Some (bt_get t key \<noteq> None, s') \<and> tree_at ops owned s' t' \<and>
    bt_id t' = bt_id t \<and> bt_inv st d lo hi t' \<and> grows ops owned s t s' t' \<and>
    (\<forall>k. bt_get t' k = (if k = key then None else bt_get t k))"
  using assms
proof (induction d arbitrary: t lo hi)
  case 0
  then obtain i ks vs where t: "t = BLeaf i ks vs" by (cases t) auto
  note l = bt_inv_LeafD [OF 0(2) [unfolded t]]
  have rd: "op_read ops s i = Some (page_of t)" using 0(1) represents_page [of ops s t] by (simp add: tree_at_def t)
  show ?case
  proof (cases "binary_search ks key")
    case (Inl p)
    then have "key \<notin> set ks" using binary_search_spec [OF l(2), of key] by simp
    then have g: "bt_get t key = None" using l(3) by (simp add: t map_of_zip_is_None)
    have "delete_from ops key s i = Some (False, s)"
      using rd Inl by (subst delete_from.simps) (simp add: t)
    then show ?thesis using 0 g grows_refl [of ops owned s t] by (intro exI [of _ s] exI [of _ t]) (auto simp: t)
  next
    case (Inr p)
    note rm = leaf_remove_spec [OF 0(2) [unfolded t] Inr]
    let ?t' = "BLeaf i (vec_remove p ks) (vec_remove p vs)"
    have del: "delete_from ops key s i = Some (True, op_write ops s (page_of ?t'))"
      using rd Inr rm(1,2) by (subst delete_from.simps) (simp add: t vec_remove_at_def)
    have g: "bt_get t key \<noteq> None" using rm(5) by (simp only: t not_False_eq_True)
    have g': "\<forall>k. bt_get ?t' k = (if k = key then None else bt_get t k)" using rm(4) by (simp only: t fun_upd_apply simp_thms)
    have "delete_from ops key s (bt_id t) = Some (bt_get t key \<noteq> None, op_write ops s (page_of ?t'))"
      using del g by (simp only: t bt_id.simps simp_thms)
    moreover have "bt_id ?t' = bt_id t" by (simp add: t)
    ultimately show ?thesis
      using rm(3) tree_at_write [OF 0(1) [unfolded t], of "vec_remove p ks" "vec_remove p vs"] g' unfolding t by blast
  qed
next
  case (Suc d)
  then obtain i ks ts where t: "t = BNode i ks ts" by (cases t) auto
  obtain s': "sorted_wrt (<) ks" and lt: "length ts = Suc (length ks)"
    and c: "\<forall>j < length ts. bt_inv st d (lo_of lo ks j) (hi_of hi ks j) (ts ! j)"
    using Suc.prems(2) unfolding t by (elim bt_inv_NodeD) auto
  let ?j = "route ks key"
  have j: "?j < length ts" using route_le [OF s', of key] lt by simp
  from Suc.IH [OF tree_at_child [OF Suc.prems(1) [unfolded t] j] c [rule_format, OF j]]
  obtain s2 c' where ih: "delete_from ops key s (bt_id (ts ! ?j)) = Some (bt_get (ts ! ?j) key \<noteq> None, s2)"
    "tree_at ops owned s2 c'" "bt_id c' = bt_id (ts ! ?j)" "bt_inv st d (lo_of lo ks ?j) (hi_of hi ks ?j) c'"
    "grows ops owned s (ts ! ?j) s2 c'" "\<forall>k. bt_get c' k = (if k = key then None else bt_get (ts ! ?j) k)" by blast
  let ?t' = "BNode i ks (ts[?j := c'])"
  note sc = tree_at_set_child [OF Suc.prems(1) [unfolded t] j ih(2,3,5)]
  have "delete_from ops key s i = Some (bt_get (ts ! ?j) key \<noteq> None, s2)"
    using Suc.prems(1) ih(1) j by (subst delete_from.simps) (simp add: t tree_at_def vec_get_def)
  moreover have "\<forall>k. bt_get ?t' k = (if k = key then None else bt_get t k)"
    using ih(6) by (auto simp: t bt_get_set_child [OF s' lt j] bt_get_Node [OF s' lt])
  moreover have "bt_inv st (Suc d) lo hi ?t'"
    by (rule bt_inv_set_child [OF Suc.prems(2) [unfolded t] j ih(4)])
  ultimately show ?case using sc
    by (intro exI [of _ s2] exI [of _ ?t']) (simp add: t bt_get_Node [OF s' lt])
qed

lemma delete_ok:
  assumes tr: "tree_at ops owned s t" and root: "op_root_id ops s = bt_id t" and inv: "bt_inv st d None None t"
  shows "\<exists>s' t' d'. btree_delete ops s key = Some (bt_get t key \<noteq> None, s') \<and> tree_at ops owned s' t' \<and>
    op_root_id ops s' = bt_id t' \<and> bt_inv st d' None None t' \<and>
    (\<forall>k. bt_get t' k = (if k = key then None else bt_get t k))"
proof -
  from delete_from_ok [OF tr inv, of key]
  obtain s1 t1 where d: "delete_from ops key s (bt_id t) = Some (bt_get t key \<noteq> None, s1)" "tree_at ops owned s1 t1"
    "bt_id t1 = bt_id t" "bt_inv st d None None t1" "grows ops owned s t s1 t1"
    "\<forall>k. bt_get t1 k = (if k = key then None else bt_get t k)" by blast
  have root1: "op_root_id ops s1 = bt_id t1" using d(3,5) root by (simp add: grows_def)
  have rd: "op_read ops s1 (bt_id t1) = Some (page_of t1)" using d(2) represents_page [of ops s1 t1] by (simp add: tree_at_def)
  show ?thesis
  proof (cases "\<exists>i c. t1 = BNode i [] [c]")
    case True
    then obtain i c where t1: "t1 = BNode i [] [c]" by blast
    let ?s = "op_set_root_id ops s1 (bt_id c)"
    have del: "btree_delete ops s key = Some (bt_get t key \<noteq> None, ?s)"
      using d(1) rd root root1 by (simp add: btree_delete_def t1 vec_get_def)
    obtain d' where "bt_inv st d' None None c" using d(4) by (cases d) (auto simp: t1 lo_of_def hi_of_def)
    moreover have "represents ops ?s c"
      by (rule represents_frame [of ops s1]) (use d(2) in \<open>auto simp: tree_at_def t1 set_root\<close>)
    then have "tree_at ops owned ?s c" using d(2) by (auto simp: tree_at_def t1 set_root)
    moreover have "route [] k = 0" for k by (simp add: route_def binary_search_def)
    then have "\<forall>k. bt_get c k = (if k = key then None else bt_get t k)" using d(6) by (simp add: t1 bt_get.simps(2))
    moreover have "op_root_id ops ?s = bt_id c" by (simp add: set_root)
    ultimately show ?thesis using del by blast
  next
    case False
    have "page_leaf (page_of t1) \<or> bt_keys t1 \<noteq> [] \<or> length (bt_children t1) \<noteq> 1"
      using False by (cases t1) (auto simp: length_Suc_conv)
    then have "btree_delete ops s key = Some (bt_get t key \<noteq> None, s1)"
      using d(1) rd root root1 by (auto simp: btree_delete_def)
    then show ?thesis using d root1 by blast
  qed
qed

lemma get_ok:
  assumes "tree_at ops owned s t" "op_root_id ops s = bt_id t" "bt_inv st d None None t"
  shows "btree_get ops s key = Some (bt_get t key)"
  using assms get_from_ok by (simp add: btree_get_def tree_at_def)

lemma count_ok:
  assumes "tree_at ops owned s t" "op_root_id ops s = bt_id t"
  shows "count_entries ops s = Some (bt_count t)"
  using count_loop_ok [of "[t]" ops s 0] assms by (simp add: count_entries_def tree_at_def)

end

section \<open>The in-memory store\<close>

definition mem_owned :: "in_memory_store \<Rightarrow> u32 set" where
  "mem_owned s = {i. i < mem_next s}"

definition mem_room :: "in_memory_store \<Rightarrow> nat" where
  "mem_room s = 2 ^ 32 - 1 - unat (mem_next s)"

lemmas mem_defs = mem_ops_def mem_read_def mem_write_def mem_next_id_def mem_root_id_def mem_set_root_id_def
  mem_owned_def mem_room_def

interpretation mem: lawful_store mem_ops mem_owned mem_room
proof (unfold_locales, goal_cases)
  case (5 s n s')
  then have n: "n = mem_next s" "s' = s\<lparr>mem_next := mem_next s + 1\<rparr>" by (auto simp: mem_defs)
  have "mem_next s \<noteq> - 1" using 5(1) by (auto simp: mem_room_def unsigned_minus_1_eq_mask mask_eq_exp_minus_1)
  then have u: "unat (mem_next s + 1) = Suc (unat (mem_next s))" by (rule word_Suc_not_max)
  then have "mem_owned s' = insert n (mem_owned s)"
    unfolding n mem_owned_def by (auto simp: word_less_nat_alt less_Suc_eq word_unat_eq_iff)
  moreover have "mem_room s' = mem_room s - 1" using u by (simp add: mem_room_def n)
  ultimately show ?case by (auto simp: n mem_defs)
qed (simp_all add: mem_defs)

definition btree_valid :: "bool \<Rightarrow> in_memory_store \<Rightarrow> bool" where
  "btree_valid st s \<longleftrightarrow> (\<exists>t d. tree_at mem_ops mem_owned s t \<and> op_root_id mem_ops s = bt_id t \<and> bt_inv st d None None t)"

lemma ids_bound: "tree_at mem_ops mem_owned s t \<Longrightarrow> length (bt_ids t) \<le> unat (mem_next s)"
proof -
  assume t: "tree_at mem_ops mem_owned s t"
  have sub: "unat ` set (bt_ids t) \<subseteq> {..< unat (mem_next s)}"
    using t by (auto simp: tree_at_def mem_owned_def word_less_nat_alt)
  have "length (bt_ids t) = card (set (bt_ids t))" using t by (simp add: tree_at_def distinct_card)
  also have "\<dots> = card (unat ` set (bt_ids t))" by (intro card_image [symmetric]) (simp add: inj_on_def unat_inj_iff)
  also have "\<dots> \<le> unat (mem_next s)" using card_mono [OF _ sub] by simp
  finally show ?thesis .
qed

lemma depth_room:
  assumes "tree_at mem_ops mem_owned s t" "bt_inv st d lo hi t" "unat (mem_next s) < 2 ^ 31 - 2"
  shows "d + 3 \<le> mem_room s"
  using ids_bound [OF assms(1)] depth_less_ids [OF assms(2)] assms(3) by (simp add: mem_room_def)

text \<open>The stores the tree can be in: a new one, then any sequence of insertions and deletions
  while fewer than \<open>2 ^ 31 - 2\<close> page ids are in use.\<close>

inductive btree_reach :: "in_memory_store \<Rightarrow> bool" where
  reach_new: "btree_reach mem_new"
| reach_put: "btree_reach s \<Longrightarrow> unat (mem_next s) < 2 ^ 31 - 2 \<Longrightarrow> btree_put mem_ops s key v = Some s' \<Longrightarrow> btree_reach s'"
| reach_delete: "btree_reach s \<Longrightarrow> btree_delete mem_ops s key = Some (b, s') \<Longrightarrow> btree_reach s'"

lemma mem_new_valid: "btree_valid True mem_new"
proof -
  have "tree_at mem_ops mem_owned mem_new (BLeaf 1 [] [])"
    by (simp add: tree_at_def mem_defs mem_new_def new_leaf_def)
  moreover have "bt_inv True 0 None None (BLeaf 1 [] [])" by simp
  moreover have "op_root_id mem_ops mem_new = bt_id (BLeaf 1 [] [])" by (simp add: mem_defs mem_new_def)
  ultimately show ?thesis unfolding btree_valid_def by blast
qed

lemma put_valid:
  assumes v: "btree_valid st s" and n: "unat (mem_next s) < 2 ^ 31 - 2" and st: "st \<longrightarrow> \<not> misdirected mem_ops s key"
  shows "\<exists>s'. btree_put mem_ops s key v = Some s' \<and> btree_valid st s' \<and>
    (\<forall>k. btree_get mem_ops s' k = (if k = key \<and> \<not> misdirected mem_ops s key then Some (Some v) else btree_get mem_ops s k))"
proof -
  obtain t d where t: "tree_at mem_ops mem_owned s t" "op_root_id mem_ops s = bt_id t" "bt_inv st d None None t"
    using v unfolding btree_valid_def by blast
  have mi: "misdirected mem_ops s key \<longleftrightarrow> bt_put_misses t key"
    using misdirected_iff [of mem_ops s t st d None None key] t by (simp add: tree_at_def)
  from mem.put_ok [OF t, of key v] st mi depth_room [OF t(1,3) n]
  obtain s' t' d' where r: "btree_put mem_ops s key v = Some s'" "tree_at mem_ops mem_owned s' t'"
    "op_root_id mem_ops s' = bt_id t'" "bt_inv st d' None None t'"
    "\<forall>k. bt_get t' k = (if k = key \<and> \<not> bt_put_misses t key then Some v else bt_get t k)" by blast
  have "btree_get mem_ops s' k = (if k = key \<and> \<not> misdirected mem_ops s key then Some (Some v) else btree_get mem_ops s k)" for k
    using mem.get_ok [OF r(2-4), of k] mem.get_ok [OF t, of k] r(5) mi by simp
  moreover have "btree_valid st s'" unfolding btree_valid_def using r(2-4) by blast
  ultimately show ?thesis using r(1) by blast
qed

lemma delete_valid:
  assumes v: "btree_valid st s"
  shows "\<exists>s' b. btree_delete mem_ops s key = Some (b, s') \<and> btree_valid st s' \<and> (b \<longleftrightarrow> btree_get mem_ops s key \<noteq> Some None) \<and>
    (\<forall>k. btree_get mem_ops s' k = (if k = key then Some None else btree_get mem_ops s k))"
proof -
  obtain t d where t: "tree_at mem_ops mem_owned s t" "op_root_id mem_ops s = bt_id t" "bt_inv st d None None t"
    using v unfolding btree_valid_def by blast
  from mem.delete_ok [OF t, of key]
  obtain s' t' d' where r: "btree_delete mem_ops s key = Some (bt_get t key \<noteq> None, s')" "tree_at mem_ops mem_owned s' t'"
    "op_root_id mem_ops s' = bt_id t'" "bt_inv st d' None None t'"
    "\<forall>k. bt_get t' k = (if k = key then None else bt_get t k)" by blast
  have "btree_get mem_ops s' k = (if k = key then Some None else btree_get mem_ops s k)" for k
    using mem.get_ok [OF r(2-4), of k] mem.get_ok [OF t, of k] r(5) by simp
  moreover have "btree_valid st s'" unfolding btree_valid_def using r(2-4) by blast
  moreover have "bt_get t key \<noteq> None \<longleftrightarrow> btree_get mem_ops s key \<noteq> Some None" using mem.get_ok [OF t, of key] by simp
  ultimately show ?thesis using r(1) by blast
qed

lemma btree_valid_weaken: "btree_valid True s \<Longrightarrow> btree_valid False s"
proof -
  have "bt_inv False d lo hi t" if "bt_inv True d lo hi t" for d lo hi t
    using that
  proof (induction d arbitrary: lo hi t)
    case 0
    then show ?case by (cases t) (auto simp: le_hi_def split: option.splits)
  next
    case (Suc d)
    then show ?case by (cases t) auto
  qed
  then show "btree_valid True s \<Longrightarrow> btree_valid False s" unfolding btree_valid_def by blast
qed

lemma reach_valid: "btree_reach s \<Longrightarrow> btree_valid False s"
proof (induction rule: btree_reach.induct)
  case reach_new
  then show ?case by (rule btree_valid_weaken [OF mem_new_valid])
next
  case (reach_put s key v s')
  then show ?case using put_valid [of False s key v] by auto
next
  case (reach_delete s key b s')
  then show ?case using delete_valid [of False s key] by auto
qed

section \<open>Properties\<close>

text \<open>C7: on every reachable store, \<open>put\<close> returns and updates the map that \<open>get\<close> reads at exactly
  the given key, unless the insertion is misdirected, in which case the map does not change.\<close>

theorem btree_put_updates:
  assumes "btree_reach s" "unat (mem_next s) < 2 ^ 31 - 2"
  shows "\<exists>s'. btree_put mem_ops s key v = Some s' \<and> btree_reach s' \<and>
    (\<forall>k. btree_get mem_ops s k \<noteq> None \<and>
      btree_get mem_ops s' k = (if k = key \<and> \<not> misdirected mem_ops s key then Some (Some v) else btree_get mem_ops s k))"
proof -
  obtain t d where t: "tree_at mem_ops mem_owned s t" "op_root_id mem_ops s = bt_id t" "bt_inv False d None None t"
    using reach_valid [OF assms(1)] unfolding btree_valid_def by blast
  then have "btree_get mem_ops s k \<noteq> None" for k using mem.get_ok by simp
  moreover obtain s' where "btree_put mem_ops s key v = Some s'"
    "\<forall>k. btree_get mem_ops s' k = (if k = key \<and> \<not> misdirected mem_ops s key then Some (Some v) else btree_get mem_ops s k)"
    using put_valid [OF reach_valid [OF assms(1)] assms(2), of key v] by blast
  moreover have "btree_reach s'" using assms calculation(2) by (rule reach_put)
  ultimately show ?thesis by blast
qed

lemma mem_new_not_misdirected: "\<not> misdirected mem_ops mem_new key"
proof -
  have "tree_at mem_ops mem_owned mem_new (BLeaf 1 [] [])"
    by (simp add: tree_at_def mem_defs mem_new_def new_leaf_def)
  moreover have "bt_inv True 0 None None (BLeaf 1 [] [])" by simp
  ultimately show ?thesis
    using misdirected_iff [of mem_ops mem_new "BLeaf 1 [] []" True 0 None None key]
    by (simp add: tree_at_def mem_defs mem_new_def)
qed

theorem btree_put_updates_witness:
  "\<exists>s'. btree_put mem_ops mem_new [7] [1] = Some s' \<and> btree_get mem_ops s' [7] = Some (Some [1])"
  using btree_put_updates [OF reach_new, of "[7]" "[1]"] mem_new_not_misdirected
  by (auto simp: mem_new_def)

text \<open>C18: on every reachable store, \<open>delete\<close> returns whether the key was present and takes exactly
  that key out of the map.\<close>

theorem btree_delete_removes:
  assumes "btree_reach s"
  shows "\<exists>s' b. btree_delete mem_ops s key = Some (b, s') \<and> btree_reach s' \<and> (b \<longleftrightarrow> btree_get mem_ops s key \<noteq> Some None) \<and>
    (\<forall>k. btree_get mem_ops s' k = (if k = key then Some None else btree_get mem_ops s k))"
  using delete_valid [OF reach_valid [OF assms], of key] reach_delete [OF assms, of key] by blast

theorem btree_delete_removes_witness:
  "\<exists>s'. btree_delete mem_ops mem_new [7] = Some (False, s') \<and> btree_get mem_ops s' [7] = Some None"
proof -
  have "btree_get mem_ops mem_new [7] = Some None"
    by (simp add: btree_get_def get_from.simps mem_defs mem_new_def new_leaf_def binary_search_def)
  then show ?thesis using btree_delete_removes [OF reach_new, of "[7]"] by auto
qed






text \<open>On a store built without a misdirected insertion, \<open>count_entries\<close> returns the number of keys
  of the map, and \<open>put\<close> and \<open>delete\<close> keep the store in that class.\<close>

theorem btree_count_entries:
  assumes "btree_valid True s" "unat (mem_next s) < 2 ^ 31 - 2" "\<not> misdirected mem_ops s key"
  shows "count_entries mem_ops s = Some (card {k. btree_get mem_ops s k \<noteq> Some None}) \<and>
    (\<exists>s'. btree_put mem_ops s key v = Some s' \<and> btree_valid True s') \<and>
    (\<exists>b s'. btree_delete mem_ops s key = Some (b, s') \<and> btree_valid True s')"
proof -
  obtain t d where t: "tree_at mem_ops mem_owned s t" "op_root_id mem_ops s = bt_id t" "bt_inv True d None None t"
    using assms(1) unfolding btree_valid_def by blast
  have "{k. btree_get mem_ops s k \<noteq> Some None} = dom (bt_get t)" using mem.get_ok [OF t] by (auto simp: dom_def)
  then have "count_entries mem_ops s = Some (card {k. btree_get mem_ops s k \<noteq> Some None})"
    using mem.count_ok [OF t(1,2)] bt_count_dom [OF t(3)] by simp
  moreover have "\<exists>s'. btree_put mem_ops s key v = Some s' \<and> btree_valid True s'"
    using put_valid [OF assms(1,2), of key v] assms(3) by blast
  moreover have "\<exists>b s'. btree_delete mem_ops s key = Some (b, s') \<and> btree_valid True s'"
    using delete_valid [OF assms(1), of key] by blast
  ultimately show ?thesis by blast
qed

theorem btree_count_entries_witness:
  "count_entries mem_ops mem_new = Some 0 \<and> (\<exists>s'. btree_put mem_ops mem_new [7] [1] = Some s' \<and> btree_valid True s')"
proof -
  have "btree_get mem_ops mem_new k = Some None" for k
    by (simp add: btree_get_def get_from.simps mem_defs mem_new_def new_leaf_def binary_search_def)
  then show ?thesis
    using btree_count_entries [OF mem_new_valid _ mem_new_not_misdirected, of "[7]" "[1]"]
    by (simp add: mem_new_def)
qed

end
