(* ===== verification/Gc.thy ===== *)
theory Gc
  imports Prelude
begin

text \<open>
  The mark-and-sweep collector of \<^verbatim>\<open>crates/cv_js/src/gc.rs\<close>. A slot vector with a free list and
  generations, handles validated on every access, and the stop-the-world \<open>collect\<close> with its
  worklist loop. The trace callback is a parameter, a function of the payload. \<open>None\<close> as the
  result of an operation is a panic (an index out of range, a failed \<open>expect\<close>). The free list and the
  worklist are stacks: the head of the list is the end of the vector.
\<close>

section \<open>The heap\<close>

record 'a gc_slot =
  gs_payload :: "'a option"
  gs_outgoing :: "u32 list"
  gs_mark :: nat
  gs_generation :: u32

record gc_handle =
  gh_slot :: u32
  gh_generation :: u32

record 'a gc_heap =
  hp_slots :: "'a gc_slot list"
  hp_free_list :: "u32 list"
  hp_live_count :: nat

definition gc_new :: "'a gc_heap" where
  "gc_new = \<lparr>hp_slots = [], hp_free_list = [], hp_live_count = 0\<rparr>"

definition gc_live_count :: "'a gc_heap \<Rightarrow> nat" where
  "gc_live_count h = hp_live_count h"

definition gc_capacity :: "'a gc_heap \<Rightarrow> nat" where
  "gc_capacity h = length (hp_slots h)"

definition gc_alloc :: "'a gc_heap \<Rightarrow> 'a \<Rightarrow> (gc_handle \<times> 'a gc_heap) option" where
  "gc_alloc h v =
     (case hp_free_list h of
        idx # rest \<Rightarrow>
          (case vec_get (hp_slots h) (unat idx) of
             Some s \<Rightarrow>
               Some (\<lparr>gh_slot = idx, gh_generation = gs_generation s\<rparr>,
                     \<lparr>hp_slots = (hp_slots h)[unat idx := s\<lparr>gs_payload := Some v, gs_outgoing := [], gs_mark := 0\<rparr>],
                      hp_free_list = rest, hp_live_count = hp_live_count h + 1\<rparr>)
           | None \<Rightarrow> None)
      | [] \<Rightarrow>
          Some (\<lparr>gh_slot = of_nat (length (hp_slots h)), gh_generation = 0\<rparr>,
                \<lparr>hp_slots = hp_slots h @ [\<lparr>gs_payload = Some v, gs_outgoing = [], gs_mark = 0, gs_generation = 0\<rparr>],
                 hp_free_list = [], hp_live_count = hp_live_count h + 1\<rparr>))"

definition gc_get :: "'a gc_heap \<Rightarrow> gc_handle \<Rightarrow> 'a option" where
  "gc_get h r =
     (case vec_get (hp_slots h) (unat (gh_slot r)) of
        None \<Rightarrow> None
      | Some s \<Rightarrow> if gs_generation s \<noteq> gh_generation r then None else gs_payload s)"

text \<open>\<open>get_mut\<close> hands out a mutable borrow; its use is an update of the payload by a function.\<close>

definition gc_get_mut :: "'a gc_heap \<Rightarrow> gc_handle \<Rightarrow> ('a \<Rightarrow> 'a) \<Rightarrow> 'a gc_heap" where
  "gc_get_mut h r f =
     (case vec_get (hp_slots h) (unat (gh_slot r)) of
        None \<Rightarrow> h
      | Some s \<Rightarrow>
          if gs_generation s \<noteq> gh_generation r then h
          else h\<lparr>hp_slots := (hp_slots h)[unat (gh_slot r) := s\<lparr>gs_payload := map_option f (gs_payload s)\<rparr>]\<rparr>)"

definition set_outgoing :: "'a gc_heap \<Rightarrow> gc_handle \<Rightarrow> u32 list \<Rightarrow> 'a gc_heap" where
  "set_outgoing h r edges =
     (case vec_get (hp_slots h) (unat (gh_slot r)) of
        None \<Rightarrow> h
      | Some s \<Rightarrow>
          if gs_generation s = gh_generation r
          then h\<lparr>hp_slots := (hp_slots h)[unat (gh_slot r) := s\<lparr>gs_outgoing := edges\<rparr>]\<rparr>
          else h)"

section \<open>Collection\<close>

definition set_mark :: "nat \<Rightarrow> nat \<Rightarrow> 'a gc_slot list \<Rightarrow> 'a gc_slot list" where
  "set_mark i m ss = ss[i := (ss ! i)\<lparr>gs_mark := m\<rparr>]"

definition push_root :: "gc_handle \<Rightarrow> 'a gc_slot list \<times> u32 list \<times> u32 set \<Rightarrow> 'a gc_slot list \<times> u32 list \<times> u32 set" where
  "push_root r = (\<lambda>(ss, worklist, seen).
     case vec_get ss (unat (gh_slot r)) of
       Some s \<Rightarrow>
         if gs_generation s = gh_generation r \<and> gs_payload s \<noteq> None \<and> gh_slot r \<notin> seen
         then (set_mark (unat (gh_slot r)) 1 ss, gh_slot r # worklist, insert (gh_slot r) seen)
         else (ss, worklist, seen)
     | None \<Rightarrow> (ss, worklist, seen))"

definition push_child :: "u32 \<Rightarrow> 'a gc_slot list \<times> u32 list \<Rightarrow> 'a gc_slot list \<times> u32 list" where
  "push_child o' = (\<lambda>(ss, worklist).
     case vec_get ss (unat o') of
       Some child \<Rightarrow>
         if gs_payload child \<noteq> None \<and> gs_mark child = 0
         then (set_mark (unat o') 1 ss, o' # worklist)
         else (ss, worklist)
     | None \<Rightarrow> (ss, worklist))"

definition not_black :: "'a gc_slot list \<Rightarrow> nat" where
  "not_black ss = length (filter (\<lambda>s. gs_mark s \<noteq> 2) ss)"

lemma not_black_eqI:
  "length ss = length ss' \<Longrightarrow> (\<And>i. i < length ss \<Longrightarrow> gs_mark (ss ! i) = 2 \<longleftrightarrow> gs_mark (ss' ! i) = 2) \<Longrightarrow>
   not_black ss = not_black ss'"
proof (induction ss ss' rule: list_induct2)
  case (Cons x xs y ys)
  have "gs_mark x = 2 \<longleftrightarrow> gs_mark y = 2" using Cons.prems [of 0] by simp
  moreover have "not_black xs = not_black ys" using Cons.IH Cons.prems [of "Suc _"] by simp
  ultimately show ?case by (simp add: not_black_def)
qed (simp add: not_black_def)

lemma push_children_frame:
  "length (fst (fold push_child os (ss, wl))) = length ss \<and>
   (\<forall>i < length ss. gs_mark (fst (fold push_child os (ss, wl)) ! i) = 2 \<longleftrightarrow> gs_mark (ss ! i) = 2)"
proof (induction os arbitrary: ss wl)
  case (Cons x os)
  obtain ss1 wl1 where p: "push_child x (ss, wl) = (ss1, wl1)" by (cases "push_child x (ss, wl)")
  have "length ss1 = length ss \<and> (\<forall>i < length ss. gs_mark (ss1 ! i) = 2 \<longleftrightarrow> gs_mark (ss ! i) = 2)"
    using p by (auto simp: push_child_def set_mark_def vec_get_def nth_list_update split: if_splits)
  then show ?case using Cons.IH [of ss1 wl1] by (simp add: p)
qed simp

lemma not_black_update_less:
  "i < length ss \<Longrightarrow> gs_mark (ss ! i) \<noteq> 2 \<Longrightarrow> gs_mark s = 2 \<Longrightarrow> not_black (ss[i := s]) < not_black ss"
proof (induction ss arbitrary: i)
  case (Cons x xs)
  then show ?case by (cases i) (auto simp: not_black_def)
qed simp

function mark_loop :: "('a \<Rightarrow> u32 list) \<Rightarrow> 'a gc_slot list \<Rightarrow> u32 list \<Rightarrow> 'a gc_slot list option" where
  "mark_loop trace ss [] = Some ss"
| "mark_loop trace ss (idx # worklist) =
     (case vec_get ss (unat idx) of
        None \<Rightarrow> None
      | Some s \<Rightarrow>
          if gs_mark s = 2 then mark_loop trace ss worklist
          else (case gs_payload s of
                  None \<Rightarrow> None
                | Some v \<Rightarrow>
                    (case fold push_child (trace v)
                       (ss[unat idx := s\<lparr>gs_mark := 2, gs_outgoing := trace v\<rparr>], worklist) of
                       (ss', worklist') \<Rightarrow> mark_loop trace ss' worklist')))"
  by pat_completeness auto
termination
proof (relation "measures [\<lambda>(trace, ss, wl). not_black ss, \<lambda>(trace, ss, wl). length wl]", goal_cases)
  case (3 trace ss idx worklist s v ss' worklist')
  let ?ss = "ss[unat idx := s\<lparr>gs_mark := 2, gs_outgoing := trace v\<rparr>]"
  have i: "unat idx < length ss" "ss ! unat idx = s" using 3(1) by (auto simp: vec_get_def split: if_splits)
  have e: "ss' = fst (fold push_child (trace v) (?ss, worklist))" using 3(4) by (metis fst_conv)
  have "not_black ss' = not_black ?ss"
    using push_children_frame [of "trace v" ?ss worklist] unfolding e by (intro not_black_eqI) auto
  also have "\<dots> < not_black ss" using i 3(2) by (intro not_black_update_less) auto
  finally show ?case by simp
qed auto

declare mark_loop.simps(2) [simp del]

definition sweep_slot :: "'a gc_slot \<Rightarrow> 'a gc_slot" where
  "sweep_slot s =
     (if gs_payload s \<noteq> None \<and> gs_mark s = 0
      then s\<lparr>gs_payload := None, gs_outgoing := [], gs_generation := gs_generation s + 1\<rparr> else s)"

definition swept :: "'a gc_slot list \<Rightarrow> nat list" where
  "swept ss = filter (\<lambda>i. gs_payload (ss ! i) \<noteq> None \<and> gs_mark (ss ! i) = 0) [0..<length ss]"

definition gc_collect :: "'a gc_heap \<Rightarrow> gc_handle list \<Rightarrow> ('a \<Rightarrow> u32 list) \<Rightarrow> (nat \<times> 'a gc_heap) option" where
  "gc_collect h roots trace =
     (let white = map (\<lambda>s. s\<lparr>gs_mark := 0\<rparr>) (hp_slots h);
          (ss, worklist, seen) = fold push_root roots (white, [], {})
      in case mark_loop trace ss worklist of
           None \<Rightarrow> None
         | Some ss' \<Rightarrow>
             let reclaimed = length (swept ss')
             in Some (reclaimed,
                  \<lparr>hp_slots = map sweep_slot ss', hp_free_list = rev (map of_nat (swept ss')) @ hp_free_list h,
                   hp_live_count = hp_live_count h - reclaimed\<rparr>))"

section \<open>Reachability\<close>

abbreviation pay :: "'a gc_slot list \<Rightarrow> u32 \<Rightarrow> 'a option" where
  "pay ss x \<equiv> gs_payload (ss ! unat x)"

abbreviation mrk :: "'a gc_slot list \<Rightarrow> u32 \<Rightarrow> nat" where
  "mrk ss x \<equiv> gs_mark (ss ! unat x)"

definition live_at :: "'a gc_slot list \<Rightarrow> u32 \<Rightarrow> bool" where
  "live_at ss x \<longleftrightarrow> unat x < length ss \<and> pay ss x \<noteq> None"

definition root_at :: "'a gc_slot list \<Rightarrow> gc_handle list \<Rightarrow> u32 \<Rightarrow> bool" where
  "root_at ss roots x \<longleftrightarrow> live_at ss x \<and> (\<exists>r \<in> set roots. gh_slot r = x \<and> gh_generation r = gs_generation (ss ! unat x))"

inductive gc_reachable :: "'a gc_slot list \<Rightarrow> gc_handle list \<Rightarrow> ('a \<Rightarrow> u32 list) \<Rightarrow> u32 \<Rightarrow> bool"
  for ss roots trace where
  reach_root: "root_at ss roots x \<Longrightarrow> gc_reachable ss roots trace x"
| reach_edge: "gc_reachable ss roots trace x \<Longrightarrow> pay ss x = Some v \<Longrightarrow> y \<in> set (trace v) \<Longrightarrow> live_at ss y \<Longrightarrow>
    gc_reachable ss roots trace y"

lemma reachable_live: "gc_reachable ss roots trace x \<Longrightarrow> live_at ss x"
  by (induction rule: gc_reachable.induct) (auto simp: root_at_def)

text \<open>Marking changes marks and edges, never payloads or generations.\<close>

definition same_objects :: "'a gc_slot list \<Rightarrow> 'a gc_slot list \<Rightarrow> bool" where
  "same_objects ss ss' \<longleftrightarrow> length ss' = length ss \<and>
     (\<forall>i < length ss. gs_payload (ss' ! i) = gs_payload (ss ! i) \<and> gs_generation (ss' ! i) = gs_generation (ss ! i))"

lemma same_objects_refl: "same_objects ss ss"
  by (simp add: same_objects_def)

lemma same_objects_trans: "same_objects a b \<Longrightarrow> same_objects b c \<Longrightarrow> same_objects a c"
  by (simp add: same_objects_def)

lemma same_objects_update:
  "i < length ss \<Longrightarrow> gs_payload s = gs_payload (ss ! i) \<Longrightarrow> gs_generation s = gs_generation (ss ! i) \<Longrightarrow>
   same_objects ss (ss[i := s])"
  by (auto simp: same_objects_def nth_list_update)

lemma live_at_same: "same_objects ss ss' \<Longrightarrow> live_at ss' x \<longleftrightarrow> live_at ss x"
  by (auto simp: same_objects_def live_at_def)

lemma push_child_spec:
  assumes "push_child y (ss, wl) = (ss', wl')"
  shows "same_objects ss ss'"
    "unat x < length ss \<Longrightarrow> mrk ss' x = (if x = y \<and> live_at ss x \<and> mrk ss x = 0 then 1 else mrk ss x)"
    "set wl' = set wl \<union> {x. x = y \<and> live_at ss x \<and> mrk ss x = 0}"
  using assms
  by (auto simp: push_child_def set_mark_def vec_get_def live_at_def same_objects_def nth_list_update unat_inj_iff
      split: if_splits)

lemma push_children_spec:
  assumes "fold push_child os (ss, wl) = (ss', wl')"
  shows "same_objects ss ss' \<and>
    (\<forall>x. unat x < length ss \<longrightarrow> mrk ss' x = (if x \<in> set os \<and> live_at ss x \<and> mrk ss x = 0 then 1 else mrk ss x)) \<and>
    set wl' = set wl \<union> {x \<in> set os. live_at ss x \<and> mrk ss x = 0}"
  using assms
proof (induction os arbitrary: ss wl)
  case (Cons y os)
  obtain ss1 wl1 where p: "push_child y (ss, wl) = (ss1, wl1)" by (cases "push_child y (ss, wl)")
  note a = push_child_spec [OF p]
  have l: "live_at ss1 x \<longleftrightarrow> live_at ss x" for x using live_at_same [OF a(1)] .
  have len: "length ss1 = length ss" using a(1) by (simp add: same_objects_def)
  have i: "same_objects ss1 ss'"
    "\<And>x. unat x < length ss \<Longrightarrow> mrk ss' x = (if x \<in> set os \<and> live_at ss x \<and> mrk ss1 x = 0 then 1 else mrk ss1 x)"
    "set wl' = set wl1 \<union> {x \<in> set os. live_at ss x \<and> mrk ss1 x = 0}"
    using Cons.IH [of ss1 wl1] Cons.prems by (auto simp: p l len)
  have lt: "live_at ss x \<Longrightarrow> unat x < length ss" for x by (simp add: live_at_def)
  show ?case
  proof (intro conjI allI impI)
    show "same_objects ss ss'" by (rule same_objects_trans [OF a(1) i(1)])
    fix x :: u32 assume "unat x < length ss"
    then show "mrk ss' x = (if x \<in> set (y # os) \<and> live_at ss x \<and> mrk ss x = 0 then 1 else mrk ss x)"
      using i(2) [of x] a(2) [of x] by auto
  next
    show "set wl' = set wl \<union> {x \<in> set (y # os). live_at ss x \<and> mrk ss x = 0}"
      unfolding i(3) a(3) using a(2) lt by (auto split: if_splits)
  qed
qed (simp add: same_objects_refl)

lemma push_roots_spec:
  assumes "fold push_root roots (ss, wl, set wl) = (ss', wl', seen)"
    and "\<And>x. unat x < length ss \<Longrightarrow> mrk ss x = (if x \<in> set wl then 1 else 0)"
  shows "same_objects ss ss' \<and> set wl' = set wl \<union> {x. root_at ss roots x} \<and>
    (\<forall>x. unat x < length ss \<longrightarrow> mrk ss' x = (if x \<in> set wl' then 1 else 0))"
  using assms
proof (induction roots arbitrary: ss wl)
  case Nil
  then show ?case by (auto simp: same_objects_refl root_at_def)
next
  case (Cons r roots)
  let ?x = "gh_slot r"
  show ?case
  proof (cases "root_at ss [r] ?x \<and> ?x \<notin> set wl")
    case True
    then have x: "live_at ss ?x" "gs_generation (ss ! unat ?x) = gh_generation r" by (auto simp: root_at_def)
    define s1 where "s1 = set_mark (unat ?x) 1 ss"
    have p: "push_root r (ss, wl, set wl) = (s1, ?x # wl, set (?x # wl))"
      using True x by (simp add: push_root_def vec_get_def live_at_def s1_def)
    have so: "same_objects ss s1" using x(1) by (auto simp: s1_def set_mark_def live_at_def intro: same_objects_update)
    have m: "mrk s1 y = (if y \<in> set (?x # wl) then 1 else 0)" if "unat y < length s1" for y
      using Cons.prems(2) [of y] that x(1) by (auto simp: s1_def set_mark_def live_at_def nth_list_update unat_inj_iff)
    have "fold push_root roots (s1, ?x # wl, set (?x # wl)) = (ss', wl', seen)" using Cons.prems(1) p by simp
    note ih = Cons.IH [OF this m]
    have ra: "root_at s1 rs y \<longleftrightarrow> root_at ss rs y" for rs y
      using so by (auto simp: root_at_def live_at_same [OF so] same_objects_def live_at_def)
    have un: "{y. root_at ss (r # roots) y} = {y. root_at ss [r] y} \<union> {y. root_at ss roots y}" by (auto simp: root_at_def)
    have one: "{y. root_at ss [r] y} = {?x}" using True by (auto simp: root_at_def)
    have len: "length s1 = length ss" by (simp add: s1_def set_mark_def)
    show ?thesis using ih same_objects_trans [OF so] unfolding un one by (simp add: ra len)
  next
    case False
    then have p: "push_root r (ss, wl, set wl) = (ss, wl, set wl)"
      by (auto simp: push_root_def vec_get_def live_at_def root_at_def)
    have "{y. root_at ss (r # roots) y} = {y. root_at ss [r] y} \<union> {y. root_at ss roots y}" by (auto simp: root_at_def)
    moreover have "{y. root_at ss [r] y} \<subseteq> set wl" using False by (auto simp: root_at_def)
    ultimately have un: "set wl \<union> {y. root_at ss (r # roots) y} = set wl \<union> {y. root_at ss roots y}" by blast
    have "fold push_root roots (ss, wl, set wl) = (ss', wl', seen)" using Cons.prems(1) p by simp
    from Cons.IH [OF this Cons.prems(2)] show ?thesis unfolding un by simp
  qed
qed

section \<open>The mark phase\<close>

definition mark_inv :: "'a gc_slot list \<Rightarrow> (u32 \<Rightarrow> bool) \<Rightarrow> ('a \<Rightarrow> u32 list) \<Rightarrow> 'a gc_slot list \<Rightarrow> u32 list \<Rightarrow> bool" where
  "mark_inv ss0 R trace ss wl \<longleftrightarrow> same_objects ss0 ss \<and>
     (\<forall>x \<in> set wl. live_at ss0 x \<and> mrk ss x \<noteq> 0) \<and>
     (\<forall>x. unat x < length ss0 \<longrightarrow> mrk ss x \<noteq> 0 \<longrightarrow> R x) \<and>
     (\<forall>x. unat x < length ss0 \<longrightarrow> mrk ss x \<noteq> 0 \<longrightarrow> mrk ss x \<noteq> 2 \<longrightarrow> x \<in> set wl) \<and>
     (\<forall>x v y. unat x < length ss0 \<longrightarrow> mrk ss x = 2 \<longrightarrow> pay ss0 x = Some v \<longrightarrow> y \<in> set (trace v) \<longrightarrow> live_at ss0 y \<longrightarrow>
        mrk ss y \<noteq> 0)"

definition edge_closed :: "'a gc_slot list \<Rightarrow> ('a \<Rightarrow> u32 list) \<Rightarrow> (u32 \<Rightarrow> bool) \<Rightarrow> bool" where
  "edge_closed ss0 trace R \<longleftrightarrow>
     (\<forall>x v y. R x \<longrightarrow> pay ss0 x = Some v \<longrightarrow> y \<in> set (trace v) \<longrightarrow> live_at ss0 y \<longrightarrow> R y)"

lemma mark_step:
  assumes inv: "mark_inv ss0 R trace ss (idx # wl)" and v: "pay ss idx = Some v"
    and step: "fold push_child (trace v) (ss[unat idx := (ss ! unat idx)\<lparr>gs_mark := 2, gs_outgoing := trace v\<rparr>], wl) = (ss', wl')"
    and R: "edge_closed ss0 trace R"
  shows "mark_inv ss0 R trace ss' wl' \<and> (\<forall>x. unat x < length ss0 \<longrightarrow> mrk ss x \<noteq> 0 \<longrightarrow> mrk ss' x \<noteq> 0)"
proof -
  let ?ss = "ss[unat idx := (ss ! unat idx)\<lparr>gs_mark := 2, gs_outgoing := trace v\<rparr>]"
  have so: "same_objects ss0 ss" and li: "live_at ss0 idx" and mi: "mrk ss idx \<noteq> 0" using inv by (auto simp: mark_inv_def)
  have len: "length ss = length ss0" using so by (simp add: same_objects_def)
  have i: "unat idx < length ss" using li len by (simp add: live_at_def)
  have so1: "same_objects ss ?ss" using i by (intro same_objects_update) simp_all
  note c = push_children_spec [OF step]
  have so': "same_objects ss0 ss'" using so so1 c same_objects_trans by blast
  have lv: "live_at ?ss x \<longleftrightarrow> live_at ss0 x" for x using live_at_same [OF so1] live_at_same [OF so] by simp
  have lt: "live_at ss0 x \<Longrightarrow> unat x < length ss0" for x by (simp add: live_at_def)
  have m1: "mrk ?ss x = (if x = idx then 2 else mrk ss x)" if "unat x < length ss0" for x
    using i by (simp add: nth_list_update unat_inj_iff)
  have m: "mrk ss' x = (if x = idx then 2 else if x \<in> set (trace v) \<and> live_at ss0 x \<and> mrk ss x = 0 then 1 else mrk ss x)"
    if "unat x < length ss0" for x
    using c that len m1 [OF that] by (auto simp: lv)
  have w: "set wl' = set wl \<union> {x \<in> set (trace v). live_at ss0 x \<and> x \<noteq> idx \<and> mrk ss x = 0}"
  proof -
    have "live_at ?ss x \<and> mrk ?ss x = 0 \<longleftrightarrow> live_at ss0 x \<and> x \<noteq> idx \<and> mrk ss x = 0" for x
      using m1 [of x] lt [of x] unfolding lv by (auto split: if_splits)
    then show ?thesis using c by blast
  qed
  have Ri: "R idx" using inv mi i len by (auto simp: mark_inv_def)
  have v0: "pay ss0 idx = Some v" using v so i by (simp add: same_objects_def)
  have Rv: "y \<in> set (trace v) \<Longrightarrow> live_at ss0 y \<Longrightarrow> R y" for y using R Ri v0 unfolding edge_closed_def by blast
  have "live_at ss0 x \<and> mrk ss' x \<noteq> 0" if "x \<in> set wl'" for x
    using that inv m [of x] lt [of x] unfolding w mark_inv_def by (auto split: if_splits)
  moreover have "R x" if "unat x < length ss0" "mrk ss' x \<noteq> 0" for x
    using that inv m [of x] Ri Rv [of x] unfolding mark_inv_def by (auto split: if_splits)
  moreover have "x \<in> set wl'" if "unat x < length ss0" "mrk ss' x \<noteq> 0" "mrk ss' x \<noteq> 2" for x
    using that inv m [of x] unfolding w mark_inv_def by (auto split: if_splits)
  moreover have "mrk ss' y \<noteq> 0" if "unat x < length ss0" "mrk ss' x = 2" "pay ss0 x = Some u" "y \<in> set (trace u)" "live_at ss0 y" for x u y
  proof (cases "x = idx")
    case True
    then show ?thesis using that v0 m [of y] lt [of y] by auto
  next
    case False
    then have "mrk ss x = 2" using that m [of x] by (auto split: if_splits)
    then have "mrk ss y \<noteq> 0" using inv that unfolding mark_inv_def by blast
    then show ?thesis using m [of y] lt [of y] that(5) by auto
  qed
  moreover have "mrk ss' x \<noteq> 0" if "unat x < length ss0" "mrk ss x \<noteq> 0" for x using m [of x] that by auto
  ultimately show ?thesis using so' unfolding mark_inv_def by blast
qed

lemma mark_loop_ok:
  assumes "edge_closed ss0 trace R"
    and "mark_inv ss0 R trace ss wl"
  shows "\<exists>ss'. mark_loop trace ss wl = Some ss' \<and> mark_inv ss0 R trace ss' [] \<and>
      (\<forall>x. unat x < length ss0 \<longrightarrow> mrk ss x \<noteq> 0 \<longrightarrow> mrk ss' x \<noteq> 0)"
  using assms
proof (induction trace ss wl rule: mark_loop.induct)
  case (2 trace ss idx wl)
  note R = 2(3) and inv = 2(4)
  have so: "same_objects ss0 ss" and li: "live_at ss0 idx" and mi: "mrk ss idx \<noteq> 0" using inv by (auto simp: mark_inv_def)
  have i: "unat idx < length ss" using li so by (simp add: live_at_def same_objects_def)
  then have g: "vec_get ss (unat idx) = Some (ss ! unat idx)" by (simp add: vec_get_def)
  show ?case
  proof (cases "mrk ss idx = 2")
    case True
    have "mark_inv ss0 R trace ss wl" using inv True unfolding mark_inv_def by auto
    from 2(1) [OF g True R this] show ?thesis using g True by (simp add: mark_loop.simps(2))
  next
    case False
    obtain v where v: "pay ss idx = Some v" using li so i by (auto simp: live_at_def same_objects_def)
    obtain ss' wl' where f: "fold push_child (trace v) (ss[unat idx := (ss ! unat idx)\<lparr>gs_mark := 2, gs_outgoing := trace v\<rparr>], wl) = (ss', wl')"
      by fastforce
    have m: "mark_inv ss0 R trace ss' wl'" "\<forall>x. unat x < length ss0 \<longrightarrow> mrk ss x \<noteq> 0 \<longrightarrow> mrk ss' x \<noteq> 0"
      using mark_step [OF inv v f R] by blast+
    from 2(2) [OF g False v f [symmetric] R m(1)] obtain ss'' where r: "mark_loop trace ss' wl' = Some ss''"
      "mark_inv ss0 R trace ss'' []" "\<forall>x. unat x < length ss0 \<longrightarrow> mrk ss' x \<noteq> 0 \<longrightarrow> mrk ss'' x \<noteq> 0" by blast
    then have "mark_loop trace ss (idx # wl) = Some ss''" using g False v f by (simp add: mark_loop.simps(2))
    then show ?thesis using r m(2) by blast
  qed
qed auto

section \<open>The whole collection\<close>

definition heap_inv :: "'a gc_heap \<Rightarrow> bool" where
  "heap_inv h \<longleftrightarrow> length (hp_slots h) \<le> 4294967296 \<and> distinct (hp_free_list h) \<and>
     set (hp_free_list h) = {x. unat x < length (hp_slots h) \<and> pay (hp_slots h) x = None} \<and>
     hp_live_count h = length (filter (\<lambda>s. gs_payload s \<noteq> None) (hp_slots h))"

lemma mark_exact:
  obtains ss worklist seen ss' where
    "fold push_root roots (map (\<lambda>s. s\<lparr>gs_mark := 0\<rparr>) ss0, [], {}) = (ss, worklist, seen)"
    "mark_loop trace ss worklist = Some ss'" "same_objects ss0 ss'"
    "\<forall>x. unat x < length ss0 \<longrightarrow> (mrk ss' x \<noteq> 0 \<longleftrightarrow> gc_reachable ss0 roots trace x)"
proof -
  let ?w = "map (\<lambda>s. s\<lparr>gs_mark := 0\<rparr>) ss0" and ?R = "gc_reachable ss0 roots trace"
  obtain ss wl seen where f: "fold push_root roots (?w, [], set []) = (ss, wl, seen)" by (metis prod_cases3)
  have sw: "same_objects ss0 ?w" by (simp add: same_objects_def)
  have ra: "root_at ?w roots x \<longleftrightarrow> root_at ss0 roots x" for x
    by (auto simp: root_at_def live_at_def)
  have p: "same_objects ?w ss" "set wl = {x. root_at ss0 roots x}" "\<forall>x. unat x < length ss0 \<longrightarrow> mrk ss x = (if x \<in> set wl then 1 else 0)"
    using push_roots_spec [OF f] by (auto simp: ra)
  have lv: "root_at ss0 roots x \<Longrightarrow> unat x < length ss0" for x by (simp add: root_at_def live_at_def)
  have "mark_inv ss0 ?R trace ss wl"
    unfolding mark_inv_def
  proof (intro conjI ballI allI impI)
    show "same_objects ss0 ss" by (rule same_objects_trans [OF sw p(1)])
  next
    fix x assume "x \<in> set wl"
    then show "live_at ss0 x" "mrk ss x \<noteq> 0" using p lv by (auto simp: root_at_def)
  next
    fix x assume "unat x < length ss0" "mrk ss x \<noteq> 0"
    then have "root_at ss0 roots x" using p(2,3) by (auto split: if_splits)
    then show "?R x" by (rule reach_root)
  next
    fix x assume "unat x < length ss0" "mrk ss x \<noteq> 0" "mrk ss x \<noteq> 2"
    then show "x \<in> set wl" using p(3) by (auto split: if_splits)
  next
    fix x v y assume "unat x < length ss0" "mrk ss x = 2"
    then show "mrk ss y \<noteq> 0" using p(3) by (auto split: if_splits)
  qed
  moreover have "edge_closed ss0 trace ?R" unfolding edge_closed_def
    by (intro allI impI) (rule reach_edge)
  ultimately have "\<exists>ss'. mark_loop trace ss wl = Some ss' \<and> mark_inv ss0 ?R trace ss' [] \<and>
      (\<forall>x. unat x < length ss0 \<longrightarrow> mrk ss x \<noteq> 0 \<longrightarrow> mrk ss' x \<noteq> 0)"
    by (intro mark_loop_ok)
  then
  obtain ss' where r: "mark_loop trace ss wl = Some ss'" "mark_inv ss0 ?R trace ss' []"
    "\<forall>x. unat x < length ss0 \<longrightarrow> mrk ss x \<noteq> 0 \<longrightarrow> mrk ss' x \<noteq> 0" by blast
  have black: "mrk ss' x = 2" if "unat x < length ss0" "mrk ss' x \<noteq> 0" for x
  proof (rule ccontr)
    assume "mrk ss' x \<noteq> 2"
    with r(2) that have "x \<in> set []" unfolding mark_inv_def by blast
    then show False by simp
  qed
  have closed: "mrk ss' x \<noteq> 0" if "?R x" for x
    using that
  proof (induction rule: gc_reachable.induct)
    case (reach_root x)
    then show ?case using p lv r(3) by auto
  next
    case (reach_edge x v y)
    have x: "unat x < length ss0" using reachable_live [OF reach_edge(1)] by (simp add: live_at_def)
    show ?case using r(2) reach_edge black [OF x] x unfolding mark_inv_def by blast
  qed
  show thesis
  proof (rule that [OF _ r(1)])
    show "fold push_root roots (?w, [], {}) = (ss, wl, seen)" using f by simp
    show "same_objects ss0 ss'" using r(2) by (simp add: mark_inv_def)
    show "\<forall>x. unat x < length ss0 \<longrightarrow> (mrk ss' x \<noteq> 0 \<longleftrightarrow> ?R x)"
      using closed r(2) unfolding mark_inv_def by blast
  qed
qed

lemma length_swept: "length (swept ss) = length (filter (\<lambda>s. gs_payload s \<noteq> None \<and> gs_mark s = 0) ss)"
proof -
  have "length (swept ss) = card {i. i < length ss \<and> gs_payload (ss ! i) \<noteq> None \<and> gs_mark (ss ! i) = 0}"
    unfolding swept_def by (subst distinct_length_filter) (auto intro: arg_cong [where f = card])
  then show ?thesis by (simp add: length_filter_conv_card)
qed

lemma sweep_count:
  "length (filter (\<lambda>s. gs_payload s \<noteq> None) ss) =
   length (filter (\<lambda>s. gs_payload s \<noteq> None) (map sweep_slot ss)) + length (swept ss)"
  unfolding length_swept by (induction ss) (auto simp: sweep_slot_def)

lemma same_objects_count:
  "same_objects ss ss' \<Longrightarrow> length (filter (\<lambda>s. gs_payload s \<noteq> None) ss') = length (filter (\<lambda>s. gs_payload s \<noteq> None) ss)"
  by (auto simp: same_objects_def length_filter_conv_card intro!: arg_cong [where f = card])

lemma collect_ok:
  assumes inv: "heap_inv h"
  shows "\<exists>n h'. gc_collect h roots trace = Some (n, h') \<and> heap_inv h' \<and> length (hp_slots h') = length (hp_slots h) \<and>
    gc_live_count h = gc_live_count h' + n \<and>
    (\<forall>x. unat x < length (hp_slots h) \<longrightarrow>
      pay (hp_slots h') x = (if gc_reachable (hp_slots h) roots trace x then pay (hp_slots h) x else None) \<and>
      gs_generation (hp_slots h' ! unat x) = (if pay (hp_slots h) x \<noteq> None \<and> \<not> gc_reachable (hp_slots h) roots trace x
        then gs_generation (hp_slots h ! unat x) + 1 else gs_generation (hp_slots h ! unat x)))"
proof -
  let ?ss0 = "hp_slots h" and ?R = "gc_reachable (hp_slots h) roots trace"
  obtain ss wl seen ss' where f: "fold push_root roots (map (\<lambda>s. s\<lparr>gs_mark := 0\<rparr>) ?ss0, [], {}) = (ss, wl, seen)"
    and ml: "mark_loop trace ss wl = Some ss'" and so: "same_objects ?ss0 ss'"
    and ex': "\<forall>x. unat x < length ?ss0 \<longrightarrow> (mrk ss' x \<noteq> 0 \<longleftrightarrow> ?R x)" by (rule mark_exact [of roots "hp_slots h" trace])
  have ex: "mrk ss' x \<noteq> 0 \<longleftrightarrow> ?R x" if "unat x < length ?ss0" for x using ex' that by blast
  define h' where "h' = \<lparr>hp_slots = map sweep_slot ss', hp_free_list = rev (map of_nat (swept ss')) @ hp_free_list h,
    hp_live_count = hp_live_count h - length (swept ss')\<rparr>"
  have c: "gc_collect h roots trace = Some (length (swept ss'), h')" by (simp add: gc_collect_def f ml h'_def Let_def)
  have len: "length ss' = length ?ss0" using so by (simp add: same_objects_def)
  have cnt: "hp_live_count h = length (filter (\<lambda>s. gs_payload s \<noteq> None) (map sweep_slot ss')) + length (swept ss')"
    using inv sweep_count [of ss'] same_objects_count [OF so] by (simp add: heap_inv_def)
  have obj: "pay (hp_slots h') x = (if ?R x then pay ?ss0 x else None)"
    "gs_generation (hp_slots h' ! unat x) = (if pay ?ss0 x \<noteq> None \<and> \<not> ?R x then gs_generation (?ss0 ! unat x) + 1 else gs_generation (?ss0 ! unat x))"
    if "unat x < length ?ss0" for x
    using that so ex [OF that] reachable_live [of ?ss0 roots trace x]
    by (auto simp: h'_def len sweep_slot_def same_objects_def live_at_def)
  have lt: "i < 4294967296" if "i < length ss'" for i using that inv len by (simp add: heap_inv_def)
  have sw: "set (map of_nat (swept ss')) = {x. unat x < length ?ss0 \<and> pay ?ss0 x \<noteq> None \<and> \<not> ?R x}"
  proof -
    have "set (map of_nat (swept ss')) = {x. unat x < length ss' \<and> pay ss' x \<noteq> None \<and> mrk ss' x = 0}"
    proof (intro set_eqI iffI)
      fix x :: u32 assume "x \<in> {x. unat x < length ss' \<and> pay ss' x \<noteq> None \<and> mrk ss' x = 0}"
      then show "x \<in> set (map of_nat (swept ss'))"
        by (auto simp: swept_def intro!: image_eqI [of _ _ "unat x"])
    qed (auto simp: swept_def unat_of_nat_u32 lt)
    also have "\<dots> = {x. unat x < length ?ss0 \<and> pay ?ss0 x \<noteq> None \<and> \<not> ?R x}"
    proof (rule Collect_cong, cases)
      fix x :: u32 assume "unat x < length ?ss0"
      then show "(unat x < length ss' \<and> pay ss' x \<noteq> None \<and> mrk ss' x = 0) =
          (unat x < length ?ss0 \<and> pay ?ss0 x \<noteq> None \<and> \<not> ?R x)"
        using so ex [of x] by (auto simp: same_objects_def)
    qed (simp add: len)
    finally show ?thesis .
  qed
  have dst: "distinct (map of_nat (swept ss') :: u32 list)"
    unfolding distinct_map swept_def using lt
    by (auto simp: inj_on_def) (metis unat_of_nat_u32)
  have inv': "heap_inv h'"
    unfolding heap_inv_def
  proof (intro conjI)
    show "length (hp_slots h') \<le> 4294967296" using inv by (simp add: h'_def len heap_inv_def)
    show "distinct (hp_free_list h')" using dst sw inv by (auto simp: h'_def heap_inv_def)
    have "set (hp_free_list h') = set (map of_nat (swept ss')) \<union> set (hp_free_list h)" by (simp add: h'_def)
    also have "\<dots> = {x. unat x < length (hp_slots h') \<and> pay (hp_slots h') x = None}"
      unfolding sw using inv obj(1) reachable_live [of ?ss0 roots trace]
      by (auto simp: heap_inv_def h'_def len live_at_def)
    finally show "set (hp_free_list h') = {x. unat x < length (hp_slots h') \<and> pay (hp_slots h') x = None}" .
    show "hp_live_count h' = length (filter (\<lambda>s. gs_payload s \<noteq> None) (hp_slots h'))" using cnt by (simp add: h'_def)
  qed
  moreover have "gc_live_count h = gc_live_count h' + length (swept ss')" using cnt by (simp add: gc_live_count_def h'_def)
  moreover have "length (hp_slots h') = length ?ss0" by (simp add: h'_def len)
  ultimately show ?thesis using c obj by blast
qed

section \<open>Runs of the collector\<close>

datatype 'a gc_op =
    GAlloc 'a
  | GUpdate gc_handle "'a \<Rightarrow> 'a"
  | GOutgoing gc_handle "u32 list"
  | GCollect "gc_handle list" "'a \<Rightarrow> u32 list"

fun gc_exec :: "'a gc_op \<Rightarrow> 'a gc_heap \<Rightarrow> 'a gc_heap option" where
  "gc_exec (GAlloc v) h = map_option snd (gc_alloc h v)"
| "gc_exec (GUpdate r f) h = Some (gc_get_mut h r f)"
| "gc_exec (GOutgoing r edges) h = Some (set_outgoing h r edges)"
| "gc_exec (GCollect roots trace) h = map_option snd (gc_collect h roots trace)"

fun gc_run :: "'a gc_op list \<Rightarrow> 'a gc_heap \<Rightarrow> 'a gc_heap option" where
  "gc_run [] h = Some h"
| "gc_run (op # ops) h = Option.bind (gc_exec op h) (gc_run ops)"

lemma count_update:
  "i < length ss \<Longrightarrow> (gs_payload s = None \<longleftrightarrow> gs_payload (ss ! i) = None) \<Longrightarrow>
   length (filter (\<lambda>s. gs_payload s \<noteq> None) (ss[i := s])) = length (filter (\<lambda>s. gs_payload s \<noteq> None) ss)"
proof (induction ss arbitrary: i)
  case (Cons x xs)
  then show ?case by (cases i) auto
qed simp

lemma count_fill:
  "i < length ss \<Longrightarrow> gs_payload s \<noteq> None \<Longrightarrow> gs_payload (ss ! i) = None \<Longrightarrow>
   length (filter (\<lambda>s. gs_payload s \<noteq> None) (ss[i := s])) = Suc (length (filter (\<lambda>s. gs_payload s \<noteq> None) ss))"
proof (induction ss arbitrary: i)
  case (Cons x xs)
  then show ?case by (cases i) auto
qed simp

lemma update_slot_inv:
  assumes "heap_inv h" "i < length (hp_slots h)" "gs_payload s = None \<longleftrightarrow> gs_payload (hp_slots h ! i) = None"
  shows "heap_inv (h\<lparr>hp_slots := (hp_slots h)[i := s]\<rparr>)"
  using assms count_update [OF assms(2,3)] by (auto simp: heap_inv_def nth_list_update)

lemma alloc_ok:
  assumes inv: "heap_inv h" and room: "length (hp_slots h) < 4294967296"
  obtains r h' where "gc_alloc h v = Some (r, h')" "heap_inv h'" "length (hp_slots h') \<le> Suc (length (hp_slots h))"
    "gc_get h r = None" "gc_get h' r = Some v" "\<forall>r'. r' \<noteq> r \<longrightarrow> gc_get h' r' = gc_get h r'"
    "\<forall>i < length (hp_slots h). i < length (hp_slots h') \<and> gs_generation (hp_slots h' ! i) = gs_generation (hp_slots h ! i)"
proof (cases "hp_free_list h")
  case Nil
  let ?n = "length (hp_slots h)"
  let ?s = "\<lparr>gs_payload = Some v, gs_outgoing = [], gs_mark = 0, gs_generation = 0\<rparr>"
  let ?r = "\<lparr>gh_slot = of_nat ?n, gh_generation = 0\<rparr>"
  let ?h = "\<lparr>hp_slots = hp_slots h @ [?s], hp_free_list = [], hp_live_count = hp_live_count h + 1\<rparr>"
  have n: "unat (of_nat ?n :: u32) = ?n" using room by (rule unat_of_nat_u32)
  show thesis
  proof (rule that)
    show "gc_alloc h v = Some (?r, ?h)" by (simp add: gc_alloc_def Nil)
    show "heap_inv ?h" using inv room Nil by (auto simp: heap_inv_def nth_append less_Suc_eq)
    show "gc_get h ?r = None" "gc_get ?h ?r = Some v" by (simp_all add: gc_get_def vec_get_def n)
    show "\<forall>r'. r' \<noteq> ?r \<longrightarrow> gc_get ?h r' = gc_get h r'"
    proof (intro allI impI)
      fix r' :: gc_handle assume r: "r' \<noteq> ?r"
      show "gc_get ?h r' = gc_get h r'"
      proof (cases "unat (gh_slot r') = ?n")
        case True
        then have "gh_slot r' = of_nat ?n" using n by (metis unat_inj_iff)
        with r have "gh_generation r' \<noteq> 0" by auto
        then show ?thesis using True by (simp add: gc_get_def vec_get_def)
      next
        case False
        then show ?thesis by (auto simp: gc_get_def vec_get_def nth_append)
      qed
    qed
  qed (auto simp: nth_append)
next
  case (Cons x xs)
  have x: "unat x < length (hp_slots h)" "pay (hp_slots h) x = None" "x \<notin> set xs"
    using inv Cons by (auto simp: heap_inv_def)
  let ?s = "(hp_slots h ! unat x)\<lparr>gs_payload := Some v, gs_outgoing := [], gs_mark := 0\<rparr>"
  let ?r = "\<lparr>gh_slot = x, gh_generation = gs_generation (hp_slots h ! unat x)\<rparr>"
  let ?h = "\<lparr>hp_slots = (hp_slots h)[unat x := ?s], hp_free_list = xs, hp_live_count = hp_live_count h + 1\<rparr>"
  show thesis
  proof (rule that)
    show "gc_alloc h v = Some (?r, ?h)" using x by (simp add: gc_alloc_def Cons vec_get_def)
    have "set xs = set (hp_free_list h) - {x}" using x(3) by (auto simp: Cons)
    then show "heap_inv ?h"
      using inv x count_fill [of "unat x" "hp_slots h" ?s] Cons
      by (auto simp: heap_inv_def nth_list_update unat_inj_iff)
    show "gc_get h ?r = None" "gc_get ?h ?r = Some v" using x by (simp_all add: gc_get_def vec_get_def)
    show "\<forall>r'. r' \<noteq> ?r \<longrightarrow> gc_get ?h r' = gc_get h r'"
    proof (intro allI impI)
      fix r' :: gc_handle assume r: "r' \<noteq> ?r"
      show "gc_get ?h r' = gc_get h r'"
      proof (cases "gh_slot r' = x")
        case True
        then have "gh_generation r' \<noteq> gs_generation (hp_slots h ! unat x)" using r by auto
        then show ?thesis using True x by (simp add: gc_get_def vec_get_def)
      next
        case False
        then have "unat (gh_slot r') \<noteq> unat x" by (simp add: unat_inj_iff)
        then show ?thesis by (simp add: gc_get_def vec_get_def)
      qed
    qed
  qed (use x in \<open>auto simp: nth_list_update\<close>)
qed

text \<open>No operation moves the generation of a slot by more than one.\<close>

lemma exec_ok:
  assumes inv: "heap_inv h" and room: "length (hp_slots h) < 4294967296"
  obtains h' where "gc_exec op h = Some h'" "heap_inv h'" "length (hp_slots h') \<le> Suc (length (hp_slots h))"
    "\<forall>i < length (hp_slots h). i < length (hp_slots h') \<and>
       (gs_generation (hp_slots h' ! i) = gs_generation (hp_slots h ! i) \<or>
        gs_generation (hp_slots h' ! i) = gs_generation (hp_slots h ! i) + 1)"
proof (cases op)
  case (GAlloc v)
  show thesis by (rule alloc_ok [OF inv room, of v], rule that) (auto simp: GAlloc)
next
  case (GUpdate r f)
  show thesis
  proof (rule that)
    show "gc_exec op h = Some (gc_get_mut h r f)" by (simp add: GUpdate)
    show "heap_inv (gc_get_mut h r f)"
      using inv by (auto simp: gc_get_mut_def vec_get_def split: option.splits if_splits intro!: update_slot_inv)
  qed (auto simp: gc_get_mut_def vec_get_def nth_list_update split: option.splits)
next
  case (GOutgoing r es)
  show thesis
  proof (rule that)
    show "gc_exec op h = Some (set_outgoing h r es)" by (simp add: GOutgoing)
    show "heap_inv (set_outgoing h r es)"
      using inv by (auto simp: set_outgoing_def vec_get_def split: option.splits if_splits intro!: update_slot_inv)
  qed (auto simp: set_outgoing_def vec_get_def nth_list_update split: option.splits)
next
  case (GCollect roots trace)
  obtain n h' where c: "gc_collect h roots trace = Some (n, h')" "heap_inv h'" "length (hp_slots h') = length (hp_slots h)"
    "\<forall>x. unat x < length (hp_slots h) \<longrightarrow>
      gs_generation (hp_slots h' ! unat x) = (if pay (hp_slots h) x \<noteq> None \<and> \<not> gc_reachable (hp_slots h) roots trace x
        then gs_generation (hp_slots h ! unat x) + 1 else gs_generation (hp_slots h ! unat x))"
    using collect_ok [OF inv, of roots trace] by blast
  show thesis
  proof (rule that)
    show "gc_exec op h = Some h'" by (simp add: GCollect c)
    show "\<forall>i < length (hp_slots h). i < length (hp_slots h') \<and>
       (gs_generation (hp_slots h' ! i) = gs_generation (hp_slots h ! i) \<or>
        gs_generation (hp_slots h' ! i) = gs_generation (hp_slots h ! i) + 1)"
    proof (intro allI impI)
      fix i assume i: "i < length (hp_slots h)"
      then have "unat (of_nat i :: u32) = i" using room by (intro unat_of_nat_u32) simp
      with c(4) [rule_format, of "of_nat i"] i show "i < length (hp_slots h') \<and>
         (gs_generation (hp_slots h' ! i) = gs_generation (hp_slots h ! i) \<or>
          gs_generation (hp_slots h' ! i) = gs_generation (hp_slots h ! i) + 1)" by (auto simp: c(3))
    qed
  qed (use c in auto)
qed

lemma run_ok:
  assumes "heap_inv h" "length (hp_slots h) + length ops \<le> 4294967296"
  shows "\<exists>h'. gc_run ops h = Some h' \<and> heap_inv h' \<and> length (hp_slots h') \<le> length (hp_slots h) + length ops \<and>
    (\<forall>i < length (hp_slots h). i < length (hp_slots h') \<and>
       (\<exists>k \<le> length ops. gs_generation (hp_slots h' ! i) = gs_generation (hp_slots h ! i) + of_nat k))"
  using assms
proof (induction ops arbitrary: h)
  case Nil
  then show ?case by auto
next
  case (Cons op ops)
  have "length (hp_slots h) < 4294967296" using Cons.prems(2) by simp
  then obtain h1 where e: "gc_exec op h = Some h1" "heap_inv h1" "length (hp_slots h1) \<le> Suc (length (hp_slots h))"
    "\<forall>i < length (hp_slots h). i < length (hp_slots h1) \<and>
       (gs_generation (hp_slots h1 ! i) = gs_generation (hp_slots h ! i) \<or>
        gs_generation (hp_slots h1 ! i) = gs_generation (hp_slots h ! i) + 1)"
    by (rule exec_ok [OF Cons.prems(1)])
  have "length (hp_slots h1) + length ops \<le> 4294967296" using e(3) Cons.prems(2) by simp
  from Cons.IH [OF e(2) this] obtain h2 where r: "gc_run ops h1 = Some h2" "heap_inv h2"
    "length (hp_slots h2) \<le> length (hp_slots h1) + length ops"
    "\<forall>i < length (hp_slots h1). i < length (hp_slots h2) \<and>
       (\<exists>k \<le> length ops. gs_generation (hp_slots h2 ! i) = gs_generation (hp_slots h1 ! i) + of_nat k)" by blast
  have "i < length (hp_slots h2) \<and> (\<exists>k \<le> length (op # ops). gs_generation (hp_slots h2 ! i) = gs_generation (hp_slots h ! i) + of_nat k)"
    if "i < length (hp_slots h)" for i
  proof -
    have i1: "i < length (hp_slots h1)" and g1: "gs_generation (hp_slots h1 ! i) = gs_generation (hp_slots h ! i) \<or>
        gs_generation (hp_slots h1 ! i) = gs_generation (hp_slots h ! i) + 1" using e(4) that by auto
    obtain k where k: "k \<le> length ops" "gs_generation (hp_slots h2 ! i) = gs_generation (hp_slots h1 ! i) + of_nat k"
      using r(4) i1 by blast
    have "i < length (hp_slots h2)" using r(4) i1 by blast
    moreover have "gs_generation (hp_slots h2 ! i) = gs_generation (hp_slots h ! i) + of_nat k \<or>
        gs_generation (hp_slots h2 ! i) = gs_generation (hp_slots h ! i) + of_nat (Suc k)"
      using k(2) g1 by (auto simp: ac_simps)
    moreover have "k \<le> length (op # ops)" "Suc k \<le> length (op # ops)" using k(1) by simp_all
    ultimately show ?thesis by blast
  qed
  then show ?case using e(1,3) r(1-3) by auto
qed

lemma gc_new_inv: "heap_inv gc_new"
  by (simp add: heap_inv_def gc_new_def)

section \<open>Properties\<close>


text \<open>Two objects that point at each other, with no root: payloads are edge lists.\<close>

definition demo_heap :: "u32 list gc_heap" where
  "demo_heap =
     \<lparr>hp_slots = [\<lparr>gs_payload = Some [1], gs_outgoing = [], gs_mark = 0, gs_generation = 0\<rparr>,
                   \<lparr>gs_payload = Some [0], gs_outgoing = [], gs_mark = 0, gs_generation = 0\<rparr>],
      hp_free_list = [], hp_live_count = 2\<rparr>"

lemma demo_heap_run: "gc_run [GAlloc [1], GAlloc [0]] gc_new = Some demo_heap"
  by (simp add: gc_new_def gc_alloc_def demo_heap_def)

lemma no_roots: "\<not> gc_reachable ss [] trace x"
proof
  assume "gc_reachable ss [] trace x"
  then show False by (induction rule: gc_reachable.induct) (auto simp: root_at_def)
qed


text \<open>The handle of an object that a collection freed reads as absent for ever after, also when its
  slot is reused, as long as fewer than \<open>2 ^ 32\<close> further operations run; and those operations never
  panic.\<close>

theorem gc_freed_handle_stays_dead:
  assumes "gc_run ops gc_new = Some h" "length ops \<le> 4294967296"
    and "gc_get h r \<noteq> None" "\<not> gc_reachable (hp_slots h) roots trace (gh_slot r)"
    and "gc_collect h roots trace = Some (n, h1)" "length (hp_slots h1) + length ops' < 4294967296"
  shows "\<exists>h2. gc_run ops' h1 = Some h2 \<and> gc_get h2 r = None"
proof -
  let ?x = "gh_slot r"
  have inv: "heap_inv h" using run_ok [OF gc_new_inv, of ops] assms(1,2) by (auto simp: gc_new_def)
  have x: "unat ?x < length (hp_slots h)" "pay (hp_slots h) ?x \<noteq> None" "gs_generation (hp_slots h ! unat ?x) = gh_generation r"
    using assms(3) by (auto simp: gc_get_def vec_get_def split: if_splits)
  have c: "heap_inv h1" "length (hp_slots h1) = length (hp_slots h)" "gs_generation (hp_slots h1 ! unat ?x) = gh_generation r + 1"
    using collect_ok [OF inv, of roots trace] assms(4,5) x by auto
  obtain h2 k where r: "gc_run ops' h1 = Some h2" "unat ?x < length (hp_slots h2)" "k \<le> length ops'"
    "gs_generation (hp_slots h2 ! unat ?x) = gh_generation r + 1 + of_nat k"
    using run_ok [OF c(1) less_imp_le [OF assms(6)]] c(2,3) x(1) by metis
  have "Suc k < 4294967296" using r(3) assms(6) c(2) x(1) by simp
  then have "(of_nat (Suc k) :: u32) \<noteq> 0" by (metis Zero_not_Suc unat_of_nat_u32 unat_0)
  then have "gs_generation (hp_slots h2 ! unat ?x) \<noteq> gh_generation r" unfolding r(4) by (simp add: add.assoc)
  then have "gc_get h2 r = None" using r(2) by (simp add: gc_get_def vec_get_def)
  then show ?thesis using r(1) by blast
qed

theorem gc_freed_handle_stays_dead_witness:
  "\<exists>n h1 h2. gc_collect demo_heap [] (\<lambda>edges. edges) = Some (n, h1) \<and> gc_run [GAlloc [7]] h1 = Some h2 \<and>
     gc_get h2 \<lparr>gh_slot = 0, gh_generation = 0\<rparr> = None"
proof -
  have c: "gc_collect demo_heap [] (\<lambda>edges. edges) =
      Some (2, \<lparr>hp_slots = [\<lparr>gs_payload = None, gs_outgoing = [], gs_mark = 0, gs_generation = 1\<rparr>,
                            \<lparr>gs_payload = None, gs_outgoing = [], gs_mark = 0, gs_generation = 1\<rparr>],
                hp_free_list = [1, 0], hp_live_count = 0\<rparr>)"
    by (simp add: gc_collect_def demo_heap_def swept_def sweep_slot_def upt_conv_Cons)
  have "gc_get demo_heap \<lparr>gh_slot = 0, gh_generation = 0\<rparr> \<noteq> None"
    by (simp add: gc_get_def demo_heap_def vec_get_def)
  from gc_freed_handle_stays_dead [OF demo_heap_run _ this no_roots c, of "[GAlloc [7]]"]
  show ?thesis using c by auto
qed

end
