(* ===== verification/Ordered.thy ===== *)
theory Ordered
  imports Prelude "HOL-Library.Monad_Syntax"
begin

text \<open>
  Property storage of JavaScript objects: the hidden classes of \<^verbatim>\<open>crates/cv_js/src/shapes.rs\<close>, the
  insertion-ordered map with its two storage modes of \<^verbatim>\<open>crates/cv_js/src/ordered.rs\<close>, the property
  inline cache of \<^verbatim>\<open>crates/cv_js/src/bytecode.rs\<close> and the key order of \<^verbatim>\<open>crates/cv_js/src/interp.rs\<close>.
  Keys are Rust strings, modelled by their bytes. The process-global shape table, the version
  counter and the \<open>CV_SHAPED_OBJ\<close> switch form the world that the operations thread. \<open>None\<close> as the
  result of an operation is a panic: an index out of range or \<open>unreachable!\<close>. Mutable borrows
  handed out by the map are updates by a function; the statistics counters are left out.
\<close>

section \<open>Hidden classes\<close>

type_synonym shape_id = u32

record shape =
  sh_id :: shape_id
  sh_properties :: "string list"
  sh_index :: "string \<rightharpoonup> nat"
  sh_transitions :: "string \<rightharpoonup> shape_id"

definition shape_empty :: "shape_id \<Rightarrow> shape" where
  "shape_empty i = \<lparr>sh_id = i, sh_properties = [], sh_index = Map.empty, sh_transitions = Map.empty\<rparr>"

definition property_count :: "shape \<Rightarrow> nat" where
  "property_count s = length (sh_properties s)"

definition shape_lookup :: "shape \<Rightarrow> string \<Rightarrow> nat option" where
  "shape_lookup s key = sh_index s key"

record shape_table =
  st_shapes :: "shape list"
  st_empty_id :: shape_id

definition table_new :: shape_table where
  "table_new = \<lparr>st_shapes = [shape_empty 0], st_empty_id = 0\<rparr>"

definition table_len :: "shape_table \<Rightarrow> nat" where
  "table_len t = length (st_shapes t)"

definition table_is_empty :: "shape_table \<Rightarrow> bool" where
  "table_is_empty t \<longleftrightarrow> length (st_shapes t) \<le> 1"

definition table_shape :: "shape_table \<Rightarrow> shape_id \<Rightarrow> shape option" where
  "table_shape t i = vec_get (st_shapes t) (unat i)"

definition add_property :: "shape_table \<Rightarrow> shape_id \<Rightarrow> string \<Rightarrow> (shape_id \<times> shape_table) option" where
  "add_property t i key = do {
     s \<leftarrow> table_shape t i;
     if sh_index s key \<noteq> None then Some (i, t)
     else case sh_transitions s key of
       Some target \<Rightarrow> Some (target, t)
     | None \<Rightarrow>
         let new_id = of_nat (length (st_shapes t));
             slot = length (sh_properties s);
             child = \<lparr>sh_id = new_id, sh_properties = sh_properties s @ [key],
                      sh_index = (sh_index s)(key \<mapsto> slot), sh_transitions = Map.empty\<rparr>;
             shapes = st_shapes t @ [child];
             parent = (shapes ! unat i)\<lparr>sh_transitions := (sh_transitions (shapes ! unat i))(key \<mapsto> new_id)\<rparr>
         in Some (new_id, t\<lparr>st_shapes := shapes[unat i := parent]\<rparr>)
   }"

definition DICT_SHAPE :: shape_id where "DICT_SHAPE = - 1"
definition BORN_DICT_SHAPE :: shape_id where "BORN_DICT_SHAPE = - 1 - 1"

record js_world =
  w_table :: shape_table
  w_next_ver :: u64
  w_shaped :: bool

definition global_empty_shape :: "js_world \<Rightarrow> shape_id" where
  "global_empty_shape w = st_empty_id (w_table w)"

definition global_add_property :: "js_world \<Rightarrow> shape_id \<Rightarrow> string \<Rightarrow> (shape_id \<times> js_world) option" where
  "global_add_property w i key = do {
     (j, t) \<leftarrow> add_property (w_table w) i key;
     Some (j, w\<lparr>w_table := t\<rparr>)
   }"

definition global_shape_lookup :: "js_world \<Rightarrow> shape_id \<Rightarrow> string \<Rightarrow> nat option option" where
  "global_shape_lookup w i key = do { s \<leftarrow> table_shape (w_table w) i; Some (shape_lookup s key) }"

definition global_shape_properties :: "js_world \<Rightarrow> shape_id \<Rightarrow> string list option" where
  "global_shape_properties w i = do { s \<leftarrow> table_shape (w_table w) i; Some (sh_properties s) }"

definition global_shape_property_count :: "js_world \<Rightarrow> shape_id \<Rightarrow> nat option" where
  "global_shape_property_count w i = do { s \<leftarrow> table_shape (w_table w) i; Some (property_count s) }"

definition global_shape_count :: "js_world \<Rightarrow> nat" where
  "global_shape_count w = table_len (w_table w)"

section \<open>Keys that force the dictionary mode\<close>

definition is_digit_char :: "char \<Rightarrow> bool" where
  "is_digit_char c \<longleftrightarrow> of_char c \<ge> (48 :: nat) \<and> of_char c \<le> (57 :: nat)"

fun parse_digits :: "string \<Rightarrow> nat \<Rightarrow> nat option" where
  "parse_digits [] n = Some n"
| "parse_digits (c # cs) n =
     (if is_digit_char c
      then let n' = n * 10 + (of_char c - 48) in if n' < 4294967296 then parse_digits cs n' else None
      else None)"

text \<open>\<open>str::parse::<u32>\<close>: one leading plus sign is accepted.\<close>

definition parse_u32 :: "string \<Rightarrow> nat option" where
  "parse_u32 k =
     (case k of
        [] \<Rightarrow> None
      | c # cs \<Rightarrow> if c = CHR ''+'' then (if cs = [] then None else parse_digits cs 0) else parse_digits k 0)"

definition is_array_index_key :: "string \<Rightarrow> bool" where
  "is_array_index_key k =
     (if k = [] \<or> (length k > 1 \<and> k ! 0 = CHR ''0'') then False
      else case parse_u32 k of Some n \<Rightarrow> n \<noteq> 4294967295 | None \<Rightarrow> False)"

definition PROTO_KEY :: string where
  "PROTO_KEY = CHR 0x01 # ''__proto__''"

definition is_engine_sentinel_key :: "string \<Rightarrow> bool" where
  "is_engine_sentinel_key k \<longleftrightarrow> k \<in> set
     [''_isMap'', ''_isSet'', ''_isProxy'', ''_isPromise'', ''_isRegExp'', ''_isError'', ''_isGenerator'',
      ''_isAsyncIterator'', ''_isDate'', ''_isArrayBuffer'', ''_isDataView'', ''_isWasmGlobal'',
      ''_isWasmInstance'', ''_isWasmMemory'', ''_isWasmModule'', ''_isWasmTable'', ''_typedarray'',
      ''_entries'', ''__entries'', ''_items'', ''_target'', ''_handler'', ''_construct'', ''_errorClasses'']"

definition string_key_forces_deopt :: "string \<Rightarrow> bool" where
  "string_key_forces_deopt k =
     (if is_array_index_key k then True
      else if k \<noteq> [] \<and> k ! 0 = CHR 0x01 then k \<noteq> PROTO_KEY
      else is_engine_sentinel_key k \<or> k = ''_bytes'')"

definition SHAPED_SLOT_CAP :: nat where "SHAPED_SLOT_CAP = 128"

section \<open>The two-mode store\<close>

datatype 'v store =
    Shaped shape_id "'v list"
  | Dict "(string \<times> 'v) list" "string \<rightharpoonup> nat"

record shape_cache =
  sc_ver :: u64
  sc_shape :: shape_id
  sc_header :: shape_id

definition cache_deopted :: "shape_cache \<Rightarrow> bool" where
  "cache_deopted c \<longleftrightarrow> sc_header c = DICT_SHAPE"

record 'v ordered_map =
  om_store :: "'v store"
  om_struct_ver :: u64
  om_cache :: shape_cache

definition fresh_struct_ver :: "js_world \<Rightarrow> u64 \<times> js_world" where
  "fresh_struct_ver w = (w_next_ver w, w\<lparr>w_next_ver := w_next_ver w + 1\<rparr>)"

definition bump_struct_ver :: "js_world \<Rightarrow> 'v ordered_map \<Rightarrow> 'v ordered_map \<times> js_world" where
  "bump_struct_ver w m = (let (v, w) = fresh_struct_ver w in (m\<lparr>om_struct_ver := v\<rparr>, w))"

definition store_header :: "'v store \<Rightarrow> shape_id" where
  "store_header st = (case st of Shaped shape slots \<Rightarrow> shape | Dict entries index \<Rightarrow> BORN_DICT_SHAPE)"

definition om_new :: "js_world \<Rightarrow> 'v ordered_map \<times> js_world" where
  "om_new w =
     (let st = (if w_shaped w then Shaped (global_empty_shape w) [] else Dict [] Map.empty);
          (v, w) = fresh_struct_ver w
      in (\<lparr>om_store = st, om_struct_ver = v,
           om_cache = \<lparr>sc_ver = 0, sc_shape = 0, sc_header = store_header st\<rparr>\<rparr>, w))"

definition om_default :: "js_world \<Rightarrow> 'v ordered_map \<times> js_world" where
  "om_default w =
     (let (v, w) = fresh_struct_ver w
      in (\<lparr>om_store = Dict [] Map.empty, om_struct_ver = v,
           om_cache = \<lparr>sc_ver = 0, sc_shape = 0, sc_header = BORN_DICT_SHAPE\<rparr>\<rparr>, w))"

definition is_shaped :: "'v ordered_map \<Rightarrow> bool" where
  "is_shaped m = (case om_store m of Shaped _ _ \<Rightarrow> True | Dict _ _ \<Rightarrow> False)"

definition stored_shape_id :: "'v ordered_map \<Rightarrow> shape_id option" where
  "stored_shape_id m =
     (case om_store m of
        Shaped shape slots \<Rightarrow> Some shape
      | Dict entries index \<Rightarrow> if cache_deopted (om_cache m) then Some DICT_SHAPE else None)"

definition cached_shape :: "'v ordered_map \<Rightarrow> u64 \<times> shape_id" where
  "cached_shape m = (sc_ver (om_cache m), sc_shape (om_cache m))"

definition set_cached_shape :: "'v ordered_map \<Rightarrow> u64 \<Rightarrow> shape_id \<Rightarrow> 'v ordered_map" where
  "set_cached_shape m ver shape =
     m\<lparr>om_cache := \<lparr>sc_ver = ver, sc_shape = shape, sc_header = sc_header (om_cache m)\<rparr>\<rparr>"

definition reset_shape_cache :: "'v ordered_map \<Rightarrow> 'v ordered_map" where
  "reset_shape_cache m = m\<lparr>om_cache := \<lparr>sc_ver = 0, sc_shape = 0, sc_header = sc_header (om_cache m)\<rparr>\<rparr>"

definition mark_deopted :: "'v ordered_map \<Rightarrow> 'v ordered_map" where
  "mark_deopted m = m\<lparr>om_cache := \<lparr>sc_ver = 0, sc_shape = 0, sc_header = DICT_SHAPE\<rparr>\<rparr>"

definition mirror_shape_header :: "'v ordered_map \<Rightarrow> 'v ordered_map" where
  "mirror_shape_header m =
     m\<lparr>om_cache := (om_cache m)\<lparr>sc_header :=
        (case om_store m of Shaped shape slots \<Rightarrow> shape | Dict entries index \<Rightarrow> sc_header (om_cache m))\<rparr>\<rparr>"

definition shape_header :: "'v ordered_map \<Rightarrow> shape_id" where
  "shape_header m = sc_header (om_cache m)"

definition slot_of :: "js_world \<Rightarrow> 'v ordered_map \<Rightarrow> string \<Rightarrow> nat option option" where
  "slot_of w m k =
     (case om_store m of
        Dict entries index \<Rightarrow> Some (index k)
      | Shaped shape slots \<Rightarrow> global_shape_lookup w shape k)"

definition value_at_slot :: "'v ordered_map \<Rightarrow> nat \<Rightarrow> 'v option" where
  "value_at_slot m slot =
     (case om_store m of
        Dict entries index \<Rightarrow> map_option snd (vec_get entries slot)
      | Shaped shape slots \<Rightarrow> vec_get slots slot)"

definition set_at_slot :: "'v ordered_map \<Rightarrow> nat \<Rightarrow> 'v \<Rightarrow> 'v ordered_map" where
  "set_at_slot m slot v =
     (case om_store m of
        Dict entries index \<Rightarrow>
          if slot < length entries then m\<lparr>om_store := Dict (entries[slot := (fst (entries ! slot), v)]) index\<rparr> else m
      | Shaped shape slots \<Rightarrow>
          if slot < length slots then m\<lparr>om_store := Shaped shape (slots[slot := v])\<rparr> else m)"

definition om_len :: "'v ordered_map \<Rightarrow> nat" where
  "om_len m = (case om_store m of Dict entries index \<Rightarrow> length entries | Shaped shape slots \<Rightarrow> length slots)"

definition om_is_empty :: "'v ordered_map \<Rightarrow> bool" where
  "om_is_empty m = (case om_store m of Dict entries index \<Rightarrow> entries = [] | Shaped shape slots \<Rightarrow> slots = [])"

definition om_clear :: "js_world \<Rightarrow> 'v ordered_map \<Rightarrow> 'v ordered_map \<times> js_world" where
  "om_clear w m =
     (let m = (case om_store m of
                 Dict entries index \<Rightarrow> m\<lparr>om_store := Dict [] Map.empty\<rparr>
               | Shaped shape slots \<Rightarrow> mark_deopted (m\<lparr>om_store := Dict [] Map.empty\<rparr>));
          (m, w) = bump_struct_ver w m
      in (reset_shape_cache m, w))"

definition om_get :: "js_world \<Rightarrow> 'v ordered_map \<Rightarrow> string \<Rightarrow> 'v option option" where
  "om_get w m k =
     (case om_store m of
        Dict entries index \<Rightarrow>
          (case index k of
             None \<Rightarrow> Some None
           | Some i \<Rightarrow> Option.bind (vec_get entries i) (\<lambda>e. Some (Some (snd e))))
      | Shaped shape slots \<Rightarrow> do {
          found \<leftarrow> global_shape_lookup w shape k;
          Some (Option.bind found (vec_get slots)) })"

definition om_get_mut :: "js_world \<Rightarrow> 'v ordered_map \<Rightarrow> string \<Rightarrow> ('v \<Rightarrow> 'v) \<Rightarrow> 'v ordered_map option" where
  "om_get_mut w m k f =
     (case om_store m of
        Dict entries index \<Rightarrow>
          (case index k of
             None \<Rightarrow> Some m
           | Some i \<Rightarrow> do {
               e \<leftarrow> vec_get entries i;
               Some (m\<lparr>om_store := Dict (entries[i := (fst e, f (snd e))]) index\<rparr>) })
      | Shaped shape slots \<Rightarrow> do {
          found \<leftarrow> global_shape_lookup w shape k;
          case found of
            None \<Rightarrow> Some m
          | Some i \<Rightarrow> Some (if i < length slots then m\<lparr>om_store := Shaped shape (slots[i := f (slots ! i)])\<rparr> else m) })"

definition contains_key :: "js_world \<Rightarrow> 'v ordered_map \<Rightarrow> string \<Rightarrow> bool option" where
  "contains_key w m k =
     (case om_store m of
        Dict entries index \<Rightarrow> Some (index k \<noteq> None)
      | Shaped shape slots \<Rightarrow> do { found \<leftarrow> global_shape_lookup w shape k; Some (found \<noteq> None) })"

section \<open>Structural changes\<close>

definition index_of_keys :: "string list \<Rightarrow> (string \<rightharpoonup> nat)" where
  "index_of_keys ks = fold (\<lambda>(i, k) index. index(k \<mapsto> i)) (enumerate 0 ks) Map.empty"

definition deopt_to_dict :: "js_world \<Rightarrow> 'v ordered_map \<Rightarrow> ('v ordered_map \<times> js_world) option" where
  "deopt_to_dict w m =
     (case om_store m of
        Dict entries index \<Rightarrow> Some (m, w)
      | Shaped shape slots \<Rightarrow> do {
          props \<leftarrow> global_shape_properties w shape;
          let entries = zip props slots;
          let (m, w) = bump_struct_ver w (m\<lparr>om_store := Dict entries (index_of_keys (map fst entries))\<rparr>);
          Some (mark_deopted m, w) })"

datatype shaped_slot = Slot nat | Deopted

definition shaped_intern_slot ::
  "js_world \<Rightarrow> 'v ordered_map \<Rightarrow> string \<Rightarrow> (shaped_slot \<times> 'v ordered_map \<times> js_world) option" where
  "shaped_intern_slot w m k =
     (if string_key_forces_deopt k then do { (m, w) \<leftarrow> deopt_to_dict w m; Some (Deopted, m, w) }
      else case om_store m of
        Dict entries index \<Rightarrow> Some (Deopted, m, w)
      | Shaped shape slots \<Rightarrow> do {
          found \<leftarrow> global_shape_lookup w shape k;
          case found of
            Some i \<Rightarrow> Some (Slot i, m, w)
          | None \<Rightarrow>
              if length slots + 1 > SHAPED_SLOT_CAP
              then do { (m, w) \<leftarrow> deopt_to_dict w m; Some (Deopted, m, w) }
              else do {
                (new_shape, w) \<leftarrow> global_add_property w shape k;
                Some (Slot (length slots), mirror_shape_header (m\<lparr>om_store := Shaped new_shape slots\<rparr>), w) } })"

definition dict_insert ::
  "js_world \<Rightarrow> 'v ordered_map \<Rightarrow> string \<Rightarrow> 'v \<Rightarrow> ('v option \<times> 'v ordered_map \<times> js_world) option" where
  "dict_insert w m k v =
     (case om_store m of
        Shaped shape slots \<Rightarrow> None
      | Dict entries index \<Rightarrow>
          (case index k of
             Some i \<Rightarrow> do {
               e \<leftarrow> vec_get entries i;
               Some (Some (snd e), m\<lparr>om_store := Dict (entries[i := (fst e, v)]) index\<rparr>, w) }
           | None \<Rightarrow>
               let (m, w) = bump_struct_ver w (m\<lparr>om_store := Dict (entries @ [(k, v)]) (index(k \<mapsto> length entries))\<rparr>)
               in Some (None, m, w)))"

definition om_insert ::
  "js_world \<Rightarrow> 'v ordered_map \<Rightarrow> string \<Rightarrow> 'v \<Rightarrow> ('v option \<times> 'v ordered_map \<times> js_world) option" where
  "om_insert w m k v =
     (if is_shaped m then do {
        (r, m, w) \<leftarrow> shaped_intern_slot w m k;
        case r of
          Deopted \<Rightarrow> dict_insert w m k v
        | Slot i \<Rightarrow>
            (case om_store m of
               Dict entries index \<Rightarrow> None
             | Shaped shape slots \<Rightarrow>
                 if i < length slots
                 then Some (Some (slots ! i), m\<lparr>om_store := Shaped shape (slots[i := v])\<rparr>, w)
                 else let (m, w) = bump_struct_ver w (m\<lparr>om_store := Shaped shape (slots @ [v])\<rparr>)
                      in Some (None, m, w)) }
      else dict_insert w m k v)"

text \<open>\<open>get_or_insert_with\<close>, followed by the use of the borrow it returns (an update \<open>g\<close> of the value).\<close>

definition dict_get_or_insert ::
  "js_world \<Rightarrow> 'v ordered_map \<Rightarrow> string \<Rightarrow> 'v \<Rightarrow> ('v \<Rightarrow> 'v) \<Rightarrow> ('v \<times> 'v ordered_map \<times> js_world) option" where
  "dict_get_or_insert w m k v g =
     (case om_store m of
        Shaped shape slots \<Rightarrow> None
      | Dict entries index \<Rightarrow> do {
          let (i, entries', index', bumped) =
            (case index k of
               Some i \<Rightarrow> (i, entries, index, False)
             | None \<Rightarrow> (length entries, entries @ [(k, v)], index(k \<mapsto> length entries), True));
          let m = m\<lparr>om_store := Dict entries' index'\<rparr>;
          let (m, w) = (if bumped then bump_struct_ver w m else (m, w));
          e \<leftarrow> vec_get entries' i;
          Some (snd e, m\<lparr>om_store := Dict (entries'[i := (fst e, g (snd e))]) index'\<rparr>, w) })"

definition get_or_insert_with ::
  "js_world \<Rightarrow> 'v ordered_map \<Rightarrow> string \<Rightarrow> 'v \<Rightarrow> ('v \<Rightarrow> 'v) \<Rightarrow> ('v \<times> 'v ordered_map \<times> js_world) option" where
  "get_or_insert_with w m k v g =
     (if is_shaped m then do {
        (r, m, w) \<leftarrow> shaped_intern_slot w m k;
        case r of
          Deopted \<Rightarrow> dict_get_or_insert w m k v g
        | Slot i \<Rightarrow>
            (case om_store m of
               Dict entries index \<Rightarrow> None
             | Shaped shape slots \<Rightarrow> do {
                 let (m, w) = (if i = length slots
                               then bump_struct_ver w (m\<lparr>om_store := Shaped shape (slots @ [v])\<rparr>)
                               else (m, w));
                 let slots = (if i = length slots then slots @ [v] else slots);
                 x \<leftarrow> vec_get slots i;
                 Some (x, m\<lparr>om_store := Shaped shape (slots[i := g x])\<rparr>, w) }) }
      else dict_get_or_insert w m k v g)"

definition dict_remove ::
  "js_world \<Rightarrow> 'v ordered_map \<Rightarrow> string \<Rightarrow> ('v option \<times> 'v ordered_map \<times> js_world) option" where
  "dict_remove w m k =
     (case om_store m of
        Shaped shape slots \<Rightarrow> None
      | Dict entries index \<Rightarrow>
          (case index k of
             None \<Rightarrow> Some (None, m, w)
           | Some i \<Rightarrow> do {
               e \<leftarrow> vec_get entries i;
               let index' = (\<lambda>k'. map_option (\<lambda>j. if j > i then j - 1 else j) ((index(k := None)) k'));
               let (m, w) = bump_struct_ver w (m\<lparr>om_store := Dict (vec_remove i entries) index'\<rparr>);
               Some (Some (snd e), reset_shape_cache m, w) }))"

definition om_remove ::
  "js_world \<Rightarrow> 'v ordered_map \<Rightarrow> string \<Rightarrow> ('v option \<times> 'v ordered_map \<times> js_world) option" where
  "om_remove w m k =
     (case om_store m of
        Dict entries index \<Rightarrow> dict_remove w m k
      | Shaped shape slots \<Rightarrow> do {
          found \<leftarrow> global_shape_lookup w shape k;
          if found = None then Some (None, m, w)
          else do { (m, w) \<leftarrow> deopt_to_dict w m; dict_remove w m k } })"

definition om_keys :: "js_world \<Rightarrow> 'v ordered_map \<Rightarrow> string list option" where
  "om_keys w m =
     (case om_store m of
        Dict entries index \<Rightarrow> Some (map fst entries)
      | Shaped shape slots \<Rightarrow> global_shape_properties w shape)"

definition om_values :: "'v ordered_map \<Rightarrow> 'v list" where
  "om_values m = (case om_store m of Dict entries index \<Rightarrow> map snd entries | Shaped shape slots \<Rightarrow> slots)"

text \<open>\<open>iter\<close> walks the values and indexes the key list in step, so it panics when it runs past the keys.\<close>

fun iter_shaped :: "string list \<Rightarrow> 'v list \<Rightarrow> nat \<Rightarrow> (string \<times> 'v) list option" where
  "iter_shaped keys [] pos = Some []"
| "iter_shaped keys (v # vals) pos = do {
     k \<leftarrow> vec_get keys pos;
     rest \<leftarrow> iter_shaped keys vals (pos + 1);
     Some ((k, v) # rest) }"

definition om_iter :: "js_world \<Rightarrow> 'v ordered_map \<Rightarrow> (string \<times> 'v) list option" where
  "om_iter w m =
     (case om_store m of
        Dict entries index \<Rightarrow> Some entries
      | Shaped shape slots \<Rightarrow> do { keys \<leftarrow> global_shape_properties w shape; iter_shaped keys slots 0 })"

text \<open>\<open>values_mut\<close> and \<open>iter_mut\<close>, as updates of every value.\<close>

definition om_iter_mut :: "js_world \<Rightarrow> 'v ordered_map \<Rightarrow> (string \<Rightarrow> 'v \<Rightarrow> 'v) \<Rightarrow> 'v ordered_map option" where
  "om_iter_mut w m f =
     (case om_store m of
        Dict entries index \<Rightarrow> Some (m\<lparr>om_store := Dict (map (\<lambda>(k, v). (k, f k v)) entries) index\<rparr>)
      | Shaped shape slots \<Rightarrow> do {
          kvs \<leftarrow> om_iter w m;
          Some (m\<lparr>om_store := Shaped shape (map (\<lambda>(k, v). f k v) kvs)\<rparr>) })"

definition om_values_mut :: "'v ordered_map \<Rightarrow> ('v \<Rightarrow> 'v) \<Rightarrow> 'v ordered_map" where
  "om_values_mut m f =
     (case om_store m of
        Dict entries index \<Rightarrow> m\<lparr>om_store := Dict (map (\<lambda>(k, v). (k, f v)) entries) index\<rparr>
      | Shaped shape slots \<Rightarrow> m\<lparr>om_store := Shaped shape (map f slots)\<rparr>)"

fun om_extend :: "js_world \<Rightarrow> 'v ordered_map \<Rightarrow> (string \<times> 'v) list \<Rightarrow> ('v ordered_map \<times> js_world) option" where
  "om_extend w m [] = Some (m, w)"
| "om_extend w m ((k, v) # kvs) = do { (old, m, w) \<leftarrow> om_insert w m k v; om_extend w m kvs }"

definition om_drain :: "js_world \<Rightarrow> 'v ordered_map \<Rightarrow> ((string \<times> 'v) list \<times> 'v ordered_map \<times> js_world) option" where
  "om_drain w m = do {
     (m, w) \<leftarrow> deopt_to_dict w m;
     let (m, w) = bump_struct_ver w m;
     let m = reset_shape_cache m;
     case om_store m of
       Shaped shape slots \<Rightarrow> None
     | Dict entries index \<Rightarrow> Some (entries, m\<lparr>om_store := Dict [] Map.empty\<rparr>, w)
   }"

definition om_retain ::
  "js_world \<Rightarrow> 'v ordered_map \<Rightarrow> (string \<Rightarrow> 'v \<Rightarrow> bool \<times> 'v) \<Rightarrow> ('v ordered_map \<times> js_world) option" where
  "om_retain w m f = do {
     (m, w) \<leftarrow> deopt_to_dict w m;
     case om_store m of
       Shaped shape slots \<Rightarrow> None
     | Dict entries index \<Rightarrow>
         let kept = map (\<lambda>(k, v). (k, snd (f k v))) (filter (\<lambda>(k, v). fst (f k v)) entries);
             (m, w) = bump_struct_ver w (m\<lparr>om_store := Dict kept (index_of_keys (map fst kept))\<rparr>)
         in Some (reset_shape_cache m, w)
   }"

definition om_from_iter :: "js_world \<Rightarrow> (string \<times> 'v) list \<Rightarrow> ('v ordered_map \<times> js_world) option" where
  "om_from_iter w kvs = (let (m, w) = om_new w in om_extend w m kvs)"

definition om_into_iter :: "js_world \<Rightarrow> 'v ordered_map \<Rightarrow> ((string \<times> 'v) list \<times> js_world) option" where
  "om_into_iter w m = do {
     (m, w) \<leftarrow> deopt_to_dict w m;
     case om_store m of Dict entries index \<Rightarrow> Some (entries, w) | Shaped shape slots \<Rightarrow> None
   }"

section \<open>The property inline cache\<close>

definition IC_POLY_CAP :: nat where "IC_POLY_CAP = 4"

record prop_ic =
  ic_shapes :: "shape_id list"
  ic_slots :: "u32 list"
  ic_len :: nat
  ic_mega :: bool
  p_obj_shape :: u32
  p_obj_proto_slot :: u32
  p_proto_ptr :: u64
  p_proto_shape :: u32
  p_key_slot :: u32

definition ic_invalid :: prop_ic where
  "ic_invalid = \<lparr>ic_shapes = [0, 0, 0, 0], ic_slots = [- 1, - 1, - 1, - 1], ic_len = 0, ic_mega = False,
     p_obj_shape = 0, p_obj_proto_slot = 0, p_proto_ptr = 0, p_proto_shape = 0, p_key_slot = - 1\<rparr>"

definition ic_find :: "prop_ic \<Rightarrow> shape_id \<Rightarrow> nat option" where
  "ic_find ic shape = position (\<lambda>x. x = shape) (take (ic_len ic) (ic_shapes ic))"

definition ic_lookup :: "prop_ic \<Rightarrow> shape_id \<Rightarrow> u32 option" where
  "ic_lookup ic shape =
     (if ic_mega ic then None else map_option (\<lambda>i. ic_slots ic ! i) (ic_find ic shape))"

definition ic_record :: "prop_ic \<Rightarrow> shape_id \<Rightarrow> u32 \<Rightarrow> prop_ic" where
  "ic_record ic shape slot =
     (if shape = DICT_SHAPE then ic
      else if ic_mega ic then ic
      else case ic_find ic shape of
        Some i \<Rightarrow> ic\<lparr>ic_slots := (ic_slots ic)[i := slot]\<rparr>
      | None \<Rightarrow>
          if ic_len ic < IC_POLY_CAP
          then ic\<lparr>ic_shapes := (ic_shapes ic)[ic_len ic := shape], ic_slots := (ic_slots ic)[ic_len ic := slot],
                  ic_len := ic_len ic + 1\<rparr>
          else ic\<lparr>ic_mega := True\<rparr>)"

definition proto_lookup :: "prop_ic \<Rightarrow> shape_id \<Rightarrow> (u32 \<times> u64 \<times> u32 \<times> u32) option" where
  "proto_lookup ic obj_shape =
     (if p_key_slot ic \<noteq> - 1 \<and> p_obj_shape ic = obj_shape
      then Some (p_obj_proto_slot ic, p_proto_ptr ic, p_proto_shape ic, p_key_slot ic) else None)"

definition proto_record :: "prop_ic \<Rightarrow> u32 \<Rightarrow> u32 \<Rightarrow> u64 \<Rightarrow> u32 \<Rightarrow> u32 \<Rightarrow> prop_ic" where
  "proto_record ic obj_shape proto_slot proto_ptr proto_shape key_slot =
     (if obj_shape = DICT_SHAPE \<or> proto_shape = DICT_SHAPE then ic
      else ic\<lparr>p_obj_shape := obj_shape, p_obj_proto_slot := proto_slot, p_proto_ptr := proto_ptr,
              p_proto_shape := proto_shape, p_key_slot := key_slot\<rparr>)"

definition warm_own_entries :: "prop_ic \<Rightarrow> (shape_id \<times> u32) list option" where
  "warm_own_entries ic =
     (if ic_mega ic \<or> ic_len ic = 0 then None
      else let es = take (ic_len ic) (zip (ic_shapes ic) (ic_slots ic))
           in if \<exists>(sh, sl) \<in> set es. sl = - 1 \<or> sh = DICT_SHAPE then None else Some es)"

definition serialize_own :: "prop_ic \<Rightarrow> (shape_id \<times> u32) list \<times> bool" where
  "serialize_own ic = (take (ic_len ic) (zip (ic_shapes ic) (ic_slots ic)), ic_mega ic)"

definition has_feedback :: "prop_ic \<Rightarrow> bool" where
  "has_feedback ic \<longleftrightarrow> ic_len ic > 0 \<or> ic_mega ic"

fun ic_reload :: "(shape_id \<times> u32) list \<Rightarrow> prop_ic \<Rightarrow> prop_ic" where
  "ic_reload [] ic = ic"
| "ic_reload ((sh, sl) # es) ic =
     (if sl = - 1 \<or> sh = DICT_SHAPE then ic_reload es ic
      else if ic_len ic \<ge> IC_POLY_CAP then ic\<lparr>ic_mega := True\<rparr>
      else if ic_find ic sh \<noteq> None then ic_reload es ic
      else ic_reload es (ic\<lparr>ic_shapes := (ic_shapes ic)[ic_len ic := sh], ic_slots := (ic_slots ic)[ic_len ic := sl],
                            ic_len := ic_len ic + 1\<rparr>))"

definition from_serialized_own :: "(shape_id \<times> u32) list \<Rightarrow> bool \<Rightarrow> prop_ic" where
  "from_serialized_own es mega = (if mega then ic_invalid\<lparr>ic_mega := True\<rparr> else ic_reload es ic_invalid)"

fun add_properties :: "js_world \<Rightarrow> shape_id \<Rightarrow> string list \<Rightarrow> (shape_id \<times> js_world) option" where
  "add_properties w s [] = Some (s, w)"
| "add_properties w s (k # ks) = do { (s, w) \<leftarrow> global_add_property w s k; add_properties w s ks }"

definition object_shape_id :: "js_world \<Rightarrow> 'v ordered_map \<Rightarrow> (shape_id \<times> 'v ordered_map \<times> js_world) option" where
  "object_shape_id w ob =
     (case stored_shape_id ob of
        Some stored \<Rightarrow> Some (stored, ob, w)
      | None \<Rightarrow>
          if fst (cached_shape ob) = om_struct_ver ob then Some (snd (cached_shape ob), ob, w)
          else do {
            ks \<leftarrow> om_keys w ob;
            (i, w) \<leftarrow> add_properties w (global_empty_shape w) ks;
            Some (i, set_cached_shape ob (om_struct_ver ob) i, w) })"

text \<open>The own-property read of one \<open>GetProp\<close> site: the cached slot when the shape is known, else the
  hash lookup, whose slot is recorded.\<close>

definition get_own ::
  "js_world \<Rightarrow> prop_ic \<Rightarrow> 'v ordered_map \<Rightarrow> string \<Rightarrow> ('v option \<times> prop_ic \<times> 'v ordered_map \<times> js_world) option" where
  "get_own w ic ob key = do {
     (sid, ob, w) \<leftarrow> object_shape_id w ob;
     case Option.bind (ic_lookup ic sid) (\<lambda>slot. value_at_slot ob (unat slot)) of
       Some v \<Rightarrow> Some (Some v, ic, ob, w)
     | None \<Rightarrow> do {
         r \<leftarrow> om_get w ob key;
         found \<leftarrow> slot_of w ob key;
         case found of
           None \<Rightarrow> Some (r, ic, ob, w)
         | Some slot \<Rightarrow> do {
             (sid, ob, w) \<leftarrow> object_shape_id w ob;
             Some (r, ic_record ic sid (of_nat slot), ob, w) } } }"

section \<open>Own keys in specification order\<close>

fun nat_to_string :: "nat \<Rightarrow> string" where
  "nat_to_string n = (if n < 10 then [char_of (48 + n)] else nat_to_string (n div 10) @ [char_of (48 + n mod 10)])"

declare nat_to_string.simps [simp del]

definition order_keys_v8 :: "string list \<Rightarrow> string list option" where
  "order_keys_v8 keys =
     (if \<exists>k \<in> set keys. is_array_index_key k \<and> parse_u32 k = None then None
      else Some (map nat_to_string (sort (map (the \<circ> parse_u32) (filter is_array_index_key keys)))
                 @ filter (\<lambda>k. \<not> is_array_index_key k) keys))"

end
