(* ===== verification/Shape_Table.thy ===== *)
theory Shape_Table
  imports Ordered "HOL-Library.AList"
begin

text \<open>
  The hidden-class table: positions of keys in a key list, the well-formedness of the table, that
  interning a key only extends it, and that a key sequence has one shape.
\<close>

section \<open>Positions of keys\<close>

definition key_index :: "string list \<Rightarrow> string \<rightharpoonup> nat" where
  "key_index ks k = position (\<lambda>x. x = k) ks"

lemma key_index_None: "key_index ks k = None \<longleftrightarrow> k \<notin> set ks"
  by (auto simp: key_index_def position_None)

lemma key_index_absent [simp]: "k \<notin> set ks \<Longrightarrow> key_index ks k = None"
  by (simp add: key_index_None)

lemma key_index_SomeD: "key_index ks k = Some i \<Longrightarrow> i < length ks \<and> ks ! i = k"
  using position_Some unfolding key_index_def by fast

lemma key_index_Some: "distinct ks \<Longrightarrow> key_index ks k = Some i \<longleftrightarrow> i < length ks \<and> ks ! i = k"
  using key_index_SomeD [of ks k i] position_distinct [of ks i] by (auto simp: key_index_def)

lemma key_index_Cons: "key_index (x # ks) k = (if x = k then Some 0 else map_option Suc (key_index ks k))"
  by (simp add: key_index_def)

lemma key_index_Nil [simp]: "key_index [] = Map.empty"
  by (simp add: key_index_def fun_eq_iff)

lemma key_index_snoc: "k \<notin> set ks \<Longrightarrow> key_index (ks @ [k]) = (key_index ks)(k \<mapsto> length ks)"
proof (induction ks)
  case Nil
  then show ?case by (auto simp: key_index_Cons fun_eq_iff)
next
  case (Cons x ks)
  then show ?case by (auto simp: key_index_Cons fun_eq_iff)
qed

lemma map_of_key_index: "map_of al k = map_option (\<lambda>i. snd (al ! i)) (key_index (map fst al) k)"
proof (induction al)
  case (Cons p al)
  then show ?case by (cases p) (auto simp: key_index_Cons option.map_comp o_def)
qed simp

lemma update_key_index:
  "key_index (map fst al) k = Some i \<Longrightarrow> AList.update k v al = al[i := (k, v)]"
proof (induction al arbitrary: i)
  case (Cons p al)
  then show ?case by (cases p) (auto simp: key_index_Cons split: if_splits)
qed simp

lemma update_new: "k \<notin> fst ` set al \<Longrightarrow> AList.update k v al = al @ [(k, v)]"
  by (induction al) auto

lemma key_index_remove:
  "distinct ks \<Longrightarrow> key_index ks k = Some i \<Longrightarrow>
   (\<lambda>k'. map_option (\<lambda>j. if j > i then j - 1 else j) (((key_index ks)(k := None)) k')) = key_index (vec_remove i ks)"
proof (induction ks arbitrary: i)
  case (Cons x ks)
  show ?case
  proof (cases "x = k")
    case True
    then have "i = 0" using Cons.prems(2) by (simp add: key_index_Cons)
    moreover have "k \<notin> set ks" using Cons.prems(1) True by simp
    ultimately show ?thesis using True
      by (auto simp: key_index_Cons vec_remove_def fun_eq_iff option.map_comp o_def option.map_ident)
  next
    case False
    then obtain j where j: "key_index ks k = Some j" "i = Suc j"
      using Cons.prems(2) by (auto simp: key_index_Cons)
    have ih: "key_index (vec_remove j ks) k' =
        map_option (\<lambda>n. if n > j then n - 1 else n) (((key_index ks)(k := None)) k')" for k'
      using Cons.IH [OF _ j(1)] Cons.prems(1) by (simp add: fun_eq_iff)
    have "key_index (vec_remove i (x # ks)) k' =
        map_option (\<lambda>n. if n > i then n - 1 else n) (((key_index (x # ks))(k := None)) k')" for k'
    proof -
      have "key_index (vec_remove i (x # ks)) k' = (if x = k' then Some 0 else map_option Suc (key_index (vec_remove j ks) k'))"
        by (simp add: j(2) vec_remove_def key_index_Cons)
      then show ?thesis unfolding ih using False j(2)
        by (cases "key_index ks k'") (auto simp: key_index_Cons)
    qed
    then show ?thesis by (simp add: fun_eq_iff)
  qed
qed simp

lemma index_of_keys_fold:
  "distinct ks \<Longrightarrow> fold (\<lambda>(i, k) index. index(k \<mapsto> i)) (enumerate n ks) m =
     (\<lambda>k. case key_index ks k of Some i \<Rightarrow> Some (n + i) | None \<Rightarrow> m k)"
proof (induction ks arbitrary: n m)
  case (Cons x ks)
  then show ?case
    by (auto simp: key_index_Cons fun_eq_iff split: option.splits)
qed (simp add: fun_eq_iff)

lemma index_of_keys: "distinct ks \<Longrightarrow> index_of_keys ks = key_index ks"
  by (simp add: index_of_keys_def index_of_keys_fold fun_eq_iff split: option.splits)

lemma delete_vec_remove:
  "distinct (map fst al) \<Longrightarrow> key_index (map fst al) k = Some i \<Longrightarrow> AList.delete k al = vec_remove i al"
proof (induction al arbitrary: i)
  case (Cons p al)
  show ?case
  proof (cases "fst p = k")
    case True
    then have "k \<notin> fst ` set al" using Cons.prems(1) by auto
    then show ?thesis using True Cons.prems(2)
      by (force simp: key_index_Cons vec_remove_def AList.delete_eq filter_id_conv)
  next
    case False
    then obtain j where "key_index (map fst al) k = Some j" "i = Suc j"
      using Cons.prems(2) by (auto simp: key_index_Cons)
    then show ?thesis using Cons.IH [of j] Cons.prems(1) False
      by (auto simp: AList.delete_eq vec_remove_def)
  qed
qed simp

section \<open>The shape table\<close>

definition props_at :: "shape_table \<Rightarrow> nat \<Rightarrow> string list" where
  "props_at t i = sh_properties (st_shapes t ! i)"

definition trans_at :: "shape_table \<Rightarrow> nat \<Rightarrow> string \<rightharpoonup> shape_id" where
  "trans_at t i = sh_transitions (st_shapes t ! i)"

definition shape_ok :: "shape_table \<Rightarrow> nat \<Rightarrow> bool" where
  "shape_ok t i \<longleftrightarrow> sh_id (st_shapes t ! i) = of_nat i \<and> distinct (props_at t i) \<and>
     sh_index (st_shapes t ! i) = key_index (props_at t i) \<and>
     (\<forall>k j. trans_at t i k = Some j \<longrightarrow> unat j < table_len t \<and> props_at t (unat j) = props_at t i @ [k]) \<and>
     (\<forall>ks k. props_at t i = ks @ [k] \<longrightarrow> (\<exists>p < table_len t. props_at t p = ks \<and> trans_at t p k = Some (of_nat i)))"

definition table_ok :: "shape_table \<Rightarrow> bool" where
  "table_ok t \<longleftrightarrow> st_empty_id t = 0 \<and> 0 < table_len t \<and> table_len t \<le> 4294967296 \<and>
     (\<forall>i < table_len t. props_at t i = [] \<longleftrightarrow> i = 0) \<and> (\<forall>i < table_len t. shape_ok t i)"

definition table_extends :: "shape_table \<Rightarrow> shape_table \<Rightarrow> bool" where
  "table_extends t t' \<longleftrightarrow> table_len t \<le> table_len t' \<and> (\<forall>i < table_len t. props_at t' i = props_at t i)"

lemma table_extends_refl [simp]: "table_extends t t"
  by (simp add: table_extends_def)

lemma table_extends_trans: "table_extends t t' \<Longrightarrow> table_extends t' t'' \<Longrightarrow> table_extends t t''"
  by (auto simp: table_extends_def)

lemma table_new_ok: "table_ok table_new"
  by (simp add: table_ok_def table_new_def table_len_def shape_ok_def props_at_def trans_at_def shape_empty_def)

lemma table_shape_known: "unat i < table_len t \<Longrightarrow> table_shape t i = Some (st_shapes t ! unat i)"
  by (simp add: table_shape_def vec_get_def table_len_def)

lemma shapes_interned:
  assumes t: "table_ok t"
  shows "i < table_len t \<Longrightarrow> j < table_len t \<Longrightarrow> props_at t i = props_at t j \<Longrightarrow> i = j"
proof (induction "props_at t i" arbitrary: i j rule: rev_induct)
  case Nil
  have nil: "props_at t x = [] \<Longrightarrow> x < table_len t \<Longrightarrow> x = 0" for x
    using t unfolding table_ok_def by blast
  have "i = 0" using nil Nil.hyps [symmetric] Nil.prems(1) by blast
  moreover have "j = 0" using nil Nil.hyps Nil.prems(2,3) by simp
  ultimately show ?case by simp
next
  case (snoc k ks)
  have sh: "\<forall>i < table_len t. shape_ok t i" and len: "table_len t \<le> 4294967296" using t by (auto simp: table_ok_def)
  obtain p where p: "p < table_len t" "props_at t p = ks" "trans_at t p k = Some (of_nat i)"
    using sh snoc.prems(1) snoc.hyps(2) [symmetric] unfolding shape_ok_def by blast
  have "props_at t j = ks @ [k]" using snoc.hyps(2) snoc.prems(3) by simp
  then obtain q where q: "q < table_len t" "props_at t q = ks" "trans_at t q k = Some (of_nat j)"
    using sh snoc.prems(2) unfolding shape_ok_def by blast
  have "p = q" using snoc.hyps(1) [of p q] p q by simp
  then have "(of_nat i :: u32) = of_nat j" using p(3) q(3) by simp
  then have "unat (of_nat i :: u32) = unat (of_nat j :: u32)" by simp
  then show ?case using snoc.prems(1,2) len by (simp add: unat_of_nat_u32)
qed

text \<open>The table after a new transition: shape \<open>i\<close> gets an edge for \<open>k\<close> to a child that is appended.\<close>

definition add_child :: "shape_table \<Rightarrow> nat \<Rightarrow> string \<Rightarrow> shape_table" where
  "add_child t i k =
     (let s = st_shapes t ! i;
          child = \<lparr>sh_id = of_nat (table_len t), sh_properties = sh_properties s @ [k],
                   sh_index = (sh_index s)(k \<mapsto> length (sh_properties s)), sh_transitions = Map.empty\<rparr>
      in t\<lparr>st_shapes := (st_shapes t @ [child])[i := s\<lparr>sh_transitions := (sh_transitions s)(k \<mapsto> of_nat (table_len t))\<rparr>]\<rparr>)"

lemma add_child_at:
  assumes "i < table_len t"
  shows "table_len (add_child t i k) = Suc (table_len t)"
    and "x < Suc (table_len t) \<Longrightarrow> props_at (add_child t i k) x = (if x = table_len t then props_at t i @ [k] else props_at t x)"
    and "x < Suc (table_len t) \<Longrightarrow> trans_at (add_child t i k) x =
      (if x = table_len t then Map.empty else if x = i then (trans_at t x)(k \<mapsto> of_nat (table_len t)) else trans_at t x)"
    and "x < Suc (table_len t) \<Longrightarrow> sh_index (st_shapes (add_child t i k) ! x) =
      (if x = table_len t then (sh_index (st_shapes t ! i))(k \<mapsto> length (props_at t i)) else sh_index (st_shapes t ! x))"
    and "x < Suc (table_len t) \<Longrightarrow> sh_id (st_shapes (add_child t i k) ! x) =
      (if x = table_len t then of_nat (table_len t) else sh_id (st_shapes t ! x))"
  using assms
  by (auto simp: add_child_def Let_def table_len_def props_at_def trans_at_def nth_append nth_list_update)

lemma add_child_new_ok:
  assumes "i < table_len t" "shape_ok t i" "k \<notin> set (props_at t i)"
  shows "shape_ok (add_child t i k) (table_len t)"
proof -
  note at = add_child_at [OF assms(1), where k = k]
  have "key_index (props_at t i @ [k]) = (sh_index (st_shapes t ! i))(k \<mapsto> length (props_at t i))"
    using assms(2,3) by (simp add: key_index_snoc shape_ok_def)
  moreover have "distinct (props_at t i @ [k])" using assms(2,3) by (simp add: shape_ok_def)
  moreover have "\<exists>p < Suc (table_len t). props_at (add_child t i k) p = ks \<and> trans_at (add_child t i k) p k' = Some (of_nat (table_len t))"
    if "props_at (add_child t i k) (table_len t) = ks @ [k']" for ks k'
  proof -
    have "ks = props_at t i" "k' = k" using that by (auto simp: at(2))
    then show ?thesis using assms(1) at(2,3) [of i] by (intro exI [of _ i]) simp
  qed
  ultimately show ?thesis unfolding shape_ok_def at(1) using at(2-5) [of "table_len t"] by simp
qed

lemma add_child_old_ok:
  assumes i: "i < table_len t" and ok: "shape_ok t x" "x < table_len t" and fresh: "trans_at t i k = None"
    and room: "table_len t < 4294967296"
  shows "shape_ok (add_child t i k) x"
proof -
  define n where "n = table_len t"
  note at = add_child_at [OF i, where k = k, folded n_def]
  have x: "x < n" "x < Suc n" "x \<noteq> n" using ok(2) by (simp_all add: n_def)
  have "unat j < Suc n \<and> props_at (add_child t i k) (unat j) = props_at (add_child t i k) x @ [k']"
    if "trans_at (add_child t i k) x k' = Some j" for k' j
  proof (cases "x = i \<and> k' = k")
    case True
    then have "j = of_nat n" using that x at(3) [of x] by simp
    then have "unat j = n" using room by (simp add: n_def unat_of_nat_u32)
    then show ?thesis using True at(2) [of n] at(2) [of x] x by simp
  next
    case False
    then have "trans_at t x k' = Some j" using that at(3) [of x] x by (auto split: if_splits)
    then have "unat j < n" "props_at t (unat j) = props_at t x @ [k']"
      using ok(1) by (auto simp: shape_ok_def n_def)
    then show ?thesis using at(2) [of x] at(2) [of "unat j"] x by simp
  qed
  moreover have "\<exists>p < Suc n. props_at (add_child t i k) p = ks \<and> trans_at (add_child t i k) p k' = Some (of_nat x)"
    if "props_at (add_child t i k) x = ks @ [k']" for ks k'
  proof -
    have "props_at t x = ks @ [k']" using that at(2) [of x] x by simp
    then obtain p where p: "p < n" "props_at t p = ks" "trans_at t p k' = Some (of_nat x)"
      using ok(1) unfolding shape_ok_def n_def by blast
    have "\<not> (p = i \<and> k' = k)" using p(3) fresh by auto
    then have "trans_at (add_child t i k) p k' = Some (of_nat x)" using p(1,3) at(3) [of p] by auto
    then show ?thesis using p at(2) [of p] by (intro exI [of _ p]) simp
  qed
  ultimately show ?thesis using ok(1) x at(2) [of x] at(4,5) [of x]
    unfolding shape_ok_def at(1) by simp
qed

lemma add_child_ok:
  assumes t: "table_ok t" "i < table_len t" "k \<notin> set (props_at t i)" "trans_at t i k = None" "table_len t < 4294967296"
  shows "table_ok (add_child t i k)" "table_extends t (add_child t i k)"
proof -
  note at = add_child_at [OF t(2), where k = k]
  have "shape_ok (add_child t i k) x" if "x < Suc (table_len t)" for x
    using that add_child_new_ok [OF t(2) _ t(3)] add_child_old_ok [OF t(2) _ _ t(4,5)] t(1,2)
    by (cases "x = table_len t") (auto simp: table_ok_def)
  moreover have "props_at (add_child t i k) x = [] \<longleftrightarrow> x = 0" if "x < Suc (table_len t)" for x
    using that t(1,2) at(2) [of x] by (auto simp: table_ok_def)
  moreover have "st_empty_id (add_child t i k) = 0" using t(1) by (simp add: add_child_def table_ok_def Let_def)
  ultimately show "table_ok (add_child t i k)" using t(5) by (simp add: table_ok_def at(1))
  show "table_extends t (add_child t i k)" using at(1,2) by (simp add: table_extends_def)
qed

text \<open>\<open>add_property\<close> of a new key, when the table has room for one more shape.\<close>

lemma add_property_new:
  assumes t: "table_ok t" and i: "unat i < table_len t" and k: "k \<notin> set (props_at t (unat i))"
    and room: "table_len t < 4294967296"
  shows "\<exists>j t'. add_property t i k = Some (j, t') \<and> table_ok t' \<and> table_extends t t' \<and>
    unat j < table_len t' \<and> props_at t' (unat j) = props_at t (unat i) @ [k] \<and> table_len t' \<le> table_len t + 1"
proof -
  have ok: "shape_ok t (unat i)" using t i by (simp add: table_ok_def)
  have idx: "sh_index (st_shapes t ! unat i) k = None" using ok k by (simp add: shape_ok_def)
  show ?thesis
  proof (cases "trans_at t (unat i) k")
    case (Some j)
    then have "unat j < table_len t" "props_at t (unat j) = props_at t (unat i) @ [k]"
      using ok by (auto simp: shape_ok_def)
    moreover have "add_property t i k = Some (j, t)"
      using i idx Some by (simp add: add_property_def table_shape_known trans_at_def)
    ultimately show ?thesis using t by auto
  next
    case None
    have "add_property t i k = Some (of_nat (table_len t), add_child t (unat i) k)"
      using i idx None
      by (simp add: add_property_def table_shape_known add_child_def trans_at_def table_len_def nth_append Let_def)
    moreover have "unat (of_nat (table_len t) :: u32) = table_len t" using room by (simp add: unat_of_nat_u32)
    ultimately show ?thesis
      using add_child_ok [OF t i k None room] add_child_at(1) [OF i, of k] add_child_at(2) [OF i, of "table_len t" k] by simp
  qed
qed

end
