(* ===== verification/Ordered_Map.thy ===== *)
theory Ordered_Map
  imports Shape_Table
begin

text \<open>
  The ordered map implements an association list with distinct keys: for every operation, in both
  storage modes, that it returns, has the effect of the list operation and stays within the given
  room of the shape table and the version counter.
\<close>

section \<open>The world\<close>

definition world_ok :: "js_world \<Rightarrow> bool" where
  "world_ok w \<longleftrightarrow> table_ok (w_table w) \<and> 0 < unat (w_next_ver w)"

text \<open>\<open>room w n\<close>: the world can still intern \<open>n\<close> shapes below the two reserved identifiers, and draw
  \<open>n\<close> versions before the counter wraps.\<close>

definition room :: "js_world \<Rightarrow> nat \<Rightarrow> bool" where
  "room w n \<longleftrightarrow> table_len (w_table w) + n \<le> 4294967294 \<and> unat (w_next_ver w) + n < 2 ^ 64"

definition world_grows :: "js_world \<Rightarrow> js_world \<Rightarrow> nat \<Rightarrow> bool" where
  "world_grows w w' n \<longleftrightarrow> world_ok w' \<and> table_extends (w_table w) (w_table w') \<and>
     table_len (w_table w') \<le> table_len (w_table w) + n \<and>
     unat (w_next_ver w) \<le> unat (w_next_ver w') \<and> unat (w_next_ver w') \<le> unat (w_next_ver w) + n \<and>
     w_shaped w' = w_shaped w"

definition known :: "js_world \<Rightarrow> shape_id \<Rightarrow> string list \<Rightarrow> bool" where
  "known w s ks \<longleftrightarrow> unat s < table_len (w_table w) \<and> props_at (w_table w) (unat s) = ks"

lemma world_grows_refl [simp]: "world_grows w w n \<longleftrightarrow> world_ok w"
  by (simp add: world_grows_def)

lemma world_grows_trans: "world_grows w w' m \<Longrightarrow> world_grows w' w'' n \<Longrightarrow> world_grows w w'' (m + n)"
  by (auto simp: world_grows_def intro: table_extends_trans)

lemma world_grows_mono: "world_grows w w' m \<Longrightarrow> m \<le> n \<Longrightarrow> world_grows w w' n"
  by (auto simp: world_grows_def)

lemma world_grows_ok: "world_grows w w' n \<Longrightarrow> world_ok w'"
  by (simp add: world_grows_def)

lemma world_grows_room: "world_grows w w' m \<Longrightarrow> room w (m + n) \<Longrightarrow> room w' n"
  by (auto simp: world_grows_def room_def)

lemma room_mono: "room w n \<Longrightarrow> m \<le> n \<Longrightarrow> room w m"
  by (auto simp: room_def)

lemma room_one: "world_grows w w' 1 \<Longrightarrow> room w n \<Longrightarrow> 2 \<le> n \<Longrightarrow> room w' 1"
  by (auto simp: world_grows_def room_def)

lemma known_grows: "known w s ks \<Longrightarrow> world_grows w w' n \<Longrightarrow> known w' s ks"
  by (auto simp: known_def world_grows_def table_extends_def)

lemma known_unique: "known w s ks \<Longrightarrow> known w s ks' \<Longrightarrow> ks = ks'"
  by (simp add: known_def)

lemma known_distinct: "known w s ks \<Longrightarrow> world_ok w \<Longrightarrow> distinct ks"
  by (auto simp: known_def world_ok_def table_ok_def shape_ok_def)

lemma known_empty: "world_ok w \<Longrightarrow> known w (global_empty_shape w) []"
  by (simp add: known_def world_ok_def global_empty_shape_def table_ok_def)

lemma known_not_reserved:
  assumes "known w s ks" "room w n"
  shows "s \<noteq> DICT_SHAPE" "s \<noteq> BORN_DICT_SHAPE"
proof -
  have less: "unat s < 4294967294" using assms by (simp add: known_def room_def)
  have "unat (- 1 :: u32) = 4294967295" by (simp add: unsigned_minus_1_eq_mask mask_eq_exp_minus_1)
  moreover have "unat (- 1 - 1 :: u32) = 4294967294" by (simp add: unat_word_ariths)
  ultimately show "s \<noteq> DICT_SHAPE" "s \<noteq> BORN_DICT_SHAPE" using less by (auto simp: DICT_SHAPE_def BORN_DICT_SHAPE_def)
qed

lemma shape_lookup_known: "known w s ks \<Longrightarrow> world_ok w \<Longrightarrow> global_shape_lookup w s k = Some (key_index ks k)"
  by (auto simp: known_def global_shape_lookup_def table_shape_known shape_lookup_def world_ok_def table_ok_def shape_ok_def)

lemma shape_properties_known: "known w s ks \<Longrightarrow> global_shape_properties w s = Some ks"
  by (auto simp: known_def global_shape_properties_def table_shape_known props_at_def)

lemma add_property_grows:
  assumes "world_ok w" "known w s ks" "k \<notin> set ks" "room w n" "1 \<le> n"
  shows "\<exists>s' w'. global_add_property w s k = Some (s', w') \<and> world_grows w w' 1 \<and> known w' s' (ks @ [k])"
proof -
  have "table_len (w_table w) < 4294967296" using assms(4,5) by (simp add: room_def)
  then obtain s' t' where "add_property (w_table w) s k = Some (s', t')" "table_ok t'" "table_extends (w_table w) t'"
    "unat s' < table_len t'" "props_at t' (unat s') = ks @ [k]" "table_len t' \<le> table_len (w_table w) + 1"
    using add_property_new [of "w_table w" s k] assms(1-3) by (auto simp: world_ok_def known_def)
  then show ?thesis using assms(1) by (simp add: global_add_property_def world_grows_def world_ok_def known_def)
qed

lemma fresh_ver_grows:
  assumes "world_ok w" "room w n" "1 \<le> n"
  shows "\<exists>w'. fresh_struct_ver w = (w_next_ver w, w') \<and> world_grows w w' 1 \<and> w_table w' = w_table w \<and>
    unat (w_next_ver w') = Suc (unat (w_next_ver w))"
proof -
  have "w_next_ver w \<noteq> - 1" using assms(2,3) by (auto simp: room_def unsigned_minus_1_eq_mask mask_eq_exp_minus_1)
  then have "unat (w_next_ver w + 1) = Suc (unat (w_next_ver w))" by (rule word_Suc_not_max)
  then show ?thesis using assms(1) by (simp add: fresh_struct_ver_def world_grows_def world_ok_def)
qed

section \<open>The map represents an association list\<close>

definition store_rel :: "js_world \<Rightarrow> 'v store \<Rightarrow> shape_id \<Rightarrow> (string \<times> 'v) list \<Rightarrow> bool" where
  "store_rel w st header al \<longleftrightarrow> distinct (map fst al) \<and>
     (case st of
        Shaped s slots \<Rightarrow> known w s (map fst al) \<and> slots = map snd al \<and> header = s
      | Dict es index \<Rightarrow> es = al \<and> index = key_index (map fst al) \<and> header \<in> {DICT_SHAPE, BORN_DICT_SHAPE})"

definition cache_rel :: "js_world \<Rightarrow> u64 \<Rightarrow> shape_cache \<Rightarrow> string list \<Rightarrow> bool" where
  "cache_rel w ver c ks \<longleftrightarrow> 0 < unat ver \<and> unat ver < unat (w_next_ver w) \<and> unat (sc_ver c) < unat (w_next_ver w) \<and>
     (sc_ver c = ver \<longrightarrow> known w (sc_shape c) ks)"

definition om_rel :: "js_world \<Rightarrow> 'v ordered_map \<Rightarrow> (string \<times> 'v) list \<Rightarrow> bool" where
  "om_rel w m al \<longleftrightarrow> store_rel w (om_store m) (sc_header (om_cache m)) al \<and>
     cache_rel w (om_struct_ver m) (om_cache m) (map fst al)"

lemma om_rel_cases:
  assumes "om_rel w m al"
  obtains (shaped) s where "om_store m = Shaped s (map snd al)" "known w s (map fst al)" "sc_header (om_cache m) = s"
    | (dict) "om_store m = Dict al (key_index (map fst al))" "sc_header (om_cache m) \<in> {DICT_SHAPE, BORN_DICT_SHAPE}"
  using assms by (cases "om_store m") (auto simp: om_rel_def store_rel_def)

lemma om_rel_distinct: "om_rel w m al \<Longrightarrow> distinct (map fst al)"
  by (simp add: om_rel_def store_rel_def)

lemma om_rel_grows: "om_rel w m al \<Longrightarrow> world_grows w w' n \<Longrightarrow> om_rel w' m al"
  unfolding om_rel_def store_rel_def cache_rel_def
  by (auto simp: known_grows split: store.splits) (auto simp: world_grows_def)

text \<open>A change of the keys is followed by a new version, which no cache entry carries.\<close>

lemma bump_rel:
  assumes w: "world_ok w" "room w n" "1 \<le> n"
    and st: "store_rel w (om_store m) (sc_header (om_cache m)) al"
    and ver: "unat (sc_ver (om_cache m)) < unat (w_next_ver w)"
  shows "\<exists>m' w'. bump_struct_ver w m = (m', w') \<and> om_rel w' m' al \<and> world_grows w w' 1 \<and>
    om_store m' = om_store m \<and> om_cache m' = om_cache m"
proof -
  obtain w' where w': "fresh_struct_ver w = (w_next_ver w, w')" "world_grows w w' 1" "w_table w' = w_table w"
    "unat (w_next_ver w') = Suc (unat (w_next_ver w))"
    using fresh_ver_grows [OF w] by blast
  have "store_rel w' st h al = store_rel w st h al" for st :: "'a store" and h
    by (simp add: store_rel_def known_def w'(3) split: store.splits)
  then show ?thesis using w(1) w' st ver
    by (auto simp: bump_struct_ver_def om_rel_def cache_rel_def world_ok_def)
qed

lemma bump_store:
  assumes w: "world_ok w" "room w n" "1 \<le> n" and m: "om_rel w m al"
    and st: "store_rel w st (sc_header (om_cache m)) al'"
  obtains m' w' where "bump_struct_ver w (m\<lparr>om_store := st\<rparr>) = (m', w')" "om_rel w' m' al'" "world_grows w w' 1"
    "om_store m' = st" "om_cache m' = om_cache m"
proof -
  have "store_rel w (om_store (m\<lparr>om_store := st\<rparr>)) (sc_header (om_cache (m\<lparr>om_store := st\<rparr>))) al'" using st by simp
  moreover have "unat (sc_ver (om_cache (m\<lparr>om_store := st\<rparr>))) < unat (w_next_ver w)"
    using m by (simp add: om_rel_def cache_rel_def)
  ultimately obtain m' w' where "bump_struct_ver w (m\<lparr>om_store := st\<rparr>) = (m', w')" "om_rel w' m' al'" "world_grows w w' 1"
    "om_store m' = om_store (m\<lparr>om_store := st\<rparr>)" "om_cache m' = om_cache (m\<lparr>om_store := st\<rparr>)"
    using bump_rel [OF w] by blast
  then show thesis by (intro that [of m' w']) simp_all
qed

lemma reset_rel: "om_rel w m al \<Longrightarrow> om_rel w (reset_shape_cache m) al"
  by (auto simp: om_rel_def reset_shape_cache_def cache_rel_def)

lemma om_rel_ver: "om_rel w m al \<Longrightarrow> unat (sc_ver (om_cache m)) < unat (w_next_ver w)"
  by (simp add: om_rel_def cache_rel_def)

lemma om_update_order: "m\<lparr>om_store := st, om_cache := c\<rparr> = m\<lparr>om_cache := c, om_store := st\<rparr>"
  by simp

text \<open>A change of values only.\<close>

lemma om_rel_values:
  "om_rel w m al \<Longrightarrow> map fst al' = map fst al \<Longrightarrow> store_rel w st (sc_header (om_cache m)) al' \<Longrightarrow>
   om_rel w (m\<lparr>om_store := st\<rparr>) al'"
  by (simp add: om_rel_def)

section \<open>Operations\<close>

definition yields :: "js_world \<Rightarrow> nat \<Rightarrow> ('o \<times> 'v ordered_map \<times> js_world) option \<Rightarrow> 'o \<Rightarrow> (string \<times> 'v) list \<Rightarrow> bool" where
  "yields w n r x al \<longleftrightarrow> (\<exists>m' w'. r = Some (x, m', w') \<and> om_rel w' m' al \<and> world_grows w w' n)"

lemma yieldsI: "r = Some (x, m', w') \<Longrightarrow> om_rel w' m' al \<Longrightarrow> world_grows w w' n \<Longrightarrow> yields w n r x al"
  by (auto simp: yields_def)

lemma yields_mono: "yields w n r x al \<Longrightarrow> n \<le> n' \<Longrightarrow> yields w n' r x al"
  unfolding yields_def by (blast intro: world_grows_mono)

lemma yields_after: "world_grows w w' n \<Longrightarrow> yields w' n' r x al \<Longrightarrow> yields w (n + n') r x al"
  unfolding yields_def by (blast intro: world_grows_trans)

lemma deopt_rel:
  assumes w: "world_ok w" "room w n" "1 \<le> n" and m: "om_rel w m al"
  shows "\<exists>m' w'. deopt_to_dict w m = Some (m', w') \<and> om_rel w' m' al \<and> world_grows w w' 1 \<and>
    om_store m' = Dict al (key_index (map fst al))"
  using m
proof (cases rule: om_rel_cases)
  case (shaped s)
  have d: "distinct (map fst al)" using m by (rule om_rel_distinct)
  define m1 where "m1 = m\<lparr>om_store := Dict al (key_index (map fst al))\<rparr>"
  obtain w' where w': "fresh_struct_ver w = (w_next_ver w, w')" "world_grows w w' 1" "w_table w' = w_table w"
    "unat (w_next_ver w') = Suc (unat (w_next_ver w))"
    using fresh_ver_grows [OF w] by blast
  have "deopt_to_dict w m = Some (mark_deopted (m1\<lparr>om_struct_ver := w_next_ver w\<rparr>), w')"
    using shaped d w'(1)
    by (simp add: deopt_to_dict_def shape_properties_known zip_map_fst_snd index_of_keys bump_struct_ver_def m1_def)
  moreover have "om_rel w' (mark_deopted (m1\<lparr>om_struct_ver := w_next_ver w\<rparr>)) al"
    using d w(1) w'(4)
    by (auto simp: om_rel_def mark_deopted_def m1_def store_rel_def cache_rel_def world_ok_def)
  ultimately show ?thesis using w'(2) by (simp add: mark_deopted_def m1_def)
next
  case dict
  then show ?thesis using w(1) m by (simp add: deopt_to_dict_def)
qed

lemma store_rel_dict:
  "distinct (map fst al) \<Longrightarrow> header \<in> {DICT_SHAPE, BORN_DICT_SHAPE} \<Longrightarrow>
   store_rel w (Dict al (key_index (map fst al))) header al"
  by (simp add: store_rel_def)

lemma dict_header:
  "om_rel w m al \<Longrightarrow> om_store m = Dict es index \<Longrightarrow> sc_header (om_cache m) \<in> {DICT_SHAPE, BORN_DICT_SHAPE}"
  by (auto simp: om_rel_def store_rel_def)

lemma keys_update_in: "k \<in> fst ` set al \<Longrightarrow> map fst (AList.update k v al) = map fst al"
  by (induction al) auto

lemma dict_update_rel:
  assumes m: "om_rel w m al" and d: "om_store m = Dict al (key_index (map fst al))" and i: "key_index (map fst al) k = Some i"
  shows "om_rel w (m\<lparr>om_store := Dict (al[i := (k, v)]) (key_index (map fst al))\<rparr>) (AList.update k v al)"
proof -
  have "i < length al" "fst (al ! i) = k" using key_index_SomeD [OF i] by auto
  then have keys: "map fst (AList.update k v al) = map fst al"
    by (intro keys_update_in) (metis image_eqI nth_mem)
  show ?thesis
    using store_rel_dict [of "AList.update k v al" "sc_header (om_cache m)" w] om_rel_distinct [OF m] dict_header [OF m d]
    unfolding keys update_key_index [OF i, symmetric] by (intro om_rel_values [OF m keys]) simp
qed

lemma dict_insert_rel:
  assumes w: "world_ok w" "room w n" "1 \<le> n" and m: "om_rel w m al"
    and d: "om_store m = Dict al (key_index (map fst al))"
  shows "yields w 1 (dict_insert w m k v) (map_of al k) (AList.update k v al)"
proof (cases "key_index (map fst al) k")
  case (Some i)
  then have i: "i < length al" "fst (al ! i) = k" using key_index_SomeD [OF Some] by auto
  have "dict_insert w m k v =
      Some (map_of al k, m\<lparr>om_store := Dict (al[i := (k, v)]) (key_index (map fst al))\<rparr>, w)"
    using i Some by (simp add: dict_insert_def d vec_get_def map_of_key_index)
  then show ?thesis using dict_update_rel [OF m d Some, of v] w(1) by (intro yieldsI) auto
next
  case None
  then have new: "k \<notin> fst ` set al" by (simp add: key_index_None)
  have "key_index (map fst (al @ [(k, v)])) = (key_index (map fst al))(k \<mapsto> length al)"
    using key_index_snoc [of k "map fst al"] new by simp
  then have "store_rel w (Dict (al @ [(k, v)]) ((key_index (map fst al))(k \<mapsto> length al))) (sc_header (om_cache m)) (al @ [(k, v)])"
    using store_rel_dict [of "al @ [(k, v)]" "sc_header (om_cache m)" w] om_rel_distinct [OF m] dict_header [OF m d] new
    by simp
  then obtain m' w' where b: "bump_struct_ver w (m\<lparr>om_store := Dict (al @ [(k, v)]) ((key_index (map fst al))(k \<mapsto> length al))\<rparr>) = (m', w')"
      "om_rel w' m' (al @ [(k, v)])" "world_grows w w' 1"
    by (rule bump_store [OF w m])
  have "dict_insert w m k v = Some (map_of al k, m', w')"
    using None b(1) by (simp add: dict_insert_def d map_of_key_index)
  then show ?thesis using b(2,3) new by (intro yieldsI) (simp_all add: update_new)
qed

lemma store_rel_shaped:
  "distinct (map fst al) \<Longrightarrow> known w s (map fst al) \<Longrightarrow> slots = map snd al \<Longrightarrow> store_rel w (Shaped s slots) s al"
  by (simp add: store_rel_def)

text \<open>The slot of a key on a shaped store: known, freshly added, or the store fell back to a dictionary.\<close>

lemma intern_rel:
  assumes w: "world_ok w" "room w n" "2 \<le> n" and m: "om_rel w m al"
    and s: "om_store m = Shaped s (map snd al)" "known w s (map fst al)"
  obtains (deopt) m' w' where "shaped_intern_slot w m k = Some (Deopted, m', w')" "om_rel w' m' al" "world_grows w w' 1"
      "om_store m' = Dict al (key_index (map fst al))"
    | (old) i where "shaped_intern_slot w m k = Some (Slot i, m, w)" "key_index (map fst al) k = Some i"
    | (new) s' w' where "shaped_intern_slot w m k =
        Some (Slot (length al), m\<lparr>om_store := Shaped s' (map snd al), om_cache := (om_cache m)\<lparr>sc_header := s'\<rparr>\<rparr>, w')"
      "k \<notin> fst ` set al" "world_grows w w' 1" "known w' s' (map fst al @ [k])"
proof -
  obtain m1 w1 where d: "deopt_to_dict w m = Some (m1, w1)" "om_rel w1 m1 al" "world_grows w w1 1"
    "om_store m1 = Dict al (key_index (map fst al))"
    using deopt_rel [OF w(1,2) _ m] w(3) by auto
  have look: "global_shape_lookup w s k = Some (key_index (map fst al) k)" using shape_lookup_known [OF s(2) w(1)] .
  consider "string_key_forces_deopt k" | i where "\<not> string_key_forces_deopt k" "key_index (map fst al) k = Some i"
    | "\<not> string_key_forces_deopt k" "k \<notin> fst ` set al" "length al + 1 > SHAPED_SLOT_CAP"
    | "\<not> string_key_forces_deopt k" "k \<notin> fst ` set al" "\<not> length al + 1 > SHAPED_SLOT_CAP"
    by (cases "key_index (map fst al) k") (auto simp: key_index_None)
  then show thesis
  proof cases
    case 1
    then show thesis using d by (intro deopt [of m1 w1]) (simp_all add: shaped_intern_slot_def)
  next
    case (2 i)
    then show thesis using look by (intro old [of i]) (simp_all add: shaped_intern_slot_def s(1))
  next
    case 3
    then show thesis using d look by (intro deopt [of m1 w1]) (simp_all add: shaped_intern_slot_def s(1))
  next
    case 4
    obtain s' w' where a: "global_add_property w s k = Some (s', w')" "world_grows w w' 1" "known w' s' (map fst al @ [k])"
      using add_property_grows [OF w(1) s(2), of k n] 4 w(2,3) by auto
    show thesis using 4 look a by (intro new [of s' w']) (simp_all add: shaped_intern_slot_def s(1) mirror_shape_header_def)
  qed
qed


text \<open>Appending the value of a freshly interned key.\<close>

lemma push_rel:
  assumes w: "world_ok w'" "room w' n" "1 \<le> n" and m: "om_rel w m al" and g: "world_grows w w' l"
    and k: "k \<notin> fst ` set al" "known w' s' (map fst al @ [k])"
  obtains m' w'' where "bump_struct_ver w' (m\<lparr>om_store := Shaped s' (map snd al @ [v]), om_cache := (om_cache m)\<lparr>sc_header := s'\<rparr>\<rparr>) = (m', w'')"
    "om_rel w'' m' (al @ [(k, v)])" "world_grows w' w'' 1" "om_store m' = Shaped s' (map snd al @ [v])"
proof -
  let ?m = "m\<lparr>om_store := Shaped s' (map snd al @ [v]), om_cache := (om_cache m)\<lparr>sc_header := s'\<rparr>\<rparr>"
  have "store_rel w' (om_store ?m) (sc_header (om_cache ?m)) (al @ [(k, v)])"
    using k om_rel_distinct [OF m] by (simp add: store_rel_def)
  moreover have "unat (sc_ver (om_cache ?m)) < unat (w_next_ver w')"
    using om_rel_ver [OF om_rel_grows [OF m g]] by simp
  ultimately obtain m' w'' where "bump_struct_ver w' ?m = (m', w'')" "om_rel w'' m' (al @ [(k, v)])" "world_grows w' w'' 1"
    "om_store m' = om_store ?m"
    using bump_rel [OF w] by blast
  then show thesis by (intro that [of m' w'']) simp_all
qed

lemma shaped_update_rel:
  assumes m: "om_rel w m al" and s: "om_store m = Shaped s (map snd al)" and i: "key_index (map fst al) k = Some i"
  shows "om_rel w (m\<lparr>om_store := Shaped s ((map snd al)[i := v])\<rparr>) (AList.update k v al)"
proof -
  have "i < length al" "fst (al ! i) = k" using key_index_SomeD [OF i] by auto
  then have "k \<in> fst ` set al" by (metis image_eqI nth_mem)
  then have keys: "map fst (AList.update k v al) = map fst al" by (rule keys_update_in)
  have vals: "map snd (AList.update k v al) = (map snd al)[i := v]"
    using update_key_index [OF i, of v] by (simp add: map_update)
  show ?thesis using m s keys vals by (intro om_rel_values [OF m keys]) (simp add: om_rel_def store_rel_def)
qed

lemma insert_rel:
  assumes w: "world_ok w" "room w n" "2 \<le> n" and m: "om_rel w m al"
  shows "yields w 2 (om_insert w m k v) (map_of al k) (AList.update k v al)"
  using m
proof (cases rule: om_rel_cases)
  case (shaped s)
  then have sh: "is_shaped m" by (simp add: is_shaped_def)
  from w m shaped(1,2) show ?thesis
  proof (cases rule: intern_rel [where k = k])
    case (deopt m' w')
    have "room w' 1" using room_one [OF deopt(3) w(2,3)] .
    then have "yields w' 1 (dict_insert w' m' k v) (map_of al k) (AList.update k v al)"
      using dict_insert_rel [OF world_grows_ok [OF deopt(3)] _ _ deopt(2,4)] by blast
    from yields_after [OF deopt(3) this] show ?thesis using sh deopt(1) by (simp add: om_insert_def numeral_2_eq_2)
  next
    case (old i)
    have i: "i < length al" "fst (al ! i) = k" using key_index_SomeD [OF old(2)] by auto
    then have "om_insert w m k v = Some (map_of al k, m\<lparr>om_store := Shaped s ((map snd al)[i := v])\<rparr>, w)"
      using sh old shaped(1) by (simp add: om_insert_def map_of_key_index)
    then show ?thesis using shaped_update_rel [OF m shaped(1) old(2), of v] w(1) by (intro yieldsI) auto
  next
    case (new s' w')
    have "room w' 1" using room_one [OF new(3) w(2,3)] .
    then obtain m'' w'' where b: "bump_struct_ver w' (m\<lparr>om_store := Shaped s' (map snd al @ [v]), om_cache := (om_cache m)\<lparr>sc_header := s'\<rparr>\<rparr>) = (m'', w'')"
      "om_rel w'' m'' (al @ [(k, v)])" "world_grows w' w'' 1"
      using push_rel [OF world_grows_ok [OF new(3)] _ _ m new(3,2,4), of 1 v] by blast
    have "map_of al k = None" using new(2) by (simp add: map_of_eq_None_iff)
    then have "om_insert w m k v = Some (map_of al k, m'', w'')"
      using sh new(1) b(1) by (simp add: om_insert_def om_update_order)
    then show ?thesis using b(2) world_grows_trans [OF new(3) b(3)] new(2)
      by (intro yieldsI) (simp_all add: update_new numeral_2_eq_2)
  qed
next
  case dict
  then have "yields w 1 (dict_insert w m k v) (map_of al k) (AList.update k v al)"
    using dict_insert_rel [OF w(1,2) _ m] w(3) by simp
  then show ?thesis using dict by (simp add: om_insert_def is_shaped_def yields_mono)
qed




lemma update_last: "k \<notin> fst ` set al \<Longrightarrow> AList.update k y (al @ [(k, v)]) = al @ [(k, y)]"
  by (induction al) auto

lemma key_index_last: "k \<notin> set ks \<Longrightarrow> key_index (ks @ [k]) k = Some (length ks)"
  by (simp add: key_index_snoc)

lemma dict_get_or_insert_rel:
  assumes w: "world_ok w" "room w n" "1 \<le> n" and m: "om_rel w m al"
    and d: "om_store m = Dict al (key_index (map fst al))"
    and x: "x = (case map_of al k of Some y \<Rightarrow> y | None \<Rightarrow> v)"
  shows "yields w 1 (dict_get_or_insert w m k v g) x (AList.update k (g x) al)"
proof (cases "key_index (map fst al) k")
  case (Some i)
  then have i: "i < length al" "fst (al ! i) = k" using key_index_SomeD [OF Some] by auto
  have "map_of al k = Some (snd (al ! i))" using Some by (simp add: map_of_key_index)
  then have "dict_get_or_insert w m k v g =
      Some (x, m\<lparr>om_store := Dict (al[i := (k, g x)]) (key_index (map fst al))\<rparr>, w)"
    using i Some x by (simp add: dict_get_or_insert_def d vec_get_def)
  then show ?thesis using dict_update_rel [OF m d Some] w(1) by (intro yieldsI) auto
next
  case None
  then have new: "k \<notin> fst ` set al" by (simp add: key_index_None)
  then have xv: "x = v" using x by (simp add: map_of_eq_None_iff [THEN iffD2])
  define al1 where "al1 = al @ [(k, v)]"
  have ki: "key_index (map fst al1) = (key_index (map fst al))(k \<mapsto> length al)"
    using key_index_snoc [of k "map fst al"] new by (simp add: al1_def)
  have "store_rel w (Dict al1 (key_index (map fst al1))) (sc_header (om_cache m)) al1"
    using om_rel_distinct [OF m] dict_header [OF m d] new by (intro store_rel_dict) (simp_all add: al1_def)
  then obtain m' w' where b: "bump_struct_ver w (m\<lparr>om_store := Dict al1 (key_index (map fst al1))\<rparr>) = (m', w')"
      "om_rel w' m' al1" "world_grows w w' 1" "om_store m' = Dict al1 (key_index (map fst al1))"
    by (rule bump_store [OF w m])
  have "dict_get_or_insert w m k v g =
      Some (x, m'\<lparr>om_store := Dict (al1[length al := (k, g x)]) (key_index (map fst al1))\<rparr>, w')"
    using None b(1) xv unfolding ki by (simp add: dict_get_or_insert_def d al1_def vec_get_def)
  moreover have "key_index (map fst al1) k = Some (length al)" using ki by simp
  then have "om_rel w' (m'\<lparr>om_store := Dict (al1[length al := (k, g x)]) (key_index (map fst al1))\<rparr>) (AList.update k (g x) al1)"
    by (rule dict_update_rel [OF b(2,4)])
  ultimately show ?thesis using b(3) new by (intro yieldsI) (simp_all add: al1_def update_last update_new)
qed


lemma get_or_insert_rel:
  assumes w: "world_ok w" "room w n" "2 \<le> n" and m: "om_rel w m al"
    and x: "x = (case map_of al k of Some y \<Rightarrow> y | None \<Rightarrow> v)"
  shows "yields w 2 (get_or_insert_with w m k v g) x (AList.update k (g x) al)"
  using m
proof (cases rule: om_rel_cases)
  case (shaped s)
  then have sh: "is_shaped m" by (simp add: is_shaped_def)
  from w m shaped(1,2) show ?thesis
  proof (cases rule: intern_rel [where k = k])
    case (deopt m' w')
    have "room w' 1" using room_one [OF deopt(3) w(2,3)] .
    then have "yields w' 1 (dict_get_or_insert w' m' k v g) x (AList.update k (g x) al)"
      using dict_get_or_insert_rel [OF world_grows_ok [OF deopt(3)] _ _ deopt(2,4) x] by blast
    from yields_after [OF deopt(3) this] show ?thesis using sh deopt(1) by (simp add: get_or_insert_with_def numeral_2_eq_2)
  next
    case (old i)
    have i: "i < length al" "fst (al ! i) = k" using key_index_SomeD [OF old(2)] by auto
    have "map_of al k = Some (snd (al ! i))" using old(2) by (simp add: map_of_key_index)
    then have "get_or_insert_with w m k v g = Some (x, m\<lparr>om_store := Shaped s ((map snd al)[i := g x])\<rparr>, w)"
      using sh old i x shaped(1) by (simp add: get_or_insert_with_def vec_get_def)
    then show ?thesis using shaped_update_rel [OF m shaped(1) old(2), of "g x"] w(1) by (intro yieldsI) auto
  next
    case (new s' w')
    have "room w' 1" using room_one [OF new(3) w(2,3)] .
    then obtain m'' w'' where b: "bump_struct_ver w' (m\<lparr>om_store := Shaped s' (map snd al @ [v]), om_cache := (om_cache m)\<lparr>sc_header := s'\<rparr>\<rparr>) = (m'', w'')"
      "om_rel w'' m'' (al @ [(k, v)])" "world_grows w' w'' 1" "om_store m'' = Shaped s' (map snd al @ [v])"
      using push_rel [OF world_grows_ok [OF new(3)] _ _ m new(3,2,4), of 1 v] by blast
    have xv: "x = v" using x new(2) by (simp add: map_of_eq_None_iff [THEN iffD2])
    then have "get_or_insert_with w m k v g =
        Some (x, m''\<lparr>om_store := Shaped s' ((map snd (al @ [(k, v)]))[length al := g x])\<rparr>, w'')"
      using sh new(1) b(1) by (simp add: get_or_insert_with_def om_update_order vec_get_def nth_append)
    moreover have "om_rel w'' (m''\<lparr>om_store := Shaped s' ((map snd (al @ [(k, v)]))[length al := g x])\<rparr>)
        (AList.update k (g x) (al @ [(k, v)]))"
      using b(4) key_index_last [of k "map fst al"] new(2) by (intro shaped_update_rel [OF b(2)]) simp_all
    ultimately show ?thesis using world_grows_trans [OF new(3) b(3)] new(2)
      by (intro yieldsI) (simp_all add: update_last update_new numeral_2_eq_2)
  qed
next
  case dict
  then have "yields w 1 (dict_get_or_insert w m k v g) x (AList.update k (g x) al)"
    using dict_get_or_insert_rel [OF w(1,2) _ m _ x] w(3) by simp
  then show ?thesis using dict by (simp add: get_or_insert_with_def is_shaped_def yields_mono)
qed

lemma vec_remove_map: "map f (vec_remove i xs) = vec_remove i (map f xs)"
  by (simp add: vec_remove_def take_map drop_map)

lemma dict_remove_rel:
  assumes w: "world_ok w" "room w n" "1 \<le> n" and m: "om_rel w m al"
    and d: "om_store m = Dict al (key_index (map fst al))"
  shows "yields w 1 (dict_remove w m k) (map_of al k) (AList.delete k al)"
proof (cases "key_index (map fst al) k")
  case None
  then have "map_of al k = None" "AList.delete k al = al"
    by (simp_all add: map_of_key_index key_index_None AList.delete_eq filter_id_conv) force
  then show ?thesis using None w(1) m by (intro yieldsI) (auto simp: dict_remove_def d)
next
  case (Some i)
  have dist: "distinct (map fst al)" using om_rel_distinct [OF m] .
  have i: "i < length al" using key_index_SomeD [OF Some] by auto
  have del: "AList.delete k al = vec_remove i al" by (rule delete_vec_remove [OF dist Some])
  let ?ix = "\<lambda>k'. map_option (\<lambda>j. if j > i then j - 1 else j) (((key_index (map fst al))(k := None)) k')"
  have "?ix = key_index (map fst (AList.delete k al))"
    unfolding del vec_remove_map using key_index_remove [OF dist Some] .
  then have "store_rel w (Dict (vec_remove i al) ?ix) (sc_header (om_cache m)) (AList.delete k al)"
    unfolding del using dist dict_header [OF m d]
    by (simp add: store_rel_def vec_remove_map distinct_vec_remove)
  then obtain m' w' where b: "bump_struct_ver w (m\<lparr>om_store := Dict (vec_remove i al) ?ix\<rparr>) = (m', w')"
      "om_rel w' m' (AList.delete k al)" "world_grows w w' 1"
    by (rule bump_store [OF w m])
  have "dict_remove w m k = Some (map_of al k, reset_shape_cache m', w')"
    using Some i b(1) by (simp add: dict_remove_def d vec_get_def map_of_key_index)
  then show ?thesis using reset_rel [OF b(2)] b(3) by (intro yieldsI)
qed

lemma remove_rel:
  assumes w: "world_ok w" "room w n" "2 \<le> n" and m: "om_rel w m al"
  shows "yields w 2 (om_remove w m k) (map_of al k) (AList.delete k al)"
  using m
proof (cases rule: om_rel_cases)
  case (shaped s)
  note look = shape_lookup_known [OF shaped(2) w(1), of k]
  show ?thesis
  proof (cases "key_index (map fst al) k")
    case None
    then have "map_of al k = None" "AList.delete k al = al"
      by (simp_all add: map_of_key_index key_index_None AList.delete_eq filter_id_conv) force
    then show ?thesis using None w(1) m look by (intro yieldsI) (auto simp: om_remove_def shaped(1))
  next
    case (Some i)
    obtain m' w' where e: "deopt_to_dict w m = Some (m', w')" "om_rel w' m' al" "world_grows w w' 1"
      "om_store m' = Dict al (key_index (map fst al))"
      using deopt_rel [OF w(1,2) _ m] w(3) by auto
    have "yields w' 1 (dict_remove w' m' k) (map_of al k) (AList.delete k al)"
      using dict_remove_rel [OF world_grows_ok [OF e(3)] room_one [OF e(3) w(2,3)] _ e(2,4)] by simp
    from yields_after [OF e(3) this] show ?thesis using Some look e(1) by (simp add: om_remove_def shaped(1) numeral_2_eq_2)
  qed
next
  case dict
  then have "yields w 1 (dict_remove w m k) (map_of al k) (AList.delete k al)"
    using dict_remove_rel [OF w(1,2) _ m] w(3) by simp
  then show ?thesis using dict by (simp add: om_remove_def yields_mono)
qed


section \<open>Reads\<close>

lemma value_at_rel: "om_rel w m al \<Longrightarrow> value_at_slot m i = map_option snd (vec_get al i)"
  by (elim om_rel_cases) (auto simp: value_at_slot_def vec_get_def)

lemma slot_of_rel: "world_ok w \<Longrightarrow> om_rel w m al \<Longrightarrow> slot_of w m k = Some (key_index (map fst al) k)"
  by (elim om_rel_cases) (simp_all add: slot_of_def shape_lookup_known)

lemma get_rel:
  assumes "world_ok w" "om_rel w m al"
  shows "om_get w m k = Some (map_of al k)"
proof (cases "key_index (map fst al) k")
  case None
  then show ?thesis using assms(2,1)
    by (elim om_rel_cases) (simp_all add: om_get_def shape_lookup_known map_of_key_index)
next
  case (Some i)
  then have "i < length al" using key_index_SomeD [OF Some] by simp
  then show ?thesis using assms(2,1) Some
    by (elim om_rel_cases) (simp_all add: om_get_def shape_lookup_known map_of_key_index vec_get_def)
qed

lemma contains_rel: "world_ok w \<Longrightarrow> om_rel w m al \<Longrightarrow> contains_key w m k = Some (k \<in> fst ` set al)"
  by (elim om_rel_cases) (simp_all del: not_None_eq add: contains_key_def shape_lookup_known key_index_None)

lemma len_rel: "om_rel w m al \<Longrightarrow> om_len m = length al"
  by (elim om_rel_cases) (simp_all add: om_len_def)

lemma is_empty_rel: "om_rel w m al \<Longrightarrow> om_is_empty m \<longleftrightarrow> al = []"
  by (elim om_rel_cases) (simp_all add: om_is_empty_def)

lemma keys_rel: "om_rel w m al \<Longrightarrow> om_keys w m = Some (map fst al)"
  by (elim om_rel_cases) (simp_all add: om_keys_def shape_properties_known)

lemma values_rel: "om_rel w m al \<Longrightarrow> om_values m = map snd al"
  by (elim om_rel_cases) (simp_all add: om_values_def)

lemma iter_shaped_zip:
  "pos + length vals \<le> length keys \<Longrightarrow> iter_shaped keys vals pos = Some (zip (drop pos keys) vals)"
proof (induction vals arbitrary: pos)
  case (Cons v vals)
  then have "drop pos keys = keys ! pos # drop (Suc pos) keys" by (simp add: Cons_nth_drop_Suc)
  then show ?case using Cons by (simp add: vec_get_def)
qed simp

lemma iter_rel: "om_rel w m al \<Longrightarrow> om_iter w m = Some al"
  by (elim om_rel_cases) (simp_all add: om_iter_def shape_properties_known iter_shaped_zip zip_map_fst_snd)

lemma into_iter_rel:
  assumes "world_ok w" "room w n" "1 \<le> n" "om_rel w m al"
  shows "\<exists>w'. om_into_iter w m = Some (al, w') \<and> world_grows w w' 1"
  using deopt_rel [OF assms] by (auto simp: om_into_iter_def)

section \<open>Updates of values\<close>

lemma values_update_rel:
  assumes "om_rel w m al" "map fst al' = map fst al"
    and "om_store m' = (case om_store m of Shaped s slots \<Rightarrow> Shaped s (map snd al') | Dict es index \<Rightarrow> Dict al' index)"
    and "om_cache m' = om_cache m" "om_struct_ver m' = om_struct_ver m"
  shows "om_rel w m' al'"
  using assms(1) by (elim om_rel_cases) (use assms in \<open>auto simp: om_rel_def store_rel_def\<close>)

lemma set_at_slot_rel:
  assumes "om_rel w m al"
  shows "om_rel w (set_at_slot m i v) (if i < length al then al[i := (fst (al ! i), v)] else al)"
  using assms
  by (intro values_update_rel [OF assms], unfold set_at_slot_def)
    (elim om_rel_cases; auto simp: map_update list_update_same_conv)+

lemma get_mut_rel:
  assumes w: "world_ok w" and m: "om_rel w m al"
  shows "\<exists>m'. om_get_mut w m k f = Some m' \<and>
    om_rel w m' (case map_of al k of Some x \<Rightarrow> AList.update k (f x) al | None \<Rightarrow> al)"
proof (cases "key_index (map fst al) k")
  case None
  then show ?thesis using m w
    by (elim om_rel_cases) (simp_all add: om_get_mut_def shape_lookup_known map_of_key_index m)
next
  case (Some i)
  then have i: "i < length al" "fst (al ! i) = k" using key_index_SomeD [OF Some] by auto
  have x: "map_of al k = Some (snd (al ! i))" using Some by (simp add: map_of_key_index)
  from m show ?thesis
  proof (cases rule: om_rel_cases)
    case (shaped s)
    then show ?thesis using shaped_update_rel [OF m shaped(1) Some, of "f (snd (al ! i))"] i x Some w
      by (simp add: om_get_mut_def shape_lookup_known)
  next
    case dict
    then show ?thesis using dict_update_rel [OF m dict(1) Some, of "f (snd (al ! i))"] i x Some
      by (simp add: om_get_mut_def vec_get_def)
  qed
qed

lemma values_mut_rel: "om_rel w m al \<Longrightarrow> om_rel w (om_values_mut m f) (map (\<lambda>(k, v). (k, f v)) al)"
  by (rule values_update_rel, assumption)
    (auto simp: om_values_mut_def o_def case_prod_beta split: store.splits elim: om_rel_cases)

lemma iter_mut_rel:
  assumes m: "om_rel w m al"
  shows "\<exists>m'. om_iter_mut w m f = Some m' \<and> om_rel w m' (map (\<lambda>(k, v). (k, f k v)) al)"
proof -
  have keys: "map fst (map (\<lambda>(k, v). (k, f k v)) al) = map fst al" by auto
  let ?m = "m\<lparr>om_store := (case om_store m of Shaped s slots \<Rightarrow> Shaped s (map (\<lambda>(k, v). f k v) al)
      | Dict es index \<Rightarrow> Dict (map (\<lambda>(k, v). (k, f k v)) al) index)\<rparr>"
  have "om_rel w ?m (map (\<lambda>(k, v). (k, f k v)) al)"
    by (rule values_update_rel [OF m keys]) (auto simp: case_prod_beta o_def split: store.splits)
  moreover have "om_iter_mut w m f = Some ?m"
    using m iter_rel [OF m] by (elim om_rel_cases) (simp_all add: om_iter_mut_def)
  ultimately show ?thesis by blast
qed


section \<open>Bulk operations and construction\<close>

definition al_extend :: "(string \<times> 'v) list \<Rightarrow> (string \<times> 'v) list \<Rightarrow> (string \<times> 'v) list" where
  "al_extend kvs al = fold (\<lambda>(k, v). AList.update k v) kvs al"

lemma extend_rel:
  assumes "world_ok w" "room w n" "2 * length kvs \<le> n" "om_rel w m al"
  shows "\<exists>m' w'. om_extend w m kvs = Some (m', w') \<and> om_rel w' m' (al_extend kvs al) \<and> world_grows w w' (2 * length kvs)"
  using assms
proof (induction kvs arbitrary: w m al n)
  case Nil
  then show ?case by (simp add: al_extend_def)
next
  case (Cons p kvs)
  obtain k v where p: "p = (k, v)" by (cases p)
  have "2 \<le> n" using Cons.prems(3) by simp
  then obtain m1 w1 where i: "om_insert w m k v = Some (map_of al k, m1, w1)" "om_rel w1 m1 (AList.update k v al)" "world_grows w w1 2"
    using insert_rel [OF Cons.prems(1,2) _ Cons.prems(4), of k v] by (auto simp: yields_def)
  have "room w1 (n - 2)" using i(3) Cons.prems(2) \<open>2 \<le> n\<close> by (auto simp: world_grows_def room_def)
  moreover have "2 * length kvs \<le> n - 2" using Cons.prems(3) by simp
  ultimately obtain m2 w2 where e: "om_extend w1 m1 kvs = Some (m2, w2)" "om_rel w2 m2 (al_extend kvs (AList.update k v al))"
    "world_grows w1 w2 (2 * length kvs)"
    using Cons.IH [OF world_grows_ok [OF i(3)] _ _ i(2)] by blast
  have "world_grows w w2 (2 * length (p # kvs))" using world_grows_trans [OF i(3) e(3)] by simp
  then show ?case using i(1) e(1,2) by (simp add: p al_extend_def)
qed

lemma new_rel:
  assumes "world_ok w" "room w n" "1 \<le> n"
  shows "\<exists>m' w'. om_new w = (m', w') \<and> om_rel w' m' [] \<and> world_grows w w' 1"
proof -
  obtain w' where w': "fresh_struct_ver w = (w_next_ver w, w')" "world_grows w w' 1" "w_table w' = w_table w"
    "unat (w_next_ver w') = Suc (unat (w_next_ver w))"
    using fresh_ver_grows [OF assms] by blast
  have "known w' (global_empty_shape w) []" using known_grows [OF known_empty w'(2)] assms(1) .
  then show ?thesis using w' assms(1)
    by (auto simp: om_new_def om_rel_def store_rel_def cache_rel_def store_header_def world_ok_def)
qed

lemma default_rel:
  assumes "world_ok w" "room w n" "1 \<le> n"
  shows "\<exists>m' w'. om_default w = (m', w') \<and> om_rel w' m' [] \<and> world_grows w w' 1"
proof -
  obtain w' where "fresh_struct_ver w = (w_next_ver w, w')" "world_grows w w' 1" "w_table w' = w_table w"
    "unat (w_next_ver w') = Suc (unat (w_next_ver w))"
    using fresh_ver_grows [OF assms] by blast
  then show ?thesis using assms(1)
    by (auto simp: om_default_def om_rel_def store_rel_def cache_rel_def world_ok_def)
qed

lemma clear_rel:
  assumes w: "world_ok w" "room w n" "1 \<le> n" and m: "om_rel w m al"
  shows "\<exists>m' w'. om_clear w m = (m', w') \<and> om_rel w' m' [] \<and> world_grows w w' 1"
proof -
  let ?m = "case om_store m of Dict entries index \<Rightarrow> m\<lparr>om_store := Dict [] Map.empty\<rparr>
    | Shaped shape slots \<Rightarrow> mark_deopted (m\<lparr>om_store := Dict [] Map.empty\<rparr>)"
  have "store_rel w (om_store ?m) (sc_header (om_cache ?m)) []" "unat (sc_ver (om_cache ?m)) < unat (w_next_ver w)"
    using m w(1) om_rel_ver [OF m]
    by (elim om_rel_cases; simp add: store_rel_def mark_deopted_def world_ok_def)+
  then obtain m' w' where b: "bump_struct_ver w ?m = (m', w')" "om_rel w' m' []" "world_grows w w' 1"
    using bump_rel [OF w] by blast
  then show ?thesis using reset_rel [OF b(2)] by (simp add: om_clear_def)
qed

lemma drain_rel:
  assumes w: "world_ok w" "room w n" "2 \<le> n" and m: "om_rel w m al"
  shows "yields w 2 (om_drain w m) al []"
proof -
  obtain m1 w1 where e: "deopt_to_dict w m = Some (m1, w1)" "om_rel w1 m1 al" "world_grows w w1 1"
    "om_store m1 = Dict al (key_index (map fst al))"
    using deopt_rel [OF w(1,2) _ m] w(3) by auto
  have st: "store_rel w1 (Dict [] Map.empty) (sc_header (om_cache m1)) []"
    using dict_header [OF e(2,4)] by (simp add: store_rel_def)
  obtain m2 w2 where b: "bump_struct_ver w1 (m1\<lparr>om_store := Dict [] Map.empty\<rparr>) = (m2, w2)" "om_rel w2 m2 []" "world_grows w1 w2 1"
    using bump_store [OF world_grows_ok [OF e(3)] room_one [OF e(3) w(2,3)] order_refl e(2) st] by blast
  have "om_drain w m = Some (al, reset_shape_cache m2, w2)"
    using e(1,4) b(1) by (auto simp: om_drain_def bump_struct_ver_def reset_shape_cache_def split: prod.splits)
  then show ?thesis using reset_rel [OF b(2)] world_grows_trans [OF e(3) b(3)] by (intro yieldsI) (simp_all add: numeral_2_eq_2)
qed

definition al_retain :: "(string \<Rightarrow> 'v \<Rightarrow> bool \<times> 'v) \<Rightarrow> (string \<times> 'v) list \<Rightarrow> (string \<times> 'v) list" where
  "al_retain f al = map (\<lambda>(k, v). (k, snd (f k v))) (filter (\<lambda>(k, v). fst (f k v)) al)"

lemma retain_rel:
  assumes w: "world_ok w" "room w n" "2 \<le> n" and m: "om_rel w m al"
  shows "\<exists>m' w'. om_retain w m f = Some (m', w') \<and> om_rel w' m' (al_retain f al) \<and> world_grows w w' 2"
proof -
  obtain m1 w1 where e: "deopt_to_dict w m = Some (m1, w1)" "om_rel w1 m1 al" "world_grows w w1 1"
    "om_store m1 = Dict al (key_index (map fst al))"
    using deopt_rel [OF w(1,2) _ m] w(3) by auto
  have "map fst (al_retain f al) = map fst (filter (\<lambda>(k, v). fst (f k v)) al)"
    by (auto simp: al_retain_def)
  then have d: "distinct (map fst (al_retain f al))"
    using om_rel_distinct [OF m] by (simp add: distinct_map_filter)
  have st: "store_rel w1 (Dict (al_retain f al) (index_of_keys (map fst (al_retain f al)))) (sc_header (om_cache m1)) (al_retain f al)"
    using dict_header [OF e(2,4)] d by (simp add: store_rel_def index_of_keys)
  obtain m2 w2 where b: "bump_struct_ver w1 (m1\<lparr>om_store := Dict (al_retain f al) (index_of_keys (map fst (al_retain f al)))\<rparr>) = (m2, w2)"
      "om_rel w2 m2 (al_retain f al)" "world_grows w1 w2 1"
    using bump_store [OF world_grows_ok [OF e(3)] room_one [OF e(3) w(2,3)] order_refl e(2) st] by blast
  have "om_retain w m f = Some (reset_shape_cache m2, w2)"
    using e(1,4) b(1) by (simp add: om_retain_def al_retain_def)
  then show ?thesis using reset_rel [OF b(2)] world_grows_trans [OF e(3) b(3)] by (simp add: numeral_2_eq_2)
qed

end
