(* ===== verification/Inline_Cache.thy ===== *)
theory Inline_Cache
  imports Ordered_Map
begin

text \<open>
  The shape of an object and the inline cache of a property access. A cached slot is sound because a
  shape names one key sequence: whatever object reports the shape has the key in that slot.
\<close>

section \<open>The shape of an object\<close>

lemma add_properties_rel:
  assumes "world_ok w" "room w n" "length ks' \<le> n" "known w s ks" "distinct (ks @ ks')"
  shows "\<exists>s' w'. add_properties w s ks' = Some (s', w') \<and> world_grows w w' (length ks') \<and> known w' s' (ks @ ks')"
  using assms
proof (induction ks' arbitrary: w s ks n)
  case (Cons k ks')
  have "k \<notin> set ks" "1 \<le> n" using Cons.prems(3,5) by auto
  then obtain s1 w1 where a: "global_add_property w s k = Some (s1, w1)" "world_grows w w1 1" "known w1 s1 (ks @ [k])"
    using add_property_grows [OF Cons.prems(1,4) _ Cons.prems(2)] by blast
  have "room w1 (n - 1)" using a(2) Cons.prems(2) \<open>1 \<le> n\<close> by (auto simp: world_grows_def room_def)
  moreover have "length ks' \<le> n - 1" "distinct ((ks @ [k]) @ ks')" using Cons.prems(3,5) by auto
  ultimately obtain s2 w2 where b: "add_properties w1 s1 ks' = Some (s2, w2)" "world_grows w1 w2 (length ks')" "known w2 s2 ((ks @ [k]) @ ks')"
    using Cons.IH [OF world_grows_ok [OF a(2)] _ _ a(3)] by blast
  have "world_grows w w2 (length (k # ks'))" using world_grows_trans [OF a(2) b(2)] by simp
  then show ?case using a(1) b(1,3) by simp
qed simp

lemma reserved_distinct: "BORN_DICT_SHAPE \<noteq> DICT_SHAPE"
  by (simp add: BORN_DICT_SHAPE_def DICT_SHAPE_def)

lemma object_shape_rel:
  assumes w: "world_ok w" "room w n" "length al \<le> n" and m: "om_rel w m al"
  shows "\<exists>sid m' w'. object_shape_id w m = Some (sid, m', w') \<and> om_rel w' m' al \<and> world_grows w w' (length al) \<and>
    (sid = DICT_SHAPE \<or> known w' sid (map fst al)) \<and> object_shape_id w' m' = Some (sid, m', w')"
  using m
proof (cases rule: om_rel_cases)
  case (shaped s)
  then have "object_shape_id w m = Some (s, m, w)" by (simp add: object_shape_id_def stored_shape_id_def)
  then show ?thesis using shaped(2) w(1) m by simp
next
  case dict
  consider "sc_header (om_cache m) = DICT_SHAPE"
    | "sc_header (om_cache m) \<noteq> DICT_SHAPE" "sc_ver (om_cache m) = om_struct_ver m"
    | "sc_header (om_cache m) \<noteq> DICT_SHAPE" "sc_ver (om_cache m) \<noteq> om_struct_ver m" by blast
  then show ?thesis
  proof cases
    case 1
    then have "object_shape_id w m = Some (DICT_SHAPE, m, w)"
      using dict by (simp add: object_shape_id_def stored_shape_id_def cache_deopted_def)
    then show ?thesis using w(1) m by simp
  next
    case 2
    then have "object_shape_id w m = Some (sc_shape (om_cache m), m, w)"
      using dict by (simp add: object_shape_id_def stored_shape_id_def cache_deopted_def cached_shape_def)
    moreover have "known w (sc_shape (om_cache m)) (map fst al)" using m 2(2) by (simp add: om_rel_def cache_rel_def)
    ultimately show ?thesis using w(1) m by simp
  next
    case 3
    have "length (map fst al) \<le> n" "distinct ([] @ map fst al)" using w(3) om_rel_distinct [OF m] by simp_all
    then obtain sid w' where a: "add_properties w (global_empty_shape w) (map fst al) = Some (sid, w')"
        "world_grows w w' (length al)" "known w' sid (map fst al)"
      using add_properties_rel [OF w(1,2) _ known_empty [OF w(1)]] by force
    define m' where "m' = set_cached_shape m (om_struct_ver m) sid"
    have f: "om_store m' = om_store m" "sc_header (om_cache m') = sc_header (om_cache m)" "om_struct_ver m' = om_struct_ver m"
      "sc_ver (om_cache m') = om_struct_ver m" "sc_shape (om_cache m') = sid"
      by (simp_all add: m'_def set_cached_shape_def)
    have "object_shape_id w m = Some (sid, m', w')"
      using 3 dict a(1) keys_rel [OF m]
      by (simp add: object_shape_id_def stored_shape_id_def cache_deopted_def cached_shape_def m'_def)
    moreover have "om_rel w' m' al"
      using om_rel_grows [OF m a(2)] a(3) by (simp add: om_rel_def cache_rel_def f)
    moreover have "object_shape_id w' m' = Some (sid, m', w')"
      using 3(1) dict by (simp add: object_shape_id_def stored_shape_id_def cache_deopted_def cached_shape_def f)
    ultimately show ?thesis using a(2,3) by blast
  qed
qed

section \<open>Sound cache entries\<close>

definition site_ok :: "js_world \<Rightarrow> string \<Rightarrow> prop_ic \<Rightarrow> bool" where
  "site_ok w key ic \<longleftrightarrow> length (ic_shapes ic) = IC_POLY_CAP \<and> length (ic_slots ic) = IC_POLY_CAP \<and> ic_len ic \<le> IC_POLY_CAP \<and>
     (\<forall>i < ic_len ic. \<exists>ks. known w (ic_shapes ic ! i) ks \<and> key_index ks key = Some (unat (ic_slots ic ! i)))"

lemma site_ok_grows: "site_ok w key ic \<Longrightarrow> world_grows w w' n \<Longrightarrow> site_ok w' key ic"
  unfolding site_ok_def by (blast intro: known_grows)

lemma invalid_ok: "site_ok w key ic_invalid"
  by (simp add: site_ok_def ic_invalid_def IC_POLY_CAP_def)

lemma find_Some: "ic_find ic s = Some i \<Longrightarrow> i < ic_len ic \<and> ic_shapes ic ! i = s"
  using position_Some [of "\<lambda>x. x = s" "take (ic_len ic) (ic_shapes ic)" i] by (auto simp: ic_find_def)

lemma lookup_sound:
  assumes "site_ok w key ic" "ic_lookup ic s = Some slot" "known w s ks"
  shows "key_index ks key = Some (unat slot)"
proof -
  obtain i where i: "ic_find ic s = Some i" "slot = ic_slots ic ! i"
    using assms(2) by (auto simp: ic_lookup_def split: if_splits)
  have "i < ic_len ic" "ic_shapes ic ! i = s" using find_Some [OF i(1)] by auto
  then show ?thesis using assms(1,3) i(2) known_unique unfolding site_ok_def by metis
qed

lemma lookup_known:
  assumes "site_ok w key ic" "ic_lookup ic s = Some slot"
  shows "\<exists>ks. known w s ks"
proof -
  obtain i where "ic_find ic s = Some i" using assms(2) by (auto simp: ic_lookup_def split: if_splits)
  from find_Some [OF this] show ?thesis using assms(1) unfolding site_ok_def by blast
qed

lemma record_ok:
  assumes ok: "site_ok w key ic" and s: "s = DICT_SHAPE \<or> known w s ks" and k: "key_index ks key = Some (unat slot)"
  shows "site_ok w key (ic_record ic s slot)"
proof (cases "s = DICT_SHAPE \<or> ic_mega ic")
  case True
  then show ?thesis using ok by (auto simp: ic_record_def)
next
  case False
  then have kn: "known w s ks" using s by blast
  show ?thesis
  proof (cases "ic_find ic s")
    case (Some i)
    then have "ic_record ic s slot = ic\<lparr>ic_slots := (ic_slots ic)[i := slot]\<rparr>" using False by (simp add: ic_record_def)
    moreover have "i < ic_len ic" "ic_shapes ic ! i = s" using find_Some [OF Some] by auto
    ultimately show ?thesis using ok kn k unfolding site_ok_def by (auto simp: nth_list_update)
  next
    case None
    then show ?thesis using ok kn k False unfolding site_ok_def
      by (auto simp: ic_record_def nth_list_update less_Suc_eq)
  qed
qed

text \<open>The prototype entry never disturbs the own entries, and never names a dictionary.\<close>

lemma proto_record_ok: "site_ok w key ic \<Longrightarrow> site_ok w key (proto_record ic os ps ptr psh ks)"
  by (simp add: site_ok_def proto_record_def)

lemma proto_record_lookup:
  assumes "ks \<noteq> - 1" "os \<noteq> DICT_SHAPE" "psh \<noteq> DICT_SHAPE"
  shows "proto_lookup (proto_record ic os ps ptr psh ks) s = (if s = os then Some (ps, ptr, psh, ks) else None)"
  using assms by (auto simp: proto_lookup_def proto_record_def)

text \<open>Feedback written to the code cache and read back serves the same slots.\<close>

lemma reload_ok:
  "site_ok w key ic \<Longrightarrow> \<not> ic_mega ic \<Longrightarrow>
   (\<forall>(s, slot) \<in> set es. \<exists>ks. known w s ks \<and> key_index ks key = Some (unat slot)) \<Longrightarrow> site_ok w key (ic_reload es ic)"
proof (induction es ic rule: ic_reload.induct)
  case (2 sh sl es ic)
  obtain ks where ks: "known w sh ks" "key_index ks key = Some (unat sl)" using 2(6) by auto
  show ?case
  proof (cases "sl = - 1 \<or> sh = DICT_SHAPE \<or> ic_find ic sh \<noteq> None \<or> IC_POLY_CAP \<le> ic_len ic")
    case True
    then show ?thesis using 2(1,2,4-6) by (auto simp: site_ok_def)
  next
    case False
    let ?ic = "ic\<lparr>ic_shapes := (ic_shapes ic)[ic_len ic := sh], ic_slots := (ic_slots ic)[ic_len ic := sl], ic_len := ic_len ic + 1\<rparr>"
    have "site_ok w key ?ic" using 2(4) False ks unfolding site_ok_def by (auto simp: nth_list_update less_Suc_eq)
    then show ?thesis using 2(3) 2(5,6) False by auto
  qed
qed simp

lemma from_serialized_ok:
  assumes "site_ok w key ic"
  shows "site_ok w key (from_serialized_own (fst (serialize_own ic)) (snd (serialize_own ic)))"
proof (cases "ic_mega ic")
  case True
  then show ?thesis by (simp add: serialize_own_def from_serialized_own_def site_ok_def ic_invalid_def IC_POLY_CAP_def)
next
  case False
  have "\<forall>(s, slot) \<in> set (fst (serialize_own ic)). \<exists>ks. known w s ks \<and> key_index ks key = Some (unat slot)"
    using assms by (auto simp: serialize_own_def site_ok_def in_set_conv_nth)
  then show ?thesis using reload_ok [OF invalid_ok, of _ w key] False
    by (simp add: from_serialized_own_def serialize_own_def ic_invalid_def)
qed

lemma warm_entries_ok:
  assumes "site_ok w key ic" "warm_own_entries ic = Some es" "(s, slot) \<in> set es"
  shows "\<exists>ks. known w s ks \<and> key_index ks key = Some (unat slot) \<and> s \<noteq> DICT_SHAPE"
proof -
  have "es = take (ic_len ic) (zip (ic_shapes ic) (ic_slots ic))" "s \<noteq> DICT_SHAPE"
    using assms(2,3) by (auto simp: warm_own_entries_def Let_def split: if_splits)
  then show ?thesis using assms(1,3) by (auto simp: site_ok_def in_set_conv_nth)
qed

lemma get_own_rel:
  assumes w: "world_ok w" "room w n" "length al \<le> n" and m: "om_rel w m al" and ok: "site_ok w key ic"
  shows "\<exists>ic' m' w'. get_own w ic m key = Some (map_of al key, ic', m', w') \<and> om_rel w' m' al \<and>
    world_grows w w' (length al) \<and> site_ok w' key ic'"
proof -
  obtain sid m' w' where o: "object_shape_id w m = Some (sid, m', w')" "om_rel w' m' al" "world_grows w w' (length al)"
    "sid = DICT_SHAPE \<or> known w' sid (map fst al)" "object_shape_id w' m' = Some (sid, m', w')"
    using object_shape_rel [OF w m] by blast
  have w': "world_ok w'" using world_grows_ok [OF o(3)] .
  have ok': "site_ok w' key ic" using site_ok_grows [OF ok o(3)] .
  let ?hit = "Option.bind (ic_lookup ic sid) (\<lambda>slot. value_at_slot m' (unat slot))"
  show ?thesis
  proof (cases ?hit)
    case (Some v)
    then obtain slot where s: "ic_lookup ic sid = Some slot" "value_at_slot m' (unat slot) = Some v"
      by (auto simp: bind_eq_Some_conv)
    have "room w' 0" using o(3) w(2,3) by (auto simp: world_grows_def room_def)
    then have "known w' sid (map fst al)" using lookup_known [OF ok' s(1)] o(4) known_not_reserved by blast
    then have "key_index (map fst al) key = Some (unat slot)" using lookup_sound [OF ok' s(1)] by blast
    then have "map_of al key = Some v"
      using s(2) value_at_rel [OF o(2), of "unat slot"] by (auto simp: map_of_key_index vec_get_def split: if_splits)
    then show ?thesis using Some o(1,2,3) ok' by (auto simp: get_own_def)
  next
    case None
    show ?thesis
    proof (cases "key_index (map fst al) key")
      case no: None
      then show ?thesis using None o(1,2,3) ok' get_rel [OF w' o(2), of key] slot_of_rel [OF w' o(2), of key]
        by (auto simp: get_own_def)
    next
      case (Some i)
      have "i < 4294967296" using key_index_SomeD [OF Some] w(2,3) by (simp add: room_def)
      then have "key_index (map fst al) key = Some (unat (of_nat i :: u32))" using Some by (simp add: unat_of_nat_u32)
      from record_ok [OF ok' o(4) this] show ?thesis
        using Some None o(1,2,3,5) get_rel [OF w' o(2), of key] slot_of_rel [OF w' o(2), of key]
        by (auto simp: get_own_def)
    qed
  qed
qed

end
