(* ===== verification/Js_Objects.thy ===== *)
theory Js_Objects
  imports Inline_Cache
begin

text \<open>
  Objects of one process under any sequence of operations: maps created in either mode, cloned,
  changed and read through the map interface and through inline caches, all on one shape table and
  one version counter. The specification is a list of association lists.
\<close>

section \<open>Simulation within a budget\<close>

text \<open>A machine whose steps consume a resource simulates its specification as long as the budget
  lasts; \<open>run\<close> collects what the steps return.\<close>

fun run :: "('op \<Rightarrow> 's \<Rightarrow> ('o \<times> 's) option) \<Rightarrow> 'op list \<Rightarrow> 's \<Rightarrow> ('o list \<times> 's) option" where
  "run step [] s = Some ([], s)"
| "run step (op # ops) s = do { (x, s) \<leftarrow> step op s; (xs, s) \<leftarrow> run step ops s; Some (x # xs, s) }"

fun spec_run :: "('op \<Rightarrow> 'a \<Rightarrow> 'o \<times> 'a) \<Rightarrow> 'op list \<Rightarrow> 'a \<Rightarrow> 'o list \<times> 'a" where
  "spec_run spec [] a = ([], a)"
| "spec_run spec (op # ops) a =
     (let (x, a) = spec op a; (xs, a) = spec_run spec ops a in (x # xs, a))"

fun spec_cost :: "('op \<Rightarrow> 'a \<Rightarrow> 'o \<times> 'a) \<Rightarrow> ('op \<Rightarrow> 'a \<Rightarrow> nat) \<Rightarrow> 'op list \<Rightarrow> 'a \<Rightarrow> nat" where
  "spec_cost spec cost [] a = 0"
| "spec_cost spec cost (op # ops) a = cost op a + spec_cost spec cost ops (snd (spec op a))"

locale budgeted_simulation =
  fixes step :: "'op \<Rightarrow> 's \<Rightarrow> ('o \<times> 's) option"
    and spec :: "'op \<Rightarrow> 'a \<Rightarrow> 'o \<times> 'a"
    and cost :: "'op \<Rightarrow> 'a \<Rightarrow> nat"
    and rel :: "nat \<Rightarrow> 's \<Rightarrow> 'a \<Rightarrow> bool"
  assumes step_simulates:
    "rel (cost op a + n) s a \<Longrightarrow> \<exists>s'. step op s = Some (fst (spec op a), s') \<and> rel n s' (snd (spec op a))"
begin

lemma run_simulates:
  "rel (spec_cost spec cost ops a + n) s a \<Longrightarrow>
   \<exists>s'. run step ops s = Some (fst (spec_run spec ops a), s') \<and> rel n s' (snd (spec_run spec ops a))"
proof (induction ops arbitrary: s a)
  case (Cons op ops)
  have "rel (cost op a + (spec_cost spec cost ops (snd (spec op a)) + n)) s a"
    using Cons.prems by (simp add: add.assoc)
  then obtain s1 where s1: "step op s = Some (fst (spec op a), s1)"
      "rel (spec_cost spec cost ops (snd (spec op a)) + n) s1 (snd (spec op a))"
    using step_simulates by blast
  from Cons.IH [OF s1(2)] show ?case using s1(1) by (auto simp: case_prod_beta)
qed simp

lemma same_observations:
  assumes "rel (spec_cost spec cost ops a) s a" "rel (spec_cost spec cost ops a) s' a"
  shows "map_option fst (run step ops s) = Some (fst (spec_run spec ops a))"
    and "map_option fst (run step ops s) = map_option fst (run step ops s')"
  using run_simulates [of ops a 0 s] run_simulates [of ops a 0 s'] assms by auto

end

section \<open>Operations on one object\<close>

datatype 'v js_obs =
    ONone
  | OVal "'v option"
  | OBool bool
  | ONat nat
  | OKeys "string list"
  | OVals "'v list"
  | OEntries "(string \<times> 'v) list"

datatype 'v om_op =
    Insert string 'v
  | Remove string
  | Get string
  | Get_mut string "'v \<Rightarrow> 'v"
  | Contains_key string
  | Get_or_insert string 'v "'v \<Rightarrow> 'v"
  | Len
  | Is_empty
  | Clear
  | Keys
  | Values
  | Values_mut "'v \<Rightarrow> 'v"
  | Iter
  | Iter_mut "string \<Rightarrow> 'v \<Rightarrow> 'v"
  | Extend "(string \<times> 'v) list"
  | Drain
  | Retain "string \<Rightarrow> 'v \<Rightarrow> bool \<times> 'v"
  | Into_iter
  | Value_at_slot nat
  | Set_at_slot nat 'v
  | Shape_id

fun om_exec :: "'v om_op \<Rightarrow> js_world \<Rightarrow> 'v ordered_map \<Rightarrow> ('v js_obs \<times> 'v ordered_map \<times> js_world) option" where
  "om_exec (Insert k v) w m = do { (old, m, w) \<leftarrow> om_insert w m k v; Some (OVal old, m, w) }"
| "om_exec (Remove k) w m = do { (old, m, w) \<leftarrow> om_remove w m k; Some (OVal old, m, w) }"
| "om_exec (Get k) w m = do { x \<leftarrow> om_get w m k; Some (OVal x, m, w) }"
| "om_exec (Get_mut k f) w m = do { m \<leftarrow> om_get_mut w m k f; Some (ONone, m, w) }"
| "om_exec (Contains_key k) w m = do { b \<leftarrow> contains_key w m k; Some (OBool b, m, w) }"
| "om_exec (Get_or_insert k v g) w m = do { (x, m, w) \<leftarrow> get_or_insert_with w m k v g; Some (OVal (Some x), m, w) }"
| "om_exec Len w m = Some (ONat (om_len m), m, w)"
| "om_exec Is_empty w m = Some (OBool (om_is_empty m), m, w)"
| "om_exec Clear w m = Some (ONone, om_clear w m)"
| "om_exec Keys w m = do { ks \<leftarrow> om_keys w m; Some (OKeys ks, m, w) }"
| "om_exec Values w m = Some (OVals (om_values m), m, w)"
| "om_exec (Values_mut f) w m = Some (ONone, om_values_mut m f, w)"
| "om_exec Iter w m = do { kvs \<leftarrow> om_iter w m; Some (OEntries kvs, m, w) }"
| "om_exec (Iter_mut f) w m = do { m \<leftarrow> om_iter_mut w m f; Some (ONone, m, w) }"
| "om_exec (Extend kvs) w m = do { (m, w) \<leftarrow> om_extend w m kvs; Some (ONone, m, w) }"
| "om_exec Drain w m = do { (kvs, m, w) \<leftarrow> om_drain w m; Some (OEntries kvs, m, w) }"
| "om_exec (Retain f) w m = do { (m, w) \<leftarrow> om_retain w m f; Some (ONone, m, w) }"
| "om_exec Into_iter w m = do { (kvs, w) \<leftarrow> om_into_iter w m; Some (OEntries kvs, m, w) }"
| "om_exec (Value_at_slot i) w m = Some (OVal (value_at_slot m i), m, w)"
| "om_exec (Set_at_slot i v) w m = Some (ONone, set_at_slot m i v, w)"
| "om_exec Shape_id w m = do { (sid, m, w) \<leftarrow> object_shape_id w m; Some (ONone, m, w) }"

text \<open>What the operations mean on an association list.\<close>

fun al_exec :: "'v om_op \<Rightarrow> (string \<times> 'v) list \<Rightarrow> 'v js_obs \<times> (string \<times> 'v) list" where
  "al_exec (Insert k v) al = (OVal (map_of al k), AList.update k v al)"
| "al_exec (Remove k) al = (OVal (map_of al k), AList.delete k al)"
| "al_exec (Get k) al = (OVal (map_of al k), al)"
| "al_exec (Get_mut k f) al = (ONone, case map_of al k of Some x \<Rightarrow> AList.update k (f x) al | None \<Rightarrow> al)"
| "al_exec (Contains_key k) al = (OBool (k \<in> fst ` set al), al)"
| "al_exec (Get_or_insert k v g) al =
     (let x = (case map_of al k of Some y \<Rightarrow> y | None \<Rightarrow> v) in (OVal (Some x), AList.update k (g x) al))"
| "al_exec Len al = (ONat (length al), al)"
| "al_exec Is_empty al = (OBool (al = []), al)"
| "al_exec Clear al = (ONone, [])"
| "al_exec Keys al = (OKeys (map fst al), al)"
| "al_exec Values al = (OVals (map snd al), al)"
| "al_exec (Values_mut f) al = (ONone, map (\<lambda>(k, v). (k, f v)) al)"
| "al_exec Iter al = (OEntries al, al)"
| "al_exec (Iter_mut f) al = (ONone, map (\<lambda>(k, v). (k, f k v)) al)"
| "al_exec (Extend kvs) al = (ONone, al_extend kvs al)"
| "al_exec Drain al = (OEntries al, [])"
| "al_exec (Retain f) al = (ONone, al_retain f al)"
| "al_exec Into_iter al = (OEntries al, al)"
| "al_exec (Value_at_slot i) al = (OVal (map_option snd (vec_get al i)), al)"
| "al_exec (Set_at_slot i v) al = (ONone, if i < length al then al[i := (fst (al ! i), v)] else al)"
| "al_exec Shape_id al = (ONone, al)"

text \<open>A bound on the shapes and on the versions an operation takes.\<close>

fun om_cost :: "'v om_op \<Rightarrow> (string \<times> 'v) list \<Rightarrow> nat" where
  "om_cost (Extend kvs) al = 2 * length kvs"
| "om_cost Shape_id al = length al"
| "om_cost op al = 2"

lemma om_exec_rel:
  assumes w: "world_ok w" "room w n" "om_cost op al \<le> n" and m: "om_rel w m al"
  shows "yields w (om_cost op al) (om_exec op w m) (fst (al_exec op al)) (snd (al_exec op al))"
proof (cases op)
  case (Insert k v)
  then show ?thesis using insert_rel [OF w(1,2) _ m, of k v] w(3) by (auto simp: yields_def)
next
  case (Remove k)
  then show ?thesis using remove_rel [OF w(1,2) _ m, of k] w(3) by (auto simp: yields_def)
next
  case (Get_mut k f)
  then show ?thesis using get_mut_rel [OF w(1) m, of k f] w(1) by (auto simp: yields_def)
next
  case (Get_or_insert k v g)
  then show ?thesis using get_or_insert_rel [OF w(1,2) _ m refl, of k v g] w(3) by (auto simp: yields_def Let_def)
next
  case Clear
  then obtain m' w' where "om_clear w m = (m', w')" "om_rel w' m' []" "world_grows w w' 2"
    using clear_rel [OF w(1,2) _ m] w(3) world_grows_mono [of w _ 1 2] by force
  then show ?thesis using Clear by (auto simp: yields_def)
next
  case (Iter_mut f)
  then show ?thesis using iter_mut_rel [OF m, of f] w(1) by (auto simp: yields_def)
next
  case (Extend kvs)
  then show ?thesis using extend_rel [OF w(1,2) _ m, of kvs] w(3) by (auto simp: yields_def)
next
  case Drain
  then show ?thesis using drain_rel [OF w(1,2) _ m] w(3) by (auto simp: yields_def)
next
  case (Retain f)
  then show ?thesis using retain_rel [OF w(1,2) _ m, of f] w(3) by (auto simp: yields_def)
next
  case Into_iter
  then obtain w' where i: "om_into_iter w m = Some (al, w')" "world_grows w w' 1"
    using into_iter_rel [OF w(1,2) _ m] w(3) by auto
  then have "world_grows w w' 2" using world_grows_mono [OF i(2), of 2] by simp
  then show ?thesis using Into_iter i(1) om_rel_grows [OF m i(2)] by (auto simp: yields_def)
next
  case Shape_id
  then show ?thesis using object_shape_rel [OF w(1,2) _ m] w(3) by (auto simp: yields_def)
next
  case (Set_at_slot i v)
  then show ?thesis using set_at_slot_rel [OF m, of i v] w(1) by (auto simp: yields_def)
next
  case (Values_mut f)
  then show ?thesis using values_mut_rel [OF m, of f] w(1) by (auto simp: yields_def)
qed (use m w(1) in \<open>auto simp: yields_def get_rel contains_rel len_rel is_empty_rel keys_rel values_rel iter_rel value_at_rel\<close>)


lemma from_iter_rel:
  fixes kvs :: "(string \<times> 'v) list"
  assumes "world_ok w" "room w n" "1 + 2 * length kvs \<le> n"
  shows "\<exists>(m' :: 'v ordered_map) w'. om_from_iter w kvs = Some (m', w') \<and> om_rel w' m' (al_extend kvs []) \<and> world_grows w w' (1 + 2 * length kvs)"
proof -
  have "1 \<le> n" using assms(3) by simp
  then obtain m1 :: "'v ordered_map" and w1 where a: "om_new w = (m1, w1)" "om_rel w1 m1 []" "world_grows w w1 1"
    using new_rel [OF assms(1,2)] by blast
  have "room w1 (2 * length kvs)" using a(3) assms(2,3) by (auto simp: world_grows_def room_def)
  then obtain m2 w2 where b: "om_extend w1 m1 kvs = Some (m2, w2)" "om_rel w2 m2 (al_extend kvs [])" "world_grows w1 w2 (2 * length kvs)"
    using extend_rel [OF world_grows_ok [OF a(3)] _ order_refl a(2)] by blast
  show ?thesis using a(1) b(1,2) world_grows_trans [OF a(3) b(3)] by (simp add: om_from_iter_def)
qed

section \<open>A process\<close>

record 'v js_process =
  js_world_of :: js_world
  js_objects :: "'v ordered_map list"
  js_sites :: "(string \<times> prop_ic) list"

datatype 'v js_op =
    JNew
  | JDefault
  | JFromIter "(string \<times> 'v) list"
  | JClone nat
  | JOn nat "'v om_op"
  | JSite string
  | JGetProp nat nat

definition js_start :: "bool \<Rightarrow> 'v js_process" where
  "js_start shaped =
     \<lparr>js_world_of = \<lparr>w_table = table_new, w_next_ver = 1, w_shaped = shaped\<rparr>, js_objects = [], js_sites = []\<rparr>"

fun js_exec :: "'v js_op \<Rightarrow> 'v js_process \<Rightarrow> ('v js_obs \<times> 'v js_process) option" where
  "js_exec JNew p =
     (let (m, w) = om_new (js_world_of p) in Some (ONone, p\<lparr>js_world_of := w, js_objects := js_objects p @ [m]\<rparr>))"
| "js_exec JDefault p =
     (let (m, w) = om_default (js_world_of p) in Some (ONone, p\<lparr>js_world_of := w, js_objects := js_objects p @ [m]\<rparr>))"
| "js_exec (JFromIter kvs) p = do {
     (m, w) \<leftarrow> om_from_iter (js_world_of p) kvs;
     Some (ONone, p\<lparr>js_world_of := w, js_objects := js_objects p @ [m]\<rparr>) }"
| "js_exec (JClone i) p =
     (case vec_get (js_objects p) i of
        None \<Rightarrow> Some (ONone, p)
      | Some m \<Rightarrow> Some (ONone, p\<lparr>js_objects := js_objects p @ [m]\<rparr>))"
| "js_exec (JOn i op) p =
     (case vec_get (js_objects p) i of
        None \<Rightarrow> Some (ONone, p)
      | Some m \<Rightarrow> do {
          (x, m, w) \<leftarrow> om_exec op (js_world_of p) m;
          Some (x, p\<lparr>js_world_of := w, js_objects := (js_objects p)[i := m]\<rparr>) })"
| "js_exec (JSite key) p = Some (ONone, p\<lparr>js_sites := js_sites p @ [(key, ic_invalid)]\<rparr>)"
| "js_exec (JGetProp j i) p =
     (case (vec_get (js_sites p) j, vec_get (js_objects p) i) of
        (Some (key, ic), Some m) \<Rightarrow> do {
          (x, ic, m, w) \<leftarrow> get_own (js_world_of p) ic m key;
          Some (OVal x, \<lparr>js_world_of = w, js_objects = (js_objects p)[i := m], js_sites = (js_sites p)[j := (key, ic)]\<rparr>) }
      | _ \<Rightarrow> Some (ONone, p))"

type_synonym 'v al_process = "(string \<times> 'v) list list \<times> string list"

fun al_process_exec :: "'v js_op \<Rightarrow> 'v al_process \<Rightarrow> 'v js_obs \<times> 'v al_process" where
  "al_process_exec JNew (als, keys) = (ONone, als @ [[]], keys)"
| "al_process_exec JDefault (als, keys) = (ONone, als @ [[]], keys)"
| "al_process_exec (JFromIter kvs) (als, keys) = (ONone, als @ [al_extend kvs []], keys)"
| "al_process_exec (JClone i) (als, keys) = (ONone, if i < length als then als @ [als ! i] else als, keys)"
| "al_process_exec (JOn i op) (als, keys) =
     (if i < length als
      then (fst (al_exec op (als ! i)), als[i := snd (al_exec op (als ! i))], keys)
      else (ONone, als, keys))"
| "al_process_exec (JSite key) (als, keys) = (ONone, als, keys @ [key])"
| "al_process_exec (JGetProp j i) (als, keys) =
     (if j < length keys \<and> i < length als then OVal (map_of (als ! i) (keys ! j)) else ONone, als, keys)"

fun js_cost :: "'v js_op \<Rightarrow> 'v al_process \<Rightarrow> nat" where
  "js_cost (JFromIter kvs) a = 1 + 2 * length kvs"
| "js_cost (JOn i op) (als, keys) = (if i < length als then om_cost op (als ! i) else 0)"
| "js_cost (JGetProp j i) (als, keys) = (if i < length als then length (als ! i) else 0)"
| "js_cost op a = 1"

definition js_rel :: "nat \<Rightarrow> 'v js_process \<Rightarrow> 'v al_process \<Rightarrow> bool" where
  "js_rel n p a \<longleftrightarrow> world_ok (js_world_of p) \<and> room (js_world_of p) n \<and>
     list_all2 (om_rel (js_world_of p)) (js_objects p) (fst a) \<and>
     list_all2 (\<lambda>(key, ic) key'. key' = key \<and> site_ok (js_world_of p) key ic) (js_sites p) (snd a)"

lemma objects_grow: "list_all2 (om_rel w) ms als \<Longrightarrow> world_grows w w' n \<Longrightarrow> list_all2 (om_rel w') ms als"
  by (erule list_all2_mono) (rule om_rel_grows)

lemma sites_grow:
  "list_all2 (\<lambda>(key, ic) key'. key' = key \<and> site_ok w key ic) ss keys \<Longrightarrow> world_grows w w' n \<Longrightarrow>
   list_all2 (\<lambda>(key, ic) key'. key' = key \<and> site_ok w' key ic) ss keys"
  by (erule list_all2_mono) (auto intro: site_ok_grows)

text \<open>One object replaced or added by an operation that takes \<open>c\<close> of the budget.\<close>

lemma js_rel_update:
  assumes p: "js_rel (c + n) p (als, keys)" and g: "world_grows (js_world_of p) w c" and m: "om_rel w m al"
  shows "js_rel n (p\<lparr>js_world_of := w, js_objects := (js_objects p)[i := m]\<rparr>) (als[i := al], keys)"
    and "js_rel n (p\<lparr>js_world_of := w, js_objects := js_objects p @ [m]\<rparr>) (als @ [al], keys)"
proof -
  have "room w n" using world_grows_room [OF g] p by (simp add: js_rel_def)
  moreover have "list_all2 (om_rel w) (js_objects p) als" using p g by (auto simp: js_rel_def intro: objects_grow)
  moreover have "list_all2 (\<lambda>(key, ic) key'. key' = key \<and> site_ok w key ic) (js_sites p) keys"
    using p g by (auto simp: js_rel_def intro: sites_grow)
  ultimately show "js_rel n (p\<lparr>js_world_of := w, js_objects := (js_objects p)[i := m]\<rparr>) (als[i := al], keys)"
    "js_rel n (p\<lparr>js_world_of := w, js_objects := js_objects p @ [m]\<rparr>) (als @ [al], keys)"
    using world_grows_ok [OF g] m by (simp_all add: js_rel_def list_all2_update_cong list_all2_appendI)
qed

lemma js_rel_mono: "js_rel (c + n) p a \<Longrightarrow> js_rel n p a"
  by (auto simp: js_rel_def room_def)

lemma js_rel_get:
  assumes "js_rel n p (als, keys)"
  shows "vec_get (js_objects p) i = None \<Longrightarrow> length als \<le> i"
    and "vec_get (js_objects p) i = Some m \<Longrightarrow> i < length als \<and> om_rel (js_world_of p) m (als ! i)"
    and "vec_get (js_sites p) j = None \<Longrightarrow> length keys \<le> j"
    and "vec_get (js_sites p) j = Some (key, ic) \<Longrightarrow> j < length keys \<and> keys ! j = key \<and> site_ok (js_world_of p) key ic"
  using assms by (auto simp: js_rel_def vec_simps list_all2_conv_all_nth)

lemma js_step_simulates:
  fixes op :: "'v js_op"
  assumes p: "js_rel (js_cost op (als, keys) + n) p (als, keys)"
  shows "\<exists>p'. js_exec op p = Some (fst (al_process_exec op (als, keys)), p') \<and> js_rel n p' (snd (al_process_exec op (als, keys)))"
proof (cases op)
  case JNew
  then have "room (js_world_of p) (1 + n)" using p by (simp add: js_rel_def)
  then obtain m :: "'v ordered_map" and w where c: "om_new (js_world_of p) = (m, w)" "om_rel w m []" "world_grows (js_world_of p) w 1"
    using new_rel [of "js_world_of p" "1 + n"] p by (auto simp: js_rel_def)
  then show ?thesis using js_rel_update(2) [of 1 n p als keys, OF _ c(3,2)] p JNew by simp
next
  case JDefault
  then have "room (js_world_of p) (1 + n)" using p by (simp add: js_rel_def)
  then obtain m :: "'v ordered_map" and w where c: "om_default (js_world_of p) = (m, w)" "om_rel w m []" "world_grows (js_world_of p) w 1"
    using default_rel [of "js_world_of p" "1 + n"] p by (auto simp: js_rel_def)
  then show ?thesis using js_rel_update(2) [of 1 n p als keys, OF _ c(3,2)] p JDefault by simp
next
  case (JFromIter kvs)
  then have "room (js_world_of p) (1 + 2 * length kvs + n)" using p by (simp add: js_rel_def)
  then obtain m w where c: "om_from_iter (js_world_of p) kvs = Some (m, w)" "om_rel w m (al_extend kvs [])"
      "world_grows (js_world_of p) w (1 + 2 * length kvs)"
    using from_iter_rel [of "js_world_of p" "1 + 2 * length kvs + n" kvs] p by (auto simp: js_rel_def)
  then show ?thesis using js_rel_update(2) [of "1 + 2 * length kvs" n p als keys, OF _ c(3,2)] p JFromIter by simp
next
  case (JClone i)
  show ?thesis
  proof (cases "vec_get (js_objects p) i")
    case None
    then show ?thesis using JClone js_rel_mono [OF p] js_rel_get(1) [OF p None] by simp
  next
    case (Some m)
    have "js_rel n (p\<lparr>js_objects := js_objects p @ [m]\<rparr>) (als @ [als ! i], keys)"
      using js_rel_mono [OF p] js_rel_get(2) [OF p Some] by (simp add: js_rel_def list_all2_appendI)
    then show ?thesis using JClone Some js_rel_get(2) [OF p Some] by simp
  qed
next
  case (JOn i op')
  show ?thesis
  proof (cases "vec_get (js_objects p) i")
    case None
    then show ?thesis using JOn js_rel_mono [OF p] js_rel_get(1) [OF p None] by simp
  next
    case (Some m)
    note i = js_rel_get(2) [OF p Some]
    have p': "js_rel (om_cost op' (als ! i) + n) p (als, keys)" using p i JOn by simp
    then have "yields (js_world_of p) (om_cost op' (als ! i)) (om_exec op' (js_world_of p) m)
        (fst (al_exec op' (als ! i))) (snd (al_exec op' (als ! i)))"
      using i by (intro om_exec_rel) (auto simp: js_rel_def)
    then obtain m' w' where "om_exec op' (js_world_of p) m = Some (fst (al_exec op' (als ! i)), m', w')"
        "om_rel w' m' (snd (al_exec op' (als ! i)))" "world_grows (js_world_of p) w' (om_cost op' (als ! i))"
      by (auto simp: yields_def)
    then show ?thesis using JOn Some i js_rel_update(1) [OF p'] by simp
  qed
next
  case (JSite key)
  then show ?thesis using js_rel_mono [OF p] by (auto simp: js_rel_def list_all2_appendI invalid_ok)
next
  case (JGetProp j i)
  show ?thesis
  proof (cases "vec_get (js_sites p) j = None \<or> vec_get (js_objects p) i = None")
    case True
    then have "\<not> (j < length keys \<and> i < length als)" using js_rel_get(1) [OF p, of i] js_rel_get(3) [OF p, of j] by linarith
    then show ?thesis using JGetProp js_rel_mono [OF p] True by (auto split: option.splits)
  next
    case False
    then obtain key ic m where get: "vec_get (js_sites p) j = Some (key, ic)" "vec_get (js_objects p) i = Some m" by auto
    note j = js_rel_get(4) [OF p get(1)] and i = js_rel_get(2) [OF p get(2)]
    have p': "js_rel (length (als ! i) + n) p (als, keys)" using p i JGetProp by simp
    then have "world_ok (js_world_of p)" "room (js_world_of p) (length (als ! i) + n)" by (simp_all add: js_rel_def)
    then obtain ic' m' w' where g: "get_own (js_world_of p) ic m key = Some (map_of (als ! i) key, ic', m', w')"
        "om_rel w' m' (als ! i)" "world_grows (js_world_of p) w' (length (als ! i))" "site_ok w' key ic'"
      using get_own_rel [of "js_world_of p" _ "als ! i" m key ic] i j by (metis le_add1)
    have "js_rel n (p\<lparr>js_world_of := w', js_objects := (js_objects p)[i := m']\<rparr>) (als, keys)"
      using js_rel_update(1) [OF p' g(3,2), of i] by simp
    then have "js_rel n \<lparr>js_world_of = w', js_objects = (js_objects p)[i := m'], js_sites = (js_sites p)[j := (key, ic')]\<rparr> (als, keys)"
      using list_all2_update_cong [of "\<lambda>(key, ic) key'. key' = key \<and> site_ok w' key ic" "js_sites p" keys "(key, ic')" key j] j g(4)
      by (auto simp: js_rel_def)
    then show ?thesis using JGetProp get g(1) i j by simp
  qed
qed


interpretation js: budgeted_simulation js_exec al_process_exec js_cost js_rel
proof
  fix op :: "'v js_op" and a n p
  assume "js_rel (js_cost op a + n) p a"
  then show "\<exists>p'. js_exec op p = Some (fst (al_process_exec op a), p') \<and> js_rel n p' (snd (al_process_exec op a))"
    by (cases a) (simp only: js_step_simulates)
qed

lemma start_rel: "n \<le> 4294967293 \<Longrightarrow> js_rel n (js_start shaped) ([], [])"
  by (simp add: js_rel_def js_start_def world_ok_def room_def table_new_ok)
    (simp add: table_new_def table_len_def)

text \<open>What the relation says about the stores of one process.\<close>

lemma stores_of_process:
  assumes "js_rel n p a" "m \<in> set (js_objects p)"
  obtains al where "om_rel (js_world_of p) m al"
  using assms by (auto simp: js_rel_def in_set_conv_nth list_all2_conv_all_nth)

lemma shaped_store:
  assumes "om_rel w m al" "is_shaped m"
  shows "known w (shape_header m) (map fst al)" "om_keys w m = Some (map fst al)"
  using assms by (auto simp: is_shaped_def shape_header_def keys_rel elim!: om_rel_cases)

lemma known_same:
  assumes "world_ok w" "known w s ks" "known w s' ks'"
  shows "s = s' \<longleftrightarrow> ks = ks'"
  using assms shapes_interned [of "w_table w" "unat s" "unat s'"]
  by (auto simp: known_def world_ok_def unat_inj_iff)

section \<open>Properties\<close>

text \<open>C1: JavaScript objects behave as insertion-ordered association lists. Any sequence of creations,
  clones, map operations and cached property reads runs to its end, without an index out of range or
  an \<open>unreachable!\<close>, and returns what the same sequence returns on association lists, as long as
  the shapes and versions it can take fit below the reserved shape identifiers.\<close>

theorem js_objects_refine_lists:
  assumes "spec_cost al_process_exec js_cost ops ([], []) \<le> 4294967293"
  shows "\<exists>p. run js_exec ops (js_start shaped) = Some (fst (spec_run al_process_exec ops ([], [])), p)"
  using js.run_simulates [of ops "([], [])" 0 "js_start shaped"] start_rel [OF assms] by auto

definition demo_script :: "nat js_op list" where
  "demo_script = [JNew, JSite ''b'', JOn 0 (Insert ''a'' 1), JOn 0 (Insert ''b'' 2), JGetProp 0 0, JGetProp 0 0,
     JClone 0, JOn 0 (Remove ''a''), JOn 0 (Insert ''a'' 3), JGetProp 0 0, JOn 0 Keys, JGetProp 0 1, JOn 1 Iter]"

lemma demo_script_cost: "spec_cost al_process_exec js_cost demo_script ([], []) \<le> 4294967293"
  by (simp add: demo_script_def)

theorem js_objects_refine_lists_witness:
  "\<exists>p. run js_exec demo_script (js_start True) =
     Some ([ONone, ONone, OVal None, OVal None, OVal (Some 2), OVal (Some 2), ONone, OVal (Some 1), OVal None,
            OVal (Some 2), OKeys [''b'', ''a''], OVal (Some 2), OEntries [(''a'', 1), (''b'', 2)]], p)"
  using js_objects_refine_lists [OF demo_script_cost, of True] by (simp add: demo_script_def)



text \<open>C10: the shape header that compiled code compares is exact. In every state of a process the header
  of a shaped object is the identifier of its store and the header of a dictionary is reserved, and two
  shaped objects carry the same header exactly when they have the same keys in the same order.\<close>

theorem js_shape_header_exact:
  assumes "spec_cost al_process_exec js_cost ops ([], []) \<le> 4294967293"
    and "run js_exec ops (js_start shaped) = Some (xs, p)"
    and "m \<in> set (js_objects p)" "m' \<in> set (js_objects p)"
  shows "(case om_store m of Shaped s slots \<Rightarrow> shape_header m = s \<and> s \<notin> {DICT_SHAPE, BORN_DICT_SHAPE}
      | Dict entries index \<Rightarrow> shape_header m \<in> {DICT_SHAPE, BORN_DICT_SHAPE}) \<and>
    (is_shaped m \<and> is_shaped m' \<longrightarrow>
      (shape_header m = shape_header m' \<longleftrightarrow> om_keys (js_world_of p) m = om_keys (js_world_of p) m'))"
proof -
  have p: "js_rel 0 p (snd (spec_run al_process_exec ops ([], [])))"
    using js.run_simulates [of ops "([], [])" 0 "js_start shaped"] start_rel [OF assms(1)] assms(2) by auto
  then have w: "world_ok (js_world_of p)" "room (js_world_of p) 0" by (simp_all add: js_rel_def)
  obtain al where al: "om_rel (js_world_of p) m al" by (rule stores_of_process [OF p assms(3)])
  obtain al' where al': "om_rel (js_world_of p) m' al'" by (rule stores_of_process [OF p assms(4)])
  from al have "case om_store m of Shaped s slots \<Rightarrow> shape_header m = s \<and> s \<notin> {DICT_SHAPE, BORN_DICT_SHAPE}
      | Dict entries index \<Rightarrow> shape_header m \<in> {DICT_SHAPE, BORN_DICT_SHAPE}"
    using known_not_reserved [OF _ w(2)] by (cases rule: om_rel_cases) (auto simp: shape_header_def)
  then show ?thesis using shaped_store [OF al] shaped_store [OF al'] known_same [OF w(1)] by auto
qed

text \<open>Two objects built by the same insertion.\<close>

definition demo_pair :: "nat js_op list" where
  "demo_pair = [JNew, JOn 0 (Insert ''a'' 1), JNew, JOn 1 (Insert ''a'' 2)]"

lemma demo_pair_run:
  "\<exists>xs p. run js_exec demo_pair (js_start True) = Some (xs, p) \<and> length (js_objects p) = 2 \<and>
     is_shaped (js_objects p ! 0) \<and> is_shaped (js_objects p ! 1) \<and>
     om_keys (js_world_of p) (js_objects p ! 0) = Some [''a''] \<and> om_keys (js_world_of p) (js_objects p ! 1) = Some [''a'']"
  by (simp add: demo_pair_def js_start_def om_new_def fresh_struct_ver_def bump_struct_ver_def om_insert_def is_shaped_def
      shaped_intern_slot_def string_key_forces_deopt_def is_array_index_key_def parse_u32_def is_digit_char_def
      is_engine_sentinel_key_def global_shape_lookup_def table_shape_def table_new_def shape_empty_def vec_get_def
      shape_lookup_def global_empty_shape_def global_add_property_def add_property_def mirror_shape_header_def
      SHAPED_SLOT_CAP_def om_keys_def global_shape_properties_def store_header_def Let_def)

theorem js_shape_header_exact_witness:
  "\<exists>xs p. run js_exec demo_pair (js_start True) = Some (xs, p) \<and>
     shape_header (js_objects p ! 0) = shape_header (js_objects p ! 1)"
proof -
  obtain xs p where r: "run js_exec demo_pair (js_start True) = Some (xs, p)" "length (js_objects p) = 2"
      "is_shaped (js_objects p ! 0)" "is_shaped (js_objects p ! 1)"
      "om_keys (js_world_of p) (js_objects p ! 0) = om_keys (js_world_of p) (js_objects p ! 1)"
    using demo_pair_run by metis
  have "spec_cost al_process_exec js_cost demo_pair ([], []) \<le> 4294967293" by (simp add: demo_pair_def)
  from js_shape_header_exact [OF this r(1), of "js_objects p ! 0" "js_objects p ! 1"] r show ?thesis by auto
qed

end
