(* ===== verification/Key_Order.thy ===== *)
theory Key_Order
  imports Ordered "HOL-Library.Multiset"
begin

text \<open>
  The order of own property keys, \<open>order_keys_v8\<close> of \<^verbatim>\<open>crates/cv_js/src/interp.rs\<close>: decimal
  parsing and printing of array indices, and what the reordering keeps of the keys.
\<close>

section \<open>Decimal numbers\<close>

definition digit_char :: "nat \<Rightarrow> char" where
  "digit_char d = char_of (48 + d)"

lemma digit_char_nat: "d < 10 \<Longrightarrow> of_char (digit_char d) = 48 + d"
  by (simp add: digit_char_def)

lemma digit_char_digit: "d < 10 \<Longrightarrow> is_digit_char (digit_char d)"
  by (simp add: is_digit_char_def digit_char_nat)

lemma digit_charE:
  assumes "is_digit_char c"
  obtains d where "d < 10" "c = digit_char d"
proof -
  have "of_char c - (48 :: nat) < 10" "48 + (of_char c - (48 :: nat)) = of_char c"
    using assms by (auto simp: is_digit_char_def)
  moreover from this have "c = digit_char (of_char c - 48)" by (simp add: digit_char_def)
  ultimately show thesis using that by blast
qed

lemma nat_to_string_small: "n < 10 \<Longrightarrow> nat_to_string n = [digit_char n]"
  by (simp add: nat_to_string.simps [of n] digit_char_def)

lemma nat_to_string_step: "0 < n \<Longrightarrow> d < 10 \<Longrightarrow> nat_to_string (n * 10 + d) = nat_to_string n @ [digit_char d]"
  by (subst nat_to_string.simps) (simp add: digit_char_def)

lemma parse_digits_digit:
  "d < 10 \<Longrightarrow> parse_digits (digit_char d # cs) n = (if n * 10 + d < 4294967296 then parse_digits cs (n * 10 + d) else None)"
  by (simp add: digit_char_digit digit_char_nat Let_def)

lemma print_parse_digits:
  "parse_digits cs n = Some r \<Longrightarrow> 0 < n \<Longrightarrow> nat_to_string r = nat_to_string n @ cs"
proof (induction cs arbitrary: n)
  case (Cons c cs)
  then have "is_digit_char c" by (auto split: if_splits)
  then obtain d where d: "d < 10" "c = digit_char d" by (rule digit_charE)
  then have "parse_digits cs (n * 10 + d) = Some r" using Cons.prems(1) by (simp add: parse_digits_digit del: parse_digits.simps split: if_splits)
  from Cons.IH [OF this] show ?case using Cons.prems(2) d by (simp add: nat_to_string_step)
qed simp

lemma parse_print_digits:
  "n < 4294967296 \<Longrightarrow> parse_digits (nat_to_string n @ cs) 0 = parse_digits cs n"
proof (induction n arbitrary: cs rule: less_induct)
  case (less n)
  show ?case
  proof (cases "n < 10")
    case True
    then show ?thesis by (simp add: nat_to_string_small parse_digits_digit del: parse_digits.simps)
  next
    case False
    have n: "n = n div 10 * 10 + n mod 10" by simp
    have p: "nat_to_string n = nat_to_string (n div 10) @ [digit_char (n mod 10)]"
      using nat_to_string_step [of "n div 10" "n mod 10"] False by simp
    have "parse_digits (nat_to_string n @ cs) 0 = parse_digits (digit_char (n mod 10) # cs) (n div 10)"
      unfolding p using less.IH [of "n div 10"] less.prems False by simp
    also have "\<dots> = parse_digits cs n"
      using less.prems by (simp add: parse_digits_digit del: parse_digits.simps)
    finally show ?thesis .
  qed
qed

lemma nat_to_string_hd: "\<exists>d cs. nat_to_string n = digit_char d # cs \<and> d < 10"
proof (induction n rule: less_induct)
  case (less n)
  show ?case
  proof (cases "n < 10")
    case True
    then show ?thesis by (auto simp: nat_to_string_small)
  next
    case False
    then show ?thesis using less.IH [of "n div 10"] nat_to_string_step [of "n div 10" "n mod 10"] by auto
  qed
qed

lemma digit_not_plus: "d < 10 \<Longrightarrow> digit_char d \<noteq> CHR ''+''"
  using digit_char_digit [of d] by (auto simp: is_digit_char_def)

lemma parse_print: "n < 4294967296 \<Longrightarrow> parse_u32 (nat_to_string n) = Some n"
  using nat_to_string_hd [of n] parse_print_digits [of n "[]"]
  by (auto simp: parse_u32_def digit_not_plus)

lemma parse_bound: "parse_digits cs n = Some r \<Longrightarrow> n < 4294967296 \<Longrightarrow> r < 4294967296"
  by (induction cs arbitrary: n) (auto simp: Let_def split: if_splits)

lemma parse_u32_bound: "parse_u32 k = Some n \<Longrightarrow> n < 4294967296"
  by (auto simp: parse_u32_def simp del: parse_digits.simps dest: parse_bound split: list.splits if_splits)

lemma print_parse_index:
  assumes k: "is_array_index_key k" "hd k \<noteq> CHR ''+''"
  shows "nat_to_string (the (parse_u32 k)) = k"
proof -
  obtain n where n: "parse_u32 k = Some n" using k(1) by (auto simp: is_array_index_key_def split: option.splits if_splits)
  obtain c cs where c: "k = c # cs" using k(1) by (cases k) (auto simp: is_array_index_key_def)
  have p: "parse_digits (c # cs) 0 = Some n" using n k(2) by (auto simp: parse_u32_def c)
  then have "is_digit_char c" by (auto split: if_splits)
  then obtain d where d: "d < 10" "c = digit_char d" by (rule digit_charE)
  then have q: "parse_digits cs d = Some n" using p by (simp add: parse_digits_digit del: parse_digits.simps)
  show ?thesis
  proof (cases "d = 0")
    case True
    have "digit_char 0 = CHR ''0''" by (simp add: digit_char_def char_of_def bit_0)
    then have "cs = []" using k(1) True d by (auto simp: is_array_index_key_def c split: if_splits)
    then show ?thesis using q d True n c by (simp add: nat_to_string_small)
  next
    case False
    then show ?thesis using print_parse_digits [OF q] d n c by (simp add: nat_to_string_small)
  qed
qed

section \<open>Properties\<close>

definition index_value :: "string \<Rightarrow> nat" where
  "index_value k = the (parse_u32 k)"

lemma order_keys_eq:
  "order_keys_v8 keys = Some (map nat_to_string (sort (map index_value (filter is_array_index_key keys)))
     @ filter (\<lambda>k. \<not> is_array_index_key k) keys)"
  by (auto simp: order_keys_v8_def is_array_index_key_def index_value_def [abs_def] comp_def split: option.splits if_splits)

lemma index_value_bound: "is_array_index_key k \<Longrightarrow> index_value k < 4294967296"
  by (auto simp: is_array_index_key_def index_value_def dest: parse_u32_bound split: option.splits if_splits)

text \<open>C40: \<open>order_keys_v8\<close> returns for every list of keys; it puts the array indices first in ascending
  numeric order and keeps the insertion order of the other keys, and it returns the same keys exactly
  when no array index is written with a plus sign. A key such as \<open>+5\<close>, which is not a canonical array
  index, is treated as one and comes back as another string.\<close>

theorem order_keys_v8_orders:
  "\<exists>ints. order_keys_v8 keys = Some (ints @ filter (\<lambda>k. \<not> is_array_index_key k) keys) \<and>
     sorted (map index_value ints) \<and> map index_value ints = sort (map index_value (filter is_array_index_key keys)) \<and>
     (mset ints = mset (filter is_array_index_key keys) \<longleftrightarrow>
       filter (\<lambda>k. is_array_index_key k \<and> hd k = CHR ''+'') keys = [])"
proof -
  define idx where "idx = filter is_array_index_key keys"
  define ints where "ints = map nat_to_string (sort (map index_value idx))"
  have bound: "n < 4294967296" if "n \<in> set (sort (map index_value idx))" for n
    using that by (auto simp: idx_def index_value_bound)
  have vals: "map index_value ints = sort (map index_value idx)"
    unfolding ints_def map_map by (rule map_idI) (simp add: index_value_def parse_print bound)
  have ms: "mset ints = mset (map (\<lambda>k. nat_to_string (index_value k)) idx)"
    by (simp add: ints_def multiset.map_comp comp_def)
  have "mset ints = mset idx \<longleftrightarrow> filter (\<lambda>k. is_array_index_key k \<and> hd k = CHR ''+'') keys = []"
  proof
    assume eq: "mset ints = mset idx"
    have "hd k \<noteq> CHR ''+''" if "k \<in> set idx" for k
    proof -
      have "k \<in> set ints" using that eq by (metis set_mset_mset)
      then obtain n where "k = nat_to_string n" by (auto simp: ints_def)
      then show ?thesis using nat_to_string_hd [of n] digit_not_plus by auto
    qed
    then show "filter (\<lambda>k. is_array_index_key k \<and> hd k = CHR ''+'') keys = []"
      by (auto simp: idx_def filter_empty_conv)
  next
    assume "filter (\<lambda>k. is_array_index_key k \<and> hd k = CHR ''+'') keys = []"
    then have "map (\<lambda>k. nat_to_string (index_value k)) idx = idx"
      by (intro map_idI) (auto simp: idx_def filter_empty_conv index_value_def print_parse_index)
    then show "mset ints = mset idx" by (simp add: ms)
  qed
  then show ?thesis using vals order_keys_eq [of keys] by (intro exI [of _ ints]) (simp add: ints_def idx_def)
qed

lemma order_keys_v8_plus: "order_keys_v8 [''+5'', ''b'', ''5''] = Some [''5'', ''5'', ''b'']"
  by (simp add: order_keys_eq index_value_def is_array_index_key_def parse_u32_def is_digit_char_def nat_to_string.simps char_of_def bit_0)

end
