(* ===== verification/Sched.thy ===== *)
theory Sched
  imports Prelude "HOL-Library.Multiset"
begin

text \<open>
  The compute work pool of \<^verbatim>\<open>crates/cv_sched/src/lib.rs\<close>. The three-band queue is modelled as it
  is; the threads are a step relation over the states of the workers and of the owner. A critical
  section under the mutex is one step, because nothing else reads the state in between; the notification
  that follows it is a step of its own. A waiting worker may wake at any time, as a condition
  variable allows. Which jobs panic is a parameter: a panic ends its worker, outside the lock.
\<close>

section \<open>The queue\<close>

datatype priority = High | Normal | Low

record 'j inner =
  in_high :: "'j list"
  in_normal :: "'j list"
  in_low :: "'j list"
  in_shutdown :: bool

definition inner_default :: "'j inner" where
  "inner_default = \<lparr>in_high = [], in_normal = [], in_low = [], in_shutdown = False\<rparr>"

fun inner_push :: "'j inner \<Rightarrow> priority \<Rightarrow> 'j \<Rightarrow> 'j inner" where
  "inner_push q High job = q\<lparr>in_high := in_high q @ [job]\<rparr>"
| "inner_push q Normal job = q\<lparr>in_normal := in_normal q @ [job]\<rparr>"
| "inner_push q Low job = q\<lparr>in_low := in_low q @ [job]\<rparr>"

definition inner_pop :: "'j inner \<Rightarrow> ('j \<times> 'j inner) option" where
  "inner_pop q =
     (case in_high q of
        job # rest \<Rightarrow> Some (job, q\<lparr>in_high := rest\<rparr>)
      | [] \<Rightarrow>
          (case in_normal q of
             job # rest \<Rightarrow> Some (job, q\<lparr>in_normal := rest\<rparr>)
           | [] \<Rightarrow>
               (case in_low q of
                  job # rest \<Rightarrow> Some (job, q\<lparr>in_low := rest\<rparr>)
                | [] \<Rightarrow> None)))"

definition inner_pending :: "'j inner \<Rightarrow> nat" where
  "inner_pending q = length (in_high q) + length (in_normal q) + length (in_low q)"

section \<open>What a priority queue promises\<close>

text \<open>A queue is a list of prioritised jobs in order of submission; \<open>pop\<close> takes the first one of the
  most urgent priority.\<close>

definition rank :: "priority \<Rightarrow> nat" where
  "rank p = (case p of High \<Rightarrow> 0 | Normal \<Rightarrow> 1 | Low \<Rightarrow> 2)"

fun drain_with :: "('q \<Rightarrow> ('j \<times> 'q) option) \<Rightarrow> nat \<Rightarrow> 'q \<Rightarrow> 'j list" where
  "drain_with pop 0 q = []"
| "drain_with pop (Suc n) q = (case pop q of None \<Rightarrow> [] | Some (j, q) \<Rightarrow> j # drain_with pop n q)"

locale fifo_bands =
  fixes fresh :: 'q
    and push :: "'q \<Rightarrow> 'p \<Rightarrow> 'j \<Rightarrow> 'q"
    and pop :: "'q \<Rightarrow> ('j \<times> 'q) option"
    and pending :: "'q \<Rightarrow> nat"
    and key :: "'p \<Rightarrow> nat"
    and holds :: "'q \<Rightarrow> ('p \<times> 'j) list \<Rightarrow> bool"
  assumes fresh_holds: "holds fresh []"
    and push_holds: "holds q xs \<Longrightarrow> holds (push q p j) (xs @ [(p, j)])"
    and pop_None: "holds q xs \<Longrightarrow> pop q = None \<longleftrightarrow> xs = []"
    and pop_Some: "holds q xs \<Longrightarrow> pop q = Some (j, q') \<Longrightarrow>
      \<exists>p ys zs. sort_key (key \<circ> fst) xs = (p, j) # sort_key (key \<circ> fst) (ys @ zs) \<and> xs = ys @ (p, j) # zs \<and> holds q' (ys @ zs)"
    and pending_holds: "holds q xs \<Longrightarrow> pending q = length xs"
begin

lemma drain_sorts:
  "holds q xs \<Longrightarrow> drain_with pop (pending q) q = map snd (sort_key (key \<circ> fst) xs)"
proof (induction "length xs" arbitrary: q xs)
  case 0
  then show ?case using pending_holds [OF 0(2)] by simp
next
  case (Suc n)
  then obtain j q' where p: "pop q = Some (j, q')" using pop_None [OF Suc.prems] by (cases "pop q") auto
  obtain pr ys zs where s: "sort_key (key \<circ> fst) xs = (pr, j) # sort_key (key \<circ> fst) (ys @ zs)"
      "xs = ys @ (pr, j) # zs" "holds q' (ys @ zs)"
    using pop_Some [OF Suc.prems p] by blast
  have "n = length (ys @ zs)" using Suc.hyps(2) s(2) by simp
  then have "drain_with pop (pending q') q' = map snd (sort_key (key \<circ> fst) (ys @ zs))"
    using Suc.hyps(1) s(3) by blast
  moreover have "pending q = Suc (pending q')"
    using pending_holds [OF Suc.prems] pending_holds [OF s(3)] s(2) by simp
  ultimately show ?case using p s(1) by simp
qed

lemma pushes_hold: "holds q xs \<Longrightarrow> holds (fold (\<lambda>(p, j) q. push q p j) ys q) (xs @ ys)"
proof (induction ys arbitrary: q xs)
  case (Cons y ys)
  obtain p j where y: "y = (p, j)" by (cases y)
  show ?case using Cons.IH [OF push_holds [OF Cons.prems, of p j]] by (simp add: y)
qed simp

lemma pushes_drain_sorted:
  "drain_with pop (pending (fold (\<lambda>(p, j) q. push q p j) ys fresh)) (fold (\<lambda>(p, j) q. push q p j) ys fresh) =
   map snd (sort_key (key \<circ> fst) ys)"
  using drain_sorts [OF pushes_hold [OF fresh_holds]] by simp

end

definition band :: "priority \<Rightarrow> (priority \<times> 'j) list \<Rightarrow> 'j list" where
  "band p xs = map snd (filter (\<lambda>x. fst x = p) xs)"

definition inner_holds :: "'j inner \<Rightarrow> (priority \<times> 'j) list \<Rightarrow> bool" where
  "inner_holds q xs \<longleftrightarrow> in_high q = band High xs \<and> in_normal q = band Normal xs \<and> in_low q = band Low xs"

lemma band_append [simp]: "band p (xs @ ys) = band p xs @ band p ys"
  by (simp add: band_def)

lemma band_Cons [simp]: "band p (x # xs) = (if fst x = p then snd x # band p xs else band p xs)"
  by (simp add: band_def)

lemma band_Nil [simp]: "band p [] = []"
  by (simp add: band_def)

lemma band_first:
  assumes "band p xs = j # js"
  obtains ys zs where "xs = ys @ (p, j) # zs" "band p ys = []" "band p zs = js"
proof -
  obtain ys z zs where "xs = ys @ z # zs" "fst z = p" "filter (\<lambda>x. fst x = p) ys = []" "snd z = j" "band p zs = js"
    using assms unfolding band_def by (auto simp: map_eq_Cons_conv filter_eq_Cons_iff filter_empty_conv)
  then show thesis using that [of ys zs] by (cases z) (auto simp: band_def)
qed

lemma band_length: "length (band High xs) + length (band Normal xs) + length (band Low xs) = length xs"
proof (induction xs)
  case (Cons x xs)
  then show ?case by (cases "fst x") simp_all
qed simp


text \<open>The first job of the most urgent non-empty band is the head of the stable sort.\<close>

lemma sort_first:
  assumes "\<And>y. y \<in> set ys \<Longrightarrow> f x < f y" "\<And>z. z \<in> set zs \<Longrightarrow> f x \<le> (f z :: nat)"
  shows "sort_key f (ys @ x # zs) = x # sort_key f (ys @ zs)"
  using assms(1)
proof (induction ys)
  case Nil
  then show ?case using assms(2) by (simp add: insort_is_Cons)
next
  case (Cons y ys)
  have "\<not> f y \<le> f x" using Cons.prems [of y] by simp
  moreover have "sort_key f (ys @ x # zs) = x # sort_key f (ys @ zs)" using Cons.IH Cons.prems by simp
  ultimately show ?case by simp
qed

lemma band_empty: "band p xs = [] \<longleftrightarrow> p \<notin> fst ` set xs"
  by (auto simp: band_def filter_empty_conv)

lemma inner_pop_first:
  assumes h: "inner_holds q xs" and p: "inner_pop q = Some (j, q')"
  shows "\<exists>p ys zs. sort_key (rank \<circ> fst) xs = (p, j) # sort_key (rank \<circ> fst) (ys @ zs) \<and>
    xs = ys @ (p, j) # zs \<and> inner_holds q' (ys @ zs)"
proof -
  obtain pr js where b: "band pr xs = j # js" "\<forall>p'. rank p' < rank pr \<longrightarrow> band p' xs = []"
      "q' = (case pr of High \<Rightarrow> q\<lparr>in_high := js\<rparr> | Normal \<Rightarrow> q\<lparr>in_normal := js\<rparr> | Low \<Rightarrow> q\<lparr>in_low := js\<rparr>)"
  proof -
    consider js where "in_high q = j # js" "q' = q\<lparr>in_high := js\<rparr>"
      | js where "in_high q = []" "in_normal q = j # js" "q' = q\<lparr>in_normal := js\<rparr>"
      | js where "in_high q = []" "in_normal q = []" "in_low q = j # js" "q' = q\<lparr>in_low := js\<rparr>"
      using p by (auto simp: inner_pop_def split: list.splits)
    then show thesis
      by cases (use h in \<open>auto simp: inner_holds_def rank_def split: priority.splits intro!: that\<close>)
  qed
  obtain ys zs where s: "xs = ys @ (pr, j) # zs" "band pr ys = []" "band pr zs = js" by (rule band_first [OF b(1)])
  have le: "rank pr \<le> rank (fst x)" if "x \<in> set xs" for x
    using b(2) that by (metis band_empty image_eqI leI)
  have "rank pr < rank (fst y)" if "y \<in> set ys" for y
  proof -
    have "fst y \<noteq> pr" using s(2) that by (auto simp: band_empty)
    then have "rank pr \<noteq> rank (fst y)" by (cases pr; cases "fst y") (auto simp: rank_def)
    then show ?thesis using le [of y] that s(1) by simp
  qed
  then have "sort_key (rank \<circ> fst) xs = (pr, j) # sort_key (rank \<circ> fst) (ys @ zs)"
    unfolding s(1) using le s(1) by (intro sort_first) auto
  moreover have "inner_holds q' (ys @ zs)"
    using h b(3) s by (cases pr) (auto simp: inner_holds_def)
  ultimately show ?thesis using s(1) by blast
qed

lemma inner_push_holds: "inner_holds q xs \<Longrightarrow> inner_holds (inner_push q p j) (xs @ [(p, j)])"
  by (cases p) (simp_all add: inner_holds_def)

lemma inner_pop_None: "inner_pop q = None \<longleftrightarrow> in_high q = [] \<and> in_normal q = [] \<and> in_low q = []"
  by (auto simp: inner_pop_def split: list.splits)

interpretation bands: fifo_bands inner_default inner_push inner_pop inner_pending rank inner_holds
proof
  fix q :: "'j inner" and xs p j q'
  show "inner_holds (inner_default :: 'j inner) []" by (simp add: inner_holds_def inner_default_def)
  assume h: "inner_holds q xs"
  then show "inner_holds (inner_push q p j) (xs @ [(p, j)])" by (rule inner_push_holds)
  have len: "inner_pending q = length xs" using h band_length [of xs] by (simp add: inner_pending_def inner_holds_def)
  then show "inner_pending q = length xs" .
  have "inner_pop q = None \<longleftrightarrow> inner_pending q = 0" by (auto simp: inner_pop_None inner_pending_def)
  then show "inner_pop q = None \<longleftrightarrow> xs = []" using len by simp
  assume "inner_pop q = Some (j, q')"
  then show "\<exists>p ys zs. sort_key (rank \<circ> fst) xs = (p, j) # sort_key (rank \<circ> fst) (ys @ zs) \<and>
      xs = ys @ (p, j) # zs \<and> inner_holds q' (ys @ zs)"
    using inner_pop_first [OF h] by blast
qed

section \<open>Workers and owner\<close>

datatype 'j worker = Looking | Waiting | Running 'j | Exited | Dead

datatype owner = Open | Notifying | Joining | Dropped

text \<open>The last three fields record the history of the jobs.\<close>

record 'j pool =
  pl_inner :: "'j inner"
  pl_workers :: "'j worker list"
  pl_notifies :: nat
  pl_owner :: owner
  pl_submitted :: "'j list"
  pl_finished :: "'j list"
  pl_panicked :: "'j list"

definition pool_new :: "nat \<Rightarrow> 'j pool" where
  "pool_new threads =
     \<lparr>pl_inner = inner_default, pl_workers = replicate (max threads 1) Looking, pl_notifies = 0, pl_owner = Open,
      pl_submitted = [], pl_finished = [], pl_panicked = []\<rparr>"

definition thread_count :: "'j pool \<Rightarrow> nat" where
  "thread_count s = length (pl_workers s)"

definition pool_pending :: "'j pool \<Rightarrow> nat" where
  "pool_pending s = inner_pending (pl_inner s)"

text \<open>One pass of a worker through its critical section.\<close>

definition worker_lock :: "'j inner \<Rightarrow> 'j worker \<times> 'j inner" where
  "worker_lock q =
     (case inner_pop q of
        Some (job, q) \<Rightarrow> (Running job, q)
      | None \<Rightarrow> (if in_shutdown q then Exited else Waiting, q))"

definition submit_locked :: "priority \<Rightarrow> 'j \<Rightarrow> 'j pool \<Rightarrow> 'j pool" where
  "submit_locked p job s =
     s\<lparr>pl_inner := inner_push (pl_inner s) p job, pl_notifies := pl_notifies s + 1, pl_submitted := pl_submitted s @ [job]\<rparr>"

definition notify_worker :: "'j worker \<Rightarrow> 'j worker" where
  "notify_worker x = (case x of Waiting \<Rightarrow> Looking | _ \<Rightarrow> x)"

definition set_worker :: "nat \<Rightarrow> 'j worker \<Rightarrow> 'j pool \<Rightarrow> 'j pool" where
  "set_worker i x s = s\<lparr>pl_workers := (pl_workers s)[i := x]\<rparr>"

definition worker_is :: "'j pool \<Rightarrow> nat \<Rightarrow> 'j worker \<Rightarrow> bool" where
  "worker_is s i x \<longleftrightarrow> i < length (pl_workers s) \<and> pl_workers s ! i = x"

inductive pool_step :: "('j \<Rightarrow> bool) \<Rightarrow> 'j pool \<Rightarrow> 'j pool \<Rightarrow> bool" for panics where
  submit: "pl_owner s = Open \<Longrightarrow> pool_step panics s (submit_locked p job s)"
| notify_one: "0 < pl_notifies s \<Longrightarrow> worker_is s i Waiting \<Longrightarrow>
    pool_step panics s (set_worker i Looking (s\<lparr>pl_notifies := pl_notifies s - 1\<rparr>))"
| notify_none: "0 < pl_notifies s \<Longrightarrow> Waiting \<notin> set (pl_workers s) \<Longrightarrow>
    pool_step panics s (s\<lparr>pl_notifies := pl_notifies s - 1\<rparr>)"
| lock: "worker_is s i Looking \<Longrightarrow> worker_lock (pl_inner s) = (x, q) \<Longrightarrow>
    pool_step panics s (set_worker i x (s\<lparr>pl_inner := q\<rparr>))"
| wake: "worker_is s i Waiting \<Longrightarrow> pool_step panics s (set_worker i Looking s)"
| finish: "worker_is s i (Running job) \<Longrightarrow> \<not> panics job \<Longrightarrow>
    pool_step panics s (set_worker i Looking (s\<lparr>pl_finished := pl_finished s @ [job]\<rparr>))"
| panic: "worker_is s i (Running job) \<Longrightarrow> panics job \<Longrightarrow>
    pool_step panics s (set_worker i Dead (s\<lparr>pl_panicked := pl_panicked s @ [job]\<rparr>))"
| shutdown: "pl_owner s = Open \<Longrightarrow> pl_notifies s = 0 \<Longrightarrow>
    pool_step panics s (s\<lparr>pl_inner := (pl_inner s)\<lparr>in_shutdown := True\<rparr>, pl_owner := Notifying\<rparr>)"
| notify_all: "pl_owner s = Notifying \<Longrightarrow>
    pool_step panics s (s\<lparr>pl_workers := map notify_worker (pl_workers s), pl_owner := Joining\<rparr>)"
| join: "pl_owner s = Joining \<Longrightarrow> set (pl_workers s) \<subseteq> {Exited, Dead} \<Longrightarrow>
    pool_step panics s (s\<lparr>pl_owner := Dropped\<rparr>)"

section \<open>Where the jobs are\<close>

definition queued :: "'j inner \<Rightarrow> 'j multiset" where
  "queued q = mset (in_high q) + mset (in_normal q) + mset (in_low q)"

definition job_of :: "'j worker \<Rightarrow> 'j multiset" where
  "job_of x = (case x of Running job \<Rightarrow> {#job#} | _ \<Rightarrow> {#})"

definition in_flight :: "'j worker list \<Rightarrow> 'j multiset" where
  "in_flight xs = sum_list (map job_of xs)"

lemma sum_list_map_update:
  fixes f :: "'a \<Rightarrow> 'b::comm_monoid_add"
  shows "i < length xs \<Longrightarrow> sum_list (map f (xs[i := x])) + f (xs ! i) = sum_list (map f xs) + f x"
proof (induction xs arbitrary: i)
  case (Cons y ys)
  then show ?case by (cases i) (simp_all add: ac_simps)
qed simp

lemma queued_push: "queued (inner_push q p job) = add_mset job (queued q)"
  by (cases p) (simp_all add: queued_def)

lemma queued_pop: "inner_pop q = Some (job, q') \<Longrightarrow> queued q = add_mset job (queued q') \<and> in_shutdown q' = in_shutdown q"
  by (auto simp: inner_pop_def queued_def split: list.splits)

lemma queued_size: "size (queued q) = inner_pending q"
  by (simp add: queued_def inner_pending_def)

lemma pop_empty: "inner_pop q = None \<longleftrightarrow> inner_pending q = 0"
  by (auto simp: inner_pop_None inner_pending_def)

lemma push_shutdown: "in_shutdown (inner_push q p job) = in_shutdown q"
  by (cases p) simp_all

lemma worker_lock_cases:
  assumes "worker_lock q = (x, q')"
  obtains (job) job where "x = Running job" "inner_pop q = Some (job, q')"
    | (leave) "x = Exited" "q' = q" "inner_pending q = 0" "in_shutdown q"
    | (sleep) "x = Waiting" "q' = q" "inner_pending q = 0" "\<not> in_shutdown q"
  using assms by (auto simp: worker_lock_def pop_empty [symmetric] split: option.splits if_splits)

definition looking :: "'j worker list \<Rightarrow> nat" where
  "looking xs = sum_list (map (\<lambda>x. if x = Looking then 1 else 0) xs)"

definition dead :: "'j worker list \<Rightarrow> nat" where
  "dead xs = sum_list (map (\<lambda>x. if x = Dead then 1 else 0) xs)"

text \<open>Every job is queued, running, finished or panicked; a sleeping worker is owed no job; a worker
  leaves only an empty queue that gets no more jobs; each panic costs one worker.\<close>

definition pool_inv :: "('j \<Rightarrow> bool) \<Rightarrow> 'j pool \<Rightarrow> bool" where
  "pool_inv panics s \<longleftrightarrow>
     mset (pl_submitted s) = queued (pl_inner s) + in_flight (pl_workers s) + mset (pl_finished s) + mset (pl_panicked s) \<and>
     (in_shutdown (pl_inner s) \<longleftrightarrow> pl_owner s \<noteq> Open) \<and>
     (pl_owner s \<noteq> Open \<longrightarrow> pl_notifies s = 0) \<and>
     (Waiting \<in> set (pl_workers s) \<longrightarrow> pl_owner s \<in> {Open, Notifying} \<and> pool_pending s \<le> pl_notifies s + looking (pl_workers s)) \<and>
     (Exited \<in> set (pl_workers s) \<longrightarrow> in_shutdown (pl_inner s) \<and> pool_pending s = 0) \<and>
     (pl_owner s = Dropped \<longrightarrow> set (pl_workers s) \<subseteq> {Exited, Dead}) \<and>
     dead (pl_workers s) = length (pl_panicked s) \<and> (\<forall>j \<in> set (pl_panicked s). panics j) \<and> (\<forall>j \<in> set (pl_finished s). \<not> panics j) \<and>
     0 < thread_count s"

lemma pool_new_inv: "pool_inv panics (pool_new n)"
proof -
  have "in_flight (replicate k (Looking :: 'a worker)) = {#}" "dead (replicate k (Looking :: 'a worker)) = 0" for k
    by (induction k) (simp_all add: in_flight_def job_of_def dead_def)
  then show ?thesis
    by (auto simp: pool_inv_def pool_new_def inner_default_def queued_def thread_count_def)
qed

lemma worker_mem: "worker_is s i y \<Longrightarrow> y \<in> set (pl_workers s)"
  by (auto simp: worker_is_def)

lemma worker_update:
  assumes "worker_is s i y"
  shows "in_flight ((pl_workers s)[i := x]) + job_of y = in_flight (pl_workers s) + job_of x"
    and "looking ((pl_workers s)[i := x]) + (if y = Looking then 1 else 0) = looking (pl_workers s) + (if x = Looking then 1 else 0)"
    and "dead ((pl_workers s)[i := x]) + (if y = Dead then 1 else 0) = dead (pl_workers s) + (if x = Dead then 1 else 0)"
    and "set ((pl_workers s)[i := x]) \<subseteq> insert x (set (pl_workers s))"
  using assms sum_list_map_update [of i "pl_workers s" job_of x]
    sum_list_map_update [of i "pl_workers s" "\<lambda>x. if x = Looking then 1 else (0 :: nat)" x]
    sum_list_map_update [of i "pl_workers s" "\<lambda>x. if x = Dead then 1 else (0 :: nat)" x]
    set_update_subset_insert [of "pl_workers s" i x]
  by (auto simp: worker_is_def in_flight_def looking_def dead_def)

lemma lock_inv:
  assumes inv: "pool_inv panics s" and w: "worker_is s i Looking" and l: "worker_lock (pl_inner s) = (x, q)"
  shows "pool_inv panics (set_worker i x (s\<lparr>pl_inner := q\<rparr>))"
  using l
proof (cases rule: worker_lock_cases)
  case (job j)
  note u = worker_update [OF w, of "Running j"]
  have q: "queued (pl_inner s) = add_mset j (queued q)" "in_shutdown q = in_shutdown (pl_inner s)" using queued_pop [OF job(2)] by auto
  have p: "inner_pending (pl_inner s) = Suc (inner_pending q)" using arg_cong [OF q(1), of size] by (simp add: queued_size)
  have "in_flight ((pl_workers s)[i := Running j]) = add_mset j (in_flight (pl_workers s))" using u(1) by (simp add: job_of_def)
  moreover have "Waiting \<in> set ((pl_workers s)[i := Running j]) \<Longrightarrow> Waiting \<in> set (pl_workers s)"
    "Exited \<in> set ((pl_workers s)[i := Running j]) \<Longrightarrow> Exited \<in> set (pl_workers s)" using u(4) by auto
  moreover have "pl_owner s \<noteq> Dropped" using inv worker_mem [OF w] by (auto simp: pool_inv_def)
  ultimately show ?thesis using inv job(1) q p u(2,3)
    by (auto simp: pool_inv_def set_worker_def pool_pending_def thread_count_def)
next
  case leave
  note u = worker_update [OF w, of Exited]
  have "Waiting \<in> set ((pl_workers s)[i := Exited]) \<Longrightarrow> Waiting \<in> set (pl_workers s)" using u(4) by auto
  moreover have "in_flight ((pl_workers s)[i := Exited]) = in_flight (pl_workers s)" using u(1) by (simp add: job_of_def)
  moreover have "pl_owner s \<noteq> Dropped" using inv worker_mem [OF w] by (auto simp: pool_inv_def)
  ultimately show ?thesis using inv leave u(3)
    by (auto simp: pool_inv_def set_worker_def pool_pending_def thread_count_def)
next
  case sleep
  note u = worker_update [OF w, of Waiting]
  have "Exited \<in> set ((pl_workers s)[i := Waiting]) \<Longrightarrow> Exited \<in> set (pl_workers s)" using u(4) by auto
  moreover have "in_flight ((pl_workers s)[i := Waiting]) = in_flight (pl_workers s)" using u(1) by (simp add: job_of_def)
  moreover have "pl_owner s = Open" using inv sleep(4) by (auto simp: pool_inv_def)
  ultimately show ?thesis using inv sleep u(3)
    by (auto simp: pool_inv_def set_worker_def pool_pending_def thread_count_def)
qed

text \<open>A worker that goes back to look for work, from sleep or from a job.\<close>

lemma resume_inv:
  assumes inv: "pool_inv panics s" and w: "worker_is s i y" "y = Waiting \<or> (\<exists>job. y = Running job \<and> \<not> panics job)"
    and n: "n = pl_notifies s \<or> y = Waiting \<and> n = pl_notifies s - 1"
    and f: "mset f = mset (pl_finished s) + job_of y" 
  shows "pool_inv panics (set_worker i Looking (s\<lparr>pl_notifies := n, pl_finished := f\<rparr>))"
proof -
  note u = worker_update [OF w(1), of Looking]
  have mem: "Waiting \<in> set ((pl_workers s)[i := Looking]) \<Longrightarrow> Waiting \<in> set (pl_workers s)"
    "Exited \<in> set ((pl_workers s)[i := Looking]) \<Longrightarrow> Exited \<in> set (pl_workers s)" using u(4) by auto
  have d: "pl_owner s \<noteq> Dropped" using inv worker_mem [OF w(1)] w(2) by (auto simp: pool_inv_def)
  have fl: "in_flight ((pl_workers s)[i := Looking]) + job_of y = in_flight (pl_workers s)" using u(1) by (simp add: job_of_def)
  have lk: "looking ((pl_workers s)[i := Looking]) = Suc (looking (pl_workers s))" "dead ((pl_workers s)[i := Looking]) = dead (pl_workers s)"
    using u(2,3) w(2) by auto
  have "set_mset (mset f) = set (pl_finished s) \<union> set_mset (job_of y)" by (simp add: f)
  then have fin: "\<forall>j \<in> set f. \<not> panics j" using inv w(2) by (auto simp: pool_inv_def job_of_def)
  have "mset (pl_submitted s) = queued (pl_inner s) + in_flight ((pl_workers s)[i := Looking]) + mset f + mset (pl_panicked s)"
    using inv fl unfolding f pool_inv_def by (auto simp: ac_simps)
  then show ?thesis using inv mem d lk fin n
    by (auto simp: pool_inv_def set_worker_def pool_pending_def thread_count_def)
qed

lemma pool_step_inv:
  assumes "pool_step panics s s'" "pool_inv panics s"
  shows "pool_inv panics s'"
  using assms
proof (induction rule: pool_step.induct)
  case (submit s p job)
  have "inner_pending (inner_push (pl_inner s) p job) = Suc (inner_pending (pl_inner s))"
    using arg_cong [OF queued_push, of size "pl_inner s" p job] by (simp add: queued_size)
  then show ?case using submit
    by (auto simp: pool_inv_def submit_locked_def queued_push push_shutdown pool_pending_def thread_count_def)
next
  case (notify_one s i)
  then show ?case using resume_inv [of panics s i Waiting "pl_notifies s - 1" "pl_finished s"] by (simp add: job_of_def)
next
  case (notify_none s)
  then show ?case by (auto simp: pool_inv_def pool_pending_def thread_count_def)
next
  case (lock s i x q)
  then show ?case using lock_inv by blast
next
  case (wake s i)
  then show ?case using resume_inv [of panics s i Waiting "pl_notifies s" "pl_finished s"] by (simp add: job_of_def)
next
  case (finish s i job)
  then show ?case using resume_inv [of panics s i "Running job" "pl_notifies s" "pl_finished s @ [job]"] by (simp add: job_of_def)
next
  case (panic s i job)
  note u = worker_update [OF panic(1), of Dead]
  have "Waiting \<in> set ((pl_workers s)[i := Dead]) \<Longrightarrow> Waiting \<in> set (pl_workers s)"
    "Exited \<in> set ((pl_workers s)[i := Dead]) \<Longrightarrow> Exited \<in> set (pl_workers s)" using u(4) by auto
  moreover have "pl_owner s \<noteq> Dropped" using panic(3) worker_mem [OF panic(1)] by (auto simp: pool_inv_def)
  moreover have "add_mset job (in_flight ((pl_workers s)[i := Dead])) = in_flight (pl_workers s)" using u(1) by (simp add: job_of_def)
  ultimately show ?case using panic(2,3) u(2,3)
    by (auto simp: pool_inv_def set_worker_def pool_pending_def thread_count_def)
next
  case (shutdown s)
  then show ?case
    by (auto simp: pool_inv_def pool_pending_def thread_count_def queued_def inner_pending_def)
next
  case (notify_all s)
  have "job_of (notify_worker x) = job_of x" "notify_worker x = Dead \<longleftrightarrow> x = Dead" "notify_worker x \<noteq> Waiting"
    "notify_worker x = Exited \<longleftrightarrow> x = Exited" for x :: "'a worker"
    by (cases x; simp add: notify_worker_def job_of_def)+
  then have "in_flight (map notify_worker (pl_workers s)) = in_flight (pl_workers s)"
    "dead (map notify_worker (pl_workers s)) = dead (pl_workers s)" "Waiting \<notin> set (map notify_worker (pl_workers s))"
    "Exited \<in> set (map notify_worker (pl_workers s)) \<longleftrightarrow> Exited \<in> set (pl_workers s)"
    by (auto simp: in_flight_def dead_def comp_def image_iff) metis+
  then show ?case using notify_all by (auto simp: pool_inv_def pool_pending_def thread_count_def)
next
  case (join s)
  then show ?case by (auto simp: pool_inv_def pool_pending_def thread_count_def)
qed

lemma pool_reachable_inv: "(pool_step panics)\<^sup>*\<^sup>* (pool_new n) s \<Longrightarrow> pool_inv panics s"
  by (induction rule: rtranclp_induct) (auto intro: pool_new_inv pool_step_inv)

section \<open>Shutting down ends\<close>









lemma worker_isI: "x \<in> set (pl_workers s) \<Longrightarrow> \<exists>i. worker_is s i x"
  by (auto simp: worker_is_def in_set_conv_nth)






section \<open>Properties\<close>

text \<open>Jobs leave the queue by priority, and in the order of submission within a priority: draining
  what a sequence of submissions left gives the jobs in the stable order of their priorities.\<close>

theorem queue_drains_by_priority:
  "drain_with inner_pop (inner_pending (fold (\<lambda>(p, job) q. inner_push q p job) jobs inner_default))
      (fold (\<lambda>(p, job) q. inner_push q p job) jobs inner_default) =
   map snd (sort_key (rank \<circ> fst) jobs)"
  by (rule bands.pushes_drain_sorted)


text \<open>A pool with one worker: a state is given by its queue, worker, notifications, owner and history.\<close>

definition one_worker :: "nat list \<Rightarrow> bool \<Rightarrow> nat worker \<Rightarrow> nat \<Rightarrow> owner \<Rightarrow> nat list \<Rightarrow> nat list \<Rightarrow> nat list \<Rightarrow> nat pool" where
  "one_worker q down x n ow subs fin pan =
     \<lparr>pl_inner = \<lparr>in_high = [], in_normal = q, in_low = [], in_shutdown = down\<rparr>, pl_workers = [x], pl_notifies = n,
      pl_owner = ow, pl_submitted = subs, pl_finished = fin, pl_panicked = pan\<rparr>"

lemma one_worker_new: "pool_new 1 = one_worker [] False Looking 0 Open [] [] []"
  by (simp add: pool_new_def one_worker_def inner_default_def)

lemma one_worker_steps:
  "pool_step panics (one_worker q False x 0 Open subs fin pan) (one_worker (q @ [j]) False x 1 Open (subs @ [j]) fin pan)"
  "pool_step panics (one_worker q d Looking (Suc n) ow subs fin pan) (one_worker q d Looking n ow subs fin pan)"
  "pool_step panics (one_worker (j # q) d Looking n ow subs fin pan) (one_worker q d (Running j) n ow subs fin pan)"
  "pool_step panics (one_worker [] True Looking n ow subs fin pan) (one_worker [] True Exited n ow subs fin pan)"
  "\<not> panics j \<Longrightarrow> pool_step panics (one_worker q d (Running j) n ow subs fin pan) (one_worker q d Looking n ow subs (fin @ [j]) pan)"
  "panics j \<Longrightarrow> pool_step panics (one_worker q d (Running j) n ow subs fin pan) (one_worker q d Dead n ow subs fin (pan @ [j]))"
  "pool_step panics (one_worker q False x 0 Open subs fin pan) (one_worker q True x 0 Notifying subs fin pan)"
  "x \<in> {Looking, Dead} \<Longrightarrow> pool_step panics (one_worker q d x 0 Notifying subs fin pan) (one_worker q d x 0 Joining subs fin pan)"
  "x \<in> {Exited, Dead} \<Longrightarrow> pool_step panics (one_worker q d x n Joining subs fin pan) (one_worker q d x n Dropped subs fin pan)"
  using pool_step.submit [of "one_worker q False x 0 Open subs fin pan" panics Normal j]
    pool_step.notify_none [of "one_worker q d Looking (Suc n) ow subs fin pan" panics]
    pool_step.lock [of "one_worker (j # q) d Looking n ow subs fin pan" 0 _ _ panics]
    pool_step.lock [of "one_worker [] True Looking n ow subs fin pan" 0 _ _ panics]
    pool_step.finish [of "one_worker q d (Running j) n ow subs fin pan" 0 j panics]
    pool_step.panic [of "one_worker q d (Running j) n ow subs fin pan" 0 j panics]
    pool_step.shutdown [of "one_worker q False x 0 Open subs fin pan" panics]
    pool_step.notify_all [of "one_worker q d x 0 Notifying subs fin pan" panics]
    pool_step.join [of "one_worker q d x n Joining subs fin pan" panics]
  by (auto simp: one_worker_def submit_locked_def worker_is_def set_worker_def worker_lock_def inner_pop_def notify_worker_def)



text \<open>A panic ends its worker for good. With every worker gone, dropping the pool returns although jobs
  are still queued.\<close>

lemma pool_panic_loses_jobs:
  "(pool_step (\<lambda>j. j = 0))\<^sup>*\<^sup>* (pool_new 1) (one_worker [1] True Dead 0 Dropped [0, 1] [] [0])"
proof -
  note st = one_worker_steps [where panics = "\<lambda>j. j = 0"]
  have "(pool_step (\<lambda>j. j = 0))\<^sup>*\<^sup>* (pool_new 1) (one_worker [] False Looking 0 Open [] [] [])"
    unfolding one_worker_new ..
  also have "pool_step (\<lambda>j. j = 0) \<dots> (one_worker [0] False Looking 1 Open [0] [] [])" using st(1) [where q = "[]" and subs = "[]" and j = 0] by simp
  also have "pool_step (\<lambda>j. j = 0) \<dots> (one_worker [0] False Looking 0 Open [0] [] [])" using st(2) [where n = 0] by simp
  also have "pool_step (\<lambda>j. j = 0) \<dots> (one_worker [0, 1] False Looking 1 Open [0, 1] [] [])" using st(1) [where q = "[0]" and subs = "[0]" and j = 1] by simp
  also have "pool_step (\<lambda>j. j = 0) \<dots> (one_worker [0, 1] False Looking 0 Open [0, 1] [] [])" using st(2) [where n = 0] by simp
  also have "pool_step (\<lambda>j. j = 0) \<dots> (one_worker [1] False (Running 0) 0 Open [0, 1] [] [])" by (rule st(3))
  also have "pool_step (\<lambda>j. j = 0) \<dots> (one_worker [1] False Dead 0 Open [0, 1] [] [0])" using st(6) [where j = 0 and pan = "[]"] by simp
  also have "pool_step (\<lambda>j. j = 0) \<dots> (one_worker [1] True Dead 0 Notifying [0, 1] [] [0])" by (rule st(7))
  also have "pool_step (\<lambda>j. j = 0) \<dots> (one_worker [1] True Dead 0 Joining [0, 1] [] [0])" by (rule st(8)) simp
  also have "pool_step (\<lambda>j. j = 0) \<dots> (one_worker [1] True Dead 0 Dropped [0, 1] [] [0])" by (rule st(9)) simp
  finally show ?thesis .
qed

text \<open>C34: no wakeup is lost. Whenever jobs are queued and every submission has sent its notification, some
  worker is awake, about to take the lock or running a job after which it will, unless every worker
  has died of a panic.\<close>

theorem pool_no_lost_wakeup:
  assumes "(pool_step panics)\<^sup>*\<^sup>* (pool_new threads) s" "0 < pool_pending s" "pl_notifies s = 0"
  shows "(\<exists>i job. worker_is s i Looking \<or> worker_is s i (Running job)) \<or> set (pl_workers s) = {Dead}"
proof (rule ccontr)
  assume a: "\<not> ?thesis"
  have inv: "pool_inv panics s" using pool_reachable_inv [OF assms(1)] .
  have no: "Looking \<notin> set (pl_workers s)" "Running job \<notin> set (pl_workers s)" for job using a worker_isI by blast+
  have "Exited \<notin> set (pl_workers s)" using inv assms(2) by (auto simp: pool_inv_def)
  then have "set (pl_workers s) \<subseteq> {Waiting, Dead}" using no by (metis insertCI subsetI worker.exhaust)
  moreover have "pl_workers s \<noteq> []" using inv by (auto simp: pool_inv_def thread_count_def)
  ultimately have "Waiting \<in> set (pl_workers s)" using a by (cases "pl_workers s") auto
  moreover have "looking (pl_workers s) = 0" using no(1) by (auto simp: looking_def)
  ultimately show False using inv assms(2,3) by (auto simp: pool_inv_def)
qed

theorem pool_no_lost_wakeup_witness:
  "\<exists>i job. worker_is (one_worker [7] False Looking 0 Open [7] [] []) i Looking \<or>
     worker_is (one_worker [7] False Looking 0 Open [7] [] []) i (Running job)"
proof -
  have "(pool_step (\<lambda>_. False))\<^sup>*\<^sup>* (pool_new 1) (one_worker [] False Looking 0 Open [] [] [])"
    unfolding one_worker_new ..
  also have "pool_step (\<lambda>_. False) \<dots> (one_worker [7] False Looking 1 Open [7] [] [])" using one_worker_steps(1) [where q = "[]" and subs = "[]" and j = 7] by simp
  also have "pool_step (\<lambda>_. False) \<dots> (one_worker [7] False Looking 0 Open [7] [] [])" using one_worker_steps(2) [where n = 0] by simp
  finally have r: "(pool_step (\<lambda>_. False))\<^sup>*\<^sup>* (pool_new 1) (one_worker [7] False Looking 0 Open [7] [] [])" .
  have p: "0 < pool_pending (one_worker [7] False Looking 0 Open [7] [] [])" "pl_notifies (one_worker [7] False Looking 0 Open [7] [] []) = 0"
    and "set (pl_workers (one_worker [7] False Looking 0 Open [7] [] [])) \<noteq> {Dead}"
    by (simp_all add: one_worker_def pool_pending_def inner_pending_def)
  then show ?thesis using pool_no_lost_wakeup [OF r p] by blast
qed

end
