(* ===== verification/Word_Facts.thy ===== *)
theory Word_Facts
  imports Prelude
begin

text \<open>
  Facts about machine words read as natural numbers, shared by the arithmetic of \<^verbatim>\<open>crates/cv_crypto\<close>: what
  shifts, masks, casts and sums that do not wrap do to the value. Nothing here models a file of the repository.
\<close>

lemma unat_or_disjoint: "x AND y = 0 \<Longrightarrow> unat (x OR y :: 'a::len word) = unat x + unat y"
proof -
  assume "x AND y = 0"
  then have "unat x AND unat y = 0" by (metis unsigned_and_eq unsigned_0)
  then show ?thesis by (simp add: unsigned_or_eq disjunctive_add_eq_or)
qed

lemma unat_ucast_64: "unat (ucast (w :: u128) :: u64) = unat w mod 2 ^ 64"
  by (simp add: unsigned_ucast_eq take_bit_eq_mod)

lemma unat_ucast_128: "unat (ucast (x :: u64) :: u128) = unat x"
  using less_trans [OF unsigned_less [of x, where ?'a = nat], of "2 ^ 128"]
  by (simp add: unsigned_ucast_eq take_bit_nat_eq_self)

lemma unat_drop: "unat (drop_bit n (w :: 'a::len word)) = unat w div 2 ^ n"
  by (subst unat_drop_bit_eq) (simp only: drop_bit_eq_div)

lemma unat_take: "unat (take_bit n (w :: 'a::len word)) = unat w mod 2 ^ n"
  by (simp only: unsigned_take_bit_eq) (simp only: take_bit_eq_mod)

lemma unat_mask: "unat ((w :: 'a::len word) AND mask n) = unat w mod 2 ^ n"
  by (simp only: take_bit_eq_mask [symmetric] unat_take)

lemma unat_add64: "unat (x :: u64) + unat y < 2 ^ 64 \<Longrightarrow> unat (x + y) = unat x + unat y"
  by (simp add: unat_word_ariths)

lemma unat_add128: "unat (x :: u128) + unat y < 2 ^ 128 \<Longrightarrow> unat (x + y) = unat x + unat y"
  by (simp add: unat_word_ariths)

lemma unat_mul64: "unat (x :: u64) * unat y < 2 ^ 64 \<Longrightarrow> unat (x * y) = unat x * unat y"
  by (simp add: unat_word_ariths)

lemma unat_mul128: "unat (x :: u128) * unat y < 2 ^ 128 \<Longrightarrow> unat (x * y) = unat x * unat y"
  by (simp add: unat_word_ariths)

lemma unat_ucast_32: "unat (ucast (w :: u64) :: u32) = unat w mod 2 ^ 32"
  by (simp add: unsigned_ucast_eq take_bit_eq_mod)

lemma unat_ucast_32_64: "unat (ucast (x :: u32) :: u64) = unat x"
  using less_trans [OF unsigned_less [of x, where ?'a = nat], of "2 ^ 64"]
  by (simp add: unsigned_ucast_eq take_bit_nat_eq_self)

lemma mod_div_split: "(x :: nat) = x mod m + m * (x div m)"
  by simp

lemma mult_less: "a < A \<Longrightarrow> b < B \<Longrightarrow> a * b < A * (B :: nat)"
  by (meson le_less_trans less_imp_le mult_le_mono mult_less_mono1 mult_less_mono2 neq0_conv not_less0 order_less_trans mult_strict_mono' le0)

lemma less_pow_bit: "unat (c :: 'a::len word) < 2 ^ s \<Longrightarrow> bit c n \<Longrightarrow> n < s"
proof (rule ccontr)
  assume c: "unat c < 2 ^ s" "bit c n" "\<not> n < s"
  then have "bit (unat c) n" by (simp add: bit_unsigned_iff)
  moreover have "unat c < 2 ^ n" using less_le_trans [OF c(1) power_increasing [of s n]] c(3) by simp
  ultimately show False by (metis bit_take_bit_iff less_irrefl take_bit_nat_eq_self)
qed

end
