(* ===== verification/Poly1305.thy ===== *)
theory Poly1305
  imports Codec Word_Facts
begin

text \<open>
  The one-time authenticator of \<^verbatim>\<open>crates/cv_crypto/src/poly1305.rs\<close>: the 130-bit accumulator in limbs of
  44, 44 and 42 bits, the streaming interface with its 16-byte buffer, and the final reduction. The
  specification is the polynomial of RFC 8439 over the natural numbers.
\<close>

section \<open>Definitions\<close>

type_synonym limbs3 = "u64 \<times> u64 \<times> u64"

record poly1305 =
  p_r :: limbs3
  p_s :: "u32 list"
  p_h :: limbs3
  p_buffer :: bytes
  p_buffered :: nat

definition load32 :: "bytes \<Rightarrow> nat \<Rightarrow> u64" where
  "load32 bs i = ucast (from_le (take 4 (drop i bs)) :: u32)"

definition clamp :: "bytes \<Rightarrow> bytes" where
  "clamp r = (let r = r[3 := r ! 3 AND 15]; r = r[7 := r ! 7 AND 15]; r = r[11 := r ! 11 AND 15]; r = r[15 := r ! 15 AND 15];
     r = r[4 := r ! 4 AND 252]; r = r[8 := r ! 8 AND 252] in r[12 := r ! 12 AND 252])"

definition poly_new :: "bytes \<Rightarrow> poly1305" where
  "poly_new key =
     (let r_bytes = clamp (take 16 key);
          r0 = load32 r_bytes 0; r1 = load32 r_bytes 4; r2 = load32 r_bytes 8; r3 = load32 r_bytes 12;
          r_lim = (r0 OR (push_bit 32 r1 AND mask 44),
                   (drop_bit 12 r1 OR push_bit 20 r2) AND mask 44,
                   (drop_bit 24 r2 OR push_bit 8 r3) AND mask 42)
      in \<lparr>p_r = r_lim, p_s = map (\<lambda>i. from_le (take 4 (drop (16 + i * 4) key))) [0..<4],
          p_h = (0, 0, 0), p_buffer = replicate 16 0, p_buffered = 0\<rparr>)"

definition add_block :: "limbs3 \<Rightarrow> bytes \<Rightarrow> u64 \<Rightarrow> limbs3" where
  "add_block = (\<lambda>(h0, h1, h2) block hibit.
     let t0 = load32 block 0; t1 = load32 block 4; t2 = load32 block 8; t3 = load32 block 12
     in (h0 + ((t0 OR push_bit 32 t1) AND mask 44),
         h1 + ((drop_bit 12 t1 OR push_bit 20 t2) AND mask 44),
         h2 + ((drop_bit 24 t2 OR push_bit 8 t3) OR push_bit 40 hibit)))"

definition mul_reduce :: "limbs3 \<Rightarrow> limbs3 \<Rightarrow> limbs3" where
  "mul_reduce = (\<lambda>(r0, r1, r2) (h0, h1, h2).
     let s1 = r1 * push_bit 2 5;
         s2 = r2 * push_bit 2 5;
         d0 = ucast h0 * ucast r0 + ucast h1 * ucast s2 + ucast h2 * ucast s1 :: u128;
         d1 = ucast h0 * ucast r1 + ucast h1 * ucast r0 + ucast h2 * ucast s2 :: u128;
         d2 = ucast h0 * ucast r2 + ucast h1 * ucast r1 + ucast h2 * ucast r0 :: u128;
         c0 = drop_bit 44 d0;
         h0 = ucast d0 AND mask 44;
         d1 = d1 + c0;
         c0 = drop_bit 44 d1;
         h1 = ucast d1 AND mask 44;
         d2 = d2 + c0;
         c0 = drop_bit 42 d2;
         h2 = ucast d2 AND mask 42;
         h0 = h0 + ucast c0 * 5;
         c = drop_bit 44 h0
     in (h0 AND mask 44, h1 + c, h2))"

definition process_block :: "poly1305 \<Rightarrow> bytes \<Rightarrow> u64 \<Rightarrow> poly1305" where
  "process_block p block hibit = p\<lparr>p_h := mul_reduce (p_r p) (add_block (p_h p) block hibit)\<rparr>"

function update_blocks :: "poly1305 \<Rightarrow> bytes \<Rightarrow> poly1305 \<times> bytes" where
  "update_blocks p data =
     (if 16 \<le> length data then update_blocks (process_block p (take 16 data) 1) (drop 16 data) else (p, data))"
  by auto
termination by (relation "measure (\<lambda>(p, data). length data)") auto

declare update_blocks.simps [simp del]

definition update_buffer :: "poly1305 \<Rightarrow> bytes \<Rightarrow> poly1305 \<times> bytes" where
  "update_buffer p data =
     (if p_buffered p \<noteq> 0 then
        let need = 16 - p_buffered p;
            tk = min need (length data);
            p = p\<lparr>p_buffer := take (p_buffered p) (p_buffer p) @ take tk data @ drop (p_buffered p + tk) (p_buffer p),
                  p_buffered := p_buffered p + tk\<rparr>;
            data = drop tk data
        in (if p_buffered p = 16 then (process_block p (p_buffer p) 1)\<lparr>p_buffered := 0\<rparr> else p, data)
      else (p, data))"

definition poly_update :: "poly1305 \<Rightarrow> bytes \<Rightarrow> poly1305" where
  "poly_update p data =
     (let (p, data) = update_buffer p data;
          (p, data) = update_blocks p data
      in if data \<noteq> [] then p\<lparr>p_buffer := data @ drop (length data) (p_buffer p), p_buffered := length data\<rparr> else p)"

definition carry_full :: "limbs3 \<Rightarrow> limbs3" where
  "carry_full = (\<lambda>(h0, h1, h2).
     let c = drop_bit 44 h1; h1 = h1 AND mask 44; h2 = h2 + c;
         c = drop_bit 42 h2; h2 = h2 AND mask 42; h0 = h0 + c * 5;
         c = drop_bit 44 h0; h0 = h0 AND mask 44; h1 = h1 + c;
         c = drop_bit 44 h1; h1 = h1 AND mask 44; h2 = h2 + c;
         c = drop_bit 42 h2; h2 = h2 AND mask 42; h0 = h0 + c * 5;
         c = drop_bit 44 h0; h0 = h0 AND mask 44; h1 = h1 + c
     in (h0, h1, h2))"

definition subtract_p :: "limbs3 \<Rightarrow> limbs3" where
  "subtract_p = (\<lambda>(h0, h1, h2).
     let g0 = h0 + 5; c = drop_bit 44 g0; g0 = g0 AND mask 44;
         g1 = h1 + c; c = drop_bit 44 g1; g1 = g1 AND mask 44;
         g2 = h2 + c - push_bit 42 1;
         select_g = drop_bit 63 g2 - 1
     in ((h0 AND NOT select_g) OR (g0 AND select_g),
         (h1 AND NOT select_g) OR (g1 AND select_g),
         (h2 AND NOT select_g) OR (g2 AND select_g)))"

definition add_s :: "limbs3 \<Rightarrow> u32 list \<Rightarrow> bytes" where
  "add_s = (\<lambda>(h0, h1, h2) s.
     let h0_32 = ucast h0 :: u32;
         h1_32 = ucast (drop_bit 32 h0 OR push_bit 12 h1) :: u32;
         h2_32 = ucast (drop_bit 20 h1 OR push_bit 24 h2) :: u32;
         h3_32 = ucast (drop_bit 8 h2) :: u32;
         r0 = ucast h0_32 + ucast (s ! 0) :: u64;
         r1 = ucast h1_32 + ucast (s ! 1) + drop_bit 32 r0 :: u64;
         r2 = ucast h2_32 + ucast (s ! 2) + drop_bit 32 r1 :: u64;
         r3 = ucast h3_32 + ucast (s ! 3) + drop_bit 32 r2 :: u64
     in le_bytes 4 (ucast r0 :: u32) @ le_bytes 4 (ucast r1 :: u32) @ le_bytes 4 (ucast r2 :: u32) @ le_bytes 4 (ucast r3 :: u32))"

definition poly_finalize :: "poly1305 \<Rightarrow> bytes" where
  "poly_finalize p =
     (let p = (if p_buffered p \<noteq> 0 then
                 process_block p (take (p_buffered p) (p_buffer p) @ 1 # replicate (15 - p_buffered p) 0) 0
               else p)
      in add_s (subtract_p (carry_full (p_h p))) (p_s p))"

definition poly_oneshot :: "bytes \<Rightarrow> bytes \<Rightarrow> bytes" where
  "poly_oneshot key msg = poly_finalize (poly_update (poly_new key) msg)"

section \<open>The polynomial of RFC 8439\<close>

fun le_val :: "bytes \<Rightarrow> nat" where
  "le_val [] = 0"
| "le_val (b # bs) = unat b + 256 * le_val bs"

definition prime_1305 :: nat where "prime_1305 = 2 ^ 130 - 5"

function poly_acc :: "nat \<Rightarrow> nat \<Rightarrow> bytes \<Rightarrow> nat" where
  "poly_acc r acc msg =
     (if msg = [] then acc
      else poly_acc r ((acc + le_val (take 16 msg @ [1])) * r mod prime_1305) (drop 16 msg))"
  by auto
termination by (relation "measure (\<lambda>(r, acc, msg). length msg)") auto

declare poly_acc.simps [simp del]

definition poly1305_mac :: "bytes \<Rightarrow> bytes \<Rightarrow> nat" where
  "poly1305_mac key msg =
     (poly_acc (le_val (clamp (take 16 key))) 0 msg + le_val (take 16 (drop 16 key))) mod 2 ^ 128"

section \<open>Little-endian loads\<close>

lemma bit_load32:
  assumes "length bs = 16" "i \<le> 12"
  shows "bit (load32 bs i) n \<longleftrightarrow> n < 32 \<and> bit (from_le bs :: u128) (8 * i + n)"
proof (cases "n < 32")
  case True
  have "(8 * i + n) div 8 = i + n div 8" "(8 * i + n) mod 8 = n mod 8" by simp_all
  moreover have "n div 8 < 4" using True by simp
  ultimately show ?thesis using assms True by (auto simp: load32_def bit_simps bit_from_le)
qed (auto simp: load32_def bit_simps dest: bit_imp_le_length)

lemma le_val_less: "le_val bs < 256 ^ length bs"
proof (induction bs)
  case (Cons b bs)
  then have "256 * (le_val bs + 1) \<le> 256 * 256 ^ length bs" by (intro mult_le_mono2) simp
  then show ?case using unat_u8_less [of b] by (simp del: unat_u8_less)
qed simp

lemma le_val_append: "le_val (xs @ ys) = le_val xs + 256 ^ length xs * le_val ys"
  by (induction xs) (simp_all add: algebra_simps)

lemma unat_from_le: "8 * length bs \<le> LENGTH('a) \<Longrightarrow> unat (from_le bs :: 'a::len word) = le_val bs"
proof (induction bs)
  case (Cons b bs)
  have len: "8 \<le> LENGTH('a)" using Cons.prems by simp
  have lt: "256 * le_val bs < 2 ^ LENGTH('a)"
  proof -
    have "le_val bs < 256 ^ length bs" by (rule le_val_less)
    then have "256 * le_val bs < 2 ^ (8 * length (b # bs))" by (simp add: power_add power_mult)
    also have "\<dots> \<le> 2 ^ LENGTH('a)" using Cons.prems by (intro power_increasing) auto
    finally show ?thesis .
  qed
  have "push_bit 8 (from_le bs :: 'a word) AND ucast b = 0"
    by (rule bit_word_eqI) (auto simp: bit_simps dest: bit_imp_le_length)
  moreover have "unat (push_bit 8 (from_le bs :: 'a word)) = 256 * le_val bs"
    using lt Cons by (subst unsigned_push_bit_eq) (simp add: push_bit_eq_mult take_bit_nat_eq_self mult.commute)
  moreover have "unat (ucast b :: 'a word) = unat b"
  proof -
    have "(2 :: nat) ^ 8 \<le> 2 ^ LENGTH('a)" using len by (rule power_increasing) simp
    then have "256 \<le> (2 :: nat) ^ LENGTH('a)" by simp
    then have "unat b < 2 ^ LENGTH('a)" by (rule less_le_trans [OF unat_u8_less])
    then show ?thesis by (simp add: unsigned_ucast_eq take_bit_nat_eq_self)
  qed
  ultimately show ?case by (simp add: unat_or_disjoint)
qed simp

text \<open>The three pieces of a 128-bit little-endian number.\<close>

lemma pieces:
  assumes "length bs = 16"
  defines "B \<equiv> from_le bs :: u128"
  shows "(load32 bs 0 OR push_bit 32 (load32 bs 4)) AND mask 44 = ucast (take_bit 44 B)"
    and "(drop_bit 12 (load32 bs 4) OR push_bit 20 (load32 bs 8)) AND mask 44 = ucast (take_bit 44 (drop_bit 44 B))"
    and "drop_bit 24 (load32 bs 8) OR push_bit 8 (load32 bs 12) = ucast (drop_bit 88 B)"
proof -
  show "(load32 bs 0 OR push_bit 32 (load32 bs 4)) AND mask 44 = ucast (take_bit 44 B)"
    "(drop_bit 12 (load32 bs 4) OR push_bit 20 (load32 bs 8)) AND mask 44 = ucast (take_bit 44 (drop_bit 44 B))"
    using assms(1) by (auto intro!: bit_word_eqI simp: bit_simps bit_load32 B_def)
  show "drop_bit 24 (load32 bs 8) OR push_bit 8 (load32 bs 12) = ucast (drop_bit 88 B)"
  proof (rule bit_word_eqI)
    fix n
    have "bit B (88 + n) \<Longrightarrow> n < 40" using bit_imp_le_length [of B "88 + n"] by simp
    then show "bit (drop_bit 24 (load32 bs 8) OR push_bit 8 (load32 bs 12)) n \<longleftrightarrow> bit (ucast (drop_bit 88 B) :: u64) n"
      using assms(1) by (auto simp: bit_simps bit_load32 B_def)
  qed
qed

lemma limb_pieces:
  fixes B :: u128
  defines "x0 \<equiv> ucast (take_bit 44 B) :: u64" and "x1 \<equiv> ucast (take_bit 44 (drop_bit 44 B)) :: u64" and "x2 \<equiv> ucast (drop_bit 88 B) :: u64"
  shows "unat x0 = unat B mod 2 ^ 44" and "unat x1 = unat B div 2 ^ 44 mod 2 ^ 44" and "unat x2 = unat B div 2 ^ 88"
    and "unat B = unat x0 + 2 ^ 44 * unat x1 + 2 ^ 88 * unat x2"
proof -
  have Blt: "unat B < 2 ^ 128" using unsigned_less [of B, where ?'a = nat] by simp
  have "unat B mod 2 ^ 44 mod 2 ^ 64 = unat B mod 2 ^ 44" "unat B div 2 ^ 44 mod 2 ^ 44 mod 2 ^ 64 = unat B div 2 ^ 44 mod 2 ^ 44"
    by (intro mod_less; rule less_trans [OF mod_less_divisor]; simp)+
  then show x: "unat x0 = unat B mod 2 ^ 44" "unat x1 = unat B div 2 ^ 44 mod 2 ^ 44"
    unfolding x0_def x1_def unat_ucast_64 unat_take unat_drop by simp_all
  have "unat B div 2 ^ 88 < 2 ^ 40" using Blt by (intro less_mult_imp_div_less) simp
  then show y: "unat x2 = unat B div 2 ^ 88" unfolding x2_def unat_ucast_64 unat_drop by (intro mod_less) simp
  have "unat B = unat B mod 2 ^ 44 + 2 ^ 44 * (unat B div 2 ^ 44 mod 2 ^ 44 + 2 ^ 44 * (unat B div 2 ^ 44 div 2 ^ 44))" by simp
  also have "unat B div 2 ^ 44 div 2 ^ 44 = unat B div 2 ^ 88" by (simp add: div_mult2_eq [symmetric])
  finally show "unat B = unat x0 + 2 ^ 44 * unat x1 + 2 ^ 88 * unat x2" unfolding x y distrib_left by simp
qed

definition hval :: "limbs3 \<Rightarrow> nat" where
  "hval = (\<lambda>(h0, h1, h2). unat h0 + 2 ^ 44 * unat h1 + 2 ^ 88 * unat h2)"

text \<open>The accumulator between blocks: the middle limb may exceed 44 bits by a small carry.\<close>

definition h_ok :: "limbs3 \<Rightarrow> bool" where
  "h_ok = (\<lambda>(h0, h1, h2). unat h0 < 2 ^ 44 \<and> unat h1 < 2 ^ 44 + 2 ^ 10 \<and> unat h2 < 2 ^ 42)"

definition r_ok :: "limbs3 \<Rightarrow> bool" where
  "r_ok = (\<lambda>(r0, r1, r2). unat r0 < 2 ^ 44 \<and> unat r1 < 2 ^ 44 \<and> unat r2 < 2 ^ 42)"

lemma add_block_val:
  assumes "h_ok (h0, h1, h2)" "length block = 16" "hibit = 0 \<or> hibit = 1"
  obtains a0 a1 a2 where "add_block (h0, h1, h2) block hibit = (a0, a1, a2)"
    "unat a0 < 2 ^ 45" "unat a1 < 2 ^ 46" "unat a2 < 2 ^ 43"
    "hval (a0, a1, a2) = hval (h0, h1, h2) + le_val block + 2 ^ 128 * unat hibit"
proof -
  define B :: u128 where "B = from_le block"
  define x0 x1 x2 :: u64 where "x0 = ucast (take_bit 44 B)" and "x1 = ucast (take_bit 44 (drop_bit 44 B))" and "x2 = ucast (drop_bit 88 B)"
  have B: "unat B = le_val block" using assms(2) by (simp add: B_def unat_from_le)
  have Blt: "unat B < 2 ^ 128" using unsigned_less [of B, where ?'a = nat] by simp
  note x = limb_pieces [of B, folded x0_def x1_def x2_def]
  have x2: "unat x2 < 2 ^ 40" unfolding x(3) using Blt by (intro less_mult_imp_div_less) simp
  have "x2 AND push_bit 40 hibit = 0"
  proof (rule bit_word_eqI)
    fix n
    have "bit B (88 + n) \<Longrightarrow> n < 40" using bit_imp_le_length [of B "88 + n"] by simp
    then show "bit (x2 AND push_bit 40 hibit) n = bit 0 n" by (auto simp: x2_def bit_simps)
  qed
  then have x2h: "unat (x2 OR push_bit 40 hibit) = unat x2 + 2 ^ 40 * unat hibit"
    using assms(3) by (auto simp: unat_or_disjoint)
  have hb: "unat hibit \<le> 1" using assms(3) by auto
  have eq: "add_block (h0, h1, h2) block hibit = (h0 + x0, h1 + x1, h2 + (x2 OR push_bit 40 hibit))"
    using pieces [OF assms(2)] by (simp add: add_block_def Let_def x0_def x1_def x2_def B_def)
  have lt: "unat x0 < 2 ^ 44" "unat x1 < 2 ^ 44" unfolding x(1,2) by simp_all
  have h: "unat h0 < 2 ^ 44" "unat h1 < 2 ^ 44 + 2 ^ 10" "unat h2 < 2 ^ 42" using assms(1) by (simp_all add: h_ok_def)
  have s0: "unat (h0 + x0) = unat h0 + unat x0" using h lt by (intro unat_add64) simp
  have s1: "unat (h1 + x1) = unat h1 + unat x1" using h lt by (intro unat_add64) simp
  have s2: "unat (h2 + (x2 OR push_bit 40 hibit)) = unat h2 + (unat x2 + 2 ^ 40 * unat hibit)"
    using h x2 hb unfolding x2h [symmetric] by (intro unat_add64) (simp add: x2h)
  have split: "le_val block = unat x0 + 2 ^ 44 * unat x1 + 2 ^ 88 * unat x2" using x(4) B by simp
  show thesis
  proof (rule that [OF eq])
    show "unat (h0 + x0) < 2 ^ 45" using s0 h lt by simp
    show "unat (h1 + x1) < 2 ^ 46" using s1 h lt by simp
    show "unat (h2 + (x2 OR push_bit 40 hibit)) < 2 ^ 43" using s2 h x2 hb by simp
    show "hval (h0 + x0, h1 + x1, h2 + (x2 OR push_bit 40 hibit)) = hval (h0, h1, h2) + le_val block + 2 ^ 128 * unat hibit"
      by (simp add: hval_def s0 s1 s2 split)
  qed
qed

section \<open>Multiplication modulo 2 ^ 130 - 5\<close>

lemma unat_low: "n \<le> 64 \<Longrightarrow> unat (ucast (d :: u128) AND mask n :: u64) = unat d mod 2 ^ n"
  unfolding unat_mask unat_ucast_64 by (intro mod_mod_cancel le_imp_power_dvd)

lemma product_mod:
  fixes h0 h1 h2 r0 r1 r2 :: nat
  shows "(h0 + 2 ^ 44 * h1 + 2 ^ 88 * h2) * (r0 + 2 ^ 44 * r1 + 2 ^ 88 * r2) =
    (h0 * r0 + h1 * (r2 * 20) + h2 * (r1 * 20)) + 2 ^ 44 * (h0 * r1 + h1 * r0 + h2 * (r2 * 20)) +
    2 ^ 88 * (h0 * r2 + h1 * r1 + h2 * r0) + prime_1305 * (4 * (h1 * r2 + h2 * r1) + 4 * 2 ^ 44 * (h2 * r2))"
  by (simp add: prime_1305_def algebra_simps)

lemma carry_mod:
  fixes D0 D1 D2 :: nat
  defines "E1 \<equiv> D1 + D0 div 2 ^ 44"
  defines "E2 \<equiv> D2 + E1 div 2 ^ 44"
  shows "D0 + 2 ^ 44 * D1 + 2 ^ 88 * D2 =
    (D0 mod 2 ^ 44 + E2 div 2 ^ 42 * 5) + 2 ^ 44 * (E1 mod 2 ^ 44) + 2 ^ 88 * (E2 mod 2 ^ 42) + prime_1305 * (E2 div 2 ^ 42)"
proof -
  define q0 q1 q2 where q: "q0 = D0 div 2 ^ 44" "q1 = E1 div 2 ^ 44" "q2 = E2 div 2 ^ 42"
  define m0 m1 m2 where m: "m0 = D0 mod 2 ^ 44" "m1 = E1 mod 2 ^ 44" "m2 = E2 mod 2 ^ 42"
  have D0: "D0 = m0 + 2 ^ 44 * q0" and E1: "E1 = m1 + 2 ^ 44 * q1" and E2: "E2 = m2 + 2 ^ 42 * q2"
    unfolding q m by simp_all
  have D1: "D1 + q0 = m1 + 2 ^ 44 * q1" and D2: "D2 + q1 = m2 + 2 ^ 42 * q2"
    using E1 E2 by (simp_all only: q E1_def E2_def)
  have "m0 + 2 ^ 44 * q0 + 2 ^ 44 * D1 + 2 ^ 88 * D2 = m0 + q2 * 5 + 2 ^ 44 * m1 + 2 ^ 88 * m2 + prime_1305 * q2"
    using D1 D2 by (simp add: prime_1305_def)
  then show ?thesis unfolding q [symmetric] m [symmetric] using D0 by simp
qed

lemma mul_reduce_val:
  assumes a: "unat a0 < 2 ^ 45" "unat a1 < 2 ^ 46" "unat a2 < 2 ^ 43" and r: "r_ok (r0, r1, r2)"
  shows "h_ok (mul_reduce (r0, r1, r2) (a0, a1, a2))"
    and "hval (mul_reduce (r0, r1, r2) (a0, a1, a2)) mod prime_1305 = hval (a0, a1, a2) * hval (r0, r1, r2) mod prime_1305"
proof -
  have rb: "unat r0 < 2 ^ 44" "unat r1 < 2 ^ 44" "unat r2 < 2 ^ 42" using r by (simp_all add: r_ok_def)
  define s1 s2 where "s1 = r1 * push_bit 2 5" and "s2 = r2 * push_bit 2 5"
  have s: "unat s1 = unat r1 * 20" "unat s2 = unat r2 * 20"
    using rb by (simp_all add: s1_def s2_def unat_mul64)
  have sb: "unat s1 < 2 ^ 49" "unat s2 < 2 ^ 47" using rb by (simp_all add: s)
  have m: "unat (ucast x * ucast y :: u128) = unat x * unat y" if "unat x < 2 ^ 46" "unat y < 2 ^ 49" for x y :: u64
    using mult_less [OF that] by (subst unat_mul128) (simp_all add: unat_ucast_128)
  define D0 D1 D2 where "D0 = unat a0 * unat r0 + unat a1 * unat s2 + unat a2 * unat s1"
    and "D1 = unat a0 * unat r1 + unat a1 * unat r0 + unat a2 * unat s2"
    and "D2 = unat a0 * unat r2 + unat a1 * unat r1 + unat a2 * unat r0"
  define d0 d1 d2 :: u128 where "d0 = ucast a0 * ucast r0 + ucast a1 * ucast s2 + ucast a2 * ucast s1"
    and "d1 = ucast a0 * ucast r1 + ucast a1 * ucast r0 + ucast a2 * ucast s2"
    and "d2 = ucast a0 * ucast r2 + ucast a1 * ucast r1 + ucast a2 * ucast r0"
  note ml = mult_less [OF a(1) rb(1)] mult_less [OF a(1) rb(2)] mult_less [OF a(1) rb(3)]
    mult_less [OF a(2) rb(1)] mult_less [OF a(2) rb(2)] mult_less [OF a(2) sb(2)]
    mult_less [OF a(3) rb(1)] mult_less [OF a(3) sb(1)] mult_less [OF a(3) sb(2)]
  have Db: "D0 < 2 ^ 94" "D1 < 2 ^ 92" "D2 < 2 ^ 92" using ml by (simp_all add: D0_def D1_def D2_def)
  have d: "unat d0 = D0" "unat d1 = D1" "unat d2 = D2"
    using ml a rb sb by (simp_all add: d0_def d1_def d2_def D0_def D1_def D2_def unat_add128 m)
  define E1 E2 where "E1 = D1 + D0 div 2 ^ 44" and "E2 = D2 + E1 div 2 ^ 44"
  have q0: "D0 div 2 ^ 44 < 2 ^ 50" using Db by (intro less_mult_imp_div_less) simp
  then have E1b: "E1 < 2 ^ 93" using Db by (simp add: E1_def)
  then have q1: "E1 div 2 ^ 44 < 2 ^ 49" by (intro less_mult_imp_div_less) simp
  then have E2b: "E2 < 2 ^ 93" using Db by (simp add: E2_def)
  then have q2: "E2 div 2 ^ 42 < 2 ^ 51" by (intro less_mult_imp_div_less) simp
  define e1 e2 where "e1 = d1 + drop_bit 44 d0" and "e2 = d2 + drop_bit 44 e1"
  have e1: "unat e1 = E1" using E1b by (simp add: e1_def E1_def unat_add128 unat_drop d)
  have e2: "unat e2 = E2" using E2b by (simp add: e2_def E2_def unat_add128 unat_drop d e1)
  define l0 :: u64 where "l0 = (ucast d0 AND mask 44) + ucast (drop_bit 42 e2) * 5"
  have c2: "unat (ucast (drop_bit 42 e2) :: u64) = E2 div 2 ^ 42"
    using q2 unfolding unat_ucast_64 unat_drop e2 by (intro mod_less) simp
  have l0a: "unat (ucast d0 AND mask 44 :: u64) = D0 mod 2 ^ 44" using unat_low [of 44 d0] unfolding d(1) by simp
  have l0b: "unat (ucast (drop_bit 42 e2) * 5 :: u64) = E2 div 2 ^ 42 * 5"
    using q2 by (subst unat_mul64) (simp_all only: c2, simp_all)
  have L0b: "D0 mod 2 ^ 44 + E2 div 2 ^ 42 * 5 < 2 ^ 54" using q2 mod_less_divisor [of "2 ^ 44" D0] by simp
  have l0: "unat l0 = D0 mod 2 ^ 44 + E2 div 2 ^ 42 * 5"
    using L0b unfolding l0_def l0a [symmetric] l0b [symmetric] by (intro unat_add64) simp
  have top: "unat l0 div 2 ^ 44 < 2 ^ 10" using L0b unfolding l0 by (intro less_mult_imp_div_less) simp
  have h1a: "unat (ucast e1 AND mask 44 :: u64) = E1 mod 2 ^ 44" by (subst unat_low) (simp_all only: e1)
  have h1: "unat ((ucast e1 AND mask 44) + drop_bit 44 l0 :: u64) = E1 mod 2 ^ 44 + unat l0 div 2 ^ 44"
    using top mod_less_divisor [of "2 ^ 44" E1] by (subst unat_add64) (simp_all only: h1a unat_drop, simp_all)
  have h2: "unat (ucast e2 AND mask 42 :: u64) = E2 mod 2 ^ 42" by (subst unat_low) (simp_all only: e2)
  have eq: "mul_reduce (r0, r1, r2) (a0, a1, a2) = (l0 AND mask 44, (ucast e1 AND mask 44) + drop_bit 44 l0, ucast e2 AND mask 42)"
    by (simp only: mul_reduce_def prod.case Let_def s1_def [symmetric] s2_def [symmetric] d0_def [symmetric] d1_def [symmetric]
        d2_def [symmetric] e1_def [symmetric] e2_def [symmetric] l0_def [symmetric])
  show "h_ok (mul_reduce (r0, r1, r2) (a0, a1, a2))"
    using top mod_less_divisor [of "2 ^ 44" E1] unfolding eq h_ok_def prod.case h1 h2 unat_mask [of l0]
    by (intro conjI mod_less_divisor) simp_all
  have "hval (mul_reduce (r0, r1, r2) (a0, a1, a2)) + prime_1305 * (E2 div 2 ^ 42) = D0 + 2 ^ 44 * D1 + 2 ^ 88 * D2"
  proof -
    have "unat l0 mod 2 ^ 44 + 2 ^ 44 * (unat l0 div 2 ^ 44) = unat l0" by simp
    then show ?thesis
      unfolding eq hval_def prod.case h1 h2 unat_mask [of l0] carry_mod [of D0 D1 D2] E1_def [symmetric] E2_def [symmetric] l0 [symmetric]
      by (simp add: distrib_left)
  qed
  moreover have "hval (a0, a1, a2) * hval (r0, r1, r2) = D0 + 2 ^ 44 * D1 + 2 ^ 88 * D2 +
      prime_1305 * (4 * (unat a1 * unat r2 + unat a2 * unat r1) + 4 * 2 ^ 44 * (unat a2 * unat r2))"
    unfolding hval_def prod.case product_mod D0_def D1_def D2_def s ..
  ultimately show "hval (mul_reduce (r0, r1, r2) (a0, a1, a2)) mod prime_1305 = hval (a0, a1, a2) * hval (r0, r1, r2) mod prime_1305"
    by (metis mod_mult_self2)
qed

section \<open>The final reduction\<close>

definition canonical :: "limbs3 \<Rightarrow> bool" where
  "canonical = (\<lambda>(h0, h1, h2). unat h0 < 2 ^ 44 \<and> unat h1 < 2 ^ 44 \<and> unat h2 < 2 ^ 42)"

lemma canonical_less: "canonical h \<Longrightarrow> hval h < 2 ^ 130"
  by (auto simp: canonical_def hval_def)

lemma carry_full_val:
  assumes "h_ok h"
  shows "canonical (carry_full h)" and "hval (carry_full h) mod prime_1305 = hval h mod prime_1305"
proof -
  obtain h0 h1 h2 where h: "h = (h0, h1, h2)" by (cases h)
  have b: "unat h0 < 2 ^ 44" "unat h1 < 2 ^ 44 + 2 ^ 10" "unat h2 < 2 ^ 42" using assms by (simp_all add: h h_ok_def)
  define c1 a1 a2 c2 b2 a0 where s1: "c1 = drop_bit 44 h1" "a1 = h1 AND mask 44" "a2 = h2 + c1"
      "c2 = drop_bit 42 a2" "b2 = a2 AND mask 42" "a0 = h0 + c2 * 5"
  define c3 b0 b1 c4 d1 e2 where s2: "c3 = drop_bit 44 a0" "b0 = a0 AND mask 44" "b1 = a1 + c3"
      "c4 = drop_bit 44 b1" "d1 = b1 AND mask 44" "e2 = b2 + c4"
  define c5 f2 e0 c6 f0 f1 where s3: "c5 = drop_bit 42 e2" "f2 = e2 AND mask 42" "e0 = b0 + c5 * 5"
      "c6 = drop_bit 44 e0" "f0 = e0 AND mask 44" "f1 = d1 + c6"
  have eq: "carry_full h = (f0, f1, f2)"
    by (simp only: h carry_full_def prod.case Let_def s1 s2 s3)
  have times5: "unat (c * 5 :: u64) = unat c * 5" if "unat c \<le> 1" for c using that by (simp add: unat_mul64)
  have quot: "x div m \<le> 1" if "x < 2 * m" for x m :: nat using that by (metis less_Suc_eq_le less_mult_imp_div_less mult.commute one_add_one plus_1_eq_Suc)
  have v1: "unat c1 = unat h1 div 2 ^ 44" "unat a1 = unat h1 mod 2 ^ 44" by (simp_all only: s1 unat_drop unat_mask)
  have c1: "unat c1 \<le> 1" unfolding v1 using b by (intro quot) simp
  have a1: "unat a1 < 2 ^ 44" unfolding v1 by (rule mod_less_divisor) simp
  have v2: "unat a2 = unat h2 + unat c1" unfolding s1(3) using b c1 by (intro unat_add64) simp
  have v3: "unat c2 = unat a2 div 2 ^ 42" "unat b2 = unat a2 mod 2 ^ 42" by (simp_all only: s1 unat_drop unat_mask)
  have c2: "unat c2 \<le> 1" unfolding v3 using b c1 v2 by (intro quot) simp
  have b2: "unat b2 < 2 ^ 42" unfolding v3 by (rule mod_less_divisor) simp
  have v4: "unat a0 = unat h0 + unat c2 * 5" unfolding s1(6) using b c2 by (subst unat_add64) (simp_all add: times5)
  have v5: "unat c3 = unat a0 div 2 ^ 44" "unat b0 = unat a0 mod 2 ^ 44" by (simp_all only: s2 unat_drop unat_mask)
  have c3: "unat c3 \<le> 1" unfolding v5 using b c2 v4 by (intro quot) simp
  have b0: "unat b0 < 2 ^ 44" unfolding v5 by (rule mod_less_divisor) simp
  have v6: "unat b1 = unat a1 + unat c3" unfolding s2(3) using a1 c3 by (intro unat_add64) simp
  have v7: "unat c4 = unat b1 div 2 ^ 44" "unat d1 = unat b1 mod 2 ^ 44" by (simp_all only: s2 unat_drop unat_mask)
  have c4: "unat c4 \<le> 1" unfolding v7 using a1 c3 v6 by (intro quot) simp
  have d1: "unat d1 < 2 ^ 44" unfolding v7 by (rule mod_less_divisor) simp
  have v8: "unat e2 = unat b2 + unat c4" unfolding s2(6) using b2 c4 by (intro unat_add64) simp
  have v9: "unat c5 = unat e2 div 2 ^ 42" "unat f2 = unat e2 mod 2 ^ 42" by (simp_all only: s3 unat_drop unat_mask)
  have c5: "unat c5 \<le> 1" unfolding v9 using b2 c4 v8 by (intro quot) simp
  have v10: "unat e0 = unat b0 + unat c5 * 5" unfolding s3(3) using b0 c5 by (subst unat_add64) (simp_all add: times5)
  have v11: "unat c6 = unat e0 div 2 ^ 44" "unat f0 = unat e0 mod 2 ^ 44" by (simp_all only: s3 unat_drop unat_mask)
  have c6: "unat c6 \<le> 1" unfolding v11 using b0 c5 v10 by (intro quot) simp
  have v12: "unat f1 = unat d1 + unat c6" unfolding s3(6) using d1 c6 by (intro unat_add64) simp
  note parts = mod_div_split [of "unat h1" "2 ^ 44", folded v1] mod_div_split [of "unat a2" "2 ^ 42", folded v3]
    mod_div_split [of "unat a0" "2 ^ 44", folded v5] mod_div_split [of "unat b1" "2 ^ 44", folded v7]
    mod_div_split [of "unat e2" "2 ^ 42", folded v9] mod_div_split [of "unat e0" "2 ^ 44", folded v11]
  have f: "unat f0 < 2 ^ 44" "unat f2 < 2 ^ 42" unfolding v9 v11 by (rule mod_less_divisor, simp)+
  have "unat f1 < 2 ^ 44"
  proof (cases "unat c5 = 0")
    case True
    then have "unat c6 = 0" using v10 b0 by (simp add: v11)
    then show ?thesis using v12 d1 by simp
  next
    case False
    then have "2 ^ 42 \<le> unat e2" using parts(5) c5 by simp
    then have "unat c4 = 1" using v8 b2 c4 by simp
    then have "unat d1 = 0" using parts(4) v6 a1 c3 by simp
    then show ?thesis using v12 c6 by simp
  qed
  then show "canonical (carry_full h)" using f by (simp add: eq canonical_def)
  have "hval h = hval (carry_full h) + prime_1305 * (unat c2 + unat c5)"
    unfolding eq unfolding h hval_def prod.case prime_1305_def using parts v2 v4 v6 v8 v10 v12 by (simp add: distrib_left)
  then show "hval (carry_full h) mod prime_1305 = hval h mod prime_1305" by simp
qed

lemma canonical_inject:
  assumes "canonical (f0, f1, f2)" and "hval (f0, f1, f2) = n"
  shows "unat f0 = n mod 2 ^ 44" "unat f1 = n div 2 ^ 44 mod 2 ^ 44" "unat f2 = n div 2 ^ 88"
proof -
  have b: "unat f0 < 2 ^ 44" "unat f1 < 2 ^ 44" using assms(1) by (simp_all add: canonical_def)
  have n: "n = unat f0 + 2 ^ 44 * (unat f1 + 2 ^ 44 * unat f2)" using assms(2) by (simp add: hval_def)
  have q: "n div 2 ^ 44 = unat f1 + 2 ^ 44 * unat f2" unfolding n using b by (simp add: div_mult_self2)
  show "unat f0 = n mod 2 ^ 44" unfolding n using b by (simp only: mod_mult_self2 mod_less)
  show "unat f1 = n div 2 ^ 44 mod 2 ^ 44" unfolding q using b by simp
  have "n div 2 ^ 88 = n div 2 ^ 44 div 2 ^ 44" by (simp add: div_mult2_eq [symmetric])
  then show "unat f2 = n div 2 ^ 88" unfolding q using b by simp
qed

lemma subtract_p_val:
  assumes "canonical h"
  shows "canonical (subtract_p h)" and "hval (subtract_p h) = hval h mod prime_1305"
proof -
  obtain h0 h1 h2 where h: "h = (h0, h1, h2)" by (cases h)
  have b: "unat h0 < 2 ^ 44" "unat h1 < 2 ^ 44" "unat h2 < 2 ^ 42" using assms by (simp_all add: h canonical_def)
  define c1 g0 x1 c2 g1 x2 g2 where s: "c1 = drop_bit 44 (h0 + 5)" "g0 = (h0 + 5) AND mask 44" "x1 = h1 + c1"
      "c2 = drop_bit 44 x1" "g1 = x1 AND mask 44" "x2 = h2 + c2" "g2 = x2 - push_bit 42 1"
  have quot: "x div m \<le> 1" if "x < 2 * m" for x m :: nat using that by (metis less_Suc_eq_le less_mult_imp_div_less mult.commute one_add_one plus_1_eq_Suc)
  have v0: "unat (h0 + 5) = unat h0 + 5" using b by (subst unat_add64) simp_all
  have v1: "unat c1 = (unat h0 + 5) div 2 ^ 44" "unat g0 = (unat h0 + 5) mod 2 ^ 44" by (simp_all only: s v0 unat_drop unat_mask)
  have c1: "unat c1 \<le> 1" unfolding v1 using b by (intro quot) simp
  have v2: "unat x1 = unat h1 + unat c1" unfolding s(3) using b c1 by (intro unat_add64) simp
  have v3: "unat c2 = unat x1 div 2 ^ 44" "unat g1 = unat x1 mod 2 ^ 44" by (simp_all only: s unat_drop unat_mask)
  have c2: "unat c2 \<le> 1" unfolding v3 using b c1 v2 by (intro quot) simp
  have v4: "unat x2 = unat h2 + unat c2" unfolding s(6) using b c2 by (intro unat_add64) simp
  have g: "unat g0 < 2 ^ 44" "unat g1 < 2 ^ 44" unfolding v1 v3 by (rule mod_less_divisor, simp)+
  have total: "hval h + 5 = unat g0 + 2 ^ 44 * unat g1 + 2 ^ 88 * unat x2"
    unfolding h hval_def prod.case using v2 v4 mod_div_split [of "unat h0 + 5" "2 ^ 44", folded v1] mod_div_split [of "unat x1" "2 ^ 44", folded v3]
    by (simp add: distrib_left)
  have eq: "subtract_p h = (let m = drop_bit 63 g2 - 1 in ((h0 AND NOT m) OR (g0 AND m), (h1 AND NOT m) OR (g1 AND m), (h2 AND NOT m) OR (g2 AND m)))"
    by (simp only: h subtract_p_def prod.case Let_def s)
  have "canonical (subtract_p h) \<and> hval (subtract_p h) = hval h mod prime_1305"
  proof (cases "unat x2 < 2 ^ 42")
    case True
    then have "x2 < push_bit 42 1" by (simp add: word_less_nat_alt)
    then have "unat g2 = 2 ^ 64 + unat x2 - 2 ^ 42" by (simp add: s(7) unat_sub_if' word_less_nat_alt)
    then have "unat (drop_bit 63 g2) = 1" unfolding unat_drop using True by (intro div_nat_eqI) simp_all
    then have "drop_bit 63 g2 = 1" by (simp only: word_unat_eq_iff unsigned_1)
    then have r: "subtract_p h = h" unfolding eq unfolding h by (simp add: Let_def)
    have "hval h < prime_1305" using total g True by (simp add: prime_1305_def)
    then show ?thesis using assms by (simp add: r)
  next
    case False
    then have x2: "unat x2 = 2 ^ 42" using v4 b c2 by simp
    then have "x2 = push_bit 42 1" by (simp add: word_unat_eq_iff)
    then have g2: "g2 = 0" by (simp add: s(7))
    then have r: "subtract_p h = (g0, g1, 0)" by (simp add: eq Let_def)
    have v: "hval h = prime_1305 + hval (g0, g1, 0)" using total x2 by (simp add: hval_def prime_1305_def)
    have "hval (g0, g1, 0) < prime_1305" using canonical_less [OF assms] v by (simp add: prime_1305_def)
    then show ?thesis using g by (simp add: r v canonical_def)
  qed
  then show "canonical (subtract_p h)" "hval (subtract_p h) = hval h mod prime_1305" by simp_all
qed

section \<open>Loading the key and storing the tag\<close>

lemma poly_new_r:
  assumes "length key = 32"
  shows "r_ok (p_r (poly_new key))" and "hval (p_r (poly_new key)) = le_val (clamp (take 16 key))"
proof -
  define bs where "bs = clamp (take 16 key)"
  have len: "length bs = 16" using assms by (simp add: bs_def clamp_def Let_def)
  define B :: u128 where "B = from_le bs"
  have Blt: "unat B < 2 ^ 128" using unsigned_less [of B, where ?'a = nat] by simp
  have B: "unat B = le_val bs" using len by (simp add: B_def unat_from_le)
  have m0: "load32 bs 0 OR (push_bit 32 (load32 bs 4) AND mask 44) = ucast (take_bit 44 B)"
    using len by (auto intro!: bit_word_eqI simp: bit_simps bit_load32 B_def)
  have m2: "(drop_bit 24 (load32 bs 8) OR push_bit 8 (load32 bs 12)) AND mask 42 = ucast (drop_bit 88 B)"
  proof -
    have "(ucast (drop_bit 88 B) :: u64) AND mask 42 = ucast (drop_bit 88 B)"
    proof (rule bit_word_eqI)
      fix n
      have "bit B (88 + n) \<Longrightarrow> n < 42" using bit_imp_le_length [of B "88 + n"] by simp
      then show "bit ((ucast (drop_bit 88 B) :: u64) AND mask 42) n = bit (ucast (drop_bit 88 B) :: u64) n"
        by (auto simp: bit_simps)
    qed
    then show ?thesis using pieces(3) [OF len] by (simp add: B_def)
  qed
  define x0 x1 x2 :: u64 where "x0 = ucast (take_bit 44 B)" and "x1 = ucast (take_bit 44 (drop_bit 44 B))" and "x2 = ucast (drop_bit 88 B)"
  have r: "p_r (poly_new key) = (x0, x1, x2)"
    using m0 m2 pieces(2) [OF len] by (simp add: poly_new_def Let_def bs_def x0_def x1_def x2_def B_def)
  note x = limb_pieces [of B, folded x0_def x1_def x2_def]
  show "r_ok (p_r (poly_new key))" unfolding r r_ok_def prod.case x(1-3) using Blt by (auto intro: less_mult_imp_div_less)
  show "hval (p_r (poly_new key)) = le_val (clamp (take 16 key))"
    unfolding r hval_def prod.case using x(4) B by (simp add: bs_def)
qed

lemma le_val_le_bytes: "8 * n = LENGTH('a) \<Longrightarrow> le_val (le_bytes n (w :: 'a::len word)) = unat w"
  using unat_from_le [of "le_bytes n w", where 'a = 'a] by (simp add: from_le_le_bytes)

text \<open>The value of four 32-bit words, and of the 130-bit accumulator read in words of 32 bits.\<close>

definition val32 :: "nat \<Rightarrow> nat \<Rightarrow> nat \<Rightarrow> nat \<Rightarrow> nat" where
  "val32 a b c d = a + 2 ^ 32 * b + 2 ^ 64 * c + 2 ^ 96 * d"

lemma val32_mod:
  "v mod 2 ^ 128 = val32 (v mod 2 ^ 32) (v div 2 ^ 32 mod 2 ^ 32) (v div 2 ^ 64 mod 2 ^ 32) (v div 2 ^ 96 mod 2 ^ 32)"
proof -
  have a: "(2 :: nat) ^ 128 = 2 ^ 32 * 2 ^ 96" "(2 :: nat) ^ 96 = 2 ^ 32 * 2 ^ 64" "(2 :: nat) ^ 64 = 2 ^ 32 * 2 ^ 32" by simp_all
  have d: "v div 2 ^ 32 div 2 ^ 32 = v div 2 ^ 64" "v div 2 ^ 64 div 2 ^ 32 = v div 2 ^ 96" by (simp_all add: div_mult2_eq [symmetric])
  have "v mod 2 ^ 128 = 2 ^ 32 * (v div 2 ^ 32 mod 2 ^ 96) + v mod 2 ^ 32" by (subst a(1)) (rule mod_mult2_eq)
  also have "v div 2 ^ 32 mod 2 ^ 96 = 2 ^ 32 * (v div 2 ^ 64 mod 2 ^ 64) + v div 2 ^ 32 mod 2 ^ 32"
    by (subst a(2)) (simp only: mod_mult2_eq d)
  also have "v div 2 ^ 64 mod 2 ^ 64 = 2 ^ 32 * (v div 2 ^ 96 mod 2 ^ 32) + v div 2 ^ 64 mod 2 ^ 32"
    by (subst a(3)) (simp only: mod_mult2_eq d)
  finally show ?thesis by (simp add: val32_def distrib_left)
qed

lemma hval_words:
  fixes H0 H1 H2 :: nat
  assumes "H0 < 2 ^ 44"
  defines "v \<equiv> H0 + 2 ^ 44 * H1 + 2 ^ 88 * H2"
  shows "v mod 2 ^ 32 = H0 mod 2 ^ 32" "v div 2 ^ 32 = H0 div 2 ^ 32 + 2 ^ 12 * H1 + 2 ^ 32 * (2 ^ 24 * H2)"
    and "v div 2 ^ 64 = (H1 + 2 ^ 44 * H2) div 2 ^ 20"
proof -
  have v1: "v = H0 + 2 ^ 32 * (2 ^ 12 * H1 + 2 ^ 32 * (2 ^ 24 * H2))" and v2: "v = H0 + 2 ^ 44 * (H1 + 2 ^ 44 * H2)" by (simp_all add: v_def)
  show "v mod 2 ^ 32 = H0 mod 2 ^ 32" unfolding v1 by (rule mod_mult_self2)
  show "v div 2 ^ 32 = H0 div 2 ^ 32 + 2 ^ 12 * H1 + 2 ^ 32 * (2 ^ 24 * H2)" unfolding v1 by (subst div_mult_self2) simp_all
  have "v div 2 ^ 64 = v div 2 ^ 44 div 2 ^ 20" by (simp add: div_mult2_eq [symmetric])
  also have "v div 2 ^ 44 = H1 + 2 ^ 44 * H2" unfolding v2 using assms(1) by (subst div_mult_self2) simp_all
  finally show "v div 2 ^ 64 = (H1 + 2 ^ 44 * H2) div 2 ^ 20" .
qed

lemma val32_carry:
  fixes w0 w1 w2 w3 s0 s1 s2 s3 :: nat
  defines "r0 \<equiv> w0 + s0"
  defines "r1 \<equiv> w1 + s1 + r0 div 2 ^ 32"
  defines "r2 \<equiv> w2 + s2 + r1 div 2 ^ 32"
  defines "r3 \<equiv> w3 + s3 + r2 div 2 ^ 32"
  shows "val32 (r0 mod 2 ^ 32) (r1 mod 2 ^ 32) (r2 mod 2 ^ 32) (r3 mod 2 ^ 32) =
    (val32 w0 w1 w2 w3 + val32 s0 s1 s2 s3) mod 2 ^ 128"
proof -
  define q0 q1 q2 q3 where q: "q0 = r0 div 2 ^ 32" "q1 = r1 div 2 ^ 32" "q2 = r2 div 2 ^ 32" "q3 = r3 div 2 ^ 32"
  define m0 m1 m2 m3 where m: "m0 = r0 mod 2 ^ 32" "m1 = r1 mod 2 ^ 32" "m2 = r2 mod 2 ^ 32" "m3 = r3 mod 2 ^ 32"
  have r: "w0 + s0 = m0 + 2 ^ 32 * q0" "w1 + s1 + q0 = m1 + 2 ^ 32 * q1" "w2 + s2 + q1 = m2 + 2 ^ 32 * q2"
    "w3 + s3 + q2 = m3 + 2 ^ 32 * q3"
    unfolding q m r0_def r1_def r2_def r3_def by simp_all
  have "m0 < 2 ^ 32" "m1 < 2 ^ 32" "m2 < 2 ^ 32" "m3 < 2 ^ 32" unfolding m by simp_all
  then have "val32 m0 m1 m2 m3 < 2 ^ 128" by (simp add: val32_def)
  moreover have "val32 w0 w1 w2 w3 + val32 s0 s1 s2 s3 = val32 m0 m1 m2 m3 + 2 ^ 128 * q3"
    unfolding val32_def using r by simp
  ultimately show ?thesis unfolding m [symmetric] by simp
qed

definition s_val :: "u32 list \<Rightarrow> nat" where
  "s_val s = val32 (unat (s ! 0)) (unat (s ! 1)) (unat (s ! 2)) (unat (s ! 3))"

lemma unat_or_push:
  assumes "unat (x :: u64) < 2 ^ n"
  shows "unat (x OR push_bit n y) mod 2 ^ 32 = (unat x + 2 ^ n * unat y) mod 2 ^ 32"
proof -
  have x: "x = x AND mask n" by (rule word_unat_eq_iff [THEN iffD2]) (simp only: unat_mask mod_less [OF assms])
  have "(x AND mask n) AND push_bit n y = 0" by (rule bit_word_eqI) (auto simp: bit_simps)
  then have "unat (x OR push_bit n y) = unat x + unat (push_bit n y)" using x by (simp add: unat_or_disjoint)
  also have "unat (push_bit n y) = 2 ^ n * unat y mod 2 ^ 64"
    by (subst unsigned_push_bit_eq) (simp add: push_bit_eq_mult take_bit_eq_mod mult.commute)
  also have "(unat x + 2 ^ n * unat y mod 2 ^ 64) mod 2 ^ 32 = (unat x + 2 ^ n * unat y mod 2 ^ 64 mod 2 ^ 32) mod 2 ^ 32"
    by (simp only: mod_add_right_eq)
  also have "2 ^ n * unat y mod 2 ^ 64 mod 2 ^ 32 = 2 ^ n * unat y mod 2 ^ 32"
    by (intro mod_mod_cancel le_imp_power_dvd) simp
  finally show ?thesis by (simp only: mod_add_right_eq)
qed

lemma words_of_limbs:
  assumes "canonical (h0, h1, h2)"
  defines "v \<equiv> hval (h0, h1, h2)"
  shows "unat (ucast h0 :: u32) = v mod 2 ^ 32"
    and "unat (ucast (drop_bit 32 h0 OR push_bit 12 h1) :: u32) = v div 2 ^ 32 mod 2 ^ 32"
    and "unat (ucast (drop_bit 20 h1 OR push_bit 24 h2) :: u32) = v div 2 ^ 64 mod 2 ^ 32"
    and "unat (ucast (drop_bit 8 h2) :: u32) = v div 2 ^ 96 mod 2 ^ 32"
proof -
  have b: "unat h0 < 2 ^ 44" "unat h1 < 2 ^ 44" "unat h2 < 2 ^ 42" using assms(1) by (simp_all add: canonical_def)
  have v: "v = unat h0 + 2 ^ 44 * unat h1 + 2 ^ 88 * unat h2" by (simp add: v_def hval_def)
  note w = hval_words [OF b(1), of "unat h1" "unat h2", folded v]
  show "unat (ucast h0 :: u32) = v mod 2 ^ 32" by (simp only: unat_ucast_32 w)
  have q: "unat (drop_bit 32 h0) < 2 ^ 12" "unat (drop_bit 20 h1) < 2 ^ 24"
    unfolding unat_drop using b by (auto intro!: less_mult_imp_div_less)
  show "unat (ucast (drop_bit 32 h0 OR push_bit 12 h1) :: u32) = v div 2 ^ 32 mod 2 ^ 32"
    by (simp only: unat_ucast_32 w(2) mod_mult_self2 unat_or_push [OF q(1)] unat_drop)
  have "(unat h1 + 2 ^ 44 * unat h2) div 2 ^ 20 = unat h1 div 2 ^ 20 + 2 ^ 24 * unat h2"
  proof -
    have "unat h1 + 2 ^ 44 * unat h2 = unat h1 + 2 ^ 20 * (2 ^ 24 * unat h2)" by simp
    then show ?thesis by (simp only: div_mult_self2, simp)
  qed
  then show "unat (ucast (drop_bit 20 h1 OR push_bit 24 h2) :: u32) = v div 2 ^ 64 mod 2 ^ 32"
    by (simp only: unat_ucast_32 w(3) unat_or_push [OF q(2)] unat_drop)
  have "v div 2 ^ 96 = v div 2 ^ 88 div 2 ^ 8" by (simp add: div_mult2_eq [symmetric])
  also have "v div 2 ^ 88 = unat h2" using canonical_inject(3) [OF assms(1)] v_def by simp
  finally show "unat (ucast (drop_bit 8 h2) :: u32) = v div 2 ^ 96 mod 2 ^ 32"
    by (simp only: unat_ucast_32 unat_drop)
qed

lemma add_s_val:
  assumes "canonical h"
  shows "length (add_s h s) = 16" and "le_val (add_s h s) = (hval h + s_val s) mod 2 ^ 128"
proof -
  obtain h0 h1 h2 where h: "h = (h0, h1, h2)" by (cases h)
  define w0 w1 w2 w3 where w: "w0 = (ucast h0 :: u32)" "w1 = (ucast (drop_bit 32 h0 OR push_bit 12 h1) :: u32)"
    "w2 = (ucast (drop_bit 20 h1 OR push_bit 24 h2) :: u32)" "w3 = (ucast (drop_bit 8 h2) :: u32)"
  define r0 r1 r2 r3 :: u64 where r: "r0 = ucast w0 + ucast (s ! 0)" "r1 = ucast w1 + ucast (s ! 1) + drop_bit 32 r0"
    "r2 = ucast w2 + ucast (s ! 2) + drop_bit 32 r1" "r3 = ucast w3 + ucast (s ! 3) + drop_bit 32 r2"
  have eq: "add_s h s = le_bytes 4 (ucast r0 :: u32) @ le_bytes 4 (ucast r1 :: u32) @ le_bytes 4 (ucast r2 :: u32) @ le_bytes 4 (ucast r3 :: u32)"
    by (simp only: h add_s_def prod.case Let_def w r)
  show "length (add_s h s) = 16" by (simp add: eq)
  have lt: "unat (x :: u32) < 2 ^ 32" for x using unsigned_less [of x, where ?'a = nat] by simp
  have step: "unat (ucast x + ucast y + c :: u64) = unat x + unat y + unat c" if "unat c < 2 ^ 33" for x y :: u32 and c :: u64
  proof -
    have s: "unat x + unat y + unat c < 2 ^ 64" using that add_strict_mono [OF lt [of x] lt [of y]] by simp
    then have "unat (ucast x + ucast y :: u64) = unat x + unat y" by (subst unat_add64) (simp_all add: unat_ucast_32_64)
    then show ?thesis using s by (subst unat_add64) simp_all
  qed
  have carry: "unat (drop_bit 32 c) = unat c div 2 ^ 32" "unat (drop_bit 32 c) < 2 ^ 33" for c :: u64
    unfolding unat_drop using unsigned_less [of c, where ?'a = nat] by (auto intro!: less_mult_imp_div_less)
  have u0: "unat r0 = unat w0 + unat (s ! 0)" using step [of 0 w0 "s ! 0"] by (simp add: r)
  have u: "unat r1 = unat w1 + unat (s ! 1) + unat r0 div 2 ^ 32" "unat r2 = unat w2 + unat (s ! 2) + unat r1 div 2 ^ 32"
    "unat r3 = unat w3 + unat (s ! 3) + unat r2 div 2 ^ 32"
    by (simp_all only: r(2-4) step [OF carry(2)] carry(1))
  have "le_val (add_s h s) = val32 (unat r0 mod 2 ^ 32) (unat r1 mod 2 ^ 32) (unat r2 mod 2 ^ 32) (unat r3 mod 2 ^ 32)"
    unfolding eq by (simp add: le_val_append le_val_le_bytes unat_ucast_32 val32_def)
  also have "\<dots> = (val32 (unat w0) (unat w1) (unat w2) (unat w3) + s_val s) mod 2 ^ 128"
    unfolding u0 u s_val_def by (rule val32_carry)
  also have "val32 (unat w0) (unat w1) (unat w2) (unat w3) = hval h mod 2 ^ 128"
    using words_of_limbs [OF assms [unfolded h]] unfolding w h val32_mod [of "hval (h0, h1, h2)"] by (simp only:)
  finally show "le_val (add_s h s) = (hval h + s_val s) mod 2 ^ 128" by (simp only: mod_add_left_eq)
qed

lemma poly_new_s:
  assumes "length key = 32"
  shows "s_val (p_s (poly_new key)) = le_val (take 16 (drop 16 key))"
proof -
  define k where "k = take 16 (drop 16 key)"
  have len: "length k = 16" using assms by (simp add: k_def)
  have part: "take 4 (drop (16 + i * 4) key) = take 4 (drop (4 * i) k)" if "i < 4" for i
    using that by (simp add: k_def drop_take drop_drop take_take min_def mult.commute add.commute)
  have "k = take 4 k @ take 4 (drop 4 k) @ take 4 (drop 8 k) @ take 4 (drop 12 k)"
  proof -
    have "k = take 4 k @ drop 4 k" "drop 4 k = take 4 (drop 4 k) @ drop 8 k" "drop 8 k = take 4 (drop 8 k) @ drop 12 k"
      using append_take_drop_id [of 4 "drop 4 k"] append_take_drop_id [of 4 "drop 8 k"] by simp_all
    moreover have "drop 12 k = take 4 (drop 12 k)" using len by simp
    ultimately show ?thesis by (metis (no_types))
  qed
  then have "le_val k = le_val (take 4 k @ take 4 (drop 4 k) @ take 4 (drop 8 k) @ take 4 (drop 12 k))" by simp
  then show ?thesis
    using len part [of 0] part [of 1] part [of 2] part [of 3]
    by (simp add: s_val_def poly_new_def Let_def upt_rec unat_from_le val32_def le_val_append k_def [symmetric])
qed

section \<open>The accumulator over a stream\<close>

lemma process_block_val:
  assumes "h_ok (p_h p)" "r_ok (p_r p)" "length block = 16" "hibit = 0 \<or> hibit = 1"
  obtains h' where "process_block p block hibit = p\<lparr>p_h := h'\<rparr>" "h_ok h'"
    "hval h' mod prime_1305 = (hval (p_h p) + le_val block + 2 ^ 128 * unat hibit) * hval (p_r p) mod prime_1305"
proof -
  obtain h0 h1 h2 where h: "p_h p = (h0, h1, h2)" by (cases "p_h p")
  obtain r0 r1 r2 where r: "p_r p = (r0, r1, r2)" by (cases "p_r p")
  obtain a0 a1 a2 where a: "add_block (h0, h1, h2) block hibit = (a0, a1, a2)"
      "unat a0 < 2 ^ 45" "unat a1 < 2 ^ 46" "unat a2 < 2 ^ 43"
      "hval (a0, a1, a2) = hval (h0, h1, h2) + le_val block + 2 ^ 128 * unat hibit"
    using add_block_val assms(1,3,4) h by metis
  note m = mul_reduce_val [OF a(2-4) assms(2) [unfolded r]]
  show thesis
  proof (rule that)
    show "process_block p block hibit = p\<lparr>p_h := mul_reduce (r0, r1, r2) (a0, a1, a2)\<rparr>"
      by (simp add: process_block_def h r a)
    show "h_ok (mul_reduce (r0, r1, r2) (a0, a1, a2))" by (rule m)
    show "hval (mul_reduce (r0, r1, r2) (a0, a1, a2)) mod prime_1305 =
        (hval (p_h p) + le_val block + 2 ^ 128 * unat hibit) * hval (p_r p) mod prime_1305"
      unfolding m(2) a(5) h r ..
  qed
qed

lemma poly_acc_Nil [simp]: "poly_acc r a [] = a"
  by (simp add: poly_acc.simps)

lemma poly_acc_short:
  "msg \<noteq> [] \<Longrightarrow> length msg \<le> 16 \<Longrightarrow> poly_acc r a msg = (a + le_val (msg @ [1])) * r mod prime_1305"
  by (subst poly_acc.simps) simp

lemma poly_acc_append:
  "16 dvd length xs \<Longrightarrow> poly_acc r a (xs @ ys) = poly_acc r (poly_acc r a xs) ys"
proof (induction r a xs rule: poly_acc.induct)
  case (1 r a xs)
  show ?case
  proof (cases "xs = []")
    case False
    then have len: "16 \<le> length xs" using 1(2) by (simp add: dvd_imp_le)
    then have "16 dvd length (drop 16 xs)" using 1(2) by simp
    moreover have "poly_acc r a (xs @ ys) = poly_acc r ((a + le_val (take 16 xs @ [1])) * r mod prime_1305) (drop 16 xs @ ys)"
      using False len by (subst poly_acc.simps) simp
    moreover have "poly_acc r a xs = poly_acc r ((a + le_val (take 16 xs @ [1])) * r mod prime_1305) (drop 16 xs)"
      using False by (subst poly_acc.simps) simp
    ultimately show ?thesis using 1(1) [OF False] by simp
  qed simp
qed

lemma poly_acc_cong: "a mod prime_1305 = b mod prime_1305 \<Longrightarrow> poly_acc r a msg mod prime_1305 = poly_acc r b msg mod prime_1305"
proof (cases "msg = []")
  case False
  assume "a mod prime_1305 = b mod prime_1305"
  then have "(a + v) * r mod prime_1305 = (b + v) * r mod prime_1305" for v
    by (metis mod_add_left_eq mod_mult_left_eq)
  then show ?thesis using False by (subst (1 2) poly_acc.simps) simp
qed simp

lemma poly_acc_reduced: "msg \<noteq> [] \<Longrightarrow> poly_acc r a msg < prime_1305"
proof (induction r a msg rule: poly_acc.induct)
  case (1 r a msg)
  then show ?case
    by (subst poly_acc.simps) (cases "drop 16 msg = []", simp_all add: prime_1305_def)
qed

lemma le_val_16: "length b = 16 \<Longrightarrow> le_val (b @ [1]) = le_val b + 2 ^ 128"
  by (simp add: le_val_append)

lemma full_block_val:
  assumes "h_ok (p_h p)" "r_ok (p_r p)" "length block = 16"
  obtains h' where "process_block p block 1 = p\<lparr>p_h := h'\<rparr>" "h_ok h'"
    "hval h' mod prime_1305 = poly_acc (hval (p_r p)) (hval (p_h p)) block mod prime_1305"
proof -
  obtain h' where h': "process_block p block 1 = p\<lparr>p_h := h'\<rparr>" "h_ok h'"
      "hval h' mod prime_1305 = (hval (p_h p) + le_val block + 2 ^ 128 * unat (1 :: u64)) * hval (p_r p) mod prime_1305"
    by (rule process_block_val [OF assms disjI2 [OF refl]])
  have "block \<noteq> []" using assms(3) by auto
  then have "poly_acc (hval (p_r p)) (hval (p_h p)) block = (hval (p_h p) + le_val block + 2 ^ 128 * unat (1 :: u64)) * hval (p_r p) mod prime_1305"
    using assms(3) by (simp add: poly_acc_short le_val_16 add.assoc)
  then show thesis using that [OF h'(1,2)] h'(3) by simp
qed

lemma update_blocks_val:
  assumes "h_ok (p_h p)" "r_ok (p_r p)"
  obtains h' blocks rest where "update_blocks p data = (p\<lparr>p_h := h'\<rparr>, rest)" "data = blocks @ rest" "16 dvd length blocks"
    "length rest < 16" "h_ok h'" "hval h' mod prime_1305 = poly_acc (hval (p_r p)) (hval (p_h p)) blocks mod prime_1305"
  using assms
proof (induction p data arbitrary: thesis rule: update_blocks.induct)
  case (1 p data)
  show ?case
  proof (cases "16 \<le> length data")
    case True
    obtain h' where h': "process_block p (take 16 data) 1 = p\<lparr>p_h := h'\<rparr>" "h_ok h'"
        "hval h' mod prime_1305 = poly_acc (hval (p_r p)) (hval (p_h p)) (take 16 data) mod prime_1305"
      using full_block_val [of p "take 16 data"] 1(3,4) True by (metis length_take min_absorb2)
    obtain h'' blocks rest where i: "update_blocks (p\<lparr>p_h := h'\<rparr>) (drop 16 data) = (p\<lparr>p_h := h'\<rparr>\<lparr>p_h := h''\<rparr>, rest)"
        "drop 16 data = blocks @ rest" "16 dvd length blocks" "length rest < 16" "h_ok h''"
        "hval h'' mod prime_1305 =
           poly_acc (hval (p_r (p\<lparr>p_h := h'\<rparr>))) (hval (p_h (p\<lparr>p_h := h'\<rparr>))) blocks mod prime_1305"
      by (rule 1(1) [OF True, unfolded h'(1)]) (blast, use h'(2) 1(4) in simp_all)
    show ?thesis
    proof (rule 1(2))
      show "update_blocks p data = (p\<lparr>p_h := h''\<rparr>, rest)"
        using True i(1) by (subst update_blocks.simps) (simp add: h'(1))
      show "data = (take 16 data @ blocks) @ rest" using i(2) by (metis append.assoc append_take_drop_id)
      show "16 dvd length (take 16 data @ blocks)" using i(3) True by simp
      show "hval h'' mod prime_1305 = poly_acc (hval (p_r p)) (hval (p_h p)) (take 16 data @ blocks) mod prime_1305"
        unfolding i(6) using True poly_acc_cong [OF h'(3), of "hval (p_r p)" blocks] by (simp add: poly_acc_append)
    qed (use i in auto)
  next
    case False
    show ?thesis
      by (rule 1(2) [of "p_h p" data "[]"]) (use False 1(3) in \<open>auto simp: update_blocks.simps [of p]\<close>)
  qed
qed

definition poly_rep :: "bytes \<Rightarrow> bytes \<Rightarrow> poly1305 \<Rightarrow> bool" where
  "poly_rep key msg p \<longleftrightarrow>
     p_r p = p_r (poly_new key) \<and> p_s p = p_s (poly_new key) \<and> h_ok (p_h p) \<and> length (p_buffer p) = 16 \<and>
     (\<exists>blocks pend. msg = blocks @ pend \<and> 16 dvd length blocks \<and> length pend < 16 \<and> p_buffered p = length pend \<and>
        take (length pend) (p_buffer p) = pend \<and>
        hval (p_h p) mod prime_1305 = poly_acc (hval (p_r p)) 0 blocks mod prime_1305)"

lemma poly_repI:
  assumes "p_r p = p_r (poly_new key)" "p_s p = p_s (poly_new key)" "h_ok (p_h p)" "length (p_buffer p) = 16"
    "msg = blocks @ pend" "16 dvd length blocks" "length pend < 16" "p_buffered p = length pend"
    "take (length pend) (p_buffer p) = pend" "hval (p_h p) mod prime_1305 = poly_acc (hval (p_r p)) 0 blocks mod prime_1305"
  shows "poly_rep key msg p"
  unfolding poly_rep_def using assms by (intro conjI exI [of _ blocks] exI [of _ pend])

lemma poly_rep_new: "poly_rep key [] (poly_new key)"
  by (auto simp: poly_rep_def) (auto simp: poly_new_def Let_def h_ok_def hval_def)

lemma poly_rep_blocks:
  assumes rep: "poly_rep key msg p" and key: "length key = 32" and p: "p_buffered p = 0"
    and out: "update_blocks p data = (p', rest)"
  shows "poly_rep key (msg @ data) (if rest \<noteq> [] then p'\<lparr>p_buffer := rest @ drop (length rest) (p_buffer p'), p_buffered := length rest\<rparr> else p')"
proof -
  have r: "r_ok (p_r p)" using rep poly_new_r(1) [OF key] by (simp add: poly_rep_def)
  have m: "h_ok (p_h p)" "16 dvd length msg" "hval (p_h p) mod prime_1305 = poly_acc (hval (p_r p)) 0 msg mod prime_1305"
    using rep p by (auto simp: poly_rep_def)
  obtain h' blocks rest' where u: "update_blocks p data = (p\<lparr>p_h := h'\<rparr>, rest')" "data = blocks @ rest'" "16 dvd length blocks"
      "length rest' < 16" "h_ok h'" "hval h' mod prime_1305 = poly_acc (hval (p_r p)) (hval (p_h p)) blocks mod prime_1305"
    using update_blocks_val [OF m(1) r] by metis
  have eq: "p' = p\<lparr>p_h := h'\<rparr>" "rest' = rest" using u(1) out by simp_all
  have "hval h' mod prime_1305 = poly_acc (hval (p_r p)) 0 (msg @ blocks) mod prime_1305"
    unfolding u(6) poly_acc_append [OF m(2)] by (rule poly_acc_cong) (rule m(3))
  then show ?thesis
    by (intro poly_repI [of _ _ _ "msg @ blocks" rest]) (use rep u(2-5) p m(2) eq in \<open>auto simp: poly_rep_def\<close>)
qed

lemma poly_rep_update:
  assumes rep: "poly_rep key msg p" and key: "length key = 32"
  shows "poly_rep key (msg @ data) (poly_update p data)"
proof (cases "p_buffered p = 0")
  case True
  obtain p' rest where u: "update_blocks p data = (p', rest)" by (cases "update_blocks p data")
  show ?thesis
    using poly_rep_blocks [OF rep key True u] True by (simp add: poly_update_def update_buffer_def u)
next
  case False
  obtain blocks pend where m: "msg = blocks @ pend" "16 dvd length blocks" "length pend < 16" "p_buffered p = length pend"
      "take (length pend) (p_buffer p) = pend" "hval (p_h p) mod prime_1305 = poly_acc (hval (p_r p)) 0 blocks mod prime_1305"
    using rep unfolding poly_rep_def by blast
  have r: "p_r p = p_r (poly_new key)" "p_s p = p_s (poly_new key)" "h_ok (p_h p)" "length (p_buffer p) = 16"
    using rep by (simp_all add: poly_rep_def)
  define tk where "tk = min (16 - length pend) (length data)"
  define q where "q = p\<lparr>p_buffer := pend @ take tk data @ drop (length pend + tk) (p_buffer p), p_buffered := length pend + tk\<rparr>"
  have len: "length (p_buffer q) = 16" using m(3) r(4) by (simp add: q_def tk_def)
  show ?thesis
  proof (cases "length pend + tk = 16")
    case full: True
    have buf: "p_buffer q = pend @ take tk data" using full r(4) by (simp add: q_def)
    have rok: "r_ok (p_r q)" using poly_new_r(1) [OF key] r(1) by (simp add: q_def)
    obtain h' where h': "process_block q (p_buffer q) 1 = q\<lparr>p_h := h'\<rparr>" "h_ok h'"
        "hval h' mod prime_1305 = poly_acc (hval (p_r q)) (hval (p_h q)) (p_buffer q) mod prime_1305"
      using full_block_val [OF _ rok len] r(3) by (auto simp: q_def)
    define p' where "p' = q\<lparr>p_h := h', p_buffered := 0\<rparr>"
    have ub: "update_buffer p data = (p', drop tk data)"
      using False m(4,5) full h'(1) by (simp add: update_buffer_def Let_def p'_def q_def tk_def)
    have acc: "hval h' mod prime_1305 = poly_acc (hval (p_r p)) 0 (msg @ take tk data) mod prime_1305"
    proof -
      have "poly_acc (hval (p_r p)) 0 (msg @ take tk data) = poly_acc (hval (p_r p)) (poly_acc (hval (p_r p)) 0 blocks) (p_buffer q)"
        using m(1,2) by (simp add: buf poly_acc_append)
      then show ?thesis using h'(3) poly_acc_cong [OF m(6)] by (simp add: q_def)
    qed
    have "16 dvd length (msg @ take tk data)" using m(1,2) full tk_def by simp
    then have "poly_rep key (msg @ take tk data) p'"
      by (intro poly_repI [of _ _ _ "msg @ take tk data" "[]"]) (use r h'(2) acc len in \<open>simp_all add: p'_def q_def\<close>)
    moreover have "p_buffered p' = 0" by (simp add: p'_def)
    moreover obtain p'' rest where u: "update_blocks p' (drop tk data) = (p'', rest)" by (cases "update_blocks p' (drop tk data)")
    ultimately have "poly_rep key ((msg @ take tk data) @ drop tk data)
        (if rest \<noteq> [] then p''\<lparr>p_buffer := rest @ drop (length rest) (p_buffer p''), p_buffered := length rest\<rparr> else p'')"
      using poly_rep_blocks [OF _ key] by metis
    then show ?thesis by (simp add: poly_update_def ub u)
  next
    case part: False
    then have tk: "tk = length data" using m(3) by (auto simp: tk_def)
    have ub: "update_buffer p data = (q, [])"
      using False part m(4,5) tk by (simp add: update_buffer_def Let_def q_def tk_def)
    have "poly_rep key (msg @ data) q"
      by (intro poly_repI [of _ _ _ blocks "pend @ data"]) (use r m len tk part in \<open>auto simp: q_def tk_def\<close>)
    then show ?thesis by (simp add: poly_update_def ub update_blocks.simps)
  qed
qed

lemma le_val_zeros: "le_val (replicate n 0) = 0"
  by (induction n) simp_all

lemma poly_finalize_val:
  assumes rep: "poly_rep key msg p" and key: "length key = 32"
  shows "length (poly_finalize p) = 16" and "le_val (poly_finalize p) = poly1305_mac key msg"
proof -
  define r where "r = le_val (clamp (take 16 key))"
  obtain blocks pend where m: "msg = blocks @ pend" "16 dvd length blocks" "length pend < 16" "p_buffered p = length pend"
      "take (length pend) (p_buffer p) = pend" "hval (p_h p) mod prime_1305 = poly_acc (hval (p_r p)) 0 blocks mod prime_1305"
    using rep unfolding poly_rep_def by blast
  have pr: "p_r p = p_r (poly_new key)" "p_s p = p_s (poly_new key)" "h_ok (p_h p)" using rep by (simp_all add: poly_rep_def)
  have rok: "r_ok (p_r p)" and rv: "hval (p_r p) = r" using poly_new_r [OF key] pr(1) by (simp_all add: r_def)
  define q where "q = (if p_buffered p \<noteq> 0 then process_block p (take (p_buffered p) (p_buffer p) @ 1 # replicate (15 - p_buffered p) 0) 0 else p)"
  have q: "h_ok (p_h q) \<and> p_s q = p_s p \<and> hval (p_h q) mod prime_1305 = poly_acc r 0 msg mod prime_1305"
  proof (cases "pend = []")
    case True
    then show ?thesis using m pr rv by (simp add: q_def)
  next
    case False
    define blk where "blk = pend @ 1 # replicate (15 - length pend) 0"
    have len: "length blk = 16" using m(3) by (simp add: blk_def)
    have val: "le_val blk = le_val (pend @ [1])" by (simp add: blk_def le_val_append le_val_zeros)
    obtain h' where h': "process_block p blk 0 = p\<lparr>p_h := h'\<rparr>" "h_ok h'"
        "hval h' mod prime_1305 = (hval (p_h p) + le_val blk + 2 ^ 128 * unat (0 :: u64)) * hval (p_r p) mod prime_1305"
      by (rule process_block_val [OF pr(3) rok len disjI1 [OF refl]])
    have "q = p\<lparr>p_h := h'\<rparr>" using False h'(1) m(4,5) by (simp add: q_def blk_def)
    moreover have "hval h' mod prime_1305 = poly_acc r (hval (p_h p)) pend mod prime_1305"
      using h'(3) False m(3) by (simp add: poly_acc_short val rv)
    moreover have "poly_acc r (hval (p_h p)) pend mod prime_1305 = poly_acc r 0 msg mod prime_1305"
      unfolding m(1) poly_acc_append [OF m(2)] by (rule poly_acc_cong) (use m(6) rv in simp)
    ultimately show ?thesis using h'(2) by simp
  qed
  have out: "poly_finalize p = add_s (subtract_p (carry_full (p_h q))) (p_s p)"
    using q by (simp only: poly_finalize_def Let_def q_def [symmetric])
  note c = carry_full_val [OF conjunct1 [OF q]]
  note t = subtract_p_val [OF c(1)]
  have "poly_acc r 0 msg mod prime_1305 = poly_acc r 0 msg"
    using poly_acc_reduced [of msg r 0] by (cases "msg = []") simp_all
  then have "hval (subtract_p (carry_full (p_h q))) = poly_acc r 0 msg" using t(2) c(2) q by simp
  then show "le_val (poly_finalize p) = poly1305_mac key msg"
    unfolding out add_s_val(2) [OF t(1)] pr(2) poly_new_s [OF key] by (simp add: poly1305_mac_def r_def)
  show "length (poly_finalize p) = 16" unfolding out by (rule add_s_val(1) [OF t(1)])
qed

lemma poly_rep_stream:
  "length key = 32 \<Longrightarrow> poly_rep key msg p \<Longrightarrow> poly_rep key (msg @ concat chunks) (foldl poly_update p chunks)"
proof (induction chunks arbitrary: msg p)
  case (Cons d chunks)
  then show ?case using poly_rep_update [of key msg p d] by fastforce
qed simp

text \<open>The vector of section 2.5.2 of RFC 8439, which the source's own test uses.\<close>

definition rfc_key :: bytes where
  "rfc_key = [133, 214, 190, 120, 87, 85, 109, 51, 127, 68, 82, 254, 66, 213, 6, 168] @
     [1, 3, 128, 138, 251, 13, 178, 253, 74, 191, 246, 175, 65, 73, 245, 27]"

definition rfc_msg :: bytes where
  "rfc_msg = [67, 114, 121, 112, 116, 111, 103, 114, 97, 112, 104, 105, 99, 32, 70, 111, 114] @
     [117, 109, 32, 82, 101, 115, 101, 97, 114, 99, 104, 32, 71, 114, 111, 117, 112]"

lemma rfc_mac: "poly1305_mac rfc_key rfc_msg = 224842052152609318683470184328606844584"
  by (simp add: poly1305_mac_def rfc_key_def rfc_msg_def clamp_def poly_acc.simps prime_1305_def)

text \<open>C12: For every 32-byte key and every way of cutting a message into \<open>update\<close> calls, \<open>finalize\<close> returns the 16-byte
  tag whose little-endian value is the MAC of RFC 8439 on the whole message: the polynomial in the clamped r modulo
  2^130 - 5, plus s, modulo 2^128. The 44/44/42-bit limb arithmetic, the buffering of partial blocks, the padding of the
  last one and the constant-time final subtraction never lose a carry.
\<close>

theorem poly1305_streaming_exact:
  assumes "length key = 32"
  shows "length (poly_finalize (foldl poly_update (poly_new key) chunks)) = 16 \<and>
    le_val (poly_finalize (foldl poly_update (poly_new key) chunks)) = poly1305_mac key (concat chunks)"
  using poly_finalize_val [OF poly_rep_stream [OF assms poly_rep_new, of chunks] assms] by simp_all

theorem poly1305_streaming_exact_witness:
  "le_val (poly_finalize (foldl poly_update (poly_new rfc_key) [take 5 rfc_msg, drop 5 rfc_msg])) = poly1305_mac rfc_key rfc_msg
   \<and> poly1305_mac rfc_key rfc_msg = 224842052152609318683470184328606844584"
  using poly1305_streaming_exact [of rfc_key "[take 5 rfc_msg, drop 5 rfc_msg]"] by (simp add: rfc_mac) (simp add: rfc_key_def)

end
