(* ===== verification/Chacha.thy ===== *)
theory Chacha
  imports Codec
begin

text \<open>
  The stream cipher of \<^verbatim>\<open>crates/cv_crypto/src/chacha20.rs\<close>. The \<open>[u32; 16]\<close> of \<open>ChaCha20\<close> is a list of 16
  words; \<open>xor\<close> encrypts its slice in place, 64 bytes of key stream at a time. The lemmas give the key stream as a
  function of the byte position, which is what makes encryption its own inverse.
\<close>

section \<open>Definitions\<close>

record chacha20 =
  cc_state :: "u32 list"

definition chacha_new :: "bytes \<Rightarrow> bytes \<Rightarrow> u32 \<Rightarrow> chacha20" where
  "chacha_new key nonce counter =
     \<lparr>cc_state = [0x61707865, 0x3320646e, 0x79622d32, 0x6b206574] @
        map (\<lambda>i. from_le (take 4 (drop (i * 4) key))) [0..<8] @
        [counter] @
        map (\<lambda>i. from_le (take 4 (drop (i * 4) nonce))) [0..<3]\<rparr>"

definition quarter :: "nat \<Rightarrow> nat \<Rightarrow> nat \<Rightarrow> nat \<Rightarrow> u32 list \<Rightarrow> u32 list" where
  "quarter a b c d s =
     (let s = s[a := s ! a + s ! b];
          s = s[d := word_rotl 16 (s ! d XOR s ! a)];
          s = s[c := s ! c + s ! d];
          s = s[b := word_rotl 12 (s ! b XOR s ! c)];
          s = s[a := s ! a + s ! b];
          s = s[d := word_rotl 8 (s ! d XOR s ! a)];
          s = s[c := s ! c + s ! d]
      in s[b := word_rotl 7 (s ! b XOR s ! c)])"

definition double_round :: "u32 list \<Rightarrow> u32 list" where
  "double_round s =
     (let s = quarter 0 4 8 12 s;
          s = quarter 1 5 9 13 s;
          s = quarter 2 6 10 14 s;
          s = quarter 3 7 11 15 s;
          s = quarter 0 5 10 15 s;
          s = quarter 1 6 11 12 s;
          s = quarter 2 7 8 13 s
      in quarter 3 4 9 14 s)"

definition chacha_block :: "chacha20 \<Rightarrow> bytes" where
  "chacha_block c =
     (let s = (double_round ^^ 10) (cc_state c);
          s = map (\<lambda>i. s ! i + cc_state c ! i) [0..<16]
      in concat (map (\<lambda>i. le_bytes 4 (s ! i)) [0..<16]))"

definition next_block :: "chacha20 \<Rightarrow> bytes \<times> chacha20" where
  "next_block c = (chacha_block c, c\<lparr>cc_state := (cc_state c)[12 := cc_state c ! 12 + 1]\<rparr>)"

definition xor_at :: "nat \<Rightarrow> bytes \<Rightarrow> nat \<Rightarrow> bytes \<Rightarrow> bytes" where
  "xor_at offset ks j data = data[offset + j := data ! (offset + j) XOR ks ! j]"

function xor_loop :: "nat \<Rightarrow> chacha20 \<Rightarrow> bytes \<Rightarrow> chacha20 \<times> bytes" where
  "xor_loop offset c data =
     (if offset < length data then
        let (ks, c) = next_block c;
            tk = min (length data - offset) 64
        in xor_loop (offset + tk) c (fold (xor_at offset ks) [0..<tk] data)
      else (c, data))"
  by auto

lemma length_xor_fold [simp]: "length (fold (xor_at offset ks) js data) = length data"
  by (induction js arbitrary: data) (simp_all add: xor_at_def)

termination xor_loop
  by (relation "measure (\<lambda>(offset, c, data). length data - offset)") auto

declare xor_loop.simps [simp del]

definition chacha_xor :: "chacha20 \<Rightarrow> bytes \<Rightarrow> chacha20 \<times> bytes" where
  "chacha_xor c data = xor_loop 0 c data"

section \<open>Blocks\<close>

lemma length_quarter [simp]: "length (quarter a b c d s) = length s"
  by (simp add: quarter_def Let_def)

lemma length_chacha_new [simp]: "length (cc_state (chacha_new key nonce counter)) = 16"
  by (simp add: chacha_new_def)

lemma concat_same_length: "(\<And>x. x \<in> set xs \<Longrightarrow> length x = n) \<Longrightarrow> length (concat xs) = n * length xs"
  by (induction xs) simp_all

lemma length_chacha_block [simp]: "length (chacha_block c) = 64"
  by (simp add: chacha_block_def Let_def comp_def sum_list_triv length_concat)

section \<open>The key stream by position\<close>

definition at_counter :: "chacha20 \<Rightarrow> nat \<Rightarrow> chacha20" where
  "at_counter c n = c\<lparr>cc_state := (cc_state c)[12 := cc_state c ! 12 + of_nat n]\<rparr>"

definition key_byte :: "chacha20 \<Rightarrow> nat \<Rightarrow> u8" where
  "key_byte c i = chacha_block (at_counter c (i div 64)) ! (i mod 64)"

lemma at_counter_0 [simp]: "at_counter c 0 = c"
  by (simp add: at_counter_def)

lemma next_block_at:
  "length (cc_state c) = 16 \<Longrightarrow> next_block (at_counter c n) = (chacha_block (at_counter c n), at_counter c (Suc n))"
  by (simp add: next_block_def at_counter_def ac_simps)

lemma nth_xor_at: "i < length data \<Longrightarrow> xor_at offset ks j data ! i = (if i = offset + j then data ! i XOR ks ! j else data ! i)"
  by (simp add: xor_at_def nth_list_update)

lemma nth_xor_fold:
  "offset + n \<le> length data \<Longrightarrow> i < length data \<Longrightarrow>
   fold (xor_at offset ks) [0..<n] data ! i =
     (if offset \<le> i \<and> i < offset + n then data ! i XOR ks ! (i - offset) else data ! i)"
proof (induction n)
  case (Suc n)
  then show ?case by (auto simp: nth_xor_at less_Suc_eq)
qed auto

lemma xor_loop_spec:
  assumes "length (cc_state c) = 16" "offset = 64 * n \<or> length data \<le> offset"
    and "xor_loop offset (at_counter c n) data = (c', out)"
  shows "length out = length data \<and> (\<forall>i < length data. out ! i = (if i < offset then data ! i else data ! i XOR key_byte c i))"
  using assms
proof (induction offset "at_counter c n" data arbitrary: n rule: xor_loop.induct)
  case (1 offset data)
  show ?case
  proof (cases "offset < length data")
    case True
    define tk where "tk = min (length data - offset) 64"
    define data' where "data' = fold (xor_at offset (chacha_block (at_counter c n))) [0..<tk] data"
    have off: "offset = 64 * n" using 1(3) True by simp
    have len: "length data' = length data" by (simp add: data'_def)
    have run: "xor_loop (offset + tk) (at_counter c (Suc n)) data' = (c', out)"
      using 1(4) True by (subst (asm) xor_loop.simps) (simp add: next_block_at [OF 1(2)] tk_def data'_def Let_def)
    have off': "offset + tk = 64 * Suc n \<or> length data' \<le> offset + tk" using off len by (auto simp: tk_def)
    have ih: "length out = length data' \<and>
        (\<forall>i < length data'. out ! i = (if i < offset + tk then data' ! i else data' ! i XOR key_byte c i))"
      unfolding data'_def tk_def
      by (rule 1(1) [OF True refl, unfolded next_block_at [OF 1(2)], OF refl refl 1(2) off' [unfolded data'_def tk_def] run [unfolded data'_def tk_def]])
    have key: "key_byte c i = chacha_block (at_counter c n) ! (i - offset)" if "offset \<le> i" "i < offset + tk" for i
    proof -
      define j where "j = i - offset"
      have i: "i = 64 * n + j" "j < 64" using that by (simp_all add: off tk_def j_def)
      have "i div 64 = n" "i mod 64 = j" unfolding i(1) using i(2) by simp_all
      then show ?thesis by (simp add: key_byte_def j_def)
    qed
    have nth: "data' ! i = (if offset \<le> i \<and> i < offset + tk then data ! i XOR chacha_block (at_counter c n) ! (i - offset) else data ! i)"
      if "i < length data" for i
      unfolding data'_def by (rule nth_xor_fold) (use that True in \<open>simp_all add: tk_def\<close>)
    show ?thesis using ih len by (auto simp: nth key)
  next
    case False
    then show ?thesis using 1(4) by (subst (asm) xor_loop.simps) auto
  qed
qed

lemma chacha_xor_spec:
  assumes "length (cc_state c) = 16"
  shows "snd (chacha_xor c data) = map (\<lambda>i. data ! i XOR key_byte c i) [0..<length data]"
proof -
  obtain c' out where out: "xor_loop 0 (at_counter c 0) data = (c', out)" by (cases "xor_loop 0 (at_counter c 0) data")
  show ?thesis using xor_loop_spec [OF assms _ out] out by (auto simp: chacha_xor_def intro!: nth_equalityI)
qed

lemma length_chacha_xor: "length (cc_state c) = 16 \<Longrightarrow> length (snd (chacha_xor c data)) = length data"
  by (simp add: chacha_xor_spec)

lemma chacha_xor_twice: "length (cc_state c) = 16 \<Longrightarrow> snd (chacha_xor c (snd (chacha_xor c data))) = data"
  by (auto simp: chacha_xor_spec xor.assoc intro!: nth_equalityI)

end
