(* ===== verification/Aead.thy ===== *)
theory Aead
  imports Poly1305 Chacha
begin

text \<open>
  The AEAD of \<^verbatim>\<open>crates/cv_crypto/src/chacha20poly1305.rs\<close> with the constant-time comparison of
  \<^verbatim>\<open>crates/cv_crypto/src/subtle.rs\<close>. \<open>seal\<close> and \<open>open\<close> spell out the same key derivation and the same
  sequence of authenticator updates; here each is one definition used by both. The theorems say that \<open>open\<close> accepts
  exactly the outputs of \<open>seal\<close>, and that a sealed message is the one RFC 8439 prescribes, byte by byte.
\<close>

section \<open>Definitions\<close>

datatype crypto_error = BadLength | BadTag

definition ct_eq :: "bytes \<Rightarrow> bytes \<Rightarrow> bool" where
  "ct_eq a b =
     (if length a \<noteq> length b then False
      else fold (\<lambda>(x, y) acc. acc OR (x XOR y)) (zip a b) 0 = 0)"

definition zero_pad16 :: "nat \<Rightarrow> bytes" where
  "zero_pad16 len = (let rem = len mod 16 in if rem = 0 then [] else replicate (16 - rem) 0)"

definition one_time_key :: "bytes \<Rightarrow> bytes \<Rightarrow> bytes" where
  "one_time_key key nonce = take 32 (chacha_block (chacha_new key nonce 0))"

definition aead_tag :: "bytes \<Rightarrow> bytes \<Rightarrow> bytes \<Rightarrow> bytes \<Rightarrow> bytes" where
  "aead_tag key nonce aad ct =
     (let mac = poly_new (one_time_key key nonce);
          mac = poly_update mac aad;
          mac = poly_update mac (zero_pad16 (length aad));
          mac = poly_update mac ct;
          mac = poly_update mac (zero_pad16 (length ct));
          mac = poly_update mac (le_bytes 8 (of_nat (length aad) :: u64) @ le_bytes 8 (of_nat (length ct) :: u64))
      in poly_finalize mac)"

definition aead_seal :: "bytes \<Rightarrow> bytes \<Rightarrow> bytes \<Rightarrow> bytes \<Rightarrow> bytes" where
  "aead_seal key nonce aad plaintext =
     (let ct = snd (chacha_xor (chacha_new key nonce 1) plaintext)
      in ct @ aead_tag key nonce aad ct)"

definition aead_open :: "bytes \<Rightarrow> bytes \<Rightarrow> bytes \<Rightarrow> bytes \<Rightarrow> crypto_error + bytes" where
  "aead_open key nonce aad input =
     (if length input < 16 then Inl BadLength
      else
        let split = length input - 16;
            ct = take split input;
            recv_tag = drop split input;
            tag = aead_tag key nonce aad ct
        in if \<not> ct_eq tag recv_tag then Inl BadTag
           else Inr (snd (chacha_xor (chacha_new key nonce 1) ct)))"

section \<open>Lemmas\<close>

lemma or_fold_zero: "fold (\<lambda>(x, y) acc. acc OR (x XOR y)) xys (acc :: u8) = 0 \<longleftrightarrow> acc = 0 \<and> (\<forall>(x, y) \<in> set xys. x = y)"
proof (induction xys arbitrary: acc)
  case (Cons xy xys)
  obtain x y where xy: "xy = (x, y)" by (cases xy)
  have "acc OR (x XOR y) = 0 \<longleftrightarrow> acc = 0 \<and> x = y"
    by (metis bit.conj_disj_distrib bit.disj_zero_right bit.xor_self or_eq_0_iff xor_self_eq xor.left_commute xor.right_neutral)
  then show ?case by (auto simp: xy Cons)
qed simp

lemma ct_eq_iff: "ct_eq a b \<longleftrightarrow> a = b"
proof (cases "length a = length b")
  case True
  then show ?thesis by (auto simp: ct_eq_def or_fold_zero list_eq_iff_zip_eq)
qed (auto simp: ct_eq_def)

lemma length_add_s: "length (add_s h s) = 16"
  by (cases h) (simp add: add_s_def Let_def)

lemma length_aead_tag [simp]: "length (aead_tag key nonce aad ct) = 16"
  by (simp add: aead_tag_def poly_finalize_def Let_def length_add_s)

lemma aead_open_seal: "aead_open key nonce aad (aead_seal key nonce aad pt) = Inr pt"
  by (simp add: aead_open_def aead_seal_def Let_def ct_eq_iff chacha_xor_twice)

lemma aead_open_accepts:
  assumes "aead_open key nonce aad input = Inr pt"
  shows "input = aead_seal key nonce aad pt"
proof -
  define ct where "ct = take (length input - 16) input"
  have len: "16 \<le> length input" and tag: "aead_tag key nonce aad ct = drop (length input - 16) input"
    and pt: "pt = snd (chacha_xor (chacha_new key nonce 1) ct)"
    using assms by (auto simp: aead_open_def Let_def ct_eq_iff ct_def split: if_splits)
  have "aead_seal key nonce aad pt = ct @ aead_tag key nonce aad ct"
    by (simp add: aead_seal_def Let_def pt chacha_xor_twice)
  then show ?thesis by (simp only: tag) (simp add: ct_def)
qed

text \<open>C13: \<open>open\<close> accepts exactly what \<open>seal\<close> produces: it returns a plaintext if and only if the input is the sealing
  of that plaintext under the same key, nonce and associated data, it reports a bad length exactly for inputs shorter
  than a tag, and every other input is a bad tag. In particular decryption inverts encryption, and no second
  ciphertext opens to the same message.
\<close>

theorem aead_open_iff_seal:
  "(aead_open key nonce aad input = Inr pt \<longleftrightarrow> input = aead_seal key nonce aad pt) \<and>
   (aead_open key nonce aad input = Inl BadLength \<longleftrightarrow> length input < 16) \<and>
   (aead_open key nonce aad input = Inl BadTag \<longleftrightarrow> 16 \<le> length input \<and> input \<notin> range (aead_seal key nonce aad))"
proof (intro conjI)
  show iff: "aead_open key nonce aad input = Inr pt \<longleftrightarrow> input = aead_seal key nonce aad pt" for pt
    using aead_open_seal aead_open_accepts by blast
  show len: "aead_open key nonce aad input = Inl BadLength \<longleftrightarrow> length input < 16"
    by (auto simp: aead_open_def Let_def)
  show "aead_open key nonce aad input = Inl BadTag \<longleftrightarrow> 16 \<le> length input \<and> input \<notin> range (aead_seal key nonce aad)"
  proof (cases "aead_open key nonce aad input")
    case (Inl e)
    then show ?thesis using iff len by (cases e) auto
  next
    case (Inr q)
    then show ?thesis using iff [of q] by auto
  qed
qed

section \<open>The construction of RFC 8439\<close>

definition mac_data :: "bytes \<Rightarrow> bytes \<Rightarrow> bytes" where
  "mac_data aad ct =
     aad @ zero_pad16 (length aad) @ ct @ zero_pad16 (length ct) @
     le_bytes 8 (of_nat (length aad) :: u64) @ le_bytes 8 (of_nat (length ct) :: u64)"

lemma aead_tag_val: "le_val (aead_tag key nonce aad ct) = poly1305_mac (one_time_key key nonce) (mac_data aad ct)"
proof -
  define chunks where "chunks = [aad, zero_pad16 (length aad), ct, zero_pad16 (length ct),
    le_bytes 8 (of_nat (length aad) :: u64) @ le_bytes 8 (of_nat (length ct) :: u64)]"
  have tag: "aead_tag key nonce aad ct = poly_finalize (foldl poly_update (poly_new (one_time_key key nonce)) chunks)"
    by (simp add: aead_tag_def chunks_def Let_def)
  have "concat chunks = mac_data aad ct" by (simp add: chunks_def mac_data_def)
  moreover have "length (one_time_key key nonce) = 32" by (simp add: one_time_key_def)
  ultimately show ?thesis
    using poly_finalize_val(2) [OF poly_rep_stream [OF _ poly_rep_new, of "one_time_key key nonce" chunks]] by (simp add: tag)
qed

lemma mac_data_aligned: "length (mac_data aad ct) mod 16 = 0"
proof -
  have pad: "(n + length (zero_pad16 n)) mod 16 = 0" for n
    by (simp add: zero_pad16_def Let_def) presburger
  have "length (mac_data aad ct) = (length aad + length (zero_pad16 (length aad))) + (length ct + length (zero_pad16 (length ct))) + 16"
    by (simp add: mac_data_def)
  then show ?thesis using pad [of "length aad"] pad [of "length ct"] by presburger
qed

text \<open>A sealed message is the one RFC 8439 prescribes. It is 16 bytes longer than the plaintext; byte \<open>i\<close> of its first
  part is plaintext byte \<open>i\<close> xor byte \<open>i mod 64\<close> of the ChaCha20 block with counter \<open>1 + i div 64\<close> (modulo 2^32);
  and the last 16 bytes are the little-endian Poly1305 tag, under the one-time key cut from block 0, of the associated
  data and the ciphertext, each zero-padded to a multiple of 16, followed by their two 64-bit lengths.
\<close>

theorem aead_seal_exact:
  "length (aead_seal key nonce aad pt) = length pt + 16 \<and>
   take (length pt) (aead_seal key nonce aad pt) =
     map (\<lambda>i. pt ! i XOR chacha_block (chacha_new key nonce (1 + of_nat (i div 64))) ! (i mod 64)) [0..<length pt] \<and>
   le_val (drop (length pt) (aead_seal key nonce aad pt)) =
     poly1305_mac (take 32 (chacha_block (chacha_new key nonce 0))) (mac_data aad (take (length pt) (aead_seal key nonce aad pt)))"
proof -
  define ct where "ct = snd (chacha_xor (chacha_new key nonce 1) pt)"
  have len: "length ct = length pt" by (simp add: ct_def length_chacha_xor)
  have seal: "aead_seal key nonce aad pt = ct @ aead_tag key nonce aad ct" by (simp add: aead_seal_def ct_def Let_def)
  have "at_counter (chacha_new key nonce 1) n = chacha_new key nonce (1 + of_nat n)" for n
    by (simp add: at_counter_def chacha_new_def upt_rec)
  then have "ct = map (\<lambda>i. pt ! i XOR chacha_block (chacha_new key nonce (1 + of_nat (i div 64))) ! (i mod 64)) [0..<length pt]"
    by (simp add: ct_def chacha_xor_spec key_byte_def)
  then show ?thesis using len by (simp add: seal aead_tag_val one_time_key_def)
qed

end
