(* ===== verification/Hash_Stream.thy ===== *)
theory Hash_Stream
  imports Codec
begin

text \<open>
  The block buffer shared by the hash functions of \<^verbatim>\<open>crates/cv_crypto/src\<close> (\<^verbatim>\<open>sha1.rs\<close>,
  \<^verbatim>\<open>sha256.rs\<close>, \<^verbatim>\<open>sha512.rs\<close>): every \<open>update\<close> there fills the partial block, compresses the
  whole blocks of its argument and keeps the rest. The three structs extend one record; \<open>absorb\<close> is the common body
  and the locale proves once that cutting a message into calls does not matter.
\<close>

section \<open>Definitions\<close>

record 's hasher =
  hs_state :: 's
  hs_buf :: bytes
  hs_len :: nat

function absorb_blocks ::
  "('s \<Rightarrow> bytes \<Rightarrow> 's) \<Rightarrow> nat \<Rightarrow> ('s, 'z) hasher_scheme \<Rightarrow> bytes \<Rightarrow> ('s, 'z) hasher_scheme \<times> bytes" where
  "absorb_blocks compress B h data =
     (if 0 < B \<and> B \<le> length data then
        absorb_blocks compress B (h\<lparr>hs_state := compress (hs_state h) (take B data)\<rparr>) (drop B data)
      else (h, data))"
  by auto
termination by (relation "measure (\<lambda>(compress, B, h, data). length data)") auto

declare absorb_blocks.simps [simp del]

definition absorb_buffer ::
  "('s \<Rightarrow> bytes \<Rightarrow> 's) \<Rightarrow> nat \<Rightarrow> ('s, 'z) hasher_scheme \<Rightarrow> bytes \<Rightarrow> ('s, 'z) hasher_scheme \<times> bytes" where
  "absorb_buffer compress B h data =
     (if hs_len h \<noteq> 0 then
        let need = B - hs_len h;
            tk = min need (length data);
            h = h\<lparr>hs_buf := take (hs_len h) (hs_buf h) @ take tk data @ drop (hs_len h + tk) (hs_buf h),
                  hs_len := hs_len h + tk\<rparr>;
            data = drop tk data
        in (if hs_len h = B then h\<lparr>hs_state := compress (hs_state h) (hs_buf h), hs_len := 0\<rparr> else h, data)
      else (h, data))"

definition absorb ::
  "('s \<Rightarrow> bytes \<Rightarrow> 's) \<Rightarrow> nat \<Rightarrow> ('s, 'z) hasher_scheme \<Rightarrow> bytes \<Rightarrow> ('s, 'z) hasher_scheme" where
  "absorb compress B h data =
     (let (h, data) = absorb_buffer compress B h data;
          (h, data) = absorb_blocks compress B h data
      in if data \<noteq> [] then h\<lparr>hs_buf := data @ drop (length data) (hs_buf h), hs_len := length data\<rparr> else h)"

text \<open>
  The two ways the sources pad: \<open>sha256.rs\<close> and \<open>sha384.rs\<close> write the marker, the zeros and the
  length into the buffer themselves, the others feed a pad and the length to \<open>update\<close>.
\<close>

definition pad_in_buffer ::
  "('s \<Rightarrow> bytes \<Rightarrow> 's) \<Rightarrow> nat \<Rightarrow> bytes \<Rightarrow> ('s, 'z) hasher_scheme \<Rightarrow> 's" where
  "pad_in_buffer compress B len_bytes h =
     (let h = h\<lparr>hs_buf := (hs_buf h)[hs_len h := 0x80], hs_len := hs_len h + 1\<rparr>;
          h = (if B - length len_bytes < hs_len h then
                 let blk = take (hs_len h) (hs_buf h) @ replicate (B - hs_len h) 0
                 in h\<lparr>hs_buf := blk, hs_state := compress (hs_state h) blk, hs_len := 0\<rparr>
               else h);
          blk = take (hs_len h) (hs_buf h) @ replicate (B - length len_bytes - hs_len h) 0 @ len_bytes
      in compress (hs_state h) blk)"

definition pad_bytes :: "nat \<Rightarrow> nat \<Rightarrow> nat \<Rightarrow> bytes" where
  "pad_bytes B L cur =
     (let pad = 0x80 # replicate (2 * B - 1) 0;
          pad_len = (if cur < B - L then B - L - cur else 2 * B - L - cur)
      in take pad_len pad)"

text \<open>The padded message of the standards, for a block of \<open>B\<close> bytes and the given length field.\<close>

definition md_pad :: "nat \<Rightarrow> bytes \<Rightarrow> bytes \<Rightarrow> bytes" where
  "md_pad B msg len_bytes =
     msg @ 0x80 # replicate ((2 * B - 1 - length len_bytes - length msg mod B) mod B) 0 @ len_bytes"

lemma absorb_blocks_fields: "\<exists>s. fst (absorb_blocks compress B h data) = h\<lparr>hs_state := s\<rparr>"
proof (induction compress B h data rule: absorb_blocks.induct)
  case (1 compress B h data)
  show ?case
  proof (cases "0 < B \<and> B \<le> length data")
    case True
    then show ?thesis using 1 [OF True] by (subst absorb_blocks.simps) auto
  next
    case False
    then show ?thesis by (subst absorb_blocks.simps) (auto intro: exI [of _ "hs_state h"])
  qed
qed

text \<open>\<open>absorb\<close> leaves the fields a struct adds to the record alone.\<close>

lemma absorb_fields: "\<exists>s b n. absorb compress B h data = h\<lparr>hs_state := s, hs_buf := b, hs_len := n\<rparr>"
proof -
  obtain h1 d1 where 1: "absorb_buffer compress B h data = (h1, d1)" by (cases "absorb_buffer compress B h data")
  have "\<exists>s b n. h1 = h\<lparr>hs_state := s, hs_buf := b, hs_len := n\<rparr>"
    using 1 by (cases h) (auto simp: absorb_buffer_def Let_def split: if_splits)
  moreover obtain h2 d2 where 2: "absorb_blocks compress B h1 d1 = (h2, d2)" by (cases "absorb_blocks compress B h1 d1")
  moreover obtain s where "h2 = h1\<lparr>hs_state := s\<rparr>" using absorb_blocks_fields [of compress B h1 d1] 2 by auto
  ultimately show ?thesis using 1 by (cases h) (auto simp: absorb_def)
qed

text \<open>The state after the whole blocks of a message.\<close>

function fold_blocks :: "('s \<Rightarrow> bytes \<Rightarrow> 's) \<Rightarrow> nat \<Rightarrow> 's \<Rightarrow> bytes \<Rightarrow> 's" where
  "fold_blocks compress B s msg =
     (if 0 < B \<and> B \<le> length msg then fold_blocks compress B (compress s (take B msg)) (drop B msg) else s)"
  by auto
termination by (relation "measure (\<lambda>(compress, B, s, msg). length msg)") auto

declare fold_blocks.simps [simp del]

text \<open>What a hasher started in state \<open>s0\<close> knows of the message it has absorbed.\<close>

definition hash_rep :: "('s \<Rightarrow> bytes \<Rightarrow> 's) \<Rightarrow> nat \<Rightarrow> 's \<Rightarrow> bytes \<Rightarrow> ('s, 'z) hasher_scheme \<Rightarrow> bool" where
  "hash_rep compress B s0 msg h \<longleftrightarrow>
     length (hs_buf h) = B \<and> hs_state h = fold_blocks compress B s0 msg \<and>
     (\<exists>blocks pend. msg = blocks @ pend \<and> B dvd length blocks \<and> length pend < B \<and> hs_len h = length pend \<and>
        take (length pend) (hs_buf h) = pend)"

section \<open>Streaming\<close>

locale block_stream =
  fixes compress :: "'s \<Rightarrow> bytes \<Rightarrow> 's" and B :: nat
  assumes B_pos: "0 < B"
begin

lemma fold_short: "length msg < B \<Longrightarrow> fold_blocks compress B s msg = s"
  by (simp add: fold_blocks.simps)

lemma fold_step: "B \<le> length msg \<Longrightarrow> fold_blocks compress B s msg = fold_blocks compress B (compress s (take B msg)) (drop B msg)"
  using B_pos by (subst fold_blocks.simps) simp

lemma fold_one: "length blk = B \<Longrightarrow> fold_blocks compress B s blk = compress s blk"
  using B_pos by (simp add: fold_step fold_short)

lemma fold_append:
  "B dvd length xs \<Longrightarrow> fold_blocks compress B s (xs @ ys) = fold_blocks compress B (fold_blocks compress B s xs) ys"
proof (induction "length xs" arbitrary: s xs rule: less_induct)
  case less
  show ?case
  proof (cases "xs = []")
    case True
    then show ?thesis using B_pos by (simp add: fold_short)
  next
    case False
    then have len: "B \<le> length xs" using less.prems by (simp add: dvd_imp_le)
    have "B dvd length (drop B xs)" using less.prems by simp
    moreover have "length (drop B xs) < length xs" using len B_pos by simp
    ultimately show ?thesis using less.hyps len by (simp add: fold_step)
  qed
qed

lemma fold_tail:
  assumes "B dvd length blocks" "length pend < B"
  shows "fold_blocks compress B s (blocks @ pend) = fold_blocks compress B s blocks"
  using assms by (simp add: fold_append fold_short)

lemma repI:
  assumes "length (hs_buf h) = B" "msg = blocks @ pend" "B dvd length blocks" "length pend < B"
    "hs_state h = fold_blocks compress B s0 blocks" "hs_len h = length pend" "take (length pend) (hs_buf h) = pend"
  shows "hash_rep compress B s0 msg h"
  unfolding hash_rep_def using assms by (intro conjI exI [of _ blocks] exI [of _ pend]) (simp_all add: fold_tail)

lemma rep_new:
  "length (hs_buf h) = B \<Longrightarrow> hs_len h = 0 \<Longrightarrow> hash_rep compress B (hs_state h) [] h"
  using B_pos by (intro repI [of _ _ "[]" "[]"]) (simp_all add: fold_short)

lemma blocks_val:
  obtains blocks rest where "data = blocks @ rest" "B dvd length blocks" "length rest < B"
    "absorb_blocks compress B h data = (h\<lparr>hs_state := fold_blocks compress B (hs_state h) blocks\<rparr>, rest)"
proof (induction "length data" arbitrary: h data thesis rule: less_induct)
  case less
  show ?case
  proof (cases "B \<le> length data")
    case True
    define h' where "h' = h\<lparr>hs_state := compress (hs_state h) (take B data)\<rparr>"
    have "length (drop B data) < length data" using True B_pos by simp
    then obtain blocks rest where i: "drop B data = blocks @ rest" "B dvd length blocks" "length rest < B"
        "absorb_blocks compress B h' (drop B data) = (h'\<lparr>hs_state := fold_blocks compress B (hs_state h') blocks\<rparr>, rest)"
      using less.hyps by metis
    show thesis
    proof (rule less.prems)
      show "data = (take B data @ blocks) @ rest" using i(1) by (metis append.assoc append_take_drop_id)
      show "B dvd length (take B data @ blocks)" using i(2) True by simp
      show "absorb_blocks compress B h data = (h\<lparr>hs_state := fold_blocks compress B (hs_state h) (take B data @ blocks)\<rparr>, rest)"
        using True B_pos i(4) by (subst absorb_blocks.simps) (simp add: h'_def fold_append fold_one)
    qed (rule i(3))
  next
    case False
    show thesis
      by (rule less.prems [of "[]" data]) (use False in \<open>auto simp: absorb_blocks.simps [of compress B h data] fold_short\<close>)
  qed
qed

lemma rep_blocks:
  assumes rep: "hash_rep compress B s0 msg h" and len: "hs_len h = 0"
    and out: "absorb_blocks compress B h data = (h', rest)"
  shows "hash_rep compress B s0 (msg @ data)
    (if rest \<noteq> [] then h'\<lparr>hs_buf := rest @ drop (length rest) (hs_buf h'), hs_len := length rest\<rparr> else h')"
proof -
  have m: "B dvd length msg" "hs_state h = fold_blocks compress B s0 msg" "length (hs_buf h) = B"
    using rep len by (auto simp: hash_rep_def)
  obtain blocks rest' where u: "data = blocks @ rest'" "B dvd length blocks" "length rest' < B"
      "absorb_blocks compress B h data = (h\<lparr>hs_state := fold_blocks compress B (hs_state h) blocks\<rparr>, rest')"
    by (rule blocks_val)
  have eq: "h' = h\<lparr>hs_state := fold_blocks compress B (hs_state h) blocks\<rparr>" "rest' = rest" using u(4) out by simp_all
  have "fold_blocks compress B (hs_state h) blocks = fold_blocks compress B s0 (msg @ blocks)"
    by (simp add: m fold_append)
  then show ?thesis
    by (intro repI [of _ _ "msg @ blocks" rest]) (use m u eq len in auto)
qed

lemma rep_absorb:
  assumes rep: "hash_rep compress B s0 msg h"
  shows "hash_rep compress B s0 (msg @ data) (absorb compress B h data)"
proof (cases "hs_len h = 0")
  case True
  obtain h' rest where u: "absorb_blocks compress B h data = (h', rest)" by (cases "absorb_blocks compress B h data")
  show ?thesis
    using rep_blocks [OF rep True u] True by (simp add: absorb_def absorb_buffer_def u)
next
  case False
  obtain blocks pend where m: "msg = blocks @ pend" "B dvd length blocks" "length pend < B" "hs_len h = length pend"
      "take (length pend) (hs_buf h) = pend"
    using rep unfolding hash_rep_def by blast
  have r: "length (hs_buf h) = B" "hs_state h = fold_blocks compress B s0 blocks"
    using rep m by (simp_all add: hash_rep_def fold_tail)
  define tk where "tk = min (B - length pend) (length data)"
  define q where "q = h\<lparr>hs_buf := pend @ take tk data @ drop (length pend + tk) (hs_buf h), hs_len := length pend + tk\<rparr>"
  have len: "length (hs_buf q) = B" using m(3) r(1) by (simp add: q_def tk_def)
  show ?thesis
  proof (cases "length pend + tk = B")
    case full: True
    define h' where "h' = q\<lparr>hs_state := compress (hs_state q) (hs_buf q), hs_len := 0\<rparr>"
    have buf: "hs_buf q = pend @ take tk data" using full r(1) by (simp add: q_def)
    have ab: "absorb_buffer compress B h data = (h', drop tk data)"
      using False m(4,5) full by (simp add: absorb_buffer_def Let_def h'_def q_def tk_def)
    have "B dvd length (blocks @ pend @ take tk data)" using m(2) full tk_def by simp
    moreover have "hs_state h' = fold_blocks compress B s0 (blocks @ pend @ take tk data)"
      using len m(2) by (simp add: h'_def fold_append [of blocks] fold_one buf [symmetric]) (simp add: q_def r)
    ultimately have "hash_rep compress B s0 (msg @ take tk data) h'"
      by (intro repI [of _ _ "blocks @ pend @ take tk data" "[]"]) (use B_pos len m(1) in \<open>simp_all add: h'_def\<close>)
    moreover have "hs_len h' = 0" by (simp add: h'_def)
    moreover obtain h'' rest where u: "absorb_blocks compress B h' (drop tk data) = (h'', rest)"
      by (cases "absorb_blocks compress B h' (drop tk data)")
    ultimately have "hash_rep compress B s0 ((msg @ take tk data) @ drop tk data)
        (if rest \<noteq> [] then h''\<lparr>hs_buf := rest @ drop (length rest) (hs_buf h''), hs_len := length rest\<rparr> else h'')"
      using rep_blocks by metis
    then show ?thesis by (simp add: absorb_def ab u)
  next
    case part: False
    then have tk: "tk = length data" using m(3) by (auto simp: tk_def)
    have ab: "absorb_buffer compress B h data = (q, [])"
      using False part m(4,5) tk by (simp add: absorb_buffer_def Let_def q_def tk_def)
    have "hash_rep compress B s0 (msg @ data) q"
      by (intro repI [of _ _ blocks "pend @ data"]) (use r m len tk part in \<open>auto simp: q_def tk_def\<close>)
    then show ?thesis using B_pos by (simp add: absorb_def ab absorb_blocks.simps)
  qed
qed

lemma rep_len: "hash_rep compress B s0 msg h \<Longrightarrow> hs_len h = length msg mod B"
  using B_pos by (auto simp: hash_rep_def mod_add_left_eq [symmetric] elim!: dvdE)

lemma pad_zeros:
  assumes "n < B" "L < B"
  shows "(2 * B - 1 - L - n) mod B = (if n < B - L then B - L - 1 - n else 2 * B - L - 1 - n)"
proof (cases "n < B - L")
  case True
  then have "2 * B - 1 - L - n = B + (B - L - 1 - n)" using assms by simp
  then have "(2 * B - 1 - L - n) mod B = (B - L - 1 - n) mod B" by (simp only: mod_add_self1)
  also have "\<dots> = B - L - 1 - n" using B_pos by (intro mod_less) simp
  finally show ?thesis using True by simp
next
  case False
  then have "2 * B - L - 1 - n < B" using assms by simp
  then show ?thesis using False by (simp add: diff_commute)
qed

lemma pad_in_buffer_val:
  assumes rep: "hash_rep compress B s0 msg h" and L: "length len_bytes < B"
  shows "pad_in_buffer compress B len_bytes h = fold_blocks compress B s0 (md_pad B msg len_bytes)"
proof -
  obtain blocks pend where m: "msg = blocks @ pend" "B dvd length blocks" "length pend < B" "hs_len h = length pend"
      "take (length pend) (hs_buf h) = pend"
    using rep unfolding hash_rep_def by blast
  have r: "length (hs_buf h) = B" "hs_state h = fold_blocks compress B s0 blocks"
    using rep m by (simp_all add: hash_rep_def fold_tail)
  have mod: "length msg mod B = length pend" using rep_len [OF rep] m(4) by simp
  have marked: "take (Suc (length pend)) ((hs_buf h)[length pend := 0x80]) = pend @ [0x80]"
    using m(3,5) r(1) by (simp add: take_Suc_conv_app_nth)
  note zeros = pad_zeros [OF m(3) L]
  show ?thesis
  proof (cases "length pend < B - length len_bytes")
    case True
    define blk where "blk = pend @ 0x80 # replicate (B - length len_bytes - 1 - length pend) 0 @ len_bytes"
    have "length blk = B" using True L by (simp add: blk_def)
    moreover have "md_pad B msg len_bytes = blocks @ blk" unfolding md_pad_def mod zeros using True by (simp add: m(1) blk_def)
    ultimately have "fold_blocks compress B s0 (md_pad B msg len_bytes) = compress (hs_state h) blk"
      by (simp add: fold_append m(2) fold_one r(2))
    then show ?thesis using True m(4) marked by (simp add: pad_in_buffer_def Let_def blk_def)
  next
    case False
    define blk1 where "blk1 = pend @ 0x80 # replicate (B - 1 - length pend) 0"
    define blk2 where "blk2 = replicate (B - length len_bytes) 0 @ len_bytes"
    have len: "length blk1 = B" "length blk2 = B" using m(3) L by (simp_all add: blk1_def blk2_def)
    have "2 * B - length len_bytes - 1 - length pend = (B - 1 - length pend) + (B - length len_bytes)"
      using m(3) L by simp
    then have "md_pad B msg len_bytes = blocks @ blk1 @ blk2"
      unfolding md_pad_def mod zeros using False by (simp add: m(1) blk1_def blk2_def replicate_add)
    then have "fold_blocks compress B s0 (md_pad B msg len_bytes) = compress (compress (hs_state h) blk1) blk2"
      using len by (simp add: fold_append m(2) fold_one r(2))
    then show ?thesis using False m(4) marked by (simp add: pad_in_buffer_def Let_def blk1_def blk2_def)
  qed
qed

lemma md_pad_eq:
  assumes "length len_bytes < B"
  shows "md_pad B msg len_bytes = (msg @ pad_bytes B (length len_bytes) (length msg mod B)) @ len_bytes"
proof -
  define n where "n = length msg mod B"
  have n: "n < B" using B_pos by (simp add: n_def)
  have "pad_bytes B (length len_bytes) n = 0x80 # replicate ((2 * B - 1 - length len_bytes - n) mod B) 0"
    unfolding pad_bytes_def Let_def pad_zeros [OF n assms] using n assms by (auto simp: take_Cons' min_def)
  then show ?thesis by (simp add: md_pad_def n_def)
qed

lemma pad_by_absorb_val:
  assumes rep: "hash_rep compress B s0 msg h" and L: "length len_bytes < B"
  shows "hash_rep compress B s0 (md_pad B msg len_bytes) (absorb compress B (absorb compress B h (pad_bytes B (length len_bytes) (hs_len h))) len_bytes)"
    and "B dvd length (md_pad B msg len_bytes)"
proof -
  define n where "n = hs_len h"
  have n: "n < B" "length msg mod B = n" using rep_len [OF rep] B_pos by (simp_all add: n_def)
  note zeros = pad_zeros [OF n(1) L]
  have "md_pad B msg len_bytes = (msg @ pad_bytes B (length len_bytes) n) @ len_bytes"
    using md_pad_eq [OF L, of msg] n(2) by simp
  then show "hash_rep compress B s0 (md_pad B msg len_bytes) (absorb compress B (absorb compress B h (pad_bytes B (length len_bytes) (hs_len h))) len_bytes)"
    by (simp only: n_def [symmetric] rep_absorb [OF rep_absorb [OF rep]])
  have "length (md_pad B msg len_bytes) = length msg + 1 + (2 * B - 1 - length len_bytes - n) mod B + length len_bytes"
    by (simp add: md_pad_def n)
  moreover have "length msg = B * (length msg div B) + n" using mult_div_mod_eq [of B "length msg"] n(2) by simp
  ultimately have "length (md_pad B msg len_bytes) = B * (length msg div B) + (n + 1 + (2 * B - 1 - length len_bytes - n) mod B + length len_bytes)"
    by simp
  also have "n + 1 + (2 * B - 1 - length len_bytes - n) mod B + length len_bytes = (if n < B - length len_bytes then B else 2 * B)"
    unfolding zeros using n(1) L by auto
  finally show "B dvd length (md_pad B msg len_bytes)" by simp
qed

end

end
