(* ===== verification/Sha2.thy ===== *)
theory Sha2
  imports Hash_Stream Word_Facts
begin

text \<open>
  SHA-256 (\<^verbatim>\<open>crates/cv_crypto/src/sha256.rs\<close>), SHA-384 (\<^verbatim>\<open>sha384.rs\<close>) and SHA-512
  (\<^verbatim>\<open>sha512.rs\<close>): compression functions, hashers and finalisation. \<open>sha384.rs\<close> repeats the round
  constants and the compression function of \<open>sha512.rs\<close> word for word, so both hashers share one definition of
  them. Each hasher is proved to be the standard's function of the whole message.
\<close>

section \<open>SHA-256\<close>

definition sha256_K :: "u32 list" where
  "sha256_K = concat
     [[0x428a2f98, 0x71374491, 0xb5c0fbcf, 0xe9b5dba5, 0x3956c25b, 0x59f111f1, 0x923f82a4, 0xab1c5ed5],
      [0xd807aa98, 0x12835b01, 0x243185be, 0x550c7dc3, 0x72be5d74, 0x80deb1fe, 0x9bdc06a7, 0xc19bf174],
      [0xe49b69c1, 0xefbe4786, 0x0fc19dc6, 0x240ca1cc, 0x2de92c6f, 0x4a7484aa, 0x5cb0a9dc, 0x76f988da],
      [0x983e5152, 0xa831c66d, 0xb00327c8, 0xbf597fc7, 0xc6e00bf3, 0xd5a79147, 0x06ca6351, 0x14292967],
      [0x27b70a85, 0x2e1b2138, 0x4d2c6dfc, 0x53380d13, 0x650a7354, 0x766a0abb, 0x81c2c92e, 0x92722c85],
      [0xa2bfe8a1, 0xa81a664b, 0xc24b8b70, 0xc76c51a3, 0xd192e819, 0xd6990624, 0xf40e3585, 0x106aa070],
      [0x19a4c116, 0x1e376c08, 0x2748774c, 0x34b0bcb5, 0x391c0cb3, 0x4ed8aa4a, 0x5b9cca4f, 0x682e6ff3],
      [0x748f82ee, 0x78a5636f, 0x84c87814, 0x8cc70208, 0x90befffa, 0xa4506ceb, 0xbef9a3f7, 0xc67178f2]]"

definition sha256_H0 :: "u32 list" where
  "sha256_H0 =
     [0x6a09e667, 0xbb67ae85, 0x3c6ef372, 0xa54ff53a, 0x510e527f, 0x9b05688c, 0x1f83d9ab, 0x5be0cd19]"

definition sha256_schedule :: "nat \<Rightarrow> u32 list \<Rightarrow> u32 list" where
  "sha256_schedule i w =
     (let s0 = word_rotr 7 (w ! (i - 15)) XOR word_rotr 18 (w ! (i - 15)) XOR drop_bit 3 (w ! (i - 15));
          s1 = word_rotr 17 (w ! (i - 2)) XOR word_rotr 19 (w ! (i - 2)) XOR drop_bit 10 (w ! (i - 2))
      in w[i := w ! (i - 16) + s0 + w ! (i - 7) + s1])"

type_synonym sha256_vars = "u32 \<times> u32 \<times> u32 \<times> u32 \<times> u32 \<times> u32 \<times> u32 \<times> u32"

fun sha256_round :: "u32 list \<Rightarrow> nat \<Rightarrow> sha256_vars \<Rightarrow> sha256_vars" where
  "sha256_round w i (a, b, c, d, e, f, g, h) =
     (let s1 = word_rotr 6 e XOR word_rotr 11 e XOR word_rotr 25 e;
          ch = (e AND f) XOR (NOT e AND g);
          t1 = h + s1 + ch + sha256_K ! i + w ! i;
          s0 = word_rotr 2 a XOR word_rotr 13 a XOR word_rotr 22 a;
          mj = (a AND b) XOR (a AND c) XOR (b AND c);
          t2 = s0 + mj
      in (t1 + t2, a, b, c, d + t1, e, f, g))"

definition sha256_compress :: "u32 list \<Rightarrow> bytes \<Rightarrow> u32 list" where
  "sha256_compress s block =
     (let w = map (\<lambda>i. from_be (take 4 (drop (i * 4) block))) [0..<16] @ replicate 48 0;
          w = fold sha256_schedule [16..<64] w;
          (a, b, c, d, e, f, g, h) =
            fold (sha256_round w) [0..<64] (s ! 0, s ! 1, s ! 2, s ! 3, s ! 4, s ! 5, s ! 6, s ! 7)
      in [s ! 0 + a, s ! 1 + b, s ! 2 + c, s ! 3 + d, s ! 4 + e, s ! 5 + f, s ! 6 + g, s ! 7 + h])"

record sha256 = "u32 list hasher" +
  length_bits :: u64

definition sha256_new :: sha256 where
  "sha256_new = \<lparr>hs_state = sha256_H0, hs_buf = replicate 64 0, hs_len = 0, length_bits = 0\<rparr>"

definition sha256_update :: "sha256 \<Rightarrow> bytes \<Rightarrow> sha256" where
  "sha256_update h data =
     absorb sha256_compress 64 (h\<lparr>length_bits := length_bits h + of_nat (length data) * 8\<rparr>) data"

definition sha256_finalize :: "sha256 \<Rightarrow> bytes" where
  "sha256_finalize h =
     concat (map (be_bytes 4) (pad_in_buffer sha256_compress 64 (be_bytes 8 (length_bits h)) h))"

definition sha256_oneshot :: "bytes \<Rightarrow> bytes" where
  "sha256_oneshot data = sha256_finalize (sha256_update sha256_new data)"

section \<open>SHA-512\<close>

definition sha512_K :: "u64 list" where
  "sha512_K = concat
     [[0x428a2f98d728ae22, 0x7137449123ef65cd, 0xb5c0fbcfec4d3b2f, 0xe9b5dba58189dbbc],
      [0x3956c25bf348b538, 0x59f111f1b605d019, 0x923f82a4af194f9b, 0xab1c5ed5da6d8118],
      [0xd807aa98a3030242, 0x12835b0145706fbe, 0x243185be4ee4b28c, 0x550c7dc3d5ffb4e2],
      [0x72be5d74f27b896f, 0x80deb1fe3b1696b1, 0x9bdc06a725c71235, 0xc19bf174cf692694],
      [0xe49b69c19ef14ad2, 0xefbe4786384f25e3, 0x0fc19dc68b8cd5b5, 0x240ca1cc77ac9c65],
      [0x2de92c6f592b0275, 0x4a7484aa6ea6e483, 0x5cb0a9dcbd41fbd4, 0x76f988da831153b5],
      [0x983e5152ee66dfab, 0xa831c66d2db43210, 0xb00327c898fb213f, 0xbf597fc7beef0ee4],
      [0xc6e00bf33da88fc2, 0xd5a79147930aa725, 0x06ca6351e003826f, 0x142929670a0e6e70],
      [0x27b70a8546d22ffc, 0x2e1b21385c26c926, 0x4d2c6dfc5ac42aed, 0x53380d139d95b3df],
      [0x650a73548baf63de, 0x766a0abb3c77b2a8, 0x81c2c92e47edaee6, 0x92722c851482353b],
      [0xa2bfe8a14cf10364, 0xa81a664bbc423001, 0xc24b8b70d0f89791, 0xc76c51a30654be30],
      [0xd192e819d6ef5218, 0xd69906245565a910, 0xf40e35855771202a, 0x106aa07032bbd1b8],
      [0x19a4c116b8d2d0c8, 0x1e376c085141ab53, 0x2748774cdf8eeb99, 0x34b0bcb5e19b48a8],
      [0x391c0cb3c5c95a63, 0x4ed8aa4ae3418acb, 0x5b9cca4f7763e373, 0x682e6ff3d6b2b8a3],
      [0x748f82ee5defb2fc, 0x78a5636f43172f60, 0x84c87814a1f0ab72, 0x8cc702081a6439ec],
      [0x90befffa23631e28, 0xa4506cebde82bde9, 0xbef9a3f7b2c67915, 0xc67178f2e372532b],
      [0xca273eceea26619c, 0xd186b8c721c0c207, 0xeada7dd6cde0eb1e, 0xf57d4f7fee6ed178],
      [0x06f067aa72176fba, 0x0a637dc5a2c898a6, 0x113f9804bef90dae, 0x1b710b35131c471b],
      [0x28db77f523047d84, 0x32caab7b40c72493, 0x3c9ebe0a15c9bebc, 0x431d67c49c100d4c],
      [0x4cc5d4becb3e42b6, 0x597f299cfc657e2a, 0x5fcb6fab3ad6faec, 0x6c44198c4a475817]]"

definition sha512_H0 :: "u64 list" where
  "sha512_H0 =
     [0x6a09e667f3bcc908, 0xbb67ae8584caa73b, 0x3c6ef372fe94f82b, 0xa54ff53a5f1d36f1,
      0x510e527fade682d1, 0x9b05688c2b3e6c1f, 0x1f83d9abfb41bd6b, 0x5be0cd19137e2179]"

definition sha512_schedule :: "nat \<Rightarrow> u64 list \<Rightarrow> u64 list" where
  "sha512_schedule i w =
     (let s0 = word_rotr 1 (w ! (i - 15)) XOR word_rotr 8 (w ! (i - 15)) XOR drop_bit 7 (w ! (i - 15));
          s1 = word_rotr 19 (w ! (i - 2)) XOR word_rotr 61 (w ! (i - 2)) XOR drop_bit 6 (w ! (i - 2))
      in w[i := w ! (i - 16) + s0 + w ! (i - 7) + s1])"

type_synonym sha512_vars = "u64 \<times> u64 \<times> u64 \<times> u64 \<times> u64 \<times> u64 \<times> u64 \<times> u64"

fun sha512_round :: "u64 list \<Rightarrow> nat \<Rightarrow> sha512_vars \<Rightarrow> sha512_vars" where
  "sha512_round w i (a, b, c, d, e, f, g, h) =
     (let s1 = word_rotr 14 e XOR word_rotr 18 e XOR word_rotr 41 e;
          ch = (e AND f) XOR (NOT e AND g);
          t1 = h + s1 + ch + sha512_K ! i + w ! i;
          s0 = word_rotr 28 a XOR word_rotr 34 a XOR word_rotr 39 a;
          mj = (a AND b) XOR (a AND c) XOR (b AND c);
          t2 = s0 + mj
      in (t1 + t2, a, b, c, d + t1, e, f, g))"

definition sha512_compress :: "u64 list \<Rightarrow> bytes \<Rightarrow> u64 list" where
  "sha512_compress s block =
     (let w = map (\<lambda>i. from_be (take 8 (drop (i * 8) block))) [0..<16] @ replicate 64 0;
          w = fold sha512_schedule [16..<80] w;
          (a, b, c, d, e, f, g, h) =
            fold (sha512_round w) [0..<80] (s ! 0, s ! 1, s ! 2, s ! 3, s ! 4, s ! 5, s ! 6, s ! 7)
      in [s ! 0 + a, s ! 1 + b, s ! 2 + c, s ! 3 + d, s ! 4 + e, s ! 5 + f, s ! 6 + g, s ! 7 + h])"

record sha512 = "u64 list hasher" +
  msg_len_low :: u64
  msg_len_high :: u64

definition sha512_new :: sha512 where
  "sha512_new = \<lparr>hs_state = sha512_H0, hs_buf = replicate 128 0, hs_len = 0, msg_len_low = 0, msg_len_high = 0\<rparr>"

definition sha512_count :: "sha512 \<Rightarrow> nat \<Rightarrow> sha512" where
  "sha512_count h n =
     (let bits = of_nat n * 8 :: u128;
          new_low = msg_len_low h + ucast bits;
          h = (if new_low < msg_len_low h then h\<lparr>msg_len_high := msg_len_high h + 1\<rparr> else h);
          h = h\<lparr>msg_len_low := new_low\<rparr>
      in h\<lparr>msg_len_high := msg_len_high h + ucast (drop_bit 64 bits)\<rparr>)"

definition sha512_update :: "sha512 \<Rightarrow> bytes \<Rightarrow> sha512" where
  "sha512_update h data = absorb sha512_compress 128 (sha512_count h (length data)) data"

definition sha512_finalize :: "sha512 \<Rightarrow> bytes" where
  "sha512_finalize h =
     (let high_be = be_bytes 8 (msg_len_high h);
          low_be = be_bytes 8 (msg_len_low h);
          h = sha512_update h (pad_bytes 128 16 (hs_len h));
          h = sha512_update h high_be;
          h = sha512_update h low_be
      in concat (map (be_bytes 8) (hs_state h)))"

definition sha512_oneshot :: "bytes \<Rightarrow> bytes" where
  "sha512_oneshot data = sha512_finalize (sha512_update sha512_new data)"

section \<open>SHA-384\<close>

definition sha384_H0 :: "u64 list" where
  "sha384_H0 =
     [0xcbbb9d5dc1059ed8, 0x629a292a367cd507, 0x9159015a3070dd17, 0x152fecd8f70e5939,
      0x67332667ffc00b31, 0x8eb44a8768581511, 0xdb0c2e0d64f98fa7, 0x47b5481dbefa4fa4]"

record sha384 = "u64 list hasher" +
  length_bits384 :: u128

definition sha384_new :: sha384 where
  "sha384_new = \<lparr>hs_state = sha384_H0, hs_buf = replicate 128 0, hs_len = 0, length_bits384 = 0\<rparr>"

definition sha384_compress :: "u64 list \<Rightarrow> bytes \<Rightarrow> u64 list" where
  "sha384_compress = sha512_compress"

definition sha384_update :: "sha384 \<Rightarrow> bytes \<Rightarrow> sha384" where
  "sha384_update h data =
     absorb sha384_compress 128 (h\<lparr>length_bits384 := length_bits384 h + of_nat (length data) * 8\<rparr>) data"

definition sha384_finalize :: "sha384 \<Rightarrow> bytes" where
  "sha384_finalize h =
     (let state = pad_in_buffer sha384_compress 128 (be_bytes 16 (length_bits384 h)) h
      in concat (map (\<lambda>i. be_bytes 8 (state ! i)) [0..<6]))"

definition sha384_oneshot :: "bytes \<Rightarrow> bytes" where
  "sha384_oneshot data = sha384_finalize (sha384_update sha384_new data)"

section \<open>Streaming\<close>

interpretation s256: block_stream sha256_compress 64
  by unfold_locales simp

interpretation s384: block_stream sha384_compress 128
  by unfold_locales simp

interpretation s512: block_stream sha512_compress 128
  by unfold_locales simp

text \<open>The standard: the initial state folded over the padded message.\<close>

definition sha256_spec :: "bytes \<Rightarrow> bytes" where
  "sha256_spec msg =
     concat (map (be_bytes 4) (fold_blocks sha256_compress 64 sha256_H0 (md_pad 64 msg (be_bytes 8 (of_nat (8 * length msg) :: u64)))))"

definition sha384_spec :: "bytes \<Rightarrow> bytes" where
  "sha384_spec msg =
     concat (map (be_bytes 8) (take 6 (fold_blocks sha384_compress 128 sha384_H0
       (md_pad 128 msg (be_bytes 16 (of_nat (8 * length msg) :: u128))))))"

definition sha512_spec :: "bytes \<Rightarrow> bytes" where
  "sha512_spec msg =
     concat (map (be_bytes 8) (fold_blocks sha512_compress 128 sha512_H0
       (md_pad 128 msg (be_bytes 16 (of_nat (8 * length msg) :: u128)))))"

lemma sha256_update_length: "length_bits (sha256_update h data) = length_bits h + of_nat (8 * length data)"
proof -
  obtain s b n where "sha256_update h data = (h\<lparr>length_bits := length_bits h + of_nat (length data) * 8\<rparr>)\<lparr>hs_state := s, hs_buf := b, hs_len := n\<rparr>"
    unfolding sha256_update_def using absorb_fields by metis
  then show ?thesis by (simp add: mult.commute)
qed

lemma sha384_update_length: "length_bits384 (sha384_update h data) = length_bits384 h + of_nat (8 * length data)"
proof -
  obtain s b n where "sha384_update h data = (h\<lparr>length_bits384 := length_bits384 h + of_nat (length data) * 8\<rparr>)\<lparr>hs_state := s, hs_buf := b, hs_len := n\<rparr>"
    unfolding sha384_update_def using absorb_fields by metis
  then show ?thesis by (simp add: mult.commute)
qed

lemma hash_rep_cong:
  "hs_state h = hs_state h' \<Longrightarrow> hs_buf h = hs_buf h' \<Longrightarrow> hs_len h = hs_len h' \<Longrightarrow>
   hash_rep compress B s0 msg h \<longleftrightarrow> hash_rep compress B s0 msg h'"
  by (simp add: hash_rep_def)

lemma sha256_rep:
  "hash_rep sha256_compress 64 sha256_H0 msg h \<Longrightarrow> length_bits h = of_nat (8 * length msg) \<Longrightarrow>
   hash_rep sha256_compress 64 sha256_H0 (msg @ concat chunks) (foldl sha256_update h chunks) \<and>
   length_bits (foldl sha256_update h chunks) = of_nat (8 * length (msg @ concat chunks))"
proof (induction chunks arbitrary: msg h)
  case (Cons d chunks)
  have "hash_rep sha256_compress 64 sha256_H0 (msg @ d) (sha256_update h d)"
    unfolding sha256_update_def by (rule s256.rep_absorb) (use Cons.prems(1) in \<open>simp add: hash_rep_def\<close>)
  moreover have "length_bits (sha256_update h d) = of_nat (8 * length (msg @ d))"
    by (simp add: sha256_update_length Cons.prems(2) distrib_left)
  ultimately show ?case using Cons.IH [of "msg @ d"] by simp
qed simp

lemma sha256_stream: "sha256_finalize (foldl sha256_update sha256_new chunks) = sha256_spec (concat chunks)"
proof -
  have "hash_rep sha256_compress 64 sha256_H0 [] sha256_new" "length_bits sha256_new = of_nat (8 * length [])"
    using s256.rep_new [of sha256_new] by (simp_all add: sha256_new_def)
  note rep = sha256_rep [OF this, of chunks]
  show ?thesis
    using s256.pad_in_buffer_val [OF conjunct1 [OF rep]] conjunct2 [OF rep] by (simp add: sha256_finalize_def sha256_spec_def)
qed

lemma sha384_rep:
  "hash_rep sha384_compress 128 sha384_H0 msg h \<Longrightarrow> length_bits384 h = of_nat (8 * length msg) \<Longrightarrow>
   hash_rep sha384_compress 128 sha384_H0 (msg @ concat chunks) (foldl sha384_update h chunks) \<and>
   length_bits384 (foldl sha384_update h chunks) = of_nat (8 * length (msg @ concat chunks))"
proof (induction chunks arbitrary: msg h)
  case (Cons d chunks)
  have "hash_rep sha384_compress 128 sha384_H0 (msg @ d) (sha384_update h d)"
    unfolding sha384_update_def by (rule s384.rep_absorb) (use Cons.prems(1) in \<open>simp add: hash_rep_def\<close>)
  moreover have "length_bits384 (sha384_update h d) = of_nat (8 * length (msg @ d))"
    by (simp add: sha384_update_length Cons.prems(2) distrib_left)
  ultimately show ?case using Cons.IH [of "msg @ d"] by simp
qed simp

lemma length_sha512_compress [simp]: "length (sha512_compress s block) = 8"
  by (simp add: sha512_compress_def Let_def split: prod.splits)

lemma length_sha256_compress [simp]: "length (sha256_compress s block) = 8"
  by (simp add: sha256_compress_def Let_def split: prod.splits)

lemma length_fold_blocks: "(\<And>s b. length (compress s b) = n) \<Longrightarrow> length s = n \<Longrightarrow> length (fold_blocks compress B s msg) = n"
proof (induction compress B s msg rule: fold_blocks.induct)
  case (1 compress B s msg)
  then show ?case by (subst fold_blocks.simps) auto
qed

lemma take_6_nth: "length xs = 8 \<Longrightarrow> map (\<lambda>i. f (xs ! i)) [0..<6] = map f (take 6 xs)"
  by (intro nth_equalityI) auto

lemma sha384_stream: "sha384_finalize (foldl sha384_update sha384_new chunks) = sha384_spec (concat chunks)"
proof -
  have "hash_rep sha384_compress 128 sha384_H0 [] sha384_new" "length_bits384 sha384_new = of_nat (8 * length [])"
    using s384.rep_new [of sha384_new] by (simp_all add: sha384_new_def)
  note rep = sha384_rep [OF this, of chunks]
  have "length (fold_blocks sha384_compress 128 sha384_H0 m) = 8" for m
    by (rule length_fold_blocks) (simp_all add: sha384_compress_def sha384_H0_def)
  then show ?thesis
    using s384.pad_in_buffer_val [OF conjunct1 [OF rep]] conjunct2 [OF rep]
    by (simp add: sha384_finalize_def sha384_spec_def take_6_nth)
qed

text \<open>SHA-512 counts in two words; together they are one 128-bit counter.\<close>

definition len128 :: "sha512 \<Rightarrow> u128" where
  "len128 h = push_bit 64 (ucast (msg_len_high h)) OR ucast (msg_len_low h)"

lemma unat_len128: "unat (len128 h) = 2 ^ 64 * unat (msg_len_high h) + unat (msg_len_low h)"
proof -
  have "push_bit 64 (ucast (msg_len_high h) :: u128) AND ucast (msg_len_low h) = 0"
    by (rule bit_word_eqI) (auto simp: bit_simps dest: bit_imp_le_length)
  then have "unat (len128 h) = unat (push_bit 64 (ucast (msg_len_high h) :: u128)) + unat (msg_len_low h)"
    by (simp add: len128_def unat_or_disjoint unat_ucast_128)
  moreover have "unat (push_bit 64 (ucast (msg_len_high h) :: u128)) = 2 ^ 64 * unat (msg_len_high h)"
    using unsigned_less [of "msg_len_high h", where ?'a = nat]
    by (subst unsigned_push_bit_eq) (simp add: push_bit_eq_mult take_bit_nat_eq_self unat_ucast_128)
  ultimately show ?thesis by simp
qed

lemma sha512_count_len: "len128 (sha512_count h n) = len128 h + of_nat (8 * n)"
proof (rule word_unat_eq_iff [THEN iffD2])
  define N where "N = unat (of_nat n * 8 :: u128)"
  define H L where "H = unat (msg_len_high h)" and "L = unat (msg_len_low h)"
  define A where "A = L + N mod 2 ^ 64"
  have L: "L < 2 ^ 64" using unsigned_less [of "msg_len_low h", where ?'a = nat] by (simp add: L_def)
  have ulow: "unat (ucast (of_nat n * 8 :: u128) :: u64) = N mod 2 ^ 64"
    by (simp only: N_def unat_ucast_64)
  have uhigh: "unat (ucast (drop_bit 64 (of_nat n * 8 :: u128)) :: u64) = N div 2 ^ 64 mod 2 ^ 64"
    by (simp only: N_def unat_ucast_64 unat_drop)
  have low: "unat (msg_len_low (sha512_count h n)) = A mod 2 ^ 64"
    unfolding A_def L_def ulow [symmetric] by (simp add: sha512_count_def Let_def unat_word_ariths)
  have A: "A div 2 ^ 64 = (if msg_len_low h + ucast (of_nat n * 8 :: u128) < msg_len_low h then 1 else 0)"
  proof -
    have lt: "N mod 2 ^ 64 < 2 ^ 64" by simp
    have "unat (msg_len_low h + ucast (of_nat n * 8 :: u128)) = A mod 2 ^ 64"
      unfolding A_def L_def ulow [symmetric] by (simp add: unat_word_ariths)
    moreover have "A mod 2 ^ 64 < L \<longleftrightarrow> 2 ^ 64 \<le> A"
    proof (cases "2 ^ 64 \<le> A")
      case True
      then have "A mod 2 ^ 64 = A - 2 ^ 64" using L lt by (simp add: A_def le_mod_geq)
      then show ?thesis using True L lt by (simp add: A_def)
    qed (simp add: A_def)
    moreover have "A div 2 ^ 64 = (if 2 ^ 64 \<le> A then 1 else 0)"
      using L lt by (auto simp: A_def intro!: div_nat_eqI)
    ultimately show ?thesis by (simp add: word_less_nat_alt L_def)
  qed
  have high: "unat (msg_len_high (sha512_count h n)) = (H + A div 2 ^ 64 + N div 2 ^ 64) mod 2 ^ 64"
    unfolding A by (simp add: sha512_count_def Let_def unat_word_ariths uhigh H_def mod_simps)
  have sum: "2 ^ 64 * H + L + N = 2 ^ 64 * (H + A div 2 ^ 64 + N div 2 ^ 64) + A mod 2 ^ 64"
    using mult_div_mod_eq [of "2 ^ 64" A] mult_div_mod_eq [of "2 ^ 64" N] by (simp add: A_def distrib_left)
  have pow: "(2 :: nat) ^ 128 = 2 ^ 64 * 2 ^ 64" by simp
  have split: "(2 ^ 64 * X + A mod 2 ^ 64) mod (2 ^ 64 * 2 ^ 64) = 2 ^ 64 * (X mod 2 ^ 64) + A mod 2 ^ 64" for X :: nat
  proof -
    have "A mod 2 ^ 64 < 2 ^ 64" by simp
    then have "(2 ^ 64 * X + A mod 2 ^ 64) div 2 ^ 64 = X" "(2 ^ 64 * X + A mod 2 ^ 64) mod 2 ^ 64 = A mod 2 ^ 64" by simp_all
    then show ?thesis by (simp only: mod_mult2_eq)
  qed
  have "unat (len128 (sha512_count h n)) = (2 ^ 64 * H + L + N) mod 2 ^ 128"
    unfolding unat_len128 low high sum pow split ..
  also have "\<dots> = unat (len128 h + of_nat (8 * n))"
    using unat_len128 [of h] by (simp add: unat_word_ariths H_def L_def N_def mult.commute)
  finally show "unat (len128 (sha512_count h n)) = unat (len128 h + of_nat (8 * n))" .
qed

lemma sha512_update_fields:
  "\<exists>s b n. sha512_update h data = (sha512_count h (length data))\<lparr>hs_state := s, hs_buf := b, hs_len := n\<rparr>"
  unfolding sha512_update_def by (rule absorb_fields)

lemma sha512_update_len: "len128 (sha512_update h data) = len128 h + of_nat (8 * length data)"
proof -
  obtain s b n where "sha512_update h data = (sha512_count h (length data))\<lparr>hs_state := s, hs_buf := b, hs_len := n\<rparr>"
    using sha512_update_fields by metis
  then have "len128 (sha512_update h data) = len128 (sha512_count h (length data))" by (simp add: len128_def)
  then show ?thesis by (simp only: sha512_count_len)
qed

lemma sha512_update_rep:
  "hash_rep sha512_compress 128 s0 msg h \<Longrightarrow> hash_rep sha512_compress 128 s0 (msg @ d) (sha512_update h d)"
  unfolding sha512_update_def by (rule s512.rep_absorb) (simp add: hash_rep_def sha512_count_def Let_def)

lemma sha512_rep:
  "hash_rep sha512_compress 128 sha512_H0 msg h \<Longrightarrow> len128 h = of_nat (8 * length msg) \<Longrightarrow>
   hash_rep sha512_compress 128 sha512_H0 (msg @ concat chunks) (foldl sha512_update h chunks) \<and>
   len128 (foldl sha512_update h chunks) = of_nat (8 * length (msg @ concat chunks))"
proof (induction chunks arbitrary: msg h)
  case (Cons d chunks)
  have "len128 (sha512_update h d) = of_nat (8 * length (msg @ d))"
    by (simp add: sha512_update_len Cons.prems(2) distrib_left)
  then show ?case using Cons.IH [of "msg @ d", OF sha512_update_rep [OF Cons.prems(1)]] by simp
qed simp

lemma be_bytes_len128: "be_bytes 8 (msg_len_high h) @ be_bytes 8 (msg_len_low h) = be_bytes 16 (len128 h)"
proof -
  have "le_bytes 16 (len128 h) = le_bytes 8 (msg_len_low h) @ le_bytes 8 (msg_len_high h)"
  proof (rule nth_equalityI)
    fix i assume "i < length (le_bytes 16 (len128 h))"
    then have i: "i < 16" by simp
    show "le_bytes 16 (len128 h) ! i = (le_bytes 8 (msg_len_low h) @ le_bytes 8 (msg_len_high h)) ! i"
    proof (rule bit_word_eqI)
      fix j assume "j < LENGTH(8)"
      then show "bit (le_bytes 16 (len128 h) ! i) j = bit ((le_bytes 8 (msg_len_low h) @ le_bytes 8 (msg_len_high h)) ! i) j"
        using i by (cases "i < 8") (auto simp: bit_le_bytes nth_append len128_def bit_simps diff_mult_distrib2 dest: bit_imp_le_length)
    qed
  qed simp
  then show ?thesis by (simp add: be_bytes_def)
qed

lemma sha512_stream: "sha512_finalize (foldl sha512_update sha512_new chunks) = sha512_spec (concat chunks)"
proof -
  define h where "h = foldl sha512_update sha512_new chunks"
  define msg where "msg = concat chunks"
  have "hash_rep sha512_compress 128 sha512_H0 [] sha512_new" "len128 sha512_new = of_nat (8 * length [])"
    using s512.rep_new [of sha512_new] by (simp_all add: sha512_new_def len128_def)
  from sha512_rep [OF this, of chunks]
  have rep: "hash_rep sha512_compress 128 sha512_H0 msg h" and len: "len128 h = of_nat (8 * length msg)"
    by (simp_all add: h_def msg_def)
  define h' where "h' = sha512_update (sha512_update (sha512_update h (pad_bytes 128 16 (hs_len h))) (be_bytes 8 (msg_len_high h))) (be_bytes 8 (msg_len_low h))"
  have "hash_rep sha512_compress 128 sha512_H0 ((msg @ pad_bytes 128 16 (hs_len h)) @ be_bytes 16 (len128 h)) h'"
    using sha512_update_rep [OF sha512_update_rep [OF sha512_update_rep [OF rep]]]
    by (simp add: h'_def be_bytes_len128 [symmetric])
  then have "hash_rep sha512_compress 128 sha512_H0 (md_pad 128 msg (be_bytes 16 (len128 h))) h'"
    using s512.md_pad_eq [of "be_bytes 16 (len128 h)" msg] s512.rep_len [OF rep] by simp
  then have "hs_state h' = fold_blocks sha512_compress 128 sha512_H0 (md_pad 128 msg (be_bytes 16 (len128 h)))"
    by (simp add: hash_rep_def)
  then show ?thesis
    unfolding h_def [symmetric] msg_def [symmetric] sha512_spec_def len [symmetric] by (simp add: sha512_finalize_def Let_def h'_def)
qed

text \<open>C14: However a message is cut into \<open>update\<close> calls, SHA-256, SHA-384 and SHA-512 return the standard's function of
  the whole message: the initial state folded by the compression function over the message followed by the bit 1, the
  fewest zeros that fill the last block, and the length in bits as a 64-bit (SHA-256) or 128-bit big-endian number.
  The partial block, a pad that spills into a second block, and the carry between the two length words of SHA-512
  are all accounted for.
\<close>

theorem sha2_streaming_exact:
  "sha256_finalize (foldl sha256_update sha256_new chunks) = sha256_spec (concat chunks) \<and>
   sha384_finalize (foldl sha384_update sha384_new chunks) = sha384_spec (concat chunks) \<and>
   sha512_finalize (foldl sha512_update sha512_new chunks) = sha512_spec (concat chunks)"
  by (simp only: sha256_stream sha384_stream sha512_stream simp_thms)

end
