(* ===== verification/Md_Hash.thy ===== *)
theory Md_Hash
  imports Sha2
begin

text \<open>
  The older hashes: MD5 (\<^verbatim>\<open>crates/cv_crypto/src/md5.rs\<close>), SHA-1 (\<^verbatim>\<open>sha1.rs\<close>) and RIPEMD-160
  (\<^verbatim>\<open>ripemd160.rs\<close>). The three structs have the same fields, the same \<open>update\<close> and the same padding;
  they differ in the compression function and in the byte order of the length and of the digest.
\<close>

section \<open>The common hasher\<close>

record md_hasher = "u32 list hasher" +
  msg_len_bits :: u64

definition md_new :: "u32 list \<Rightarrow> md_hasher" where
  "md_new s0 = \<lparr>hs_state = s0, hs_buf = replicate 64 0, hs_len = 0, msg_len_bits = 0\<rparr>"

definition md_update :: "(u32 list \<Rightarrow> bytes \<Rightarrow> u32 list) \<Rightarrow> md_hasher \<Rightarrow> bytes \<Rightarrow> md_hasher" where
  "md_update compress h data =
     absorb compress 64 (h\<lparr>msg_len_bits := msg_len_bits h + of_nat (length data) * 8\<rparr>) data"

definition md_finish :: "(u32 list \<Rightarrow> bytes \<Rightarrow> u32 list) \<Rightarrow> md_hasher \<Rightarrow> bytes \<Rightarrow> md_hasher" where
  "md_finish compress h len_bytes =
     (let h = md_update compress h (pad_bytes 64 8 (hs_len h))
      in md_update compress h len_bytes)"

section \<open>SHA-1\<close>

definition sha1_H0 :: "u32 list" where
  "sha1_H0 = [0x67452301, 0xefcdab89, 0x98badcfe, 0x10325476, 0xc3d2e1f0]"

definition sha1_schedule :: "nat \<Rightarrow> u32 list \<Rightarrow> u32 list" where
  "sha1_schedule i w = w[i := word_rotl 1 (w ! (i - 3) XOR w ! (i - 8) XOR w ! (i - 14) XOR w ! (i - 16))]"

type_synonym vars5 = "u32 \<times> u32 \<times> u32 \<times> u32 \<times> u32"

fun sha1_round :: "u32 list \<Rightarrow> nat \<Rightarrow> vars5 \<Rightarrow> vars5" where
  "sha1_round w i (a, b, c, d, e) =
     (let (f, k) =
            (if i \<le> 19 then ((b AND c) OR (NOT b AND d), 0x5a827999)
             else if i \<le> 39 then (b XOR c XOR d, 0x6ed9eba1)
             else if i \<le> 59 then ((b AND c) OR (b AND d) OR (c AND d), 0x8f1bbcdc)
             else (b XOR c XOR d, 0xca62c1d6));
          temp = word_rotl 5 a + f + e + k + w ! i
      in (temp, a, word_rotl 30 b, c, d))"

definition sha1_compress :: "u32 list \<Rightarrow> bytes \<Rightarrow> u32 list" where
  "sha1_compress s block =
     (let w = map (\<lambda>i. from_be (take 4 (drop (i * 4) block))) [0..<16] @ replicate 64 0;
          w = fold sha1_schedule [16..<80] w;
          (a, b, c, d, e) = fold (sha1_round w) [0..<80] (s ! 0, s ! 1, s ! 2, s ! 3, s ! 4)
      in [s ! 0 + a, s ! 1 + b, s ! 2 + c, s ! 3 + d, s ! 4 + e])"

definition sha1_new :: md_hasher where
  "sha1_new = md_new sha1_H0"

definition sha1_update :: "md_hasher \<Rightarrow> bytes \<Rightarrow> md_hasher" where
  "sha1_update = md_update sha1_compress"

definition sha1_finalize :: "md_hasher \<Rightarrow> bytes" where
  "sha1_finalize h =
     concat (map (be_bytes 4) (hs_state (md_finish sha1_compress h (be_bytes 8 (msg_len_bits h)))))"

definition sha1_oneshot :: "bytes \<Rightarrow> bytes" where
  "sha1_oneshot data = sha1_finalize (sha1_update sha1_new data)"

section \<open>MD5\<close>

definition md5_S :: "nat list" where
  "md5_S =
     [7, 12, 17, 22, 7, 12, 17, 22, 7, 12, 17, 22, 7, 12, 17, 22,
      5, 9, 14, 20, 5, 9, 14, 20, 5, 9, 14, 20, 5, 9, 14, 20,
      4, 11, 16, 23, 4, 11, 16, 23, 4, 11, 16, 23, 4, 11, 16, 23,
      6, 10, 15, 21, 6, 10, 15, 21, 6, 10, 15, 21, 6, 10, 15, 21]"

definition md5_K :: "u32 list" where
  "md5_K =
     [0xd76aa478, 0xe8c7b756, 0x242070db, 0xc1bdceee, 0xf57c0faf, 0x4787c62a, 0xa8304613, 0xfd469501,
      0x698098d8, 0x8b44f7af, 0xffff5bb1, 0x895cd7be, 0x6b901122, 0xfd987193, 0xa679438e, 0x49b40821,
      0xf61e2562, 0xc040b340, 0x265e5a51, 0xe9b6c7aa, 0xd62f105d, 0x02441453, 0xd8a1e681, 0xe7d3fbc8,
      0x21e1cde6, 0xc33707d6, 0xf4d50d87, 0x455a14ed, 0xa9e3e905, 0xfcefa3f8, 0x676f02d9, 0x8d2a4c8a,
      0xfffa3942, 0x8771f681, 0x6d9d6122, 0xfde5380c, 0xa4beea44, 0x4bdecfa9, 0xf6bb4b60, 0xbebfbc70,
      0x289b7ec6, 0xeaa127fa, 0xd4ef3085, 0x04881d05, 0xd9d4d039, 0xe6db99e5, 0x1fa27cf8, 0xc4ac5665,
      0xf4292244, 0x432aff97, 0xab9423a7, 0xfc93a039, 0x655b59c3, 0x8f0ccc92, 0xffeff47d, 0x85845dd1,
      0x6fa87e4f, 0xfe2ce6e0, 0xa3014314, 0x4e0811a1, 0xf7537e82, 0xbd3af235, 0x2ad7d2bb, 0xeb86d391]"

definition md5_H0 :: "u32 list" where
  "md5_H0 = [0x67452301, 0xefcdab89, 0x98badcfe, 0x10325476]"

fun md5_round :: "u32 list \<Rightarrow> nat \<Rightarrow> u32 \<times> u32 \<times> u32 \<times> u32 \<Rightarrow> u32 \<times> u32 \<times> u32 \<times> u32" where
  "md5_round m i (a, b, c, d) =
     (let (f, g) =
            (if i \<le> 15 then ((b AND c) OR (NOT b AND d), i)
             else if i \<le> 31 then ((d AND b) OR (NOT d AND c), (5 * i + 1) mod 16)
             else if i \<le> 47 then (b XOR c XOR d, (3 * i + 5) mod 16)
             else (c XOR (b OR NOT d), 7 * i mod 16))
      in (d, b + word_rotl (md5_S ! i) (a + f + md5_K ! i + m ! g), b, c))"

definition md5_compress :: "u32 list \<Rightarrow> bytes \<Rightarrow> u32 list" where
  "md5_compress s block =
     (let m = map (\<lambda>i. from_le (take 4 (drop (i * 4) block))) [0..<16];
          (a, b, c, d) = fold (md5_round m) [0..<64] (s ! 0, s ! 1, s ! 2, s ! 3)
      in [s ! 0 + a, s ! 1 + b, s ! 2 + c, s ! 3 + d])"

definition md5_new :: md_hasher where
  "md5_new = md_new md5_H0"

definition md5_update :: "md_hasher \<Rightarrow> bytes \<Rightarrow> md_hasher" where
  "md5_update = md_update md5_compress"

definition md5_finalize :: "md_hasher \<Rightarrow> bytes" where
  "md5_finalize h =
     concat (map (le_bytes 4) (hs_state (md_finish md5_compress h (le_bytes 8 (msg_len_bits h)))))"

definition md5_oneshot :: "bytes \<Rightarrow> bytes" where
  "md5_oneshot data = md5_finalize (md5_update md5_new data)"

section \<open>RIPEMD-160\<close>

definition rmd_R_L :: "nat list" where
  "rmd_R_L =
     [0, 1, 2, 3, 4, 5, 6, 7, 8, 9, 10, 11, 12, 13, 14, 15,
      7, 4, 13, 1, 10, 6, 15, 3, 12, 0, 9, 5, 2, 14, 11, 8,
      3, 10, 14, 4, 9, 15, 8, 1, 2, 7, 0, 6, 13, 11, 5, 12,
      1, 9, 11, 10, 0, 8, 12, 4, 13, 3, 7, 15, 14, 5, 6, 2,
      4, 0, 5, 9, 7, 12, 2, 10, 14, 1, 3, 8, 11, 6, 15, 13]"

definition rmd_R_R :: "nat list" where
  "rmd_R_R =
     [5, 14, 7, 0, 9, 2, 11, 4, 13, 6, 15, 8, 1, 10, 3, 12,
      6, 11, 3, 7, 0, 13, 5, 10, 14, 15, 8, 12, 4, 9, 1, 2,
      15, 5, 1, 3, 7, 14, 6, 9, 11, 8, 12, 2, 10, 0, 4, 13,
      8, 6, 4, 1, 3, 11, 15, 0, 5, 12, 2, 13, 9, 7, 10, 14,
      12, 15, 10, 4, 1, 5, 8, 7, 6, 2, 13, 14, 0, 3, 9, 11]"

definition rmd_S_L :: "nat list" where
  "rmd_S_L =
     [11, 14, 15, 12, 5, 8, 7, 9, 11, 13, 14, 15, 6, 7, 9, 8,
      7, 6, 8, 13, 11, 9, 7, 15, 7, 12, 15, 9, 11, 7, 13, 12,
      11, 13, 6, 7, 14, 9, 13, 15, 14, 8, 13, 6, 5, 12, 7, 5,
      11, 12, 14, 15, 14, 15, 9, 8, 9, 14, 5, 6, 8, 6, 5, 12,
      9, 15, 5, 11, 6, 8, 13, 12, 5, 12, 13, 14, 11, 8, 5, 6]"

definition rmd_S_R :: "nat list" where
  "rmd_S_R =
     [8, 9, 9, 11, 13, 15, 15, 5, 7, 7, 8, 11, 14, 14, 12, 6,
      9, 13, 15, 7, 12, 8, 9, 11, 7, 7, 12, 7, 6, 15, 13, 11,
      9, 7, 15, 11, 8, 6, 6, 14, 12, 13, 5, 14, 13, 13, 7, 5,
      15, 5, 8, 11, 14, 14, 6, 14, 6, 9, 12, 9, 12, 5, 15, 8,
      8, 5, 12, 9, 12, 5, 14, 6, 8, 13, 6, 5, 15, 13, 11, 11]"

definition rmd_K_L :: "u32 list" where
  "rmd_K_L =
     [0x00000000, 0x5a827999, 0x6ed9eba1, 0x8f1bbcdc, 0xa953fd4e]"

definition rmd_K_R :: "u32 list" where
  "rmd_K_R =
     [0x50a28be6, 0x5c4dd124, 0x6d703ef3, 0x7a6d76e9, 0x00000000]"

definition rmd_f :: "nat \<Rightarrow> u32 \<Rightarrow> u32 \<Rightarrow> u32 \<Rightarrow> u32" where
  "rmd_f j x y z =
     (if j \<le> 15 then x XOR y XOR z
      else if j \<le> 31 then (x AND y) OR (NOT x AND z)
      else if j \<le> 47 then (x OR NOT y) XOR z
      else if j \<le> 63 then (x AND z) OR (y AND NOT z)
      else x XOR (y OR NOT z))"

fun rmd_round :: "u32 list \<Rightarrow> nat \<Rightarrow> vars5 \<times> vars5 \<Rightarrow> vars5 \<times> vars5" where
  "rmd_round x j ((al, bl, cl, dl, el), (ar, br, cr, dr, er)) =
     (let group = j div 16;
          tl = word_rotl (rmd_S_L ! j) (al + rmd_f j bl cl dl + x ! (rmd_R_L ! j) + rmd_K_L ! group) + el;
          group_r = 4 - group;
          tr = word_rotl (rmd_S_R ! j)
                 (ar + rmd_f (group_r * 16 + j mod 16) br cr dr + x ! (rmd_R_R ! j) + rmd_K_R ! group) + er
      in ((el, tl, bl, word_rotl 10 cl, dl), (er, tr, br, word_rotl 10 cr, dr)))"

definition rmd_compress :: "u32 list \<Rightarrow> bytes \<Rightarrow> u32 list" where
  "rmd_compress s block =
     (let x = map (\<lambda>i. from_le (take 4 (drop (i * 4) block))) [0..<16];
          v = (s ! 0, s ! 1, s ! 2, s ! 3, s ! 4);
          ((al, bl, cl, dl, el), (ar, br, cr, dr, er)) = fold (rmd_round x) [0..<80] (v, v)
      in [s ! 1 + cl + dr, s ! 2 + dl + er, s ! 3 + el + ar, s ! 4 + al + br, s ! 0 + bl + cr])"

definition rmd_new :: md_hasher where
  "rmd_new = md_new sha1_H0"

definition rmd_update :: "md_hasher \<Rightarrow> bytes \<Rightarrow> md_hasher" where
  "rmd_update = md_update rmd_compress"

definition rmd_finalize :: "md_hasher \<Rightarrow> bytes" where
  "rmd_finalize h =
     concat (map (le_bytes 4) (hs_state (md_finish rmd_compress h (le_bytes 8 (msg_len_bits h)))))"

definition rmd_oneshot :: "bytes \<Rightarrow> bytes" where
  "rmd_oneshot data = rmd_finalize (rmd_update rmd_new data)"

section \<open>Streaming\<close>

lemma block_64: "block_stream 64"
  by unfold_locales simp

text \<open>The standards: the initial state folded over the padded message, for the given length field.\<close>

definition md_spec :: "(u32 list \<Rightarrow> bytes \<Rightarrow> u32 list) \<Rightarrow> u32 list \<Rightarrow> (u64 \<Rightarrow> bytes) \<Rightarrow> bytes \<Rightarrow> u32 list" where
  "md_spec compress s0 len_bytes msg =
     fold_blocks compress 64 s0 (md_pad 64 msg (len_bytes (of_nat (8 * length msg))))"

lemma md_update_rep:
  "hash_rep compress 64 s0 msg h \<Longrightarrow> hash_rep compress 64 s0 (msg @ d) (md_update compress h d)"
  unfolding md_update_def by (rule block_stream.rep_absorb [OF block_64]) (simp add: hash_rep_def)

lemma md_update_length: "msg_len_bits (md_update compress h data) = msg_len_bits h + of_nat (8 * length data)"
proof -
  obtain s b n where "md_update compress h data = (h\<lparr>msg_len_bits := msg_len_bits h + of_nat (length data) * 8\<rparr>)\<lparr>hs_state := s, hs_buf := b, hs_len := n\<rparr>"
    unfolding md_update_def using absorb_fields by metis
  then show ?thesis by (simp add: mult.commute)
qed

lemma md_rep:
  "hash_rep compress 64 s0 msg h \<Longrightarrow> msg_len_bits h = of_nat (8 * length msg) \<Longrightarrow>
   hash_rep compress 64 s0 (msg @ concat chunks) (foldl (md_update compress) h chunks) \<and>
   msg_len_bits (foldl (md_update compress) h chunks) = of_nat (8 * length (msg @ concat chunks))"
proof (induction chunks arbitrary: msg h)
  case (Cons d chunks)
  have "msg_len_bits (md_update compress h d) = of_nat (8 * length (msg @ d))"
    by (simp add: md_update_length Cons.prems(2) distrib_left)
  then show ?case using Cons.IH [of "msg @ d", OF md_update_rep [OF Cons.prems(1)]] by simp
qed simp

lemma md_stream:
  fixes chunks :: "bytes list" and s0 :: "u32 list" and compress :: "u32 list \<Rightarrow> bytes \<Rightarrow> u32 list"
  assumes len: "\<And>w. length (len_bytes w) = 8"
  defines "h \<equiv> foldl (md_update compress) (md_new s0) chunks"
  shows "hs_state (md_finish compress h (len_bytes (msg_len_bits h))) = md_spec compress s0 len_bytes (concat chunks)"
    and "hs_len (md_finish compress h (len_bytes (msg_len_bits h))) = 0"
proof -
  have "hash_rep compress 64 s0 [] (md_new s0)" "msg_len_bits (md_new s0) = of_nat (8 * length [])"
    using block_stream.rep_new [OF block_64, of "md_new s0"] by (simp_all add: md_new_def)
  from md_rep [OF this, of chunks]
  have rep: "hash_rep compress 64 s0 (concat chunks) h" and n: "msg_len_bits h = of_nat (8 * length (concat chunks))"
    by (simp_all add: h_def)
  define pad where "pad = md_pad 64 (concat chunks) (len_bytes (msg_len_bits h))"
  have fin: "hash_rep compress 64 s0 pad (md_finish compress h (len_bytes (msg_len_bits h)))"
    using md_update_rep [OF md_update_rep [OF rep, of "pad_bytes 64 8 (hs_len h)"], of "len_bytes (msg_len_bits h)"]
      block_stream.md_pad_eq [OF block_64, of "len_bytes (msg_len_bits h)" "concat chunks"] block_stream.rep_len [OF block_64 rep]
    by (simp add: md_finish_def pad_def len)
  then show "hs_state (md_finish compress h (len_bytes (msg_len_bits h))) = md_spec compress s0 len_bytes (concat chunks)"
    by (simp add: hash_rep_def pad_def md_spec_def n)
  have "64 dvd length pad"
    unfolding pad_def by (rule block_stream.pad_by_absorb_val(2) [OF block_64 rep]) (simp add: len)
  then show "hs_len (md_finish compress h (len_bytes (msg_len_bits h))) = 0"
    using block_stream.rep_len [OF block_64 fin] by simp
qed

text \<open>However a message is cut into \<open>update\<close> calls, SHA-1, MD5 and RIPEMD-160 return the words of their
  compression function folded over the message with its padding (the length big-endian for SHA-1, little-endian for the
  other two), and the buffer is empty afterwards, so the \<open>debug_assert_eq!(self.buf_len, 0)\<close> of their
  \<open>finalize\<close> cannot fail.
\<close>

theorem md_streaming_exact:
  "sha1_finalize (foldl sha1_update sha1_new chunks) =
     concat (map (be_bytes 4) (md_spec sha1_compress sha1_H0 (be_bytes 8) (concat chunks))) \<and>
   md5_finalize (foldl md5_update md5_new chunks) =
     concat (map (le_bytes 4) (md_spec md5_compress md5_H0 (le_bytes 8) (concat chunks))) \<and>
   rmd_finalize (foldl rmd_update rmd_new chunks) =
     concat (map (le_bytes 4) (md_spec rmd_compress sha1_H0 (le_bytes 8) (concat chunks))) \<and>
   hs_len (md_finish sha1_compress (foldl sha1_update sha1_new chunks)
     (be_bytes 8 (msg_len_bits (foldl sha1_update sha1_new chunks)))) = 0 \<and>
   hs_len (md_finish md5_compress (foldl md5_update md5_new chunks)
     (le_bytes 8 (msg_len_bits (foldl md5_update md5_new chunks)))) = 0 \<and>
   hs_len (md_finish rmd_compress (foldl rmd_update rmd_new chunks)
     (le_bytes 8 (msg_len_bits (foldl rmd_update rmd_new chunks)))) = 0"
  unfolding sha1_finalize_def sha1_update_def sha1_new_def md5_finalize_def md5_update_def md5_new_def
    rmd_finalize_def rmd_update_def rmd_new_def
  by (simp add: md_stream)

end
