(* ===== verification/Hmac.thy ===== *)
theory Hmac
  imports Md_Hash
begin

text \<open>
  HMAC (\<^verbatim>\<open>crates/cv_crypto/src/hmac.rs\<close>), HKDF (\<^verbatim>\<open>hkdf.rs\<close>) and PBKDF2
  (\<^verbatim>\<open>pbkdf2.rs\<close>). The four HMAC structs of the source are one construction over four hashes: here
  \<open>hash_ops\<close> is what the construction calls of a hash, and the locale \<open>hash_function\<close> what it relies on,
  that cutting the message into updates does not matter. Each hash is an interpretation of it.
\<close>

section \<open>The construction\<close>

record 'h hash_ops =
  ho_new :: 'h
  ho_update :: "'h \<Rightarrow> bytes \<Rightarrow> 'h"
  ho_finalize :: "'h \<Rightarrow> bytes"
  ho_block :: nat
  ho_size :: nat

record 'h hmac =
  hm_inner :: 'h
  hm_outer_key :: bytes

definition hash_oneshot :: "'h hash_ops \<Rightarrow> bytes \<Rightarrow> bytes" where
  "hash_oneshot ops data = ho_finalize ops (ho_update ops (ho_new ops) data)"

definition key_block :: "'h hash_ops \<Rightarrow> bytes \<Rightarrow> bytes" where
  "key_block ops key =
     (let block = replicate (ho_block ops) 0
      in if ho_block ops < length key then hash_oneshot ops key @ drop (ho_size ops) block
         else key @ drop (length key) block)"

definition hmac_new :: "'h hash_ops \<Rightarrow> bytes \<Rightarrow> 'h hmac" where
  "hmac_new ops key =
     (let block = key_block ops key;
          ipad = map (\<lambda>i. block ! i XOR 0x36) [0..<ho_block ops];
          opad = map (\<lambda>i. block ! i XOR 0x5c) [0..<ho_block ops]
      in \<lparr>hm_inner = ho_update ops (ho_new ops) ipad, hm_outer_key = opad\<rparr>)"

definition hmac_update :: "'h hash_ops \<Rightarrow> 'h hmac \<Rightarrow> bytes \<Rightarrow> 'h hmac" where
  "hmac_update ops h data = h\<lparr>hm_inner := ho_update ops (hm_inner h) data\<rparr>"

definition hmac_finalize :: "'h hash_ops \<Rightarrow> 'h hmac \<Rightarrow> bytes" where
  "hmac_finalize ops h =
     (let inner = ho_finalize ops (hm_inner h);
          outer = ho_update ops (ho_new ops) (hm_outer_key h);
          outer = ho_update ops outer inner
      in ho_finalize ops outer)"

definition hmac_oneshot :: "'h hash_ops \<Rightarrow> bytes \<Rightarrow> bytes \<Rightarrow> bytes" where
  "hmac_oneshot ops key data = hmac_finalize ops (hmac_update ops (hmac_new ops key) data)"

section \<open>The four instances\<close>

definition sha256_ops :: "sha256 hash_ops" where
  "sha256_ops = \<lparr>ho_new = sha256_new, ho_update = sha256_update, ho_finalize = sha256_finalize, ho_block = 64, ho_size = 32\<rparr>"

definition hmac_sha256_new :: "bytes \<Rightarrow> sha256 hmac" where
  "hmac_sha256_new = hmac_new sha256_ops"

definition hmac_sha256_update :: "sha256 hmac \<Rightarrow> bytes \<Rightarrow> sha256 hmac" where
  "hmac_sha256_update = hmac_update sha256_ops"

definition hmac_sha256_finalize :: "sha256 hmac \<Rightarrow> bytes" where
  "hmac_sha256_finalize = hmac_finalize sha256_ops"

definition hmac_sha256 :: "bytes \<Rightarrow> bytes \<Rightarrow> bytes" where
  "hmac_sha256 = hmac_oneshot sha256_ops"

definition sha1_ops :: "md_hasher hash_ops" where
  "sha1_ops = \<lparr>ho_new = sha1_new, ho_update = sha1_update, ho_finalize = sha1_finalize, ho_block = 64, ho_size = 20\<rparr>"

definition hmac_sha1_new :: "bytes \<Rightarrow> md_hasher hmac" where
  "hmac_sha1_new = hmac_new sha1_ops"

definition hmac_sha1_update :: "md_hasher hmac \<Rightarrow> bytes \<Rightarrow> md_hasher hmac" where
  "hmac_sha1_update = hmac_update sha1_ops"

definition hmac_sha1_finalize :: "md_hasher hmac \<Rightarrow> bytes" where
  "hmac_sha1_finalize = hmac_finalize sha1_ops"

definition hmac_sha1 :: "bytes \<Rightarrow> bytes \<Rightarrow> bytes" where
  "hmac_sha1 = hmac_oneshot sha1_ops"

definition sha512_ops :: "sha512 hash_ops" where
  "sha512_ops = \<lparr>ho_new = sha512_new, ho_update = sha512_update, ho_finalize = sha512_finalize, ho_block = 128, ho_size = 64\<rparr>"

definition hmac_sha512_new :: "bytes \<Rightarrow> sha512 hmac" where
  "hmac_sha512_new = hmac_new sha512_ops"

definition hmac_sha512_update :: "sha512 hmac \<Rightarrow> bytes \<Rightarrow> sha512 hmac" where
  "hmac_sha512_update = hmac_update sha512_ops"

definition hmac_sha512_finalize :: "sha512 hmac \<Rightarrow> bytes" where
  "hmac_sha512_finalize = hmac_finalize sha512_ops"

definition hmac_sha512 :: "bytes \<Rightarrow> bytes \<Rightarrow> bytes" where
  "hmac_sha512 = hmac_oneshot sha512_ops"

definition sha384_ops :: "sha384 hash_ops" where
  "sha384_ops = \<lparr>ho_new = sha384_new, ho_update = sha384_update, ho_finalize = sha384_finalize, ho_block = 128, ho_size = 48\<rparr>"

definition hmac_sha384_new :: "bytes \<Rightarrow> sha384 hmac" where
  "hmac_sha384_new = hmac_new sha384_ops"

definition hmac_sha384_update :: "sha384 hmac \<Rightarrow> bytes \<Rightarrow> sha384 hmac" where
  "hmac_sha384_update = hmac_update sha384_ops"

definition hmac_sha384_finalize :: "sha384 hmac \<Rightarrow> bytes" where
  "hmac_sha384_finalize = hmac_finalize sha384_ops"

definition hmac_sha384 :: "bytes \<Rightarrow> bytes \<Rightarrow> bytes" where
  "hmac_sha384 = hmac_oneshot sha384_ops"

section \<open>HKDF\<close>

definition hkdf_extract :: "'h hash_ops \<Rightarrow> bytes \<Rightarrow> bytes \<Rightarrow> bytes" where
  "hkdf_extract ops salt ikm =
     (let salt = (if salt = [] then replicate (ho_size ops) 0 else salt) in hmac_oneshot ops salt ikm)"

definition hkdf_block :: "'h hash_ops \<Rightarrow> bytes \<Rightarrow> bytes \<Rightarrow> bytes \<Rightarrow> u8 \<Rightarrow> bytes" where
  "hkdf_block ops prk info prev counter =
     (let h = hmac_new ops prk;
          h = hmac_update ops h prev;
          h = hmac_update ops h info;
          h = hmac_update ops h [counter]
      in hmac_finalize ops h)"

text \<open>The loop writes \<open>out\<close> from the left; here \<open>out\<close> is the part written so far. A block shorter
  than the slice it is copied from would panic (\<open>None\<close>), and so does the assertion on the length.\<close>

function hkdf_loop :: "'h hash_ops \<Rightarrow> bytes \<Rightarrow> bytes \<Rightarrow> nat \<Rightarrow> bytes \<Rightarrow> bytes \<Rightarrow> u8 \<Rightarrow> bytes option" where
  "hkdf_loop ops prk info len out prev counter =
     (if length out < len then
        let block = hkdf_block ops prk info prev counter;
            tk = min (len - length out) (ho_size ops)
        in if tk = 0 \<or> length block < tk then None
           else hkdf_loop ops prk info len (out @ take tk block) block (counter + 1)
      else Some out)"
  by auto
termination by (relation "measure (\<lambda>(ops, prk, info, len, out, prev, counter). len - length out)") auto

declare hkdf_loop.simps [simp del]

definition hkdf_expand :: "'h hash_ops \<Rightarrow> bytes \<Rightarrow> bytes \<Rightarrow> nat \<Rightarrow> bytes option" where
  "hkdf_expand ops prk info len =
     (if len \<le> 255 * ho_size ops then hkdf_loop ops prk info len [] [] 1 else None)"

definition hkdf_extract_and_expand :: "bytes \<Rightarrow> bytes \<Rightarrow> bytes \<Rightarrow> nat \<Rightarrow> bytes option" where
  "hkdf_extract_and_expand salt ikm info len =
     (let prk = hkdf_extract sha256_ops salt ikm in hkdf_expand sha256_ops prk info len)"

definition hkdf_extract_sha384 :: "bytes \<Rightarrow> bytes \<Rightarrow> bytes" where
  "hkdf_extract_sha384 = hkdf_extract sha384_ops"

definition hkdf_expand_sha384 :: "bytes \<Rightarrow> bytes \<Rightarrow> nat \<Rightarrow> bytes option" where
  "hkdf_expand_sha384 = hkdf_expand sha384_ops"

section \<open>PBKDF2\<close>

text \<open>The inner loop: \<open>u\<close> is rehashed and xored into \<open>t\<close> once for every iteration after the first.\<close>

definition pbkdf2_iter :: "(bytes \<Rightarrow> bytes) \<Rightarrow> bytes \<times> bytes \<Rightarrow> bytes \<times> bytes" where
  "pbkdf2_iter mac = (\<lambda>(u, t). let u = mac u in (u, map2 (XOR) t u @ drop (length u) t))"

definition pbkdf2_block :: "(bytes \<Rightarrow> bytes) \<Rightarrow> bytes \<Rightarrow> nat \<Rightarrow> u32 \<Rightarrow> bytes" where
  "pbkdf2_block mac salt iterations block_index =
     (let u = mac (salt @ be_bytes 4 block_index)
      in snd ((pbkdf2_iter mac ^^ (iterations - 1)) (u, u)))"

function pbkdf2_loop :: "(bytes \<Rightarrow> bytes) \<Rightarrow> bytes \<Rightarrow> nat \<Rightarrow> nat \<Rightarrow> nat \<Rightarrow> bytes \<Rightarrow> u32 \<Rightarrow> bytes option" where
  "pbkdf2_loop mac salt iterations output_len hash_len out block_index =
     (if length out < output_len then
        let t = pbkdf2_block mac salt iterations block_index;
            tk = min (output_len - length out) hash_len
        in if tk = 0 \<or> length t < tk then None
           else pbkdf2_loop mac salt iterations output_len hash_len (out @ take tk t) (block_index + 1)
      else Some out)"
  by auto
termination by (relation "measure (\<lambda>(mac, salt, it, len, n, out, i). len - length out)") auto

declare pbkdf2_loop.simps [simp del]

definition pbkdf2 :: "bytes \<Rightarrow> bytes \<Rightarrow> nat \<Rightarrow> nat \<Rightarrow> nat \<Rightarrow> (bytes \<Rightarrow> bytes \<Rightarrow> bytes) \<Rightarrow> bytes option" where
  "pbkdf2 password salt iterations output_len hash_len mac =
     pbkdf2_loop (mac password) salt iterations output_len hash_len [] 1"

definition pbkdf2_sha1 :: "bytes \<Rightarrow> bytes \<Rightarrow> nat \<Rightarrow> nat \<Rightarrow> bytes option" where
  "pbkdf2_sha1 password salt iterations output_len = pbkdf2 password salt iterations output_len 20 hmac_sha1"

definition pbkdf2_sha256 :: "bytes \<Rightarrow> bytes \<Rightarrow> nat \<Rightarrow> nat \<Rightarrow> bytes option" where
  "pbkdf2_sha256 password salt iterations output_len = pbkdf2 password salt iterations output_len 32 hmac_sha256"

definition pbkdf2_sha384 :: "bytes \<Rightarrow> bytes \<Rightarrow> nat \<Rightarrow> nat \<Rightarrow> bytes option" where
  "pbkdf2_sha384 password salt iterations output_len = pbkdf2 password salt iterations output_len 48 hmac_sha384"

definition pbkdf2_sha512 :: "bytes \<Rightarrow> bytes \<Rightarrow> nat \<Rightarrow> nat \<Rightarrow> bytes option" where
  "pbkdf2_sha512 password salt iterations output_len = pbkdf2 password salt iterations output_len 64 hmac_sha512"

section \<open>What HMAC needs of a hash\<close>

text \<open>RFC 2104 over a hash function \<open>H\<close> with blocks of \<open>B\<close> bytes.\<close>

definition hmac_spec :: "(bytes \<Rightarrow> bytes) \<Rightarrow> nat \<Rightarrow> bytes \<Rightarrow> bytes \<Rightarrow> bytes" where
  "hmac_spec H B key msg =
     (let k = (if B < length key then H key else key);
          k = k @ replicate (B - length k) 0
      in H (map (\<lambda>b. b XOR 0x5c) k @ H (map (\<lambda>b. b XOR 0x36) k @ msg)))"

text \<open>RFC 5869: the i-th block of the output keying material, and the first \<open>m\<close> of them.\<close>

primrec hkdf_T :: "(bytes \<Rightarrow> bytes) \<Rightarrow> bytes \<Rightarrow> nat \<Rightarrow> bytes" where
  "hkdf_T mac info 0 = []"
| "hkdf_T mac info (Suc i) = mac (hkdf_T mac info i @ info @ [of_nat (Suc i)])"

text \<open>
  PBKDF2 of RFC 8018: the iterated hashes of one block, and their exclusive or, byte by byte. \<open>iterations = 0\<close> is
  treated as 1, as the source's \<open>for _ in 1..iterations\<close> does.
\<close>

primrec pbkdf2_U :: "(bytes \<Rightarrow> bytes) \<Rightarrow> bytes \<Rightarrow> nat \<Rightarrow> bytes" where
  "pbkdf2_U mac seed 0 = mac seed"
| "pbkdf2_U mac seed (Suc k) = mac (pbkdf2_U mac seed k)"

definition xor_upto :: "(nat \<Rightarrow> bytes) \<Rightarrow> nat \<Rightarrow> nat \<Rightarrow> bytes" where
  "xor_upto U n k = map (\<lambda>j. fold (\<lambda>i acc. acc XOR U i ! j) [0..<k] 0) [0..<n]"

definition pbkdf2_F :: "(bytes \<Rightarrow> bytes) \<Rightarrow> nat \<Rightarrow> bytes \<Rightarrow> nat \<Rightarrow> nat \<Rightarrow> bytes" where
  "pbkdf2_F mac n salt iterations i =
     xor_upto (pbkdf2_U mac (salt @ be_bytes 4 (of_nat i :: u32))) n (max 1 iterations)"

text \<open>The first \<open>m\<close> chunks of an output, and the loops that copy it out chunk by chunk.\<close>

definition chunk_stream :: "(nat \<Rightarrow> bytes) \<Rightarrow> nat \<Rightarrow> bytes" where
  "chunk_stream T m = concat (map T [0..<m])"

lemma chunk_stream_Suc: "chunk_stream T (Suc m) = chunk_stream T m @ T m"
  by (simp add: chunk_stream_def)

lemma length_chunk_stream: "(\<And>i. length (T i) = n) \<Longrightarrow> length (chunk_stream T m) = m * n"
  by (induction m) (simp_all add: chunk_stream_Suc, simp add: chunk_stream_def)

lemma chunk_stream_add: "\<exists>rest. chunk_stream T (m + d) = chunk_stream T m @ rest"
  by (induction d) (auto simp: chunk_stream_Suc)

lemma chunk_done:
  assumes "out = take len (chunk_stream T k)" "\<not> length out < len" "k \<le> m"
  shows "take len (chunk_stream T m) = out"
proof -
  obtain rest where "chunk_stream T m = chunk_stream T k @ rest"
    using chunk_stream_add [of T k "m - k"] assms(3) by auto
  then show ?thesis using assms by auto
qed

lemma chunk_step:
  assumes T: "\<And>i. length (T i) = n" and out: "out = take len (chunk_stream T k)" and lt: "length out < len"
  shows "out @ take (min (len - length out) n) (T k) = take len (chunk_stream T (Suc k))"
    and "len \<le> m * n \<Longrightarrow> k \<le> m \<Longrightarrow> k < m"
proof -
  have k: "length (chunk_stream T k) = k * n" by (rule length_chunk_stream) (rule T)
  then have le: "k * n < len" and eq: "out = chunk_stream T k" using out lt by auto
  show "out @ take (min (len - length out) n) (T k) = take len (chunk_stream T (Suc k))"
    using le T [of k] by (simp add: eq chunk_stream_Suc k min_def)
  show "len \<le> m * n \<Longrightarrow> k \<le> m \<Longrightarrow> k < m" using le by (cases "k = m") auto
qed

lemma chunk_end:
  assumes "\<And>i. length (T i) = n" "out = take len (chunk_stream T m)" "len \<le> m * n"
  shows "\<not> length out < len"
  using assms length_chunk_stream [of T n m] by simp

lemma pbkdf2_iter_val:
  assumes len: "\<And>x. length (mac x) = n"
  shows "(pbkdf2_iter mac ^^ k) (mac seed, mac seed) = (pbkdf2_U mac seed k, xor_upto (pbkdf2_U mac seed) n (Suc k))"
proof (induction k)
  case 0
  show ?case using len [of seed] by (auto simp: xor_upto_def intro!: nth_equalityI)
next
  case (Suc k)
  have U: "length (pbkdf2_U mac seed i) = n" for i by (cases i) (simp_all add: len)
  have "map2 (XOR) (xor_upto (pbkdf2_U mac seed) n (Suc k)) (pbkdf2_U mac seed (Suc k)) =
      xor_upto (pbkdf2_U mac seed) n (Suc (Suc k))"
    using len U [of "Suc k"] by (auto simp: xor_upto_def intro!: nth_equalityI)
  then show ?case using Suc len by (simp add: pbkdf2_iter_def Let_def) (simp add: xor_upto_def)
qed

lemma pbkdf2_block_val:
  assumes "\<And>x. length (mac x) = n"
  shows "pbkdf2_block mac salt iterations (of_nat i) = pbkdf2_F mac n salt iterations i"
proof -
  have n: "Suc (iterations - 1) = max 1 iterations" by simp
  show ?thesis by (simp only: pbkdf2_block_def pbkdf2_F_def Let_def pbkdf2_iter_val [of mac n, OF assms] snd_conv n)
qed

lemma pbkdf2_loop_val:
  fixes n iterations :: nat and salt :: bytes
  assumes len: "\<And>x. length (mac x) = n" and n: "0 < n"
  defines "T \<equiv> \<lambda>i. pbkdf2_F mac n salt iterations (Suc i)"
  assumes "out = take output_len (chunk_stream T k)" "k \<le> m" "output_len \<le> m * n"
  shows "pbkdf2_loop mac salt iterations output_len n out (of_nat (Suc k)) = Some (take output_len (chunk_stream T m))"
  using assms(4-)
proof (induction "m - k" arbitrary: out k)
  case 0
  have T: "length (T i) = n" for i by (simp add: T_def pbkdf2_F_def xor_upto_def)
  have "\<not> length out < output_len" by (rule chunk_end [OF T]) (use 0 in auto)
  then show ?case using 0 by (subst pbkdf2_loop.simps) simp
next
  case (Suc d)
  have T: "length (T i) = n" for i by (simp add: T_def pbkdf2_F_def xor_upto_def)
  have block: "pbkdf2_block mac salt iterations (of_nat (Suc k)) = T k"
    unfolding T_def by (rule pbkdf2_block_val) (rule len)
  show ?case
  proof (cases "length out < output_len")
    case True
    note step = chunk_step [of T, OF T Suc.prems(1) True]
    have "k < m" by (rule step(2)) (use Suc.prems in auto)
    then have "pbkdf2_loop mac salt iterations output_len n (out @ take (min (output_len - length out) n) (T k)) (of_nat (Suc (Suc k))) =
        Some (take output_len (chunk_stream T m))"
      using Suc.hyps(2) Suc.prems(3) by (intro Suc.hyps(1) step(1)) auto
    then show ?thesis
      using True n T [of k] by (subst pbkdf2_loop.simps) (simp add: Let_def block [simplified] add.commute)
  next
    case False
    then show ?thesis using chunk_done [OF Suc.prems(1) False Suc.prems(2)] by (subst pbkdf2_loop.simps) simp
  qed
qed

locale hash_function =
  fixes ops :: "'h hash_ops" and H :: "bytes \<Rightarrow> bytes"
  assumes stream: "ho_finalize ops (foldl (ho_update ops) (ho_new ops) chunks) = H (concat chunks)"
    and size: "length (H msg) = ho_size ops"
    and fits: "0 < ho_size ops" "ho_size ops \<le> ho_block ops"
begin

lemma oneshot: "hash_oneshot ops data = H data"
  using stream [of "[data]"] by (simp add: hash_oneshot_def)

lemma key_block_eq:
  "key_block ops key = (let k = (if ho_block ops < length key then H key else key) in k @ replicate (ho_block ops - length k) 0)"
  using fits by (simp add: key_block_def Let_def oneshot size)

lemma length_key_block: "length (key_block ops key) = ho_block ops"
  using fits by (simp add: key_block_eq Let_def size)

lemma hmac_inner: "hm_inner (foldl (hmac_update ops) h chunks) = foldl (ho_update ops) (hm_inner h) chunks"
  and hmac_outer: "hm_outer_key (foldl (hmac_update ops) h chunks) = hm_outer_key h"
  by (induction chunks arbitrary: h) (simp_all add: hmac_update_def)

lemma map_nth_block: "map (\<lambda>i. f (key_block ops key ! i)) [0..<ho_block ops] = map f (key_block ops key)"
  by (rule nth_equalityI) (simp_all add: length_key_block)

lemma hmac_stream:
  "hmac_finalize ops (foldl (hmac_update ops) (hmac_new ops key) chunks) = hmac_spec H (ho_block ops) key (concat chunks)"
proof -
  define k where "k = key_block ops key"
  have "hmac_new ops key = \<lparr>hm_inner = ho_update ops (ho_new ops) (map (\<lambda>b. b XOR 0x36) k), hm_outer_key = map (\<lambda>b. b XOR 0x5c) k\<rparr>"
    using map_nth_block [of "\<lambda>b. b XOR 0x36" key] map_nth_block [of "\<lambda>b. b XOR 0x5c" key]
    by (simp add: hmac_new_def Let_def k_def)
  moreover have "ho_finalize ops (foldl (ho_update ops) (ho_update ops (ho_new ops) (map (\<lambda>b. b XOR 0x36) k)) chunks) =
      H (map (\<lambda>b. b XOR 0x36) k @ concat chunks)"
    using stream [of "map (\<lambda>b. b XOR 0x36) k # chunks"] by simp
  moreover have "ho_finalize ops (ho_update ops (ho_update ops (ho_new ops) a) b) = H (a @ b)" for a b
    using stream [of "[a, b]"] by simp
  ultimately show ?thesis
    by (simp add: hmac_finalize_def Let_def hmac_inner hmac_outer hmac_spec_def k_def key_block_eq)
qed

lemma hmac_oneshot: "hmac_oneshot ops key data = hmac_spec H (ho_block ops) key data"
  using hmac_stream [of key "[data]"] by (simp add: hmac_oneshot_def)

lemma length_hmac: "length (hmac_spec H B key msg) = ho_size ops"
  by (simp add: hmac_spec_def Let_def size)

lemma hkdf_block_eq: "hkdf_block ops prk info prev counter = hmac_spec H (ho_block ops) prk (prev @ info @ [counter])"
  using hmac_stream [of prk "[prev, info, [counter]]"] by (simp add: hkdf_block_def Let_def)

lemma length_hkdf_T: "length (hkdf_T (hmac_spec H B prk) info (Suc i)) = ho_size ops"
  by (simp add: length_hmac)

lemma hkdf_loop_val:
  fixes prk info :: bytes
  defines "T \<equiv> hkdf_T (hmac_spec H (ho_block ops) prk) info"
  defines "S \<equiv> \<lambda>i. T (Suc i)"
  assumes "out = take len (chunk_stream S k)" "k \<le> m" "len \<le> m * ho_size ops"
  shows "hkdf_loop ops prk info len out (T k) (of_nat (Suc k)) = Some (take len (chunk_stream S m))"
  using assms(3-)
proof (induction "m - k" arbitrary: out k)
  case 0
  have S: "length (S i) = ho_size ops" for i unfolding S_def T_def by (rule length_hkdf_T)
  have "\<not> length out < len" by (rule chunk_end [OF S]) (use 0 in auto)
  then show ?case using 0 by (subst hkdf_loop.simps) simp
next
  case (Suc d)
  have S: "length (S i) = ho_size ops" for i unfolding S_def T_def by (rule length_hkdf_T)
  have block: "hkdf_block ops prk info (T k) (of_nat (Suc k)) = S k"
    by (simp add: hkdf_block_eq S_def T_def)
  have TS: "T (Suc k) = S k" by (simp only: S_def)
  show ?case
  proof (cases "length out < len")
    case True
    note step = chunk_step [of S, OF S Suc.prems(1) True]
    have "k < m" by (rule step(2)) (use Suc.prems in auto)
    then have "hkdf_loop ops prk info len (out @ take (min (len - length out) (ho_size ops)) (S k)) (T (Suc k)) (of_nat (Suc (Suc k))) =
        Some (take len (chunk_stream S m))"
      using Suc.hyps(2) Suc.prems(3) by (intro Suc.hyps(1) step(1)) auto
    then show ?thesis
      using True fits(1) S [of k] by (subst hkdf_loop.simps) (simp add: Let_def block [simplified] TS add.commute)
  next
    case False
    then show ?thesis using chunk_done [OF Suc.prems(1) False Suc.prems(2)] by (subst hkdf_loop.simps) simp
  qed
qed

lemma hkdf_expand_val:
  "hkdf_expand ops prk info len =
     (if len \<le> 255 * ho_size ops
      then Some (take len (chunk_stream (\<lambda>i. hkdf_T (hmac_spec H (ho_block ops) prk) info (Suc i)) 255)) else None)"
  using hkdf_loop_val [of "[]" len prk info 0 255] by (simp add: hkdf_expand_def chunk_stream_def)

end

section \<open>The instances\<close>

lemma length_be_words: "length (concat (map (be_bytes n) ws)) = n * length ws"
  by (simp add: length_concat comp_def sum_list_triv)

lemma length_sha256_spec: "length (sha256_spec msg) = 32"
proof -
  have "length (fold_blocks sha256_compress 64 sha256_H0 m) = 8" for m
    by (rule length_fold_blocks) (simp_all add: sha256_H0_def)
  then show ?thesis by (simp add: sha256_spec_def length_be_words)
qed

lemma length_sha384_spec: "length (sha384_spec msg) = 48"
proof -
  have "length (fold_blocks sha384_compress 128 sha384_H0 m) = 8" for m
    by (rule length_fold_blocks) (simp_all add: sha384_compress_def sha384_H0_def)
  then show ?thesis by (simp add: sha384_spec_def length_be_words)
qed

lemma length_sha512_spec: "length (sha512_spec msg) = 64"
proof -
  have "length (fold_blocks sha512_compress 128 sha512_H0 m) = 8" for m
    by (rule length_fold_blocks) (simp_all add: sha512_H0_def)
  then show ?thesis by (simp add: sha512_spec_def length_be_words)
qed

definition sha1_spec :: "bytes \<Rightarrow> bytes" where
  "sha1_spec msg = concat (map (be_bytes 4) (md_spec sha1_compress sha1_H0 (be_bytes 8) msg))"

lemma sha1_stream: "sha1_finalize (foldl sha1_update sha1_new chunks) = sha1_spec (concat chunks)"
  by (simp add: sha1_finalize_def sha1_update_def sha1_new_def sha1_spec_def md_stream)

lemma length_sha1_spec: "length (sha1_spec msg) = 20"
proof -
  have "length (sha1_compress s b) = 5" for s b by (simp add: sha1_compress_def Let_def split: prod.splits)
  then have "length (fold_blocks sha1_compress 64 sha1_H0 m) = 5" for m
    by (intro length_fold_blocks) (simp_all add: sha1_H0_def)
  then show ?thesis by (simp add: sha1_spec_def md_spec_def length_be_words)
qed

interpretation hf_sha256: hash_function sha256_ops sha256_spec
  by unfold_locales (simp_all add: sha256_ops_def sha256_stream length_sha256_spec)

interpretation hf_sha1: hash_function sha1_ops sha1_spec
  by unfold_locales (simp_all add: sha1_ops_def sha1_stream length_sha1_spec)

interpretation hf_sha384: hash_function sha384_ops sha384_spec
  by unfold_locales (simp_all add: sha384_ops_def sha384_stream length_sha384_spec)

interpretation hf_sha512: hash_function sha512_ops sha512_spec
  by unfold_locales (simp_all add: sha512_ops_def sha512_stream length_sha512_spec)

text \<open>C15: All four HMACs are RFC 2104 on the whole message, however it is cut into \<open>update\<close> calls: the key hashed when it
  is longer than a block and zero-padded to a block, \<open>H((k xor opad) || H((k xor ipad) || message))\<close>, with the
  standard's hash function in both places.
\<close>

theorem hmac_exact:
  "hmac_sha256_finalize (foldl hmac_sha256_update (hmac_sha256_new key) chunks) = hmac_spec sha256_spec 64 key (concat chunks) \<and>
   hmac_sha1_finalize (foldl hmac_sha1_update (hmac_sha1_new key) chunks) = hmac_spec sha1_spec 64 key (concat chunks) \<and>
   hmac_sha384_finalize (foldl hmac_sha384_update (hmac_sha384_new key) chunks) = hmac_spec sha384_spec 128 key (concat chunks) \<and>
   hmac_sha512_finalize (foldl hmac_sha512_update (hmac_sha512_new key) chunks) = hmac_spec sha512_spec 128 key (concat chunks)"
  using hf_sha256.hmac_stream [of key chunks] hf_sha1.hmac_stream [of key chunks]
    hf_sha384.hmac_stream [of key chunks] hf_sha512.hmac_stream [of key chunks]
  by (simp add: hmac_sha256_finalize_def hmac_sha256_update_def hmac_sha256_new_def hmac_sha1_finalize_def
      hmac_sha1_update_def hmac_sha1_new_def hmac_sha384_finalize_def hmac_sha384_update_def hmac_sha384_new_def
      hmac_sha512_finalize_def hmac_sha512_update_def hmac_sha512_new_def sha256_ops_def sha1_ops_def sha384_ops_def sha512_ops_def)

lemma hmac_instances:
  "hmac_sha256 key msg = hmac_spec sha256_spec 64 key msg" "hmac_sha1 key msg = hmac_spec sha1_spec 64 key msg"
  "hmac_sha384 key msg = hmac_spec sha384_spec 128 key msg" "hmac_sha512 key msg = hmac_spec sha512_spec 128 key msg"
  unfolding hmac_sha256_def hmac_sha1_def hmac_sha384_def hmac_sha512_def
    hf_sha256.hmac_oneshot hf_sha1.hmac_oneshot hf_sha384.hmac_oneshot hf_sha512.hmac_oneshot
  by (simp_all add: sha256_ops_def sha1_ops_def sha384_ops_def sha512_ops_def)

text \<open>HKDF is RFC 5869: the extracted key is the HMAC of the input keying material under the salt (zeros for an empty
  salt); expanding to at most 255 blocks returns the first \<open>len\<close> bytes of \<open>T(1) || T(2) || ...\<close>, where
  \<open>T(i)\<close> is the HMAC of \<open>T(i-1) || info || i\<close> and the counter byte never wraps; a longer request hits the
  assertion. The same holds for the SHA-384 pair.
\<close>

theorem hkdf_exact:
  "hkdf_extract_and_expand salt ikm info len =
     (let salt = (if salt = [] then replicate 32 0 else salt);
          mac = hmac_spec sha256_spec 64 (hmac_spec sha256_spec 64 salt ikm)
      in if len \<le> 255 * 32 then Some (take len (concat (map (\<lambda>i. hkdf_T mac info (Suc i)) [0..<255]))) else None) \<and>
   hkdf_expand_sha384 (hkdf_extract_sha384 salt ikm) info len =
     (let salt = (if salt = [] then replicate 48 0 else salt);
          mac = hmac_spec sha384_spec 128 (hmac_spec sha384_spec 128 salt ikm)
      in if len \<le> 255 * 48 then Some (take len (concat (map (\<lambda>i. hkdf_T mac info (Suc i)) [0..<255]))) else None)"
proof -
  have sizes: "ho_size sha256_ops = 32" "ho_block sha256_ops = 64" "ho_size sha384_ops = 48" "ho_block sha384_ops = 128"
    by (simp_all add: sha256_ops_def sha384_ops_def)
  show ?thesis
    unfolding hkdf_extract_and_expand_def hkdf_expand_sha384_def hkdf_extract_sha384_def hkdf_extract_def Let_def
      hf_sha256.hkdf_expand_val hf_sha384.hkdf_expand_val hf_sha256.hmac_oneshot hf_sha384.hmac_oneshot sizes chunk_stream_def
    by (rule conjI) (rule refl)+
qed

lemma pbkdf2_val:
  assumes "\<And>x. length (mac password x) = n" "0 < n"
  shows "pbkdf2 password salt iterations output_len n mac =
    Some (take output_len (concat (map (\<lambda>i. pbkdf2_F (mac password) n salt iterations (Suc i)) [0..<output_len])))"
  using pbkdf2_loop_val [where mac = "mac password" and k = 0 and m = output_len and out = "[]", OF assms] assms(2)
  by (simp add: pbkdf2_def chunk_stream_def)

text \<open>C33: PBKDF2 is RFC 8018 for each of its four hashes: the output is the first \<open>output_len\<close> bytes of
  \<open>F(1) || F(2) || ...\<close>, where \<open>F(i)\<close> is the bytewise exclusive or of the iterated HMACs
  \<open>U_1 = HMAC(password, salt || INT(i))\<close>, \<open>U_k = HMAC(password, U_(k-1))\<close>; the loop always ends, no slice is
  out of range, and 0 iterations mean 1.
\<close>

theorem pbkdf2_exact:
  "pbkdf2_sha1 password salt iterations len = Some (take len (concat (map
     (\<lambda>i. pbkdf2_F (hmac_spec sha1_spec 64 password) 20 salt iterations (Suc i)) [0..<len]))) \<and>
   pbkdf2_sha256 password salt iterations len = Some (take len (concat (map
     (\<lambda>i. pbkdf2_F (hmac_spec sha256_spec 64 password) 32 salt iterations (Suc i)) [0..<len]))) \<and>
   pbkdf2_sha384 password salt iterations len = Some (take len (concat (map
     (\<lambda>i. pbkdf2_F (hmac_spec sha384_spec 128 password) 48 salt iterations (Suc i)) [0..<len]))) \<and>
   pbkdf2_sha512 password salt iterations len = Some (take len (concat (map
     (\<lambda>i. pbkdf2_F (hmac_spec sha512_spec 128 password) 64 salt iterations (Suc i)) [0..<len])))"
proof -
  have eq: "hmac_sha256 = hmac_spec sha256_spec 64" "hmac_sha1 = hmac_spec sha1_spec 64"
    "hmac_sha384 = hmac_spec sha384_spec 128" "hmac_sha512 = hmac_spec sha512_spec 128"
    by (intro ext, rule hmac_instances)+
  have len: "length (hmac_spec H B k x) = length (H (map (\<lambda>b. b XOR 0x5c)
      ((if B < length k then H k else k) @ replicate (B - length (if B < length k then H k else k)) 0) @
      H (map (\<lambda>b. b XOR 0x36) ((if B < length k then H k else k) @ replicate (B - length (if B < length k then H k else k)) 0) @ x)))" for H B k x
    by (simp only: hmac_spec_def Let_def)
  show ?thesis
    unfolding pbkdf2_sha1_def pbkdf2_sha256_def pbkdf2_sha384_def pbkdf2_sha512_def eq
    by (intro conjI pbkdf2_val; simp only: len length_sha1_spec length_sha256_spec length_sha384_spec length_sha512_spec; simp)
qed

end
