(* ===== verification/Big_Uint.thy ===== *)
theory Big_Uint
  imports Word_Facts
begin

text \<open>
  The unsigned big integers of \<^verbatim>\<open>crates/cv_crypto/src/bigint.rs\<close>: representation, byte strings,
  comparison, addition, subtraction, multiplication and shifts. Limbs are 64-bit words, the
  intermediates are 128-bit words, signed ones in two's complement. \<open>limbs_val\<close> is the number
  a limb vector stands for.
\<close>

datatype ordering = Less | Equal | Greater

record biguint =
  limbs :: "u64 list"

section \<open>Loops over a range\<close>

definition for_range :: "nat \<Rightarrow> (nat \<Rightarrow> 's \<Rightarrow> 's) \<Rightarrow> 's \<Rightarrow> 's" where
  "for_range n f s = fold f [0..<n] s"

definition for_range_rev :: "nat \<Rightarrow> (nat \<Rightarrow> 's \<Rightarrow> 's) \<Rightarrow> 's \<Rightarrow> 's" where
  "for_range_rev n f s = fold f (rev [0..<n]) s"

lemma for_range_simps [simp]:
  "for_range 0 f s = s"
  "for_range (Suc n) f s = f n (for_range n f s)"
  by (simp_all add: for_range_def)

lemma for_range_rev_simps [simp]:
  "for_range_rev 0 f s = s"
  "for_range_rev (Suc n) f s = for_range_rev n f (f n s)"
  by (simp_all add: for_range_rev_def)

lemma for_range_inv:
  assumes "P 0 s" "\<And>i s. i < n \<Longrightarrow> P i s \<Longrightarrow> P (Suc i) (f i s)"
  shows "P n (for_range n f s)"
  using assms by (induction n) auto

lemma for_range_rev_inv:
  assumes "P n s" "\<And>i s. i < n \<Longrightarrow> P (Suc i) s \<Longrightarrow> P i (f i s)"
  shows "P 0 (for_range_rev n f s)"
  using assms by (induction n arbitrary: s) auto

section \<open>Representation\<close>

definition big_zero :: biguint where
  "big_zero = \<lparr>limbs = []\<rparr>"

function normalize_limbs :: "u64 list \<Rightarrow> u64 list" where
  "normalize_limbs xs = (if xs \<noteq> [] \<and> last xs = 0 then normalize_limbs (butlast xs) else xs)"
  by auto
termination by (relation "measure length") auto

declare normalize_limbs.simps [simp del]

definition big_normalize :: "biguint \<Rightarrow> biguint" where
  "big_normalize a = a\<lparr>limbs := normalize_limbs (limbs a)\<rparr>"

function pad_be :: "bytes \<Rightarrow> bytes" where
  "pad_be bs = (if length bs mod 8 \<noteq> 0 then pad_be (0 # bs) else bs)"
  by auto
termination by (relation "measure (\<lambda>bs. (8 - length bs mod 8) mod 8)") (auto simp: mod_Suc)

declare pad_be.simps [simp del]

definition u64_from_be :: "bytes \<Rightarrow> u64" where
  "u64_from_be bs = foldl (\<lambda>w b. push_bit 8 w OR ucast b) 0 bs"

definition u64_to_be :: "u64 \<Rightarrow> bytes" where
  "u64_to_be w = map (\<lambda>k. ucast (drop_bit (8 * (7 - k)) w)) [0..<8]"

definition from_be_bytes :: "bytes \<Rightarrow> biguint" where
  "from_be_bytes bytes =
     (let padded = pad_be bytes; n_limbs = length padded div 8
      in big_normalize \<lparr>limbs = map (\<lambda>i. let off = length padded - (i + 1) * 8 in
           u64_from_be (take 8 (drop off padded))) [0..<n_limbs]\<rparr>)"

definition copy_limb :: "nat \<Rightarrow> nat \<Rightarrow> u64 \<Rightarrow> bytes \<Rightarrow> bytes" where
  "copy_limb len i lm out =
     (let be = u64_to_be lm;
          end' = len - i * 8;
          start = len - (i + 1) * 8;
          tk = end' - start
      in take start out @ drop (8 - tk) be @ drop end' out)"

primrec to_be_loop :: "nat \<Rightarrow> nat \<Rightarrow> bytes \<Rightarrow> u64 list \<Rightarrow> bytes" where
  "to_be_loop len i out [] = out"
| "to_be_loop len i out (lm # ls) =
     (let out = copy_limb len i lm out
      in if len - i * 8 \<le> 8 \<and> i * 8 + 8 > len then out else to_be_loop len (i + 1) out ls)"

definition to_be_bytes :: "biguint \<Rightarrow> nat \<Rightarrow> bytes" where
  "to_be_bytes a len = to_be_loop len 0 (replicate len 0) (limbs a)"

definition is_zero :: "biguint \<Rightarrow> bool" where
  "is_zero a = list_all (\<lambda>l. l = 0) (limbs a)"

text \<open>\<open>Iterator::rposition\<close>, and \<open>u64::leading_zeros\<close>.\<close>

definition rposition :: "('a \<Rightarrow> bool) \<Rightarrow> 'a list \<Rightarrow> nat option" where
  "rposition P xs = map_option (\<lambda>i. length xs - 1 - i) (position P (rev xs))"

primrec top_bits :: "nat \<Rightarrow> u64 \<Rightarrow> nat" where
  "top_bits 0 w = 0"
| "top_bits (Suc n) w = (if bit w n then Suc n else top_bits n w)"

definition leading_zeros :: "u64 \<Rightarrow> nat" where
  "leading_zeros w = 64 - top_bits 64 w"

definition bit_len :: "biguint \<Rightarrow> nat" where
  "bit_len a = (case rposition (\<lambda>l. l \<noteq> 0) (limbs a) of
     Some i \<Rightarrow> i * 64 + (64 - leading_zeros (limbs a ! i))
   | None \<Rightarrow> 0)"

definition big_bit :: "biguint \<Rightarrow> nat \<Rightarrow> bool" where
  "big_bit a idx =
     (let li = idx div 64; off = idx mod 64
      in case vec_get (limbs a) li of None \<Rightarrow> False | Some l \<Rightarrow> drop_bit off l AND 1 = 1)"

definition compare :: "'a::linorder \<Rightarrow> 'a \<Rightarrow> ordering" where
  "compare x y = (if x < y then Less else if x = y then Equal else Greater)"

fun cmp_from :: "u64 list \<Rightarrow> u64 list \<Rightarrow> nat list \<Rightarrow> ordering" where
  "cmp_from xs ys [] = Equal"
| "cmp_from xs ys (i # is) = (case compare (xs ! i) (ys ! i) of Equal \<Rightarrow> cmp_from xs ys is | r \<Rightarrow> r)"

definition big_cmp :: "biguint \<Rightarrow> biguint \<Rightarrow> ordering" where
  "big_cmp a b =
     (case (rposition (\<lambda>l. l \<noteq> 0) (limbs a), rposition (\<lambda>l. l \<noteq> 0) (limbs b)) of
        (None, None) \<Rightarrow> Equal
      | (None, Some _) \<Rightarrow> Less
      | (Some _, None) \<Rightarrow> Greater
      | (Some i, Some j) \<Rightarrow>
          if i \<noteq> j then compare i j else cmp_from (limbs a) (limbs b) (rev [0..<Suc i]))"

section \<open>Addition, subtraction, multiplication, shifts\<close>

definition limb_or_zero :: "u64 list \<Rightarrow> nat \<Rightarrow> u64" where
  "limb_or_zero xs i = (case vec_get xs i of None \<Rightarrow> 0 | Some l \<Rightarrow> l)"

definition add_step :: "u64 list \<Rightarrow> u64 list \<Rightarrow> nat \<Rightarrow> u64 list \<times> u128 \<Rightarrow> u64 list \<times> u128" where
  "add_step xs ys i = (\<lambda>(out, carry).
     let x = ucast (limb_or_zero xs i);
         y = ucast (limb_or_zero ys i);
         s = x + y + carry
     in (out @ [ucast s], drop_bit 64 s))"

definition big_add :: "biguint \<Rightarrow> biguint \<Rightarrow> biguint" where
  "big_add a b =
     (let n = max (length (limbs a)) (length (limbs b));
          (out, carry) = for_range n (add_step (limbs a) (limbs b)) ([], 0)
      in big_normalize \<lparr>limbs = if carry \<noteq> 0 then out @ [ucast carry] else out\<rparr>)"

definition sub_step :: "u64 list \<Rightarrow> u64 list \<Rightarrow> nat \<Rightarrow> u64 list \<times> u128 \<Rightarrow> u64 list \<times> u128" where
  "sub_step xs ys i = (\<lambda>(out, borrow).
     let x = ucast (xs ! i);
         y = ucast (limb_or_zero ys i);
         d = x - y - borrow
     in if d <s 0 then (out[i := ucast (d + push_bit 64 1)], 1) else (out[i := ucast d], 0))"

definition big_sub :: "biguint \<Rightarrow> biguint \<Rightarrow> biguint" where
  "big_sub a b =
     (let n = length (limbs a);
          (out, borrow) = for_range n (sub_step (limbs a) (limbs b)) (replicate n 0, 0)
      in big_normalize \<lparr>limbs = out\<rparr>)"

definition mul_step :: "u64 list \<Rightarrow> u128 \<Rightarrow> nat \<Rightarrow> nat \<Rightarrow> u64 list \<times> u128 \<Rightarrow> u64 list \<times> u128" where
  "mul_step ys ai i j = (\<lambda>(out, carry).
     let prod = ai * ucast (ys ! j) + ucast (out ! (i + j)) + carry
     in (out[i + j := ucast prod], drop_bit 64 prod))"

definition mul_row :: "u64 list \<Rightarrow> u64 list \<Rightarrow> nat \<Rightarrow> u64 list \<Rightarrow> u64 list" where
  "mul_row xs ys i out =
     (let (out, carry) = for_range (length ys) (mul_step ys (ucast (xs ! i)) i) (out, 0)
      in out[i + length ys := ucast carry])"

definition mul_full :: "biguint \<Rightarrow> biguint \<Rightarrow> biguint" where
  "mul_full a b =
     (if is_zero a \<or> is_zero b then big_zero
      else let la = length (limbs a); lb = length (limbs b)
           in big_normalize \<lparr>limbs = for_range la (mul_row (limbs a) (limbs b)) (replicate (la + lb) 0)\<rparr>)"

definition shl_limbs :: "u64 list \<Rightarrow> nat \<Rightarrow> u64 list" where
  "shl_limbs xs shift =
     (if shift = 0 then xs
      else let (out, carry) = foldl (\<lambda>(out, carry) l. (out @ [push_bit shift l OR carry], drop_bit (64 - shift) l)) ([], 0) xs
           in if carry \<noteq> 0 then out @ [carry] else out)"

definition shr_limbs :: "u64 list \<Rightarrow> nat \<Rightarrow> u64 list" where
  "shr_limbs xs shift =
     (if shift = 0 then xs
      else fst (for_range_rev (length xs) (\<lambda>i (out, carry).
             (out[i := drop_bit shift (xs ! i) OR carry], push_bit (64 - shift) (xs ! i)))
           (replicate (length xs) 0, 0)))"

section \<open>The number a limb vector stands for\<close>

definition base :: nat where "base = 2 ^ 64"

fun limbs_val :: "u64 list \<Rightarrow> nat" where
  "limbs_val [] = 0"
| "limbs_val (x # xs) = unat x + base * limbs_val xs"

definition big_val :: "biguint \<Rightarrow> nat" where
  "big_val a = limbs_val (limbs a)"

definition normal :: "biguint \<Rightarrow> bool" where
  "normal a \<longleftrightarrow> limbs a = [] \<or> last (limbs a) \<noteq> 0"

lemma base_pos [simp]: "0 < base" "base \<noteq> 0" by (simp_all add: base_def)

lemma unat_less_base: "unat (x :: u64) < base"
  using unsigned_less [of x, where ?'a = nat] by (simp add: base_def)

lemma unat_ucast_u64 [simp]: "unat (ucast (w :: u128) :: u64) = unat w mod base"
  by (simp add: unsigned_ucast_eq take_bit_eq_mod base_def)

lemma unat_ucast_u128 [simp]: "unat (ucast (x :: u64) :: u128) = unat x"
  by (simp add: unsigned_ucast_eq take_bit_nat_eq_self unat_less_base [unfolded base_def] order_less_trans [OF unat_less_base [unfolded base_def]])

lemma unat_hi [simp]: "unat (drop_bit 64 (w :: u128)) = unat w div base"
  by (subst unat_drop_bit_eq) (simp add: drop_bit_eq_div base_def)

lemma base_pow: "base ^ n = 2 ^ (64 * n)"
  by (simp only: base_def power_mult)

lemma base_pow_bytes: "base ^ n = 256 ^ (8 * n)"
  by (simp only: power_mult) (simp add: base_def)

lemma base_sq: "base * base = 2 ^ 128" by (simp add: base_def)

lemma unat_u128_add: "unat (x :: u128) + unat y < base * base \<Longrightarrow> unat (x + y) = unat x + unat y"
  by (simp add: base_sq unat_word_ariths)

lemma unat_u128_mult: "unat (x :: u128) * unat y < base * base \<Longrightarrow> unat (x * y) = unat x * unat y"
  by (simp add: base_sq unat_word_ariths)

lemma limbs_val_append [simp]: "limbs_val (xs @ ys) = limbs_val xs + base ^ length xs * limbs_val ys"
  by (induction xs) (simp_all add: algebra_simps)

lemma limbs_val_less: "limbs_val xs < base ^ length xs"
proof (induction xs)
  case (Cons x xs)
  then have "Suc (limbs_val xs) * base \<le> base ^ length xs * base" by (intro mult_le_mono1) simp
  then have "base + base * limbs_val xs \<le> base ^ length (x # xs)" by (simp add: algebra_simps)
  moreover have "unat x < base" by (rule unat_less_base)
  ultimately show ?case by (simp only: limbs_val.simps)
qed simp

lemma limbs_val_zero_iff: "limbs_val xs = 0 \<longleftrightarrow> (\<forall>x \<in> set xs. x = 0)"
  by (induction xs) (auto simp: unat_eq_0)

lemma limbs_val_replicate [simp]: "limbs_val (replicate n 0) = 0"
  by (simp add: limbs_val_zero_iff)

lemma limbs_val_take_Suc:
  "i < length xs \<Longrightarrow> limbs_val (take (Suc i) xs) = limbs_val (take i xs) + base ^ i * unat (xs ! i)"
  by (simp add: take_Suc_conv_app_nth)

lemma limbs_val_take_drop: "limbs_val xs = limbs_val (take i xs) + base ^ i * limbs_val (drop i xs)"
proof (cases "i \<le> length xs")
  case True
  then show ?thesis by (subst append_take_drop_id [of i xs, symmetric], subst limbs_val_append) simp
qed simp

lemma limbs_val_take: "limbs_val (take i xs) = limbs_val xs mod base ^ i"
proof -
  have "limbs_val (take i xs) < base ^ i"
  proof -
    have "limbs_val (take i xs) < base ^ length (take i xs)" by (rule limbs_val_less)
    also have "\<dots> \<le> base ^ i" by (intro power_increasing) (simp_all add: Suc_le_eq)
    finally show ?thesis .
  qed
  then show ?thesis using limbs_val_take_drop [of xs i] by simp
qed

lemma limbs_val_drop: "limbs_val (drop i xs) = limbs_val xs div base ^ i"
proof -
  have "limbs_val (take i xs) < base ^ i" by (simp add: limbs_val_take)
  then show ?thesis using limbs_val_take_drop [of xs i] by simp
qed

lemma limb_or_zero_val: "unat (limb_or_zero xs i) = limbs_val xs div base ^ i mod base"
proof (cases "i < length xs")
  case True
  have "unat (xs ! i) = limbs_val (drop i xs) mod base" using True unat_less_base [of "xs ! i"] by (simp add: Cons_nth_drop_Suc [symmetric])
  then show ?thesis using True by (simp add: limb_or_zero_def vec_get_def limbs_val_drop)
next
  case False
  then have "limbs_val xs < base ^ i"
    using limbs_val_less [of xs] power_increasing [of "length xs" i base] by (simp add: Suc_le_eq)
  then show ?thesis using False by (simp add: limb_or_zero_def vec_get_def)
qed

lemma normalize_limbs_val [simp]: "limbs_val (normalize_limbs xs) = limbs_val xs"
proof (induction xs rule: normalize_limbs.induct)
  case (1 xs)
  show ?case
  proof (cases "xs \<noteq> [] \<and> last xs = 0")
    case True
    then have "xs = butlast xs @ [0]" by (metis append_butlast_last_id)
    then have "limbs_val xs = limbs_val (butlast xs)" by (metis limbs_val_append limbs_val.simps mult_0_right unsigned_0 add_0_right)
    then show ?thesis using True 1 by (simp add: normalize_limbs.simps [of xs])
  qed (auto simp: normalize_limbs.simps [of xs])
qed

lemma normalize_limbs_last: "normalize_limbs xs = [] \<or> last (normalize_limbs xs) \<noteq> 0"
proof (induction xs rule: normalize_limbs.induct)
  case (1 xs)
  then show ?case by (cases "xs \<noteq> [] \<and> last xs = 0") (auto simp: normalize_limbs.simps [of xs])
qed

lemma normalize_val [simp]: "big_val (big_normalize a) = big_val a"
  by (simp add: big_val_def big_normalize_def)

lemma normal_normalize [simp]: "normal (big_normalize a)"
  using normalize_limbs_last by (simp add: normal_def big_normalize_def)

lemma is_zero_val: "is_zero a \<longleftrightarrow> big_val a = 0"
  by (simp add: is_zero_def big_val_def limbs_val_zero_iff list_all_iff)

lemma big_zero_val [simp]: "big_val big_zero = 0" "normal big_zero"
  by (simp_all add: big_val_def big_zero_def normal_def)

section \<open>Addition\<close>

text \<open>A digit step: the digit and the carry together are the sum.\<close>

lemma digit_split: "n mod base + base * (n div base) = n"
  by (metis mod_mult_div_eq)

lemma div_base_pow_Suc: "n div base ^ i = n div base ^ i mod base + base * (n div base ^ Suc i)"
  by (metis digit_split div_mult2_eq mult.commute power_Suc)

lemma mod_base_pow_Suc: "n mod base ^ Suc i = n mod base ^ i + base ^ i * (n div base ^ i mod base)"
  by (metis add.commute mod_mult2_eq mult.commute power_Suc)

lemma scaled_split: "base ^ k * n = base ^ k * (n mod base) + base ^ Suc k * (n div base)"
proof -
  have "base ^ k * (n mod base + base * (n div base)) = base ^ k * (n mod base) + base ^ Suc k * (n div base)"
    by (simp only: distrib_left power_Suc2 mult.assoc)
  then show ?thesis by (simp only: digit_split)
qed

lemma limbs_val_snoc: "limbs_val (xs @ [x]) = limbs_val xs + base ^ length xs * unat x"
  by simp

lemma add_loop:
  "\<exists>out carry. for_range n (add_step xs ys) ([], 0) = (out, carry) \<and> length out = n \<and> unat carry \<le> 1 \<and>
     limbs_val out + base ^ n * unat carry = limbs_val xs mod base ^ n + limbs_val ys mod base ^ n"
proof (induction n)
  case (Suc n)
  then obtain out carry where IH: "for_range n (add_step xs ys) ([], 0) = (out, carry)" "length out = n" "unat carry \<le> 1"
    "limbs_val out + base ^ n * unat carry = limbs_val xs mod base ^ n + limbs_val ys mod base ^ n"
    by blast
  let ?x = "limb_or_zero xs n" and ?y = "limb_or_zero ys n"
  define s :: u128 where "s = ucast ?x + ucast ?y + carry"
  have lt: "unat ?x < base" "unat ?y < base" by (rule unat_less_base)+
  have small: "unat ?x + unat ?y + unat carry < base + base" using lt IH(3) by linarith
  have big: "base + base \<le> base * base" by (simp add: base_def)
  have s: "unat s = unat ?x + unat ?y + unat carry"
    using small big by (simp add: s_def unat_u128_add)
  have c: "unat s div base \<le> 1"
  proof -
    have "unat s div base < 2" using small s by (simp add: less_mult_imp_div_less)
    then show ?thesis by simp
  qed
  have "limbs_val (out @ [ucast s]) + base ^ Suc n * unat (drop_bit 64 s)
      = limbs_val out + base ^ n * (unat s mod base + base * (unat s div base))"
    by (simp only: limbs_val_snoc IH(2) unat_ucast_u64 unat_hi power_Suc2 distrib_left mult.assoc add.assoc)
  also have "\<dots> = limbs_val out + base ^ n * unat carry + base ^ n * unat ?x + base ^ n * unat ?y"
    by (simp add: digit_split s algebra_simps)
  also have "\<dots> = limbs_val xs mod base ^ Suc n + limbs_val ys mod base ^ Suc n"
    by (simp only: IH(4) limb_or_zero_val mod_base_pow_Suc)
  finally have v: "limbs_val (out @ [ucast s]) + base ^ Suc n * unat (drop_bit 64 s) = limbs_val xs mod base ^ Suc n + limbs_val ys mod base ^ Suc n" .
  have "add_step xs ys n (out, carry) = (out @ [ucast s], drop_bit 64 s)" by (simp add: add_step_def Let_def s_def)
  then show ?case using IH(1,2) c v by simp
qed simp

theorem big_add_val [simp]: "big_val (big_add a b) = big_val a + big_val b"
proof -
  let ?n = "max (length (limbs a)) (length (limbs b))"
  obtain out carry where l: "for_range ?n (add_step (limbs a) (limbs b)) ([], 0) = (out, carry)" "length out = ?n" "unat carry \<le> 1"
    "limbs_val out + base ^ ?n * unat carry = limbs_val (limbs a) mod base ^ ?n + limbs_val (limbs b) mod base ^ ?n"
    using add_loop by blast
  have small: "limbs_val xs mod base ^ ?n = limbs_val xs" if "length xs \<le> ?n" for xs
    using limbs_val_less [of xs] power_increasing [OF that, of base] by (simp add: Suc_le_eq)
  have "limbs_val (if carry \<noteq> 0 then out @ [ucast carry] else out) = limbs_val out + base ^ ?n * unat carry"
  proof -
    have "unat carry mod base = unat carry" using l(3) by (simp add: base_def)
    then show ?thesis using l(2) by auto
  qed
  also have "\<dots> = big_val a + big_val b" using l(4) small [of "limbs a"] small [of "limbs b"] by (simp add: big_val_def)
  finally show ?thesis using l(1)
    by (simp only: big_add_def Let_def case_prod_conv normalize_val) (simp only: big_val_def biguint.simps)
qed

lemma big_add_normal [simp]: "normal (big_add a b)"
  by (simp add: big_add_def Let_def split_beta)

section \<open>Subtraction\<close>

text \<open>Signed 128-bit values in two's complement.\<close>

lemma sint_wi:
  assumes "- (2 ^ 127) \<le> k" "k < 2 ^ 127"
  shows "sint (word_of_int k :: u128) = k"
proof -
  have "sint (word_of_int k :: u128) = signed_take_bit 127 k" by (simp add: sint_sbintrunc')
  then show ?thesis using signed_take_bit_int_eq_self [OF assms] by simp
qed

lemma ucast_wi_u64: "ucast (word_of_int k :: u128) = (word_of_int k :: u64)"
  by (rule bit_word_eqI) (simp add: bit_simps)

lemma unat_wi_u64: "0 \<le> k \<Longrightarrow> k < int base \<Longrightarrow> unat (word_of_int k :: u64) = nat k"
  by (simp add: unat_eq_nat_uint uint_word_of_int base_def)

lemma ucast_u64_wi: "(ucast (x :: u64) :: u128) = word_of_int (int (unat x))"
  by (simp only: ucast_eq uint_nat)

lemma sub_digit:
  fixes x y :: u64 and b :: u128
  assumes "b = 0 \<or> b = 1"
  shows "ucast x - ucast y - b <s 0 \<longleftrightarrow> unat x < unat y + unat b"
    and "unat x < unat y + unat b \<Longrightarrow> unat (ucast (ucast x - ucast y - b + push_bit 64 1 :: u128) :: u64) = unat x + base - unat y - unat b"
    and "\<not> unat x < unat y + unat b \<Longrightarrow> unat (ucast (ucast x - ucast y - b :: u128) :: u64) = unat x - unat y - unat b"
proof -
  define k where "k = int (unat x) - int (unat y) - int (unat b)"
  have b: "b = word_of_int (int (unat b))" "unat b \<le> 1" using assms by auto
  have d: "ucast x - ucast y - b = (word_of_int k :: u128)"
    by (simp only: k_def ucast_u64_wi wi_hom_sub [symmetric] b(1) [symmetric])
  have lt: "unat x < base" "unat y < base" by (rule unat_less_base)+
  have k: "- int base \<le> k" "k < int base" using lt b(2) unfolding k_def by linarith+
  have "sint (word_of_int k :: u128) = k" using k by (intro sint_wi) (simp_all add: base_def)
  then have "word_of_int k <s (0 :: u128) \<longleftrightarrow> k < 0" by (simp only: word_sless_alt sint_0)
  also have "\<dots> \<longleftrightarrow> unat x < unat y + unat b" unfolding k_def by linarith
  finally show "ucast x - ucast y - b <s 0 \<longleftrightarrow> unat x < unat y + unat b" unfolding d .
  have one: "push_bit 64 1 = (word_of_int (int base) :: u128)" by (simp add: base_def push_bit_eq_mult)
  show "unat (ucast (ucast x - ucast y - b + push_bit 64 1 :: u128) :: u64) = unat x + base - unat y - unat b"
    if "unat x < unat y + unat b"
  proof -
    have "ucast x - ucast y - b + push_bit 64 1 = (word_of_int (k + int base) :: u128)"
      by (simp only: d one wi_hom_add)
    moreover have "0 \<le> k + int base" "k + int base < int base" using k that unfolding k_def by linarith+
    ultimately have "unat (ucast (ucast x - ucast y - b + push_bit 64 1 :: u128) :: u64) = nat (k + int base)"
      by (simp only: ucast_wi_u64 unat_wi_u64)
    then show ?thesis using that unfolding k_def by linarith
  qed
  show "unat (ucast (ucast x - ucast y - b :: u128) :: u64) = unat x - unat y - unat b"
    if "\<not> unat x < unat y + unat b"
  proof -
    have "0 \<le> k" using that unfolding k_def by linarith
    then have "unat (ucast (ucast x - ucast y - b :: u128) :: u64) = nat k" using k by (simp only: d ucast_wi_u64 unat_wi_u64)
    then show ?thesis using that unfolding k_def by linarith
  qed
qed

text \<open>After \<open>n\<close> steps the output and the borrow together are the difference.\<close>

lemma limbs_val_update:
  "i < length xs \<Longrightarrow> xs ! i = 0 \<Longrightarrow> limbs_val (xs[i := x]) = limbs_val xs + base ^ i * unat x"
proof (induction xs arbitrary: i)
  case (Cons y xs)
  then show ?case by (cases i) (simp_all add: algebra_simps)
qed simp

lemma sub_loop:
  assumes "n \<le> length xs"
  shows "\<exists>out b. for_range n (sub_step xs ys) (replicate (length xs) 0, 0) = (out, b) \<and> length out = length xs \<and>
     (b = 0 \<or> b = 1) \<and> drop n out = replicate (length xs - n) 0 \<and>
     limbs_val out + limbs_val ys mod base ^ n = limbs_val xs mod base ^ n + base ^ n * unat b"
  using assms
proof (induction n)
  case (Suc n)
  then obtain out b where IH: "for_range n (sub_step xs ys) (replicate (length xs) 0, 0) = (out, b)" "length out = length xs"
    "b = 0 \<or> b = 1" "drop n out = replicate (length xs - n) 0"
    "limbs_val out + limbs_val ys mod base ^ n = limbs_val xs mod base ^ n + base ^ n * unat b"
    by auto
  let ?x = "xs ! n" and ?y = "limb_or_zero ys n"
  define d where "d = (if unat ?x < unat ?y + unat b then (ucast (ucast ?x - ucast ?y - b + push_bit 64 1 :: u128) :: u64)
    else ucast (ucast ?x - ucast ?y - b :: u128))"
  define b' :: u128 where "b' = (if unat ?x < unat ?y + unat b then 1 else 0)"
  have step: "sub_step xs ys n (out, b) = (out[n := d], b')"
    using sub_digit(1) [OF IH(3), of ?x ?y] by (simp add: sub_step_def Let_def d_def b'_def)
  have x: "unat ?x = limbs_val xs div base ^ n mod base"
    using Suc.prems limb_or_zero_val [of xs n] by (simp add: limb_or_zero_def vec_get_def)
  have lt: "unat ?y < base" "unat b \<le> 1" using IH(3) unat_less_base by auto
  have digit: "unat d + unat ?y + unat b = unat ?x + base * unat b'"
  proof (cases "unat ?x < unat ?y + unat b")
    case True
    then have "unat d = unat ?x + base - unat ?y - unat b" using sub_digit(2) [OF IH(3) True] by (simp only: d_def if_True)
    then show ?thesis using lt True by (simp add: b'_def)
  next
    case False
    then have "unat d = unat ?x - unat ?y - unat b" using sub_digit(3) [OF IH(3) False] by (simp only: d_def if_False)
    then show ?thesis using False by (simp add: b'_def)
  qed
  have "out ! n = 0"
    using IH(2,4) Suc.prems by (metis Suc_le_lessD diff_is_0_eq hd_drop_conv_nth hd_replicate linorder_not_le replicate_0 zero_less_diff not_gr_zero)
  then have "limbs_val (out[n := d]) + limbs_val ys mod base ^ Suc n
      = limbs_val out + limbs_val ys mod base ^ n + base ^ n * (unat d + unat ?y)"
    using IH(2) Suc.prems by (simp only: limbs_val_update mod_base_pow_Suc limb_or_zero_val) (simp add: algebra_simps)
  also have "\<dots> = limbs_val xs mod base ^ n + base ^ n * (unat d + unat ?y + unat b)"
    by (simp add: IH(5) algebra_simps)
  also have "\<dots> = limbs_val xs mod base ^ Suc n + base ^ Suc n * unat b'"
    by (simp only: digit mod_base_pow_Suc x) (simp add: algebra_simps)
  finally have v: "limbs_val (out[n := d]) + limbs_val ys mod base ^ Suc n = limbs_val xs mod base ^ Suc n + base ^ Suc n * unat b'" .
  have "drop (Suc n) (out[n := d]) = drop 1 (drop n out)" by simp
  then have "drop (Suc n) (out[n := d]) = replicate (length xs - Suc n) 0" by (simp only: IH(4)) simp
  then show ?case using IH(1,2) step v by (auto simp: b'_def)
qed simp

theorem big_sub_val [simp]:
  assumes "big_val b \<le> big_val a"
  shows "big_val (big_sub a b) = big_val a - big_val b"
proof -
  let ?n = "length (limbs a)"
  obtain out c where l: "for_range ?n (sub_step (limbs a) (limbs b)) (replicate ?n 0, 0) = (out, c)" "length out = ?n"
    "c = 0 \<or> c = 1" "limbs_val out + limbs_val (limbs b) mod base ^ ?n = limbs_val (limbs a) mod base ^ ?n + base ^ ?n * unat c"
    using sub_loop [of ?n "limbs a" "limbs b"] by auto
  have a: "big_val a < base ^ ?n" using limbs_val_less [of "limbs a"] by (simp add: big_val_def)
  then have "limbs_val out + big_val b = big_val a + base ^ ?n * unat c"
    using l(4) assms by (simp add: big_val_def)
  moreover have "limbs_val out < base ^ ?n" using limbs_val_less [of out] l(2) by simp
  ultimately have "limbs_val out = big_val a - big_val b" using l(3) assms a by auto
  then show ?thesis using l(1) by (simp add: big_sub_def Let_def) (simp add: big_val_def)
qed

lemma big_sub_normal [simp]: "normal (big_sub a b)"
  by (simp add: big_sub_def Let_def split_beta)

section \<open>Multiplication\<close>

lemma limbs_val_upd:
  "i < length xs \<Longrightarrow> limbs_val (xs[i := x]) + base ^ i * unat (xs ! i) = limbs_val xs + base ^ i * unat x"
proof (induction xs arbitrary: i)
  case (Cons y xs)
  show ?case
  proof (cases i)
    case (Suc k)
    then have "base * (limbs_val (xs[k := x]) + base ^ k * unat (xs ! k)) = base * (limbs_val xs + base ^ k * unat x)"
      using Cons by simp
    then show ?thesis using Suc by (simp add: algebra_simps)
  qed simp
qed simp

lemma unat_muladd:
  fixes x y z c :: u128
  assumes "unat x < base" "unat y < base" "unat z < base" "unat c < base"
  shows "unat (x * y + z + c) = unat x * unat y + unat z + unat c"
    and "unat (x * y + z + c) div base < base"
proof -
  have le: "unat x \<le> base - 1" "unat y \<le> base - 1" "unat z \<le> base - 1" "unat c \<le> base - 1" using assms by auto
  have "unat x * unat y + unat z + unat c \<le> (base - 1) * (base - 1) + (base - 1) + (base - 1)"
    using le by (intro add_mono mult_le_mono) auto
  also have "\<dots> < base * base" by (simp add: base_def)
  finally have lt: "unat x * unat y + unat z + unat c < base * base" .
  then have "unat (x * y) = unat x * unat y" by (intro unat_u128_mult) simp
  moreover from this lt have "unat (x * y + z) = unat x * unat y + unat z" by (subst unat_u128_add) auto
  ultimately show eq: "unat (x * y + z + c) = unat x * unat y + unat z + unat c"
    using lt by (subst unat_u128_add) auto
  show "unat (x * y + z + c) div base < base" using lt by (simp only: eq less_mult_imp_div_less)
qed

lemma mul_loop:
  assumes "n \<le> length ys" "i + length ys \<le> length out" "unat ai < base"
  shows "\<exists>out' c. for_range n (mul_step ys ai i) (out, 0) = (out', c) \<and> length out' = length out \<and> unat c < base \<and>
     (\<forall>k \<ge> i + n. out' ! k = out ! k) \<and>
     limbs_val out' + base ^ (i + n) * unat c = limbs_val out + base ^ i * (unat ai * (limbs_val ys mod base ^ n))"
  using assms(1)
proof (induction n)
  case (Suc n)
  then obtain out' c where IH: "for_range n (mul_step ys ai i) (out, 0) = (out', c)" "length out' = length out" "unat c < base"
    "\<forall>k \<ge> i + n. out' ! k = out ! k"
    "limbs_val out' + base ^ (i + n) * unat c = limbs_val out + base ^ i * (unat ai * (limbs_val ys mod base ^ n))"
    by auto
  define p :: u128 where "p = ai * ucast (ys ! n) + ucast (out' ! (i + n)) + c"
  let ?o = "out'[i + n := ucast p]"
  have p: "unat p = unat ai * unat (ys ! n) + unat (out' ! (i + n)) + unat c" "unat p div base < base"
    using unat_muladd [of ai "ucast (ys ! n)" "ucast (out' ! (i + n))" c] assms(3) IH(3) by (simp_all add: p_def unat_less_base)
  have i: "i + n < length out'" using Suc.prems assms(2) IH(2) by simp
  have y: "unat (ys ! n) = limbs_val ys div base ^ n mod base"
    using Suc.prems limb_or_zero_val [of ys n] by (simp add: limb_or_zero_def vec_get_def)
  have "limbs_val ?o + base ^ (i + Suc n) * (unat p div base) + base ^ (i + n) * unat (out' ! (i + n))
      = limbs_val out' + base ^ (i + n) * unat p"
    using limbs_val_upd [OF i, of "ucast p"] scaled_split [of "i + n" "unat p"] by (simp only: unat_ucast_u64 add_Suc_right)
  also have "\<dots> = limbs_val out' + base ^ (i + n) * unat c + base ^ (i + n) * (unat ai * unat (ys ! n)) + base ^ (i + n) * unat (out' ! (i + n))"
    by (simp add: p(1) algebra_simps)
  also have "limbs_val out' + base ^ (i + n) * unat c + base ^ (i + n) * (unat ai * unat (ys ! n))
      = limbs_val out + base ^ i * (unat ai * (limbs_val ys mod base ^ Suc n))"
    by (simp only: IH(5) mod_base_pow_Suc y) (simp add: algebra_simps power_add)
  finally have "limbs_val ?o + base ^ (i + Suc n) * (unat p div base) = limbs_val out + base ^ i * (unat ai * (limbs_val ys mod base ^ Suc n))"
    by simp
  moreover have "mul_step ys ai i n (out', c) = (?o, drop_bit 64 p)" by (simp add: mul_step_def Let_def p_def)
  ultimately show ?case using IH(1,2,4) p(2) by auto
qed (simp add: base_def)

lemma mul_rows:
  assumes "n \<le> length xs"
  shows "let out = for_range n (mul_row xs ys) (replicate (length xs + length ys) 0) in
     length out = length xs + length ys \<and> (\<forall>k. n + length ys \<le> k \<and> k < length out \<longrightarrow> out ! k = 0) \<and>
     limbs_val out = limbs_val xs mod base ^ n * limbs_val ys"
  using assms
proof (induction n)
  case (Suc n)
  define out where "out = for_range n (mul_row xs ys) (replicate (length xs + length ys) 0)"
  from Suc have IH: "length out = length xs + length ys" "\<forall>k. n + length ys \<le> k \<and> k < length out \<longrightarrow> out ! k = 0"
    "limbs_val out = limbs_val xs mod base ^ n * limbs_val ys"
    by (auto simp: out_def Let_def)
  have x: "unat (xs ! n) = limbs_val xs div base ^ n mod base"
    using Suc.prems limb_or_zero_val [of xs n] by (simp add: limb_or_zero_def vec_get_def)
  obtain o' c where l: "for_range (length ys) (mul_step ys (ucast (xs ! n)) n) (out, 0) = (o', c)" "length o' = length out" "unat c < base"
    "\<forall>k \<ge> n + length ys. o' ! k = out ! k"
    "limbs_val o' + base ^ (n + length ys) * unat c = limbs_val out + base ^ n * (unat (xs ! n) * (limbs_val ys mod base ^ length ys))"
    using mul_loop [of "length ys" ys n out "ucast (xs ! n)"] IH(1) Suc.prems unat_less_base by auto
  have k: "n + length ys < length o'" using Suc.prems IH(1) l(2) by simp
  then have "o' ! (n + length ys) = 0" using l(2,4) IH(2) by simp
  then have "limbs_val (o'[n + length ys := ucast c]) = limbs_val out + base ^ n * (unat (xs ! n) * limbs_val ys)"
    using limbs_val_update [OF k] l(3,5) limbs_val_less [of ys] by simp
  also have "\<dots> = limbs_val xs mod base ^ Suc n * limbs_val ys"
    by (simp only: IH(3) mod_base_pow_Suc x) (simp add: algebra_simps)
  moreover have "mul_row xs ys n out = o'[n + length ys := ucast c]" using l(1) by (simp add: mul_row_def)
  ultimately show ?case using IH(1,2) l(2,4) by (auto simp: out_def Let_def nth_list_update)
qed simp

theorem mul_full_val [simp]: "big_val (mul_full a b) = big_val a * big_val b"
proof (cases "is_zero a \<or> is_zero b")
  case True
  then show ?thesis by (auto simp: mul_full_def is_zero_val)
next
  case False
  then show ?thesis using mul_rows [of "length (limbs a)" "limbs a" "limbs b"] limbs_val_less [of "limbs a"]
    by (simp add: mul_full_def Let_def) (simp add: big_val_def)
qed

lemma mul_full_normal [simp]: "normal (mul_full a b)"
  by (simp add: mul_full_def Let_def)

section \<open>Comparison\<close>

lemma compare_simps [simp]:
  "compare x y = Less \<longleftrightarrow> x < y" "compare x y = Equal \<longleftrightarrow> x = y" "compare x y = Greater \<longleftrightarrow> y < x"
  by (auto simp: compare_def)

lemma rposition_None: "rposition P xs = None \<longleftrightarrow> (\<forall>x \<in> set xs. \<not> P x)"
  by (simp add: rposition_def position_None)

lemma rposition_Some:
  assumes "rposition P xs = Some i"
  shows "i < length xs" "P (xs ! i)" "\<And>j. i < j \<Longrightarrow> j < length xs \<Longrightarrow> \<not> P (xs ! j)"
proof -
  obtain k where k: "position P (rev xs) = Some k" "i = length xs - 1 - k" using assms by (auto simp: rposition_def)
  note ps = position_Some [OF k(1)]
  show i: "i < length xs" using ps k(2) by auto
  show "P (xs ! i)" using ps k(2) by (auto simp: rev_nth)
  show "\<not> P (xs ! j)" if "i < j" "j < length xs" for j
  proof -
    have "length xs - 1 - j < k" using that k(2) ps by auto
    moreover from this ps have "\<not> P (rev xs ! (length xs - 1 - j))" by blast
    ultimately show ?thesis using that by (simp add: rev_nth)
  qed
qed

lemma rposition_val:
  assumes "rposition (\<lambda>l. l \<noteq> 0) xs = Some i"
  shows "limbs_val xs = limbs_val (take (Suc i) xs)" "base ^ i \<le> limbs_val xs" "limbs_val xs < base ^ Suc i"
proof -
  note r = rposition_Some [OF assms]
  have "\<forall>x \<in> set (drop (Suc i) xs). x = 0" using r(3) by (auto simp: in_set_conv_nth)
  then have "limbs_val (drop (Suc i) xs) = 0" by (simp add: limbs_val_zero_iff)
  then show v: "limbs_val xs = limbs_val (take (Suc i) xs)" using limbs_val_take_drop [of xs "Suc i"] by simp
  have "0 < unat (xs ! i)" using r(2) by (simp add: unat_gt_0)
  then show "base ^ i \<le> limbs_val xs" using v limbs_val_take_Suc [OF r(1)] by (simp add: trans_le_add2)
  show "limbs_val xs < base ^ Suc i" using limbs_val_less [of "take (Suc i) xs"] r(1) v by (simp add: min_absorb2 Suc_le_eq del: power_Suc)
qed

lemma cmp_from_val:
  "n \<le> length xs \<Longrightarrow> n \<le> length ys \<Longrightarrow> cmp_from xs ys (rev [0..<n]) = compare (limbs_val (take n xs)) (limbs_val (take n ys))"
proof (induction n)
  case (Suc n)
  have lt: "limbs_val (take n zs) < base ^ n" for zs by (simp add: limbs_val_take)
  have split: "limbs_val (take (Suc n) zs) = limbs_val (take n zs) + base ^ n * unat (zs ! n)" if "n < length zs" for zs
    using limbs_val_take_Suc [OF that] .
  have less: "limbs_val (take (Suc n) xs') < limbs_val (take (Suc n) ys')"
    if "n < length xs'" "n < length ys'" "xs' ! n < ys' ! n" for xs' ys'
  proof -
    have "Suc (unat (xs' ! n)) \<le> unat (ys' ! n)" using that(3) by (simp add: word_less_nat_alt)
    then have "base ^ n * Suc (unat (xs' ! n)) \<le> base ^ n * unat (ys' ! n)" by (rule mult_le_mono2)
    then show ?thesis using lt [of xs'] that(1,2) by (simp add: split)
  qed
  have n: "n < length xs" "n < length ys" using Suc.prems by auto
  consider "xs ! n < ys ! n" | "ys ! n < xs ! n" | "xs ! n = ys ! n" by force
  then show ?case
  proof cases
    case 1
    then show ?thesis using less [OF n 1] by (simp add: compare_def)
  next
    case 2
    then have "\<not> xs ! n < ys ! n" "xs ! n \<noteq> ys ! n" by auto
    then show ?thesis using less [OF n(2,1) 2] by (simp add: compare_def)
  next
    case 3
    then show ?thesis using Suc n by (simp add: compare_def split)
  qed
qed (simp add: compare_def)

theorem big_cmp_val [simp]: "big_cmp a b = compare (big_val a) (big_val b)"
proof -
  have zero: "rposition (\<lambda>l. l \<noteq> 0) (limbs x) = None \<longleftrightarrow> big_val x = 0" for x
    by (auto simp: rposition_None big_val_def limbs_val_zero_iff)
  show ?thesis
  proof (cases "big_val a = 0 \<or> big_val b = 0")
    case True
    show ?thesis
      by (cases "rposition (\<lambda>l. l \<noteq> 0) (limbs a)"; cases "rposition (\<lambda>l. l \<noteq> 0) (limbs b)";
          insert True zero [of a] zero [of b]; simp only: big_cmp_def option.case prod.case option.distinct simp_thms compare_def;
          simp)
  next
    case False
    then obtain i j where ij: "rposition (\<lambda>l. l \<noteq> 0) (limbs a) = Some i" "rposition (\<lambda>l. l \<noteq> 0) (limbs b) = Some j"
      using zero [of a] zero [of b] by auto
    note A = rposition_val [OF ij(1)] and B = rposition_val [OF ij(2)]
    show ?thesis
    proof (cases "i = j")
      case True
      then show ?thesis using ij A(1) B(1) rposition_Some(1) [OF ij(1)] rposition_Some(1) [OF ij(2)]
        by (simp add: big_cmp_def cmp_from_val Suc_le_eq big_val_def del: upt_Suc)
    next
      case False
      have less: "x < y" if "x < base ^ Suc k" "base ^ l \<le> y" "k < l" for x y k l
      proof -
        have "base ^ Suc k \<le> base ^ l" using that(3) by (intro power_increasing) (simp_all add: Suc_le_eq)
        then show ?thesis using that(1,2) by linarith
      qed
      have "i < j \<Longrightarrow> big_val a < big_val b" "j < i \<Longrightarrow> big_val b < big_val a"
        using less [OF A(3) B(2)] less [OF B(3) A(2)] by (simp_all add: big_val_def)
      then have "compare i j = compare (big_val a) (big_val b)" using False by (cases "i < j") (simp_all add: compare_def)
      then show ?thesis using False ij by (simp add: big_cmp_def)
    qed
  qed
qed

section \<open>Shifts\<close>

lemma unat_push_u64: "s \<le> 64 \<Longrightarrow> unat (push_bit s (l :: u64)) = unat l mod 2 ^ (64 - s) * 2 ^ s"
proof -
  assume s: "s \<le> 64"
  then have "(2 :: nat) ^ 64 = 2 ^ (64 - s) * 2 ^ s" by (simp add: power_add [symmetric])
  then have "unat (push_bit s l) = unat l * 2 ^ s mod (2 ^ (64 - s) * 2 ^ s)"
    by (subst unsigned_push_bit_eq) (simp add: take_bit_eq_mod push_bit_eq_mult)
  then show ?thesis by (simp only: mod_mult_mult2)
qed

lemma unat_drop_u64: "unat (drop_bit s (l :: u64)) = unat l div 2 ^ s"
  by (subst unat_drop_bit_eq) (simp only: drop_bit_eq_div)

lemma shl_digit:
  fixes l c :: u64
  assumes "s < 64" "unat c < 2 ^ s"
  shows "unat (push_bit s l OR c) + base * unat (drop_bit (64 - s) l) = unat l * 2 ^ s + unat c"
    and "unat (drop_bit (64 - s) l) < 2 ^ s"
proof -
  have "push_bit s l AND c = 0"
    by (rule bit_word_eqI) (auto simp: bit_simps dest: less_pow_bit [OF assms(2)])
  then have o: "unat (push_bit s l OR c) = unat l mod 2 ^ (64 - s) * 2 ^ s + unat c"
    using assms(1) by (simp add: unat_or_disjoint unat_push_u64)
  have b: "base = 2 ^ (64 - s) * 2 ^ s" using assms(1) by (simp add: base_def power_add [symmetric])
  have "unat l = unat l mod 2 ^ (64 - s) + 2 ^ (64 - s) * (unat l div 2 ^ (64 - s))" by simp
  then have "unat l * 2 ^ s = (unat l mod 2 ^ (64 - s) + 2 ^ (64 - s) * (unat l div 2 ^ (64 - s))) * 2 ^ s" by (rule arg_cong)
  then show "unat (push_bit s l OR c) + base * unat (drop_bit (64 - s) l) = unat l * 2 ^ s + unat c"
    by (simp only: o unat_drop_u64 b distrib_right) (simp only: ac_simps)
  show "unat (drop_bit (64 - s) l) < 2 ^ s"
    using unat_less_base [of l] by (simp only: unat_drop_u64 b mult.commute [of "2 ^ (64 - s)"] less_mult_imp_div_less)
qed

lemma shl_loop:
  assumes "s < 64" "unat c < 2 ^ s"
  shows "\<exists>out c'. foldl (\<lambda>(out, carry) l. (out @ [push_bit s l OR carry], drop_bit (64 - s) l)) (out0, c) xs = (out0 @ out, c') \<and>
     length out = length xs \<and> limbs_val out + base ^ length xs * unat c' = limbs_val xs * 2 ^ s + unat c"
  using assms(2)
proof (induction xs arbitrary: out0 c)
  case (Cons l xs)
  note d = shl_digit [OF assms(1) Cons.prems, of l]
  obtain out c' where IH: "foldl (\<lambda>(out, carry) l. (out @ [push_bit s l OR carry], drop_bit (64 - s) l)) (out0 @ [push_bit s l OR c], drop_bit (64 - s) l) xs
      = ((out0 @ [push_bit s l OR c]) @ out, c')" "length out = length xs"
    "limbs_val out + base ^ length xs * unat c' = limbs_val xs * 2 ^ s + unat (drop_bit (64 - s) l)"
    using Cons.IH [OF d(2)] by blast
  have "limbs_val ((push_bit s l OR c) # out) + base ^ length (l # xs) * unat c'
      = unat (push_bit s l OR c) + base * (limbs_val out + base ^ length xs * unat c')"
    by (simp add: algebra_simps)
  also have "\<dots> = limbs_val (l # xs) * 2 ^ s + unat c"
    unfolding IH(3) using d(1) by (simp add: algebra_simps)
  finally show ?case using IH(1,2) by auto
qed auto

lemma shl_limbs_val:
  assumes "s < 64"
  shows "limbs_val (shl_limbs xs s) = limbs_val xs * 2 ^ s"
    and "length (shl_limbs xs s) = (if limbs_val xs * 2 ^ s < base ^ length xs then length xs else Suc (length xs))"
proof -
  have "limbs_val (shl_limbs xs s) = limbs_val xs * 2 ^ s \<and>
    length (shl_limbs xs s) = (if limbs_val xs * 2 ^ s < base ^ length xs then length xs else Suc (length xs))"
  proof (cases "s = 0")
    case True
    then show ?thesis using limbs_val_less [of xs] by (simp add: shl_limbs_def)
  next
    case False
    obtain out c where l: "foldl (\<lambda>(out, carry) l. (out @ [push_bit s l OR carry], drop_bit (64 - s) l)) ([], 0) xs = (out, c)"
      "length out = length xs" "limbs_val out + base ^ length xs * unat c = limbs_val xs * 2 ^ s"
      using shl_loop [OF assms, of 0 "[]" xs] by auto
    have lt: "limbs_val out < base ^ length xs" using limbs_val_less [of out] l(2) by simp
    have "limbs_val xs * 2 ^ s < base ^ length xs \<longleftrightarrow> c = 0"
    proof (cases "c = 0")
      case False
      then have "0 < unat c" by (simp add: unat_gt_0)
      then have "base ^ length xs * 1 \<le> base ^ length xs * unat c" by (intro mult_le_mono2) simp
      then show ?thesis using l(3) False by linarith
    qed (use l(3) lt in simp)
    moreover have "c = 0 \<longrightarrow> limbs_val out = limbs_val xs * 2 ^ s"
      using l(3) by (metis add_0_right mult_0_right unsigned_0)
    ultimately show ?thesis using l(1-3) False by (auto simp: shl_limbs_def)
  qed
  then show "limbs_val (shl_limbs xs s) = limbs_val xs * 2 ^ s"
    "length (shl_limbs xs s) = (if limbs_val xs * 2 ^ s < base ^ length xs then length xs else Suc (length xs))"
    by blast+
qed

lemma shr_digit:
  fixes l w :: u64
  assumes "s < 64"
  shows "unat (drop_bit s l OR push_bit (64 - s) w) = unat l div 2 ^ s + unat w mod 2 ^ s * 2 ^ (64 - s)"
proof -
  have "drop_bit s l AND push_bit (64 - s) w = 0"
    by (rule bit_word_eqI) (use assms in \<open>auto simp: bit_simps dest: bit_imp_le_length\<close>)
  then show ?thesis using assms by (simp add: unat_or_disjoint unat_push_u64 unat_drop_u64)
qed

lemma shr_step:
  assumes "s < 64" "r = V mod 2 ^ s"
  shows "(l + base * V) div 2 ^ s = l div 2 ^ s + r * 2 ^ (64 - s) + base * (V div 2 ^ s)"
    and "(l + base * V) mod 2 ^ s = l mod 2 ^ s"
proof -
  have b: "base = 2 ^ s * 2 ^ (64 - s)" using assms(1) by (simp add: base_def power_add [symmetric])
  have "base * V = 2 ^ s * (2 ^ (64 - s) * (V mod 2 ^ s + 2 ^ s * (V div 2 ^ s)))"
    by (simp add: b algebra_simps)
  also have "\<dots> = 2 ^ s * (r * 2 ^ (64 - s) + base * (V div 2 ^ s))"
    by (simp only: assms(2) b distrib_left) (simp add: algebra_simps)
  finally have "base * V = 2 ^ s * (r * 2 ^ (64 - s) + base * (V div 2 ^ s))" .
  then show "(l + base * V) div 2 ^ s = l div 2 ^ s + r * 2 ^ (64 - s) + base * (V div 2 ^ s)" by simp
  show "(l + base * V) mod 2 ^ s = l mod 2 ^ s" by (simp add: b mult.assoc)
qed

lemma shr_limbs_val:
  assumes "s < 64"
  shows "limbs_val (shr_limbs xs s) = limbs_val xs div 2 ^ s" "length (shr_limbs xs s) = length xs"
proof -
  let ?f = "\<lambda>i (out, carry :: u64). (out[i := drop_bit s (xs ! i) OR carry], push_bit (64 - s) (xs ! i))"
  have inv: "length (fst (for_range_rev (length xs) ?f (replicate (length xs) 0, 0))) = length xs \<and>
    (\<exists>w. snd (for_range_rev (length xs) ?f (replicate (length xs) 0, 0)) = push_bit (64 - s) w \<and>
       unat w mod 2 ^ s = limbs_val (drop 0 xs) mod 2 ^ s) \<and>
    limbs_val (drop 0 (fst (for_range_rev (length xs) ?f (replicate (length xs) 0, 0)))) = limbs_val (drop 0 xs) div 2 ^ s"
  proof (rule for_range_rev_inv [where P = "\<lambda>i st. length (fst st) = length xs \<and>
      (\<exists>w. snd st = push_bit (64 - s) w \<and> unat w mod 2 ^ s = limbs_val (drop i xs) mod 2 ^ s) \<and>
      limbs_val (drop i (fst st)) = limbs_val (drop i xs) div 2 ^ s"], goal_cases)
    case 1
    show ?case by (auto intro: exI [of _ 0])
  next
    case (2 i st)
    then obtain out w where st: "st = (out, push_bit (64 - s) w)" "length out = length xs"
      "unat w mod 2 ^ s = limbs_val (drop (Suc i) xs) mod 2 ^ s"
      "limbs_val (drop (Suc i) out) = limbs_val (drop (Suc i) xs) div 2 ^ s"
      by (cases st) auto
    have xs: "drop i xs = xs ! i # drop (Suc i) xs" using 2(1) by (simp add: Cons_nth_drop_Suc)
    have "drop i (out[i := d]) = d # drop (Suc i) out" for d
      using 2(1) st(2) by (simp add: Cons_nth_drop_Suc [symmetric])
    then show ?case using st by (simp add: xs shr_digit [OF assms] shr_step [OF assms st(3)]) (auto simp: shr_step [OF assms refl])
  qed
  show "limbs_val (shr_limbs xs s) = limbs_val xs div 2 ^ s" "length (shr_limbs xs s) = length xs"
    using inv by (auto simp: shr_limbs_def)
qed

section \<open>Byte strings and bits\<close>

definition be_val :: "bytes \<Rightarrow> nat" where
  "be_val bs = foldl (\<lambda>n b. n * 256 + unat b) 0 bs"

lemma be_val_append: "be_val (xs @ ys) = be_val xs * 256 ^ length ys + be_val ys"
proof (induction ys rule: rev_induct)
  case (snoc y ys)
  have "be_val (xs @ ys @ [y]) = be_val (xs @ ys) * 256 + unat y" by (simp add: be_val_def)
  moreover have "be_val (ys @ [y]) = be_val ys * 256 + unat y" by (simp add: be_val_def)
  ultimately show ?case using snoc by (simp add: algebra_simps)
qed (simp add: be_val_def)

lemma be_val_simps [simp]: "be_val [] = 0" "be_val [b] = unat b"
  by (simp_all add: be_val_def)

lemma be_val_less: "be_val bs < 256 ^ length bs"
proof (induction bs rule: rev_induct)
  case (snoc b bs)
  then have "(be_val bs + 1) * 256 \<le> 256 ^ length bs * 256" by (intro mult_le_mono1) simp
  then show ?case using unat_u8_less [of b] by (simp add: be_val_append algebra_simps del: unat_u8_less)
qed simp

lemma u64_from_be_val: "length bs \<le> 8 \<Longrightarrow> unat (u64_from_be bs) = be_val bs"
proof (induction bs rule: rev_induct)
  case (snoc b bs)
  then have IH: "unat (u64_from_be bs) = be_val bs" by simp
  have "u64_from_be (bs @ [b]) = push_bit 8 (u64_from_be bs) OR ucast b" by (simp add: u64_from_be_def)
  moreover have "push_bit 8 (u64_from_be bs) AND ucast b = 0"
    by (rule bit_word_eqI) (auto simp: bit_simps dest: bit_imp_le_length)
  moreover have "be_val bs < 2 ^ 56"
  proof -
    have "be_val bs < 256 ^ length bs" by (rule be_val_less)
    also have "\<dots> \<le> 256 ^ 7" using snoc.prems by (intro power_increasing) auto
    finally show ?thesis by simp
  qed
  moreover have "unat (ucast b :: u64) = unat b"
    using less_trans [OF unat_u8_less [of b], of "2 ^ 64"] by (simp add: unsigned_ucast_eq take_bit_nat_eq_self)
  ultimately show ?case
    by (simp add: unat_or_disjoint unat_push_u64 IH be_val_append)
qed (simp add: u64_from_be_def)

lemma pad_be_spec: "be_val (pad_be bs) = be_val bs \<and> 8 dvd length (pad_be bs)"
proof (induction bs rule: pad_be.induct)
  case (1 bs)
  then show ?case
    using be_val_append [of "[0]" bs] by (cases "length bs mod 8 = 0") (simp_all add: pad_be.simps [of bs] dvd_eq_mod_eq_0)
qed

lemma limbs_of_be:
  "length bs = 8 * n \<Longrightarrow>
   limbs_val (map (\<lambda>i. u64_from_be (take 8 (drop (length bs - (i + 1) * 8) bs))) [0..<n]) = be_val bs"
proof (induction n arbitrary: bs)
  case (Suc n)
  define hd8 where "hd8 = take 8 bs"
  define tl8 where "tl8 = drop 8 bs"
  have bs: "bs = hd8 @ tl8" "length hd8 = 8" "length tl8 = 8 * n" using Suc.prems by (simp_all add: hd8_def tl8_def)
  have "take 8 (drop (length bs - (i + 1) * 8) bs) = take 8 (drop (length tl8 - (i + 1) * 8) tl8)" if "i < n" for i
  proof -
    have "length bs - (i + 1) * 8 = 8 + (length tl8 - (i + 1) * 8)" using that Suc.prems bs(3) by simp
    then show ?thesis unfolding tl8_def by (metis add.commute drop_drop)
  qed
  then have "map (\<lambda>i. u64_from_be (take 8 (drop (length bs - (i + 1) * 8) bs))) [0..<n]
      = map (\<lambda>i. u64_from_be (take 8 (drop (length tl8 - (i + 1) * 8) tl8))) [0..<n]" by simp
  then have "limbs_val (map (\<lambda>i. u64_from_be (take 8 (drop (length bs - (i + 1) * 8) bs))) [0..<Suc n])
      = be_val tl8 + base ^ n * be_val hd8"
    using Suc.IH [OF bs(3)] Suc.prems bs(2,3)
    by (simp only: upt_Suc_append [OF le0] map_append list.map limbs_val_append length_map length_upt) (simp add: bs(1) u64_from_be_val)
  also have "base ^ n = 256 ^ length tl8" by (simp only: bs(3) base_pow_bytes)
  finally show ?case using bs(1) be_val_append [of hd8 tl8] by (simp add: mult.commute)
qed simp

theorem from_be_bytes_val [simp]: "big_val (from_be_bytes bs) = be_val bs"
proof -
  obtain n where "length (pad_be bs) = 8 * n" using pad_be_spec [of bs] by auto
  then have "big_val (from_be_bytes bs) = be_val (pad_be bs)"
    using limbs_of_be [of "pad_be bs" n] by (simp add: from_be_bytes_def Let_def) (simp add: big_val_def)
  then show ?thesis using pad_be_spec [of bs] by simp
qed

lemma from_be_bytes_normal [simp]: "normal (from_be_bytes bs)"
  by (simp add: from_be_bytes_def Let_def)

lemma be_val_inj: "length xs = length ys \<Longrightarrow> be_val xs = be_val ys \<Longrightarrow> xs = ys"
proof (induction xs ys rule: rev_induct2)
  case (4 x xs y ys)
  have d: "(n * 256 + unat b) div 256 = n" "(n * 256 + unat b) mod 256 = unat b" for n and b :: u8
    using unat_u8_less [of b] by simp_all
  have "be_val xs * 256 + unat x = be_val ys * 256 + unat y"
    using 4(3) by (simp add: be_val_append)
  then have "be_val xs = be_val ys \<and> x = y" using d [of "be_val xs" x] d [of "be_val ys" y] by (metis unat_inj_iff)
  then show ?case using 4 by simp
qed simp_all

lemma bit_unat_div: "bit (w :: u64) n \<longleftrightarrow> odd (unat w div 2 ^ n)"
proof -
  have "bit w n = bit (unat w) n" by (auto simp: bit_unsigned_iff dest: bit_imp_possible_bit)
  then show ?thesis by (simp only: bit_iff_odd)
qed

lemma top_bits_val:
  assumes "w \<noteq> 0" "unat w < 2 ^ n"
  shows "unat w < 2 ^ top_bits n w \<and> 0 < top_bits n w \<and> top_bits n w \<le> n \<and> 2 ^ (top_bits n w - 1) \<le> unat w"
  using assms(2)
proof (induction n)
  case 0
  then show ?case using assms(1) by (simp add: unat_eq_0)
next
  case (Suc n)
  show ?case
  proof (cases "bit w n")
    case True
    then have "unat w div 2 ^ n \<noteq> 0" by (metis bit_unat_div even_zero)
    then have "2 ^ n \<le> unat w" by (metis div_less linorder_not_le)
    then show ?thesis using True Suc.prems by simp
  next
    case False
    have "unat w div 2 ^ n < 2" using Suc.prems by (simp add: less_mult_imp_div_less)
    then have "unat w div 2 ^ n = 0" using False by (auto simp: bit_unat_div less_2_cases_iff)
    then have "unat w < 2 ^ n" by (simp add: div_eq_0_iff)
    then show ?thesis using Suc.IH False by simp
  qed
qed

lemma leading_zeros_val:
  assumes "w \<noteq> 0"
  shows "unat w < 2 ^ (64 - leading_zeros w)" "2 ^ (63 - leading_zeros w) \<le> unat w" "leading_zeros w < 64"
proof -
  have "unat w < 2 ^ 64" using unat_less_base [of w] by (simp add: base_def)
  note t = top_bits_val [OF assms this]
  then have "64 - leading_zeros w = top_bits 64 w" "63 - leading_zeros w = top_bits 64 w - 1"
    unfolding leading_zeros_def by linarith+
  then show "unat w < 2 ^ (64 - leading_zeros w)" "2 ^ (63 - leading_zeros w) \<le> unat w" using t by (simp_all only:)
  show "leading_zeros w < 64" using t unfolding leading_zeros_def by linarith
qed

lemma bit_len_val:
  "big_val a < 2 ^ bit_len a" "big_val a \<noteq> 0 \<Longrightarrow> 0 < bit_len a \<and> 2 ^ (bit_len a - 1) \<le> big_val a"
  "bit_len a = 0 \<longleftrightarrow> big_val a = 0"
proof -
  have "if big_val a = 0 then bit_len a = 0
    else big_val a < 2 ^ bit_len a \<and> 0 < bit_len a \<and> 2 ^ (bit_len a - 1) \<le> big_val a"
  proof (cases "rposition (\<lambda>l. l \<noteq> 0) (limbs a)")
    case None
    then have "big_val a = 0" by (auto simp: rposition_None big_val_def limbs_val_zero_iff)
    then show ?thesis using None by (simp add: bit_len_def)
  next
    case (Some i)
    note r = rposition_Some [OF Some] and v = rposition_val [OF Some]
    let ?w = "limbs a ! i"
    note z = leading_zeros_val [OF r(2)]
    have val: "big_val a = limbs_val (take i (limbs a)) + base ^ i * unat ?w"
      using v(1) limbs_val_take_Suc [OF r(1)] by (simp add: big_val_def)
    have lo: "limbs_val (take i (limbs a)) < base ^ i" by (simp add: limbs_val_take)
    have len: "bit_len a = i * 64 + (64 - leading_zeros ?w)" using Some by (simp add: bit_len_def)
    have b: "base ^ i = 2 ^ (i * 64)" by (simp only: base_pow mult.commute)
    have "big_val a < base ^ i * Suc (unat ?w)" using val lo by simp
    also have "\<dots> \<le> base ^ i * 2 ^ (64 - leading_zeros ?w)" using z(1) by (intro mult_le_mono2) (simp only: Suc_le_eq)
    finally have "big_val a < 2 ^ bit_len a" by (simp only: len b power_add)
    moreover have "bit_len a - 1 = i * 64 + (63 - leading_zeros ?w)" using z(3) unfolding len by linarith
    then have "2 ^ (bit_len a - 1) = base ^ i * 2 ^ (63 - leading_zeros ?w)" by (simp only: b power_add)
    moreover have "base ^ i * 2 ^ (63 - leading_zeros ?w) \<le> big_val a"
      unfolding val using mult_le_mono2 [OF z(2), of "base ^ i"] by linarith
    moreover have "0 < bit_len a" using z(3) unfolding len by linarith
    moreover have "0 < base ^ i" by simp
    then have "big_val a \<noteq> 0" using v(2) unfolding big_val_def by linarith
    ultimately show ?thesis by simp
  qed
  then show "big_val a < 2 ^ bit_len a" "big_val a \<noteq> 0 \<Longrightarrow> 0 < bit_len a \<and> 2 ^ (bit_len a - 1) \<le> big_val a"
    "bit_len a = 0 \<longleftrightarrow> big_val a = 0"
    by (auto split: if_splits)
qed

lemma big_bit_val: "big_bit a i \<longleftrightarrow> odd (big_val a div 2 ^ i)"
proof -
  have one: "drop_bit off l AND 1 = 1 \<longleftrightarrow> bit l off" for l :: u64 and off
    by (simp add: and_one_eq odd_iff_mod_2_eq_one [symmetric] bit_iff_odd_drop_bit)
  have "big_bit a i \<longleftrightarrow> bit (limb_or_zero (limbs a) (i div 64)) (i mod 64)"
    by (simp add: big_bit_def limb_or_zero_def Let_def one split: option.split)
  also have "\<dots> \<longleftrightarrow> odd (big_val a div base ^ (i div 64) mod base div 2 ^ (i mod 64))"
    by (simp add: bit_unat_div limb_or_zero_val big_val_def)
  also have "\<dots> \<longleftrightarrow> bit (big_val a div base ^ (i div 64) mod base) (i mod 64)"
    by (simp add: bit_iff_odd)
  also have "\<dots> \<longleftrightarrow> bit (take_bit 64 (drop_bit (i div 64 * 64) (big_val a))) (i mod 64)"
    by (simp only: take_bit_eq_mod drop_bit_eq_div base_pow mult.commute) (simp only: base_def)
  also have "\<dots> \<longleftrightarrow> bit (big_val a) i"
    by (simp add: bit_take_bit_iff bit_drop_bit_eq)
  finally show ?thesis by (simp add: bit_iff_odd)
qed

section \<open>Writing byte strings\<close>

text \<open>\<open>be_of len n\<close> is \<open>n\<close> as \<open>len\<close> big-endian bytes, \<open>copy_limb\<close> fills in eight of them.\<close>

definition be_of :: "nat \<Rightarrow> nat \<Rightarrow> bytes" where
  "be_of len n = map (\<lambda>k. of_nat (n div 256 ^ (len - 1 - k))) [0..<len]"

lemma length_be_of [simp]: "length (be_of len n) = len"
  by (simp add: be_of_def)

lemma be_of_0 [simp]: "be_of 0 n = []"
  by (simp add: be_of_def)

lemma be_of_Suc: "be_of (Suc len) n = be_of len (n div 256) @ [of_nat n]"
proof -
  have "n div 256 ^ (len - k) = n div 256 div 256 ^ (len - 1 - k)" if "k < len" for k
  proof -
    have "len - k = Suc (len - 1 - k)" using that by simp
    then show ?thesis by (simp only: power_Suc div_mult2_eq)
  qed
  then show ?thesis by (simp add: be_of_def)
qed

lemma be_val_be_of [simp]: "be_val (be_of len n) = n mod 256 ^ len"
proof (induction len arbitrary: n)
  case (Suc len)
  then show ?case using mod_mult2_eq [of n 256 "256 ^ len"]
    by (simp add: be_of_Suc be_val_append unat_of_nat)
qed simp

lemma be_of_unique: "length bs = len \<Longrightarrow> be_val bs = n mod 256 ^ len \<Longrightarrow> be_of len n = bs"
  by (rule be_val_inj) simp_all

lemma be_of_append: "be_of (m + len) n = be_of m (n div 256 ^ len) @ be_of len n"
  using mod_mult2_eq [of n "256 ^ len" "256 ^ m"]
  by (intro be_of_unique) (simp_all add: be_val_append power_add mult.commute)

lemma be_of_mod: "n mod 256 ^ len = m mod 256 ^ len \<Longrightarrow> be_of len n = be_of len m"
  by (intro be_of_unique) simp_all

lemma u64_to_be_eq: "u64_to_be w = be_of 8 (unat w)"
proof -
  have "ucast (drop_bit (8 * (7 - k)) w) = (of_nat (unat w div 256 ^ (7 - k)) :: u8)" for k
  proof -
    have "(256 :: nat) ^ (7 - k) = 2 ^ (8 * (7 - k))" by (simp only: power_mult) simp
    then show ?thesis unfolding word_unat_eq_iff
      by (simp add: unsigned_ucast_eq unat_drop_u64 take_bit_eq_mod unat_of_nat)
  qed
  then show ?thesis by (simp add: u64_to_be_def be_of_def)
qed

lemma copy_limb_eq:
  assumes "length out = min len (8 * i)"
  shows "copy_limb len i lm (replicate (len - 8 * i) 0 @ out) =
    replicate (len - 8 * (i + 1)) 0 @ be_of (len - 8 * i - (len - 8 * (i + 1))) (unat lm) @ out"
proof -
  let ?t = "len - 8 * i - (len - 8 * (i + 1))"
  have t: "?t \<le> 8" by simp
  then have "be_of 8 (unat lm) = be_of (8 - ?t) (unat lm div 256 ^ ?t) @ be_of ?t (unat lm)"
    using be_of_append [of "8 - ?t" ?t "unat lm"] by simp
  then have "drop (8 - ?t) (u64_to_be lm) = be_of ?t (unat lm)" by (simp add: u64_to_be_eq)
  then show ?thesis by (simp add: copy_limb_def Let_def mult.commute min_def)
qed

lemma to_be_loop_val:
  "length out = min len (8 * i) \<Longrightarrow>
   to_be_loop len i (replicate (len - 8 * i) 0 @ out) ls = be_of (len - 8 * i) (limbs_val ls) @ out"
proof (induction ls arbitrary: i out)
  case Nil
  have "be_of (len - 8 * i) 0 = replicate (len - 8 * i) 0" by (intro nth_equalityI) (simp_all add: be_of_def)
  then show ?case by simp
next
  case (Cons lm ls)
  note c = copy_limb_eq [OF Cons.prems, of lm]
  have b: "base = 256 ^ 8" by (simp add: base_def)
  show ?case
  proof (cases "i * 8 + 8 > len")
    case True
    let ?e = "len - 8 * i"
    have e: "?e \<le> 8" "len - 8 * (i + 1) = 0" using True by auto
    then have split: "base = 256 ^ ?e * 256 ^ (8 - ?e)" by (simp add: b power_add [symmetric])
    have "be_of ?e (limbs_val (lm # ls)) = be_of ?e (unat lm)"
      by (intro be_of_mod) (simp only: limbs_val.simps split mult.assoc mod_mult_self2)
    then show ?thesis using True c e by (simp add: mult.commute)
  next
    case False
    let ?s = "len - 8 * (i + 1)"
    have s: "len - 8 * i = ?s + 8" "len - 8 * i - ?s = 8" using False by auto
    have "to_be_loop len (i + 1) (replicate ?s 0 @ be_of 8 (unat lm) @ out) ls = be_of ?s (limbs_val ls) @ be_of 8 (unat lm) @ out"
      using Cons.prems False by (intro Cons.IH) auto
    moreover have "be_of (?s + 8) (limbs_val (lm # ls)) = be_of ?s (limbs_val ls) @ be_of 8 (unat lm)"
    proof -
      have "limbs_val (lm # ls) div 256 ^ 8 = limbs_val ls" "limbs_val (lm # ls) mod 256 ^ 8 = unat lm mod 256 ^ 8"
        unfolding b [symmetric] using unat_less_base [of lm] by simp_all
      then show ?thesis using be_of_append [of ?s 8 "limbs_val (lm # ls)"] be_of_mod [of "limbs_val (lm # ls)" 8 "unat lm"] by simp
    qed
    ultimately show ?thesis using False c s by (simp add: mult.commute)
  qed
qed

theorem to_be_bytes_eq: "to_be_bytes a len = be_of len (big_val a)"
  using to_be_loop_val [of "[]" len 0 "limbs a"] by (simp add: to_be_bytes_def big_val_def)

theorem be_bytes_roundtrip: "to_be_bytes (from_be_bytes bs) (length bs) = bs"
  using be_val_less [of bs] by (simp add: to_be_bytes_eq be_of_unique)

section \<open>Properties\<close>

text \<open>Big integers are natural numbers. Addition, subtraction of a smaller number, multiplication,
  comparison and the bit operations act on limb vectors as on the numbers they stand for, whatever
  carries and borrows occur.\<close>

theorem big_arithmetic_exact:
  "big_val (big_add a b) = big_val a + big_val b \<and>
   (big_val b \<le> big_val a \<longrightarrow> big_val (big_sub a b) = big_val a - big_val b) \<and>
   big_val (mul_full a b) = big_val a * big_val b \<and>
   big_cmp a b = compare (big_val a) (big_val b) \<and>
   big_bit a i = odd (big_val a div 2 ^ i) \<and>
   normal (big_add a b) \<and> normal (big_sub a b) \<and> normal (mul_full a b)"
  by (simp add: big_bit_val)

theorem big_arithmetic_exact_witness:
  "big_val (big_sub \<lparr>limbs = [0, 1]\<rparr> \<lparr>limbs = [1]\<rparr>) = 18446744073709551615"
  using big_arithmetic_exact [of "\<lparr>limbs = [0, 1]\<rparr>" "\<lparr>limbs = [1]\<rparr>" 0] by (simp add: big_val_def base_def)

text \<open>Byte strings. Reading a big-endian byte string of any length and writing it back at that length
  gives the same bytes; at a shorter length the low bytes are written, at a longer one zeros in front.\<close>

theorem be_bytes_exact:
  "to_be_bytes (from_be_bytes bs) (length bs) = bs \<and>
   length (to_be_bytes a len) = len \<and> be_val (to_be_bytes a len) = big_val a mod 256 ^ len"
  using be_bytes_roundtrip [of bs] by (simp add: to_be_bytes_eq)

end
