(* ===== verification/Big_Div.thy ===== *)
theory Big_Div
  imports Big_Uint "HOL-Library.Monad_Syntax"
begin

text \<open>
  Division of big integers: \<open>divmod\<close> of \<^verbatim>\<open>crates/cv_crypto/src/bigint.rs\<close>, Knuth's Algorithm D in
  base \<open>2 ^ 64\<close>. A computation that panics (division by zero, an index out of range, the debug
  assertion on the length) is \<open>None\<close>; the \<open>i128\<close> values are 128-bit words read as signed.
\<close>

section \<open>Definitions\<close>

definition vec_set :: "'a list \<Rightarrow> nat \<Rightarrow> 'a \<Rightarrow> 'a list option" where
  "vec_set xs i x = (if i < length xs then Some (xs[i := x]) else None)"

primrec try_fold :: "('i \<Rightarrow> 's \<Rightarrow> 's option) \<Rightarrow> 'i list \<Rightarrow> 's \<Rightarrow> 's option" where
  "try_fold f [] s = Some s"
| "try_fold f (i # is) s = Option.bind (f i s) (try_fold f is)"

text \<open>D3: the estimate of the quotient limb is lowered until the test on the second limb holds or
  the remainder leaves one limb.\<close>

partial_function (option) correct_qhat :: "u128 \<Rightarrow> u128 \<Rightarrow> u128 \<Rightarrow> u128 \<Rightarrow> u128 \<Rightarrow> u128 option" where
  "correct_qhat v1 v2 u2 qhat rhat =
     (if qhat \<ge> push_bit 64 1 \<or> qhat * v2 > push_bit 64 rhat + u2
      then let qhat = qhat - 1; rhat = rhat + v1
           in if rhat < push_bit 64 1 then correct_qhat v1 v2 u2 qhat rhat else Some qhat
      else Some qhat)"

text \<open>D4: subtract \<open>qhat * v\<close> with a signed running borrow.\<close>

definition mulsub_step :: "u64 list \<Rightarrow> u128 \<Rightarrow> nat \<Rightarrow> nat \<Rightarrow> u64 list \<times> u128 \<Rightarrow> (u64 list \<times> u128) option" where
  "mulsub_step vn qhat j i = (\<lambda>(un, k). do {
     v \<leftarrow> vec_get vn i;
     u \<leftarrow> vec_get un (j + i);
     let p = qhat * ucast v;
     let t = ucast u + k - (p AND mask 64);
     un \<leftarrow> vec_set un (j + i) (ucast t);
     Some (un, signed_drop_bit 64 t - drop_bit 64 p) })"

text \<open>D6: add the divisor back.\<close>

definition addback_step :: "u64 list \<Rightarrow> nat \<Rightarrow> nat \<Rightarrow> u64 list \<times> u128 \<Rightarrow> (u64 list \<times> u128) option" where
  "addback_step vn j i = (\<lambda>(un, carry). do {
     u \<leftarrow> vec_get un (j + i);
     v \<leftarrow> vec_get vn i;
     let s = ucast u + ucast v + carry;
     un \<leftarrow> vec_set un (j + i) (ucast s);
     Some (un, drop_bit 64 s) })"

definition addback :: "u64 list \<Rightarrow> nat \<Rightarrow> nat \<Rightarrow> u64 list \<Rightarrow> u64 list option" where
  "addback vn n j un = do {
     (un, carry) \<leftarrow> try_fold (addback_step vn j) [0..<n] (un, 0);
     top \<leftarrow> vec_get un (j + n);
     vec_set un (j + n) (ucast (ucast top + carry :: u128)) }"

definition estimate :: "u64 list \<Rightarrow> u64 list \<Rightarrow> nat \<Rightarrow> nat \<Rightarrow> u128 option" where
  "estimate vn un n j = do {
     u0 \<leftarrow> vec_get un (j + n);
     u1 \<leftarrow> vec_get un (j + n - 1);
     u2 \<leftarrow> vec_get un (j + n - 2);
     v1 \<leftarrow> vec_get vn (n - 1);
     v2 \<leftarrow> vec_get vn (n - 2);
     let num = push_bit 64 (ucast u0) OR ucast u1;
     correct_qhat (ucast v1) (ucast v2) (ucast u2) (num div ucast v1) (num mod ucast v1) }"

definition div_step :: "u64 list \<Rightarrow> nat \<Rightarrow> nat \<Rightarrow> u64 list \<times> u64 list \<Rightarrow> (u64 list \<times> u64 list) option" where
  "div_step vn n j = (\<lambda>(un, q). do {
     qhat \<leftarrow> estimate vn un n j;
     (un, k) \<leftarrow> try_fold (mulsub_step vn qhat j) [0..<n] (un, 0);
     top \<leftarrow> vec_get un (j + n);
     let t = ucast top + k;
     un \<leftarrow> vec_set un (j + n) (ucast t);
     let qj = (ucast qhat :: u64);
     (un, qj) \<leftarrow> (if t <s 0 then do { un \<leftarrow> addback vn n j un; Some (un, qj - 1) } else Some (un, qj));
     q \<leftarrow> vec_set q j qj;
     Some (un, q) })"

definition short_step :: "u64 list \<Rightarrow> u128 \<Rightarrow> nat \<Rightarrow> u64 list \<times> u128 \<Rightarrow> u64 list \<times> u128" where
  "short_step us d i = (\<lambda>(q, r).
     let cur = push_bit 64 r OR ucast (us ! i)
     in (q[i := ucast (cur div d)], cur mod d))"

definition sig_limbs :: "biguint \<Rightarrow> nat" where
  "sig_limbs a = (case rposition (\<lambda>l. l \<noteq> 0) (limbs a) of None \<Rightarrow> 0 | Some i \<Rightarrow> i + 1)"

definition big_divmod :: "biguint \<Rightarrow> biguint \<Rightarrow> (biguint \<times> biguint) option" where
  "big_divmod u v =
     (let n = sig_limbs v; un_full = sig_limbs u in
      if n = 0 then None
      else if big_cmp u v = Less then Some (big_zero, u)
      else if n = 1 then
        let (q, r) = for_range_rev un_full (short_step (limbs u) (ucast (limbs v ! 0))) (replicate un_full 0, 0)
        in Some (big_normalize \<lparr>limbs = q\<rparr>, big_normalize \<lparr>limbs = [ucast r]\<rparr>)
      else
        let m = un_full - n;
            shift = leading_zeros (limbs v ! (n - 1));
            vn = shl_limbs (take n (limbs v)) shift;
            un = shl_limbs (take un_full (limbs u)) shift;
            un = (if length un = un_full then un @ [0] else un)
        in if length un \<noteq> m + n + 1 then None
           else do {
             (un, q) \<leftarrow> try_fold (div_step vn n) (rev [0..<m + 1]) (un, replicate (m + 1) 0);
             Some (big_normalize \<lparr>limbs = q\<rparr>, big_normalize \<lparr>limbs = shr_limbs (take n un) shift\<rparr>) })"

section \<open>Loops that may fail\<close>

lemma try_fold_append [simp]: "try_fold f (xs @ ys) s = Option.bind (try_fold f xs s) (try_fold f ys)"
  by (induction xs arbitrary: s) (auto split: bind_split)

lemma try_fold_up:
  assumes "P 0 s" "\<And>i s. i < n \<Longrightarrow> P i s \<Longrightarrow> \<exists>s'. f i s = Some s' \<and> P (Suc i) s'"
  shows "\<exists>s'. try_fold f [0..<n] s = Some s' \<and> P n s'"
  using assms
proof (induction n)
  case (Suc n)
  then obtain s' where "try_fold f [0..<n] s = Some s'" "P n s'" by force
  then show ?case using Suc.prems(2) [of n s'] by auto
qed simp

lemma try_fold_down:
  assumes "P n s" "\<And>i s. i < n \<Longrightarrow> P (Suc i) s \<Longrightarrow> \<exists>s'. f i s = Some s' \<and> P i s'"
  shows "\<exists>s'. try_fold f (rev [0..<n]) s = Some s' \<and> P 0 s'"
  using assms
proof (induction n arbitrary: s)
  case (Suc n)
  obtain s' where "f n s = Some s'" "P n s'" using Suc.prems by blast
  then show ?case using Suc.IH [of s'] Suc.prems(2) by auto
qed simp

section \<open>The estimate\<close>

lemma one_le_base [simp]: "Suc 0 \<le> base" by (simp add: base_def)

text \<open>Knuth's theorem: with \<open>W < B V\<close> and the leading limb of \<open>V\<close> at least half the base, the corrected
  estimate is the quotient limb or one more, and fits in a limb.\<close>

lemma qhat_upper:
  fixes W V :: nat
  assumes "qhat * (V div c) \<le> W div c" "qhat < B" "0 < c" "B * c \<le> V"
  shows "qhat \<le> W div V + 1"
proof (cases "qhat = 0")
  case False
  have V: "0 < V" using assms by (metis gr_zeroI le_zero_eq mult_eq_0_iff not_less_zero less_nat_zero_code)
  have "V < (V div c + 1) * c" using assms(3) by (metis add.commute dividend_less_times_div mult.commute mult_Suc plus_1_eq_Suc)
  then have "qhat * V \<le> qhat * ((V div c + 1) * c)" by (intro mult_le_mono2) simp
  also have "\<dots> = qhat * (V div c) * c + qhat * c" by (simp add: algebra_simps)
  also have "\<dots> \<le> W div c * c + qhat * c" using assms(1) by (intro add_mono mult_le_mono1) auto
  also have "\<dots> < W + V"
  proof -
    have "W div c * c \<le> W" by simp
    moreover have "qhat * c < B * c" using assms(2,3) by simp
    ultimately show ?thesis using assms(4) by linarith
  qed
  finally have "(qhat - 1) * V < W" using False by (cases qhat) (simp_all)
  then have "qhat - 1 \<le> W div V" using V by (simp add: less_eq_div_iff_mult_less_eq)
  then show ?thesis by simp
qed simp

lemma qhat_lower:
  fixes W V :: nat
  assumes "W div c < qhat * (V div c)" "0 < c"
  shows "W div V < qhat"
proof -
  have "W < (W div c + 1) * c" using assms(2) by (metis add.commute dividend_less_times_div mult.commute mult_Suc plus_1_eq_Suc)
  also have "\<dots> \<le> qhat * (V div c) * c" using assms(1) by (intro mult_le_mono1) simp
  also have "\<dots> \<le> qhat * V" by (simp add: mult.assoc)
  finally have "W < qhat * V" .
  then show ?thesis by (simp add: less_mult_imp_div_less)
qed


lemma unat_push64: "unat (r :: u128) < base \<Longrightarrow> unat (push_bit 64 r) = unat r * base"
proof -
  assume "unat r < base"
  then have "unat r * 2 ^ 64 < 2 ^ 128" by (simp add: base_def)
  then show ?thesis by (subst unsigned_push_bit_eq) (simp add: take_bit_nat_eq_self push_bit_eq_mult base_def)
qed

lemma base_word: "unat (push_bit 64 1 :: u128) = base"
  by (simp add: base_def)

lemma base_le: "push_bit 64 1 \<le> (w :: u128) \<longleftrightarrow> base \<le> unat w"
  by (simp only: word_le_nat_alt base_word)

lemma correct_qhat_spec:
  fixes v1 v2 u2 qhat rhat :: u128
  defines "V2 \<equiv> unat v1 * base + unat v2"
  assumes v: "0 < unat v1" "unat v1 < base" "unat v2 < base" "unat u2 < base"
    and num: "num < (unat v1 + 1) * base" "Q < base" "\<And>x. num * base + unat u2 < x * V2 \<Longrightarrow> Q < x"
  shows "unat rhat < base \<Longrightarrow> unat qhat * unat v1 + unat rhat = num \<Longrightarrow> Q \<le> unat qhat \<Longrightarrow>
    \<exists>r. correct_qhat v1 v2 u2 qhat rhat = Some r \<and> Q \<le> unat r \<and> unat r < base \<and> unat r * V2 \<le> num * base + unat u2"
proof (induction "base - unat rhat" arbitrary: qhat rhat rule: less_induct)
  case less
  let ?q = "unat qhat" and ?r = "unat rhat"
  have test: "qhat * v2 > push_bit 64 rhat + u2 \<longleftrightarrow> ?q * unat v2 > ?r * base + unat u2" if "?q < base"
  proof -
    have "?q * unat v2 < base * base" using that v(3) by (intro mult_strict_mono) auto
    then have "unat (qhat * v2) = ?q * unat v2" by (rule unat_u128_mult)
    moreover have "?r * base + unat u2 < base * base"
      using v(4) less.prems(1) mult_le_mono1 [of "Suc ?r" base base] by simp
    then have "unat (push_bit 64 rhat + u2) = ?r * base + unat u2"
      using less.prems(1) by (simp add: unat_u128_add unat_push64)
    ultimately show ?thesis by (simp add: word_less_nat_alt)
  qed
  have val: "?q * V2 = ?q * unat v1 * base + ?q * unat v2" by (simp add: V2_def algebra_simps)
  have num': "num * base = ?q * unat v1 * base + ?r * base" by (simp add: less.prems(2) [symmetric] algebra_simps)
  show ?case
  proof (cases "qhat \<ge> push_bit 64 1 \<or> qhat * v2 > push_bit 64 rhat + u2")
    case True
    have Q: "Q < ?q"
    proof (cases "base \<le> ?q")
      case False
      then have "qhat * v2 > push_bit 64 rhat + u2" using True base_le by blast
      then show ?thesis using test False num(3) [of ?q] val num' by simp
    qed (use num(2) in simp)
    let ?q' = "qhat - 1" and ?r' = "rhat + v1"
    have q': "unat ?q' = ?q - 1" using Q by (metis unat_minus_one not_less_zero unat_0)
    have r': "unat ?r' = ?r + unat v1"
    proof -
      have "?r + unat v1 < base + base" using v(2) less.prems(1) by simp
      also have "\<dots> \<le> base * base" by (simp add: base_def)
      finally show ?thesis by (rule unat_u128_add)
    qed
    have sum: "unat ?q' * unat v1 + unat ?r' = num"
    proof -
      obtain k where "?q = Suc k" using Q by (cases ?q) auto
      then show ?thesis using less.prems(2) by (simp add: q' r')
    qed
    show ?thesis
    proof (cases "unat ?r' < base")
      case rec: True
      then have "?r' < push_bit 64 1" by (simp only: word_less_nat_alt base_word)
      moreover have "base - unat ?r' < base - ?r" using rec r' v(1) less.prems(1) by simp
      ultimately show ?thesis
        using less.hyps [of ?r' ?q'] rec sum Q q' True by (subst correct_qhat.simps) (simp add: Let_def)
    next
      case False
      then have "\<not> ?r' < push_bit 64 1" by (simp only: word_less_nat_alt base_word not_False_eq_True)
      then have res: "correct_qhat v1 v2 u2 qhat rhat = Some ?q'" using True by (subst correct_qhat.simps) (simp add: Let_def)
      have lt: "unat ?q' < base"
      proof (rule ccontr)
        assume "\<not> unat ?q' < base"
        then have "base * unat v1 \<le> unat ?q' * unat v1" by simp
        moreover have "(unat v1 + 1) * base = base * unat v1 + base" by (simp add: algebra_simps)
        ultimately show False using sum False num(1) by linarith
      qed
      have "unat ?q' * unat v2 \<le> base * base" using lt v(3) by (intro mult_le_mono) auto
      also have "\<dots> \<le> unat ?r' * base" using False by (intro mult_le_mono1) simp
      finally have "unat ?q' * V2 \<le> (unat ?q' * unat v1 + unat ?r') * base" by (simp add: V2_def algebra_simps)
      then have "unat ?q' * V2 \<le> num * base + unat u2" unfolding sum by simp
      then show ?thesis using res lt Q by (auto simp: q')
    qed
  next
    case False
    then have "?q < base" using base_le [of qhat] by auto
    moreover from this False have "\<not> ?q * unat v2 > ?r * base + unat u2" using test by simp
    ultimately show ?thesis using False less.prems(3) val num' by (subst correct_qhat.simps) simp
  qed
qed

section \<open>Multiply and subtract\<close>

lemma vec_get_in [simp]: "i < length xs \<Longrightarrow> vec_get xs i = Some (xs ! i)"
  by (simp add: vec_get_def)

lemma vec_set_in [simp]: "i < length xs \<Longrightarrow> vec_set xs i x = Some (xs[i := x])"
  by (simp add: vec_set_def)

lemma limb_digit: "i < length xs \<Longrightarrow> unat (xs ! i) = limbs_val xs div base ^ i mod base"
  using limb_or_zero_val [of xs i] by (simp add: limb_or_zero_def)

lemma wi_of_unat: "(w :: u128) = word_of_int (int (unat w))"
  by simp

lemma wi_of_sint: "(w :: u128) = word_of_int (sint w)"
  by simp

text \<open>One step on signed values: the digit is the remainder and the borrow the floor of the quotient.\<close>

lemma mulsub_digit:
  fixes u v :: u64 and k qhat :: u128
  assumes "- int base \<le> sint k" "sint k \<le> 0" "unat qhat < base"
  defines "p \<equiv> qhat * ucast v" and "t \<equiv> ucast u + k - ((qhat * ucast v) AND mask 64)"
  shows "int (unat (ucast t :: u64)) + int base * sint (signed_drop_bit 64 t - drop_bit 64 p)
      = int (unat u) + sint k - int (unat qhat * unat v)"
    and "- int base \<le> sint (signed_drop_bit 64 t - drop_bit 64 p)" "sint (signed_drop_bit 64 t - drop_bit 64 p) \<le> 0"
proof -
  let ?P = "unat qhat * unat v" and ?B = "int base"
  have vb: "unat v < base" by (rule unat_less_base)
  have "unat qhat * unat v \<le> (base - 1) * (base - 1)" using assms(3) vb by (intro mult_le_mono) auto
  moreover have "(base - 1) * (base - 1) < base * (base - 1)" by (simp add: base_def)
  ultimately have P: "?P < base * (base - 1)" by linarith
  then have P2: "?P < base * base" by (metis diff_le_self le_less_trans less_le_trans mult_le_mono2 not_le order_less_imp_le)
  have p: "unat p = ?P" unfolding p_def using P2 by (subst unat_u128_mult) simp_all
  have lo: "unat (p AND mask 64) = ?P mod base"
  proof -
    have "p AND mask 64 = take_bit 64 p" by (simp only: take_bit_eq_mask)
    then have "unat (p AND mask 64) = take_bit 64 (unat p)" by (simp only: unsigned_take_bit_eq)
    then show ?thesis by (simp only: take_bit_eq_mod p base_def)
  qed
  have hi: "unat (drop_bit 64 p) = ?P div base" using p by simp
  have hilt: "?P div base < base - 1" using P by (simp add: less_mult_imp_div_less mult.commute)
  define T where "T = int (unat u) + sint k - int (?P mod base)"
  have ub: "unat u < base" by (rule unat_less_base)
  have mb: "?P mod base < base" by simp
  have T: "- (2 * ?B) < T" "T < ?B" using assms(1,2) ub mb unfolding T_def by linarith+
  have t: "t = word_of_int T"
    unfolding t_def p_def [symmetric] T_def
    by (simp only: wi_hom_add [symmetric] wi_hom_sub [symmetric] ucast_u64_wi lo [symmetric] wi_of_unat [symmetric] wi_of_sint [symmetric])
  have bs: "?B * 4 \<le> 2 ^ 127" "0 < ?B" by (simp_all add: base_def)
  have st: "sint t = T" unfolding t using T bs by (intro sint_wi) linarith+
  have dt: "sint (signed_drop_bit 64 t) = T div ?B"
    by (subst sint_signed_drop_bit_eq) (simp add: st drop_bit_eq_div base_def)
  have td: "- 2 \<le> T div ?B" "T div ?B \<le> 0"
  proof -
    have "- 2 * ?B \<le> T" using T by linarith
    then have "(- 2 * ?B) div ?B \<le> T div ?B" using bs(2) by (intro zdiv_mono1) auto
    moreover have "(- 2 * ?B) div ?B = - 2" using bs(2) nonzero_mult_div_cancel_right [of ?B "- 2"] by simp
    ultimately show "- 2 \<le> T div ?B" by simp
    show "T div ?B \<le> 0"
    proof (cases "T < 0")
      case True
      then show ?thesis using div_neg_pos_less0 [OF True bs(2)] by simp
    next
      case False
      then show ?thesis using T(2) div_pos_pos_trivial [of T ?B] by simp
    qed
  qed
  define K where "K = T div ?B - int (?P div base)"
  have K: "- ?B \<le> K" "K \<le> 0" using td hilt unfolding K_def by linarith+
  have "signed_drop_bit 64 t - drop_bit 64 p = word_of_int K"
    unfolding K_def by (simp only: wi_hom_sub [symmetric] dt [symmetric] hi [symmetric] wi_of_unat [symmetric] wi_of_sint [symmetric])
  moreover have "sint (word_of_int K :: u128) = K" using K bs by (intro sint_wi) linarith+
  ultimately have sk: "sint (signed_drop_bit 64 t - drop_bit 64 p) = K" by simp
  then show "- int base \<le> sint (signed_drop_bit 64 t - drop_bit 64 p)" "sint (signed_drop_bit 64 t - drop_bit 64 p) \<le> 0"
    using K by simp_all
  have "int (unat (ucast t :: u64)) = T mod ?B"
    unfolding t ucast_wi_u64 by (simp add: uint_word_of_int base_def)
  then have "int (unat (ucast t :: u64)) + ?B * K = T mod ?B + ?B * (T div ?B) - ?B * int (?P div base)"
    by (simp add: K_def algebra_simps)
  also have "\<dots> = T - ?B * int (?P div base)" by simp
  also have "\<dots> = int (unat u) + sint k - (int (?P mod base) + ?B * int (?P div base))" by (simp add: T_def)
  also have "int (?P mod base) + ?B * int (?P div base) = int ?P" by (metis digit_split of_nat_add of_nat_mult)
  finally show "int (unat (ucast t :: u64)) + ?B * sint (signed_drop_bit 64 t - drop_bit 64 p)
      = int (unat u) + sint k - int (unat qhat * unat v)" by (simp only: sk)
qed

lemma mulsub_loop:
  assumes "j + length vn \<le> length un" "unat qhat < base" "n \<le> length vn"
  shows "\<exists>un' k. try_fold (mulsub_step vn qhat j) [0..<n] (un, 0) = Some (un', k) \<and> length un' = length un \<and>
     - int base \<le> sint k \<and> sint k \<le> 0 \<and> (\<forall>l. l < j \<or> j + n \<le> l \<longrightarrow> un' ! l = un ! l) \<and>
     int (limbs_val un') + int (base ^ (j + n)) * sint k = int (limbs_val un) - int (base ^ j * unat qhat * (limbs_val vn mod base ^ n))"
  using assms(3)
proof (induction n)
  case (Suc n)
  then obtain un' k where IH: "try_fold (mulsub_step vn qhat j) [0..<n] (un, 0) = Some (un', k)" "length un' = length un"
    "- int base \<le> sint k" "sint k \<le> 0" "\<forall>l. l < j \<or> j + n \<le> l \<longrightarrow> un' ! l = un ! l"
    "int (limbs_val un') + int (base ^ (j + n)) * sint k = int (limbs_val un) - int (base ^ j * unat qhat * (limbs_val vn mod base ^ n))"
    by auto
  have jn: "j + n < length un'" "n < length vn" using Suc.prems assms(1) IH(2) by simp_all
  define t where "t = ucast (un' ! (j + n)) + k - ((qhat * ucast (vn ! n)) AND mask 64)"
  define k' where "k' = signed_drop_bit 64 t - drop_bit 64 (qhat * ucast (vn ! n))"
  let ?o = "un'[j + n := ucast t]"
  note d = mulsub_digit [OF IH(3,4) assms(2), of "un' ! (j + n)" "vn ! n", folded t_def, folded k'_def]
  have step: "mulsub_step vn qhat j n (un', k) = Some (?o, k')"
    using jn by (simp add: mulsub_step_def Let_def t_def k'_def)
  have upd: "int (limbs_val ?o) + int (base ^ (j + n)) * int (unat (un' ! (j + n))) = int (limbs_val un') + int (base ^ (j + n)) * int (unat (ucast t :: u64))"
    using arg_cong [OF limbs_val_upd [OF jn(1), of "ucast t"], of int] by (simp only: of_nat_add of_nat_mult)
  have "int (limbs_val ?o) + int (base ^ (j + Suc n)) * sint k'
      = int (limbs_val ?o) + int (base ^ (j + n)) * (int base * sint k')" by (simp add: algebra_simps)
  also have "\<dots> = int (limbs_val un') + int (base ^ (j + n)) * (sint k - int (unat qhat * unat (vn ! n)))"
    using upd arg_cong [OF d(1), of "\<lambda>z. int (base ^ (j + n)) * z"] by (simp only: distrib_left right_diff_distrib)
  also have "\<dots> = int (limbs_val un) - int (base ^ j * unat qhat * (limbs_val vn mod base ^ n)) - int (base ^ (j + n) * (unat qhat * unat (vn ! n)))"
    using IH(6) by (simp only: right_diff_distrib of_nat_mult) 
  also have "\<dots> = int (limbs_val un) - int (base ^ j * unat qhat * (limbs_val vn mod base ^ Suc n))"
    by (simp only: mod_base_pow_Suc limb_digit [OF jn(2), symmetric]) (simp add: power_add algebra_simps)
  finally show ?case using step IH(1,2,5) d(2,3) by auto
qed (simp add: base_def)

section \<open>Adding back\<close>

lemma addback_loop:
  assumes "j + length vn \<le> length un" "n \<le> length vn"
  shows "\<exists>un' c. try_fold (addback_step vn j) [0..<n] (un, 0) = Some (un', c) \<and> length un' = length un \<and> unat c \<le> 1 \<and>
     (\<forall>l. l < j \<or> j + n \<le> l \<longrightarrow> un' ! l = un ! l) \<and>
     limbs_val un' + base ^ (j + n) * unat c = limbs_val un + base ^ j * (limbs_val vn mod base ^ n)"
  using assms(2)
proof (induction n)
  case (Suc n)
  then obtain un' c where IH: "try_fold (addback_step vn j) [0..<n] (un, 0) = Some (un', c)" "length un' = length un" "unat c \<le> 1"
    "\<forall>l. l < j \<or> j + n \<le> l \<longrightarrow> un' ! l = un ! l"
    "limbs_val un' + base ^ (j + n) * unat c = limbs_val un + base ^ j * (limbs_val vn mod base ^ n)"
    by auto
  have jn: "j + n < length un'" "n < length vn" using Suc.prems assms(1) IH(2) by simp_all
  let ?u = "un' ! (j + n)" and ?v = "vn ! n"
  define s :: u128 where "s = ucast ?u + ucast ?v + c"
  let ?o = "un'[j + n := ucast s]"
  have lt: "unat ?u < base" "unat ?v < base" by (rule unat_less_base)+
  have small: "unat ?u + unat ?v + unat c < base + base" using lt IH(3) by linarith
  have big: "base + base \<le> base * base" by (simp add: base_def)
  have s: "unat s = unat ?u + unat ?v + unat c" using small big by (simp add: s_def unat_u128_add)
  have c: "unat s div base \<le> 1"
  proof -
    have "unat s div base < 2" using small s by (simp add: less_mult_imp_div_less)
    then show ?thesis by simp
  qed
  have "limbs_val ?o + base ^ (j + Suc n) * (unat s div base) + base ^ (j + n) * unat ?u = limbs_val un' + base ^ (j + n) * unat s"
    using limbs_val_upd [OF jn(1), of "ucast s"] scaled_split [of "j + n" "unat s"] by (simp only: unat_ucast_u64 add_Suc_right)
  also have "\<dots> = limbs_val un' + base ^ (j + n) * unat c + base ^ (j + n) * unat ?v + base ^ (j + n) * unat ?u"
    by (simp add: s algebra_simps)
  also have "limbs_val un' + base ^ (j + n) * unat c + base ^ (j + n) * unat ?v = limbs_val un + base ^ j * (limbs_val vn mod base ^ Suc n)"
    by (simp only: IH(5) mod_base_pow_Suc limb_digit [OF jn(2)]) (simp add: algebra_simps power_add)
  finally have v: "limbs_val ?o + base ^ (j + Suc n) * (unat s div base) = limbs_val un + base ^ j * (limbs_val vn mod base ^ Suc n)"
    by simp
  have "addback_step vn j n (un', c) = Some (?o, drop_bit 64 s)"
    using jn by (simp add: addback_step_def Let_def s_def)
  then show ?case using IH(1,2,4) c v by auto
qed simp

section \<open>One quotient limb\<close>

text \<open>The window of the dividend that a step works on, and what lies above it.\<close>

lemma drop_val_split:
  assumes "j + n < length un" "\<forall>l. j + n < l \<and> l < length un \<longrightarrow> un ! l = 0"
  shows "limbs_val (drop j un) = limbs_val (take n (drop j un)) + base ^ n * unat (un ! (j + n))"
    and "limbs_val (take n (drop j un)) < base ^ n"
proof -
  have "drop j un = take n (drop j un) @ un ! (j + n) # drop (Suc (j + n)) un"
    using assms(1) by (simp add: Cons_nth_drop_Suc) (metis add.commute append_take_drop_id drop_drop)
  moreover have "limbs_val (drop (Suc (j + n)) un) = 0"
    using assms(2) by (auto simp: limbs_val_zero_iff in_set_conv_nth)
  ultimately have "limbs_val (drop j un) = limbs_val (take n (drop j un)) + base ^ length (take n (drop j un)) * unat (un ! (j + n))"
    by (metis limbs_val.simps(2) limbs_val_append mult_0_right add_0_right)
  then show "limbs_val (drop j un) = limbs_val (take n (drop j un)) + base ^ n * unat (un ! (j + n))"
    using assms(1) by (simp add: min_absorb2)
  show "limbs_val (take n (drop j un)) < base ^ n" by (simp add: limbs_val_take)
qed

lemma take_same: "length xs = length ys \<Longrightarrow> \<forall>l < j. xs ! l = ys ! l \<Longrightarrow> take j xs = take j ys"
  by (intro nth_equalityI) auto

lemma unat_join:
  fixes x :: u128 and y :: u64
  assumes "unat x < base"
  shows "unat (push_bit 64 x OR ucast y :: u128) = unat x * base + unat y"
proof -
  have "push_bit 64 x AND ucast y = 0"
    by (rule bit_word_eqI) (auto simp: bit_simps dest: bit_imp_le_length)
  then show ?thesis using assms by (simp add: unat_or_disjoint unat_push64)
qed

lemma top_digit: "X < base ^ Suc n \<Longrightarrow> X div base ^ n mod base = X div base ^ n"
  by (simp add: less_mult_imp_div_less)

lemma two_digits: "X div base ^ Suc n * base + X div base ^ n mod base = X div base ^ n"
  by (metis add.commute div_mult2_eq digit_split mult.commute power_Suc2)

lemma estimate_spec:
  assumes n: "length vn = n" "2 \<le> n" "vn ! (n - 1) \<noteq> 0"
    and j: "j + n < length un" and W: "limbs_val (drop j un) < base * limbs_val vn"
  shows "\<exists>qhat. estimate vn un n j = Some qhat \<and> unat qhat < base \<and>
    limbs_val (drop j un) div limbs_val vn \<le> unat qhat \<and> unat qhat \<le> limbs_val (drop j un) div limbs_val vn + 1"
proof -
  let ?V = "limbs_val vn" and ?W = "limbs_val (drop j un)"
  obtain k where k: "n = Suc (Suc k)" using n(2) by (metis Suc_le_D numeral_2_eq_2 Suc_le_mono)
  have V: "?V < base ^ Suc (Suc k)" using limbs_val_less [of vn] n(1) k by simp
  have WB: "?W < base ^ Suc (Suc (Suc k))"
  proof -
    have "base * ?V < base ^ Suc (Suc (Suc k))"
      unfolding power_Suc [of base "Suc (Suc k)"] using V by (intro mult_strict_left_mono) auto
    then show ?thesis using W by linarith
  qed
  have dv: "unat (vn ! Suc k) = ?V div base ^ Suc k" "unat (vn ! k) = ?V div base ^ k mod base"
    using limb_digit [of "Suc k" vn] limb_digit [of k vn] n(1) k top_digit [OF V] by simp_all
  have du: "unat (un ! (j + Suc (Suc k))) = ?W div base ^ Suc (Suc k)" "unat (un ! (j + Suc k)) = ?W div base ^ Suc k mod base"
    "unat (un ! (j + k)) = ?W div base ^ k mod base"
    using limb_digit [of "Suc (Suc k)" "drop j un"] limb_digit [of "Suc k" "drop j un"] limb_digit [of k "drop j un"]
      j k top_digit [OF WB] by simp_all
  define num where "num = ?W div base ^ Suc k"
  define Q where "Q = ?W div ?V"
  have v1: "0 < unat (vn ! Suc k)" using n(3) k by (simp add: unat_gt_0)
  have V0: "0 < ?V" using W by (cases ?V) auto
  have V2: "unat (vn ! Suc k) * base + unat (vn ! k) = ?V div base ^ k"
    using two_digits [of ?V k] by (simp only: dv)
  have W2: "num * base + unat (un ! (j + k)) = ?W div base ^ k"
    using two_digits [of ?W k] by (simp only: du num_def)
  have num: "unat (push_bit 64 (ucast (un ! (j + Suc (Suc k)))) OR ucast (un ! (j + Suc k)) :: u128) = num"
    using two_digits [of ?W "Suc k"] unat_less_base [of "un ! (j + Suc (Suc k))"]
    by (subst unat_join) (simp_all only: unat_ucast_u128 unat_less_base du num_def)
  have Q: "Q < base" using W by (simp add: Q_def less_mult_imp_div_less)
  have numlt: "num < (unat (vn ! Suc k) + 1) * base"
  proof -
    have "?V < base ^ Suc k * (unat (vn ! Suc k) + 1)"
      unfolding dv(1) using dividend_less_times_div [of "base ^ Suc k" ?V] by simp
    then have "base * ?V \<le> base * (base ^ Suc k * (unat (vn ! Suc k) + 1))" by (intro mult_le_mono2) simp
    then have "?W < (unat (vn ! Suc k) + 1) * base * base ^ Suc k" using W by (simp only: ac_simps)
    then show ?thesis unfolding num_def by (rule less_mult_imp_div_less)
  qed
  have low: "Q < x" if "num * base + unat (un ! (j + k)) < x * (unat (vn ! Suc k) * base + unat (vn ! k))" for x
    using that unfolding V2 W2 Q_def by (rule qhat_lower) simp
  have Q1: "Q \<le> num div unat (vn ! Suc k)"
  proof -
    have "Q * unat (vn ! Suc k) * base ^ Suc k \<le> Q * ?V" unfolding dv(1) mult.assoc by (intro mult_le_mono2 div_times_less_eq_dividend)
    also have "\<dots> \<le> ?W" unfolding Q_def by (rule div_times_less_eq_dividend)
    finally have "Q * unat (vn ! Suc k) \<le> num" unfolding num_def by (simp add: less_eq_div_iff_mult_less_eq)
    then show ?thesis using v1 by (simp add: less_eq_div_iff_mult_less_eq)
  qed
  let ?num = "push_bit 64 (ucast (un ! (j + Suc (Suc k)))) OR ucast (un ! (j + Suc k)) :: u128"
  have dm: "unat (?num div ucast (vn ! Suc k)) = num div unat (vn ! Suc k)" "unat (?num mod ucast (vn ! Suc k)) = num mod unat (vn ! Suc k)"
    by (simp_all only: unat_div unat_mod num unat_ucast_u128)
  have "\<exists>r. correct_qhat (ucast (vn ! Suc k)) (ucast (vn ! k)) (ucast (un ! (j + k))) (?num div ucast (vn ! Suc k)) (?num mod ucast (vn ! Suc k)) = Some r \<and>
    Q \<le> unat r \<and> unat r < base \<and> unat r * (unat (vn ! Suc k) * base + unat (vn ! k)) \<le> num * base + unat (un ! (j + k))"
  proof (rule correct_qhat_spec [where num = num and Q = Q and ?v1.0 = "ucast (vn ! Suc k)" and ?v2.0 = "ucast (vn ! k)" and ?u2.0 = "ucast (un ! (j + k))",
      unfolded unat_ucast_u128])
    have "num mod unat (vn ! Suc k) < unat (vn ! Suc k)" using v1 by simp
    then show "unat (?num mod ucast (vn ! Suc k)) < base" using less_trans [OF _ unat_less_base [of "vn ! Suc k"]] unfolding dm by blast
    show "unat (?num div ucast (vn ! Suc k)) * unat (vn ! Suc k) + unat (?num mod ucast (vn ! Suc k)) = num"
      unfolding dm by (rule div_mult_mod_eq)
    show "Q \<le> unat (?num div ucast (vn ! Suc k))" unfolding dm by (rule Q1)
  qed (use v1 unat_less_base numlt Q low in blast)+
  then obtain r where r: "estimate vn un n j = Some r" "Q \<le> unat r" "unat r < base" "unat r * (?V div base ^ k) \<le> ?W div base ^ k"
    using n(1) j k unfolding V2 W2 by (auto simp: estimate_def Let_def)
  have "base * base ^ k \<le> ?V"
  proof -
    have "base ^ Suc k * 1 \<le> base ^ Suc k * (?V div base ^ Suc k)" using v1 unfolding dv(1) by (intro mult_le_mono2) simp
    also have "\<dots> \<le> ?V" by simp
    finally show ?thesis by simp
  qed
  then have "unat r \<le> Q + 1" using qhat_upper [OF r(4,3), of ] unfolding Q_def by simp
  then show ?thesis using r by (auto simp: Q_def)
qed

text \<open>The two cases after the subtraction, over the integers: either the window is the remainder, or the
  top limb borrowed and adding the divisor back makes it so.\<close>

lemma window_cases:
  fixes W V Bn L T qhat :: int
  assumes "L + Bn * T = W - qhat * V" "0 \<le> L" "L < Bn" "0 \<le> V" "V < Bn" "W - qhat * V < V" "- V \<le> W - qhat * V"
  shows "T = 0 \<or> T = - 1"
proof (rule ccontr)
  assume "\<not> (T = 0 \<or> T = - 1)"
  then consider "1 \<le> T" | "T \<le> - 2" by linarith
  then show False
  proof cases
    case 1
    then have "Bn * 1 \<le> Bn * T" using assms(2,3) by (intro mult_left_mono) auto
    then show False using assms by linarith
  next
    case 2
    then have "Bn * T \<le> Bn * (- 2)" using assms(2,3) by (intro mult_left_mono) auto
    then show False using assms by linarith
  qed
qed

lemma split_at: "limbs_val xs = limbs_val (take j xs) + base ^ j * limbs_val (drop j xs)"
  by (rule limbs_val_take_drop)

lemma addback_spec:
  assumes n: "length vn = n" and j: "j + n < length un" and zeros: "\<forall>l. j + n < l \<and> l < length un \<longrightarrow> un ! l = 0"
    and top: "unat (un ! (j + n)) = base - 1" and carry: "base ^ n \<le> limbs_val (take n (drop j un)) + limbs_val vn"
  shows "\<exists>un'. addback vn n j un = Some un' \<and> length un' = length un \<and> take j un' = take j un \<and>
    limbs_val (drop j un') = limbs_val (take n (drop j un)) + limbs_val vn - base ^ n"
proof -
  obtain un3 c where l: "try_fold (addback_step vn j) [0..<n] (un, 0) = Some (un3, c)" "length un3 = length un" "unat c \<le> 1"
    "\<forall>l. l < j \<or> j + n \<le> l \<longrightarrow> un3 ! l = un ! l"
    "limbs_val un3 + base ^ (j + n) * unat c = limbs_val un + base ^ j * (limbs_val vn mod base ^ n)"
    using addback_loop [of j vn un n] n j by auto
  let ?un4 = "un3[j + n := ucast (ucast (un3 ! (j + n)) + c :: u128)]"
  let ?L = "limbs_val (take n (drop j un))" and ?L3 = "limbs_val (take n (drop j un3))"
  have ab: "addback vn n j un = Some ?un4" using l(1,2) j by (simp add: addback_def)
  have tk: "take j un3 = take j un" using l(2,4) by (intro take_same) auto
  have V: "limbs_val vn < base ^ n" using limbs_val_less [of vn] n by simp
  have j3: "j + n < length un3" using j l(2) by simp
  have z3: "\<forall>l. j + n < l \<and> l < length un3 \<longrightarrow> un3 ! l = 0" using zeros l(2,4) by auto
  have "base ^ j * (limbs_val (drop j un3) + base ^ n * unat c) = base ^ j * (limbs_val (drop j un) + limbs_val vn)"
    using l(5) split_at [of un3 j] split_at [of un j] tk V by (simp add: power_add algebra_simps)
  then have "limbs_val (drop j un3) + base ^ n * unat c = limbs_val (drop j un) + limbs_val vn" by simp
  then have e: "?L3 + base ^ n * unat c = ?L + limbs_val vn"
    using drop_val_split(1) [OF j zeros] drop_val_split(1) [OF j3 z3] l(4) by simp
  have L3: "?L3 < base ^ n" by (rule drop_val_split(2) [OF j3 z3])
  have c1: "unat c = 1"
  proof (rule ccontr)
    assume "unat c \<noteq> 1"
    then have "unat c = 0" using l(3) by linarith
    then show False using e L3 carry by simp
  qed
  have "unat (ucast (un3 ! (j + n)) + c :: u128) = base"
  proof -
    have "unat (un3 ! (j + n)) + 1 = base" using l(4) top by simp
    moreover have "base < base * base" by (simp add: base_def)
    ultimately show ?thesis using c1 by (simp add: unat_u128_add)
  qed
  then have t0: "?un4 ! (j + n) = 0" using j l(2) by (simp add: unat_ucast_u64 [symmetric] unat_eq_0 [symmetric])
  have "take n (drop j ?un4) = take n (drop j un3)" using j3 by (intro nth_equalityI) auto
  moreover have "limbs_val (drop j ?un4) = limbs_val (take n (drop j ?un4)) + base ^ n * unat (?un4 ! (j + n))"
    using j3 z3 by (intro drop_val_split(1)) auto
  ultimately have "limbs_val (drop j ?un4) = ?L3" using t0 by simp
  then show ?thesis using ab l(2) tk e c1 by auto
qed

lemma div_step_spec:
  assumes n: "length vn = n" "2 \<le> n" "vn ! (n - 1) \<noteq> 0"
    and j: "j + n < length un" and inv: "limbs_val (drop (Suc j) un) < limbs_val vn"
    and q: "j < length q" "q ! j = 0"
  shows "\<exists>un' q'. div_step vn n j (un, q) = Some (un', q') \<and> length un' = length un \<and> length q' = length q \<and>
    (\<forall>l < j. q' ! l = q ! l) \<and> limbs_val (drop j un') < limbs_val vn \<and>
    limbs_val un' + limbs_val vn * limbs_val q' = limbs_val un + limbs_val vn * limbs_val q"
proof -
  let ?V = "limbs_val vn" and ?W = "limbs_val (drop j un)"
  have V: "?V < base ^ n" using limbs_val_less [of vn] n by simp
  have V0: "0 < ?V" using inv by (cases ?V) auto
  have "?W = unat (un ! j) + base * limbs_val (drop (Suc j) un)" using j by (simp add: Cons_nth_drop_Suc [symmetric])
  moreover have "base * (limbs_val (drop (Suc j) un) + 1) \<le> base * ?V" using inv by (intro mult_le_mono2) simp
  moreover have "unat (un ! j) < base" by (rule unat_less_base)
  ultimately have W: "?W < base * ?V" by simp
  have zeros: "un ! l = 0" if "j + n < l" "l < length un" for l
  proof -
    have "base ^ n \<le> base ^ (l - Suc j)" using that by (intro power_increasing) auto
    then have "limbs_val (drop (Suc j) un) < base ^ (l - Suc j)" using inv V by linarith
    then have "unat (drop (Suc j) un ! (l - Suc j)) = 0" using that by (subst limb_digit) auto
    then show ?thesis using that by (simp add: unat_eq_0)
  qed
  obtain qhat where qh: "estimate vn un n j = Some qhat" "unat qhat < base" "?W div ?V \<le> unat qhat" "unat qhat \<le> ?W div ?V + 1"
    using estimate_spec [OF n j W] by blast
  obtain un1 k where l: "try_fold (mulsub_step vn qhat j) [0..<n] (un, 0) = Some (un1, k)" "length un1 = length un"
    "- int base \<le> sint k" "sint k \<le> 0" "\<forall>l. l < j \<or> j + n \<le> l \<longrightarrow> un1 ! l = un ! l"
    "int (limbs_val un1) + int (base ^ (j + n)) * sint k = int (limbs_val un) - int (base ^ j * unat qhat * (?V mod base ^ n))"
    using mulsub_loop [of j vn un qhat n] n j qh(2) by auto
  define t where "t = ucast (un1 ! (j + n)) + k"
  define T where "T = int (unat (un1 ! (j + n))) + sint k"
  have ub: "unat (un1 ! (j + n)) < base" by (rule unat_less_base)
  have tw: "t = word_of_int T" unfolding t_def T_def
    by (simp only: wi_hom_add [symmetric] ucast_u64_wi wi_of_sint [symmetric])
  have bs: "int base * 4 \<le> 2 ^ 127" "0 < int base" by (simp_all add: base_def)
  have Tb: "- int base \<le> T" "T < int base" using l(3,4) ub unfolding T_def by linarith+
  have st: "sint t = T" unfolding tw using Tb bs by (intro sint_wi) linarith+
  have ut: "int (unat (ucast t :: u64)) = T mod int base" unfolding tw ucast_wi_u64 by (simp add: uint_word_of_int base_def)
  let ?un2 = "un1[j + n := ucast t]"
  let ?L = "limbs_val (take n (drop j ?un2))"
  have j2: "j + n < length ?un2" using j l(2) by simp
  have z2: "\<forall>l. j + n < l \<and> l < length ?un2 \<longrightarrow> ?un2 ! l = 0" using zeros l(2,5) by auto
  have tk: "take j ?un2 = take j un" using l(2,5) by (intro take_same) auto
  have "int (limbs_val ?un2) + int (base ^ (j + n)) * int (unat (un1 ! (j + n))) = int (limbs_val un1) + int (base ^ (j + n)) * (T mod int base)"
    using arg_cong [OF limbs_val_upd [of "j + n" un1 "ucast t"], of int] j2 by (simp only: of_nat_add of_nat_mult ut length_list_update)
  then have "int (limbs_val ?un2) - int (base ^ (j + n)) * (T mod int base) + int (base ^ (j + n)) * T
      = int (limbs_val un) - int (base ^ j) * int (unat qhat) * int ?V"
    using l(6) V by (simp add: T_def algebra_simps)
  moreover have "int (limbs_val ?un2) = int (limbs_val (take j un)) + int (base ^ j) * (int ?L + int (base ^ n) * (T mod int base))"
    using split_at [of ?un2 j] drop_val_split(1) [OF j2 z2] tk j2 ut [symmetric] by (simp add: algebra_simps)
  moreover have "int (limbs_val un) = int (limbs_val (take j un)) + int (base ^ j) * int ?W"
    using split_at [of un j] by simp
  ultimately have "int (base ^ j) * (int ?L + int (base ^ n) * T) = int (base ^ j) * (int ?W - int (unat qhat) * int ?V)"
    by (simp only: power_add of_nat_mult) (simp only: algebra_simps)
  then have D: "int ?L + int (base ^ n) * T = int ?W - int (unat qhat) * int ?V" by simp
  have L: "?L < base ^ n" by (rule drop_val_split(2) [OF j2 z2])
  have Db: "int ?W - int (unat qhat) * int ?V < int ?V" "- int ?V \<le> int ?W - int (unat qhat) * int ?V"
  proof -
    have "?W < (?W div ?V + 1) * ?V" using V0 dividend_less_times_div [of ?V ?W] by (simp add: mult.commute)
    also have "\<dots> \<le> (unat qhat + 1) * ?V" using qh(3) by (intro mult_le_mono1) simp
    finally have "?W < unat qhat * ?V + ?V" by simp
    then show "int ?W - int (unat qhat) * int ?V < int ?V" unfolding of_nat_mult [symmetric] by linarith
    have "unat qhat * ?V \<le> (?W div ?V + 1) * ?V" using qh(4) by (rule mult_le_mono1)
    also have "\<dots> \<le> ?W + ?V" by simp
    finally show "- int ?V \<le> int ?W - int (unat qhat) * int ?V" unfolding of_nat_mult [symmetric] by linarith
  qed
  have T: "T = 0 \<or> T = - 1" using window_cases [OF D _ _ _ _ Db] L V by simp
  have neg: "t <s 0 \<longleftrightarrow> T < 0" by (simp only: word_sless_alt st sint_0)
  have run: "div_step vn n j (un, q) = (if T < 0
      then Option.bind (addback vn n j ?un2) (\<lambda>un'. Some (un', q[j := ucast qhat - 1]))
      else Some (?un2, q[j := ucast qhat]))"
    using qh(1) l(1,2) j q(1) by (simp add: div_step_def Let_def t_def [symmetric] neg)
  have goal: ?thesis if "div_step vn n j (un, q) = Some (un', q[j := Q'])" "length un' = length un" "take j un' = take j un"
    "limbs_val (drop j un') + unat Q' * ?V = ?W" "limbs_val (drop j un') < ?V" for un' Q'
  proof -
    have "limbs_val un' + ?V * limbs_val (q[j := Q']) = limbs_val (take j un) + base ^ j * (limbs_val (drop j un') + unat Q' * ?V) + ?V * limbs_val q"
      using split_at [of un' j] that(3) limbs_val_update [OF q] by (simp add: algebra_simps)
    also have "\<dots> = limbs_val un + ?V * limbs_val q" unfolding that(4) using split_at [of un j] by simp
    finally show ?thesis using that by auto
  qed
  from T show ?thesis
  proof
    assume 0: "T = 0"
    have "unat (un1 ! (j + n)) + 0 = unat (un1 ! (j + n))" by simp
    have "?un2 ! (j + n) = ucast t" using j2 by simp
    then have "limbs_val (drop j ?un2) = ?L" using drop_val_split(1) [OF j2 z2] ut 0 by simp
    moreover have "int ?L = int ?W - int (unat qhat * ?V)" using D 0 by (simp only: mult_zero_right add_0_right of_nat_mult)
    then have "?L + unat qhat * ?V = ?W" by linarith
    moreover have "?L < ?V" using D Db(1) 0 by simp
    ultimately show ?thesis using run 0 l(2) tk qh(2) by (intro goal [of ?un2 "ucast qhat"]) simp_all
  next
    assume 1: "T = - 1"
    have "int ?L + int ?V \<ge> int (base ^ n)" using D Db(2) 1 by simp
    then have c: "base ^ n \<le> ?L + ?V" by linarith
    have "(- 1 :: int) mod int base = int base - 1" by (simp add: base_def)
    then have "int (unat (?un2 ! (j + n))) = int base - 1" using ut 1 j2 by simp
    then have top: "unat (?un2 ! (j + n)) = base - 1" by linarith
    obtain un' where ab: "addback vn n j ?un2 = Some un'" "length un' = length ?un2" "take j un' = take j ?un2"
      "limbs_val (drop j un') = ?L + ?V - base ^ n"
      using addback_spec [OF n(1) j2 z2 top c] by blast
    have e: "int (limbs_val (drop j un')) = int ?W - int (unat qhat) * int ?V + int ?V"
      using ab(4) c D 1 by simp
    have "0 < unat qhat"
    proof (rule ccontr)
      assume "\<not> 0 < unat qhat"
      then have q0: "unat qhat = 0" by simp
      have "int ?L + int (base ^ n) * - 1 = int ?W"
        using D [unfolded 1 q0] by (simp only: of_nat_0 mult_zero_left diff_0_right)
      then show False using L by linarith
    qed
    then have q1: "unat (ucast qhat - 1 :: u64) = unat qhat - 1"
      using qh(2) by (subst unat_minus_one) (auto simp: unat_eq_0 [symmetric] simp del: unat_eq_0)
    obtain z where z: "unat qhat = Suc z" using \<open>0 < unat qhat\<close> by (cases "unat qhat") auto
    have "int (unat qhat) * int ?V = int (z * ?V) + int ?V" by (simp only: z of_nat_Suc of_nat_mult) (simp only: algebra_simps)
    then have "limbs_val (drop j un') + z * ?V = ?W" using e by linarith
    moreover have "limbs_val (drop j un') < ?V" using ab(4) L c by linarith
    ultimately show ?thesis using run 1 ab tk l(2) q1 z by (intro goal [of un' "ucast qhat - 1"]) simp_all
  qed
qed

section \<open>Division\<close>

lemma big_val_limbs: "big_val \<lparr>limbs = xs\<rparr> = limbs_val xs"
  by (simp add: big_val_def)

lemma sig_limbs_zero: "sig_limbs a = 0 \<longleftrightarrow> big_val a = 0"
proof -
  have "sig_limbs a = 0 \<longleftrightarrow> rposition (\<lambda>l. l \<noteq> 0) (limbs a) = None" by (simp add: sig_limbs_def split: option.split)
  then show ?thesis by (simp add: rposition_None big_val_def limbs_val_zero_iff)
qed

lemma sig_limbs_spec:
  assumes "sig_limbs a = Suc i"
  shows "i < length (limbs a)" "limbs a ! i \<noteq> 0" "big_val a = limbs_val (take (Suc i) (limbs a))"
    "base ^ i \<le> big_val a" "big_val a < base ^ Suc i"
proof -
  have r: "rposition (\<lambda>l. l \<noteq> 0) (limbs a) = Some i" using assms by (auto simp: sig_limbs_def split: option.splits)
  show "i < length (limbs a)" "limbs a ! i \<noteq> 0" using rposition_Some [OF r] by auto
  show "big_val a = limbs_val (take (Suc i) (limbs a))" "base ^ i \<le> big_val a" "big_val a < base ^ Suc i"
    using rposition_val [OF r] unfolding big_val_def by auto
qed

lemma short_division:
  fixes d :: u64
  assumes "d \<noteq> 0" "n \<le> length us"
  shows "\<exists>q r. for_range_rev n (short_step us (ucast d)) (replicate n 0, 0) = (q, r) \<and> unat r < unat d \<and>
    limbs_val q * unat d + unat r = limbs_val (take n us)"
proof -
  let ?xs = "take n us"
  have "case for_range_rev n (short_step us (ucast d)) (replicate n 0, 0) of (q, r) \<Rightarrow>
    length q = n \<and> unat r < unat d \<and> limbs_val (drop 0 q) * unat d + unat r = limbs_val (drop 0 ?xs)"
  proof (rule for_range_rev_inv [where P = "\<lambda>i (q, r). length q = n \<and> unat r < unat d \<and>
      limbs_val (drop i q) * unat d + unat r = limbs_val (drop i ?xs)"], goal_cases)
    case 1
    show ?case using assms by (simp add: unat_gt_0)
  next
    case (2 i st)
    obtain q r where st: "st = (q, r)" by (cases st)
    then have P: "length q = n" "unat r < unat d" "limbs_val (drop (Suc i) q) * unat d + unat r = limbs_val (drop (Suc i) ?xs)"
      using 2(2) by auto
    define cur :: u128 where "cur = push_bit 64 r OR ucast (us ! i)"
    have rb: "unat r < base" using less_trans [OF P(2) unat_less_base] .
    have cur: "unat cur = unat r * base + unat (us ! i)" unfolding cur_def by (rule unat_join [OF rb])
    have "(unat r + 1) * base \<le> unat d * base" using P(2) by (intro mult_le_mono1) simp
    then have "unat cur < base * unat d" using cur unat_less_base [of "us ! i"] by (simp add: algebra_simps)
    then have lt: "unat cur div unat d < base" by (rule less_mult_imp_div_less)
    have step: "short_step us (ucast d) i (q, r) = (q[i := ucast (cur div ucast d)], cur mod ucast d)"
      by (simp add: short_step_def Let_def cur_def)
    have qd: "drop i (q[i := x]) = x # drop (Suc i) q" for x using 2(1) P(1) by (simp add: Cons_nth_drop_Suc [symmetric])
    have xd: "drop i ?xs = us ! i # drop (Suc i) ?xs" using 2(1) assms(2) by (simp add: Cons_nth_drop_Suc [symmetric])
    have "limbs_val (drop i (q[i := ucast (cur div ucast d)])) * unat d + unat (cur mod ucast d)
        = unat cur div unat d * unat d + unat cur mod unat d + base * (limbs_val (drop (Suc i) q) * unat d)"
      using lt by (simp add: qd unat_div unat_mod algebra_simps)
    also have "\<dots> = unat (us ! i) + base * (limbs_val (drop (Suc i) q) * unat d + unat r)"
      by (simp only: div_mult_mod_eq cur) (simp add: algebra_simps)
    also have "\<dots> = limbs_val (drop i ?xs)" unfolding P(3) xd by simp
    finally have "limbs_val (drop i (q[i := ucast (cur div ucast d)])) * unat d + unat (cur mod ucast d) = limbs_val (drop i ?xs)" .
    moreover have "unat (cur mod ucast d) < unat d" using assms(1) by (simp add: unat_mod unat_gt_0)
    ultimately show ?case using P(1) step st by simp
  qed
  then show ?thesis by (auto split: prod.splits)
qed

lemma long_division:
  assumes vn: "length vn = n" "2 \<le> n" "vn ! (n - 1) \<noteq> 0"
    and un: "length un = m + n + 1" "limbs_val (drop (m + 1) un) < limbs_val vn"
  shows "\<exists>un' q. try_fold (div_step vn n) (rev [0..<m + 1]) (un, replicate (m + 1) 0) = Some (un', q) \<and>
    limbs_val un' < limbs_val vn \<and> limbs_val un' + limbs_val vn * limbs_val q = limbs_val un"
proof -
  let ?P = "\<lambda>i (un', q). length un' = m + n + 1 \<and> length q = m + 1 \<and> (\<forall>l < i. q ! l = 0) \<and>
    limbs_val (drop i un') < limbs_val vn \<and> limbs_val un' + limbs_val vn * limbs_val q = limbs_val un"
  have "\<exists>st. try_fold (div_step vn n) (rev [0..<m + 1]) (un, replicate (m + 1) 0) = Some st \<and> ?P 0 st"
  proof (rule try_fold_down, goal_cases)
    case 1
    have "limbs_val (replicate (m + 1) 0) = 0" by (rule limbs_val_replicate)
    then show ?case using un by (simp del: replicate_Suc)
  next
    case (2 i st)
    obtain un' q where st: "st = (un', q)" by (cases st)
    then show ?case using 2 div_step_spec [OF vn, of i un' q] by fastforce
  qed
  then show ?thesis by auto
qed

theorem big_divmod_val:
  assumes "big_val v \<noteq> 0"
  shows "\<exists>q r. big_divmod u v = Some (q, r) \<and> big_val q = big_val u div big_val v \<and> big_val r = big_val u mod big_val v \<and>
    normal q \<and> (normal u \<longrightarrow> normal r)"
proof (cases "big_val u < big_val v")
  case True
  then show ?thesis using assms by (simp add: big_divmod_def Let_def sig_limbs_zero compare_def)
next
  case False
  obtain k where k: "sig_limbs v = Suc k" using assms sig_limbs_zero [of v] by (cases "sig_limbs v") auto
  obtain l where l: "sig_limbs u = Suc l" using assms False sig_limbs_zero [of u] by (cases "sig_limbs u") auto
  note V = sig_limbs_spec [OF k] and U = sig_limbs_spec [OF l]
  show ?thesis
  proof (cases "k = 0")
    case True
    have d: "unat (limbs v ! 0) = big_val v" using V(1,3) True by (cases "limbs v") auto
    obtain q r where qr: "for_range_rev (Suc l) (short_step (limbs u) (ucast (limbs v ! 0))) (replicate (Suc l) 0, 0) = (q, r)"
      "unat r < big_val v" "limbs_val q * big_val v + unat r = big_val u"
      using short_division [of "limbs v ! 0" "Suc l" "limbs u"] V(2) U(1,3) True d by auto
    have "big_val u div big_val v = limbs_val q" "big_val u mod big_val v = unat r"
      unfolding qr(3) [symmetric] using qr(2) by simp_all
    moreover have "unat r mod base = unat r" using less_trans [OF qr(2)] unat_less_base [of "limbs v ! 0"] d by simp
    ultimately show ?thesis using False k l True qr(1) by (simp add: big_divmod_def Let_def compare_def) (simp add: big_val_def)
  next
    case False
    note ge = \<open>\<not> big_val u < big_val v\<close>
    define s where "s = leading_zeros (limbs v ! k)"
    define vn where "vn = shl_limbs (take (Suc k) (limbs v)) s"
    define un0 where "un0 = shl_limbs (take (Suc l) (limbs u)) s"
    define un where "un = (if length un0 = Suc l then un0 @ [0] else un0)"
    note z = leading_zeros_val [OF V(2), folded s_def]
    have kl: "k \<le> l"
    proof (rule ccontr)
      assume "\<not> k \<le> l"
      then have "base ^ Suc l \<le> base ^ k" by (intro power_increasing) auto
      then show False using U(5) V(4) ge by linarith
    qed
    have vval: "limbs_val vn = big_val v * 2 ^ s" and uval: "limbs_val un0 = big_val u * 2 ^ s"
      using shl_limbs_val(1) [OF z(3)] V(3) U(3) by (simp_all add: vn_def un0_def)
    have "big_val v * 2 ^ s < base ^ Suc k"
    proof -
      have b: "base = 2 ^ (64 - s) * 2 ^ s" using z(3) by (simp add: base_def power_add [symmetric])
      have "big_val v < base ^ k * (unat (limbs v ! k) + 1)"
        using V(3) limbs_val_take_Suc [OF V(1)] limbs_val_take [of k "limbs v"] by simp
      also have "\<dots> \<le> base ^ k * 2 ^ (64 - s)" using z(1) by (intro mult_le_mono2) linarith
      finally have "big_val v * 2 ^ s < base ^ k * 2 ^ (64 - s) * 2 ^ s" by simp
      also have "\<dots> = base ^ Suc k" by (simp only: power_Suc2 b mult.assoc)
      finally show ?thesis .
    qed
    note vlt = this
    then have vlen: "length vn = Suc k" using shl_limbs_val(2) [OF z(3), of "take (Suc k) (limbs v)"] V(1,3) by (simp add: vn_def min_absorb2)
    have "base ^ k \<le> limbs_val vn" using mult_le_mono [OF V(4), of 1 "2 ^ s"] unfolding vval by simp
    then have "1 \<le> limbs_val vn div base ^ k" by (simp add: less_eq_div_iff_mult_less_eq)
    then have vtop: "vn ! k \<noteq> 0"
      using limb_digit [of k vn] vlen top_digit [of "limbs_val vn" k] limbs_val_less [of vn] by (auto simp: unat_eq_0 [symmetric])
    have ulen: "length un = Suc (Suc l)" "limbs_val un = big_val u * 2 ^ s"
      using shl_limbs_val(2) [OF z(3), of "take (Suc l) (limbs u)"] U(1) uval by (auto simp: un_def un0_def min_absorb2 split: if_splits)
    have start: "limbs_val (drop (l - k + 1) un) < limbs_val vn"
    proof -
      have "big_val u * 2 ^ s < base ^ k * 2 ^ s * base ^ (l - k + 1)"
      proof -
        have "big_val u * 2 ^ s < base ^ Suc l * 2 ^ s" using U(5) by simp
        also have "base ^ Suc l = base ^ k * base ^ (l - k + 1)" using kl by (simp add: power_add [symmetric])
        finally show ?thesis by (simp only: ac_simps)
      qed
      then have "limbs_val (drop (l - k + 1) un) < base ^ k * 2 ^ s"
        unfolding limbs_val_drop ulen(2) by (rule less_mult_imp_div_less)
      also have "\<dots> \<le> limbs_val vn" unfolding vval using V(4) by (rule mult_le_mono1)
      finally show ?thesis .
    qed
    obtain un' q where f: "try_fold (div_step vn (Suc k)) (rev [0..<l - k + 1]) (un, replicate (l - k + 1) 0) = Some (un', q)"
      "limbs_val un' < limbs_val vn" "limbs_val un' + limbs_val vn * limbs_val q = big_val u * 2 ^ s"
      using long_division [OF vlen _ _ _ start] vtop False ulen kl by auto
    have "limbs_val q = (big_val u * 2 ^ s) div (big_val v * 2 ^ s)" "limbs_val un' = (big_val u * 2 ^ s) mod (big_val v * 2 ^ s)"
      unfolding f(3) [symmetric] vval [symmetric] using f(2) by simp_all
    then have qv: "limbs_val q = big_val u div big_val v" and rv: "limbs_val un' = (big_val u mod big_val v) * 2 ^ s"
      by (simp_all add: mod_mult_mult2)
    have "limbs_val (take (Suc k) un') = limbs_val un'"
      using f(2) vlt vval by (simp add: limbs_val_take)
    then have "limbs_val (shr_limbs (take (Suc k) un') s) = big_val u mod big_val v"
      using shr_limbs_val(1) [OF z(3)] rv by simp
    moreover have "big_divmod u v = Some (big_normalize \<lparr>limbs = q\<rparr>, big_normalize \<lparr>limbs = shr_limbs (take (Suc k) un') s\<rparr>)"
      using ge k l False f(1) ulen(1) kl unfolding un_def
      by (cases "length un0 = Suc l")
        (simp_all add: big_divmod_def Let_def compare_def s_def [symmetric] vn_def [symmetric] un0_def [symmetric] Suc_diff_le del: upt_Suc replicate_Suc)
    ultimately show ?thesis using qv by (simp add: big_val_limbs)
  qed
qed

lemma big_divmod_zero: "big_val v = 0 \<Longrightarrow> big_divmod u v = None"
  by (simp add: big_divmod_def Let_def sig_limbs_zero)

section \<open>Properties\<close>

text \<open>C11: Algorithm D is exact. Division by a number that is not zero returns, with no index out of range and
  no failed assertion, the quotient and the remainder of the numbers, whatever estimates and
  corrections its steps make; the quotient has no leading zero limb.\<close>

theorem divmod_exact:
  assumes "big_val v \<noteq> 0"
  shows "\<exists>q r. big_divmod u v = Some (q, r) \<and> big_val u = big_val q * big_val v + big_val r \<and>
    big_val r < big_val v \<and> normal q \<and> (normal u \<longrightarrow> normal r)"
proof -
  obtain q r where "big_divmod u v = Some (q, r)" "big_val q = big_val u div big_val v" "big_val r = big_val u mod big_val v"
    "normal q" "normal u \<longrightarrow> normal r"
    using big_divmod_val [OF assms] by blast
  then show ?thesis using assms by (intro exI [of _ q] exI [of _ r]) simp
qed

theorem divmod_exact_witness:
  "\<exists>q r. big_divmod \<lparr>limbs = [0, 0, 1]\<rparr> \<lparr>limbs = [1, 1]\<rparr> = Some (q, r) \<and>
     base * base = big_val q * (base + 1) + big_val r \<and> big_val r < base + 1"
  using divmod_exact [of "\<lparr>limbs = [1, 1]\<rparr>" "\<lparr>limbs = [0, 0, 1]\<rparr>"] by (auto simp: big_val_limbs)

end
