(* ===== verification/Big_Mod.thy ===== *)
theory Big_Mod
  imports Big_Div
begin

text \<open>
  Modular arithmetic of \<^verbatim>\<open>crates/cv_crypto/src/bigint.rs\<close>: sums, products and powers modulo a
  number and the modular inverse by the extended Euclidean algorithm. A zero modulus panics (\<open>None\<close>).
\<close>

section \<open>Definitions\<close>

definition add_mod :: "biguint \<Rightarrow> biguint \<Rightarrow> biguint \<Rightarrow> biguint" where
  "add_mod a b n = (let s = big_add a b in if big_cmp s n \<noteq> Less then big_sub s n else s)"

definition sub_mod :: "biguint \<Rightarrow> biguint \<Rightarrow> biguint \<Rightarrow> biguint" where
  "sub_mod a b n = (if big_cmp a b \<noteq> Less then big_sub a b else big_sub (big_add a n) b)"

definition mul_mod :: "biguint \<Rightarrow> biguint \<Rightarrow> biguint \<Rightarrow> biguint option" where
  "mul_mod a b n = map_option snd (big_divmod (mul_full a b) n)"

definition big_rem :: "biguint \<Rightarrow> biguint \<Rightarrow> biguint option" where
  "big_rem a n = map_option snd (big_divmod a n)"

definition div_floor :: "biguint \<Rightarrow> biguint \<Rightarrow> biguint option" where
  "div_floor a n = map_option fst (big_divmod a n)"

definition pow_step :: "biguint \<Rightarrow> biguint \<Rightarrow> biguint \<Rightarrow> nat \<Rightarrow> biguint \<Rightarrow> biguint option" where
  "pow_step base_mod exp modulus i result = do {
     result \<leftarrow> mul_mod result result modulus;
     if big_bit exp i then mul_mod result base_mod modulus else Some result }"

definition pow_mod :: "biguint \<Rightarrow> biguint \<Rightarrow> biguint \<Rightarrow> biguint option" where
  "pow_mod b exp modulus =
     (if is_zero modulus then None
      else if bit_len exp = 0 then Some \<lparr>limbs = [1]\<rparr>
      else do {
        base_mod \<leftarrow> big_rem b modulus;
        try_fold (pow_step base_mod exp modulus) (rev [0..<bit_len exp - 1]) base_mod })"

definition from_u64 :: "u64 \<Rightarrow> biguint" where
  "from_u64 v = big_normalize \<lparr>limbs = [v]\<rparr>"

definition is_one :: "biguint \<Rightarrow> bool" where
  "is_one a \<longleftrightarrow> rposition (\<lambda>l. l \<noteq> 0) (limbs a) = Some 0 \<and> limbs a ! 0 = 1"

definition is_even :: "biguint \<Rightarrow> bool" where
  "is_even a = (case limbs a of [] \<Rightarrow> True | l # _ \<Rightarrow> l AND 1 = 0)"

definition dec_one :: "biguint \<Rightarrow> biguint" where
  "dec_one a = big_sub a (from_u64 1)"

record signed_big =
  sb_neg :: bool
  sb_mag :: biguint

definition sb_zero :: signed_big where
  "sb_zero = \<lparr>sb_neg = False, sb_mag = big_zero\<rparr>"

definition sb_from_uint :: "biguint \<Rightarrow> signed_big" where
  "sb_from_uint m = \<lparr>sb_neg = False, sb_mag = m\<rparr>"

definition sb_sub :: "signed_big \<Rightarrow> signed_big \<Rightarrow> signed_big" where
  "sb_sub a b =
     (case (sb_neg a, sb_neg b) of
        (False, False) \<Rightarrow>
          if big_cmp (sb_mag a) (sb_mag b) = Less
          then \<lparr>sb_neg = True, sb_mag = big_sub (sb_mag b) (sb_mag a)\<rparr>
          else \<lparr>sb_neg = False, sb_mag = big_sub (sb_mag a) (sb_mag b)\<rparr>
      | (True, True) \<Rightarrow>
          if big_cmp (sb_mag a) (sb_mag b) = Less
          then \<lparr>sb_neg = False, sb_mag = big_sub (sb_mag b) (sb_mag a)\<rparr>
          else \<lparr>sb_neg = True, sb_mag = big_sub (sb_mag a) (sb_mag b)\<rparr>
      | (False, True) \<Rightarrow> \<lparr>sb_neg = False, sb_mag = big_add (sb_mag a) (sb_mag b)\<rparr>
      | (True, False) \<Rightarrow> \<lparr>sb_neg = True, sb_mag = big_add (sb_mag a) (sb_mag b)\<rparr>)"

definition sb_mul_uint :: "signed_big \<Rightarrow> biguint \<Rightarrow> signed_big" where
  "sb_mul_uint a q = (let mag = mul_full (sb_mag a) q in \<lparr>sb_neg = sb_neg a \<and> \<not> is_zero mag, sb_mag = mag\<rparr>)"

partial_function (option) euclid_loop ::
  "biguint \<Rightarrow> biguint \<Rightarrow> signed_big \<Rightarrow> signed_big \<Rightarrow> (biguint \<times> signed_big) option" where
  "euclid_loop old_r r old_t t =
     (if is_zero r then Some (old_r, old_t)
      else Option.bind (big_divmod old_r r) (\<lambda>(q, rem_v). euclid_loop r rem_v t (sb_sub old_t (sb_mul_uint t q))))"

definition inv_mod_full :: "biguint \<Rightarrow> biguint \<Rightarrow> biguint option option" where
  "inv_mod_full a m =
     (if is_zero m \<or> is_one m then Some None
      else do {
        a0 \<leftarrow> big_rem a m;
        if is_zero a0 then Some None
        else do {
          (old_r, old_t) \<leftarrow> euclid_loop m a0 sb_zero (sb_from_uint (from_u64 1));
          if \<not> is_one old_r then Some None
          else if sb_neg old_t then do {
            pos \<leftarrow> big_rem (sb_mag old_t) m;
            Some (Some (if is_zero pos then pos else big_sub m pos)) }
          else do {
            r \<leftarrow> big_rem (sb_mag old_t) m;
            Some (Some r) } } })"

section \<open>Sums and products\<close>

lemma add_mod_val:
  assumes "big_val a < big_val n" "big_val b < big_val n"
  shows "big_val (add_mod a b n) = (big_val a + big_val b) mod big_val n"
  using assms by (auto simp: add_mod_def Let_def mod_if not_less)

lemma sub_mod_val:
  assumes "big_val a < big_val n" "big_val b < big_val n"
  shows "int (big_val (sub_mod a b n)) = (int (big_val a) - int (big_val b)) mod int (big_val n)"
proof (cases "big_val a < big_val b")
  case True
  have "(int (big_val a) - int (big_val b)) mod int (big_val n) = (int (big_val a) - int (big_val b) + int (big_val n)) mod int (big_val n)"
    by simp
  also have "\<dots> = int (big_val a) - int (big_val b) + int (big_val n)"
    using True assms by (intro mod_pos_pos_trivial) linarith+
  finally show ?thesis using True assms by (simp add: sub_mod_def of_nat_diff)
next
  case False
  then show ?thesis using assms by (simp add: sub_mod_def of_nat_diff mod_pos_pos_trivial)
qed

lemma big_rem_val:
  "big_val n \<noteq> 0 \<Longrightarrow> \<exists>r. big_rem a n = Some r \<and> big_val r = big_val a mod big_val n \<and> (normal a \<longrightarrow> normal r)"
  using big_divmod_val [of n a] by (auto simp: big_rem_def)

lemma mul_mod_val:
  "big_val n \<noteq> 0 \<Longrightarrow> \<exists>r. mul_mod a b n = Some r \<and> big_val r = big_val a * big_val b mod big_val n \<and> normal r"
  using big_divmod_val [of n "mul_full a b"] by (auto simp: mul_mod_def)

lemma div_floor_val:
  "big_val n \<noteq> 0 \<Longrightarrow> \<exists>q. div_floor a n = Some q \<and> big_val q = big_val a div big_val n"
  using big_divmod_val [of n a] by (auto simp: div_floor_def)

lemma from_u64_val [simp]: "big_val (from_u64 v) = unat v" "normal (from_u64 v)"
  by (simp_all add: from_u64_def big_val_limbs)

lemma is_one_val [simp]: "is_one a \<longleftrightarrow> big_val a = 1"
proof
  assume a: "is_one a"
  then have r: "rposition (\<lambda>l. l \<noteq> 0) (limbs a) = Some 0" by (simp add: is_one_def)
  show "big_val a = 1"
    using rposition_val(1) [OF r] rposition_Some(1) [OF r] a by (cases "limbs a") (simp_all add: big_val_def is_one_def)
next
  assume a: "big_val a = 1"
  then obtain i where r: "rposition (\<lambda>l. l \<noteq> 0) (limbs a) = Some i"
    by (cases "rposition (\<lambda>l. l \<noteq> 0) (limbs a)") (auto simp: rposition_None big_val_def limbs_val_zero_iff [symmetric])
  have "i = 0"
  proof (rule ccontr)
    assume "i \<noteq> 0"
    then have "base ^ 1 \<le> base ^ i" by (intro power_increasing) auto
    then show False using rposition_val(2) [OF r] a by (simp add: big_val_def base_def)
  qed
  then have "unat (limbs a ! 0) = 1"
    using rposition_val(1) [OF r] rposition_Some(1) [OF r] a by (cases "limbs a") (simp_all add: big_val_def)
  then show "is_one a" using r \<open>i = 0\<close> by (simp add: is_one_def unat_inj_iff [symmetric])
qed

lemma is_even_val [simp]: "is_even a \<longleftrightarrow> even (big_val a)"
proof (cases "limbs a")
  case (Cons l ls)
  have "even base" by (simp add: base_def)
  moreover have "l AND 1 = 0 \<longleftrightarrow> even (unat l)" using bit_unat_div [of l 0] by (simp add: and_one_eq bit_0 even_iff_mod_2_eq_zero [symmetric])
  ultimately show ?thesis using Cons by (simp add: is_even_def big_val_def)
qed (simp add: is_even_def big_val_def)

lemma dec_one_val [simp]: "0 < big_val a \<Longrightarrow> big_val (dec_one a) = big_val a - 1"
  by (simp add: dec_one_def Suc_le_eq)

section \<open>Powers\<close>

text \<open>Left to right: after the bits above \<open>i\<close> the result is the power to the exponent without its low bits.\<close>

lemma pow_loop:
  assumes "big_val m \<noteq> 0" "big_val x = big_val b mod big_val m"
    and "big_val r = big_val b ^ (big_val e div 2 ^ n) mod big_val m"
  shows "\<exists>r'. try_fold (pow_step x e m) (rev [0..<n]) r = Some r' \<and> big_val r' = big_val b ^ big_val e mod big_val m"
proof -
  have "\<exists>r'. try_fold (pow_step x e m) (rev [0..<n]) r = Some r' \<and> big_val r' = big_val b ^ (big_val e div 2 ^ 0) mod big_val m"
  proof (rule try_fold_down [where P = "\<lambda>i r. big_val r = big_val b ^ (big_val e div 2 ^ i) mod big_val m"], goal_cases)
    case (2 i s)
    let ?q = "big_val e div 2 ^ Suc i"
    have d: "big_val e div 2 ^ i = ?q + ?q + (if big_bit e i then 1 else 0)"
    proof -
      have q: "?q = big_val e div 2 ^ i div 2" by (metis div_mult2_eq mult.commute power_Suc)
      have bits: "x = x div 2 + x div 2 + (if odd x then 1 else 0)" for x :: nat by presburger
      show ?thesis unfolding big_bit_val q by (rule bits)
    qed
    obtain s2 where s2: "mul_mod s s m = Some s2" "big_val s2 = big_val s * big_val s mod big_val m"
      using mul_mod_val [OF assms(1)] by blast
    have sq: "big_val s2 = big_val b ^ (?q + ?q) mod big_val m"
      by (simp add: s2(2) 2(2) power_add mod_mult_eq)
    obtain s3 where s3: "mul_mod s2 x m = Some s3" "big_val s3 = big_val s2 * big_val x mod big_val m"
      using mul_mod_val [OF assms(1)] by blast
    have "big_val s3 = big_val b ^ (?q + ?q + 1) mod big_val m"
      by (simp add: s3(2) sq assms(2) mod_mult_eq mult.commute)
    then show ?case using s2(1) s3(1) sq by (auto simp: pow_step_def d)
  qed (rule assms(3))
  then show ?thesis by simp
qed

theorem pow_mod_val:
  assumes "big_val m \<noteq> 0"
  shows "\<exists>r. pow_mod b e m = Some r \<and> big_val r = (if big_val e = 0 then 1 else big_val b ^ big_val e mod big_val m)"
proof (cases "big_val e = 0")
  case True
  then show ?thesis using assms bit_len_val(3) [of e] by (simp add: pow_mod_def is_zero_val big_val_limbs)
next
  case False
  obtain x where x: "big_rem b m = Some x" "big_val x = big_val b mod big_val m" using big_rem_val [OF assms] by blast
  note e = bit_len_val [of e]
  have "big_val e div 2 ^ (bit_len e - 1) = 1"
  proof -
    have p: "2 ^ (bit_len e - 1) \<le> big_val e" "0 < bit_len e" using e(2) False by auto
    then have "big_val e < 2 * 2 ^ (bit_len e - 1)" using e(1) by (metis Suc_pred' power_Suc)
    then have "big_val e div 2 ^ (bit_len e - 1) < 2" by (rule less_mult_imp_div_less)
    moreover have "1 \<le> big_val e div 2 ^ (bit_len e - 1)" using p by (simp add: less_eq_div_iff_mult_less_eq)
    ultimately show ?thesis by linarith
  qed
  then show ?thesis using pow_loop [OF assms x(2), of x e "bit_len e - 1"] x False assms e(3)
    by (simp add: pow_mod_def is_zero_val)
qed

section \<open>The modular inverse\<close>

definition sb_val :: "signed_big \<Rightarrow> int" where
  "sb_val a = (if sb_neg a then - int (big_val (sb_mag a)) else int (big_val (sb_mag a)))"

lemma sb_sub_val [simp]: "sb_val (sb_sub a b) = sb_val a - sb_val b"
  by (simp add: sb_sub_def sb_val_def of_nat_diff not_less split: bool.split)

lemma sb_mul_val [simp]: "sb_val (sb_mul_uint a q) = sb_val a * int (big_val q)"
  by (simp add: sb_mul_uint_def sb_val_def is_zero_val)

lemma sb_const_val [simp]: "sb_val sb_zero = 0" "sb_val (sb_from_uint m) = int (big_val m)"
  by (simp_all add: sb_zero_def sb_from_uint_def sb_val_def)

text \<open>The loop returns the greatest common divisor and its coefficient.\<close>

lemma euclid_loop_val:
  assumes "m dvd sb_val old_t * a - int (big_val old_r)" "m dvd sb_val t * a - int (big_val r)"
  shows "\<exists>g x. euclid_loop old_r r old_t t = Some (g, x) \<and> big_val g = gcd (big_val old_r) (big_val r) \<and>
    m dvd sb_val x * a - int (big_val g)"
  using assms
proof (induction "big_val r" arbitrary: old_r r old_t t rule: less_induct)
  case less
  show ?case
  proof (cases "big_val r = 0")
    case True
    then show ?thesis using less.prems by (subst euclid_loop.simps) (simp add: is_zero_val)
  next
    case False
    obtain q r' where d: "big_divmod old_r r = Some (q, r')" "big_val q = big_val old_r div big_val r" "big_val r' = big_val old_r mod big_val r"
      using big_divmod_val [OF False] by blast
    let ?t' = "sb_sub old_t (sb_mul_uint t q)"
    have "int (big_val r') = int (big_val old_r) - int (big_val r) * int (big_val q)"
      unfolding d by (metis minus_mult_div_eq_mod of_nat_mult zdiv_int zmod_int)
    then have "sb_val ?t' * a - int (big_val r')
        = (sb_val old_t * a - int (big_val old_r)) - int (big_val q) * (sb_val t * a - int (big_val r))"
      by (simp add: algebra_simps)
    then have t': "m dvd sb_val ?t' * a - int (big_val r')" using less.prems by (metis dvd_diff dvd_mult)
    have "big_val r' < big_val r" using False d(3) by simp
    from less.hyps [OF this less.prems(2) t'] obtain g x where
      "euclid_loop r r' t ?t' = Some (g, x)" "big_val g = gcd (big_val r) (big_val r')" "m dvd sb_val x * a - int (big_val g)"
      by blast
    moreover have "gcd (big_val r) (big_val r') = gcd (big_val old_r) (big_val r)"
      unfolding d(3) by (metis gcd.commute gcd_red_nat)
    ultimately show ?thesis using d(1) False by (subst euclid_loop.simps) (simp add: is_zero_val)
  qed
qed

theorem inv_mod_full_val:
  assumes "1 < big_val m"
  shows "if gcd (big_val a) (big_val m) = 1
    then \<exists>x. inv_mod_full a m = Some (Some x) \<and> big_val x < big_val m \<and> big_val a * big_val x mod big_val m = 1
    else inv_mod_full a m = Some None"
proof -
  let ?m = "big_val m" and ?a = "big_val a"
  have m: "?m \<noteq> 0" "\<not> is_zero m" "\<not> is_one m" using assms by (auto simp: is_zero_val)
  obtain a0 where a0: "big_rem a m = Some a0" "big_val a0 = ?a mod ?m" using big_rem_val [OF m(1)] by blast
  have g: "gcd ?m (big_val a0) = gcd ?a ?m" unfolding a0(2) by (metis gcd.commute gcd_red_nat)
  show ?thesis
  proof (cases "big_val a0 = 0")
    case True
    then show ?thesis using g m a0 assms by (simp add: inv_mod_full_def is_zero_val)
  next
    case False
    have "int ?m dvd sb_val sb_zero * int ?a - int ?m" by simp
    moreover have "int ?m dvd sb_val (sb_from_uint (from_u64 1)) * int ?a - int (big_val a0)"
      by (simp add: a0(2) zmod_int dvd_minus_mod)
    ultimately obtain gg x where l: "euclid_loop m a0 sb_zero (sb_from_uint (from_u64 1)) = Some (gg, x)" "big_val gg = gcd ?a ?m"
      "int ?m dvd sb_val x * int ?a - int (big_val gg)"
      using euclid_loop_val [where m = "int ?m" and a = "int ?a" and old_r = m and r = a0] g by metis
    obtain r where r: "big_rem (sb_mag x) m = Some r" "big_val r = big_val (sb_mag x) mod ?m" using big_rem_val [OF m(1)] by blast
    show ?thesis
    proof (cases "gcd ?a ?m = 1")
      case True
      define y where "y = (if sb_neg x then if is_zero r then r else big_sub m r else r)"
      have lt: "big_val r < ?m" using r(2) m(1) by simp
      have run: "inv_mod_full a m = Some (Some y)"
        using m a0 False l(1,2) True r(1) by (simp add: inv_mod_full_def y_def is_zero_val)
      have y: "big_val y < ?m" using lt m(1) by (simp add: y_def is_zero_val)
      have e: "int ?m dvd int (big_val (sb_mag x)) - int (big_val r)"
        unfolding r(2) zmod_int by (rule dvd_minus_mod)
      have "int ?m dvd int (big_val y) - sb_val x"
      proof (cases "sb_neg x \<and> big_val r \<noteq> 0")
        case neg: True
        then have "int (big_val y) - sb_val x = int ?m + (int (big_val (sb_mag x)) - int (big_val r))"
          using lt by (simp add: y_def is_zero_val of_nat_diff sb_val_def)
        then show ?thesis using e by simp
      next
        case False
        then have "int (big_val y) - sb_val x = (if sb_neg x then int (big_val (sb_mag x)) - int (big_val r) else - (int (big_val (sb_mag x)) - int (big_val r)))"
          by (auto simp: y_def is_zero_val sb_val_def)
        then show ?thesis using e by (auto simp only: dvd_minus_iff split: if_splits)
      qed
      moreover have "int ?m dvd sb_val x * int ?a - 1" using l(2,3) True by simp
      moreover have "int (big_val y) * int ?a - 1 = (int (big_val y) - sb_val x) * int ?a + (sb_val x * int ?a - 1)"
        by (simp add: algebra_simps)
      ultimately have "int ?m dvd int (big_val y * ?a) - 1" by (simp only: of_nat_mult) (metis dvd_add dvd_mult2)
      then have "int (big_val y * ?a) mod int ?m = 1 mod int ?m" by (simp only: mod_eq_dvd_iff)
      also have "\<dots> = 1" using assms by simp
      finally have "big_val y * ?a mod ?m = 1" by (metis of_nat_1 of_nat_eq_iff zmod_int)
      then show ?thesis using run y True by (auto simp: mult.commute)
    next
      case False
      then show ?thesis using m a0 \<open>big_val a0 \<noteq> 0\<close> l(1,2) by (simp add: inv_mod_full_def is_zero_val)
    qed
  qed
qed

section \<open>Properties\<close>

text \<open>Modular arithmetic. On reduced operands the sum, difference and product modulo \<open>n\<close> are those of
  the integers, and the power is the power modulo \<open>n\<close> for every base and every exponent but zero, whose
  result is one.\<close>

theorem modular_arithmetic_exact:
  assumes "big_val a < big_val n" "big_val b < big_val n"
  shows "int (big_val (add_mod a b n)) = (int (big_val a) + int (big_val b)) mod int (big_val n) \<and>
    int (big_val (sub_mod a b n)) = (int (big_val a) - int (big_val b)) mod int (big_val n) \<and>
    (\<exists>r. mul_mod a b n = Some r \<and> big_val r = big_val a * big_val b mod big_val n) \<and>
    (\<exists>r. pow_mod x e n = Some r \<and> big_val r = (if big_val e = 0 then 1 else big_val x ^ big_val e mod big_val n))"
proof -
  have n: "big_val n \<noteq> 0" using assms by auto
  obtain r where "mul_mod a b n = Some r" "big_val r = big_val a * big_val b mod big_val n" using mul_mod_val [OF n] by blast
  moreover have "int (big_val (add_mod a b n)) = (int (big_val a) + int (big_val b)) mod int (big_val n)"
    by (simp only: add_mod_val [OF assms] zmod_int of_nat_add)
  ultimately show ?thesis using sub_mod_val [OF assms] pow_mod_val [OF n, of x e] by blast
qed

theorem modular_arithmetic_exact_witness:
  "int (big_val (sub_mod (from_u64 2) (from_u64 5) (from_u64 7))) = 4"
  using modular_arithmetic_exact [of "from_u64 2" "from_u64 7" "from_u64 5"] by simp

text \<open>The modular inverse. For a modulus above one \<open>inv_mod_full\<close> returns the inverse exactly when
  there is one, reduced; the extended Euclidean loop terminates.\<close>

theorem inv_mod_exact:
  assumes "1 < big_val m"
  shows "if coprime (big_val a) (big_val m)
    then \<exists>x. inv_mod_full a m = Some (Some x) \<and> big_val x < big_val m \<and> big_val a * big_val x mod big_val m = 1
    else inv_mod_full a m = Some None"
  using inv_mod_full_val [OF assms, of a] by (simp add: coprime_iff_gcd_eq_1)

theorem inv_mod_exact_witness:
  "\<exists>x. inv_mod_full (from_u64 3) (from_u64 7) = Some (Some x) \<and> 3 * big_val x mod 7 = 1"
proof -
  have "coprime (3 :: nat) 7" by (simp add: coprime_iff_gcd_eq_1 gcd_non_0_nat)
  then show ?thesis using inv_mod_exact [of "from_u64 7" "from_u64 3"] by auto
qed

end
