(* ===== verification/Prime_Test.thy ===== *)
theory Prime_Test
  imports Big_Mod
begin

text \<open>
  Primality testing and prime generation of \<^verbatim>\<open>crates/cv_crypto/src/bigint.rs\<close>. The random source is
  a parameter: a function from its state and a buffer length to the filled buffer and the next state.
  A loop that does not end is \<open>None\<close>.
\<close>

section \<open>Definitions\<close>

type_synonym 's rng = "'s \<Rightarrow> nat \<Rightarrow> bytes \<times> 's"

definition SMALL :: "u64 list" where
  "SMALL = [3, 5, 7, 11, 13, 17, 19, 23, 29, 31, 37, 41, 43, 47, 53, 59, 61, 67, 71, 73, 79, 83, 89, 97, 101]"

text \<open>Trial division: \<open>Some b\<close> decides, \<open>None\<close> goes on to the next prime.\<close>

fun trial_divide :: "biguint \<Rightarrow> u64 list \<Rightarrow> bool option option" where
  "trial_divide n [] = Some None"
| "trial_divide n (p # ps) =
     (let pb = from_u64 p in
      if big_cmp n pb = Equal then Some (Some True)
      else Option.bind (big_rem n pb) (\<lambda>r. if is_zero r then Some (Some False) else trial_divide n ps))"

definition shr_one :: "biguint \<Rightarrow> biguint" where
  "shr_one n = big_normalize \<lparr>limbs = shr_limbs (limbs n) 1\<rparr>"

partial_function (option) split_even :: "biguint \<Rightarrow> nat \<Rightarrow> (biguint \<times> nat) option" where
  "split_even d s = (if is_even d then split_even (shr_one d) (s + 1) else Some (d, s))"

partial_function (option) draw_base :: "'s rng \<Rightarrow> nat \<Rightarrow> biguint \<Rightarrow> 's \<Rightarrow> (biguint \<times> 's) option" where
  "draw_base rng nbytes n_minus_1 g =
     (case rng g nbytes of (buf, g') \<Rightarrow>
        Option.bind (big_rem (from_be_bytes buf) (dec_one n_minus_1)) (\<lambda>cand.
          let a = big_add cand (from_u64 2)
          in if big_cmp a (from_u64 2) \<noteq> Less \<and> big_cmp a n_minus_1 = Less then Some (a, g')
             else draw_base rng nbytes n_minus_1 g'))"

text \<open>Squaring up to \<open>k\<close> times in search of \<open>n - 1\<close>.\<close>

primrec square_up :: "biguint \<Rightarrow> biguint \<Rightarrow> nat \<Rightarrow> biguint \<Rightarrow> bool option" where
  "square_up n n_minus_1 0 x = Some False"
| "square_up n n_minus_1 (Suc k) x =
     Option.bind (mul_mod x x n) (\<lambda>x. if big_cmp x n_minus_1 = Equal then Some True else square_up n n_minus_1 k x)"

primrec witness_rounds :: "'s rng \<Rightarrow> biguint \<Rightarrow> biguint \<Rightarrow> biguint \<Rightarrow> nat \<Rightarrow> nat \<Rightarrow> nat \<Rightarrow> 's \<Rightarrow> (bool \<times> 's) option" where
  "witness_rounds rng n n_minus_1 d s nbytes 0 g = Some (True, g)"
| "witness_rounds rng n n_minus_1 d s nbytes (Suc k) g = do {
     (a, g) \<leftarrow> draw_base rng nbytes n_minus_1 g;
     x \<leftarrow> pow_mod a d n;
     if is_one x \<or> big_cmp x n_minus_1 = Equal then witness_rounds rng n n_minus_1 d s nbytes k g
     else do {
       hit \<leftarrow> square_up n n_minus_1 (s - 1) x;
       if hit then witness_rounds rng n n_minus_1 d s nbytes k g else Some (False, g) } }"

definition is_probable_prime :: "'s rng \<Rightarrow> biguint \<Rightarrow> nat \<Rightarrow> 's \<Rightarrow> (bool \<times> 's) option" where
  "is_probable_prime rng n rounds g =
     (if is_zero n \<or> is_one n then Some (False, g)
      else let two = from_u64 2; three = from_u64 3 in
      if big_cmp n three \<noteq> Greater then Some (big_cmp n two = Equal \<or> big_cmp n three = Equal, g)
      else if is_even n then Some (False, g)
      else do {
        small \<leftarrow> trial_divide n SMALL;
        case small of Some b \<Rightarrow> Some (b, g)
        | None \<Rightarrow> do {
            let n_minus_1 = dec_one n;
            (d, s) \<leftarrow> split_even n_minus_1 0;
            let nbytes = (bit_len n + 7) div 8;
            witness_rounds rng n n_minus_1 d s nbytes rounds g } })"

definition big_set_bit :: "biguint \<Rightarrow> nat \<Rightarrow> biguint" where
  "big_set_bit n idx =
     (let li = idx div 64; off = idx mod 64;
          ls = (if length (limbs n) \<le> li then limbs n @ replicate (li + 1 - length (limbs n)) 0 else limbs n)
      in big_normalize \<lparr>limbs = ls[li := ls ! li OR push_bit off 1]\<rparr>)"

definition prime_candidate :: "nat \<Rightarrow> bytes \<Rightarrow> biguint" where
  "prime_candidate bits buf =
     (let nbytes = (bits + 7) div 8;
          top_bit_pos = bits - 1;
          excess = nbytes * 8 - bits;
          buf = (if excess > 0 then buf[0 := buf ! 0 AND drop_bit excess 0xFF] else buf);
          cand = big_set_bit (from_be_bytes buf) top_bit_pos;
          cand = (if top_bit_pos \<ge> 1 then big_set_bit cand (top_bit_pos - 1) else cand)
      in big_set_bit cand 0)"

partial_function (option) random_prime_loop :: "nat \<Rightarrow> 's rng \<Rightarrow> 's \<Rightarrow> (biguint \<times> 's) option" where
  "random_prime_loop bits rng g =
     (case rng g ((bits + 7) div 8) of (buf, g) \<Rightarrow>
        let cand = prime_candidate bits buf
        in if bit_len cand \<noteq> bits then random_prime_loop bits rng g
           else Option.bind (is_probable_prime rng cand 40 g) (\<lambda>(b, g).
             if b then Some (cand, g) else random_prime_loop bits rng g))"

definition random_prime :: "nat \<Rightarrow> 's rng \<Rightarrow> 's \<Rightarrow> (biguint \<times> 's) option" where
  "random_prime bits rng g = (if bits < 16 then None else random_prime_loop bits rng g)"

section \<open>Fermat's little theorem\<close>

definition is_prime :: "nat \<Rightarrow> bool" where
  "is_prime p \<longleftrightarrow> 1 < p \<and> (\<forall>d. d dvd p \<longrightarrow> d = 1 \<or> d = p)"

lemma prime_coprime: "is_prime p \<Longrightarrow> \<not> p dvd a \<Longrightarrow> coprime p a"
  by (metis coprime_iff_gcd_eq_1 gcd_dvd1 gcd_dvd2 is_prime_def)

lemma prime_dvd_mult: "is_prime p \<Longrightarrow> p dvd a * b \<Longrightarrow> p dvd a \<or> p dvd b"
  using prime_coprime coprime_dvd_mult_right_iff by blast

lemma prime_mult_cancel:
  assumes "is_prime p" "\<not> p dvd a" "a * x mod p = a * y mod p"
  shows "x mod p = y mod p"
proof -
  have "int p dvd int a * (int x - int y)"
  proof -
    have "int (a * x) mod int p = int (a * y) mod int p" using assms(3) by (metis zmod_int)
    then have "int p dvd int (a * x) - int (a * y)" by (simp only: mod_eq_dvd_iff)
    then show ?thesis by (simp add: algebra_simps)
  qed
  moreover have "coprime (int p) (int a)" using prime_coprime [OF assms(1,2)] by simp
  ultimately have "int p dvd int x - int y" by (simp add: coprime_dvd_mult_right_iff)
  then show ?thesis by (metis mod_eq_dvd_iff of_nat_eq_iff zmod_int)
qed

lemma mod_prod_cong: "(\<Prod>i\<in>A. f i mod m) mod m = (\<Prod>i\<in>A. f i :: nat) mod m"
proof (induction A rule: infinite_finite_induct)
  case (insert x F)
  then show ?case by (simp add: mod_mult_left_eq) (metis insert.IH mod_mult_right_eq)
qed auto

theorem fermat_little:
  assumes p: "is_prime p" and a: "\<not> p dvd a"
  shows "a ^ (p - 1) mod p = 1"
proof -
  let ?A = "{1..<p}" and ?f = "\<lambda>i. a * i mod p"
  have p1: "1 < p" using p by (simp add: is_prime_def)
  have inj: "inj_on ?f ?A"
  proof (rule inj_onI)
    fix x y assume "x \<in> ?A" "y \<in> ?A" "?f x = ?f y"
    then show "x = y" using prime_mult_cancel [OF p a, of x y] by simp
  qed
  have nd: "\<not> p dvd i" if "i \<in> ?A" for i using that by (auto dest: dvd_imp_le)
  have "?f ` ?A \<subseteq> ?A"
  proof
    fix y assume "y \<in> ?f ` ?A"
    then obtain i where i: "i \<in> ?A" "y = ?f i" by blast
    have "y \<noteq> 0" using prime_dvd_mult [OF p, of a i] a nd [OF i(1)] i(2) by (auto simp: dvd_eq_mod_eq_0)
    then show "y \<in> ?A" using i(2) p1 by auto
  qed
  then have img: "?f ` ?A = ?A" using inj by (intro card_subset_eq) (simp_all add: card_image)
  have "(\<Prod>i\<in>?A. a * i) mod p = (\<Prod>i\<in>?A. ?f i) mod p" by (simp only: mod_prod_cong)
  also have "(\<Prod>i\<in>?A. ?f i) = \<Prod>?A" using prod.reindex [OF inj, of "\<lambda>x. x"] img by simp
  finally have "a ^ (p - 1) * \<Prod>?A mod p = 1 * \<Prod>?A mod p" by (simp add: prod.distrib)
  moreover have "\<not> p dvd \<Prod>?A"
  proof -
    have "\<not> p dvd \<Prod>B" if "finite B" "B \<subseteq> ?A" for B
      using that
    proof (induction B rule: finite_induct)
      case empty
      then show ?case using p1 by simp
    next
      case (insert x F)
      then show ?case using prime_dvd_mult [OF p, of x "\<Prod>F"] nd [of x] by auto
    qed
    then show ?thesis by simp
  qed
  ultimately have "a ^ (p - 1) mod p = 1 mod p" using prime_mult_cancel [OF p] by (metis mult.commute)
  then show ?thesis using p1 by simp
qed

lemma prime_sqrt_one:
  assumes "is_prime p" "x * x mod p = 1" "x < p"
  shows "x = 1 \<or> x = p - 1"
proof -
  have p1: "1 < p" using assms(1) by (simp add: is_prime_def)
  have x0: "0 < x" using assms(2) by (cases x) auto
  have "int (x * x) mod int p = 1 mod int p" using assms(2) p1 by (metis mod_less of_nat_1 zmod_int)
  then have "int p dvd int (x * x) - 1" by (simp only: mod_eq_dvd_iff)
  moreover have "int (x * x) - 1 = int ((x - 1) * (x + 1))" using x0 by (cases x) (simp_all add: algebra_simps)
  ultimately have "p dvd (x - 1) * (x + 1)" by (metis of_nat_dvd_iff)
  then consider "p dvd x - 1" | "p dvd x + 1" using prime_dvd_mult [OF assms(1)] by blast
  then show ?thesis
  proof cases
    case 1
    then have "x - 1 = 0" using assms(3) by (cases "x - 1") (auto dest: dvd_imp_le)
    then show ?thesis using x0 by simp
  next
    case 2
    then show ?thesis using assms(3) by (auto dest: dvd_imp_le)
  qed
qed

section \<open>The parts of the test\<close>

lemma shr_one_val [simp]: "big_val (shr_one n) = big_val n div 2"
  using shr_limbs_val(1) [of 1 "limbs n"] by (simp add: shr_one_def big_val_limbs) (simp add: big_val_def)

lemma split_even_val:
  "big_val d \<noteq> 0 \<Longrightarrow> \<exists>d' s'. split_even d s = Some (d', s') \<and> odd (big_val d') \<and> s \<le> s' \<and> big_val d = 2 ^ (s' - s) * big_val d'"
proof (induction "big_val d" arbitrary: d s rule: less_induct)
  case less
  show ?case
  proof (cases "even (big_val d)")
    case True
    then have "big_val (shr_one d) < big_val d" "big_val (shr_one d) \<noteq> 0" using less.prems by auto
    from less.hyps [OF this, of "s + 1"] obtain d' s' where IH: "split_even (shr_one d) (s + 1) = Some (d', s')" "odd (big_val d')" "s + 1 \<le> s'"
      "big_val d div 2 = 2 ^ (s' - (s + 1)) * big_val d'"
      by auto
    have "big_val d = 2 * (big_val d div 2)" using True by simp
    also have "\<dots> = 2 ^ Suc (s' - (s + 1)) * big_val d'" by (simp only: IH(4) power_Suc mult.assoc)
    also have "Suc (s' - (s + 1)) = s' - s" using IH(3) by simp
    finally show ?thesis using IH True by (subst split_even.simps) auto
  qed (subst split_even.simps, simp)
qed

lemma SMALL_nz: "p \<in> set SMALL \<Longrightarrow> unat p \<noteq> 0"
  by (auto simp: SMALL_def)

lemma is_prime_check: "is_prime n \<longleftrightarrow> 1 < n \<and> list_all (\<lambda>d. \<not> d dvd n) [2..<n]"
proof
  assume "is_prime n"
  then show "1 < n \<and> list_all (\<lambda>d. \<not> d dvd n) [2..<n]" by (auto simp: is_prime_def list_all_iff)
next
  assume n: "1 < n \<and> list_all (\<lambda>d. \<not> d dvd n) [2..<n]"
  have "d = 1 \<or> d = n" if "d dvd n" for d
  proof (rule ccontr)
    assume "\<not> (d = 1 \<or> d = n)"
    moreover have "d \<le> n" "d \<noteq> 0" using that n by (auto dest: dvd_imp_le intro: gr0I)
    ultimately have "d \<in> set [2..<n]" by auto
    then show False using n that by (auto simp: list_all_iff)
  qed
  then show "is_prime n" using n by (simp add: is_prime_def)
qed

lemma SMALL_prime: "p \<in> set SMALL \<Longrightarrow> is_prime (unat p)"
  by (auto simp: SMALL_def is_prime_check)

lemma SMALL_divides: "2 \<le> d \<Longrightarrow> d < 103 \<Longrightarrow> \<exists>p \<in> set (2 # map unat SMALL). p dvd d"
proof -
  have "\<forall>d \<in> set [2..<103]. \<exists>p \<in> set (2 # map unat SMALL). p dvd d" by (simp add: SMALL_def)
  then show "2 \<le> d \<Longrightarrow> d < 103 \<Longrightarrow> \<exists>p \<in> set (2 # map unat SMALL). p dvd d" by (simp only: set_upt atLeastLessThan_iff)
qed

lemma trial_divide_val:
  assumes "\<forall>p \<in> set ps. unat p \<noteq> 0"
  shows "\<exists>b. trial_divide n ps = Some b \<and>
    (case b of None \<Rightarrow> \<forall>p \<in> set ps. \<not> unat p dvd big_val n
     | Some True \<Rightarrow> \<exists>p \<in> set ps. big_val n = unat p
     | Some False \<Rightarrow> \<exists>p \<in> set ps. unat p dvd big_val n \<and> unat p \<noteq> big_val n)"
  using assms
proof (induction ps)
  case (Cons p ps)
  show ?case
  proof (cases "big_val n = unat p")
    case True
    then show ?thesis by (auto simp: Let_def)
  next
    case False
    obtain r where r: "big_rem n (from_u64 p) = Some r" "big_val r = big_val n mod unat p"
      using big_rem_val [of "from_u64 p" n] Cons.prems by auto
    obtain b where b: "trial_divide n ps = Some b"
      "case b of None \<Rightarrow> \<forall>p \<in> set ps. \<not> unat p dvd big_val n
       | Some True \<Rightarrow> \<exists>p \<in> set ps. big_val n = unat p
       | Some False \<Rightarrow> \<exists>p \<in> set ps. unat p dvd big_val n \<and> unat p \<noteq> big_val n"
      using Cons by auto
    show ?thesis
    proof (cases "unat p dvd big_val n")
      case True
      then show ?thesis using False r by (auto simp: Let_def is_zero_val)
    next
      case nd: False
      then have "big_val r \<noteq> 0" using r(2) by (simp add: dvd_eq_mod_eq_0)
      then have "trial_divide n (p # ps) = Some b" using False r b(1) by (simp add: Let_def is_zero_val)
      then show ?thesis using b(2) nd by (auto split: option.splits bool.splits)
    qed
  qed
qed simp

lemma draw_base_val:
  assumes "draw_base rng nbytes m g = Some (a, g')"
  shows "2 \<le> big_val a \<and> big_val a < big_val m"
  using draw_base.raw_induct [where P = "\<lambda>rng nbytes m g r. 2 \<le> big_val (fst r) \<and> big_val (fst r) < big_val m", OF _ assms]
  by (fastforce split: prod.splits if_splits simp: Let_def bind_eq_Some_conv)

lemma square_up_val:
  "big_val n \<noteq> 0 \<Longrightarrow> \<exists>b. square_up n m k x = Some b \<and>
    (b \<longleftrightarrow> (\<exists>i. 1 \<le> i \<and> i \<le> k \<and> big_val x ^ 2 ^ i mod big_val n = big_val m))"
proof (induction k arbitrary: x)
  case (Suc k)
  obtain y where y: "mul_mod x x n = Some y" "big_val y = big_val x * big_val x mod big_val n"
    using mul_mod_val [OF Suc.prems] by blast
  have y2: "big_val y ^ 2 ^ i mod big_val n = big_val x ^ 2 ^ Suc i mod big_val n" for i
    unfolding y(2) by (simp add: power_mod power_mult_distrib power_mult power2_eq_square)
  obtain b where b: "square_up n m k y = Some b"
    "b \<longleftrightarrow> (\<exists>i. 1 \<le> i \<and> i \<le> k \<and> big_val y ^ 2 ^ i mod big_val n = big_val m)"
    using Suc by blast
  have "(\<exists>i. 1 \<le> i \<and> i \<le> Suc k \<and> big_val x ^ 2 ^ i mod big_val n = big_val m) \<longleftrightarrow> big_val y = big_val m \<or> b"
  proof -
    have "big_val y = big_val x ^ 2 ^ Suc 0 mod big_val n" using y(2) by (simp add: power2_eq_square)
    moreover have "b \<longleftrightarrow> (\<exists>i. 1 \<le> i \<and> i \<le> k \<and> big_val x ^ 2 ^ Suc i mod big_val n = big_val m)" using b(2) y2 by simp
    ultimately show ?thesis by (metis One_nat_def Suc_le_mono le0 le_SucE not0_implies_Suc not_less_eq_eq)
  qed
  then show ?case using y(1) b(1) by auto
qed auto

text \<open>In the chain of squares that ends in one, the first one is preceded by minus one.\<close>

lemma square_chain:
  assumes "is_prime p"
  shows "x < p \<Longrightarrow> x ^ 2 ^ k mod p = 1 \<Longrightarrow> x = 1 \<or> (\<exists>i < k. x ^ 2 ^ i mod p = p - 1)"
proof (induction k arbitrary: x)
  case (Suc k)
  have p1: "1 < p" using assms by (simp add: is_prime_def)
  let ?y = "x * x mod p"
  have y2: "?y ^ 2 ^ i mod p = x ^ 2 ^ Suc i mod p" for i
    by (simp add: power_mod power_mult_distrib power_mult power2_eq_square)
  have "?y < p" "?y ^ 2 ^ k mod p = 1" using p1 Suc.prems(2) y2 [of k] by simp_all
  from Suc.IH [OF this] show ?case
  proof
    assume "?y = 1"
    then have "x = 1 \<or> x = p - 1" using prime_sqrt_one [OF assms _ Suc.prems(1)] by blast
    then show ?thesis using p1 by (auto intro!: exI [of _ 0])
  next
    assume "\<exists>i < k. ?y ^ 2 ^ i mod p = p - 1"
    then show ?thesis using y2 by (metis Suc_mono)
  qed
qed simp

section \<open>The test\<close>

lemma witness_rounds_val:
  assumes n: "1 < big_val n" and m: "big_val m = big_val n - 1"
    and draws: "\<And>g. draw_base rng nbytes m g \<noteq> None"
    and d: "big_val n - 1 = 2 ^ s * big_val d" "odd (big_val d)"
  shows "\<exists>b g'. witness_rounds rng n m d s nbytes k g = Some (b, g') \<and> (is_prime (big_val n) \<longrightarrow> b)"
proof (induction k arbitrary: g)
  case (Suc k)
  have n0: "big_val n \<noteq> 0" using n by simp
  obtain a g1 where a: "draw_base rng nbytes m g = Some (a, g1)" using draws [of g] by auto
  obtain x where x: "pow_mod a d n = Some x" "big_val x = big_val a ^ big_val d mod big_val n"
    using pow_mod_val [OF n0, of a d] d(2) by (metis even_zero)
  obtain hit where hit: "square_up n m (s - 1) x = Some hit"
    "hit \<longleftrightarrow> (\<exists>i. 1 \<le> i \<and> i \<le> s - 1 \<and> big_val x ^ 2 ^ i mod big_val n = big_val m)"
    using square_up_val [OF n0] by blast
  have "big_val x = 1 \<or> big_val x = big_val m \<or> hit" if p: "is_prime (big_val n)"
  proof -
    have "\<not> big_val n dvd big_val a" using draw_base_val [OF a] m by (auto dest: dvd_imp_le)
    then have "big_val a ^ (2 ^ s * big_val d) mod big_val n = 1" using fermat_little [OF p] d(1) by metis
    then have "big_val x ^ 2 ^ s mod big_val n = 1" by (simp add: x(2) power_mod power_mult [symmetric] mult.commute)
    then consider "big_val x = 1" | i where "i < s" "big_val x ^ 2 ^ i mod big_val n = big_val m"
      using square_chain [OF p, of "big_val x" s] x(2) n m by auto
    then show ?thesis
    proof cases
      case (2 i)
      show ?thesis
      proof (cases i)
        case 0
        then show ?thesis using 2(2) x(2) n by simp
      next
        case (Suc j)
        then have "hit" using 2 hit(2) by (auto intro!: exI [of _ i])
        then show ?thesis by blast
      qed
    qed blast
  qed
  then show ?case using Suc.IH a x(1) hit(1) by auto
qed auto

theorem is_probable_prime_val:
  assumes draws: "\<And>g. draw_base rng ((bit_len n + 7) div 8) (dec_one n) g \<noteq> None"
  shows "\<exists>b g'. is_probable_prime rng n rounds g = Some (b, g') \<and> (is_prime (big_val n) \<longrightarrow> b) \<and>
    (b \<and> big_val n < 10609 \<longrightarrow> is_prime (big_val n))"
proof -
  let ?N = "big_val n"
  have small: "is_prime 2" "is_prime 3" "\<not> is_prime 0" "\<not> is_prime 1"
    by (simp_all add: is_prime_check)
  consider "?N \<le> 1" | "?N = 2 \<or> ?N = 3" | "3 < ?N" "even ?N" | "3 < ?N" "odd ?N" by linarith
  then show ?thesis
  proof cases
    case 1
    then have "is_probable_prime rng n rounds g = Some (False, g)" "\<not> is_prime ?N"
      by (auto simp: is_probable_prime_def is_zero_val is_prime_def)
    then show ?thesis by auto
  next
    case 2
    then have "is_probable_prime rng n rounds g = Some (True, g)" "is_prime ?N" using small
      by (auto simp: is_probable_prime_def is_zero_val Let_def compare_def)
    then show ?thesis by auto
  next
    case 3
    then have "\<not> is_prime ?N" by (auto simp: is_prime_def)
    then show ?thesis using 3 by (auto simp: is_probable_prime_def is_zero_val Let_def compare_def)
  next
    case 4
    obtain t where t: "trial_divide n SMALL = Some t" "case t of None \<Rightarrow> \<forall>p \<in> set SMALL. \<not> unat p dvd ?N
       | Some True \<Rightarrow> \<exists>p \<in> set SMALL. ?N = unat p | Some False \<Rightarrow> \<exists>p \<in> set SMALL. unat p dvd ?N \<and> unat p \<noteq> ?N"
      using trial_divide_val [of SMALL n] SMALL_nz by blast
    have run: "is_probable_prime rng n rounds g = (case t of Some b \<Rightarrow> Some (b, g) | None \<Rightarrow> do {
        (d, s) \<leftarrow> split_even (dec_one n) 0; witness_rounds rng n (dec_one n) d s ((bit_len n + 7) div 8) rounds g })"
      using 4 t(1) by (simp add: is_probable_prime_def is_zero_val Let_def compare_def)
    show ?thesis
    proof (cases t)
      case (Some b)
      have "b \<longleftrightarrow> is_prime ?N"
      proof (cases b)
        case True
        then show ?thesis using t(2) Some SMALL_prime by auto
      next
        case False
        then obtain p where p: "p \<in> set SMALL" "unat p dvd ?N" "unat p \<noteq> ?N" using t(2) Some by auto
        then have "unat p \<noteq> 1" using SMALL_prime [OF p(1)] by (auto simp: is_prime_def)
        then show ?thesis using False p by (auto simp: is_prime_def)
      qed
      then show ?thesis using run Some by auto
    next
      case None
      have m: "big_val (dec_one n) = ?N - 1" using 4 by simp
      obtain d s where d: "split_even (dec_one n) 0 = Some (d, s)" "odd (big_val d)" "?N - 1 = 2 ^ s * big_val d"
        using split_even_val [of "dec_one n" 0] m 4 by auto
      obtain b g' where b: "witness_rounds rng n (dec_one n) d s ((bit_len n + 7) div 8) rounds g = Some (b, g')" "is_prime ?N \<longrightarrow> b"
        using witness_rounds_val [OF _ m draws d(3,2)] 4 by force
      have "is_prime ?N" if "?N < 10609"
      proof (rule ccontr)
        assume "\<not> is_prime ?N"
        then obtain c where c: "c dvd ?N" "c \<noteq> 1" "c \<noteq> ?N" using 4 by (auto simp: is_prime_def)
        then obtain e where e: "?N = c * e" by (auto simp: dvd_def)
        have "c \<noteq> 0" "e \<noteq> 0" using e 4 by (auto intro!: gr0I)
        moreover have "e \<noteq> 1" using e c(3) by auto
        ultimately have ne: "2 \<le> c" "2 \<le> e" using c(2) by linarith+
        have "c < 103 \<or> e < 103"
        proof (rule ccontr)
          assume "\<not> (c < 103 \<or> e < 103)"
          then have "103 * 103 \<le> c * e" by (intro mult_le_mono) auto
          then show False using e that by simp
        qed
        then obtain p where "p \<in> set (2 # map unat SMALL)" "p dvd ?N"
          using SMALL_divides [of c] SMALL_divides [of e] ne e by (metis dvd_mult dvd_mult2)
        then show False using t(2) None 4 by auto
      qed
      then show ?thesis using run None d(1) b by auto
    qed
  qed
qed

section \<open>Candidates\<close>

lemma bit_big_val: "bit (big_val a) i \<longleftrightarrow> bit (limb_or_zero (limbs a) (i div 64)) (i mod 64)"
proof -
  have one: "drop_bit off l AND 1 = 1 \<longleftrightarrow> bit l off" for l :: u64 and off
    by (simp add: and_one_eq odd_iff_mod_2_eq_one [symmetric] bit_iff_odd_drop_bit)
  show ?thesis using big_bit_val [of a i]
    by (simp add: bit_iff_odd [of "big_val a"] big_bit_def limb_or_zero_def Let_def one split: option.splits)
qed

lemma big_set_bit_val: "bit (big_val (big_set_bit n idx)) i \<longleftrightarrow> bit (big_val n) i \<or> i = idx"
proof -
  let ?li = "idx div 64"
  define ls where "ls = (if length (limbs n) \<le> ?li then limbs n @ replicate (?li + 1 - length (limbs n)) 0 else limbs n)"
  have len: "?li < length ls" by (simp add: ls_def)
  have get: "limb_or_zero ls j = limb_or_zero (limbs n) j" for j
    by (auto simp: ls_def limb_or_zero_def vec_get_def nth_append)
  have "big_val (big_set_bit n idx) = big_val \<lparr>limbs = ls[?li := ls ! ?li OR push_bit (idx mod 64) 1]\<rparr>"
    by (simp add: big_set_bit_def Let_def ls_def)
  moreover have "bit (big_val \<lparr>limbs = ls[?li := ls ! ?li OR push_bit (idx mod 64) 1]\<rparr>) i \<longleftrightarrow> bit (big_val n) i \<or> i = idx"
  proof (cases "i div 64 = ?li")
    case True
    have "i = idx \<longleftrightarrow> i mod 64 = idx mod 64" using True by (metis div_mult_mod_eq)
    moreover have "ls ! ?li = limb_or_zero (limbs n) (i div 64)" using get [of ?li] len True by (simp add: limb_or_zero_def)
    ultimately show ?thesis using True len
      by (simp add: bit_big_val limb_or_zero_def [of "ls[?li := x]" for x] vec_get_def) (auto simp: bit_simps)
  next
    case False
    have "limb_or_zero (ls[?li := x]) (i div 64) = limb_or_zero (limbs n) (i div 64)" for x
      using get [of "i div 64"] False by (auto simp: limb_or_zero_def vec_get_def)
    then show ?thesis using False by (auto simp: bit_big_val)
  qed
  ultimately show ?thesis by simp
qed

lemma be_val_Cons: "be_val (b # bs) = unat b * 256 ^ length bs + be_val bs"
  using be_val_append [of "[b]" bs] by simp

theorem prime_candidate_window:
  assumes "16 \<le> bits" "length buf = (bits + 7) div 8"
  shows "3 * 2 ^ (bits - 2) \<le> big_val (prime_candidate bits buf)" "big_val (prime_candidate bits buf) < 2 ^ bits"
    "odd (big_val (prime_candidate bits buf))" "bit_len (prime_candidate bits buf) = bits"
proof -
  let ?c = "prime_candidate bits buf"
  define nb where "nb = (bits + 7) div 8"
  define ex where "ex = nb * 8 - bits"
  define buf' where "buf' = (if ex > 0 then buf[0 := buf ! 0 AND drop_bit ex 0xFF] else buf)"
  have nb: "bits = nb * 8 - ex" "ex < 8" "ex \<le> nb * 8" "0 < nb" using assms(1) by (auto simp: nb_def ex_def)
  have small: "be_val buf' < 2 ^ bits"
  proof (cases "ex = 0")
    case True
    then show ?thesis using be_val_less [of buf] assms(2) nb by (simp add: buf'_def nb_def [symmetric] power_mult mult.commute [of nb])
  next
    case False
    obtain b bs where bs: "buf = b # bs" "length bs = nb - 1" using assms(2) nb(4) by (cases buf) (auto simp: nb_def)
    have "unat (b AND drop_bit ex 0xFF) < 2 ^ (8 - ex)"
    proof -
      have "unat (b AND drop_bit ex 0xFF) \<le> unat (drop_bit ex 0xFF :: u8)"
        by (metis word_and_le1 word_le_nat_alt)
      also have "\<dots> = 255 div 2 ^ ex" by (subst unat_drop_bit_eq) (simp add: drop_bit_eq_div)
      also have "\<dots> < 2 ^ (8 - ex)"
      proof (rule less_mult_imp_div_less)
        have "(2 :: nat) ^ (8 - ex) * 2 ^ ex = 2 ^ 8" using nb(2) by (simp add: power_add [symmetric])
        then show "255 < (2 :: nat) ^ (8 - ex) * 2 ^ ex" by simp
      qed
      finally show ?thesis .
    qed
    then have "(unat (b AND drop_bit ex 0xFF) + 1) * 256 ^ (nb - 1) \<le> 2 ^ (8 - ex) * 256 ^ (nb - 1)" by (intro mult_le_mono1) simp
    moreover have "be_val bs < 256 ^ (nb - 1)" using be_val_less [of bs] bs(2) by simp
    ultimately have "be_val buf' < 2 ^ (8 - ex) * 256 ^ (nb - 1)"
      using False bs by (simp add: buf'_def be_val_Cons)
    also have "(256 :: nat) ^ (nb - 1) = 2 ^ (8 * (nb - 1))" by (simp add: power_mult)
    also have "2 ^ (8 - ex) * (2 :: nat) ^ (8 * (nb - 1)) = 2 ^ bits"
    proof -
      have "8 - ex + 8 * (nb - 1) = bits" using nb by simp
      then show ?thesis by (simp only: power_add [symmetric])
    qed
    finally show ?thesis .
  qed
  have c: "bit (big_val ?c) i \<longleftrightarrow> bit (be_val buf') i \<or> i = bits - 1 \<or> i = bits - 2 \<or> i = 0" for i
    using assms(1) unfolding prime_candidate_def Let_def nb_def [symmetric] ex_def [symmetric] buf'_def [symmetric]
    by (simp add: big_set_bit_val) auto
  have hi: "\<not> bit (big_val ?c) i" if "bits \<le> i" for i
  proof -
    have "be_val buf' < 2 ^ i" using less_le_trans [OF small power_increasing [OF that]] by simp
    then have "\<not> bit (be_val buf') i" by (simp add: bit_iff_odd)
    then show ?thesis using c [of i] that assms(1) by auto
  qed
  have "take_bit bits (big_val ?c) = big_val ?c" by (rule bit_eqI) (metis bit_take_bit_iff hi linorder_not_less)
  then show lt: "big_val ?c < 2 ^ bits" by (metis take_bit_nat_less_exp)
  show "odd (big_val ?c)" using c [of 0] by (simp add: bit_0)
  have "odd (big_val ?c div 2 ^ (bits - 2))" "odd (big_val ?c div 2 ^ (bits - 2) div 2)"
  proof -
    show "odd (big_val ?c div 2 ^ (bits - 2))" using c [of "bits - 2"] by (simp add: bit_iff_odd)
    have "Suc (bits - 2) = bits - 1" using assms(1) by simp
    then show "odd (big_val ?c div 2 ^ (bits - 2) div 2)"
      using c [of "bits - 1"] by (metis bit_iff_odd div_mult2_eq power_Suc2)
  qed
  moreover have "3 \<le> x" if "odd x" "odd (x div 2)" for x :: nat using that by presburger
  ultimately have "3 \<le> big_val ?c div 2 ^ (bits - 2)" by blast
  then show lo: "3 * 2 ^ (bits - 2) \<le> big_val ?c" by (simp add: less_eq_div_iff_mult_less_eq)
  have ge: "2 ^ (bits - 1) \<le> big_val ?c"
  proof -
    have "bits - 1 = Suc (bits - 2)" using assms(1) by simp
    then have "(2 :: nat) ^ (bits - 1) = 2 * 2 ^ (bits - 2)" by simp
    then show ?thesis using lo by linarith
  qed
  note b = bit_len_val [of ?c]
  have nz: "big_val ?c \<noteq> 0" using \<open>odd (big_val ?c)\<close> by (auto intro: ccontr)
  have "bits - 1 < bit_len ?c" using le_less_trans [OF ge b(1)] by simp
  moreover have "bit_len ?c - 1 < bits" using le_less_trans [OF conjunct2 [OF b(2) [OF nz]] lt] by simp
  ultimately show "bit_len ?c = bits" by linarith
qed

text \<open>The first candidate that the test accepts is returned.\<close>

theorem random_prime_returns:
  assumes "16 \<le> bits" "\<And>g n. length (fst (rng g n)) = n"
    and "rng g ((bits + 7) div 8) = (buf, g1)" "is_probable_prime rng (prime_candidate bits buf) 40 g1 = Some (b, g2)"
  shows "random_prime bits rng g = (if b then Some (prime_candidate bits buf, g2) else random_prime bits rng g2)"
proof -
  have "length buf = (bits + 7) div 8" using assms(2) [of g "(bits + 7) div 8"] assms(3) by simp
  then show ?thesis
    using prime_candidate_window(4) [OF assms(1)] assms by (simp add: random_prime_def random_prime_loop.simps [of bits rng g])
qed

section \<open>Properties\<close>


lemma is_prime_sqrt:
  assumes "1 < n" "n < k * k" "list_all (\<lambda>d. \<not> d dvd n) [2..<k]"
  shows "is_prime n"
proof (rule ccontr)
  assume "\<not> is_prime n"
  then obtain c e where c: "n = c * e" "c \<noteq> 1" "c \<noteq> n" using assms(1) by (auto simp: is_prime_def dvd_def)
  have "c \<noteq> 0" "e \<noteq> 0" "e \<noteq> 1" using c assms(1) by (auto intro!: gr0I)
  then have ge: "2 \<le> c" "2 \<le> e" using c(2) by linarith+
  have "c < k \<or> e < k"
  proof (rule ccontr)
    assume "\<not> (c < k \<or> e < k)"
    then have "k * k \<le> c * e" by (intro mult_le_mono) auto
    then show False using c(1) assms(2) by simp
  qed
  then show False using assms(3) ge c(1) unfolding list_all_iff
    by (metis atLeastLessThan_iff dvd_triv_left dvd_triv_right set_upt)
qed


lemma be_val_zeros [simp]: "be_val (replicate n 0) = 0"
  by (induction n) (simp_all add: be_val_Cons)



text \<open>Prime generation. Every candidate has exactly the requested bits, the top two of them set, and is
  odd, whatever the random bytes are; so the first candidate that the test accepts is returned, and a
  rejected one only moves the random source on.\<close>

theorem random_prime_first_accepted:
  assumes "16 \<le> bits" "\<And>g n. length (fst (rng g n)) = n" "rng g ((bits + 7) div 8) = (buf, g1)"
    and "is_probable_prime rng (prime_candidate bits buf) 40 g1 = Some (b, g2)"
  shows "3 * 2 ^ (bits - 2) \<le> big_val (prime_candidate bits buf) \<and> big_val (prime_candidate bits buf) < 2 ^ bits \<and>
    odd (big_val (prime_candidate bits buf)) \<and>
    random_prime bits rng g = (if b then Some (prime_candidate bits buf, g2) else random_prime bits rng g2)"
proof -
  have "length buf = (bits + 7) div 8" using assms(2) [of g "(bits + 7) div 8"] assms(3) by simp
  then show ?thesis using prime_candidate_window [OF assms(1)] random_prime_returns [OF assms] by blast
qed

text \<open>A source whose first candidate is the prime 49157.\<close>

definition four_rng :: "unit rng" where
  "four_rng g n = (if n = 0 then [] else replicate (n - 1) 0 @ [4], g)"

lemma four_candidate: "big_val (prime_candidate 16 [0, 4]) = 49157"
proof -
  have "big_val (prime_candidate 16 [0, 4]) = set_bit 0 (set_bit 14 (set_bit 15 (be_val [0, 4])))"
    by (rule bit_eqI) (auto simp: prime_candidate_def Let_def big_set_bit_val bit_set_bit_iff)
  then show ?thesis by (simp add: be_val_Cons set_bit_eq_or)
qed

lemma four_draws: "8 < big_val m \<Longrightarrow> draw_base four_rng nbytes m g \<noteq> None"
proof -
  assume m: "8 < big_val m"
  let ?b = "fst (four_rng g nbytes)"
  have "be_val ?b \<le> 4" by (simp add: four_rng_def be_val_append)
  then obtain r where "big_rem (from_be_bytes ?b) (dec_one m) = Some r" "big_val r \<le> 4"
    using big_rem_val [of "dec_one m" "from_be_bytes ?b"] m by auto
  then show ?thesis using m by (subst draw_base.simps) (simp add: four_rng_def Let_def compare_def)
qed

theorem random_prime_first_accepted_witness:
  "random_prime 16 four_rng () = Some (prime_candidate 16 [0, 4], ()) \<and> is_prime (big_val (prime_candidate 16 [0, 4]))"
proof -
  have rng: "four_rng () ((16 + 7) div 8) = ([0, 4], ())" by (simp add: four_rng_def)
  have p: "is_prime (big_val (prime_candidate 16 [0, 4]))"
    unfolding four_candidate by (rule is_prime_sqrt [where k = 222]) simp_all
  have "8 < big_val (dec_one (prime_candidate 16 [0, 4]))" by (simp add: four_candidate)
  then obtain b where "is_probable_prime four_rng (prime_candidate 16 [0, 4]) 40 () = Some (b, ())" "b"
    using is_probable_prime_val [of four_rng "prime_candidate 16 [0, 4]" 40 "()"] four_draws p by auto
  then show ?thesis using random_prime_first_accepted [of 16 four_rng "()" "[0, 4]" "()" b "()"] rng p by (auto simp: four_rng_def)
qed

end
