(* ===== verification/Rsa.thy ===== *)
theory Rsa
  imports Hmac Prime_Test Aead
begin

text \<open>
  RSA (\<^verbatim>\<open>crates/cv_crypto/src/rsa.rs\<close>) over the big integers and the hashes: keys, the private-key
  primitive with the Chinese remainder theorem, PKCS#1 v1.5 and PSS signatures, OAEP encryption and key
  generation. The outer option is a panic or a loop that does not end; inside it is the source's \<open>Result\<close>. The
  caller's random source is the parameter \<open>rng\<close> of \<open>Prime_Test\<close>, and seeds and salts are arguments, as in the
  source.
\<close>

section \<open>Keys and hashes\<close>

record rsa_public =
  pk_n :: biguint
  pk_e :: biguint
  pk_len :: nat

record rsa_private =
  sk_n :: biguint
  sk_e :: biguint
  sk_d :: biguint
  sk_p :: biguint
  sk_q :: biguint
  sk_dp :: biguint
  sk_dq :: biguint
  sk_qinv :: biguint
  sk_len :: nat

fun strip_leading_zero :: "bytes \<Rightarrow> bytes" where
  "strip_leading_zero (a # b # bs) = (if a = 0 then strip_leading_zero (b # bs) else a # b # bs)"
| "strip_leading_zero bs = bs"

definition from_components :: "bytes \<Rightarrow> bytes \<Rightarrow> rsa_public" where
  "from_components n_be e_be =
     (let n_be = strip_leading_zero n_be; e_be = strip_leading_zero e_be
      in \<lparr>pk_n = from_be_bytes n_be, pk_e = from_be_bytes e_be, pk_len = length n_be\<rparr>)"

definition public_key :: "rsa_private \<Rightarrow> rsa_public" where
  "public_key key = \<lparr>pk_n = sk_n key, pk_e = sk_e key, pk_len = sk_len key\<rparr>"

datatype hash_alg = Sha1 | Sha256 | Sha384 | Sha512

fun digest_info_prefix :: "hash_alg \<Rightarrow> bytes" where
  "digest_info_prefix Sha1 = 
     [0x30, 0x21] @ [0x30, 0x09] @ [0x06, 0x05, 0x2b, 0x0e, 0x03, 0x02, 0x1a] @ [0x05, 0x00] @ [0x04, 0x14]"
| "digest_info_prefix Sha256 =
     [0x30, 0x31] @ [0x30, 0x0d] @ [0x06, 0x09, 0x60, 0x86, 0x48, 0x01, 0x65, 0x03, 0x04, 0x02, 0x01] @ [0x05, 0x00] @ [0x04, 0x20]"
| "digest_info_prefix Sha384 =
     [0x30, 0x41] @ [0x30, 0x0d] @ [0x06, 0x09, 0x60, 0x86, 0x48, 0x01, 0x65, 0x03, 0x04, 0x02, 0x02] @ [0x05, 0x00] @ [0x04, 0x30]"
| "digest_info_prefix Sha512 =
     [0x30, 0x51] @ [0x30, 0x0d] @ [0x06, 0x09, 0x60, 0x86, 0x48, 0x01, 0x65, 0x03, 0x04, 0x02, 0x03] @ [0x05, 0x00] @ [0x04, 0x40]"

fun digest :: "hash_alg \<Rightarrow> bytes \<Rightarrow> bytes" where
  "digest Sha1 msg = sha1_oneshot msg"
| "digest Sha256 msg = sha256_oneshot msg"
| "digest Sha384 msg = sha384_oneshot msg"
| "digest Sha512 msg = sha512_oneshot msg"

fun digest_len :: "hash_alg \<Rightarrow> nat" where
  "digest_len Sha1 = 20"
| "digest_len Sha256 = 32"
| "digest_len Sha384 = 48"
| "digest_len Sha512 = 64"

definition div_ceil :: "nat \<Rightarrow> nat \<Rightarrow> nat" where
  "div_ceil a b = (a + b - 1) div b"

definition mgf1 :: "hash_alg \<Rightarrow> bytes \<Rightarrow> nat \<Rightarrow> bytes" where
  "mgf1 hash seed mask_len =
     (let n = div_ceil mask_len (digest_len hash);
          t = concat (map (\<lambda>counter. digest hash (seed @ be_bytes 4 (of_nat counter :: u32))) [0..<n])
      in take mask_len t)"

text \<open>\<open>for i in 0..n { out[i] ^= mask[i] }\<close> on vectors of \<open>n\<close> bytes.\<close>

definition xor_bytes :: "bytes \<Rightarrow> bytes \<Rightarrow> bytes" where
  "xor_bytes = map2 (XOR)"

section \<open>The private-key primitive\<close>

definition rsadp :: "rsa_private \<Rightarrow> biguint \<Rightarrow> biguint option" where
  "rsadp key c =
     (if is_zero (sk_p key) \<or> is_zero (sk_q key) then pow_mod c (sk_d key) (sk_n key)
      else do {
        m1 \<leftarrow> pow_mod c (sk_dp key) (sk_p key);
        m2 \<leftarrow> pow_mod c (sk_dq key) (sk_q key);
        let diff = (if big_cmp m1 m2 = Less then big_sub (big_add m1 (sk_p key)) m2 else big_sub m1 m2);
        h \<leftarrow> big_rem (mul_full (sk_qinv key) diff) (sk_p key);
        Some (big_add m2 (mul_full h (sk_q key))) })"

section \<open>PKCS#1 v1.5 signatures\<close>

definition verify_pkcs1_v15 :: "rsa_public \<Rightarrow> hash_alg \<Rightarrow> bytes \<Rightarrow> bytes \<Rightarrow> (crypto_error + unit) option" where
  "verify_pkcs1_v15 key hash msg signature =
     (let k = pk_len key
      in if length signature \<noteq> k then Some (Inl BadLength)
         else do {
           m_int \<leftarrow> pow_mod (from_be_bytes signature) (pk_e key) (pk_n key);
           let em = to_be_bytes m_int k;
           let t_prefix = digest_info_prefix hash;
           let dig = digest hash msg;
           let t_len = length t_prefix + length dig;
           if k < t_len + 11 then Some (Inl BadLength)
           else if em ! 0 \<noteq> 0 \<or> em ! 1 \<noteq> 1 then Some (Inl BadTag)
           else
             let ps_end = k - t_len - 1
             in if list_ex (\<lambda>b. b \<noteq> 0xFF) (drop 2 (take ps_end em)) then Some (Inl BadTag)
                else if em ! ps_end \<noteq> 0 then Some (Inl BadTag)
                else
                  let t_field = drop (ps_end + 1) em
                  in if take (length t_prefix) t_field \<noteq> t_prefix then Some (Inl BadTag)
                     else if drop (length t_prefix) t_field \<noteq> dig then Some (Inl BadTag)
                     else Some (Inr ()) })"

definition sign_pkcs1_v15 :: "rsa_private \<Rightarrow> hash_alg \<Rightarrow> bytes \<Rightarrow> (crypto_error + bytes) option" where
  "sign_pkcs1_v15 key hash msg =
     (let k = sk_len key;
          t_prefix = digest_info_prefix hash;
          dig = digest hash msg;
          t_len = length t_prefix + length dig
      in if k < t_len + 11 then Some (Inl BadLength)
         else do {
           let ps_len = k - t_len - 3;
           let em = [0, 1] @ replicate ps_len 0xFF @ [0] @ t_prefix @ dig;
           s \<leftarrow> rsadp key (from_be_bytes em);
           Some (Inr (to_be_bytes s k)) })"

section \<open>PSS signatures\<close>

text \<open>\<open>buf[0] &= 0xFF >> zero_top_bits\<close>, guarded by \<open>zero_top_bits > 0\<close>: a shift by 8 bits or more panics.\<close>

definition clear_top :: "nat \<Rightarrow> bytes \<Rightarrow> bytes option" where
  "clear_top zero_top_bits db =
     (if 0 < zero_top_bits
      then if zero_top_bits < 8 \<and> db \<noteq> [] then Some (db[0 := db ! 0 AND drop_bit zero_top_bits 0xFF]) else None
      else Some db)"

definition pss_hash :: "hash_alg \<Rightarrow> bytes \<Rightarrow> bytes \<Rightarrow> bytes" where
  "pss_hash hash msg salt = (let m_hash = digest hash msg in digest hash (replicate 8 0 @ m_hash @ salt))"

definition verify_pss :: "rsa_public \<Rightarrow> hash_alg \<Rightarrow> bytes \<Rightarrow> bytes \<Rightarrow> (crypto_error + unit) option" where
  "verify_pss key hash msg signature =
     (let mod_bits = bit_len (pk_n key);
          em_len = div_ceil mod_bits 8;
          em_bits = mod_bits - 1
      in if mod_bits = 0 then None
         else if length signature \<noteq> em_len then Some (Inl BadLength)
         else do {
           m_int \<leftarrow> pow_mod (from_be_bytes signature) (pk_e key) (pk_n key);
           let em = to_be_bytes m_int em_len;
           let h_len = digest_len hash;
           let s_len = h_len;
           if em_len < h_len + s_len + 2 then Some (Inl BadLength)
           else if em ! (em_len - 1) \<noteq> 0xbc then Some (Inl BadTag)
           else do {
             let db_len = em_len - h_len - 1;
             let masked_db = take db_len em;
             let h = drop db_len (take (em_len - 1) em);
             let mask = mgf1 hash h db_len;
             db \<leftarrow> clear_top (8 * em_len - em_bits) (xor_bytes masked_db mask);
             let ps_len = db_len - s_len - 1;
             if list_ex (\<lambda>b. b \<noteq> 0) (take ps_len db) then Some (Inl BadTag)
             else if db ! ps_len \<noteq> 1 then Some (Inl BadTag)
             else
               let salt = drop (ps_len + 1) db
               in if \<not> ct_eq h (pss_hash hash msg salt) then Some (Inl BadTag) else Some (Inr ()) } })"

definition sign_pss :: "rsa_private \<Rightarrow> hash_alg \<Rightarrow> bytes \<Rightarrow> bytes \<Rightarrow> (crypto_error + bytes) option" where
  "sign_pss key hash msg salt =
     (let mod_bits = bit_len (sk_n key);
          em_bits = mod_bits - 1;
          em_len = div_ceil em_bits 8;
          h_len = digest_len hash;
          s_len = length salt
      in if mod_bits = 0 then None
         else if em_len < h_len + s_len + 2 then Some (Inl BadLength)
         else do {
           let h = pss_hash hash msg salt;
           let db_len = em_len - h_len - 1;
           let ps_len = db_len - s_len - 1;
           let db = replicate ps_len 0 @ [1] @ salt;
           masked_db \<leftarrow> clear_top (8 * em_len - em_bits) (xor_bytes db (mgf1 hash h db_len));
           s \<leftarrow> rsadp key (from_be_bytes (masked_db @ h @ [0xbc]));
           Some (Inr (to_be_bytes s (sk_len key))) })"

section \<open>OAEP encryption\<close>

definition encrypt_oaep :: "rsa_public \<Rightarrow> hash_alg \<Rightarrow> bytes \<Rightarrow> bytes \<Rightarrow> bytes \<Rightarrow> (crypto_error + bytes) option" where
  "encrypt_oaep key hash msg label seed =
     (let k = pk_len key; h_len = digest_len hash
      in if length seed \<noteq> h_len then Some (Inl BadLength)
         else if length msg + 2 * h_len + 2 > k then Some (Inl BadLength)
         else
           let l_hash = digest hash label;
               ps_len = k - length msg - 2 * h_len - 2;
               db_len = k - h_len - 1;
               db = l_hash @ replicate ps_len 0 @ [1] @ msg;
               masked_db = xor_bytes db (mgf1 hash seed db_len);
               masked_seed = xor_bytes seed (mgf1 hash masked_db h_len);
               em = [0] @ masked_seed @ masked_db;
               m_int = from_be_bytes em
           in if big_cmp m_int (pk_n key) \<noteq> Less then Some (Inl BadLength)
              else do {
                c \<leftarrow> pow_mod m_int (pk_e key) (pk_n key);
                Some (Inr (to_be_bytes c k)) })"

text \<open>The scan for the separator: its index once found, and whether another byte than zero came before it.\<close>

definition oaep_step :: "bytes \<Rightarrow> nat \<Rightarrow> nat option \<times> bool \<Rightarrow> nat option \<times> bool" where
  "oaep_step db i = (\<lambda>(sep_index, seen).
     let b = db ! i
     in if sep_index = None then
          if b = 1 then (Some i, seen) else if b \<noteq> 0 then (sep_index, True) else (sep_index, seen)
        else (sep_index, seen))"

definition decrypt_oaep :: "rsa_private \<Rightarrow> hash_alg \<Rightarrow> bytes \<Rightarrow> bytes \<Rightarrow> (crypto_error + bytes) option" where
  "decrypt_oaep key hash ciphertext label =
     (let k = sk_len key; h_len = digest_len hash
      in if length ciphertext \<noteq> k \<or> k < 2 * h_len + 2 then Some (Inl BadLength)
         else
           let c_int = from_be_bytes ciphertext
           in if big_cmp c_int (sk_n key) \<noteq> Less then Some (Inl BadTag)
              else do {
                m_int \<leftarrow> rsadp key c_int;
                let em = to_be_bytes m_int k;
                let l_hash = digest hash label;
                let y = em ! 0;
                let masked_seed = take h_len (drop 1 em);
                let masked_db = drop (1 + h_len) em;
                let db_len = k - h_len - 1;
                let seed = xor_bytes masked_seed (mgf1 hash masked_db h_len);
                let db = xor_bytes masked_db (mgf1 hash seed db_len);
                let acc = fold (\<lambda>i acc. acc OR (db ! i XOR l_hash ! i)) [0..<h_len] 0;
                let (sep_index, seen) = fold (oaep_step db) [h_len..<db_len] (None, False);
                case sep_index of
                  None \<Rightarrow> Some (Inl BadTag)
                | Some sep \<Rightarrow>
                    if y \<noteq> 0 \<or> acc \<noteq> 0 \<or> seen then Some (Inl BadTag)
                    else Some (Inr (drop (sep + 1) db)) })"

section \<open>Key generation\<close>

partial_function (option) gcd_loop :: "biguint \<Rightarrow> biguint \<Rightarrow> biguint option" where
  "gcd_loop x y =
     (if \<not> is_zero y then Option.bind (big_rem x y) (\<lambda>r. gcd_loop y r) else Some x)"

definition big_gcd :: "biguint \<Rightarrow> biguint \<Rightarrow> biguint option" where
  "big_gcd a b = gcd_loop a b"

definition big_lcm :: "biguint \<Rightarrow> biguint \<Rightarrow> biguint option" where
  "big_lcm a b = do {
     g \<leftarrow> big_gcd a b;
     a_over_g \<leftarrow> div_floor a g;
     Some (mul_full a_over_g b) }"

definition make_key :: "nat \<Rightarrow> biguint \<Rightarrow> biguint \<Rightarrow> biguint \<Rightarrow> rsa_private option option" where
  "make_key modulus_bits e_big p q =
     (if big_cmp p q = Equal then Some None
      else
        let n = mul_full p q
        in if bit_len n \<noteq> modulus_bits then Some None
           else do {
             let p1 = dec_one p;
             let q1 = dec_one q;
             lambda \<leftarrow> big_lcm p1 q1;
             d \<leftarrow> inv_mod_full e_big lambda;
             case d of
               None \<Rightarrow> Some None
             | Some d \<Rightarrow> do {
                 dp \<leftarrow> big_rem d p1;
                 dq \<leftarrow> big_rem d q1;
                 qinv \<leftarrow> inv_mod_full q p;
                 case qinv of
                   None \<Rightarrow> Some None
                 | Some qinv \<Rightarrow>
                     Some (Some \<lparr>sk_n = n, sk_e = e_big, sk_d = d, sk_p = p, sk_q = q, sk_dp = dp, sk_dq = dq,
                       sk_qinv = qinv, sk_len = modulus_bits div 8\<rparr>) } })"

partial_function (option) keypair_loop ::
  "nat \<Rightarrow> biguint \<Rightarrow> 's rng \<Rightarrow> 's \<Rightarrow> (rsa_private \<times> 's) option" where
  "keypair_loop modulus_bits e_big rng g =
     Option.bind (random_prime (modulus_bits div 2) rng g) (\<lambda>(p, g).
     Option.bind (random_prime (modulus_bits - modulus_bits div 2) rng g) (\<lambda>(q, g).
     Option.bind (make_key modulus_bits e_big p q) (\<lambda>k.
       case k of Some key \<Rightarrow> Some (key, g) | None \<Rightarrow> keypair_loop modulus_bits e_big rng g)))"

definition generate_keypair :: "nat \<Rightarrow> u64 \<Rightarrow> 's rng \<Rightarrow> 's \<Rightarrow> (rsa_private \<times> 's) option" where
  "generate_keypair modulus_bits e rng g =
     (if modulus_bits < 512 then None else keypair_loop modulus_bits (from_u64 e) rng g)"

end
