(* ===== verification/Rsa_Key.thy ===== *)
theory Rsa_Key
  imports Rsa
begin

text \<open>
  The private-key primitive of \<^verbatim>\<open>rsa.rs\<close> against exponentiation modulo \<open>n\<close>, the values of the gcd and lcm
  loops, key generation, and the concrete keys of the witnesses.
\<close>

section \<open>Exponents\<close>

text \<open>
  What RSA needs of its two factors is that raising to the power \<open>p\<close> changes nothing modulo \<open>p\<close>. Primes have the
  property by Fermat's little theorem; so have the Carmichael numbers, which a probabilistic test can take for
  primes, and the theorems below hold for both.
\<close>

definition fermat :: "nat \<Rightarrow> bool" where
  "fermat p \<longleftrightarrow> 1 < p \<and> (\<forall>c. c ^ p mod p = c mod p)"

lemma fermat_cycle:
  assumes "fermat p" "0 < x" "(p - 1) dvd (x - 1)"
  shows "c ^ x mod p = c mod p"
proof -
  obtain j where "x = Suc ((p - 1) * j)" using assms(2,3) by (metis dvd_def Suc_pred')
  moreover have "c ^ Suc ((p - 1) * j) mod p = c mod p"
  proof (induction j)
    case (Suc j)
    have "Suc ((p - 1) * Suc j) = p + (p - 1) * j" using assms(1) by (simp add: fermat_def)
    then have "c ^ Suc ((p - 1) * Suc j) mod p = c ^ p * c ^ ((p - 1) * j) mod p" by (simp only: power_add)
    also have "\<dots> = c * c ^ ((p - 1) * j) mod p" using assms(1) by (intro mod_mult_cong) (simp_all add: fermat_def)
    also have "\<dots> = c mod p" using Suc by simp
    finally show ?case .
  qed simp
  ultimately show ?thesis by simp
qed

lemma fermat_reduce:
  assumes "fermat p" "d mod (p - 1) \<noteq> 0"
  shows "c ^ (d mod (p - 1)) mod p = c ^ d mod p"
proof -
  obtain s where s: "d mod (p - 1) = Suc s" using assms(2) by (cases "d mod (p - 1)") auto
  have "d = s + Suc ((p - 1) * (d div (p - 1)))" using mult_div_mod_eq [of "p - 1" d] s by linarith
  then have "c ^ d mod p = c ^ s * c ^ Suc ((p - 1) * (d div (p - 1))) mod p" by (metis power_add)
  also have "\<dots> = c ^ s * c mod p"
    by (intro mod_mult_cong refl fermat_cycle [OF assms(1)]) simp_all
  finally show ?thesis unfolding s by (simp add: mult.commute)
qed

lemma prime_fermat: "is_prime p \<Longrightarrow> fermat p"
proof -
  assume p: "is_prime p"
  then have "1 < p" by (simp add: is_prime_def)
  moreover have "c ^ p mod p = c mod p" for c
  proof (cases "p dvd c")
    case True
    then have "p dvd c ^ p" using \<open>1 < p\<close> by (metis dvd_power dvd_trans less_trans zero_less_one)
    then show ?thesis using True by simp
  next
    case False
    have "c ^ p = c ^ (p - 1) * c" using \<open>1 < p\<close> by (metis less_trans power_minus_mult zero_less_one)
    then show ?thesis using fermat_little [OF p False] by (metis mod_mult_left_eq mult_1)
  qed
  ultimately show "fermat p" by (simp add: fermat_def)
qed

lemma crt_unique:
  fixes x y :: nat
  assumes "coprime p q" "x mod p = y mod p" "x mod q = y mod q"
  shows "x mod (p * q) = y mod (p * q)"
proof -
  have "int p dvd int x - int y" "int q dvd int x - int y"
    using assms(2,3) by (metis mod_eq_dvd_iff zmod_int)+
  moreover have "coprime (int p) (int q)" using assms(1) by simp
  ultimately have "int p * int q dvd int x - int y" by (simp add: divides_mult)
  then show ?thesis by (metis mod_eq_dvd_iff of_nat_eq_iff of_nat_mult zmod_int)
qed

lemma carmichael_fermat:
  assumes "rs \<noteq> []" "distinct rs" "\<forall>r \<in> set rs. is_prime r" "\<forall>r \<in> set rs. (r - 1) dvd (prod_list rs - 1)"
  shows "fermat (prod_list rs)"
proof -
  have one: "1 < prod_list rs"
  proof -
    have "1 < prod_list ss" if "\<forall>r \<in> set ss. is_prime r" "ss \<noteq> []" for ss
      using that
    proof (induction ss)
      case (Cons r ss)
      then have "1 < r" by (simp add: is_prime_def)
      then show ?case using Cons less_1_mult [of r "prod_list ss"] by (cases "ss = []") simp_all
    qed simp
    then show ?thesis using assms(1,3) by blast
  qed
  have "c ^ prod_list rs mod prod_list ss = c mod prod_list ss" if "set ss \<subseteq> set rs" "distinct ss" for c ss
    using that
  proof (induction ss)
    case (Cons r ss)
    have r: "is_prime r" using Cons.prems assms(3) by auto
    have "coprime r (prod_list ss)" using Cons.prems
    proof (induction ss)
      case (Cons t ts)
      have "is_prime t" "r \<noteq> t" using Cons.prems assms(3) by auto
      then have "\<not> r dvd t" using r by (auto simp: is_prime_def)
      then show ?case using Cons prime_coprime [OF r] by simp
    qed simp
    moreover have "c ^ prod_list rs mod r = c mod r"
      using Cons.prems assms(4) one by (intro fermat_cycle prime_fermat r) auto
    moreover have "c ^ prod_list rs mod prod_list ss = c mod prod_list ss" using Cons by simp
    ultimately show ?case by (simp only: prod_list.Cons) (rule crt_unique)
  qed simp
  then show ?thesis using one assms(2) by (simp add: fermat_def)
qed

section \<open>The private-key primitive\<close>

definition rsa_key :: "rsa_private \<Rightarrow> bool" where
  "rsa_key key \<longleftrightarrow>
     (let p = big_val (sk_p key); q = big_val (sk_q key); d = big_val (sk_d key); x = big_val (sk_e key) * d
      in fermat p \<and> fermat q \<and> odd p \<and> odd q \<and> big_val (sk_n key) = p * q \<and>
         0 < x \<and> (p - 1) dvd (x - 1) \<and> (q - 1) dvd (x - 1) \<and>
         big_val (sk_dp key) = d mod (p - 1) \<and> big_val (sk_dq key) = d mod (q - 1) \<and>
         big_val (sk_qinv key) * q mod p = 1)"

lemma inverse_coprime: "(i :: nat) * q mod p = 1 \<Longrightarrow> coprime p q"
proof -
  assume i: "i * q mod p = 1"
  then have "p \<noteq> 0 \<or> i * q = 1" by (cases "p = 0") simp_all
  have "gcd p (i * q) = 1" using i by (metis gcd.commute gcd_1_nat gcd_red_nat)
  then show "coprime p q" by (metis coprime_iff_gcd_eq_1 coprime_mult_right_iff)
qed

lemma rsa_power:
  assumes "rsa_key key"
  shows "(m ^ big_val (sk_e key)) ^ big_val (sk_d key) mod big_val (sk_n key) = m mod big_val (sk_n key)"
proof -
  let ?x = "big_val (sk_e key) * big_val (sk_d key)"
  have "m ^ ?x mod big_val (sk_p key) = m mod big_val (sk_p key)" "m ^ ?x mod big_val (sk_q key) = m mod big_val (sk_q key)"
    using assms by (auto simp: rsa_key_def Let_def intro!: fermat_cycle)
  moreover have "coprime (big_val (sk_p key)) (big_val (sk_q key))"
    using assms inverse_coprime by (auto simp: rsa_key_def Let_def)
  ultimately have "m ^ ?x mod (big_val (sk_p key) * big_val (sk_q key)) = m mod (big_val (sk_p key) * big_val (sk_q key))"
    by (intro crt_unique)
  moreover have "big_val (sk_n key) = big_val (sk_p key) * big_val (sk_q key)" using assms by (simp add: rsa_key_def Let_def)
  ultimately show ?thesis by (simp only: power_mult [symmetric])
qed

lemma odd_exponent:
  assumes "fermat p" "odd p" "0 < x * d" "(p - 1) dvd (x * d - 1)"
  shows "d mod (p - 1) \<noteq> 0"
proof
  assume "d mod (p - 1) = 0"
  then have "(p - 1) dvd x * d" by (simp add: mod_eq_0_iff_dvd)
  then have "(p - 1) dvd x * d - (x * d - 1)" using assms(4) by (rule dvd_diff_nat)
  then have "p - 1 = 1" using assms(3) by simp
  then have "p = 2" by simp
  then show False using assms(2) by simp
qed

lemma odd_dvd_pow: "odd (p :: nat) \<Longrightarrow> p dvd 2 ^ k \<Longrightarrow> p = 1"
proof -
  assume "odd p" "p dvd 2 ^ k"
  moreover from this have "coprime p (2 ^ k)" by simp
  ultimately show "p = 1" by (metis coprime_common_divisor_nat dvd_refl)
qed

lemma big_sub_wrap:
  assumes "big_val a < big_val b" "big_val b < base ^ length (limbs a)"
  shows "big_val (big_sub a b) = big_val a + base ^ length (limbs a) - big_val b"
proof -
  let ?n = "length (limbs a)"
  obtain out c where l: "for_range ?n (sub_step (limbs a) (limbs b)) (replicate ?n 0, 0) = (out, c)" "length out = ?n"
    "c = 0 \<or> c = 1" "limbs_val out + limbs_val (limbs b) mod base ^ ?n = limbs_val (limbs a) mod base ^ ?n + base ^ ?n * unat c"
    using sub_loop [of ?n "limbs a" "limbs b"] by auto
  have "big_val a < base ^ ?n" using limbs_val_less [of "limbs a"] by (simp add: big_val_def)
  then have "limbs_val out + big_val b = big_val a + base ^ ?n * unat c"
    using l(4) assms by (simp add: big_val_def)
  then have "limbs_val out = big_val a + base ^ ?n - big_val b" using l(3) assms by auto
  then show ?thesis using l(1) by (simp add: big_sub_def Let_def) (simp add: big_val_def)
qed

lemma normal_length:
  assumes "normal a" "big_val a < base ^ n"
  shows "length (limbs a) \<le> n"
proof (rule ccontr)
  assume "\<not> length (limbs a) \<le> n"
  then have ne: "limbs a \<noteq> []" and n: "n \<le> length (limbs a) - 1" by auto
  define xs where "xs = butlast (limbs a)"
  have split: "limbs a = xs @ [last (limbs a)]" using ne by (simp add: xs_def)
  have "0 < unat (last (limbs a))" using assms(1) ne by (simp add: normal_def unat_gt_0)
  then have "base ^ length xs \<le> base ^ length xs * unat (last (limbs a))" by simp
  also have "\<dots> \<le> big_val a" by (subst big_val_def, subst split) (simp add: limbs_val_snoc)
  finally have "base ^ length xs \<le> big_val a" .
  moreover have "base ^ n \<le> base ^ length xs" using n ne by (intro power_increasing) (simp_all add: xs_def base_def)
  ultimately show False using assms(2) by simp
qed

text \<open>Without the wrap-around of the subtraction the result is the power modulo \<open>n\<close>; with it, it never is.\<close>

lemma rsadp_val:
  fixes c :: biguint
  assumes key: "rsa_key key"
  defines "x \<equiv> big_val c ^ big_val (sk_d key)"
  defines "p \<equiv> big_val (sk_p key)" and "q \<equiv> big_val (sk_q key)"
  obtains r where "rsadp key c = Some r" "big_val r < big_val (sk_n key)"
    "x mod q \<le> x mod p + p \<Longrightarrow> big_val r = x mod big_val (sk_n key)"
    "x mod p + p < x mod q \<Longrightarrow> normal (sk_p key) \<Longrightarrow> q < base ^ length (limbs (sk_p key)) \<Longrightarrow> big_val r mod p \<noteq> x mod p"
proof -
  define d where "d = big_val (sk_d key)"
  have k: "fermat p" "fermat q" "odd p" "odd q" "big_val (sk_n key) = p * q"
      "big_val (sk_dp key) = d mod (p - 1)" "big_val (sk_dq key) = d mod (q - 1)" "big_val (sk_qinv key) * q mod p = 1"
    and ed: "0 < big_val (sk_e key) * d" "(p - 1) dvd (big_val (sk_e key) * d - 1)" "(q - 1) dvd (big_val (sk_e key) * d - 1)"
    using key by (simp_all add: rsa_key_def Let_def p_def q_def d_def)
  have nz: "p \<noteq> 0" "q \<noteq> 0" "0 < p" "0 < q" using k(1,2) by (auto simp: fermat_def)
  note dn = odd_exponent [OF k(1,3) ed(1,2)] odd_exponent [OF k(2,4) ed(1,3)]
  obtain m1 where m1: "pow_mod c (sk_dp key) (sk_p key) = Some m1" "big_val m1 = x mod p"
    using pow_mod_val [of "sk_p key" c "sk_dp key"] nz dn fermat_reduce [OF k(1) dn(1)] by (auto simp: p_def k x_def d_def)
  obtain m2 where m2: "pow_mod c (sk_dq key) (sk_q key) = Some m2" "big_val m2 = x mod q"
    using pow_mod_val [of "sk_q key" c "sk_dq key"] nz dn fermat_reduce [OF k(2) dn(2)] by (auto simp: q_def k x_def d_def)
  define diff where "diff = (if big_cmp m1 m2 = Less then big_sub (big_add m1 (sk_p key)) m2 else big_sub m1 m2)"
  obtain h where h: "big_rem (mul_full (sk_qinv key) diff) (sk_p key) = Some h" "big_val h = big_val (sk_qinv key) * big_val diff mod p"
    using big_rem_val [of "sk_p key" "mul_full (sk_qinv key) diff"] nz by (auto simp: p_def)
  define r where "r = big_add m2 (mul_full h (sk_q key))"
  have run: "rsadp key c = Some r"
    using nz h(1) by (auto simp: rsadp_def is_zero_val p_def [symmetric] q_def [symmetric] m1 m2 diff_def r_def)
  have rv: "big_val r = x mod q + big_val h * q" by (simp add: r_def m2 q_def)
  have rp: "big_val r mod p = (x mod q + big_val diff) mod p"
  proof -
    have "(x mod q + big_val h * q) mod p = (x mod q + big_val h * q mod p) mod p" by (simp only: mod_add_right_eq)
    also have "big_val h * q mod p = big_val (sk_qinv key) * big_val diff * q mod p" unfolding h(2) by (simp only: mod_mult_left_eq)
    also have "\<dots> = (big_val (sk_qinv key) * q mod p) * big_val diff mod p" by (simp only: mod_mult_left_eq) (simp only: ac_simps)
    finally show ?thesis unfolding rv k(8) by (simp only: mult_1 mod_add_right_eq)
  qed
  have lt: "big_val r < p * q"
  proof -
    have "big_val h < p" using h(2) nz by simp
    then have "(big_val h + 1) * q \<le> p * q" by (intro mult_le_mono1) simp
    moreover have "x mod q < q" using nz by simp
    ultimately show ?thesis by (simp add: rv distrib_right)
  qed
  show thesis
  proof (rule that [OF run])
    show "big_val r < big_val (sk_n key)" using lt by (simp add: k)
    assume le: "x mod q \<le> x mod p + p"
    have "big_val diff = (if x mod p < x mod q then x mod p + p - x mod q else x mod p - x mod q)"
      using le by (auto simp: diff_def m1 m2 p_def [symmetric])
    then have "(x mod q + big_val diff) mod p = x mod p" using le by (auto split: if_splits)
    then have a: "big_val r mod p = x mod p" using rp by simp
    have b: "big_val r mod q = x mod q" by (simp add: rv)
    have "big_val r = big_val r mod (p * q)" using lt by simp
    also have "\<dots> = x mod (p * q)" by (rule crt_unique [OF inverse_coprime [OF k(8)] a b])
    finally show "big_val r = x mod big_val (sk_n key)" by (simp add: k)
  next
    assume gt: "x mod p + p < x mod q" and pn: "normal (sk_p key)" "q < base ^ length (limbs (sk_p key))"
    define s where "s = big_add m1 (sk_p key)"
    let ?n = "length (limbs s)"
    have s: "big_val s = x mod p + p" by (simp add: s_def m1 p_def)
    have "p < base ^ ?n" using limbs_val_less [of "limbs s"] s by (simp add: big_val_def)
    then have "length (limbs (sk_p key)) \<le> ?n" using normal_length [OF pn(1)] by (simp add: p_def)
    then have "base ^ length (limbs (sk_p key)) \<le> base ^ ?n" by (intro power_increasing) (simp_all add: base_def)
    moreover have "x mod q < q" using nz by simp
    ultimately have "x mod q < base ^ ?n" using pn(2) by linarith
    then have "big_val diff = x mod p + p + base ^ ?n - x mod q"
      using gt big_sub_wrap [of s m2] by (simp add: diff_def m1 m2 s_def [symmetric] s)
    then have "x mod q + big_val diff = (x mod p + base ^ ?n) + p" using gt \<open>x mod q < base ^ ?n\<close> by simp
    then have "(x mod q + big_val diff) mod p = (x mod p + base ^ ?n) mod p" by (simp only: mod_add_self2)
    moreover have "(x mod p + base ^ ?n) mod p \<noteq> x mod p"
    proof
      assume "(x mod p + base ^ ?n) mod p = x mod p"
      then have "p dvd base ^ ?n" by (metis add_diff_cancel_left' mod_eq_dvd_iff_nat le_add1 mod_mod_trivial)
      then have "p dvd 2 ^ (64 * ?n)" by (simp only: base_pow)
      then have "p = 1" by (rule odd_dvd_pow [OF k(3)])
      then show False using k(1) by (simp add: fermat_def)
    qed
    ultimately show "big_val r mod p \<noteq> x mod p" using rp by simp
  qed
qed

text \<open>When the code's subtraction \<open>m1 + p - m2\<close> stays above zero.\<close>

definition no_wrap :: "rsa_private \<Rightarrow> nat \<Rightarrow> bool" where
  "no_wrap key c \<longleftrightarrow>
     (let x = c ^ big_val (sk_d key); p = big_val (sk_p key); q = big_val (sk_q key) in x mod q \<le> x mod p + p)"

lemma no_wrap_sorted: "rsa_key key \<Longrightarrow> big_val (sk_q key) \<le> big_val (sk_p key) \<Longrightarrow> no_wrap key c"
proof -
  assume "rsa_key key" and le: "big_val (sk_q key) \<le> big_val (sk_p key)"
  then have "0 < big_val (sk_q key)" by (auto simp: rsa_key_def Let_def fermat_def)
  then have "c ^ big_val (sk_d key) mod big_val (sk_q key) < big_val (sk_q key)" by simp
  then show ?thesis using le by (simp add: no_wrap_def Let_def)
qed

lemma rsadp_ok:
  assumes "rsa_key key" "no_wrap key (big_val c)"
  obtains r where "rsadp key c = Some r" "big_val r = big_val c ^ big_val (sk_d key) mod big_val (sk_n key)"
  using rsadp_val [OF assms(1), of c] assms(2) unfolding no_wrap_def Let_def by metis

section \<open>Encoded messages\<close>

lemma length_digest [simp]: "length (digest hash msg) = digest_len hash"
proof (cases hash)
  case Sha1
  then show ?thesis using sha1_stream [of "[msg]"] by (simp add: sha1_oneshot_def length_sha1_spec)
next
  case Sha256
  then show ?thesis using sha256_stream [of "[msg]"] by (simp add: sha256_oneshot_def length_sha256_spec)
next
  case Sha384
  then show ?thesis using sha384_stream [of "[msg]"] by (simp add: sha384_oneshot_def length_sha384_spec)
next
  case Sha512
  then show ?thesis using sha512_stream [of "[msg]"] by (simp add: sha512_oneshot_def length_sha512_spec)
qed

lemma digest_len_pos [simp]: "0 < digest_len hash"
  by (cases hash) simp_all

lemma length_mgf1 [simp]: "length (mgf1 hash seed n) = n"
proof -
  have "n \<le> digest_len hash * div_ceil n (digest_len hash)"
  proof -
    have "n + digest_len hash - 1 < digest_len hash + digest_len hash * ((n + digest_len hash - 1) div digest_len hash)"
      by (rule dividend_less_times_div) simp
    then show ?thesis unfolding div_ceil_def using digest_len_pos [of hash] by linarith
  qed
  then show ?thesis by (simp add: mgf1_def Let_def length_concat comp_def sum_list_triv mult.commute)
qed

lemma length_xor_bytes [simp]: "length (xor_bytes xs ys) = min (length xs) (length ys)"
  by (simp add: xor_bytes_def)

lemma nth_xor_bytes: "i < length xs \<Longrightarrow> i < length ys \<Longrightarrow> xor_bytes xs ys ! i = xs ! i XOR ys ! i"
  by (simp add: xor_bytes_def)

lemma xor_bytes_twice: "length xs = length ys \<Longrightarrow> xor_bytes (xor_bytes xs ys) ys = xs"
  by (auto simp: nth_xor_bytes xor.assoc intro!: nth_equalityI)

lemma rsa_public_key [simp]: "pk_n (public_key key) = sk_n key" "pk_e (public_key key) = sk_e key" "pk_len (public_key key) = sk_len key"
  by (simp_all add: public_key_def)

definition key_size :: "rsa_private \<Rightarrow> bool" where
  "key_size key \<longleftrightarrow> 0 < sk_len key \<and> 256 ^ (sk_len key - 1) \<le> big_val (sk_n key) \<and> big_val (sk_n key) < 256 ^ sk_len key"

lemma padded_less: "key_size key \<Longrightarrow> length bs = sk_len key \<Longrightarrow> bs ! 0 = 0 \<Longrightarrow> be_val bs < big_val (sk_n key)"
proof -
  assume k: "key_size key" and bs: "length bs = sk_len key" "bs ! 0 = 0"
  then obtain cs where cs: "bs = 0 # cs" by (cases bs) (auto simp: key_size_def)
  have "sk_len key - 1 = length cs" using bs(1) by (simp add: cs)
  then have "be_val bs < 256 ^ (sk_len key - 1)" using be_val_less [of cs] by (simp only:) (simp add: cs be_val_Cons)
  then show ?thesis using k by (simp add: key_size_def)
qed

lemma be_of_be_val: "length bs = len \<Longrightarrow> be_of len (be_val bs) = bs"
  using be_val_less [of bs] by (intro be_of_unique) simp_all

lemma rsa_nz: "rsa_key key \<Longrightarrow> big_val (sk_n key) \<noteq> 0" "rsa_key key \<Longrightarrow> big_val (sk_e key) \<noteq> 0"
  by (auto simp: rsa_key_def Let_def) (auto simp: fermat_def)

text \<open>A message raised to the private and then the public exponent comes back.\<close>

lemma pow_mod_e:
  assumes key: "rsa_key key" and b: "big_val b = m ^ big_val (sk_d key) mod big_val (sk_n key)" and m: "m < big_val (sk_n key)"
  obtains r where "pow_mod b (sk_e key) (sk_n key) = Some r" "big_val r = m"
proof -
  note nz = rsa_nz [OF key]
  have "big_val b ^ big_val (sk_e key) mod big_val (sk_n key) = (m ^ big_val (sk_d key)) ^ big_val (sk_e key) mod big_val (sk_n key)"
    unfolding b by (rule power_mod)
  also have "\<dots> = m" using rsa_power [OF key, of m] m by (simp add: power_mult [symmetric] mult.commute)
  finally show thesis using pow_mod_val [OF nz(1), of b "sk_e key"] nz that by auto
qed

section \<open>Key generation\<close>

lemma gcd_loop_val: "\<exists>g. gcd_loop x y = Some g \<and> big_val g = gcd (big_val x) (big_val y)"
proof (induction "big_val y" arbitrary: x y rule: less_induct)
  case less
  show ?case
  proof (cases "big_val y = 0")
    case True
    then show ?thesis by (simp add: gcd_loop.simps [of x y] is_zero_val)
  next
    case False
    obtain r where r: "big_rem x y = Some r" "big_val r = big_val x mod big_val y" using big_rem_val [OF False] by blast
    then have "big_val r < big_val y" using False by simp
    then obtain g where "gcd_loop y r = Some g" "big_val g = gcd (big_val y) (big_val r)" using less by blast
    then show ?thesis using False r
      by (simp add: gcd_loop.simps [of x y] is_zero_val) (metis gcd.commute gcd_red_nat)
  qed
qed

lemma big_lcm_val:
  assumes "big_val a \<noteq> 0"
  shows "\<exists>l. big_lcm a b = Some l \<and> big_val l = lcm (big_val a) (big_val b)"
proof -
  obtain g where g: "gcd_loop a b = Some g" "big_val g = gcd (big_val a) (big_val b)" using gcd_loop_val by blast
  then have "big_val g \<noteq> 0" using assms by simp
  then obtain x where x: "div_floor a g = Some x" "big_val x = big_val a div big_val g" using div_floor_val by blast
  have "big_val a div gcd (big_val a) (big_val b) * big_val b = lcm (big_val a) (big_val b)"
    by (simp add: lcm_nat_def div_mult_swap mult.commute)
  then show ?thesis using g x by (simp add: big_lcm_def big_gcd_def mul_full_val)
qed

lemma fermat_odd: "fermat p \<Longrightarrow> odd p \<Longrightarrow> 3 \<le> p"
  unfolding fermat_def by (cases "p = 2") auto

lemma key_size_bits:
  assumes "sk_len key = bits div 8" "bit_len (sk_n key) = bits" "big_val (sk_n key) \<noteq> 0"
  shows "key_size key \<longleftrightarrow> 8 dvd bits"
proof -
  let ?n = "big_val (sk_n key)"
  have n: "?n < 2 ^ bits" "0 < bits" "2 ^ (bits - 1) \<le> ?n"
    using bit_len_val(1) [of "sk_n key"] bit_len_val(2) [OF assms(3)] assms(2) by auto
  have p: "(256 :: nat) ^ j = 2 ^ (8 * j)" for j by (simp add: power_mult)
  show ?thesis
  proof (cases "8 dvd bits")
    case True
    then obtain k where k: "bits = 8 * Suc k" using n(2) by (metis dvd_def mult_0_right not_less_zero not0_implies_Suc)
    have "(2 :: nat) ^ (8 * k) \<le> 2 ^ (bits - 1)" using k by (intro power_increasing) simp_all
    then have "2 ^ (8 * k) \<le> ?n" using n(3) by linarith
    moreover have "?n < 256 * 2 ^ (8 * k)" using n(1) by (simp add: k power_add)
    ultimately show ?thesis using True assms(1) k by (simp add: key_size_def p)
  next
    case False
    then have "8 * (bits div 8) \<le> bits - 1" by (metis Suc_pred' dvd_triv_left le_Suc_eq n(2) times_div_less_eq_dividend)
    then have "(2 :: nat) ^ (8 * (bits div 8)) \<le> 2 ^ (bits - 1)" by (intro power_increasing) simp_all
    then have "2 ^ (8 * (bits div 8)) \<le> ?n" using n(3) by linarith
    then show ?thesis using False assms(1) by (simp add: key_size_def p)
  qed
qed

section \<open>A key\<close>

text \<open>
  A key of 364 bits whose factors are Carmichael numbers, so that the kernel can check every equation by evaluation:
  their prime factors are below \<open>103 * 103\<close>.
\<close>

definition demo_ps :: "nat list" where
  "demo_ps = [37, 41, 43, 61, 67, 71, 73, 89, 113, 127, 199, 211, 241, 281, 331, 337, 421, 463, 617, 1009, 3697, 4621, 9241]"

definition demo_qs :: "nat list" where
  "demo_qs = [13, 17, 19, 23, 29, 31, 181, 379, 433, 541, 757, 881, 991, 1321, 2161, 2311, 2377, 2521, 2971, 4159, 7561]"

definition demo_key :: rsa_private where
  "demo_key = \<lparr>
     sk_n = \<lparr>limbs = [13119155630988235297, 14988926503101514045, 81683309177337385, 12296684211544037288, 5303208096551053078, 17099609614153]\<rparr>,
     sk_e = \<lparr>limbs = [65537]\<rparr>,
     sk_d = \<lparr>limbs = [10460757586013656497, 7995519555122977363, 1768563126008683201, 17848042897372800467, 4575484988879347708, 75841467]\<rparr>,
     sk_p = \<lparr>limbs = [4043046418050294993, 7751678588749142320, 31516153300782393]\<rparr>,
     sk_q = \<lparr>limbs = [11985128401049594961, 14292867469079033234, 10008585733868681]\<rparr>,
     sk_dp = \<lparr>limbs = [4103236815538001969, 11510412816970397276, 21058697669935483]\<rparr>,
     sk_dq = \<lparr>limbs = [10649688263187606625, 5155858691527539101, 1409573925013472]\<rparr>,
     sk_qinv = \<lparr>limbs = [6958911427688211635, 12690263611372641517, 26327376423580061]\<rparr>,
     sk_len = 46\<rparr>"

lemma demo_values:
  "big_val (sk_n demo_key) = 36524544455139977474592504452462136435075057476148349731088268309765527114436609302804758895044491191647113761"
  "big_val (sk_e demo_key) = 65537"
  "big_val (sk_d demo_key) = 161996390827028482760247449649964571925397767559865408439288454540872025168845037109884968177600937661873"
  "big_val (sk_p demo_key) = 10724391241433380279273767938700887940242544760885978321"
  "big_val (sk_q demo_key) = 3405745243051972934826588890905593109303393144895810641"
  "big_val (sk_dp demo_key) = 7165903487398098109612548206412417165740898692707293233"
  "big_val (sk_dq demo_key) = 479653151553621773783502684942225374961782179950079073"
  "big_val (sk_qinv demo_key) = 8958741964234335172152067116671290887596895737657631923"
  "sk_len demo_key = 46"
  by (simp_all add: demo_key_def big_val_def base_def)

definition small_prime :: "nat \<Rightarrow> bool" where
  "small_prime r \<longleftrightarrow> 1 < r \<and> r < 10609 \<and> list_all (\<lambda>d. d dvd r \<longrightarrow> r \<le> d) [2..<103]"

lemma small_prime_prime:
  assumes "small_prime r"
  shows "is_prime r"
proof -
  have r: "1 < r" "r < 103 * 103" and all: "\<forall>d. 2 \<le> d \<and> d < 103 \<longrightarrow> d dvd r \<longrightarrow> r \<le> d"
    using assms unfolding small_prime_def list_all_iff set_upt Ball_def atLeastLessThan_iff by (simp, simp, blast)
  show ?thesis
  proof (cases "r < 103")
    case True
    then show ?thesis using r(1) all
      by (simp only: is_prime_check list_all_iff set_upt Ball_def atLeastLessThan_iff) (metis leD less_trans)
  next
    case False
    then have "list_all (\<lambda>d. \<not> d dvd r) [2..<103]"
      using all by (simp only: list_all_iff set_upt Ball_def atLeastLessThan_iff) (metis leD less_le_trans not_less)
    then show ?thesis by (rule is_prime_sqrt [OF r])
  qed
qed

lemmas small_prime_eval = small_prime_def upt_conv_Cons

lemma demo_ps_prime: "\<forall>r \<in> set demo_ps. is_prime r"
proof -
  have "list_all small_prime demo_ps" by (simp add: demo_ps_def small_prime_eval)
  then show ?thesis using small_prime_prime by (auto simp: list_all_iff)
qed

lemma demo_qs_prime: "\<forall>r \<in> set demo_qs. is_prime r"
proof -
  have "list_all small_prime demo_qs" by (simp add: demo_qs_def small_prime_eval)
  then show ?thesis using small_prime_prime by (auto simp: list_all_iff)
qed

lemma demo_p: "fermat 10724391241433380279273767938700887940242544760885978321"
proof -
  have v: "prod_list demo_ps = 10724391241433380279273767938700887940242544760885978321" by (simp add: demo_ps_def)
  have "\<forall>r \<in> set demo_ps. (r - 1) dvd (10724391241433380279273767938700887940242544760885978321 - 1)" by (simp add: demo_ps_def)
  moreover have "demo_ps \<noteq> []" "distinct demo_ps" by (simp_all add: demo_ps_def)
  ultimately have "fermat (prod_list demo_ps)" using demo_ps_prime by (intro carmichael_fermat) (simp_all only: v not_False_eq_True)
  then show ?thesis by (simp only: v)
qed

lemma demo_q: "fermat 3405745243051972934826588890905593109303393144895810641"
proof -
  have v: "prod_list demo_qs = 3405745243051972934826588890905593109303393144895810641" by (simp add: demo_qs_def)
  have "\<forall>r \<in> set demo_qs. (r - 1) dvd (3405745243051972934826588890905593109303393144895810641 - 1)" by (simp add: demo_qs_def)
  moreover have "demo_qs \<noteq> []" "distinct demo_qs" by (simp_all add: demo_qs_def)
  ultimately have "fermat (prod_list demo_qs)" using demo_qs_prime by (intro carmichael_fermat) (simp_all only: v not_False_eq_True)
  then show ?thesis by (simp only: v)
qed

lemma certified:
  fixes a b c r :: nat
  assumes "a = b * c + r" "r < b"
  shows "a mod b = r"
  using assms by simp

lemma demo_exponents:
  "65537 * 161996390827028482760247449649964571925397767559865408439288454540872025168845037109884968177600937661873 - 1 = (10724391241433380279273767938700887940242544760885978321 - 1) * (989963647037924672523998556582677362128863285173087815 :: nat)"
  "65537 * 161996390827028482760247449649964571925397767559865408439288454540872025168845037109884968177600937661873 - 1 = (3405745243051972934826588890905593109303393144895810641 - 1) * (3117308168392837720066680561546984292153834935455944095 :: nat)"
  "(161996390827028482760247449649964571925397767559865408439288454540872025168845037109884968177600937661873 :: nat) mod (10724391241433380279273767938700887940242544760885978321 - 1) = 7165903487398098109612548206412417165740898692707293233"
  "(161996390827028482760247449649964571925397767559865408439288454540872025168845037109884968177600937661873 :: nat) mod (3405745243051972934826588890905593109303393144895810641 - 1) = 479653151553621773783502684942225374961782179950079073"
  "(8958741964234335172152067116671290887596895737657631923 :: nat) * 3405745243051972934826588890905593109303393144895810641 mod 10724391241433380279273767938700887940242544760885978321 = 1"
  by (simp, simp, rule certified [of _ _ "15105415979338765468727566971064854389564113175352"], simp, simp, rule certified [of _ _ "47565621990521960420322574447212785024548498336145"], simp, simp,
      rule certified [of _ _ "2845027949982097846755994684112302863779533056427616002"], simp, simp)

lemma demo_rsa_key: "rsa_key demo_key"
  unfolding rsa_key_def demo_values Let_def
proof (intro conjI)
  note x = demo_exponents(1,2)
  show "(10724391241433380279273767938700887940242544760885978321 - 1) dvd (65537 * 161996390827028482760247449649964571925397767559865408439288454540872025168845037109884968177600937661873 - 1 :: nat)" unfolding x(1) by (rule dvd_triv_left)
  show "(3405745243051972934826588890905593109303393144895810641 - 1) dvd (65537 * 161996390827028482760247449649964571925397767559865408439288454540872025168845037109884968177600937661873 - 1 :: nat)" unfolding x(2) by (rule dvd_triv_left)
qed (simp_all only: demo_p demo_q demo_exponents, simp_all)

lemma demo_key_size: "key_size demo_key"
  by (simp add: key_size_def demo_values)

lemma demo_sizes: "normal (sk_p demo_key)" "big_val (sk_q demo_key) < base ^ length (limbs (sk_p demo_key))"
  "big_val (sk_q demo_key) \<le> big_val (sk_p demo_key)"
  by (simp_all add: demo_values) (simp_all add: demo_key_def normal_def base_def)

section \<open>Properties\<close>

text \<open>C20: The private-key primitive. For a key whose numbers satisfy the RSA equations \<open>rsadp\<close> returns, without a panic,
  a number below the modulus. It is the ciphertext raised to the private exponent exactly when the residue modulo
  \<open>q\<close> is at most that modulo \<open>p\<close> plus \<open>p\<close>: the code adds \<open>p\<close> once before it subtracts, and otherwise the subtraction
  wraps around, which its own comment excludes. Keys with \<open>q <= p\<close> never meet the case; key generation does not
  order its primes.\<close>

theorem rsadp_exact:
  fixes key :: rsa_private and c :: biguint
  defines "x \<equiv> big_val c ^ big_val (sk_d key)" and "p \<equiv> big_val (sk_p key)" and "q \<equiv> big_val (sk_q key)"
  assumes key: "rsa_key key" and sizes: "normal (sk_p key)" "q < base ^ length (limbs (sk_p key))"
  shows "\<exists>r. rsadp key c = Some r \<and> big_val r < big_val (sk_n key) \<and>
    (big_val r = x mod big_val (sk_n key) \<longleftrightarrow> x mod q \<le> x mod p + p)"
proof -
  obtain r where r: "rsadp key c = Some r" "big_val r < big_val (sk_n key)"
      "x mod q \<le> x mod p + p \<Longrightarrow> big_val r = x mod big_val (sk_n key)"
      "x mod p + p < x mod q \<Longrightarrow> big_val r mod p \<noteq> x mod p"
    using rsadp_val [OF key, of c] sizes unfolding x_def p_def q_def by metis
  have "p dvd big_val (sk_n key)" using key by (simp add: rsa_key_def Let_def p_def)
  then have "x mod big_val (sk_n key) mod p = x mod p" by (rule mod_mod_cancel)
  then show ?thesis using r by (metis not_less)
qed

definition small_key :: rsa_private where
  "small_key = \<lparr>sk_n = from_u64 3233, sk_e = from_u64 223, sk_d = from_u64 7, sk_p = from_u64 53, sk_q = from_u64 61,
     sk_dp = from_u64 7, sk_dq = from_u64 7, sk_qinv = from_u64 20, sk_len = 2\<rparr>"

lemma small_primes: "fermat 53" "fermat 61"
  by (rule prime_fermat, simp add: is_prime_check upt_conv_Cons)+

lemma small_rsa_key: "rsa_key small_key"
  by (simp add: rsa_key_def small_key_def small_primes)

theorem rsadp_exact_witness:
  "\<exists>r. rsadp small_key (from_u64 1158) = Some r \<and> big_val r \<noteq> 853 \<and> 1158 ^ 7 mod 3233 = (853 :: nat)"
proof -
  have v: "big_val (sk_n small_key) = 3233" "big_val (sk_d small_key) = 7" "big_val (sk_p small_key) = 53" "big_val (sk_q small_key) = 61"
    "normal (sk_p small_key)" by (simp_all add: small_key_def)
  have "limbs (sk_p small_key) = [53]" by (simp add: small_key_def from_u64_def big_normalize_def normalize_limbs.simps)
  then show ?thesis
    using rsadp_exact [OF small_rsa_key v(5), of "from_u64 1158"] unfolding v by (auto simp: base_def)
qed

text \<open>C24: key generation from two factors. For odd factors with Fermat's property (all primes) \<open>make_key\<close>, the body of the
  generation loop, returns: the round is repeated exactly when the factors are equal or not coprime, the product
  misses the requested length, or the exponent has no inverse modulo the least common multiple; otherwise the key
  satisfies the RSA equations. Its byte length is right exactly when the requested length is a multiple of eight: the
  code rounds \<open>modulus_bits / 8\<close> down.\<close>

theorem make_key_exact:
  fixes p q e :: biguint
  defines "P \<equiv> big_val p" and "Q \<equiv> big_val q"
  assumes p: "fermat P" "odd P" and q: "fermat Q" "odd Q"
  shows "\<exists>res. make_key bits e p q = Some res \<and>
    (res = None \<longleftrightarrow> P = Q \<or> bit_len (mul_full p q) \<noteq> bits \<or> \<not> coprime (big_val e) (lcm (P - 1) (Q - 1)) \<or> \<not> coprime P Q) \<and>
    (\<forall>key. res = Some key \<longrightarrow> rsa_key key \<and> sk_p key = p \<and> sk_q key = q \<and> sk_e key = e \<and> (key_size key \<longleftrightarrow> 8 dvd bits))"
proof -
  have three: "3 \<le> P" "3 \<le> Q" using fermat_odd p q by auto
  show ?thesis
  proof (cases "P = Q \<or> bit_len (mul_full p q) \<noteq> bits")
    case True
    then show ?thesis by (auto simp: make_key_def Let_def P_def Q_def)
  next
    case False
    then have ne: "big_cmp p q \<noteq> Equal" "bit_len (mul_full p q) = bits" by (auto simp: P_def Q_def)
    have p1: "big_val (dec_one p) = P - 1" "big_val (dec_one q) = Q - 1" using three by (simp_all add: P_def Q_def)
    obtain l where l: "big_lcm (dec_one p) (dec_one q) = Some l" "big_val l = lcm (P - 1) (Q - 1)"
      using big_lcm_val [of "dec_one p" "dec_one q"] three p1 by auto
    have "P - 1 dvd big_val l" "Q - 1 dvd big_val l" by (simp_all add: l)
    moreover have lpos: "big_val l \<noteq> 0" using three by (auto simp: l)
    ultimately have "P - 1 \<le> big_val l" by (auto dest: dvd_imp_le)
    then have l1: "1 < big_val l" using three by linarith
    show ?thesis
    proof (cases "coprime (big_val e) (lcm (P - 1) (Q - 1))")
      case False
      then have "inv_mod_full e l = Some None" using inv_mod_full_val [OF l1, of e] by (simp add: l coprime_iff_gcd_eq_1)
      then show ?thesis using ne False by (simp add: make_key_def Let_def l)
    next
      case True
      then obtain d where d: "inv_mod_full e l = Some (Some d)" "big_val e * big_val d mod big_val l = 1"
        using inv_mod_full_val [OF l1, of e] by (auto simp: l coprime_iff_gcd_eq_1)
      obtain dp where dp: "big_rem d (dec_one p) = Some dp" "big_val dp = big_val d mod (P - 1)"
        using big_rem_val [of "dec_one p" d] p1 three by auto
      obtain dq where dq: "big_rem d (dec_one q) = Some dq" "big_val dq = big_val d mod (Q - 1)"
        using big_rem_val [of "dec_one q" d] p1 three by auto
      have P1: "1 < big_val p" using three by (simp add: P_def)
      show ?thesis
      proof (cases "coprime P Q")
        case False
        then have "inv_mod_full q p = Some None" using inv_mod_full_val [OF P1, of q]
          by (simp add: P_def Q_def coprime_iff_gcd_eq_1 gcd.commute)
        then show ?thesis using ne False by (simp add: make_key_def Let_def l d dp dq)
      next
        case co: True
        then obtain qi where qi: "inv_mod_full q p = Some (Some qi)" "Q * big_val qi mod P = 1"
          using inv_mod_full_val [OF P1, of q] by (auto simp: P_def Q_def coprime_iff_gcd_eq_1 gcd.commute)
        define key where "key = \<lparr>sk_n = mul_full p q, sk_e = e, sk_d = d, sk_p = p, sk_q = q, sk_dp = dp, sk_dq = dq,
          sk_qinv = qi, sk_len = bits div 8\<rparr>"
        have run: "make_key bits e p q = Some (Some key)"
          using ne by (simp add: make_key_def Let_def l d dp dq qi key_def)
        have ed: "0 < big_val e * big_val d" "big_val l dvd big_val e * big_val d - 1"
          using d(2) l1 by (auto intro: gr0I) (metis d(2) mod_eq_dvd_iff_nat mod_less l1 less_imp_le_nat mod_less_eq_dividend)
        have "rsa_key key"
          unfolding rsa_key_def Let_def key_def using p q ed dp dq qi(2) \<open>P - 1 dvd big_val l\<close> \<open>Q - 1 dvd big_val l\<close>
          by (auto simp: P_def Q_def mult.commute intro: dvd_trans)
        moreover have "key_size key \<longleftrightarrow> 8 dvd bits"
          using key_size_bits [of key bits] three ne by (simp add: key_def P_def Q_def)
        ultimately show ?thesis using run False co True by (simp add: key_def)
      qed
    qed
  qed
qed

lemma bit_len_unique: "2 ^ b \<le> big_val a \<Longrightarrow> big_val a < 2 ^ Suc b \<Longrightarrow> bit_len a = Suc b"
proof -
  assume b: "2 ^ b \<le> big_val a" "big_val a < 2 ^ Suc b"
  then have nz: "big_val a \<noteq> 0" using zero_less_power [of "2 :: nat" b] by linarith
  have "(2 :: nat) ^ (bit_len a - 1) < 2 ^ Suc b" "(2 :: nat) ^ b < 2 ^ bit_len a"
    using b bit_len_val(1) [of a] bit_len_val(2) [OF nz] by linarith+
  then have "bit_len a - 1 < Suc b" "b < bit_len a" by (simp_all only: power_strict_increasing_iff one_less_numeral_iff semiring_norm)
  then show "bit_len a = Suc b" by linarith
qed

theorem make_key_exact_witness:
  "\<exists>key. make_key 12 (from_u64 223) (from_u64 53) (from_u64 61) = Some (Some key) \<and> rsa_key key \<and> \<not> key_size key"
proof -
  have b: "bit_len (mul_full (from_u64 53) (from_u64 61)) = 12"
    using bit_len_unique [of 11 "mul_full (from_u64 53) (from_u64 61)"] by (simp add: mul_full_val)
  have "lcm (52 :: nat) 60 = 780" by (simp add: lcm_nat_def gcd_non_0_nat)
  moreover have "coprime (223 :: nat) 780" "coprime (53 :: nat) 61" by (simp_all add: coprime_iff_gcd_eq_1 gcd_non_0_nat)
  moreover have "\<not> (8 :: nat) dvd 12" by simp
  ultimately show ?thesis
    using make_key_exact [of "from_u64 53" "from_u64 61" 12 "from_u64 223"] b by (auto simp: small_primes)
qed

end
