(* ===== verification/Rsa_Sign.thy ===== *)
theory Rsa_Sign
  imports Rsa_Key
begin

text \<open>
  The two signature schemes of \<^verbatim>\<open>rsa.rs\<close>: what verification accepts, and when it accepts the code's own signatures.
\<close>

section \<open>PKCS#1 v1.5\<close>

definition pkcs1_encode :: "nat \<Rightarrow> hash_alg \<Rightarrow> bytes \<Rightarrow> bytes" where
  "pkcs1_encode k hash msg =
     (let t = digest_info_prefix hash @ digest hash msg in [0, 1] @ replicate (k - length t - 3) 0xFF @ [0] @ t)"

lemma pkcs1_checks:
  fixes em t1 t2 :: bytes
  defines "t_len \<equiv> length t1 + length t2"
  assumes "length em = k" "t_len + 11 \<le> k"
  shows "em ! 0 = 0 \<and> em ! 1 = 1 \<and> \<not> list_ex (\<lambda>b. b \<noteq> 0xFF) (drop 2 (take (k - t_len - 1) em)) \<and> em ! (k - t_len - 1) = 0 \<and>
      take (length t1) (drop (k - t_len - 1 + 1) em) = t1 \<and> drop (length t1) (drop (k - t_len - 1 + 1) em) = t2 \<longleftrightarrow>
    em = [0, 1] @ replicate (k - (length t1 + length t2) - 3) 0xFF @ [0] @ t1 @ t2"
proof
  define ps where "ps = k - t_len - 1"
  assume a: "em ! 0 = 0 \<and> em ! 1 = 1 \<and> \<not> list_ex (\<lambda>b. b \<noteq> 0xFF) (drop 2 (take (k - t_len - 1) em)) \<and> em ! (k - t_len - 1) = 0 \<and>
      take (length t1) (drop (k - t_len - 1 + 1) em) = t1 \<and> drop (length t1) (drop (k - t_len - 1 + 1) em) = t2"
  obtain x y zs where em: "em = x # y # zs" using assms(2,3) by (cases em; cases "tl em") auto
  have len: "length zs = k - 2" "2 \<le> ps" "ps < k" using assms(2,3) em by (auto simp: ps_def)
  have tl: "drop (ps + 1) em = t1 @ t2" using a by (metis append_take_drop_id ps_def)
  have "\<forall>b \<in> set (drop 2 (take ps em)). b = 0xFF" using a unfolding ps_def [symmetric] by (simp add: list_ex_iff)
  then have "drop 2 (take ps em) = replicate (ps - 2) 0xFF"
    using len assms(2) by (intro replicate_eqI) auto
  then have zs: "take (ps - 2) zs = replicate (ps - 2) 0xFF"
    using em len(2) by (simp add: take_Cons' numeral_2_eq_2)
  have "zs = take (ps - 2) zs @ zs ! (ps - 2) # drop (Suc (ps - 2)) zs" using len by (intro id_take_nth_drop) simp
  moreover have "zs ! (ps - 2) = 0"
  proof -
    have "em ! ps = zs ! (ps - 2)" using em len(2) by (simp add: nth_Cons' numeral_2_eq_2)
    then show ?thesis using a by (simp add: ps_def)
  qed
  moreover have "drop (Suc (ps - 2)) zs = t1 @ t2"
  proof -
    have "ps + 1 = Suc (Suc (Suc (ps - 2)))" using len(2) by simp
    then have "drop (ps + 1) em = drop (Suc (ps - 2)) zs" by (simp only: em drop_Suc_Cons)
    then show ?thesis using tl by simp
  qed
  ultimately have "zs = replicate (ps - 2) 0xFF @ 0 # t1 @ t2" using zs by simp
  moreover have "ps - 2 = k - (length t1 + length t2) - 3" by (simp add: ps_def t_len_def)
  ultimately show "em = [0, 1] @ replicate (k - (length t1 + length t2) - 3) 0xFF @ [0] @ t1 @ t2"
    using a by (simp add: em)
next
  assume em: "em = [0, 1] @ replicate (k - (length t1 + length t2) - 3) 0xFF @ [0] @ t1 @ t2"
  define n where "n = k - (length t1 + length t2) - 3"
  have ps: "k - t_len - 1 = Suc (Suc n)" using assms(3) by (simp add: n_def t_len_def)
  show "em ! 0 = 0 \<and> em ! 1 = 1 \<and> \<not> list_ex (\<lambda>b. b \<noteq> 0xFF) (drop 2 (take (k - t_len - 1) em)) \<and> em ! (k - t_len - 1) = 0 \<and>
      take (length t1) (drop (k - t_len - 1 + 1) em) = t1 \<and> drop (length t1) (drop (k - t_len - 1 + 1) em) = t2"
    unfolding ps em n_def [symmetric] by (auto simp: list_ex_iff nth_append)
qed

lemma verify_pkcs1_val:
  assumes "big_val (pk_n key) \<noteq> 0"
  obtains r where "pow_mod (from_be_bytes sig) (pk_e key) (pk_n key) = Some r"
    "verify_pkcs1_v15 key hash msg sig = Some (Inr ()) \<longleftrightarrow>
       length sig = pk_len key \<and> length (digest_info_prefix hash) + digest_len hash + 11 \<le> pk_len key \<and>
       be_of (pk_len key) (big_val r) = pkcs1_encode (pk_len key) hash msg"
proof -
  obtain r where r: "pow_mod (from_be_bytes sig) (pk_e key) (pk_n key) = Some r"
    using pow_mod_val [OF assms] by blast
  show thesis
  proof (rule that [OF r])
    show "verify_pkcs1_v15 key hash msg sig = Some (Inr ()) \<longleftrightarrow>
       length sig = pk_len key \<and> length (digest_info_prefix hash) + digest_len hash + 11 \<le> pk_len key \<and>
       be_of (pk_len key) (big_val r) = pkcs1_encode (pk_len key) hash msg"
    proof (cases "length sig = pk_len key \<and> length (digest_info_prefix hash) + digest_len hash + 11 \<le> pk_len key")
      case True
      note c = pkcs1_checks [of "be_of (pk_len key) (big_val r)" "pk_len key" "digest_info_prefix hash" "digest hash msg"]
      show ?thesis
        using True c by (simp add: verify_pkcs1_v15_def Let_def r to_be_bytes_eq pkcs1_encode_def) blast
    next
      case False
      then show ?thesis by (auto simp: verify_pkcs1_v15_def Let_def r)
    qed
  qed
qed

lemma pkcs1_encode_props:
  assumes "length (digest_info_prefix hash) + digest_len hash + 11 \<le> k"
  shows "length (pkcs1_encode k hash msg) = k" "pkcs1_encode k hash msg ! 0 = 0"
  using assms by (simp_all add: pkcs1_encode_def Let_def)

lemma sign_pkcs1_val:
  assumes "length (digest_info_prefix hash) + digest_len hash + 11 \<le> sk_len key"
    and "rsadp key (from_be_bytes (pkcs1_encode (sk_len key) hash msg)) = Some s"
  shows "sign_pkcs1_v15 key hash msg = Some (Inr (to_be_bytes s (sk_len key)))"
  using assms by (simp add: sign_pkcs1_v15_def Let_def pkcs1_encode_def)

text \<open>PKCS#1 v1.5 verification accepts exactly the encoding the standard prescribes: for a non-zero modulus,
  \<open>verify_pkcs1_v15\<close> answers \<open>Ok\<close> if and only if the signature has the length of the modulus, the modulus has room
  for it, and the signature raised to the public exponent, written back at that length, is
  \<open>00 01 FF .. FF 00 || DigestInfo || digest\<close> with every padding byte in place.
\<close>

theorem verify_pkcs1_accepts:
  assumes "big_val (pk_n key) \<noteq> 0" "big_val (pk_e key) \<noteq> 0"
  shows "verify_pkcs1_v15 key hash msg sig = Some (Inr ()) \<longleftrightarrow>
    length sig = pk_len key \<and> length (digest_info_prefix hash) + digest_len hash + 11 \<le> pk_len key \<and>
    be_of (pk_len key) (be_val sig ^ big_val (pk_e key) mod big_val (pk_n key)) =
      [0, 1] @ replicate (pk_len key - (length (digest_info_prefix hash) + digest_len hash) - 3) 0xFF @ [0] @
      digest_info_prefix hash @ digest hash msg"
proof -
  obtain r where r: "pow_mod (from_be_bytes sig) (pk_e key) (pk_n key) = Some r"
      "verify_pkcs1_v15 key hash msg sig = Some (Inr ()) \<longleftrightarrow>
       length sig = pk_len key \<and> length (digest_info_prefix hash) + digest_len hash + 11 \<le> pk_len key \<and>
       be_of (pk_len key) (big_val r) = pkcs1_encode (pk_len key) hash msg"
    by (rule verify_pkcs1_val [OF assms(1), of sig hash msg])
  have "big_val r = be_val sig ^ big_val (pk_e key) mod big_val (pk_n key)"
    using pow_mod_val [OF assms(1), of "from_be_bytes sig" "pk_e key"] r(1) assms(2) by simp
  then show ?thesis using r(2) by (simp add: pkcs1_encode_def Let_def)
qed

theorem verify_pkcs1_accepts_witness:
  "verify_pkcs1_v15 (public_key demo_key) Sha1 [] [0] \<noteq> Some (Inr ())"
  using verify_pkcs1_accepts [of "public_key demo_key" Sha1 "[]" "[0]"] by (simp add: demo_values)

text \<open>C21: Signing and verifying agree exactly when the CRT step does not wrap. For a key whose numbers satisfy the RSA
  equations, with room for the encoding, \<open>sign_pkcs1_v15\<close> returns a signature, and \<open>verify_pkcs1_v15\<close> accepts it
  under the matching public key if and only if the two residues of the signature satisfy \<open>m2 <= m1 + p\<close> (as they
  always do when \<open>q <= p\<close>): the code adds \<open>p\<close> once before it subtracts, so a larger \<open>m2\<close> wraps around and the
  signature it returns is wrong.
\<close>

theorem pkcs1_sign_verify:
  fixes key :: rsa_private and hash :: hash_alg and msg :: bytes
  defines "p \<equiv> big_val (sk_p key)" and "q \<equiv> big_val (sk_q key)" and "d \<equiv> big_val (sk_d key)"
  defines "m \<equiv> be_val (pkcs1_encode (sk_len key) hash msg)"
  assumes key: "rsa_key key" "key_size key" and room: "length (digest_info_prefix hash) + digest_len hash + 11 \<le> sk_len key"
    and sizes: "normal (sk_p key)" "q < base ^ length (limbs (sk_p key))"
  shows "\<exists>sig. sign_pkcs1_v15 key hash msg = Some (Inr sig) \<and>
    (verify_pkcs1_v15 (public_key key) hash msg sig = Some (Inr ()) \<longleftrightarrow> m ^ d mod q \<le> m ^ d mod p + p)"
proof -
  let ?n = "big_val (sk_n key)" and ?k = "sk_len key"
  note em = pkcs1_encode_props [OF room, of msg]
  have m: "m < ?n" unfolding m_def by (rule padded_less [OF key(2)]) (rule em)+
  obtain s where s: "rsadp key (from_be_bytes (pkcs1_encode ?k hash msg)) = Some s" "big_val s < ?n"
      "m ^ d mod q \<le> m ^ d mod p + p \<Longrightarrow> big_val s = m ^ d mod ?n"
      "m ^ d mod p + p < m ^ d mod q \<Longrightarrow> big_val s mod p \<noteq> m ^ d mod p"
    using rsadp_val [OF key(1), of "from_be_bytes (pkcs1_encode ?k hash msg)"] sizes
    unfolding p_def q_def d_def m_def from_be_bytes_val by metis
  define sig where "sig = to_be_bytes s ?k"
  have sign: "sign_pkcs1_v15 key hash msg = Some (Inr sig)" unfolding sig_def by (rule sign_pkcs1_val [OF room s(1)])
  have "big_val s < 256 ^ ?k" using s(2) key(2) by (simp add: key_size_def)
  then have sigv: "be_val sig = big_val s" by (simp add: sig_def to_be_bytes_eq)
  have nz: "big_val (pk_n (public_key key)) \<noteq> 0" using m by auto
  obtain r where r: "pow_mod (from_be_bytes sig) (sk_e key) (sk_n key) = Some r"
      "verify_pkcs1_v15 (public_key key) hash msg sig = Some (Inr ()) \<longleftrightarrow> be_of ?k (big_val r) = pkcs1_encode ?k hash msg"
    using verify_pkcs1_val [OF nz, of sig hash msg] room by (auto simp: sig_def to_be_bytes_eq)
  have e: "big_val (sk_e key) \<noteq> 0" using key(1) by (auto simp: rsa_key_def Let_def)
  have rv: "big_val r = be_val sig ^ big_val (sk_e key) mod ?n"
    using pow_mod_val [of "sk_n key" "from_be_bytes sig" "sk_e key"] r(1) nz e by simp
  have rlt: "big_val r < ?n" unfolding rv using m by simp
  then have "big_val r < 256 ^ ?k" using key(2) by (simp add: key_size_def)
  then have "be_of ?k (big_val r) = pkcs1_encode ?k hash msg \<longleftrightarrow> big_val r = m"
    unfolding m_def using em(1) by (metis be_of_be_val be_val_be_of mod_less)
  moreover have "big_val r = m \<longleftrightarrow> m ^ d mod q \<le> m ^ d mod p + p"
  proof
    assume le: "m ^ d mod q \<le> m ^ d mod p + p"
    then have "big_val s = m ^ d mod ?n" by (rule s(3))
    then have "big_val (from_be_bytes sig) = m ^ d mod ?n" using sigv by simp
    then show "big_val r = m" using pow_mod_e [OF key(1) _ m, of "from_be_bytes sig"] r(1) unfolding d_def by (metis option.inject)
  next
    assume rm: "big_val r = m"
    show "m ^ d mod q \<le> m ^ d mod p + p"
    proof (rule ccontr)
      assume "\<not> m ^ d mod q \<le> m ^ d mod p + p"
      then have ne: "big_val s mod p \<noteq> m ^ d mod p" by (intro s(4)) simp
      have "m ^ d mod ?n = be_val sig mod ?n"
        using rsa_power [OF key(1), of "be_val sig"] by (simp add: rm [symmetric] rv power_mod d_def)
      then have "m ^ d mod p = be_val sig mod p"
        using key(1) by (simp add: rsa_key_def Let_def p_def) (metis dvd_triv_left mod_mod_cancel)
      then show False using ne sigv by simp
    qed
  qed
  ultimately show ?thesis using sign r(2) by auto
qed

theorem pkcs1_sign_verify_witness:
  "\<exists>sig. sign_pkcs1_v15 demo_key Sha1 [1, 2, 3] = Some (Inr sig) \<and>
    verify_pkcs1_v15 (public_key demo_key) Sha1 [1, 2, 3] sig = Some (Inr ())"
proof -
  have "no_wrap demo_key c" for c by (rule no_wrap_sorted [OF demo_rsa_key demo_sizes(3)])
  moreover have "length (digest_info_prefix Sha1) + digest_len Sha1 + 11 \<le> sk_len demo_key" by (simp add: demo_values)
  ultimately show ?thesis
    using pkcs1_sign_verify [OF demo_rsa_key demo_key_size _ demo_sizes(1,2), of Sha1 "[1, 2, 3]"]
    unfolding no_wrap_def Let_def by blast
qed

section \<open>PSS\<close>

definition cleared :: "nat \<Rightarrow> bytes \<Rightarrow> bytes" where
  "cleared zt db = (if 0 < zt then db[0 := db ! 0 AND drop_bit zt 0xFF] else db)"








lemma length_pss_hash [simp]: "length (pss_hash hash msg salt) = digest_len hash"
  by (simp add: pss_hash_def Let_def)


lemma length_cleared [simp]: "length (cleared zt db) = length db"
  by (simp add: cleared_def)











end
