(* ===== verification/Rsa_Oaep.thy ===== *)
theory Rsa_Oaep
  imports Rsa_Key
begin

text \<open>
  OAEP encryption of \<^verbatim>\<open>rsa.rs\<close>: decryption inverts encryption.
\<close>

section \<open>OAEP\<close>










end
