(* ===== verification/Hpack_Huffman.thy ===== *)
theory Hpack_Huffman
  imports Codec Word_Facts
begin

text \<open>
  The HPACK Huffman code (\<^verbatim>\<open>crates/cv_net/src/http2.rs\<close>, \<^verbatim>\<open>hpack_huffman.in\<close>): the table of RFC 7541, the
  encoder that writes codes bit by bit, and the decoder that tries the code lengths in turn. Bits are numbered
  from the most significant one of a byte.
\<close>

section \<open>Definitions\<close>

definition HUFFMAN_CODES :: "(u32 \<times> nat) list" where
  "HUFFMAN_CODES = concat
     [[(0x1ff8, 13), (0x7fffd8, 23), (0xfffffe2, 28), (0xfffffe3, 28)],
      [(0xfffffe4, 28), (0xfffffe5, 28), (0xfffffe6, 28), (0xfffffe7, 28)],
      [(0xfffffe8, 28), (0xffffea, 24), (0x3ffffffc, 30), (0xfffffe9, 28)],
      [(0xfffffea, 28), (0x3ffffffd, 30), (0xfffffeb, 28), (0xfffffec, 28)],
      [(0xfffffed, 28), (0xfffffee, 28), (0xfffffef, 28), (0xffffff0, 28)],
      [(0xffffff1, 28), (0xffffff2, 28), (0x3ffffffe, 30), (0xffffff3, 28)],
      [(0xffffff4, 28), (0xffffff5, 28), (0xffffff6, 28), (0xffffff7, 28)],
      [(0xffffff8, 28), (0xffffff9, 28), (0xffffffa, 28), (0xffffffb, 28)],
      [(0x14, 6), (0x3f8, 10), (0x3f9, 10), (0xffa, 12)],
      [(0x1ff9, 13), (0x15, 6), (0xf8, 8), (0x7fa, 11)],
      [(0x3fa, 10), (0x3fb, 10), (0xf9, 8), (0x7fb, 11)],
      [(0xfa, 8), (0x16, 6), (0x17, 6), (0x18, 6)],
      [(0x0, 5), (0x1, 5), (0x2, 5), (0x19, 6)],
      [(0x1a, 6), (0x1b, 6), (0x1c, 6), (0x1d, 6)],
      [(0x1e, 6), (0x1f, 6), (0x5c, 7), (0xfb, 8)],
      [(0x7ffc, 15), (0x20, 6), (0xffb, 12), (0x3fc, 10)],
      [(0x1ffa, 13), (0x21, 6), (0x5d, 7), (0x5e, 7)],
      [(0x5f, 7), (0x60, 7), (0x61, 7), (0x62, 7)],
      [(0x63, 7), (0x64, 7), (0x65, 7), (0x66, 7)],
      [(0x67, 7), (0x68, 7), (0x69, 7), (0x6a, 7)],
      [(0x6b, 7), (0x6c, 7), (0x6d, 7), (0x6e, 7)],
      [(0x6f, 7), (0x70, 7), (0x71, 7), (0x72, 7)],
      [(0xfc, 8), (0x73, 7), (0xfd, 8), (0x1ffb, 13)],
      [(0x7fff0, 19), (0x1ffc, 13), (0x3ffc, 14), (0x22, 6)],
      [(0x7ffd, 15), (0x3, 5), (0x23, 6), (0x4, 5)],
      [(0x24, 6), (0x5, 5), (0x25, 6), (0x26, 6)],
      [(0x27, 6), (0x6, 5), (0x74, 7), (0x75, 7)],
      [(0x28, 6), (0x29, 6), (0x2a, 6), (0x7, 5)],
      [(0x2b, 6), (0x76, 7), (0x2c, 6), (0x8, 5)],
      [(0x9, 5), (0x2d, 6), (0x77, 7), (0x78, 7)],
      [(0x79, 7), (0x7a, 7), (0x7b, 7), (0x7ffe, 15)],
      [(0x7fc, 11), (0x3ffd, 14), (0x1ffd, 13), (0xffffffc, 28)],
      [(0xfffe6, 20), (0x3fffd2, 22), (0xfffe7, 20), (0xfffe8, 20)],
      [(0x3fffd3, 22), (0x3fffd4, 22), (0x3fffd5, 22), (0x7fffd9, 23)],
      [(0x3fffd6, 22), (0x7fffda, 23), (0x7fffdb, 23), (0x7fffdc, 23)],
      [(0x7fffdd, 23), (0x7fffde, 23), (0xffffeb, 24), (0x7fffdf, 23)],
      [(0xffffec, 24), (0xffffed, 24), (0x3fffd7, 22), (0x7fffe0, 23)],
      [(0xffffee, 24), (0x7fffe1, 23), (0x7fffe2, 23), (0x7fffe3, 23)],
      [(0x7fffe4, 23), (0x1fffdc, 21), (0x3fffd8, 22), (0x7fffe5, 23)],
      [(0x3fffd9, 22), (0x7fffe6, 23), (0x7fffe7, 23), (0xffffef, 24)],
      [(0x3fffda, 22), (0x1fffdd, 21), (0xfffe9, 20), (0x3fffdb, 22)],
      [(0x3fffdc, 22), (0x7fffe8, 23), (0x7fffe9, 23), (0x1fffde, 21)],
      [(0x7fffea, 23), (0x3fffdd, 22), (0x3fffde, 22), (0xfffff0, 24)],
      [(0x1fffdf, 21), (0x3fffdf, 22), (0x7fffeb, 23), (0x7fffec, 23)],
      [(0x1fffe0, 21), (0x1fffe1, 21), (0x3fffe0, 22), (0x1fffe2, 21)],
      [(0x7fffed, 23), (0x3fffe1, 22), (0x7fffee, 23), (0x7fffef, 23)],
      [(0xfffea, 20), (0x3fffe2, 22), (0x3fffe3, 22), (0x3fffe4, 22)],
      [(0x7ffff0, 23), (0x3fffe5, 22), (0x3fffe6, 22), (0x7ffff1, 23)],
      [(0x3ffffe0, 26), (0x3ffffe1, 26), (0xfffeb, 20), (0x7fff1, 19)],
      [(0x3fffe7, 22), (0x7ffff2, 23), (0x3fffe8, 22), (0x1ffffec, 25)],
      [(0x3ffffe2, 26), (0x3ffffe3, 26), (0x3ffffe4, 26), (0x7ffffde, 27)],
      [(0x7ffffdf, 27), (0x3ffffe5, 26), (0xfffff1, 24), (0x1ffffed, 25)],
      [(0x7fff2, 19), (0x1fffe3, 21), (0x3ffffe6, 26), (0x7ffffe0, 27)],
      [(0x7ffffe1, 27), (0x3ffffe7, 26), (0x7ffffe2, 27), (0xfffff2, 24)],
      [(0x1fffe4, 21), (0x1fffe5, 21), (0x3ffffe8, 26), (0x3ffffe9, 26)],
      [(0xffffffd, 28), (0x7ffffe3, 27), (0x7ffffe4, 27), (0x7ffffe5, 27)],
      [(0xfffec, 20), (0xfffff3, 24), (0xfffed, 20), (0x1fffe6, 21)],
      [(0x3fffe9, 22), (0x1fffe7, 21), (0x1fffe8, 21), (0x7ffff3, 23)],
      [(0x3fffea, 22), (0x3fffeb, 22), (0x1ffffee, 25), (0x1ffffef, 25)],
      [(0xfffff4, 24), (0xfffff5, 24), (0x3ffffea, 26), (0x7ffff4, 23)],
      [(0x3ffffeb, 26), (0x7ffffe6, 27), (0x3ffffec, 26), (0x3ffffed, 26)],
      [(0x7ffffe7, 27), (0x7ffffe8, 27), (0x7ffffe9, 27), (0x7ffffea, 27)],
      [(0x7ffffeb, 27), (0xffffffe, 28), (0x7ffffec, 27), (0x7ffffed, 27)],
      [(0x7ffffee, 27), (0x7ffffef, 27), (0x7fffff0, 27), (0x3ffffee, 26)],
      [(0x3fffffff, 30)]]"

text \<open>One code written at the position: \<open>out[byte_idx] |= bit << shift\<close> for each of its bits.\<close>

definition put_bit :: "u32 \<Rightarrow> nat \<Rightarrow> nat \<Rightarrow> bytes \<times> nat \<Rightarrow> bytes \<times> nat" where
  "put_bit code len i = (\<lambda>(out, bit_pos).
     let bit = ucast (drop_bit (len - 1 - i) code AND 1) :: u8;
         byte_idx = bit_pos div 8;
         shift = 7 - bit_pos mod 8
     in (out[byte_idx := out ! byte_idx OR push_bit shift bit], bit_pos + 1))"

definition put_code :: "u32 \<times> nat \<Rightarrow> bytes \<times> nat \<Rightarrow> bytes \<times> nat" where
  "put_code = (\<lambda>(code, len). fold (put_bit code len) [0..<len])"

definition hpack_huffman_encode :: "bytes \<Rightarrow> bytes" where
  "hpack_huffman_encode input =
     (let total_bits = foldl (\<lambda>n b. n + snd (HUFFMAN_CODES ! unat b)) 0 input;
          total_bytes = (total_bits + 7) div 8;
          (out, bit_pos) = fold (\<lambda>b. put_code (HUFFMAN_CODES ! unat b)) input (replicate total_bytes 0, 0)
      in if bit_pos mod 8 \<noteq> 0 then
           let byte_idx = bit_pos div 8;
               rem = 8 - bit_pos mod 8;
               pad = push_bit rem 1 - 1 :: u8
           in out[byte_idx := out ! byte_idx OR pad]
         else out)"

definition bits_at :: "bytes \<Rightarrow> nat \<Rightarrow> nat \<Rightarrow> u32" where
  "bits_at buf pos len = fold (\<lambda>i out.
     let p = pos + i;
         byte = buf ! (p div 8);
         bit = drop_bit (7 - p mod 8) byte AND 1
     in push_bit 1 out OR ucast bit) [0..<len] 0"

definition lookup_huffman :: "u32 \<Rightarrow> nat \<Rightarrow> nat option" where
  "lookup_huffman window len = position (\<lambda>(code, code_len). code_len = len \<and> code = window) HUFFMAN_CODES"

definition CODE_LENS :: "nat list" where
  "CODE_LENS = [5..<31]"

text \<open>The loop over the code lengths: the symbol and the length of the first code that matches.\<close>

fun find_code :: "bytes \<Rightarrow> nat \<Rightarrow> nat \<Rightarrow> nat list \<Rightarrow> (nat \<times> nat) option" where
  "find_code input bit_pos total_bits [] = None"
| "find_code input bit_pos total_bits (code_len # ls) =
     (if bit_pos + code_len > total_bits then None
      else case lookup_huffman (bits_at input bit_pos code_len) code_len of
        Some s \<Rightarrow> Some (s, code_len)
      | None \<Rightarrow> find_code input bit_pos total_bits ls)"

lemma find_code_length: "find_code input pos n ls = Some (s, l) \<Longrightarrow> l \<in> set ls \<and> pos + l \<le> n"
  by (induction ls) (auto split: if_splits option.splits)

function huffman_loop :: "bytes \<Rightarrow> nat \<Rightarrow> bytes \<Rightarrow> bytes option" where
  "huffman_loop input bit_pos out =
     (let total_bits = length input * 8
      in if bit_pos < total_bits then
           case find_code input bit_pos total_bits CODE_LENS of
             Some (s, code_len) \<Rightarrow>
               if s = 256 then Some out else huffman_loop input (bit_pos + code_len) (out @ [of_nat s])
           | None \<Rightarrow>
               let pad = total_bits - bit_pos
               in if pad \<le> 7 \<and> bits_at input bit_pos pad = push_bit pad 1 - 1 then Some out else None
         else Some out)"
  by pat_completeness auto
termination
  by (relation "measure (\<lambda>(input, bit_pos, out). length input * 8 - bit_pos)") (auto simp: CODE_LENS_def simp del: upt.simps upt_rec_numeral dest!: find_code_length)

declare huffman_loop.simps [simp del]

definition hpack_huffman_decode :: "bytes \<Rightarrow> bytes option" where
  "hpack_huffman_decode input = huffman_loop input 0 []"

section \<open>Bits\<close>

definition msb_bits_of :: "u8 \<Rightarrow> bool list" where
  "msb_bits_of b = map (\<lambda>i. bit b (7 - i)) [0..<8]"

definition all_bits :: "bytes \<Rightarrow> bool list" where
  "all_bits buf = concat (map msb_bits_of buf)"

definition code_bits :: "u32 \<times> nat \<Rightarrow> bool list" where
  "code_bits = (\<lambda>(code, len). map (\<lambda>i. bit code (len - 1 - i)) [0..<len])"

definition sym_bits :: "nat \<Rightarrow> bool list" where
  "sym_bits s = code_bits (HUFFMAN_CODES ! s)"

lemma length_all_bits [simp]: "length (all_bits buf) = 8 * length buf"
  by (induction buf) (simp_all add: all_bits_def msb_bits_of_def)

lemma nth_all_bits: "p < 8 * length buf \<Longrightarrow> all_bits buf ! p = bit (buf ! (p div 8)) (7 - p mod 8)"
proof (induction buf arbitrary: p)
  case (Cons b buf)
  show ?case
  proof (cases "p < 8")
    case True
    then show ?thesis by (simp add: all_bits_def msb_bits_of_def nth_append)
  next
    case False
    then have "p - 8 < 8 * length buf" using Cons.prems by simp
    moreover have "p div 8 = Suc ((p - 8) div 8)" "p mod 8 = (p - 8) mod 8" using False by (simp_all add: le_div_geq le_mod_geq)
    ultimately show ?thesis using Cons.IH [of "p - 8"] False
      by (simp add: all_bits_def msb_bits_of_def nth_append)
  qed
qed simp

lemma length_code_bits [simp]: "length (code_bits (w, l)) = l"
  by (simp add: code_bits_def)

lemma code_bits_inj:
  assumes "code_bits (w, l) = code_bits (v, l)" "unat w < 2 ^ l" "unat v < 2 ^ l"
  shows "w = v"
proof (rule bit_word_eqI)
  fix i
  assume "i < LENGTH(32)"
  show "bit w i = bit v i"
  proof (cases "i < l")
    case True
    then have "code_bits (w, l) ! (l - 1 - i) = code_bits (v, l) ! (l - 1 - i)" using assms(1) by simp
    then show ?thesis using True by (simp add: code_bits_def)
  next
    case False
    then have "\<not> bit w i" "\<not> bit v i" using less_pow_bit assms(2,3) by blast+
    then show ?thesis by simp
  qed
qed

lemma bits_at_Suc:
  "bits_at buf pos (Suc len) = push_bit 1 (bits_at buf pos len) OR of_bool (bit (buf ! ((pos + len) div 8)) (7 - (pos + len) mod 8))"
proof -
  have "drop_bit n b AND 1 = of_bool (bit b n)" for b :: u8 and n
    by (simp add: and_one_eq bit_iff_odd_drop_bit mod2_eq_if)
  then show ?thesis by (simp add: bits_at_def Let_def of_bool_def)
qed

lemma bit_times_two: "bit (w * 2 :: u32) n \<longleftrightarrow> 0 < n \<and> n < 32 \<and> bit w (n - 1)"
proof -
  have "w * 2 = push_bit 1 w" by simp
  then show ?thesis by (simp only: bit_push_bit_iff) auto
qed

lemma code_bits_push:
  "len < 32 \<Longrightarrow> code_bits (push_bit 1 w OR of_bool b, Suc len) = code_bits (w, len) @ [b]"
  by (auto simp: code_bits_def bit_or_iff bit_times_two bit_1_iff nth_append less_Suc_eq intro!: nth_equalityI)

lemma push_less: "len < 32 \<Longrightarrow> unat w < 2 ^ len \<Longrightarrow> unat (push_bit 1 w OR of_bool b :: u32) < 2 ^ Suc len"
proof -
  assume len: "len < 32" "unat w < 2 ^ len"
  have "(2 :: nat) ^ Suc len \<le> 2 ^ 32" using len(1) by (intro power_increasing) simp_all
  moreover have "unat (push_bit 1 w) = unat w * 2 mod 2 ^ 32" by (simp add: push_bit_eq_mult unat_word_ariths mult.commute)
  ultimately have p: "unat (push_bit 1 w) = unat w * 2" using len(2) by simp
  have "push_bit 1 w AND of_bool b = 0" by (rule bit_word_eqI) (auto simp: bit_and_iff bit_times_two bit_1_iff)
  then have "unat (push_bit 1 w OR of_bool b :: u32) = unat w * 2 + unat (of_bool b :: u32)" by (simp only: unat_or_disjoint p)
  then show ?thesis using len(2) by (cases b) simp_all
qed

lemma bits_at_spec:
  assumes "pos + len \<le> 8 * length buf" "len \<le> 32"
  shows "code_bits (bits_at buf pos len, len) = take len (drop pos (all_bits buf)) \<and> unat (bits_at buf pos len) < 2 ^ len"
  using assms
proof (induction len)
  case (Suc len)
  then have IH: "code_bits (bits_at buf pos len, len) = take len (drop pos (all_bits buf))" "unat (bits_at buf pos len) < 2 ^ len"
    by simp_all
  have "take (Suc len) (drop pos (all_bits buf)) = take len (drop pos (all_bits buf)) @ [bit (buf ! ((pos + len) div 8)) (7 - (pos + len) mod 8)]"
    using Suc.prems nth_all_bits [of "pos + len" buf] by (simp add: take_Suc_conv_app_nth)
  then show ?case using IH Suc.prems by (simp only: bits_at_Suc code_bits_push push_less simp_thms)
qed (simp add: bits_at_def code_bits_def)

section \<open>The encoder writes the concatenated codes\<close>

lemma and_one_bit: "drop_bit n w AND 1 = of_bool (bit (w :: 'a::len word) n)"
  by (simp add: and_one_eq bit_iff_odd_drop_bit mod2_eq_if of_bool_def)

lemma all_bits_or:
  assumes "j < length out"
  shows "all_bits (out[j := out ! j OR w]) = map (\<lambda>p. all_bits out ! p \<or> p div 8 = j \<and> bit w (7 - p mod 8)) [0..<8 * length out]"
  using assms by (intro nth_equalityI) (auto simp: nth_all_bits bit_or_iff nth_list_update)

lemma put_bit_spec:
  assumes "all_bits out = bs @ replicate (Suc k) False"
  shows "\<exists>out'. put_bit code len i (out, length bs) = (out', Suc (length bs)) \<and> length out' = length out \<and>
    all_bits out' = (bs @ [bit code (len - 1 - i)]) @ replicate k False"
proof -
  have n: "8 * length out = length bs + Suc k" using arg_cong [OF assms, of length] by simp
  let ?j = "length bs div 8" and ?s = "7 - length bs mod 8"
  have j: "?j < length out" using n by simp
  define out' where "out' = out[?j := out ! ?j OR push_bit ?s (of_bool (bit code (len - 1 - i)))]"
  have same: "p div 8 = ?j \<and> 7 - p mod 8 = ?s \<longleftrightarrow> p = length bs" for p
  proof
    assume "p div 8 = ?j \<and> 7 - p mod 8 = ?s"
    moreover have "p mod 8 < 8" "length bs mod 8 < 8" by simp_all
    ultimately have "p mod 8 = length bs mod 8" "p div 8 = ?j" by linarith+
    then show "p = length bs" by (metis div_mult_mod_eq)
  qed simp
  have "bit (push_bit ?s (of_bool c) :: u8) (7 - p mod 8) \<longleftrightarrow> c \<and> 7 - p mod 8 = ?s" for c p
    by (cases c) (auto simp: bit_exp_iff)
  then have "all_bits out' = map (\<lambda>p. all_bits out ! p \<or> p = length bs \<and> bit code (len - 1 - i)) [0..<8 * length out]"
    unfolding out'_def all_bits_or [OF j] using same by (intro map_cong refl) blast
  also have "\<dots> = (bs @ [bit code (len - 1 - i)]) @ replicate k False"
    unfolding assms n by (rule nth_equalityI) (auto simp: nth_append nth_Cons' simp del: upt_Suc)
  finally show ?thesis unfolding put_bit_def Let_def and_one_bit
    by (intro exI [of _ out']) (cases "bit code (len - 1 - i)", simp_all add: out'_def)
qed

lemma put_code_spec:
  assumes "all_bits out = bs @ replicate (len + k) False"
  shows "\<exists>out'. put_code (code, len) (out, length bs) = (out', length bs + len) \<and> length out' = length out \<and>
    all_bits out' = (bs @ code_bits (code, len)) @ replicate k False"
proof -
  have "\<exists>out'. fold (put_bit code len) [0..<m] (out, length bs) = (out', length bs + m) \<and> length out' = length out \<and>
      all_bits out' = (bs @ map (\<lambda>i. bit code (len - 1 - i)) [0..<m]) @ replicate (len - m + k) False" if "m \<le> len" for m
    using that
  proof (induction m)
    case (Suc m)
    let ?bs = "bs @ map (\<lambda>i. bit code (len - 1 - i)) [0..<m]"
    obtain out1 where o: "fold (put_bit code len) [0..<m] (out, length bs) = (out1, length bs + m)" "length out1 = length out"
      "all_bits out1 = ?bs @ replicate (Suc (len - Suc m + k)) False" using Suc by (auto simp: Suc_diff_Suc)
    show ?case using put_bit_spec [OF o(3), of code len m] o(1,2) by auto
  qed (use assms in simp)
  from this [of len] show ?thesis by (simp add: put_code_def code_bits_def)
qed

definition text_bits :: "bytes \<Rightarrow> bool list" where
  "text_bits input = concat (map (\<lambda>b. sym_bits (unat b)) input)"

lemma put_codes_spec:
  assumes "all_bits out = bs @ replicate (length (text_bits input) + k) False"
  shows "\<exists>out'. fold (\<lambda>b. put_code (HUFFMAN_CODES ! unat b)) input (out, length bs) = (out', length (bs @ text_bits input)) \<and>
    length out' = length out \<and> all_bits out' = (bs @ text_bits input) @ replicate k False"
  using assms
proof (induction input arbitrary: out bs)
  case (Cons b input)
  obtain code len where c: "HUFFMAN_CODES ! unat b = (code, len)" by force
  have "all_bits out = bs @ replicate (len + (length (text_bits input) + k)) False"
    using Cons.prems by (simp add: text_bits_def sym_bits_def c add.assoc)
  from put_code_spec [OF this, of code] obtain out1 where o: "put_code (code, len) (out, length bs) = (out1, length bs + len)"
    "length out1 = length out" "all_bits out1 = (bs @ code_bits (code, len)) @ replicate (length (text_bits input) + k) False" by blast
  show ?case using Cons.IH [OF o(3)] o(1,2) by (simp add: c text_bits_def sym_bits_def)
qed (simp add: text_bits_def)

lemma total_bits: "foldl (\<lambda>n b. n + snd (HUFFMAN_CODES ! unat b)) m input = m + length (text_bits input)"
proof (induction input arbitrary: m)
  case (Cons b input)
  have "length (sym_bits (unat b)) = snd (HUFFMAN_CODES ! unat b)"
    by (cases "HUFFMAN_CODES ! unat b") (simp add: sym_bits_def)
  then show ?case using Cons by (simp add: text_bits_def)
qed (simp add: text_bits_def)

lemma all_bits_zero: "all_bits (replicate n 0) = replicate (8 * n) False"
  by (intro nth_equalityI) (simp_all add: nth_all_bits)

lemma huffman_encode_bits:
  "\<exists>pad < 8. all_bits (hpack_huffman_encode input) = text_bits input @ replicate pad True"
proof -
  define t where "t = length (text_bits input)"
  define n where "n = (t + 7) div 8"
  have n: "t \<le> 8 * n" "8 * n < t + 8" unfolding n_def by linarith+
  have "all_bits (replicate n 0) = [] @ replicate (length (text_bits input) + (8 * n - t)) False"
    using n(1) by (simp add: all_bits_zero t_def)
  from put_codes_spec [OF this] obtain out where o: "fold (\<lambda>b. put_code (HUFFMAN_CODES ! unat b)) input (replicate n 0, 0) = (out, t)"
    "length out = n" "all_bits out = text_bits input @ replicate (8 * n - t) False" by (auto simp: t_def)
  show ?thesis
  proof (cases "t mod 8 = 0")
    case True
    moreover have "t = 8 * (t div 8) + t mod 8" by simp
    ultimately have "t div 8 \<le> n" "n < t div 8 + 1" "t = 8 * (t div 8)" using n by linarith+
    then have "8 * n = t" by (metis Suc_eq_plus1 less_Suc_eq_le order_antisym)
    then have "hpack_huffman_encode input = out" "all_bits out = text_bits input"
      using True o by (simp_all add: hpack_huffman_encode_def Let_def total_bits t_def [symmetric] n_def [symmetric])
    then show ?thesis by (intro exI [of _ 0]) simp
  next
    case False
    let ?j = "t div 8" and ?r = "8 - t mod 8"
    have "t = 8 * ?j + t mod 8" "t mod 8 < 8" by simp_all
    then have "?j < n" "n < ?j + 2" using n False by linarith+
    then have j: "?j < length out" "8 * n = 8 * ?j + 8" using o(2) by linarith+
    have pad: "push_bit ?r 1 - 1 = (mask ?r :: u8)" by (simp add: mask_eq_exp_minus_1 push_bit_eq_mult)
    have e: "hpack_huffman_encode input = out[?j := out ! ?j OR mask ?r]"
      using False o(1) by (simp add: hpack_huffman_encode_def Let_def total_bits t_def [symmetric] n_def [symmetric] pad [symmetric])
    have "p div 8 = ?j \<and> 7 - p mod 8 < ?r \<longleftrightarrow> t \<le> p" if "p < 8 * n" for p
    proof (cases "p div 8 = ?j")
      case True
      have "p = 8 * (p div 8) + p mod 8" "t = 8 * ?j + t mod 8" "p mod 8 < 8" "t mod 8 < 8" by simp_all
      then have "7 - p mod 8 < ?r \<longleftrightarrow> t \<le> p" using True by linarith
      then show ?thesis using True by blast
    next
      case False
      have "p div 8 \<le> ?j" using that j(2) by linarith
      then have "p div 8 < ?j" using False by linarith
      then have "p < t" by linarith
      then show ?thesis using False by simp
    qed
    moreover have "bit (mask ?r :: u8) (7 - p mod 8) \<longleftrightarrow> 7 - p mod 8 < ?r" for p
      by (auto simp: bit_mask_iff)
    ultimately have "all_bits (hpack_huffman_encode input) = map (\<lambda>p. all_bits out ! p \<or> t \<le> p) [0..<8 * n]"
      unfolding e all_bits_or [OF j(1)] o(2) by (intro map_cong refl) auto
    also have "\<dots> = text_bits input @ replicate (8 * n - t) True"
      unfolding o(3) using n(1) by (intro nth_equalityI) (auto simp: nth_append t_def simp del: upt_Suc)
    finally show ?thesis using n by (intro exI [of _ "8 * n - t"]) simp
  qed
qed


section \<open>The table is a canonical code\<close>

text \<open>
  The codes of one length are consecutive numbers in the order of the symbols, and the first code of a length is
  twice the number after the last code of the length before: walking through the table with the next code of
  every length starts at \<open>first_codes\<close> and ends at \<open>end_codes\<close>.
\<close>

definition first_codes :: "nat list" where
  "first_codes =
    [0, 0, 0, 0, 0, 0, 20, 92, 248, 508, 1016, 2042, 4090, 8184, 16380, 32764, 65534, 131068, 262136,
     524272, 1048550, 2097116, 4194258, 8388568, 16777194, 33554412, 67108832, 134217694, 268435426,
     536870910, 1073741820]"

definition end_codes :: "nat list" where
  "end_codes =
    [0, 0, 0, 0, 0, 10, 46, 124, 254, 508, 1021, 2045, 4092, 8190, 16382, 32767, 65534, 131068, 262136,
     524275, 1048558, 2097129, 4194284, 8388597, 16777206, 33554416, 67108847, 134217713, 268435455,
     536870910, 1073741824]"

fun walk_codes :: "nat list \<Rightarrow> (u32 \<times> nat) list \<Rightarrow> nat list option" where
  "walk_codes nx [] = Some nx"
| "walk_codes nx ((c, l) # ps) = (if l < length nx \<and> nx ! l = unat c then walk_codes (nx[l := Suc (unat c)]) ps else None)"

lemma walk_append: "walk_codes nx (xs @ ys) = Option.bind (walk_codes nx xs) (\<lambda>nx'. walk_codes nx' ys)"
  by (induction nx xs rule: walk_codes.induct) auto

lemma canonical: "walk_codes first_codes HUFFMAN_CODES = Some end_codes"
  unfolding first_codes_def HUFFMAN_CODES_def end_codes_def
  by (simp add: walk_append)

lemma length_codes: "length HUFFMAN_CODES = 257"
  by (simp add: HUFFMAN_CODES_def)


lemma walk_codes_filter:
  "walk_codes nx ps = Some nx' \<Longrightarrow> length nx' = length nx \<and> (\<forall>p \<in> set ps. snd p < length nx) \<and>
   (l < length nx \<longrightarrow> nx ! l \<le> nx' ! l \<and> map (\<lambda>p. unat (fst p)) (filter (\<lambda>p. snd p = l) ps) = [nx ! l..<nx' ! l])"
proof (induction nx ps rule: walk_codes.induct)
  case (2 nx c k ps)
  then show ?case by (cases "k = l") (auto simp: upt_conv_Cons split: if_splits)
qed simp

lemma length_tables: "length first_codes = 31" "length end_codes = 31"
  by (simp_all add: first_codes_def end_codes_def)

lemma codes_of_length:
  "l < 31 \<Longrightarrow> first_codes ! l \<le> end_codes ! l \<and>
    map (\<lambda>p. unat (fst p)) (filter (\<lambda>p. snd p = l) HUFFMAN_CODES) = [first_codes ! l..<end_codes ! l]"
  using walk_codes_filter [OF canonical] by (simp add: length_tables)

lemma code_lengths: "list_all (\<lambda>l. first_codes ! l = 2 * end_codes ! (l - 1) \<and> (l < 30 \<longrightarrow> end_codes ! l < 2 ^ l)) [1..<31]"
    "list_all (\<lambda>l. end_codes ! l = 0) [0..<5]" "end_codes ! 30 = 2 ^ 30"
  by (simp_all add: first_codes_def end_codes_def upt_rec)

lemma first_codes_Suc: "l < 30 \<Longrightarrow> first_codes ! Suc l = 2 * end_codes ! l"
  using code_lengths(1) by (fastforce simp: list_all_iff Ball_def)

lemma end_codes_less: "0 < l \<Longrightarrow> l < 30 \<Longrightarrow> end_codes ! l < 2 ^ l"
  using code_lengths(1) by (auto simp: list_all_iff)

lemma code_range:
  assumes "s < 257" "HUFFMAN_CODES ! s = (c, l)"
  shows "5 \<le> l \<and> l \<le> 30 \<and> first_codes ! l \<le> unat c \<and> unat c < end_codes ! l"
proof -
  have m: "(c, l) \<in> set HUFFMAN_CODES" using assms by (metis length_codes nth_mem)
  then have l: "l < 31" using walk_codes_filter [OF canonical] by (fastforce simp: length_tables)
  have "unat c \<in> set (map (\<lambda>p. unat (fst p)) (filter (\<lambda>p. snd p = l) HUFFMAN_CODES))" using m by force
  then have r: "first_codes ! l \<le> unat c \<and> unat c < end_codes ! l" using codes_of_length [OF l] by simp
  then have "\<not> l < 5" using code_lengths(2) by (force simp: list_all_iff)
  then show ?thesis using l r by simp
qed

lemma distinct_filters: "(\<And>k. distinct (filter (\<lambda>x. f x = k) xs)) \<Longrightarrow> distinct xs"
proof (induction xs)
  case (Cons x xs)
  have "distinct (filter (\<lambda>y. f y = k) xs)" for k using Cons.prems [of k] by (simp split: if_splits)
  then show ?case using Cons.IH Cons.prems [of "f x"] by simp
qed simp

lemma codes_distinct: "distinct HUFFMAN_CODES"
proof (rule distinct_filters [where f = snd])
  fix k
  show "distinct (filter (\<lambda>p. snd p = k) HUFFMAN_CODES)"
  proof (cases "k < 31")
    case True
    then show ?thesis using codes_of_length [of k] by (metis distinct_map distinct_upt)
  next
    case False
    then have "filter (\<lambda>p. snd p = k) HUFFMAN_CODES = []"
      using walk_codes_filter [OF canonical] by (fastforce simp: length_tables filter_empty_conv)
    then show ?thesis by simp
  qed
qed

lemma lookup_code:
  assumes "s < 257" "HUFFMAN_CODES ! s = (c, l)"
  shows "lookup_huffman c l = Some s"
proof -
  have p: "s' = s" if "s' < 257" "HUFFMAN_CODES ! s' = (c, l)" for s'
    using codes_distinct nth_eq_iff_index_eq assms that by (metis length_codes)
  show ?thesis
  proof (cases "lookup_huffman c l")
    case None
    then have "(c, l) \<notin> set HUFFMAN_CODES" by (auto simp: lookup_huffman_def position_None)
    then show ?thesis using assms by (metis length_codes nth_mem)
  next
    case (Some s')
    then have "s' < 257 \<and> HUFFMAN_CODES ! s' = (c, l)"
      by (auto simp: lookup_huffman_def length_codes dest!: position_Some split: prod.splits)
    then show ?thesis using p Some by simp
  qed
qed

lemma lookup_None:
  assumes "\<not> unat w < end_codes ! l" "l < 31"
  shows "lookup_huffman w l = None"
proof -
  have "(w, l) \<notin> set HUFFMAN_CODES"
    using assms code_range by (metis in_set_conv_nth length_codes)
  then show ?thesis by (auto simp: lookup_huffman_def position_None)
qed

lemma end_codes_prefix: "l < m \<Longrightarrow> m < 31 \<Longrightarrow> end_codes ! l * 2 ^ (m - l) \<le> first_codes ! m"
proof (induction m)
  case (Suc m)
  show ?case
  proof (cases "l = m")
    case True
    then show ?thesis using first_codes_Suc [of m] Suc.prems by simp
  next
    case False
    then have "end_codes ! l * 2 ^ (m - l) \<le> first_codes ! m" using Suc by simp
    also have "\<dots> \<le> end_codes ! m" using codes_of_length [of m] Suc.prems by simp
    finally show ?thesis using first_codes_Suc [of m] Suc.prems False by (simp add: Suc_diff_le)
  qed
qed simp

lemma lookup_proper_prefix:
  assumes "s < 257" "HUFFMAN_CODES ! s = (c, m)" "l < m"
  shows "lookup_huffman (drop_bit (m - l) c) l = None"
proof (rule lookup_None)
  have "end_codes ! l * 2 ^ (m - l) \<le> unat c" using code_range [OF assms(1,2)] end_codes_prefix [OF assms(3)] by simp
  then have "end_codes ! l \<le> unat c div 2 ^ (m - l)" by (simp add: less_eq_div_iff_mult_less_eq)
  then show "\<not> unat (drop_bit (m - l) c) < end_codes ! l" by (simp only: unat_drop not_less)
  show "l < 31" using code_range [OF assms(1,2)] assms(3) by simp
qed

section \<open>The decoder undoes the encoder\<close>

lemma window_eq:
  assumes "take l (drop pos (all_bits buf)) = code_bits (w, l)" "pos + l \<le> 8 * length buf" "l \<le> 32" "unat w < 2 ^ l"
  shows "bits_at buf pos l = w"
  using bits_at_spec [OF assms(2,3)] assms(1,4) code_bits_inj by auto

lemma code_bits_drop: "l \<le> m \<Longrightarrow> take l (code_bits (c, m)) = code_bits (drop_bit (m - l) c, l)"
  by (rule nth_equalityI) (auto simp: code_bits_def bit_drop_bit_eq intro: arg_cong2 [where f = bit])

lemma end_codes_le: "l < 31 \<Longrightarrow> end_codes ! l \<le> 2 ^ l"
  using end_codes_less [of l] code_lengths(2,3) by (cases "l = 0 \<or> l = 30") (auto simp: list_all_iff intro: less_imp_le)

lemma find_code_symbol:
  assumes "s < 257" "drop pos (all_bits buf) = sym_bits s @ rest" "k \<le> snd (HUFFMAN_CODES ! s)"
  shows "find_code buf pos (length buf * 8) [k..<31] = Some (s, snd (HUFFMAN_CODES ! s))"
proof -
  obtain c m where c: "HUFFMAN_CODES ! s = (c, m)" by force
  note r = code_range [OF assms(1) c]
  have len: "length (drop pos (all_bits buf)) = m + length rest" using assms(2) by (simp add: sym_bits_def c)
  then have pos: "pos + m \<le> 8 * length buf" using r by (simp, arith)
  have cb: "unat c < 2 ^ m" using r end_codes_le [of m] by simp
  have w: "bits_at buf pos l = drop_bit (m - l) c" if "l \<le> m" for l
  proof (rule window_eq)
    show "take l (drop pos (all_bits buf)) = code_bits (drop_bit (m - l) c, l)"
      using assms(2) that by (simp add: sym_bits_def c code_bits_drop)
    have "(2 :: nat) ^ m = 2 ^ l * 2 ^ (m - l)" using that by (simp add: power_add [symmetric])
    then show "unat (drop_bit (m - l) c) < 2 ^ l"
      using cb by (simp only: unat_drop less_mult_imp_div_less)
  qed (use that pos r in simp_all)
  have "k \<le> m \<Longrightarrow> ?thesis" unfolding c snd_conv
  proof (induction k rule: inc_induct)
    case base
    have "[m..<31] = m # [Suc m..<31]" using r by (simp add: upt_conv_Cons)
    then show ?case using pos w [of m] lookup_code [OF assms(1) c] by simp
  next
    case (step k)
    have "[k..<31] = k # [Suc k..<31]" using r step.hyps by (simp add: upt_conv_Cons)
    then show ?case using pos w [of k] lookup_proper_prefix [OF assms(1) c, of k] step by simp
  qed
  then show ?thesis using assms(3) c by simp
qed

lemma unat_mask_32: "k \<le> 32 \<Longrightarrow> unat (mask k :: u32) = 2 ^ k - 1"
proof -
  assume "k \<le> 32"
  then have "unat (mask k :: u32) = mask k" by (intro bit_eqI) (auto simp: bit_unsigned_iff bit_mask_iff)
  then show ?thesis by (simp add: mask_eq_exp_minus_1)
qed

lemma find_code_padding:
  assumes "drop pos (all_bits buf) = replicate pad True" "pad < 8" "0 < k"
  shows "find_code buf pos (length buf * 8) [k..<31] = None"
  using assms(3)
proof (induction "31 - k" arbitrary: k)
  case (Suc n)
  have k: "[k..<31] = k # [Suc k..<31]" "find_code buf pos (length buf * 8) [Suc k..<31] = None"
    using Suc.hyps by (simp_all add: upt_conv_Cons)
  show ?case
  proof (cases "pos + k \<le> length buf * 8")
    case True
    have "8 * length buf - pos = pad" using arg_cong [OF assms(1), of length] by simp
    then have kp: "k \<le> pad" "k < 8" using True assms(2) by linarith+
    have m: "unat (mask k :: u32) = 2 ^ k - 1" using kp(2) by (intro unat_mask_32) simp
    have "bits_at buf pos k = mask k"
    proof (rule window_eq)
      show "take k (drop pos (all_bits buf)) = code_bits (mask k, k)"
        unfolding assms(1) using kp by (intro nth_equalityI) (auto simp: code_bits_def bit_mask_iff)
      show "unat (mask k :: u32) < 2 ^ k" unfolding m by simp
    qed (use True kp in simp_all)
    moreover have "lookup_huffman (mask k) k = None"
      using end_codes_less [of k] Suc.prems kp(2) by (intro lookup_None) (simp_all add: m)
    ultimately show ?thesis using k True by simp
  qed (simp add: k(1))
qed simp

lemma code_nonempty: "s < 257 \<Longrightarrow> 5 \<le> snd (HUFFMAN_CODES ! s)"
  using code_range [of s] by (metis prod.collapse)

lemma huffman_loop_decodes:
  assumes "drop pos (all_bits buf) = text_bits input @ replicate pad True" "pad < 8"
  shows "huffman_loop buf pos out = Some (out @ input)"
  using assms(1)
proof (induction input arbitrary: pos out)
  case Nil
  have n: "8 * length buf - pos = pad" using arg_cong [OF Nil, of length] by (simp add: text_bits_def)
  show ?case
  proof (cases "pad = 0")
    case False
    have "bits_at buf pos pad = mask pad"
    proof (rule window_eq)
      show "take pad (drop pos (all_bits buf)) = code_bits (mask pad, pad)"
        unfolding Nil using assms(2) by (intro nth_equalityI) (auto simp: text_bits_def code_bits_def bit_mask_iff)
      show "unat (mask pad :: u32) < 2 ^ pad" using assms(2) unat_mask_32 [of pad] by simp
    qed (use n assms(2) False in simp_all)
    moreover have "push_bit pad 1 - 1 = (mask pad :: u32)" by (simp add: mask_eq_exp_minus_1 push_bit_eq_mult)
    moreover have "find_code buf pos (length buf * 8) [5..<31] = None"
      using find_code_padding [of pos buf pad 5] Nil assms(2) by (simp add: text_bits_def)
    ultimately show ?thesis using n assms(2) False
      by (subst huffman_loop.simps) (simp add: CODE_LENS_def Let_def mult.commute del: upt.simps upt_rec_numeral)
  qed (use n in \<open>subst huffman_loop.simps, simp\<close>)
next
  case (Cons b input)
  have b: "unat b < 257" by (rule less_trans [OF unat_u8_less]) simp
  obtain c l where c: "HUFFMAN_CODES ! unat b = (c, l)" by force
  have d: "drop pos (all_bits buf) = sym_bits (unat b) @ text_bits input @ replicate pad True"
    using Cons.prems by (simp add: text_bits_def)
  have "drop (pos + l) (all_bits buf) = text_bits input @ replicate pad True"
    using arg_cong [OF d, of "drop l"] by (simp add: sym_bits_def c add.commute)
  then have IH: "huffman_loop buf (pos + l) (out @ [b]) = Some (out @ b # input)" using Cons.IH by simp
  have f: "find_code buf pos (length buf * 8) [5..<31] = Some (unat b, l)"
    using find_code_symbol [OF b d code_nonempty [OF b]] c by simp
  have "pos < length buf * 8" using arg_cong [OF d, of length] code_nonempty [OF b] c by (simp add: sym_bits_def)
  moreover have "unat b \<noteq> 256" by (rule less_imp_neq [OF unat_u8_less])
  ultimately show ?case using f IH
    by (subst huffman_loop.simps) (simp add: CODE_LENS_def Let_def del: upt.simps upt_rec_numeral)
qed

lemma huffman_inverse: "hpack_huffman_decode (hpack_huffman_encode input) = Some input"
proof -
  obtain pad where "pad < 8" "all_bits (hpack_huffman_encode input) = text_bits input @ replicate pad True"
    using huffman_encode_bits by blast
  then show ?thesis using huffman_loop_decodes [of 0 _ input pad "[]"] by (simp add: hpack_huffman_decode_def)
qed

text \<open>C30: The HPACK Huffman decoder returns every byte string from its encoding: the table is a canonical prefix code, the
  window search finds exactly the symbol that was written, and the padding of up to seven ones is never taken for one.
\<close>

theorem huffman_roundtrip: "hpack_huffman_decode (hpack_huffman_encode input) = Some input"
  by (rule huffman_inverse)

text \<open>RFC 7541 section 5.2 makes the EOS symbol in a string a decoding error; the decoder stops there and accepts.\<close>

theorem huffman_eos_accepted: "hpack_huffman_decode [0xFF, 0xFF, 0xFF, 0xFF] = Some []"
proof -
  let ?buf = "[0xFF, 0xFF, 0xFF, 0xFF] :: bytes"
  have b: "drop 0 (all_bits ?buf) = sym_bits 256 @ [True, True]" "snd (HUFFMAN_CODES ! 256) = 30"
    by (simp_all add: all_bits_def msb_bits_of_def sym_bits_def code_bits_def HUFFMAN_CODES_def upt_rec)
  then have "find_code ?buf 0 (length ?buf * 8) [5..<31] = Some (256, 30)"
    using find_code_symbol [OF _ b(1), of 5] by simp
  then show ?thesis unfolding hpack_huffman_decode_def
    by (subst huffman_loop.simps) (simp add: CODE_LENS_def Let_def del: upt.simps upt_rec_numeral)
qed

end
