(* ===== verification/Hpack.thy ===== *)
theory Hpack
  imports Hpack_Huffman
begin

text \<open>
  HPACK header compression (\<^verbatim>\<open>crates/cv_net/src/http2.rs\<close>): prefixed integers, string literals,
  the static table, the dynamic table and the block codec. A Rust string is its UTF-8 bytes; \<open>usize\<close> is a natural
  number. A function that returns \<open>None\<close> gives \<open>Malformed\<close>; \<open>Overflow\<close> is the addition that
  panics in a build with overflow checks.
\<close>

section \<open>Definitions\<close>

definition ascii :: "string \<Rightarrow> bytes" where
  "ascii s = map of_char s"

text \<open>\<open>str::to_ascii_lowercase\<close>.\<close>

definition lower_byte :: "u8 \<Rightarrow> u8" where
  "lower_byte b = (if 0x41 \<le> b \<and> b \<le> 0x5A then b + 0x20 else b)"

definition lowercase :: "bytes \<Rightarrow> bytes" where
  "lowercase s = map lower_byte s"

datatype hpack_fail = Malformed | Overflow

type_synonym header = "bytes \<times> bytes"

definition HPACK_STATIC_TABLE :: "header list" where
  "HPACK_STATIC_TABLE = map (\<lambda>(n, v). (ascii n, ascii v)) (concat
     [[('':authority'', ''''), ('':method'', ''GET'')],
      [('':method'', ''POST''), ('':path'', ''/'')],
      [('':path'', ''/index.html''), ('':scheme'', ''http'')],
      [('':scheme'', ''https''), ('':status'', ''200'')],
      [('':status'', ''204''), ('':status'', ''206'')],
      [('':status'', ''304''), ('':status'', ''400'')],
      [('':status'', ''404''), ('':status'', ''500'')],
      [(''accept-charset'', ''''), (''accept-encoding'', ''gzip, deflate'')],
      [(''accept-language'', ''''), (''accept-ranges'', '''')],
      [(''accept'', ''''), (''access-control-allow-origin'', '''')],
      [(''age'', ''''), (''allow'', '''')],
      [(''authorization'', ''''), (''cache-control'', '''')],
      [(''content-disposition'', ''''), (''content-encoding'', '''')],
      [(''content-language'', ''''), (''content-length'', '''')],
      [(''content-location'', ''''), (''content-range'', '''')],
      [(''content-type'', ''''), (''cookie'', '''')],
      [(''date'', ''''), (''etag'', '''')],
      [(''expect'', ''''), (''expires'', '''')],
      [(''from'', ''''), (''host'', '''')],
      [(''if-match'', ''''), (''if-modified-since'', '''')],
      [(''if-none-match'', ''''), (''if-range'', '''')],
      [(''if-unmodified-since'', ''''), (''last-modified'', '''')],
      [(''link'', ''''), (''location'', '''')],
      [(''max-forwards'', ''''), (''proxy-authenticate'', '''')],
      [(''proxy-authorization'', ''''), (''range'', '''')],
      [(''referer'', ''''), (''refresh'', '''')],
      [(''retry-after'', ''''), (''server'', '''')],
      [(''set-cookie'', ''''), (''strict-transport-security'', '''')],
      [(''transfer-encoding'', ''''), (''user-agent'', '''')],
      [(''vary'', ''''), (''via'', '''')],
      [(''www-authenticate'', '''')]])"

function encode_int_rest :: "bytes \<Rightarrow> u32 \<Rightarrow> bytes" where
  "encode_int_rest out rem =
     (if rem \<ge> 128 then encode_int_rest (out @ [ucast (rem AND 0x7F OR 0x80)]) (drop_bit 7 rem)
      else out @ [ucast rem])"
  by pat_completeness auto
termination
proof (relation "measure (\<lambda>(out, rem). unat rem)", simp)
  fix out :: bytes and rem :: u32
  assume "128 \<le> rem"
  then have "unat (drop_bit 7 rem) < unat rem" by (simp add: unat_drop word_le_nat_alt)
  then show "((out @ [ucast (rem AND 0x7F OR 0x80)], drop_bit 7 rem), out, rem) \<in> measure (\<lambda>(out, rem). unat rem)" by simp
qed

declare encode_int_rest.simps [simp del]

definition encode_int :: "bytes \<Rightarrow> u32 \<Rightarrow> nat \<Rightarrow> u8 \<Rightarrow> bytes" where
  "encode_int out value prefix_bits first_byte =
     (let max_prefix = push_bit prefix_bits 1 - 1
      in if value < max_prefix then out @ [first_byte OR ucast value]
         else encode_int_rest (out @ [first_byte OR ucast max_prefix]) (value - max_prefix))"

definition encode_literal_string :: "bytes \<Rightarrow> bytes \<Rightarrow> bytes" where
  "encode_literal_string out s =
     (let huff = hpack_huffman_encode s
      in if length huff < length s then encode_int out (of_nat (length huff)) 7 0x80 @ huff
         else encode_int out (of_nat (length s)) 7 0x00 @ s)"

text \<open>
  The search of \<open>hpack_encode_header\<close>: the position of the entry that has the name and the value, where the loop
  returns at once, or the index of the first entry with the name.
\<close>

fun find_static :: "header list \<Rightarrow> nat \<Rightarrow> bytes \<Rightarrow> bytes \<Rightarrow> u8 option \<Rightarrow> nat + u8 option" where
  "find_static [] i lc value name_index = Inr name_index"
| "find_static ((n, v) # tbl) i lc value name_index =
     (if n = lc then
        if v = value then Inl i
        else find_static tbl (i + 1) lc value (if name_index = None then Some (of_nat i + 1) else name_index)
      else find_static tbl (i + 1) lc value name_index)"

definition hpack_encode_header :: "bytes \<Rightarrow> bytes \<Rightarrow> bytes \<Rightarrow> bytes" where
  "hpack_encode_header out name value =
     (let lc = lowercase name
      in case find_static HPACK_STATIC_TABLE 0 lc value None of
        Inl i \<Rightarrow> encode_int out (of_nat i + 1) 7 0x80
      | Inr (Some idx) \<Rightarrow> encode_literal_string (encode_int out (ucast idx) 6 0x40) value
      | Inr None \<Rightarrow> encode_literal_string (encode_literal_string (out @ [0x40]) lc) value)"

definition hpack_encode_block :: "header list \<Rightarrow> bytes" where
  "hpack_encode_block headers = fold (\<lambda>(n, v) out. hpack_encode_header out n v) headers []"

record hpack_table =
  max_bytes :: nat
  tbl_entries :: "header list"

definition hpack_table_new :: hpack_table where
  "hpack_table_new = \<lparr>max_bytes = 4096, tbl_entries = []\<rparr>"

definition entries_bytes :: "header list \<Rightarrow> nat" where
  "entries_bytes es = sum_list (map (\<lambda>(n, v). length n + length v + 32) es)"

definition table_bytes :: "hpack_table \<Rightarrow> nat" where
  "table_bytes t = entries_bytes (tbl_entries t)"

text \<open>The loop that pops entries while the table is too large, of \<open>insert\<close> and of the size update.\<close>

function table_evict :: "hpack_table \<Rightarrow> hpack_table" where
  "table_evict t =
     (if table_bytes t > max_bytes t \<and> tbl_entries t \<noteq> [] then table_evict (t\<lparr>tbl_entries := butlast (tbl_entries t)\<rparr>)
      else t)"
  by pat_completeness auto
termination by (relation "measure (\<lambda>t. length (tbl_entries t))") auto

declare table_evict.simps [simp del]

definition table_insert :: "hpack_table \<Rightarrow> bytes \<Rightarrow> bytes \<Rightarrow> hpack_table" where
  "table_insert t name value = table_evict (t\<lparr>tbl_entries := (name, value) # tbl_entries t\<rparr>)"

function decode_int_rest :: "bytes \<Rightarrow> u32 \<Rightarrow> nat \<Rightarrow> nat \<Rightarrow> hpack_fail + (u32 \<times> nat)" where
  "decode_int_rest buf value i m =
     (if i \<ge> length buf then Inl Malformed
      else
        let b = buf ! i;
            add = push_bit m (ucast (b AND 0x7F)) :: u32
        in if unat value + unat add \<ge> 2 ^ 32 then Inl Overflow
           else if b AND 0x80 = 0 then Inr (value + add, i + 1)
           else if m + 7 > 28 then Inl Malformed
           else decode_int_rest buf (value + add) (i + 1) (m + 7))"
  by pat_completeness auto
termination by (relation "measure (\<lambda>(buf, value, i, m). length buf - i)") auto

declare decode_int_rest.simps [simp del]

definition hpack_decode_int :: "bytes \<Rightarrow> nat \<Rightarrow> hpack_fail + (u32 \<times> nat)" where
  "hpack_decode_int buf prefix_bits =
     (if buf = [] then Inl Malformed
      else
        let mask = push_bit prefix_bits 1 - 1;
            value = ucast (buf ! 0) AND mask
        in if value < mask then Inr (value, 1) else decode_int_rest buf value 1 0)"

definition hpack_decode_string :: "bytes \<Rightarrow> hpack_fail + (bytes \<times> nat)" where
  "hpack_decode_string buf =
     (if buf = [] then Inl Malformed
      else
        let huff = buf ! 0 AND 0x80 \<noteq> 0
        in rbind (hpack_decode_int buf 7) (\<lambda>(len, adv).
          let end = adv + unat len
          in if end > length buf then Inl Malformed
             else
               let raw = take (unat len) (drop adv buf)
               in rbind (if huff then ok_or Malformed (hpack_huffman_decode raw) else Inr raw)
                    (\<lambda>s. if utf8_valid s then Inr (s, end) else Inl Malformed)))"

definition hpack_lookup :: "u32 \<Rightarrow> hpack_table \<Rightarrow> hpack_fail + header" where
  "hpack_lookup idx t =
     (let i = unat idx
      in if idx = 0 then Inl Malformed
         else if i \<le> length HPACK_STATIC_TABLE then Inr (HPACK_STATIC_TABLE ! (i - 1))
         else ok_or Malformed (vec_get (tbl_entries t) (i - length HPACK_STATIC_TABLE - 1)))"

text \<open>
  One pass of the loop of \<open>hpack_decode_block\<close> at the position: the new position, the emitted header and the
  table. A pass that fails has not touched the table.
\<close>

definition decode_name :: "bytes \<Rightarrow> nat \<Rightarrow> u32 \<Rightarrow> hpack_table \<Rightarrow> hpack_fail + (bytes \<times> nat)" where
  "decode_name buf i idx t =
     (if idx = 0 then rbind (hpack_decode_string (drop i buf)) (\<lambda>(s, a). Inr (s, i + a))
      else rbind (hpack_lookup idx t) (\<lambda>(n, v). Inr (n, i)))"

definition decode_literal :: "bytes \<Rightarrow> nat \<Rightarrow> nat \<Rightarrow> hpack_table \<Rightarrow> hpack_fail + (header \<times> nat)" where
  "decode_literal buf i prefix_bits t =
     rbind (hpack_decode_int (drop i buf) prefix_bits) (\<lambda>(idx, adv).
     rbind (decode_name buf (i + adv) idx t) (\<lambda>(name, i).
     rbind (hpack_decode_string (drop i buf)) (\<lambda>(value, a). Inr ((name, value), i + a))))"

definition decode_field :: "bytes \<Rightarrow> nat \<Rightarrow> hpack_table \<Rightarrow> hpack_fail + (header option \<times> nat \<times> hpack_table)" where
  "decode_field buf i t =
     (let b = buf ! i
      in if b AND 0x80 \<noteq> 0 then
           rbind (hpack_decode_int (drop i buf) 7) (\<lambda>(idx, adv).
           rbind (hpack_lookup idx t) (\<lambda>h. Inr (Some h, i + adv, t)))
         else if b AND 0xc0 = 0x40 then
           rbind (decode_literal buf i 6 t) (\<lambda>((name, value), i). Inr (Some (name, value), i, table_insert t name value))
         else if b AND 0xe0 = 0x20 then
           rbind (hpack_decode_int (drop i buf) 5) (\<lambda>(new_size, adv).
             Inr (None, i + adv, table_evict (t\<lparr>max_bytes := unat new_size\<rparr>)))
         else rbind (decode_literal buf i 4 t) (\<lambda>(h, i). Inr (Some h, i, t)))"

lemma decode_int_rest_adv: "decode_int_rest buf w i m = Inr (v, a) \<Longrightarrow> i < a \<and> a \<le> length buf"
proof (induction buf w i m rule: decode_int_rest.induct)
  case (1 buf w i m)
  note IH = "1.IH" [OF _ refl refl]
  from "1.prems" show ?case
    by (subst (asm) decode_int_rest.simps) (auto simp: Let_def split: if_splits dest!: IH)
qed

lemma decode_int_adv: "hpack_decode_int buf p = Inr (v, a) \<Longrightarrow> 0 < a \<and> a \<le> length buf"
  using decode_int_rest_adv [of buf _ 1 0 v a] by (force simp: hpack_decode_int_def Let_def Suc_le_eq split: if_splits)

lemma decode_field_adv: "decode_field buf i t = Inr (h, i', t') \<Longrightarrow> i < i'"
  by (auto simp: decode_field_def decode_literal_def decode_name_def Let_def rbind_eq_Inr split: if_splits prod.splits
      dest!: decode_int_adv)

function decode_fields :: "bytes \<Rightarrow> nat \<Rightarrow> hpack_table \<Rightarrow> header list \<Rightarrow> (hpack_fail + header list) \<times> hpack_table" where
  "decode_fields buf i t out =
     (if i < length buf then
        case decode_field buf i t of
          Inl e \<Rightarrow> (Inl e, t)
        | Inr (h, i', t') \<Rightarrow> decode_fields buf i' t' (out @ (case h of None \<Rightarrow> [] | Some h \<Rightarrow> [h]))
      else (Inr out, t))"
  by pat_completeness auto
termination by (relation "measure (\<lambda>(buf, i, t, out). length buf - i)") (auto dest!: decode_field_adv)

declare decode_fields.simps [simp del]

definition hpack_decode_block :: "bytes \<Rightarrow> hpack_table \<Rightarrow> (hpack_fail + header list) \<times> hpack_table" where
  "hpack_decode_block buf t = decode_fields buf 0 t []"

section \<open>Integers\<close>

lemma drop_7_less: "128 \<le> rem \<Longrightarrow> unat (drop_bit 7 rem :: u32) < unat rem"
  by (simp add: unat_drop word_le_nat_alt)

lemma encode_int_rest_out: "encode_int_rest out rem = out @ encode_int_rest [] rem"
proof (induction "unat rem" arbitrary: rem out rule: less_induct)
  case less
  show ?case
  proof (cases "128 \<le> rem")
    case True
    then have "encode_int_rest out (drop_bit 7 rem) = out @ encode_int_rest [] (drop_bit 7 rem)" for out
      using less drop_7_less by blast
    moreover have "encode_int_rest out rem = encode_int_rest (out @ [ucast (rem AND 0x7F OR 0x80)]) (drop_bit 7 rem)" for out
      using True by (subst encode_int_rest.simps) simp
    ultimately show ?thesis by (metis append.assoc append_Nil)
  qed (subst (1 2) encode_int_rest.simps, simp)
qed

lemma encode_rest_simps:
  "rem < 128 \<Longrightarrow> encode_int_rest [] rem = [ucast rem]"
  "128 \<le> rem \<Longrightarrow> encode_int_rest [] rem = ucast (rem AND 0x7F OR 0x80) # encode_int_rest [] (drop_bit 7 rem)"
  using encode_int_rest.simps [of "[]" rem] encode_int_rest_out [of "[ucast (rem AND 0x7F OR 0x80)]" "drop_bit 7 rem"]
  by (auto dest: leD)

lemma mask_7: "0x7F = (mask 7 :: 'a::len word)" and bit_7: "0x80 = (2 ^ 7 :: 'a::len word)"
  by (simp_all add: mask_eq_exp_minus_1)

lemma unat_32_less: "unat (w :: u32) < 2 ^ 32"
  using unsigned_less [of w, where ?'a = nat] by simp

lemma low_byte: "ucast (ucast (rem :: u32) AND (mask 7 :: u8)) = rem AND mask 7"
  by (rule bit_word_eqI) (auto simp: bit_and_iff bit_mask_iff bit_ucast_iff)

lemma more_byte:
  "ucast (rem AND mask 7 OR 2 ^ 7 :: u32) AND 2 ^ 7 \<noteq> (0 :: u8)"
  "ucast (rem AND mask 7 OR 2 ^ 7 :: u32) AND mask 7 = (ucast rem AND mask 7 :: u8)"
proof -
  have "bit (ucast (rem AND mask n OR 2 ^ n :: u32) :: u8) n \<and>
      ucast (rem AND mask n OR 2 ^ n :: u32) AND mask n = (ucast rem AND mask n :: u8)" if "n < 8" for n
    using that by (auto simp: bit_and_iff bit_or_iff bit_mask_iff bit_exp_iff bit_ucast_iff intro!: bit_word_eqI)
  from this [of 7] show "ucast (rem AND mask 7 OR 2 ^ 7 :: u32) AND 2 ^ 7 \<noteq> (0 :: u8)"
    "ucast (rem AND mask 7 OR 2 ^ 7 :: u32) AND mask 7 = (ucast rem AND mask 7 :: u8)"
    by (simp_all only: and_exp_eq_0_iff_not_bit) simp_all
qed

lemma byte_facts:
  "ucast (ucast (rem :: u32) AND 0x7F :: u8) = rem AND 0x7F"
  "ucast (rem AND 0x7F OR 0x80 :: u32) AND 0x80 \<noteq> (0 :: u8)"
  "ucast (rem AND 0x7F OR 0x80 :: u32) AND 0x7F = (ucast rem AND 0x7F :: u8)"
  using low_byte [of rem] more_byte [of rem] by (simp_all only: mask_7 bit_7 simp_thms not_False_eq_True)

lemma unat_push_32: "unat w * 2 ^ m < 2 ^ 32 \<Longrightarrow> unat (push_bit m w :: u32) = unat w * 2 ^ m"
  by (subst unsigned_push_bit_eq) (simp add: take_bit_nat_eq_self push_bit_eq_mult)

lemma drop_hd: "drop i buf = x # rest \<Longrightarrow> i < length buf \<and> buf ! i = x \<and> drop (Suc i) buf = rest"
  by (metis Cons_nth_drop_Suc drop_all linorder_not_less list.distinct(1) list.inject)

lemma decode_int_rest_encode:
  assumes "drop i buf = encode_int_rest [] rem @ rest" "i \<le> length buf" "7 dvd m" "m \<le> 28" "unat w + unat rem * 2 ^ m < 2 ^ 32"
  shows "\<exists>v. decode_int_rest buf w i m = Inr (v, i + length (encode_int_rest [] rem)) \<and> unat v = unat w + unat rem * 2 ^ m"
  using assms
proof (induction "unat rem" arbitrary: rem i m w rule: less_induct)
  case less
  show ?case
  proof (cases "rem < 128")
    case True
    then have e: "encode_int_rest [] rem = [ucast rem]" by (rule encode_rest_simps)
    then have b: "i < length buf" "buf ! i = ucast rem" using less.prems(1) drop_hd by fastforce+
    have "unat rem < 2 ^ 7" using True by (simp add: word_less_nat_alt)
    then have n: "bit rem n \<Longrightarrow> n < 7" for n by (rule less_pow_bit)
    have "rem AND 0x7F = rem" unfolding mask_7 by (rule bit_word_eqI) (auto simp: bit_and_iff bit_mask_iff dest: n)
    moreover have "ucast rem AND 0x80 = (0 :: u8)" unfolding bit_7 and_exp_eq_0_iff_not_bit using n [of 7] by (auto simp: bit_ucast_iff)
    moreover have "unat (push_bit m rem) = unat rem * 2 ^ m" using less.prems(4,5) by (intro unat_push_32) simp_all
    moreover have "unat (w + push_bit m rem) = unat w + unat rem * 2 ^ m"
      using less.prems(5) calculation by (simp add: unat_word_ariths)
    ultimately show ?thesis using b less.prems(5) unfolding e
      by (subst decode_int_rest.simps) (simp add: Let_def byte_facts)
  next
    case False
    then have big: "128 \<le> rem" by simp
    note e = encode_rest_simps(2) [OF big]
    have b: "i < length buf" "buf ! i = ucast (rem AND 0x7F OR 0x80)" "drop (Suc i) buf = encode_int_rest [] (drop_bit 7 rem) @ rest"
      using less.prems(1) e drop_hd by fastforce+
    let ?lo = "rem AND 0x7F" and ?hi = "drop_bit 7 rem"
    have split: "unat ?lo = unat rem mod 128" "unat ?hi = unat rem div 128" by (simp_all only: mask_7 unat_mask unat_drop) simp_all
    have "unat rem = unat ?lo + unat ?hi * 128" unfolding split by simp
    then have val: "unat rem * 2 ^ m = unat ?lo * 2 ^ m + unat ?hi * 2 ^ (m + 7)" by (simp add: algebra_simps power_add)
    have m: "m + 7 \<le> 28"
    proof (rule ccontr)
      assume "\<not> m + 7 \<le> 28"
      then have "m = 28" using less.prems(3,4) by presburger
      then have "unat rem * 2 ^ 28 < 2 ^ 32" using less.prems(5) by simp
      then show False using big by (simp add: word_le_nat_alt)
    qed
    have p: "unat (push_bit m ?lo) = unat ?lo * 2 ^ m" using less.prems(4,5) val by (intro unat_push_32) simp_all
    have w: "unat (w + push_bit m ?lo) = unat w + unat ?lo * 2 ^ m"
      using less.prems(5) val p by (simp add: unat_word_ariths)
    have "\<exists>v. decode_int_rest buf (w + push_bit m ?lo) (Suc i) (m + 7) = Inr (v, Suc i + length (encode_int_rest [] ?hi)) \<and>
        unat v = unat (w + push_bit m ?lo) + unat ?hi * 2 ^ (m + 7)"
      using less.prems(3,5) b(1) val w m by (intro less.hyps [OF drop_7_less [OF big] b(3)]) simp_all
    then show ?thesis using b(1,2) less.prems(5) val w p m e
      by (subst decode_int_rest.simps) (simp add: Let_def byte_facts add.assoc)
  qed
qed

lemma encode_int_out: "encode_int out v p fb = out @ encode_int [] v p fb"
  by (simp add: encode_int_def Let_def encode_int_rest_out [of "_ @ _"] encode_int_rest_out [of "[_]"])

lemma mask_32: "p < 32 \<Longrightarrow> push_bit p 1 - 1 = (mask p :: u32)"
  by (simp add: mask_eq_exp_minus_1 push_bit_eq_mult)

lemma encode_int_mask: "p < 32 \<Longrightarrow> encode_int out v p fb =
    (if v < mask p then out @ [fb OR ucast v] else encode_int_rest (out @ [fb OR ucast (mask p :: u32)]) (v - mask p))"
  by (simp only: encode_int_def Let_def mask_32)

lemma decode_int_mask: "p < 32 \<Longrightarrow> hpack_decode_int (b # buf) p =
    (if ucast b AND mask p < (mask p :: u32) then Inr (ucast b AND mask p, 1) else decode_int_rest (b # buf) (ucast b AND mask p) 1 0)"
  by (simp only: hpack_decode_int_def Let_def mask_32) simp

lemma first_byte_low:
  assumes "fb AND mask p = 0" "p \<le> 8" "unat v < 2 ^ p"
  shows "ucast (fb OR ucast v :: u8) AND mask p = (v :: u32)"
proof (rule bit_word_eqI)
  fix n
  have "\<not> (bit fb n \<and> n < p)" using arg_cong [OF assms(1), of "\<lambda>w. bit w n"] assms(2) by (auto simp: bit_and_iff bit_mask_iff)
  moreover have "bit v n \<Longrightarrow> n < p" using assms(3) by (rule less_pow_bit)
  ultimately show "bit (ucast (fb OR ucast v :: u8) AND mask p :: u32) n = bit v n"
    using assms(2) by (auto simp: bit_and_iff bit_or_iff bit_mask_iff bit_ucast_iff)
qed

lemma unat_mask_word: "p \<le> 31 \<Longrightarrow> unat (mask p :: u32) = 2 ^ p - 1"
  by (intro unat_mask_32) simp

lemma encode_int_first:
  assumes "p \<le> 8"
  shows "\<exists>x. encode_int [] v p fb \<noteq> [] \<and> encode_int [] v p fb ! 0 = fb OR ucast x \<and> unat (x :: u32) < 2 ^ p"
proof (cases "v < mask p")
  case True
  then have "unat v < 2 ^ p" using assms unat_mask_word [of p] by (simp add: word_less_nat_alt)
  then show ?thesis using True assms by (intro exI [of _ v]) (simp add: encode_int_mask)
next
  case False
  have "unat (mask p :: u32) < 2 ^ p" using assms by (simp add: unat_mask_word)
  then show ?thesis using False assms encode_int_rest_out [of "[fb OR ucast (mask p :: u32)]"]
    by (intro exI [of _ "mask p"]) (simp add: encode_int_mask)
qed

lemma int_roundtrip:
  assumes "1 \<le> p" "p \<le> 8" "fb AND mask p = 0"
  shows "hpack_decode_int (encode_int [] v p fb @ rest) p = Inr (v, length (encode_int [] v p fb))"
proof (cases "v < mask p")
  case True
  then have "unat v < 2 ^ p" using assms unat_mask_word [of p] by (simp add: word_less_nat_alt)
  then show ?thesis using True assms first_byte_low [of fb p v]
    by (simp add: encode_int_mask decode_int_mask)
next
  case False
  let ?m = "mask p :: u32" and ?rem = "v - mask p"
  have m: "unat ?m < 2 ^ p" using assms by (simp add: unat_mask_word)
  have v: "unat ?m + unat ?rem = unat v" using False by (simp add: unat_sub not_less word_le_nat_alt)
  let ?buf = "encode_int [] v p fb @ rest"
  have e: "encode_int [] v p fb = (fb OR ucast ?m) # encode_int_rest [] ?rem"
    using False assms encode_int_rest_out [of "[fb OR ucast ?m]"] by (simp add: encode_int_mask)
  have "\<exists>w. decode_int_rest ?buf ?m 1 0 = Inr (w, 1 + length (encode_int_rest [] ?rem)) \<and> unat w = unat ?m + unat ?rem * 2 ^ 0"
    using v unat_32_less [of v] by (intro decode_int_rest_encode [where rest = rest]) (simp_all add: e)
  then have "decode_int_rest ?buf ?m 1 0 = Inr (v, length (encode_int [] v p fb))" using v by (auto simp: e word_unat_eq_iff)
  then show ?thesis using assms first_byte_low [OF assms(3,2) m] by (simp add: decode_int_mask e)
qed

section \<open>Strings\<close>

lemma encode_string_out: "encode_literal_string out s = out @ encode_literal_string [] s"
  by (simp add: encode_literal_string_def Let_def encode_int_out [of out])

lemma first_byte_bit:
  assumes "p \<le> n" "n < 8" "p \<le> 8"
  shows "bit (encode_int [] v p fb ! 0) n \<longleftrightarrow> bit fb n"
proof -
  obtain x :: u32 where x: "encode_int [] v p fb ! 0 = fb OR ucast x" "unat x < 2 ^ p" using encode_int_first [OF assms(3)] by blast
  then have "\<not> bit x n" using less_pow_bit [of x p n] assms(1) by auto
  then show ?thesis using assms(2) by (simp add: x bit_or_iff bit_ucast_iff)
qed

lemma and_80: "b AND 0x80 = 0 \<longleftrightarrow> \<not> bit (b :: u8) 7"
  by (simp only: bit_7 and_exp_eq_0_iff_not_bit)

lemma encode_int_nonempty: "p \<le> 8 \<Longrightarrow> encode_int [] v p fb \<noteq> []"
  using encode_int_first by blast

lemma string_roundtrip:
  assumes "utf8_valid s" "length s < 2 ^ 32"
  shows "hpack_decode_string (encode_literal_string [] s @ rest) = Inr (s, length (encode_literal_string [] s))"
proof -
  have *: "hpack_decode_string (encode_int [] (of_nat (length raw)) 7 fb @ raw @ rest) =
      Inr (s, length (encode_int [] (of_nat (length raw)) 7 fb @ raw))"
    if raw: "length raw < 2 ^ 32" "fb AND mask 7 = 0" "(if bit fb 7 then ok_or Malformed (hpack_huffman_decode raw) else Inr raw) = Inr s" for raw fb
  proof -
    let ?n = "of_nat (length raw) :: u32"
    let ?e = "encode_int [] ?n 7 fb"
    have n: "unat ?n = length raw" using raw(1) by (simp add: unat_of_nat take_bit_nat_eq_self)
    have e: "?e \<noteq> []" by (rule encode_int_nonempty) simp
    have b: "(?e @ raw @ rest) ! 0 AND 0x80 \<noteq> 0 \<longleftrightarrow> bit fb 7"
      unfolding and_80 using first_byte_bit [of 7 7 ?n fb] e by (simp add: nth_append)
    show ?thesis
      unfolding hpack_decode_string_def Let_def b int_roundtrip [OF _ _ raw(2), of ?n "raw @ rest", simplified]
      using e assms(1) by (simp add: Let_def n raw(3) cong: if_cong)
  qed
  have hi: "\<not> bit (0 :: u8) 7" "bit (0x80 :: u8) 7" by simp_all
  have low: "0x80 AND mask 7 = (0 :: u8)" "0 AND mask 7 = (0 :: u8)" by (simp_all add: mask_eq_exp_minus_1)
  show ?thesis
  proof (cases "length (hpack_huffman_encode s) < length s")
    case True
    then show ?thesis using * [of "hpack_huffman_encode s" "0x80"] assms(2) low hi huffman_inverse [of s]
      by (simp add: encode_literal_string_def Let_def)
  next
    case False
    then show ?thesis using * [of s 0] assms(2) low hi by (simp add: encode_literal_string_def Let_def)
  qed
qed

lemma lower_byte_high: "lower_byte b < 0x80 \<longleftrightarrow> b < 0x80" "\<not> b < 0x80 \<Longrightarrow> lower_byte b = b"
  by (auto simp: lower_byte_def word_less_nat_alt word_le_nat_alt unat_word_ariths)

lemma utf8_high:
  "utf8_two a b \<Longrightarrow> \<not> b < 0x80" "utf8_three a b c \<Longrightarrow> \<not> b < 0x80 \<and> \<not> c < 0x80"
  "utf8_four a b c d \<Longrightarrow> \<not> b < 0x80 \<and> \<not> c < 0x80 \<and> \<not> d < 0x80"
  by (auto simp: utf8_two_def utf8_three_def utf8_four_def utf8_cont_def word_less_nat_alt word_le_nat_alt)

lemma lowercase_Cons: "lowercase (b # s) = (if b < 0x80 then lower_byte b else b) # lowercase s"
  by (simp add: lowercase_def lower_byte_high)

lemma length_lowercase [simp]: "length (lowercase s) = length s"
  by (simp add: lowercase_def)

lemma lower_head: "(if b < 0x80 then lower_byte b else b) < 0x80 \<longleftrightarrow> b < 0x80"
  by (simp add: lower_byte_high)

lemma utf8_lowercase: "utf8_valid s \<Longrightarrow> utf8_valid (lowercase s)"
proof (induction s rule: length_induct)
  case (1 s)
  show ?case
  proof (cases s)
    case (Cons a as)
    show ?thesis
    proof (cases "a < 0x80")
      case True
      then show ?thesis using 1 Cons by (simp add: lowercase_Cons lower_byte_high)
    next
      case False
      consider b bs where "as = b # bs" "utf8_two a b" "utf8_valid bs"
        | b c cs where "as = b # c # cs" "\<not> utf8_two a b" "utf8_three a b c" "utf8_valid cs"
        | b c d ds where "as = b # c # d # ds" "\<not> utf8_two a b" "\<not> utf8_three a b c" "utf8_four a b c d" "utf8_valid ds"
        using 1(2) False Cons by (auto split: list.splits if_splits)
      then show ?thesis
      proof cases
        case 1
        then show ?thesis using \<open>\<forall>ys. _\<close> Cons False utf8_high(1) [OF 1(2)] by (simp add: lowercase_Cons)
      next
        case 2
        then show ?thesis using \<open>\<forall>ys. _\<close> Cons False utf8_high(2) [OF 2(3)] by (simp add: lowercase_Cons)
      next
        case 3
        then show ?thesis using \<open>\<forall>ys. _\<close> Cons False utf8_high(3) [OF 3(4)] by (simp add: lowercase_Cons)
      qed
    qed
  qed (simp add: lowercase_def)
qed

section \<open>Header blocks\<close>

lemma find_static_exact:
  "find_static tbl k lc v ni = Inl i \<Longrightarrow> k \<le> i \<and> i - k < length tbl \<and> tbl ! (i - k) = (lc, v)"
proof (induction tbl k lc v ni rule: find_static.induct)
  case (2 n w tbl i lc v ni)
  then show ?case by (auto simp: nth_Cons' Suc_diff_le not_less_eq_eq split: if_splits)
qed simp

lemma find_static_none: "find_static tbl k lc v ni = Inr r \<Longrightarrow> (lc, v) \<notin> set tbl"
  by (induction tbl k lc v ni rule: find_static.induct) (auto split: if_splits)

lemma find_static_name:
  "find_static tbl k lc v ni = Inr (Some idx) \<Longrightarrow> k + length tbl < 255 \<Longrightarrow>
    ni = Some idx \<or> k < unat idx \<and> unat idx \<le> k + length tbl \<and> fst (tbl ! (unat idx - 1 - k)) = lc"
proof (induction tbl k lc v ni rule: find_static.induct)
  case (2 n w tbl i lc v ni)
  have u: "unat (of_nat i + 1 :: u8) = Suc i" using 2(4) by (simp add: unat_word_ariths unat_of_nat)
  show ?case
  proof (cases "n = lc")
    case True
    then have "w \<noteq> v" "find_static tbl (i + 1) lc v (if ni = None then Some (of_nat i + 1) else ni) = Inr (Some idx)"
      using 2(3) by (auto split: if_splits)
    then show ?thesis using 2(1) [OF True] 2(4) u True by (auto simp: nth_Cons' split: if_splits)
  next
    case False
    then show ?thesis using 2(2) [OF False] 2(3,4) by (auto simp: nth_Cons')
  qed
qed simp

lemma length_static: "length HPACK_STATIC_TABLE = 61"
  by (simp add: HPACK_STATIC_TABLE_def)

definition sent_header :: "header \<Rightarrow> header" where
  "sent_header = (\<lambda>(n, v). (lowercase n, v))"

definition table_after :: "header \<Rightarrow> hpack_table \<Rightarrow> hpack_table" where
  "table_after h t = (case sent_header h of (n, v) \<Rightarrow> if (n, v) \<in> set HPACK_STATIC_TABLE then t else table_insert t n v)"

definition header_ok :: "header \<Rightarrow> bool" where
  "header_ok = (\<lambda>(n, v). utf8_valid n \<and> utf8_valid v \<and> length n < 2 ^ 32 \<and> length v < 2 ^ 32)"

lemma encode_header_out: "hpack_encode_header out n v = out @ hpack_encode_header [] n v"
  by (simp add: hpack_encode_header_def Let_def encode_int_out [of out] encode_string_out [of "_ @ _"] encode_string_out [of "_ # _"] encode_string_out [of "[_]"]
      encode_string_out [of "encode_int [] _ _ _"] split: sum.split option.split)

lemma lookup_static: "i < 61 \<Longrightarrow> hpack_lookup (of_nat i + 1) t = Inr (HPACK_STATIC_TABLE ! i)"
  by (simp add: hpack_lookup_def length_static unat_word_ariths unat_of_nat Let_def word_unat_eq_iff)

lemma decode_field_cases:
  assumes "buf ! i = b"
  shows "bit b 7 \<Longrightarrow> decode_field buf i t = rbind (hpack_decode_int (drop i buf) 7) (\<lambda>(idx, adv).
      rbind (hpack_lookup idx t) (\<lambda>h. Inr (Some h, i + adv, t)))"
    and "\<not> bit b 7 \<Longrightarrow> bit b 6 \<Longrightarrow> decode_field buf i t =
      rbind (decode_literal buf i 6 t) (\<lambda>((n, v), i). Inr (Some (n, v), i, table_insert t n v))"
proof -
  show "bit b 7 \<Longrightarrow> decode_field buf i t = rbind (hpack_decode_int (drop i buf) 7) (\<lambda>(idx, adv).
      rbind (hpack_lookup idx t) (\<lambda>h. Inr (Some h, i + adv, t)))"
    using assms and_80 [of b] by (simp add: decode_field_def)
  assume c: "\<not> bit b 7" "bit b 6"
  have "b AND push_bit k (mask 2) = 2 ^ k" if k: "k < 8" "\<not> bit b (Suc k)" "bit b k" for k
  proof (rule bit_word_eqI)
    fix n
    assume "n < LENGTH(8)"
    then consider "n < k" | "n = k" | "n = Suc k" | "Suc k < n" by linarith
    then show "bit (b AND push_bit k (mask 2)) n = bit (2 ^ k :: u8) n"
      by cases (use k in \<open>auto simp: bit_and_iff bit_push_bit_iff bit_mask_iff bit_exp_iff\<close>)
  qed
  from this [of 6] c have "b AND 0xc0 = 0x40" by (simp add: mask_eq_exp_minus_1)
  then show "decode_field buf i t =
      rbind (decode_literal buf i 6 t) (\<lambda>((n, v), i). Inr (Some (n, v), i, table_insert t n v))"
    using assms and_80 [of b] c(1) by (simp add: decode_field_def Let_def)
qed

lemma decode_string_encoded:
  assumes "drop i buf = encode_literal_string [] s @ rest" "utf8_valid s" "length s < 2 ^ 32"
  shows "hpack_decode_string (drop i buf) = Inr (s, length (encode_literal_string [] s))"
  unfolding assms(1) using assms(2,3) by (rule string_roundtrip)

lemma fb_low: "0x40 AND mask 6 = (0 :: u8)" "0x80 AND mask 7 = (0 :: u8)"
  by (simp_all add: mask_eq_exp_minus_1)

lemma drop_append: "drop i buf = xs @ rest \<Longrightarrow> drop (i + length xs) buf = rest"
  by (metis append_eq_conv_conj drop_drop add.commute)

lemma drop_nth: "drop i buf = xs @ rest \<Longrightarrow> xs \<noteq> [] \<Longrightarrow> buf ! i = xs ! 0"
  by (cases xs) (auto dest: drop_hd)

lemma decode_encoded_header:
  assumes buf: "drop i buf = hpack_encode_header [] n v @ rest" and ok: "header_ok (n, v)"
  shows "decode_field buf i t = Inr (Some (sent_header (n, v)), i + length (hpack_encode_header [] n v), table_after (n, v) t)"
proof -
  let ?lc = "lowercase n" and ?find = "find_static HPACK_STATIC_TABLE 0 (lowercase n) v None"
  have lc: "utf8_valid ?lc" "length ?lc < 2 ^ 32" and v: "utf8_valid v" "length v < 2 ^ 32"
    using ok by (simp_all add: header_ok_def utf8_lowercase)
  consider (exact) j where "?find = Inl j" | (named) idx where "?find = Inr (Some idx)" | (new) "?find = Inr None"
    by (cases ?find) auto
  then show ?thesis
  proof cases
    case exact
    let ?e = "encode_int [] (of_nat j + 1) 7 0x80"
    have j: "j < 61" "HPACK_STATIC_TABLE ! j = (?lc, v)" using find_static_exact [OF exact] by (simp_all add: length_static)
    then have "(?lc, v) \<in> set HPACK_STATIC_TABLE" by (metis length_static nth_mem)
    then have t: "table_after (n, v) t = t" by (simp add: table_after_def sent_header_def)
    have e: "hpack_encode_header [] n v = ?e" using exact by (simp add: hpack_encode_header_def Let_def)
    have f: "bit (buf ! i) 7" using drop_nth [OF buf [unfolded e]] encode_int_nonempty [of 7] first_byte_bit [of 7 7] by simp
    show ?thesis unfolding decode_field_cases(1) [OF refl f] e t
      using int_roundtrip [of 7 "0x80"] fb_low(2) lookup_static [OF j(1)] buf j(2) e by (simp add: sent_header_def)
  next
    case named
    let ?e = "encode_int [] (ucast idx) 6 0x40"
    have idx: "0 < unat idx" "unat idx \<le> 61" "fst (HPACK_STATIC_TABLE ! (unat idx - 1)) = ?lc"
      using find_static_name [OF named] by (auto simp: length_static)
    have t: "table_after (n, v) t = table_insert t ?lc v"
      using find_static_none [OF named] by (simp add: table_after_def sent_header_def)
    have e: "hpack_encode_header [] n v = ?e @ encode_literal_string [] v"
      using named by (simp add: hpack_encode_header_def Let_def encode_string_out [of ?e])
    note b = buf [unfolded e append_assoc]
    have f: "\<not> bit (buf ! i) 7" "bit (buf ! i) 6"
      using drop_nth [OF b] encode_int_nonempty [of 6] first_byte_bit [of 6 7] first_byte_bit [of 6 6] by simp_all
    have "ucast idx = (of_nat (unat idx - 1) + 1 :: u32)" using idx(1) by (simp add: of_nat_diff)
    moreover have "unat idx - 1 < 61" using idx(1,2) by linarith
    ultimately have l1: "hpack_lookup (ucast idx) t = Inr (HPACK_STATIC_TABLE ! (unat idx - 1))" by (simp only: lookup_static)
    then have "ucast idx \<noteq> (0 :: u32)" by (auto simp: hpack_lookup_def Let_def)
    note l = l1 this
    obtain w where w: "HPACK_STATIC_TABLE ! (unat idx - 1) = (?lc, w)" using idx(3) by (metis prod.collapse)
    show ?thesis unfolding decode_field_cases(2) [OF refl f] t e
      using int_roundtrip [of 6 "0x40" "ucast idx"] fb_low(1) b l w decode_string_encoded [OF drop_append [OF b] v]
      by (simp add: decode_literal_def decode_name_def sent_header_def add.assoc)
  next
    case new
    have t: "table_after (n, v) t = table_insert t ?lc v"
      using find_static_none [OF new] by (simp add: table_after_def sent_header_def)
    let ?s = "encode_literal_string [] ?lc"
    have e: "hpack_encode_header [] n v = [0x40] @ ?s @ encode_literal_string [] v"
      using new by (simp add: hpack_encode_header_def Let_def encode_string_out [of "_ # _"] encode_string_out [of "[_]"])
    note b = buf [unfolded e append_assoc]
    have f: "\<not> bit (buf ! i) 7" "bit (buf ! i) 6" using drop_nth [OF b] by simp_all
    note b1 = drop_append [OF b]
    note b2 = drop_append [OF b1]
    have "hpack_decode_int (drop i buf) 6 = Inr (0, 1)" unfolding b by (simp add: hpack_decode_int_def)
    then show ?thesis unfolding decode_field_cases(2) [OF refl f] t e
      using decode_string_encoded [OF b1 lc] decode_string_encoded [OF b2 v]
      by (simp add: decode_literal_def decode_name_def sent_header_def add.assoc)
  qed
qed

lemma fold_encode_out:
  "fold (\<lambda>(n, v) out. hpack_encode_header out n v) hs out = out @ fold (\<lambda>(n, v) out. hpack_encode_header out n v) hs []"
proof (induction hs arbitrary: out)
  case (Cons h hs)
  obtain n v where h: "h = (n, v)" by force
  show ?case
    using Cons.IH [of "hpack_encode_header out n v"] Cons.IH [of "hpack_encode_header [] n v"] encode_header_out [of out n v]
    by (simp add: h)
qed simp

lemma encode_block_Cons: "hpack_encode_block ((n, v) # hs) = hpack_encode_header [] n v @ hpack_encode_block hs"
  using fold_encode_out [of hs "hpack_encode_header [] n v"] by (simp add: hpack_encode_block_def)

lemma decode_field_end: "drop i buf = xs \<Longrightarrow> xs \<noteq> [] \<Longrightarrow> i < length buf"
  by (metis drop_all linorder_not_less)

lemma encode_header_nonempty: "hpack_encode_header [] n v \<noteq> []"
  using encode_int_nonempty [of 7] encode_int_nonempty [of 6]
  by (simp add: hpack_encode_header_def Let_def encode_string_out [of "encode_int _ _ _ _"] encode_string_out [of "_ # _"] encode_string_out [of "[_]"]
      split: sum.split option.split)

lemma decode_fields_encoded:
  assumes "drop i buf = hpack_encode_block hs" "list_all header_ok hs"
  shows "decode_fields buf i t out = (Inr (out @ map sent_header hs), fold table_after hs t)"
  using assms
proof (induction hs arbitrary: i t out)
  case Nil
  then have "\<not> i < length buf" by (auto simp: hpack_encode_block_def)
  then show ?case by (subst decode_fields.simps) simp
next
  case (Cons h hs)
  obtain n v where h: "h = (n, v)" by force
  note b = Cons.prems(1) [unfolded h encode_block_Cons]
  have i: "i < length buf" using decode_field_end [OF b] encode_header_nonempty by simp
  have ok: "header_ok (n, v)" using Cons.prems(2) h by simp
  have "decode_fields buf (i + length (hpack_encode_header [] n v)) t' out' =
      (Inr (out' @ map sent_header hs), fold table_after hs t')" for t' out'
    using Cons.prems(2) by (intro Cons.IH drop_append [OF b]) simp
  then show ?case using i decode_encoded_header [OF b ok, of t]
    by (subst decode_fields.simps) (simp add: h)
qed

section \<open>The dynamic table\<close>

definition entry_size :: "header \<Rightarrow> nat" where
  "entry_size = (\<lambda>(n, v). length n + length v + 32)"

text \<open>The newest entries whose sizes fit into the given number of bytes.\<close>

fun fitting :: "nat \<Rightarrow> header list \<Rightarrow> header list" where
  "fitting m [] = []"
| "fitting m (h # es) = (if entry_size h \<le> m then h # fitting (m - entry_size h) es else [])"

lemma entries_bytes_simps [simp]:
  "entries_bytes [] = 0" "entries_bytes (h # es) = entry_size h + entries_bytes es"
  "entries_bytes (es @ fs) = entries_bytes es + entries_bytes fs"
  by (simp_all add: entries_bytes_def entry_size_def split_beta)

lemma fitting_all: "entries_bytes es \<le> m \<Longrightarrow> fitting m es = es"
  by (induction es arbitrary: m) auto

lemma fitting_last: "m < entries_bytes (es @ [h]) \<Longrightarrow> fitting m (es @ [h]) = fitting m es"
  by (induction es arbitrary: m) auto

lemma fitting_bytes: "entries_bytes (fitting m es) \<le> m"
  by (induction m es rule: fitting.induct) auto

lemma table_evict_fitting: "table_evict t = t\<lparr>tbl_entries := fitting (max_bytes t) (tbl_entries t)\<rparr>"
proof (induction t rule: table_evict.induct)
  case (1 t)
  show ?case
  proof (cases "table_bytes t > max_bytes t \<and> tbl_entries t \<noteq> []")
    case True
    then have "fitting (max_bytes t) (butlast (tbl_entries t)) = fitting (max_bytes t) (tbl_entries t)"
      using fitting_last [of "max_bytes t" "butlast (tbl_entries t)" "last (tbl_entries t)"] by (simp add: table_bytes_def)
    then show ?thesis using 1 [OF True] True by (subst table_evict.simps) simp
  next
    case False
    then have "fitting (max_bytes t) (tbl_entries t) = tbl_entries t"
      using fitting_all [of "tbl_entries t"] by (auto simp: table_bytes_def not_less)
    then show ?thesis using False by (subst table_evict.simps) auto
  qed
qed

lemma decode_field_bounded:
  assumes "decode_field buf i t = Inr (h, i', t')" "table_bytes t \<le> max_bytes t"
  shows "table_bytes t' \<le> max_bytes t'"
proof -
  have "t' = t \<or> (\<exists>t0. t' = table_evict t0)"
    using assms(1) by (auto simp: decode_field_def Let_def rbind_eq_Inr table_insert_def split: if_splits prod.splits)
  then show ?thesis using assms(2) fitting_bytes by (auto simp: table_evict_fitting table_bytes_def)
qed

lemma decode_fields_bounded:
  "table_bytes t \<le> max_bytes t \<Longrightarrow> table_bytes (snd (decode_fields buf i t out)) \<le> max_bytes (snd (decode_fields buf i t out))"
proof (induction buf i t out rule: decode_fields.induct)
  case (1 buf i t out)
  show ?case
  proof (cases "i < length buf")
    case True
    show ?thesis
    proof (cases "decode_field buf i t")
      case (Inr p)
      obtain h i' t' where p: "p = (h, i', t')" by (cases p)
      show ?thesis using 1(1) [OF True Inr [unfolded p] refl refl] decode_field_bounded [OF Inr [unfolded p] 1(2)] True Inr p
        by (subst (1 2) decode_fields.simps) simp
    qed (use True 1(2) in \<open>subst (1 2) decode_fields.simps, simp\<close>)
  qed (use 1(2) in \<open>subst (1 2) decode_fields.simps, simp\<close>)
qed

section \<open>What the block codec and the table guarantee\<close>

text \<open>C29: Decoding an encoded header block gives the headers with their names in lower case, whatever the dynamic table of
  the receiver holds, and leaves the table with exactly the headers inserted that are not entries of the static table.
\<close>

theorem hpack_block_roundtrip:
  assumes "list_all header_ok hs"
  shows "hpack_decode_block (hpack_encode_block hs) t = (Inr (map sent_header hs), fold table_after hs t)"
  using decode_fields_encoded [of 0 _ hs t "[]"] assms by (simp add: hpack_decode_block_def)

definition demo_headers :: "header list" where
  "demo_headers = [(ascii '':method'', ascii ''GET''), (ascii ''User-Agent'', ascii ''cv''), (ascii ''X-Id'', [0xC3, 0xA9])]"

theorem hpack_block_roundtrip_witness:
  "fst (hpack_decode_block (hpack_encode_block demo_headers) hpack_table_new) =
    Inr [(ascii '':method'', ascii ''GET''), (ascii ''user-agent'', ascii ''cv''), (ascii ''x-id'', [0xC3, 0xA9])]"
proof -
  have ok: "list_all header_ok demo_headers"
    by (simp add: demo_headers_def header_ok_def ascii_def utf8_two_def utf8_cont_def)
  have "map sent_header demo_headers =
      [(ascii '':method'', ascii ''GET''), (ascii ''user-agent'', ascii ''cv''), (ascii ''x-id'', [0xC3, 0xA9])]"
    by (simp add: demo_headers_def sent_header_def ascii_def lowercase_def lower_byte_def)
  then show ?thesis using hpack_block_roundtrip [OF ok, of hpack_table_new] by simp
qed

text \<open>Insertion as RFC 7541 section 4.4 puts it: make room first, then add, or empty the table for an entry that is too large.\<close>

definition rfc_insert :: "nat \<Rightarrow> header \<Rightarrow> header list \<Rightarrow> header list" where
  "rfc_insert m h es = (if entry_size h \<le> m then h # fitting (m - entry_size h) es else [])"

text \<open>C31: Inserting into the dynamic table is the eviction of RFC 7541 section 4.4, and no input block, malformed ones
  included, leaves the table with more bytes than its limit.
\<close>

theorem hpack_table_bounded:
  assumes "table_bytes t \<le> max_bytes t"
  shows "tbl_entries (table_insert t n v) = rfc_insert (max_bytes t) (n, v) (tbl_entries t) \<and>
    table_bytes (snd (hpack_decode_block buf t)) \<le> max_bytes (snd (hpack_decode_block buf t))"
  using decode_fields_bounded [OF assms]
  by (simp add: table_insert_def table_evict_fitting rfc_insert_def hpack_decode_block_def)

theorem hpack_table_bounded_witness:
  "table_bytes (snd (hpack_decode_block [0x25, 0x40, 0x01, 0x61, 0x00, 0x40, 0x01, 0x62, 0x00] hpack_table_new)) \<le>
    max_bytes (snd (hpack_decode_block [0x25, 0x40, 0x01, 0x61, 0x00, 0x40, 0x01, 0x62, 0x00] hpack_table_new))"
  using hpack_table_bounded [of hpack_table_new "[]" "[]" "[0x25, 0x40, 0x01, 0x61, 0x00, 0x40, 0x01, 0x62, 0x00]"]
  by (simp add: hpack_table_new_def table_bytes_def)

text \<open>
  A six-byte integer overflows the addition, and a high bit beyond the thirty-second is lost without an error.
\<close>

theorem hpack_int_unchecked:
  "hpack_decode_int ([0xFF, 0xFF, 0xFF, 0xFF, 0xFF, 0x0F] @ rest) 7 = Inl Overflow \<and>
   hpack_decode_int ([0xFF, 0x80, 0x80, 0x80, 0x80, 0x10] @ rest) 7 = Inr (127, 6)"
  by (simp_all add: hpack_decode_int_def decode_int_rest.simps)

end
