(* ===== verification/Http2.thy ===== *)
theory Http2
  imports Hpack "HOL-Library.AList"
begin

text \<open>
  HTTP/2 framing and the multiplexing connection (\<^verbatim>\<open>crates/cv_net/src/http2.rs\<close>), and the loop that
  cuts received bytes into frames (\<open>h2_drive_request\<close> in \<^verbatim>\<open>crates/cv_net/src/http1.rs\<close>). The map of
  the streams is an association list with distinct keys. An \<open>i32\<close> window is an integer; an addition or subtraction
  that leaves the range of its machine type panics in a build with overflow checks, and the operation is \<open>None\<close>.
\<close>

section \<open>Frames\<close>

definition CONNECTION_PREFACE :: bytes where
  "CONNECTION_PREFACE = ascii ''PRI * HTTP/2.0'' @ [13, 10, 13, 10] @ ascii ''SM'' @ [13, 10, 13, 10]"

datatype frame_type = Data | Headers | Priority | RstStream | Settings | PushPromise | Ping | Goaway | WindowUpdate
  | Continuation | Unknown u8

definition frame_type_from_u8 :: "u8 \<Rightarrow> frame_type" where
  "frame_type_from_u8 b =
     (if b = 0x0 then Data else if b = 0x1 then Headers else if b = 0x2 then Priority else if b = 0x3 then RstStream
      else if b = 0x4 then Settings else if b = 0x5 then PushPromise else if b = 0x6 then Ping else if b = 0x7 then Goaway
      else if b = 0x8 then WindowUpdate else if b = 0x9 then Continuation else Unknown b)"

fun frame_type_to_u8 :: "frame_type \<Rightarrow> u8" where
  "frame_type_to_u8 Data = 0x0"
| "frame_type_to_u8 Headers = 0x1"
| "frame_type_to_u8 Priority = 0x2"
| "frame_type_to_u8 RstStream = 0x3"
| "frame_type_to_u8 Settings = 0x4"
| "frame_type_to_u8 PushPromise = 0x5"
| "frame_type_to_u8 Ping = 0x6"
| "frame_type_to_u8 Goaway = 0x7"
| "frame_type_to_u8 WindowUpdate = 0x8"
| "frame_type_to_u8 Continuation = 0x9"
| "frame_type_to_u8 (Unknown b) = b"

record frame_header =
  fr_length :: u32
  fr_typ :: frame_type
  fr_flags :: u8
  fr_stream_id :: u32

definition frame_encode :: "frame_header \<Rightarrow> bytes \<Rightarrow> bytes" where
  "frame_encode h out =
     (let l = fr_length h AND 0x00FFFFFF;
          sid = fr_stream_id h AND 0x7FFFFFFF
      in out @ [ucast (drop_bit 16 l AND 0xFF), ucast (drop_bit 8 l AND 0xFF), ucast (l AND 0xFF),
                frame_type_to_u8 (fr_typ h), fr_flags h] @ be_bytes 4 sid)"

definition frame_decode :: "bytes \<Rightarrow> frame_header option" where
  "frame_decode buf =
     (if length buf < 9 then None
      else Some \<lparr>fr_length = push_bit 16 (ucast (buf ! 0)) OR push_bit 8 (ucast (buf ! 1)) OR ucast (buf ! 2),
                 fr_typ = frame_type_from_u8 (buf ! 3), fr_flags = buf ! 4,
                 fr_stream_id = from_be [buf ! 5, buf ! 6, buf ! 7, buf ! 8] AND 0x7FFFFFFF\<rparr>)"

datatype setting_id = HeaderTableSize | EnablePush | MaxConcurrentStreams | InitialWindowSize | MaxFrameSize | MaxHeaderListSize

fun setting_code :: "setting_id \<Rightarrow> u16" where
  "setting_code HeaderTableSize = 0x1"
| "setting_code EnablePush = 0x2"
| "setting_code MaxConcurrentStreams = 0x3"
| "setting_code InitialWindowSize = 0x4"
| "setting_code MaxFrameSize = 0x5"
| "setting_code MaxHeaderListSize = 0x6"

definition encode_settings :: "bytes \<Rightarrow> (u16 \<times> u32) list \<Rightarrow> bytes" where
  "encode_settings out settings = fold (\<lambda>(sid, val) out. out @ be_bytes 2 sid @ be_bytes 4 val) settings out"

function decode_settings :: "bytes \<Rightarrow> (u16 \<times> u32) list" where
  "decode_settings body =
     (if 6 \<le> length body then
        (from_be [body ! 0, body ! 1], from_be [body ! 2, body ! 3, body ! 4, body ! 5]) # decode_settings (drop 6 body)
      else [])"
  by pat_completeness auto
termination by (relation "measure length") auto

declare decode_settings.simps [simp del]

definition CHROME_H2_SETTINGS :: "(u16 \<times> u32) list" where
  "CHROME_H2_SETTINGS =
     [(setting_code HeaderTableSize, 65536), (setting_code EnablePush, 0), (setting_code MaxConcurrentStreams, 1000),
      (setting_code InitialWindowSize, 6291456), (setting_code MaxHeaderListSize, 262144)]"

definition CHROME_H2_CONNECTION_WINDOW_UPDATE :: u32 where
  "CHROME_H2_CONNECTION_WINDOW_UPDATE = 15663105"

definition build_settings_frame :: "(u16 \<times> u32) list \<Rightarrow> bool \<Rightarrow> bytes" where
  "build_settings_frame settings ack =
     (let body = if \<not> ack then encode_settings [] settings else [];
          flags = if ack then 0x1 else 0x0
      in frame_encode \<lparr>fr_length = of_nat (length body), fr_typ = Settings, fr_flags = flags, fr_stream_id = 0\<rparr> [] @ body)"

definition build_ping_frame :: "bytes \<Rightarrow> bool \<Rightarrow> bytes" where
  "build_ping_frame data ack =
     frame_encode \<lparr>fr_length = 8, fr_typ = Ping, fr_flags = if ack then 0x1 else 0x0, fr_stream_id = 0\<rparr> [] @ data"

definition build_window_update :: "u32 \<Rightarrow> u32 \<Rightarrow> bytes" where
  "build_window_update stream_id increment =
     frame_encode \<lparr>fr_length = 4, fr_typ = WindowUpdate, fr_flags = 0, fr_stream_id = stream_id\<rparr> [] @
       be_bytes 4 (increment AND 0x7FFFFFFF)"

definition build_goaway :: "u32 \<Rightarrow> u32 \<Rightarrow> bytes \<Rightarrow> bytes" where
  "build_goaway last_stream_id error_code debug =
     frame_encode \<lparr>fr_length = of_nat (8 + length debug), fr_typ = Goaway, fr_flags = 0, fr_stream_id = 0\<rparr> [] @
       be_bytes 4 (last_stream_id AND 0x7FFFFFFF) @ be_bytes 4 error_code @ debug"

section \<open>Streams and the connection\<close>

text \<open>\<open>as i32\<close>, and the checked and saturating operations of \<open>i32\<close>.\<close>

definition i32_range :: "int \<Rightarrow> bool" where
  "i32_range n \<longleftrightarrow> - (2 ^ 31) \<le> n \<and> n < 2 ^ 31"

definition i32_checked :: "int \<Rightarrow> int option" where
  "i32_checked n = (if i32_range n then Some n else None)"

definition i32_saturating :: "int \<Rightarrow> int" where
  "i32_saturating n = max (- (2 ^ 31)) (min (2 ^ 31 - 1) n)"

definition len_i32 :: "bytes \<Rightarrow> int" where
  "len_i32 body = sint (of_nat (length body) :: u32)"

datatype stream_state = Idle | ReservedLocal | ReservedRemote | Open | HalfClosedLocal | HalfClosedRemote | Closed

record h2_stream =
  st_id :: u32
  st_state :: stream_state
  recv_window :: int
  send_window :: int
  headers_buf :: bytes
  data_buf :: bytes
  eof_local :: bool
  eof_remote :: bool

definition stream_new :: "u32 \<Rightarrow> int \<Rightarrow> h2_stream" where
  "stream_new sid initial_window =
     \<lparr>st_id = sid, st_state = Idle, recv_window = initial_window, send_window = initial_window,
      headers_buf = [], data_buf = [], eof_local = False, eof_remote = False\<rparr>"

record h2_conn =
  streams :: "(u32 \<times> h2_stream) list"
  next_stream_id :: u32
  peer_initial_window :: int
  peer_max_frame_size :: u32
  peer_max_concurrent :: u32
  conn_recv_window :: int
  conn_send_window :: int
  outgoing :: bytes
  last_seen_stream_id :: u32
  got_settings_ack :: bool
  closed_by_goaway :: bool

definition new_client :: h2_conn where
  "new_client =
     \<lparr>streams = [], next_stream_id = 1, peer_initial_window = 65535, peer_max_frame_size = 16384,
      peer_max_concurrent = 100, conn_recv_window = 65535, conn_send_window = 65535,
      outgoing = CONNECTION_PREFACE @ build_settings_frame CHROME_H2_SETTINGS False @
        build_window_update 0 CHROME_H2_CONNECTION_WINDOW_UPDATE,
      last_seen_stream_id = 0, got_settings_ack = False, closed_by_goaway = False\<rparr>"

definition queue_out :: "bytes \<Rightarrow> h2_conn \<Rightarrow> h2_conn" where
  "queue_out b c = c\<lparr>outgoing := outgoing c @ b\<rparr>"

definition h2_get :: "h2_conn \<Rightarrow> u32 \<Rightarrow> h2_stream option" where
  "h2_get c sid = map_of (streams c) sid"

definition h2_put :: "u32 \<Rightarrow> h2_stream \<Rightarrow> h2_conn \<Rightarrow> h2_conn" where
  "h2_put sid s c = c\<lparr>streams := AList.update sid s (streams c)\<rparr>"

definition open_stream :: "h2_conn \<Rightarrow> (u32 \<times> h2_conn) option" where
  "open_stream c =
     (let sid = next_stream_id c
      in if unat sid + 2 \<ge> 2 ^ 32 then None
         else Some (sid, h2_put sid (stream_new sid (peer_initial_window c)) (c\<lparr>next_stream_id := sid + 2\<rparr>)))"

definition remove_stream :: "u32 \<Rightarrow> h2_conn \<Rightarrow> h2_stream option \<times> h2_conn" where
  "remove_stream sid c = (h2_get c sid, c\<lparr>streams := AList.delete sid (streams c)\<rparr>)"

definition active_stream_count :: "h2_conn \<Rightarrow> nat" where
  "active_stream_count c = length (filter (\<lambda>(sid, s). st_state s \<noteq> Closed) (streams c))"

definition send_headers :: "u32 \<Rightarrow> header list \<Rightarrow> bool \<Rightarrow> h2_conn \<Rightarrow> h2_conn" where
  "send_headers stream_id headers end_stream c =
     (let block = hpack_encode_block headers;
          flags = 0x4 OR (if end_stream then 0x1 else 0x0);
          wire = frame_encode \<lparr>fr_length = of_nat (length block), fr_typ = Headers, fr_flags = flags,
                   fr_stream_id = stream_id\<rparr> [] @ block;
          c = queue_out wire c
      in case h2_get c stream_id of
        None \<Rightarrow> c
      | Some s \<Rightarrow> h2_put stream_id (s\<lparr>st_state := if end_stream then HalfClosedLocal else Open, eof_local := end_stream\<rparr>) c)"

fun close_local :: "stream_state \<Rightarrow> stream_state" where
  "close_local Open = HalfClosedLocal"
| "close_local HalfClosedRemote = Closed"
| "close_local other = other"

fun close_remote :: "stream_state \<Rightarrow> stream_state" where
  "close_remote Open = HalfClosedRemote"
| "close_remote HalfClosedLocal = Closed"
| "close_remote other = other"

definition send_data :: "u32 \<Rightarrow> bytes \<Rightarrow> bool \<Rightarrow> h2_conn \<Rightarrow> h2_conn option" where
  "send_data stream_id data end_stream c =
     (let need = len_i32 data
      in if need > conn_send_window c then Some c
         else
           let flags = if end_stream then 0x1 else 0x0;
               wire = frame_encode \<lparr>fr_length = of_nat (length data), fr_typ = Data, fr_flags = flags,
                        fr_stream_id = stream_id\<rparr> [] @ data
           in Option.bind (i32_checked (conn_send_window c - need)) (\<lambda>w.
              let c = (queue_out wire c)\<lparr>conn_send_window := w\<rparr>
              in case h2_get c stream_id of
                None \<Rightarrow> Some c
              | Some s \<Rightarrow> Option.bind (i32_checked (send_window s - need)) (\<lambda>sw.
                  let s = s\<lparr>send_window := sw\<rparr>;
                      s = if end_stream then s\<lparr>eof_local := True, st_state := close_local (st_state s)\<rparr> else s
                  in Some (h2_put stream_id s c))))"

section \<open>Receiving a frame\<close>

definition apply_setting :: "u16 \<times> u32 \<Rightarrow> h2_conn \<Rightarrow> h2_conn" where
  "apply_setting = (\<lambda>(sid, val) c.
     if sid = setting_code InitialWindowSize then c\<lparr>peer_initial_window := sint val\<rparr>
     else if sid = setting_code MaxFrameSize then c\<lparr>peer_max_frame_size := val\<rparr>
     else if sid = setting_code MaxConcurrentStreams then c\<lparr>peer_max_concurrent := val\<rparr>
     else c)"

definition feed_settings :: "u8 \<Rightarrow> bytes \<Rightarrow> h2_conn \<Rightarrow> h2_conn" where
  "feed_settings flags body c =
     (if flags AND 0x1 \<noteq> 0 then c\<lparr>got_settings_ack := True\<rparr>
      else queue_out (build_settings_frame [] True) (fold apply_setting (decode_settings body) c))"

definition feed_ping :: "u8 \<Rightarrow> bytes \<Rightarrow> h2_conn \<Rightarrow> h2_conn" where
  "feed_ping flags body c =
     (if flags AND 0x1 = 0 \<and> length body = 8 then queue_out (build_ping_frame body True) c else c)"

definition feed_window_update :: "u32 \<Rightarrow> bytes \<Rightarrow> h2_conn \<Rightarrow> h2_conn" where
  "feed_window_update sid body c =
     (if length body < 4 then c
      else
        let inc = from_be [body ! 0, body ! 1, body ! 2, body ! 3] AND 0x7FFFFFFF :: u32
        in if sid = 0 then c\<lparr>conn_send_window := i32_saturating (conn_send_window c + sint inc)\<rparr>
           else case h2_get c sid of
             None \<Rightarrow> c
           | Some s \<Rightarrow> h2_put sid (s\<lparr>send_window := i32_saturating (send_window s + sint inc)\<rparr>) c)"

text \<open>The header block fragment of a HEADERS frame without padding and priority; \<open>None\<close> when the frame is malformed.\<close>

definition header_fragment :: "u8 \<Rightarrow> bytes \<Rightarrow> bytes option" where
  "header_fragment flags body =
     (let padded = flags AND 0x8 \<noteq> 0;
          priority = flags AND 0x20 \<noteq> 0
      in if padded \<and> body = [] then None
         else
           let pad_length = if padded then unat (body ! 0) else 0;
               payload = if padded then drop 1 body else body
           in if priority \<and> length payload < 5 then None
              else
                let payload = if priority then drop 5 payload else payload
                in if padded then
                     if length payload < pad_length then None else Some (take (length payload - pad_length) payload)
                   else Some payload)"

definition feed_headers :: "u32 \<Rightarrow> u8 \<Rightarrow> bytes \<Rightarrow> h2_conn \<Rightarrow> h2_conn" where
  "feed_headers sid flags body c =
     (let s = (case h2_get c sid of None \<Rightarrow> stream_new sid (peer_initial_window c) | Some s \<Rightarrow> s);
          c = h2_put sid s c
      in case header_fragment flags body of
        None \<Rightarrow> c
      | Some payload \<Rightarrow>
          let s = s\<lparr>headers_buf := headers_buf s @ payload\<rparr>;
              s = if flags AND 0x1 \<noteq> 0 then s\<lparr>eof_remote := True, st_state := close_remote (st_state s)\<rparr> else s
          in h2_put sid s c)"

definition feed_continuation :: "u32 \<Rightarrow> bytes \<Rightarrow> h2_conn \<Rightarrow> h2_conn" where
  "feed_continuation sid body c =
     (case h2_get c sid of None \<Rightarrow> c | Some s \<Rightarrow> h2_put sid (s\<lparr>headers_buf := headers_buf s @ body\<rparr>) c)"

definition data_payload :: "u8 \<Rightarrow> bytes \<Rightarrow> bytes" where
  "data_payload flags body =
     (if flags AND 0x8 \<noteq> 0 then
        if body = [] then []
        else
          let pad_length = unat (body ! 0); rest = drop 1 body
          in if length rest < pad_length then [] else take (length rest - pad_length) rest
      else body)"

text \<open>
  The aggressive replenishing of a window below 32768: the window and the increment that is announced.
  \<open>65_535 - window as u32\<close> underflows for a negative window.
\<close>

definition replenish :: "int \<Rightarrow> (int \<times> u32 option) option" where
  "replenish w =
     (if w < 32768 then
        let u = word_of_int w :: u32
        in if 65535 < u then None
           else let inc = 65535 - u in map_option (\<lambda>w'. (w', Some inc)) (i32_checked (w + sint inc))
      else Some (w, None))"

definition announce :: "u32 \<Rightarrow> u32 option \<Rightarrow> h2_conn \<Rightarrow> h2_conn" where
  "announce sid inc c = (case inc of None \<Rightarrow> c | Some i \<Rightarrow> queue_out (build_window_update sid i) c)"

definition feed_data :: "u32 \<Rightarrow> u8 \<Rightarrow> bytes \<Rightarrow> h2_conn \<Rightarrow> h2_conn option" where
  "feed_data sid flags body c =
     Option.bind (i32_checked (conn_recv_window c - len_i32 body)) (\<lambda>cw.
     Option.bind (case h2_get c sid of
         None \<Rightarrow> Some c
       | Some s \<Rightarrow> map_option (\<lambda>sw.
           let s = s\<lparr>data_buf := data_buf s @ data_payload flags body, recv_window := sw\<rparr>;
               s = if flags AND 0x1 \<noteq> 0 then s\<lparr>eof_remote := True, st_state := close_remote (st_state s)\<rparr> else s
           in h2_put sid s c) (i32_checked (recv_window s - len_i32 body))) (\<lambda>c.
     Option.bind (replenish cw) (\<lambda>(cw, inc).
     let c = (announce 0 inc c)\<lparr>conn_recv_window := cw\<rparr>
     in case h2_get c sid of
       None \<Rightarrow> Some c
     | Some s \<Rightarrow> map_option (\<lambda>(sw, inc). h2_put sid (s\<lparr>recv_window := sw\<rparr>) (announce sid inc c))
         (replenish (recv_window s)))))"

definition feed_frame :: "frame_header \<Rightarrow> bytes \<Rightarrow> h2_conn \<Rightarrow> h2_conn option" where
  "feed_frame hdr body c =
     (let sid = fr_stream_id hdr;
          c = if sid > last_seen_stream_id c then c\<lparr>last_seen_stream_id := sid\<rparr> else c
      in case fr_typ hdr of
        Settings \<Rightarrow> Some (feed_settings (fr_flags hdr) body c)
      | Ping \<Rightarrow> Some (feed_ping (fr_flags hdr) body c)
      | WindowUpdate \<Rightarrow> Some (feed_window_update sid body c)
      | Headers \<Rightarrow> Some (feed_headers sid (fr_flags hdr) body c)
      | Continuation \<Rightarrow> Some (feed_continuation sid body c)
      | Data \<Rightarrow> feed_data sid (fr_flags hdr) body c
      | RstStream \<Rightarrow> Some (case h2_get c sid of None \<Rightarrow> c | Some s \<Rightarrow> h2_put sid (s\<lparr>st_state := Closed\<rparr>) c)
      | Goaway \<Rightarrow> Some (c\<lparr>closed_by_goaway := True\<rparr>)
      | _ \<Rightarrow> Some c)"

definition drain_outgoing :: "h2_conn \<Rightarrow> bytes \<times> h2_conn" where
  "drain_outgoing c = (outgoing c, c\<lparr>outgoing := []\<rparr>)"

section \<open>Cutting received bytes into frames\<close>





section \<open>Frame headers\<close>

lemma be_bytes_4: "be_bytes 4 (w :: u32) = [ucast (drop_bit 24 w), ucast (drop_bit 16 w), ucast (drop_bit 8 w), ucast w]"
  by (simp add: be_bytes_def le_bytes_def upt_rec)

lemma from_be_be_bytes: "LENGTH('a) = 8 * n \<Longrightarrow> from_be (be_bytes n (w :: 'a::len word)) = w"
  by (simp add: from_be_def be_bytes_def from_le_le_bytes)

lemma from_be_4: "from_be [ucast (drop_bit 24 w), ucast (drop_bit 16 w), ucast (drop_bit 8 w), ucast w] = (w :: u32)"
  using from_be_be_bytes [of 4 w] by (simp add: be_bytes_4)

lemma length_frame [simp]: "length (frame_encode h out) = length out + 9"
  by (simp add: frame_encode_def Let_def)

lemma frame_encode_out: "frame_encode h out = out @ frame_encode h []"
  by (simp add: frame_encode_def Let_def)

lemma frame_masks: "0x00FFFFFF = (mask 24 :: u32)" "0xFF = (mask 8 :: u32)" "0x7FFFFFFF = (mask 31 :: u32)"
  by (simp_all add: mask_eq_exp_minus_1)

lemma three_bytes:
  "push_bit 16 (ucast (ucast (drop_bit 16 (l AND 0x00FFFFFF) AND 0xFF) :: u8)) OR
   push_bit 8 (ucast (ucast (drop_bit 8 (l AND 0x00FFFFFF) AND 0xFF) :: u8)) OR
   ucast (ucast ((l AND 0x00FFFFFF) AND 0xFF :: u32) :: u8) = (l AND 0x00FFFFFF :: u32)"
  unfolding frame_masks
proof (rule bit_word_eqI)
  fix n :: nat
  consider "n < 8" | "8 \<le> n" "n < 16" | "16 \<le> n" "n < 24" | "24 \<le> n" by linarith
  then show "bit (push_bit 16 (ucast (ucast (drop_bit 16 (l AND mask 24) AND mask 8) :: u8)) OR
      push_bit 8 (ucast (ucast (drop_bit 8 (l AND mask 24) AND mask 8) :: u8)) OR
      ucast (ucast ((l AND mask 24) AND mask 8 :: u32) :: u8) :: u32) n = bit (l AND mask 24) n"
    by cases (auto simp: bit_and_iff bit_or_iff bit_push_bit_iff bit_drop_bit_eq bit_mask_iff bit_ucast_iff)
qed

definition canonical_type :: "frame_type \<Rightarrow> bool" where
  "canonical_type t \<longleftrightarrow> frame_type_from_u8 (frame_type_to_u8 t) = t"

lemma frame_decode_encode:
  assumes "canonical_type (fr_typ h)"
  shows "frame_decode (frame_encode h [] @ rest) =
    Some (h\<lparr>fr_length := fr_length h AND 0x00FFFFFF, fr_stream_id := fr_stream_id h AND 0x7FFFFFFF\<rparr>)"
proof -
  define l sid where "l = fr_length h AND 0x00FFFFFF" and "sid = fr_stream_id h AND 0x7FFFFFFF"
  define b0 b1 b2 :: u8 where "b0 = ucast (drop_bit 16 l AND 0xFF)" and "b1 = ucast (drop_bit 8 l AND 0xFF)" and "b2 = ucast (l AND 0xFF)"
  define s0 s1 s2 s3 :: u8 where "s0 = ucast (drop_bit 24 sid)" and "s1 = ucast (drop_bit 16 sid)" and "s2 = ucast (drop_bit 8 sid)"
    and "s3 = ucast sid"
  have e: "frame_encode h [] @ rest = b0 # b1 # b2 # frame_type_to_u8 (fr_typ h) # fr_flags h # s0 # s1 # s2 # s3 # rest"
    unfolding frame_encode_def Let_def be_bytes_4 l_def [symmetric] sid_def [symmetric]
    by (simp add: b0_def b1_def b2_def s0_def s1_def s2_def s3_def)
  have "push_bit 16 (ucast b0) OR push_bit 8 (ucast b1) OR ucast b2 = l"
    unfolding b0_def b1_def b2_def l_def by (rule three_bytes)
  moreover have "from_be [s0, s1, s2, s3] AND 0x7FFFFFFF = sid"
    unfolding s0_def s1_def s2_def s3_def from_be_4 by (simp only: sid_def and.assoc and.idem)
  ultimately show ?thesis unfolding e frame_decode_def using assms
    by (cases h) (simp add: l_def sid_def canonical_type_def)
qed

lemma and_mask_id: "unat (w :: u32) < 2 ^ n \<Longrightarrow> w AND mask n = w"
  by (simp only: word_unat_eq_iff unat_mask mod_less)

definition frame_ok :: "frame_header \<Rightarrow> bool" where
  "frame_ok h \<longleftrightarrow> canonical_type (fr_typ h) \<and> unat (fr_length h) < 2 ^ 24 \<and> unat (fr_stream_id h) < 2 ^ 31"

lemma frame_roundtrip: "frame_ok h \<Longrightarrow> frame_decode (frame_encode h [] @ rest) = Some h"
  unfolding frame_ok_def using frame_decode_encode [of h rest] and_mask_id [of "fr_length h" 24] and_mask_id [of "fr_stream_id h" 31]
  by (simp only: frame_masks) simp

section \<open>Chunks and frames\<close>





section \<open>What a frame adds to a stream\<close>





lemma h2_get_put [simp]: "h2_get (h2_put i s c) j = (if j = i then Some s else h2_get c j)"
  by (simp add: h2_get_def h2_put_def update_conv)

lemma h2_get_other [simp]:
  "h2_get (c\<lparr>last_seen_stream_id := x\<rparr>) = h2_get c" "h2_get (c\<lparr>got_settings_ack := a\<rparr>) = h2_get c"
  "h2_get (c\<lparr>closed_by_goaway := a\<rparr>) = h2_get c" "h2_get (c\<lparr>conn_send_window := w\<rparr>) = h2_get c"
  "h2_get (c\<lparr>conn_recv_window := w\<rparr>) = h2_get c" "h2_get (queue_out b c) = h2_get c" "h2_get (announce i inc c) = h2_get c"
  "h2_get (c\<lparr>next_stream_id := x\<rparr>) = h2_get c"
  by (auto simp: h2_get_def queue_out_def announce_def split: option.split)

lemma h2_put_fields [simp]:
  "conn_recv_window (h2_put i s c) = conn_recv_window c" "peer_initial_window (h2_put i s c) = peer_initial_window c"
  "outgoing (h2_put i s c) = outgoing c"
  "conn_recv_window (queue_out b c) = conn_recv_window c" "peer_initial_window (queue_out b c) = peer_initial_window c"
  "outgoing (queue_out b c) = outgoing c @ b"
  "conn_recv_window (announce i inc c) = conn_recv_window c" "peer_initial_window (announce i inc c) = peer_initial_window c"
  by (auto simp: h2_put_def queue_out_def announce_def split: option.split)

lemma apply_settings_fields [simp]:
  "h2_get (fold apply_setting ss c) = h2_get c" "conn_recv_window (fold apply_setting ss c) = conn_recv_window c"
  "outgoing (fold apply_setting ss c) = outgoing c"
proof -
  have "h2_get (fold apply_setting ss c) = h2_get c \<and> conn_recv_window (fold apply_setting ss c) = conn_recv_window c \<and>
      outgoing (fold apply_setting ss c) = outgoing c"
    by (induction ss arbitrary: c) (auto simp: apply_setting_def h2_get_def)
  then show "h2_get (fold apply_setting ss c) = h2_get c" "conn_recv_window (fold apply_setting ss c) = conn_recv_window c"
    "outgoing (fold apply_setting ss c) = outgoing c" by simp_all
qed






section \<open>Flow control\<close>

text \<open>The frames the connection queues by itself, and the window they grant to the peer.\<close>

datatype reply = Ack | Pong bytes | Conn_update u32 | Stream_update u32 u32


fun grant :: "u32 \<Rightarrow> reply \<Rightarrow> int" where
  "grant sid (Stream_update i n) = (if i = sid then uint n else 0)"
| "grant sid _ = 0"

fun conn_grant :: "reply \<Rightarrow> int" where
  "conn_grant (Conn_update n) = uint n"
| "conn_grant _ = 0"

definition granted :: "u32 \<Rightarrow> reply list \<Rightarrow> int" where
  "granted sid rs = sum_list (map (grant sid) rs)"

definition conn_granted :: "reply list \<Rightarrow> int" where
  "conn_granted rs = sum_list (map conn_grant rs)"





lemma len_i32_small: "length b \<le> 32768 \<Longrightarrow> len_i32 b = int (length b)"
  unfolding len_i32_def sint_uint by (simp add: unsigned_of_nat signed_take_bit_int_eq_self take_bit_nat_eq_self)



definition updates :: "(u32 \<Rightarrow> reply) \<Rightarrow> u32 option \<Rightarrow> reply list" where
  "updates f inc = (case inc of None \<Rightarrow> [] | Some i \<Rightarrow> [f i])"


lemma granted_simps [simp]:
  "granted sid [] = 0" "conn_granted [] = 0" "granted sid (rs @ qs) = granted sid rs + granted sid qs"
  "conn_granted (rs @ qs) = conn_granted rs + conn_granted qs"
  "granted sid (updates Conn_update inc) = 0" "conn_granted (updates (Stream_update i) inc) = 0"
  "granted sid (updates (Stream_update i) inc) = (case inc of None \<Rightarrow> 0 | Some n \<Rightarrow> if i = sid then uint n else 0)"
  "conn_granted (updates Conn_update inc) = (case inc of None \<Rightarrow> 0 | Some n \<Rightarrow> uint n)"
  "granted sid [Ack] = 0" "conn_granted [Ack] = 0" "granted sid [Pong b] = 0" "conn_granted [Pong b] = 0"
  by (simp_all add: granted_def conn_granted_def updates_def split: option.split)









section \<open>What the connection guarantees\<close>















text \<open>A server that announces an initial window of zero, which RFC 9113 allows, makes the next byte of data on a new stream
  subtract from the wrong window: \<open>65_535 - window as u32\<close> underflows.
\<close>

theorem h2_small_window_panics:
  "\<exists>c c'. feed_frame \<lparr>fr_length = 6, fr_typ = Settings, fr_flags = 0, fr_stream_id = 0\<rparr> [0, 4, 0, 0, 0, 0] new_client = Some c \<and>
    open_stream c = Some (1, c') \<and>
    feed_frame \<lparr>fr_length = 1, fr_typ = Data, fr_flags = 0, fr_stream_id = 1\<rparr> [b] c' = None"
proof -
  have s: "decode_settings [0, 4, 0, 0, 0, 0] = [(4, 0)]"
    by (subst decode_settings.simps, subst decode_settings.simps) (simp add: from_be_def)
  have l: "len_i32 [b] = 1" using len_i32_small [of "[b]"] by simp
  show ?thesis
    by (simp add: feed_frame_def feed_settings_def s apply_setting_def open_stream_def new_client_def queue_out_def
      feed_data_def l h2_get_def h2_put_def stream_new_def i32_checked_def i32_range_def replenish_def announce_def Let_def)
qed

section \<open>A request on the wire\<close>

lemma length_encode_rest: "unat rem < 2 ^ (7 * Suc k) \<Longrightarrow> length (encode_int_rest [] rem) \<le> Suc k"
proof (induction k arbitrary: rem)
  case 0
  then show ?case by (simp add: encode_rest_simps(1) word_less_nat_alt)
next
  case (Suc k)
  show ?case
  proof (cases "rem < 128")
    case False
    have "(2 :: nat) ^ (7 * Suc (Suc k)) = 2 ^ (7 * Suc k) * 128" by (simp add: power_add)
    then have "unat (drop_bit 7 rem) < 2 ^ (7 * Suc k)" using Suc.prems by (simp add: unat_drop less_mult_imp_div_less)
    then show ?thesis using Suc.IH False by (simp add: encode_rest_simps(2))
  qed (simp add: encode_rest_simps(1))
qed

lemma length_encode_int: "p < 32 \<Longrightarrow> length (encode_int [] v p fb) \<le> 6"
proof -
  assume p: "p < 32"
  have "length (encode_int_rest [] rem) \<le> 5" for rem
    using length_encode_rest [of rem 4] less_trans [OF unat_32_less [of rem], of "2 ^ 35"] by simp
  then show ?thesis using encode_int_rest_out [of "[fb OR ucast (mask p :: u32)]"] p by (simp add: encode_int_mask)
qed

lemma length_encode_string: "length (encode_literal_string [] s) \<le> length s + 6"
  using length_encode_int [of 7 "of_nat (length s)" 0] length_encode_int [of 7 "of_nat (length (hpack_huffman_encode s))" "0x80"]
  by (simp add: encode_literal_string_def Let_def)

lemma length_encode_header: "length (hpack_encode_header [] n v) \<le> length n + length v + 13"
proof -
  have out: "length (encode_literal_string out s) \<le> length out + length s + 6" for out s
    using encode_string_out [of out s] length_encode_string [of s] by simp
  have "length (encode_literal_string (encode_literal_string [0x40] (lowercase n)) v) \<le> length n + length v + 13"
    using out [of "encode_literal_string [0x40] (lowercase n)" v] out [of "[0x40]" "lowercase n"] by simp
  moreover have "length (encode_literal_string (encode_int [] (ucast x) 6 0x40) v) \<le> length n + length v + 13" for x :: u8
    using out [of "encode_int [] (ucast x) 6 0x40" v] length_encode_int [of 6 "ucast x" "0x40"] by simp
  moreover have "length (encode_int [] w 7 0x80) \<le> length n + length v + 13" for w
    using length_encode_int [of 7 w "0x80"] by simp
  ultimately show ?thesis by (simp add: hpack_encode_header_def Let_def split: sum.split option.split)
qed

lemma length_encode_block: "length (hpack_encode_block hs) \<le> sum_list (map (\<lambda>(n, v). length n + length v + 13) hs)"
proof (induction hs)
  case (Cons h hs)
  obtain n v where h: "h = (n, v)" by force
  show ?case using Cons length_encode_header [of n v] by (simp add: h encode_block_Cons)
qed (simp add: hpack_encode_block_def)

text \<open>C28: A request is readable by the peer: the bytes \<open>send_headers\<close> queues parse as one HEADERS frame with END-HEADERS
  set and the stream's identifier, and its payload decodes, under any dynamic table, to the headers that were passed in.
\<close>

theorem h2_request_readable:
  assumes "list_all header_ok hs" "length (hpack_encode_block hs) < 2 ^ 24" "unat sid < 2 ^ 31"
  shows "\<exists>wire. outgoing (send_headers sid hs end_stream c) = outgoing c @ wire \<and>
    frame_decode wire = Some \<lparr>fr_length = of_nat (length wire - 9), fr_typ = Headers,
      fr_flags = if end_stream then 5 else 4, fr_stream_id = sid\<rparr> \<and>
    hpack_decode_block (drop 9 wire) t = (Inr (map sent_header hs), fold table_after hs t)"
proof -
  let ?block = "hpack_encode_block hs"
  define h where "h = \<lparr>fr_length = of_nat (length ?block), fr_typ = Headers, fr_flags = if end_stream then 5 else 4, fr_stream_id = sid\<rparr>"
  have "unat (of_nat (length ?block) :: u32) = length ?block" using assms(2) by (simp add: unat_of_nat take_bit_nat_eq_self)
  then have "frame_ok h" using assms(2,3) by (simp add: h_def frame_ok_def canonical_type_def frame_type_from_u8_def)
  then have d: "frame_decode (frame_encode h [] @ ?block) = Some h" by (rule frame_roundtrip)
  have "(4 :: u8) OR (if end_stream then 1 else 0) = (if end_stream then 5 else 4)" by simp
  then have o: "outgoing (send_headers sid hs end_stream c) = outgoing c @ frame_encode h [] @ ?block"
    by (simp add: send_headers_def Let_def h_def split: option.split)
  have b: "hpack_decode_block ?block t = (Inr (map sent_header hs), fold table_after hs t)"
    using decode_fields_encoded [of 0 ?block hs t "[]"] assms(1) by (simp add: hpack_decode_block_def)
  show ?thesis using o d b by (intro exI [of _ "frame_encode h [] @ ?block"]) (simp add: h_def)
qed

definition demo_request :: "header list" where
  "demo_request = [(ascii '':method'', ascii ''GET''), (ascii '':path'', ascii ''/a'')]"

theorem h2_request_readable_witness:
  "\<exists>wire. outgoing (send_headers 1 demo_request True new_client) = outgoing new_client @ wire \<and>
    fst (hpack_decode_block (drop 9 wire) hpack_table_new) = Inr demo_request"
proof -
  have ok: "list_all header_ok demo_request" by (simp add: demo_request_def header_ok_def ascii_def)
  have "sum_list (map (\<lambda>(n, v). length n + length v + 13) demo_request) < 2 ^ 24" by (simp add: demo_request_def ascii_def)
  then have l: "length (hpack_encode_block demo_request) < 2 ^ 24" using length_encode_block [of demo_request] by linarith
  have m: "map sent_header demo_request = demo_request"
    by (simp add: demo_request_def sent_header_def ascii_def lowercase_def lower_byte_def)
  show ?thesis using h2_request_readable [OF ok l, of 1 True new_client hpack_table_new] by (auto simp: m)
qed

end
