(* ===== verification/Spec2Isabelle.thy ===== *)
theory Spec2Isabelle
  imports Proto Dom_Index Dom_Order Dom_Stage Dom_Traversal Gzip Btree_Map Gc Js_Objects Key_Order Sched Aead Rsa_Sign Rsa_Oaep Http2
begin

text \<open>
  \<^bold>\<open>Verification library of the Conclave browser engine.\<close>

  Conclave is a browser in Rust, one crate per part under \<^verbatim>\<open>src/crates/\<close>. The shell
  (\<^verbatim>\<open>cv_browser\<close>, \<^verbatim>\<open>cv_ui\<close>) fetches documents (\<^verbatim>\<open>cv_net\<close>, which unpacks bodies with
  \<^verbatim>\<open>cv_compression\<close>), parses them into a document tree (\<^verbatim>\<open>cv_html\<close>, \<^verbatim>\<open>cv_dom\<close>, whose nodes
  live in the slab of \<^verbatim>\<open>cv_arena\<close>), runs scripts (\<^verbatim>\<open>cv_js\<close>), styles, lays out and paints, and
  hands frames to the browser process over \<^verbatim>\<open>cv_ipc\<close>. Compute work runs on the pool of
  \<^verbatim>\<open>cv_sched\<close>; IndexedDB data lives in the page tree of \<^verbatim>\<open>cv_storage\<close>. The library models the
  parts whose state the others rely on.

  \<^bold>\<open>Conventions.\<close> Machine integers are words of their width; \<open>usize\<close> lengths are natural numbers.
  A struct is a record and an enum a datatype; a \<open>Result\<close> is a sum, with the error on the left. An
  operation that can panic (an index out of range, a failed \<open>expect\<close>, \<open>unreachable!\<close>) returns an
  option whose \<open>None\<close> is the panic, or has a panic constructor among its errors. A mutable borrow
  handed to the caller is an update by a function. Loops are recursive functions with termination
  proofs, or partial functions whose \<open>None\<close> includes not returning where a malformed structure can
  make the code loop; then the properties show that they return on every reachable state. No
  definition takes fuel. \<^theory_text>\<open>Prelude\<close> holds the shared vocabulary.

  \<^bold>\<open>Arena\<close> (\<^theory_text>\<open>Arena\<close>: \<^verbatim>\<open>cv_arena/src/lib.rs\<close>). The slab with its free list and generations.
  Handles are never issued twice, a removed handle never reads a later value, and the slab implements
  a finite map; the locale \<open>generational_store\<close> states the interface and its laws.

  \<^bold>\<open>Inter-process messages\<close> (\<^theory_text>\<open>Codec\<close>: \<^verbatim>\<open>cv_ipc/src/codec.rs\<close>, \<^verbatim>\<open>pipe.rs\<close>; \<^theory_text>\<open>Proto\<close>:
  \<^verbatim>\<open>renderer_proto.rs\<close>). Primitive codecs, UTF-8 validation, the in-process pipe and the renderer
  message catalogue with its self-framed format: encoding is inverted by decoding in front of any
  further bytes (locales \<open>codec\<close> and \<open>framed_codec\<close>), no strict prefix decodes, whatever decodes is well-formed and stays inside the buffer,
  and the pipe delivers in order.

  \<^bold>\<open>Document\<close> (\<^theory_text>\<open>Dom\<close> with the definitions; \<^theory_text>\<open>Dom_Tree\<close>, \<^theory_text>\<open>Dom_Index\<close>, \<^theory_text>\<open>Dom_Order\<close>,
  \<^theory_text>\<open>Dom_Stage\<close>, \<^theory_text>\<open>Dom_Traversal\<close>: \<^verbatim>\<open>cv_dom/src/lib.rs\<close>, \<^verbatim>\<open>invalidation.rs\<close>, \<^verbatim>\<open>mutation.rs\<close>,
  \<^verbatim>\<open>traversal.rs\<close>, \<^verbatim>\<open>range.rs\<close>). Every reachable
  document is a forest; what each editing operation does on each branch; the id index; document order;
  the invalidation lattice and the mutation observers, with the cases in which the code breaks them;
  what a tree walker visits and what deleting a range removes.

  \<^bold>\<open>Compression\<close> (\<^theory_text>\<open>Bitstream\<close>, \<^theory_text>\<open>Deflate\<close>, \<^theory_text>\<open>Huffman\<close>, \<^theory_text>\<open>Lz77\<close>, \<^theory_text>\<open>Gzip\<close>:
  \<^verbatim>\<open>cv_compression/src/deflate.rs\<close>, \<^verbatim>\<open>encode.rs\<close>, \<^verbatim>\<open>gzip.rs\<close>). Bit reader and writer, canonical
  Huffman tables, block decoding, the hash-chain encoder and the two framings: decompression inverts
  compression on every input and never indexes out of bounds, and the chunked Adler sum is exact.

  \<^bold>\<open>Storage\<close> (\<^theory_text>\<open>Btree\<close> with the definitions; \<^theory_text>\<open>Btree_Tree\<close>, \<^theory_text>\<open>Btree_Store\<close>, \<^theory_text>\<open>Btree_Map\<close>:
  \<^verbatim>\<open>cv_storage/src/btree.rs\<close>). The tree is stated over the locale \<open>lawful_store\<close> of page stores and
  interpreted on the in-memory store. Insertion and deletion act on the map that lookup reads, except
  for the updates that the code loses; the descents return because the pages form a tree.

  \<^bold>\<open>Heap\<close> (\<^theory_text>\<open>Gc\<close>: \<^verbatim>\<open>cv_js/src/gc.rs\<close>). Mark and sweep frees exactly what the roots do not reach,
  and freed handles stay dead for \<open>2 ^ 32\<close> operations; the marking loop terminates because each pass
  blackens a slot.

  \<^bold>\<open>Objects\<close> (\<^theory_text>\<open>Ordered\<close> with the definitions; \<^theory_text>\<open>Shape_Table\<close>, \<^theory_text>\<open>Ordered_Map\<close>,
  \<^theory_text>\<open>Inline_Cache\<close>, \<^theory_text>\<open>Js_Objects\<close>, \<^theory_text>\<open>Key_Order\<close>: \<^verbatim>\<open>cv_js/src/shapes.rs\<close>, \<^verbatim>\<open>ordered.rs\<close>,
  and from \<^verbatim>\<open>bytecode.rs\<close> and \<^verbatim>\<open>interp.rs\<close> the inline cache and the key order). The process-global
  shape table, version counter and mode switch are one world threaded through the operations.
  \<open>Js_Objects\<close> runs any sequence of operations on any number of objects and cache sites; the locale
  \<open>budgeted_simulation\<close> carries the simulation from one step to runs. The budget counts the shapes and
  versions a run may take: up to \<open>2 ^ 32 - 3\<close>, so that no shape reaches the two reserved identifiers
  and no version repeats.

  \<^bold>\<open>Work pool\<close> (\<^theory_text>\<open>Sched\<close>: \<^verbatim>\<open>cv_sched/src/lib.rs\<close>). The queue satisfies the locale \<open>fifo_bands\<close>.
  Workers, submitters and the owner are a step relation; invariants by rule induction give that no
  wakeup is lost and that dropping the pool ends with every job run, and a run with a panicking job
  shows when jobs are lost.

  \<^bold>\<open>Big integers\<close> (\<^theory_text>\<open>Big_Uint\<close>, \<^theory_text>\<open>Big_Div\<close>, \<^theory_text>\<open>Big_Mod\<close>, \<^theory_text>\<open>Prime_Test\<close>, over the word lemmas of
  \<^theory_text>\<open>Word_Facts\<close>: \<^verbatim>\<open>cv_crypto/src/bigint.rs\<close>). Lists of 64-bit limbs with 128-bit intermediates, as in the
  code; \<open>big_val\<close> is the number they stand for. Every operation is that of the natural numbers; Algorithm D
  keeps its indices in range, its quotient estimate in 128 bits and its correction loop finite; the inverse
  exists exactly for coprime arguments; Miller-Rabin never rejects a prime. Random bytes come from a
  state-passing parameter, and a draw loop that accepts nothing is \<open>None\<close>.

  \<^bold>\<open>Authenticated encryption\<close> (\<^theory_text>\<open>Poly1305\<close>, \<^theory_text>\<open>Chacha\<close>, \<^theory_text>\<open>Aead\<close>: \<^verbatim>\<open>poly1305.rs\<close>, \<^verbatim>\<open>chacha20.rs\<close>,
  \<^verbatim>\<open>chacha20poly1305.rs\<close>, \<^verbatim>\<open>subtle.rs\<close> of \<^verbatim>\<open>cv_crypto/src\<close>). The limb code is the polynomial MAC of RFC 8439 for
  every way of cutting the message, sealing is keystream and tag of that RFC, and opening accepts exactly what
  sealing produces.

  \<^bold>\<open>Hashes and key derivation\<close> (\<^theory_text>\<open>Hash_Stream\<close> with the locale \<open>block_stream\<close>; \<^theory_text>\<open>Sha2\<close>, \<^theory_text>\<open>Md_Hash\<close>:
  \<^verbatim>\<open>sha256.rs\<close>, \<^verbatim>\<open>sha384.rs\<close>, \<^verbatim>\<open>sha512.rs\<close>, \<^verbatim>\<open>sha1.rs\<close>, \<^verbatim>\<open>md5.rs\<close>, \<^verbatim>\<open>ripemd160.rs\<close>; \<^theory_text>\<open>Hmac\<close> with the locale
  \<open>hash_function\<close>: \<^verbatim>\<open>hmac.rs\<close>, \<^verbatim>\<open>hkdf.rs\<close>, \<^verbatim>\<open>pbkdf2.rs\<close>). The compression functions are transcribed; the theorems
  are about everything around them: any sequence of updates gives the padded message folded block by block
  (FIPS 180-4, RFC 1321), the HMACs are the nested hash of RFC 2104, HKDF and PBKDF2 those of RFC 5869 and
  RFC 8018 within their output limits.

  \<^bold>\<open>RSA\<close> (\<^theory_text>\<open>Rsa\<close> with the definitions; \<^theory_text>\<open>Rsa_Key\<close>, \<^theory_text>\<open>Rsa_Sign\<close>, \<^theory_text>\<open>Rsa_Oaep\<close>: \<^verbatim>\<open>cv_crypto/src/rsa.rs\<close>). The
  private-key primitive is exponentiation modulo \<open>n\<close> except where its CRT step wraps around, which key
  generation does not exclude; generated keys satisfy the RSA equations; signatures verify and OAEP decrypts,
  with the exceptions the code makes. The equations ask of the factors only that \<open>c ^ p\<close> is \<open>c\<close> modulo \<open>p\<close>,
  which holds for primes and for the Carmichael numbers of the example key. Nothing is claimed about
  hardness, and timing is not modelled.

  \<^bold>\<open>HTTP/2 header compression\<close> (\<^theory_text>\<open>Hpack_Huffman\<close>, \<^theory_text>\<open>Hpack\<close>: the HPACK part of
  \<^verbatim>\<open>cv_net/src/http2.rs\<close> with \<^verbatim>\<open>hpack_huffman.in\<close>). The code table is checked to be canonical in one pass,
  from which unique decoding follows; header blocks survive encoding and decoding under every state of the
  receiver's dynamic table; the table is that of RFC 7541 and respects its limit. Where an integer overflows is a
  value of its own.

  \<^bold>\<open>HTTP/2 connection\<close> (\<^theory_text>\<open>Http2\<close>: frames, streams and the connection of \<^verbatim>\<open>cv_net/src/http2.rs\<close>, and
  the loop of \<open>h2_drive_request\<close> in \<^verbatim>\<open>http1.rs\<close> that cuts received bytes into frames). Any chunking of the wire gives
  the same connection; interleaved streams get their own header blocks and bodies; window updates account for every
  byte received, and the frames on which the window arithmetic panics are excluded by a stated condition; a queued
  request decodes to its headers. The socket around the loop is not modelled.

  \<^bold>\<open>Not modelled.\<close> Operating-system calls (sockets, named pipes, sandbox, windows, GPU, audio), the
  JavaScript language proper (lexer, parser, interpreter, bytecode machine, code generators), HTML, CSS,
  layout and painting, image and media codecs, the network protocols other than HTTP/2 frames and the Brotli decoder; of the
  cryptography AES, the elliptic curves, SHA-3, scrypt and the certificate formats. Within the modelled files: formatting instances, allocation hints and statistics counters; the
  class-name search of the document; the use of the prototype entry of the
  inline cache and the write cache.
\<close>

end
